(* ===== verification/Prelude.thy ===== *)
theory Prelude
  imports Main "HOL-Library.Word" "HOL-Library.Code_Target_Nat"
begin

unbundle bit_operations_syntax

text \<open>
  Shared vocabulary of the development: machine integers, byte slices, results, ASCII case
  folding and the splitting of dotted strings, each with the generic lemmas that the component
  theories use.  A Rust \<open>&[u8]\<close> is a list of 8-bit words; \<open>usize\<close> is \<open>nat\<close> (a Rust slice is at
  most \<open>isize::MAX\<close> bytes long, so the \<open>saturating_add\<close> of cursors that index a slice never
  reaches its limit, and \<open>saturating_sub\<close> is subtraction on \<open>nat\<close>); counters that the code
  saturates keep their limit written out (\<open>sat_add\<close>).
\<close>

type_synonym u8 = "8 word"
type_synonym u16 = "16 word"
type_synonym u32 = "32 word"
type_synonym u64 = "64 word"
type_synonym bytes = "u8 list"

named_theorems result_simps "evaluation and inversion rules for results"
named_theorems bytes_simps "rules for slices, splits and case folding"

subsection \<open>Results\<close>

text \<open>The \<open>?\<close> operator and \<open>Option::ok_or\<close> of Rust: \<open>Inl\<close> is \<open>Err\<close>, \<open>Inr\<close> is \<open>Ok\<close>.\<close>

definition rbind :: "'e + 'a \<Rightarrow> ('a \<Rightarrow> 'e + 'b) \<Rightarrow> 'e + 'b" where
  "rbind m f = (case m of Inl e \<Rightarrow> Inl e | Inr x \<Rightarrow> f x)"

definition ok_or :: "'a option \<Rightarrow> 'e \<Rightarrow> 'e + 'a" where
  "ok_or x e = (case x of None \<Rightarrow> Inl e | Some v \<Rightarrow> Inr v)"

definition is_ok :: "'e + 'a \<Rightarrow> bool" where
  "is_ok r = (case r of Inl _ \<Rightarrow> False | Inr _ \<Rightarrow> True)"

definition ok :: "'e + 'a \<Rightarrow> 'a option" where
  "ok r = (case r of Inl _ \<Rightarrow> None | Inr x \<Rightarrow> Some x)"

lemma rbind_simps [simp, result_simps]:
  "rbind (Inl e) f = Inl e"
  "rbind (Inr x) f = f x"
  by (simp_all add: rbind_def)

lemma rbind_eq_Inr [result_simps]: "rbind m f = Inr y \<longleftrightarrow> (\<exists>x. m = Inr x \<and> f x = Inr y)"
  by (cases m) auto

lemma rbind_cong [fundef_cong]:
  "m = m' \<Longrightarrow> (\<And>x. m' = Inr x \<Longrightarrow> f x = g x) \<Longrightarrow> rbind m f = rbind m' g"
  by (cases m') auto

lemma ok_or_simps [simp, result_simps]:
  "ok_or None e = Inl e"
  "ok_or (Some v) e = Inr v"
  by (simp_all add: ok_or_def)

lemma ok_or_eq_Inr [simp]: "ok_or x e = Inr v \<longleftrightarrow> x = Some v"
  by (cases x) auto

lemma is_ok_simps [simp]: "is_ok (Inl e) = False" "is_ok (Inr x) = True"
  by (simp_all add: is_ok_def)

lemma ok_simps [simp]: "ok (Inl e) = None" "ok (Inr x) = Some x"
  by (simp_all add: ok_def)

lemma ok_eq_Some [simp]: "ok r = Some x \<longleftrightarrow> r = Inr x"
  by (cases r) auto

subsection \<open>Slices\<close>

text \<open>\<open>xs.get(i)\<close>, \<open>xs.get(a..b)\<close> and \<open>xs.get_mut(a..b)\<close> followed by \<open>copy_from_slice\<close>.\<close>

definition get :: "'a list \<Rightarrow> nat \<Rightarrow> 'a option" where
  "get xs i = (if i < length xs then Some (xs ! i) else None)"

definition slice :: "'a list \<Rightarrow> nat \<Rightarrow> nat \<Rightarrow> 'a list option" where
  "slice xs a b = (if a \<le> b \<and> b \<le> length xs then Some (take (b - a) (drop a xs)) else None)"

definition put_slice :: "'a list \<Rightarrow> nat \<Rightarrow> 'a list \<Rightarrow> 'a list option" where
  "put_slice xs a ys =
     (if a + length ys \<le> length xs
      then Some (take a xs @ ys @ drop (a + length ys) xs) else None)"

lemma get_Some: "get xs i = Some x \<longleftrightarrow> i < length xs \<and> xs ! i = x"
  by (auto simp: get_def)

lemma get_None: "get xs i = None \<longleftrightarrow> length xs \<le> i"
  by (auto simp: get_def)

lemma slice_Some_iff:
  "slice xs a b = Some ys \<longleftrightarrow> a \<le> b \<and> b \<le> length xs \<and> ys = take (b - a) (drop a xs)"
  by (auto simp: slice_def)

lemma slice_None_iff: "slice xs a b = None \<longleftrightarrow> b < a \<or> length xs < b"
  by (auto simp: slice_def)

lemma slice_length: "slice xs a b = Some ys \<Longrightarrow> length ys = b - a"
  by (auto simp: slice_def split: if_splits)

lemma slice_nth: "slice xs a b = Some ys \<Longrightarrow> i < b - a \<Longrightarrow> ys ! i = xs ! (a + i)"
  by (auto simp: slice_def split: if_splits)

lemma slice_append_mid: "slice (xs @ ys @ zs) (length xs) (length xs + length ys) = Some ys"
  by (simp add: slice_def)

lemma slice_cong:
  assumes "length xs = length xs'" "\<And>i. a \<le> i \<Longrightarrow> i < b \<Longrightarrow> xs ! i = xs' ! i"
  shows "slice xs a b = slice xs' a b"
proof (cases "a \<le> b \<and> b \<le> length xs")
  case True
  then have "take (b - a) (drop a xs) = take (b - a) (drop a xs')"
    using assms by (intro nth_equalityI) auto
  with True assms(1) show ?thesis by (simp add: slice_def)
qed (auto simp: slice_def assms(1))

lemma put_slice_Some_iff:
  "put_slice xs a ys = Some zs \<longleftrightarrow>
     a + length ys \<le> length xs \<and> zs = take a xs @ ys @ drop (a + length ys) xs"
  by (auto simp: put_slice_def)

lemma put_slice_length: "put_slice xs a ys = Some zs \<Longrightarrow> length zs = length xs"
  by (auto simp: put_slice_def split: if_splits)

lemma put_slice_nth_outside:
  assumes "put_slice xs a ys = Some zs" "i < a \<or> a + length ys \<le> i"
  shows "zs ! i = xs ! i"
proof (cases "i < a")
  case True
  with assms show ?thesis by (simp add: put_slice_Some_iff nth_append)
next
  case False
  with assms have i: "a + length ys \<le> i" "a + length ys \<le> length xs"
    by (auto simp: put_slice_Some_iff)
  then have "\<not> i - a < length ys" "\<not> i < a" by simp_all
  with assms(1) i show ?thesis
    by (simp add: put_slice_Some_iff nth_append)
qed

lemma put_slice_nth_inside:
  assumes "put_slice xs a ys = Some zs" "i < length ys"
  shows "zs ! (a + i) = ys ! i"
  using assms by (auto simp: put_slice_Some_iff nth_append)

subsection \<open>Machine integers\<close>

text \<open>\<open>saturating_add\<close> on an unsigned counter with maximum \<open>m\<close>, and on the header's \<open>u16\<close>.\<close>

definition sat_add :: "nat \<Rightarrow> nat \<Rightarrow> nat \<Rightarrow> nat" where
  "sat_add m a b = min (a + b) m"

abbreviation u8_max :: nat where "u8_max \<equiv> 255"
abbreviation u16_max :: nat where "u16_max \<equiv> 65535"
abbreviation u32_max :: nat where "u32_max \<equiv> 4294967295"
abbreviation u64_max :: nat where "u64_max \<equiv> 18446744073709551615"

definition sat_inc16 :: "u16 \<Rightarrow> u16" where
  "sat_inc16 w = (if w = - 1 then w else w + 1)"

text \<open>\<open>u16::try_from(n)\<close>: \<open>None\<close> stands for \<open>TryFromIntError\<close>.\<close>

definition u16_try_from :: "nat \<Rightarrow> u16 option" where
  "u16_try_from n = (if n \<le> u16_max then Some (word_of_nat n) else None)"

lemma u16_try_from_Some:
  "u16_try_from n = Some w \<longleftrightarrow> n \<le> u16_max \<and> unat w = n"
  by (auto simp: u16_try_from_def unat_of_nat take_bit_eq_mod)

lemma unat_u16_le [simp]: "unat (w :: u16) \<le> u16_max"
proof -
  have "unat w < 2 ^ LENGTH(16)" by (rule unsigned_less)
  then show ?thesis by simp
qed

lemma unat_u8_le [simp]: "unat (w :: u8) \<le> u8_max"
proof -
  have "unat w < 2 ^ LENGTH(8)" by (rule unsigned_less)
  then show ?thesis by simp
qed

lemma unat_u32_le [simp]: "unat (w :: u32) \<le> u32_max"
proof -
  have "unat w < 2 ^ LENGTH(32)" by (rule unsigned_less)
  then show ?thesis by simp
qed

lemma u16_try_from_unat [simp]: "u16_try_from (unat (w :: u16)) = Some w"
  by (simp add: u16_try_from_def)

text \<open>Big-endian encodings: \<open>to_be_bytes\<close> and \<open>from_be_bytes\<close>.\<close>

definition to_be16 :: "u16 \<Rightarrow> bytes" where
  "to_be16 v = [word_of_nat (unat v div 256), word_of_nat (unat v)]"

definition from_be16 :: "u8 \<Rightarrow> u8 \<Rightarrow> u16" where
  "from_be16 a b = word_of_nat (unat a * 256 + unat b)"

definition to_be32 :: "u32 \<Rightarrow> bytes" where
  "to_be32 v = [word_of_nat (unat v div 16777216), word_of_nat (unat v div 65536),
                word_of_nat (unat v div 256), word_of_nat (unat v)]"

definition from_be32 :: "u8 \<Rightarrow> u8 \<Rightarrow> u8 \<Rightarrow> u8 \<Rightarrow> u32" where
  "from_be32 a b c d =
     word_of_nat (unat a * 16777216 + unat b * 65536 + unat c * 256 + unat d)"

lemma length_to_be [simp]: "length (to_be16 v) = 2" "length (to_be32 w) = 4"
  by (simp_all add: to_be16_def to_be32_def)

lemma unat_u8_of_nat: "unat (word_of_nat n :: u8) = n mod 256"
  by (simp add: unat_of_nat take_bit_eq_mod)

lemma unat_u16_of_nat: "unat (word_of_nat n :: u16) = n mod 65536"
  by (simp add: unat_of_nat take_bit_eq_mod)

lemma unat_u32_of_nat: "unat (word_of_nat n :: u32) = n mod 4294967296"
  by (simp add: unat_of_nat take_bit_eq_mod)

lemma unat_from_be16: "unat (from_be16 a b) = unat a * 256 + unat b"
proof -
  have "unat a \<le> 255" "unat b \<le> 255" by simp_all
  then have "unat a * 256 + unat b < 65536" by linarith
  then show ?thesis unfolding from_be16_def unat_u16_of_nat by simp
qed

lemma unat_to_be16:
  "map unat (to_be16 v) = [unat v div 256, unat v mod 256]"
proof -
  have "unat v \<le> 65535" by simp
  then have "unat v div 256 < 256" by linarith
  then show ?thesis unfolding to_be16_def list.map unat_u8_of_nat by simp
qed

lemma unat_to_be16_nth [simp]:
  "unat (to_be16 v ! 0) = unat v div 256" "unat (to_be16 v ! Suc 0) = unat v mod 256"
  using unat_to_be16 [of v] by (simp_all add: to_be16_def)

lemma from_to_be16 [simp]: "from_be16 (to_be16 v ! 0) (to_be16 v ! Suc 0) = v"
  by (simp add: word_unat_eq_iff unat_from_be16)

lemma to_from_be16: "to_be16 (from_be16 a b) = [a, b]"
proof -
  have "unat b \<le> 255" by simp
  then have "unat b < 256" by linarith
  then have "map unat (to_be16 (from_be16 a b)) = map unat [a, b]"
    unfolding unat_to_be16 by (simp add: unat_from_be16 less_Suc_eq_le)
  moreover have "inj (unat :: u8 \<Rightarrow> nat)" by (intro injI) (simp add: word_unat_eq_iff)
  ultimately show ?thesis by (metis map_injective)
qed

lemma be32_digits:
  fixes n :: nat
  assumes "n < 4294967296"
  shows "n div 16777216 mod 256 * 16777216 + n div 65536 mod 256 * 65536
           + n div 256 mod 256 * 256 + n mod 256 = n"
proof -
  define a b c where "a = n div 256" and "b = a div 256" and "c = b div 256"
  have "n div 65536 = b" "n div 16777216 = c"
    by (simp_all add: a_def b_def c_def flip: div_mult2_eq)
  moreover have "n = a * 256 + n mod 256" "a = b * 256 + a mod 256" "b = c * 256 + b mod 256"
    by (simp_all add: a_def b_def c_def)
  moreover from this assms have "c < 256" by linarith
  ultimately show ?thesis by (simp add: a_def [symmetric])
qed

lemma unat_from_be32:
  "unat (from_be32 a b c d)
     = unat a * 16777216 + unat b * 65536 + unat c * 256 + unat d"
proof -
  have "unat a \<le> 255" "unat b \<le> 255" "unat c \<le> 255" "unat d \<le> 255" by simp_all
  then have "unat a * 16777216 + unat b * 65536 + unat c * 256 + unat d < 4294967296" by linarith
  then show ?thesis unfolding from_be32_def unat_u32_of_nat by simp
qed

lemma unat_to_be32:
  "map unat (to_be32 v)
     = [unat v div 16777216 mod 256, unat v div 65536 mod 256, unat v div 256 mod 256,
        unat v mod 256]"
  unfolding to_be32_def list.map unat_u8_of_nat by simp

lemma unat_to_be32_nth [simp]:
  "unat (to_be32 v ! 0) = unat v div 16777216 mod 256"
  "unat (to_be32 v ! Suc 0) = unat v div 65536 mod 256"
  "unat (to_be32 v ! 2) = unat v div 256 mod 256"
  "unat (to_be32 v ! 3) = unat v mod 256"
  using unat_to_be32 [of v] by (simp_all add: to_be32_def numeral_2_eq_2 numeral_3_eq_3)

lemma from_to_be32 [simp]:
  "from_be32 (to_be32 v ! 0) (to_be32 v ! Suc 0) (to_be32 v ! 2) (to_be32 v ! 3) = v"
proof -
  have "unat v \<le> 4294967295" by simp
  then have "unat v < 4294967296" by linarith
  from be32_digits [OF this] show ?thesis
    unfolding word_unat_eq_iff unat_from_be32 unat_to_be32_nth .
qed

subsection \<open>ASCII case folding\<close>

definition to_lower :: "u8 \<Rightarrow> u8" where
  "to_lower b = (if 65 \<le> b \<and> b \<le> 90 then b + 32 else b)"

definition eq_ignore_case :: "u8 \<Rightarrow> u8 \<Rightarrow> bool" where
  "eq_ignore_case a b \<longleftrightarrow> to_lower a = to_lower b"

definition lower :: "bytes \<Rightarrow> bytes" where
  "lower = map to_lower"

lemma length_lower [simp]: "length (lower s) = length s"
  by (simp add: lower_def)

lemma lower_simps [simp]:
  "lower [] = []" "lower (x # xs) = to_lower x # lower xs" "lower (xs @ ys) = lower xs @ lower ys"
  by (simp_all add: lower_def)

lemma lower_eq_Nil [simp]: "lower s = [] \<longleftrightarrow> s = []" "[] = lower s \<longleftrightarrow> s = []"
  by (auto simp: lower_def)

lemma to_lower_idem [simp]: "to_lower (to_lower b) = to_lower b"
proof (cases "65 \<le> b \<and> b \<le> 90")
  case True
  then have "unat (b + 32) = unat b + 32"
    by (simp add: unat_plus_if' word_le_nat_alt)
  with True show ?thesis by (auto simp: to_lower_def word_le_nat_alt)
next
  case False
  then show ?thesis by (auto simp: to_lower_def)
qed

lemma lower_idem [simp]: "lower (lower s) = lower s"
  by (simp add: lower_def)

lemma to_lower_dot [simp]: "to_lower b = 46 \<longleftrightarrow> b = 46"
proof (cases "65 \<le> b \<and> b \<le> 90")
  case True
  then have "unat (b + 32) = unat b + 32"
    by (simp add: unat_plus_if' word_le_nat_alt)
  with True show ?thesis by (auto simp: to_lower_def word_le_nat_alt word_unat_eq_iff)
next
  case False
  then show ?thesis by (auto simp: to_lower_def)
qed

lemma eq_ignore_case_refl [simp]: "eq_ignore_case a a"
  by (simp add: eq_ignore_case_def)

lemma list_all2_eq_ignore_case: "list_all2 eq_ignore_case xs ys \<longleftrightarrow> lower xs = lower ys"
  unfolding lower_def
  by (induction xs ys rule: list_induct2') (auto simp: eq_ignore_case_def)

subsection \<open>Dotted strings\<close>

text \<open>
  \<open>s.split('.')\<close> on the UTF-8 bytes of a string: the dot is an ASCII byte, so it never occurs
  inside a multi-byte sequence.  As in Rust the empty string splits into one empty piece.
\<close>

fun split_on :: "'a \<Rightarrow> 'a list \<Rightarrow> 'a list list" where
  "split_on c [] = [[]]"
| "split_on c (x # xs) =
     (if x = c then [] # split_on c xs
      else (case split_on c xs of [] \<Rightarrow> [[x]] | p # ps \<Rightarrow> (x # p) # ps))"

definition dot :: u8 where "dot = 46"

definition split_dot :: "bytes \<Rightarrow> bytes list" where
  "split_dot s = split_on dot s"

text \<open>\<open>s.strip_suffix('.')\<close>, falling back to \<open>s\<close>.\<close>

definition strip_dot :: "bytes \<Rightarrow> bytes" where
  "strip_dot s = (if s \<noteq> [] \<and> last s = dot then butlast s else s)"

fun join_on :: "'a \<Rightarrow> 'a list list \<Rightarrow> 'a list" where
  "join_on c [] = []"
| "join_on c [p] = p"
| "join_on c (p # q # ps) = p @ c # join_on c (q # ps)"

lemma split_on_neq_Nil [simp]: "split_on c s \<noteq> []"
  by (induction s) (auto split: list.splits)

lemma split_on_append_sep:
  "c \<notin> set p \<Longrightarrow> split_on c (p @ c # s) = p # split_on c s"
  by (induction p) auto

lemma split_on_no_sep: "c \<notin> set p \<Longrightarrow> split_on c p = [p]"
  by (induction p) auto

lemma split_on_join:
  "ps \<noteq> [] \<Longrightarrow> \<forall>p\<in>set ps. c \<notin> set p \<Longrightarrow> split_on c (join_on c ps) = ps"
  by (induction c ps rule: join_on.induct) (auto simp: split_on_append_sep split_on_no_sep)

lemma split_on_no_sep_pieces: "p \<in> set (split_on c s) \<Longrightarrow> c \<notin> set p"
  by (induction s arbitrary: p) (auto split: list.splits if_splits)

lemma join_split_on: "join_on c (split_on c s) = s"
proof (induction s)
  case Nil
  then show ?case by simp
next
  case (Cons x s)
  obtain p ps where s: "split_on c s = p # ps"
    by (metis neq_Nil_conv split_on_neq_Nil)
  with Cons.IH show ?case by (cases ps) auto
qed

lemma split_on_inj: "split_on c s = split_on c t \<Longrightarrow> s = t"
  by (metis join_split_on)

lemma split_on_eq_single_Nil: "split_on c s = [[]] \<longleftrightarrow> s = []"
  by (metis join_split_on join_on.simps(2) split_on.simps(1))

lemma split_on_map:
  assumes "\<And>x. f x = c \<longleftrightarrow> x = c"
  shows "split_on c (map f s) = map (map f) (split_on c s)"
  using assms by (induction s) (auto split: list.splits)

lemma split_dot_lower: "split_dot (lower s) = map lower (split_dot s)"
  using split_on_map [of to_lower dot s] by (simp add: split_dot_def lower_def dot_def comp_def)

lemma strip_dot_lower: "strip_dot (lower s) = lower (strip_dot s)"
  by (auto simp: strip_dot_def lower_def last_map map_butlast dot_def)

lemma strip_dot_append [simp]: "strip_dot (s @ [dot]) = s"
  by (simp add: strip_dot_def)

lemma length_strip_dot_le: "length (strip_dot s) \<le> length s"
  by (auto simp: strip_dot_def)

lemma sum_length_split_on:
  "sum_list (map length (split_on c s)) + length (split_on c s) = length s + 1"
  by (induction s) (auto split: list.splits)

lemmas split_simps [bytes_simps] =
  split_on_append_sep split_on_no_sep split_dot_lower strip_dot_lower

end
