(* ===== verification/WireTypes.thy ===== *)
theory WireTypes
  imports Prelude
begin

text \<open>
  The scalar vocabulary of the wire format (\<open>mdns-proto/src/wire\<close>: \<open>opcode.rs\<close>,
  \<open>response_code.rs\<close>, \<open>resource_type.rs\<close>, \<open>resource_class.rs\<close>, \<open>flags.rs\<close>, \<open>header.rs\<close>), the
  limits of \<open>constants.rs\<close> and the error values of \<open>error.rs\<close>.  Enumerations keep the source's
  constructors (prefixed, since HOL has one name space), the flags are the raw 16-bit word.
\<close>

subsection \<open>Limits\<close>

definition MAX_LABEL_BYTES :: nat where "MAX_LABEL_BYTES = 63"
definition MAX_NAME_BYTES :: nat where "MAX_NAME_BYTES = 255"
definition MAX_POINTER_HOPS :: nat where "MAX_POINTER_HOPS = 32"

lemmas limit_defs = MAX_LABEL_BYTES_def MAX_NAME_BYTES_def MAX_POINTER_HOPS_def

subsection \<open>Errors\<close>

text \<open>
  \<open>ParseError\<close> and \<open>EncodeError\<close>.  The \<open>*Detail\<close> structs are the constructor's arguments;
  \<open>TryFromIntError\<close> carries no data.
\<close>

datatype parse_error =
    BufferTooShort nat nat nat
  | LabelTooLong nat
  | NameTooLong nat
  | PointerCycle
  | PointerChainTooLong nat
  | PointerForward u16 u16
  | InvalidLabelKind u8
  | RdlengthOverrun u16 nat nat
  | IntegerConversion
  | UnsupportedNameBearingType u16

datatype encode_error =
    BufferTooSmall nat nat
  | EncIntegerConversion

subsection \<open>Opcodes and response codes\<close>

datatype opcode = Opcode_Query | Opcode_InverseQuery | Opcode_Status | Opcode_Notify
  | Opcode_Update | Opcode_Unknown u8

fun opcode_as_str :: "opcode \<Rightarrow> string" where
  "opcode_as_str Opcode_Query = ''query''"
| "opcode_as_str Opcode_InverseQuery = ''inverse_query''"
| "opcode_as_str Opcode_Status = ''status''"
| "opcode_as_str Opcode_Notify = ''notify''"
| "opcode_as_str Opcode_Update = ''update''"
| "opcode_as_str (Opcode_Unknown _) = ''unknown''"

fun opcode_to_u8 :: "opcode \<Rightarrow> u8" where
  "opcode_to_u8 Opcode_Query = 0"
| "opcode_to_u8 Opcode_InverseQuery = 1"
| "opcode_to_u8 Opcode_Status = 2"
| "opcode_to_u8 Opcode_Notify = 4"
| "opcode_to_u8 Opcode_Update = 5"
| "opcode_to_u8 (Opcode_Unknown v) = v"

definition opcode_from_u8 :: "u8 \<Rightarrow> opcode" where
  "opcode_from_u8 v =
     (if v = 0 then Opcode_Query
      else if v = 1 then Opcode_InverseQuery
      else if v = 2 then Opcode_Status
      else if v = 4 then Opcode_Notify
      else if v = 5 then Opcode_Update
      else Opcode_Unknown v)"

datatype response_code = RC_NoError | RC_FormatError | RC_ServerFailure | RC_NameError
  | RC_NotImplemented | RC_Refused | RC_Unknown u8

fun response_code_as_str :: "response_code \<Rightarrow> string" where
  "response_code_as_str RC_NoError = ''no_error''"
| "response_code_as_str RC_FormatError = ''format_error''"
| "response_code_as_str RC_ServerFailure = ''server_failure''"
| "response_code_as_str RC_NameError = ''name_error''"
| "response_code_as_str RC_NotImplemented = ''not_implemented''"
| "response_code_as_str RC_Refused = ''refused''"
| "response_code_as_str (RC_Unknown _) = ''unknown''"

fun response_code_to_u8 :: "response_code \<Rightarrow> u8" where
  "response_code_to_u8 RC_NoError = 0"
| "response_code_to_u8 RC_FormatError = 1"
| "response_code_to_u8 RC_ServerFailure = 2"
| "response_code_to_u8 RC_NameError = 3"
| "response_code_to_u8 RC_NotImplemented = 4"
| "response_code_to_u8 RC_Refused = 5"
| "response_code_to_u8 (RC_Unknown v) = v"

definition response_code_from_u8 :: "u8 \<Rightarrow> response_code" where
  "response_code_from_u8 v =
     (if v = 0 then RC_NoError
      else if v = 1 then RC_FormatError
      else if v = 2 then RC_ServerFailure
      else if v = 3 then RC_NameError
      else if v = 4 then RC_NotImplemented
      else if v = 5 then RC_Refused
      else RC_Unknown v)"

lemma opcode_to_from [simp]: "opcode_to_u8 (opcode_from_u8 v) = v"
  by (simp add: opcode_from_u8_def)

lemma response_code_to_from [simp]: "response_code_to_u8 (response_code_from_u8 v) = v"
  by (simp add: response_code_from_u8_def)

text \<open>\<open>from_u8\<close> never wraps a known code as unknown: the image is the canonical values.\<close>

fun opcode_canonical :: "opcode \<Rightarrow> bool" where
  "opcode_canonical (Opcode_Unknown v) \<longleftrightarrow> v \<notin> {0, 1, 2, 4, 5}"
| "opcode_canonical _ \<longleftrightarrow> True"

fun response_code_canonical :: "response_code \<Rightarrow> bool" where
  "response_code_canonical (RC_Unknown v) \<longleftrightarrow> v \<notin> {0, 1, 2, 3, 4, 5}"
| "response_code_canonical _ \<longleftrightarrow> True"

lemma opcode_from_canonical: "opcode_canonical (opcode_from_u8 v)"
  by (simp add: opcode_from_u8_def)

lemma opcode_from_to: "opcode_canonical c \<Longrightarrow> opcode_from_u8 (opcode_to_u8 c) = c"
  by (cases c) (simp_all add: opcode_from_u8_def)

lemma response_code_from_canonical: "response_code_canonical (response_code_from_u8 v)"
  by (simp add: response_code_from_u8_def)

lemma response_code_from_to:
  "response_code_canonical c \<Longrightarrow> response_code_from_u8 (response_code_to_u8 c) = c"
  by (cases c) (simp_all add: response_code_from_u8_def)

subsection \<open>Resource types\<close>

datatype resource_type = RT_A | RT_AAAA | RT_Ptr | RT_Srv | RT_Txt | RT_Nsec | RT_Hinfo
  | RT_Cname | RT_Any | RT_Unknown u16

fun resource_type_as_str :: "resource_type \<Rightarrow> string" where
  "resource_type_as_str RT_A = ''a''"
| "resource_type_as_str RT_AAAA = ''aaaa''"
| "resource_type_as_str RT_Ptr = ''ptr''"
| "resource_type_as_str RT_Srv = ''srv''"
| "resource_type_as_str RT_Txt = ''txt''"
| "resource_type_as_str RT_Nsec = ''nsec''"
| "resource_type_as_str RT_Hinfo = ''hinfo''"
| "resource_type_as_str RT_Cname = ''cname''"
| "resource_type_as_str RT_Any = ''any''"
| "resource_type_as_str (RT_Unknown _) = ''unknown''"

fun rtype_to_u16 :: "resource_type \<Rightarrow> u16" where
  "rtype_to_u16 RT_A = 1"
| "rtype_to_u16 RT_AAAA = 28"
| "rtype_to_u16 RT_Ptr = 12"
| "rtype_to_u16 RT_Srv = 33"
| "rtype_to_u16 RT_Txt = 16"
| "rtype_to_u16 RT_Nsec = 47"
| "rtype_to_u16 RT_Hinfo = 13"
| "rtype_to_u16 RT_Cname = 5"
| "rtype_to_u16 RT_Any = 255"
| "rtype_to_u16 (RT_Unknown v) = v"

definition rtype_from_u16 :: "u16 \<Rightarrow> resource_type" where
  "rtype_from_u16 v =
     (if v = 1 then RT_A
      else if v = 28 then RT_AAAA
      else if v = 12 then RT_Ptr
      else if v = 33 then RT_Srv
      else if v = 16 then RT_Txt
      else if v = 47 then RT_Nsec
      else if v = 13 then RT_Hinfo
      else if v = 5 then RT_Cname
      else if v = 255 then RT_Any
      else RT_Unknown v)"

text \<open>How a type's RDATA carries domain names: \<open>lead\<close> octets, \<open>names\<close> names, a remainder.\<close>

datatype rdata_names = Opaque | Compressible nat nat

definition rtype_rdata_names :: "resource_type \<Rightarrow> rdata_names" where
  "rtype_rdata_names t =
     (let v = rtype_to_u16 t in
      if v \<in> {2, 5, 12, 39} then Compressible 0 1
      else if v \<in> {6, 17} then Compressible 0 2
      else if v \<in> {15, 18, 21, 36} then Compressible 2 1
      else if v = 26 then Compressible 2 2
      else if v = 33 then Compressible 6 1
      else if v = 47 then Compressible 0 1
      else Opaque)"

fun rtype_canonical :: "resource_type \<Rightarrow> bool" where
  "rtype_canonical (RT_Unknown v) \<longleftrightarrow> v \<notin> {1, 28, 12, 33, 16, 47, 13, 5, 255}"
| "rtype_canonical _ \<longleftrightarrow> True"

lemma rtype_to_from [simp]: "rtype_to_u16 (rtype_from_u16 v) = v"
  by (simp add: rtype_from_u16_def)

lemma rtype_from_to: "rtype_canonical t \<Longrightarrow> rtype_from_u16 (rtype_to_u16 t) = t"
  by (cases t) (simp_all add: rtype_from_u16_def)

lemma rtype_from_canonical: "rtype_canonical (rtype_from_u16 v)"
  by (simp add: rtype_from_u16_def)

lemma rtype_from_inj: "rtype_from_u16 v = rtype_from_u16 w \<longleftrightarrow> v = w"
  by (metis rtype_to_from)

subsection \<open>Resource classes\<close>

definition CACHE_FLUSH_BIT :: u16 where "CACHE_FLUSH_BIT = 0x8000"
definition UNICAST_RESPONSE_BIT :: u16 where "UNICAST_RESPONSE_BIT = 0x8000"

datatype resource_class = Class_In | Class_Any | Class_Unknown u16

fun resource_class_as_str :: "resource_class \<Rightarrow> string" where
  "resource_class_as_str Class_In = ''in''"
| "resource_class_as_str Class_Any = ''any''"
| "resource_class_as_str (Class_Unknown _) = ''unknown''"

fun rclass_to_u16 :: "resource_class \<Rightarrow> u16" where
  "rclass_to_u16 Class_In = 1"
| "rclass_to_u16 Class_Any = 255"
| "rclass_to_u16 (Class_Unknown v) = v"

definition rclass_from_u16_raw :: "u16 \<Rightarrow> resource_class" where
  "rclass_from_u16_raw v =
     (if v = 1 then Class_In else if v = 255 then Class_Any else Class_Unknown v)"

definition rclass_from_u16 :: "u16 \<Rightarrow> resource_class" where
  "rclass_from_u16 v = rclass_from_u16_raw (v AND NOT CACHE_FLUSH_BIT)"

lemma rclass_to_from_raw [simp]: "rclass_to_u16 (rclass_from_u16_raw v) = v"
  by (simp add: rclass_from_u16_raw_def)

lemma bit_single [bytes_simps]: "bit (push_bit k (1 :: u16)) n \<longleftrightarrow> n = k \<and> k < 16"
  by (auto simp: bit_simps)

lemma bit_CACHE_FLUSH_BIT: "bit CACHE_FLUSH_BIT n \<longleftrightarrow> n = 15"
proof -
  have "CACHE_FLUSH_BIT = push_bit 15 1" by (simp add: CACHE_FLUSH_BIT_def)
  then show ?thesis unfolding \<open>CACHE_FLUSH_BIT = _\<close> bit_single by auto
qed

lemma UNICAST_eq_FLUSH: "UNICAST_RESPONSE_BIT = CACHE_FLUSH_BIT"
  by (simp add: UNICAST_RESPONSE_BIT_def CACHE_FLUSH_BIT_def)

lemma and_flush_bit: "v AND CACHE_FLUSH_BIT = (if bit v 15 then CACHE_FLUSH_BIT else 0)"
  by (rule bit_word_eqI) (auto simp: bit_simps bit_CACHE_FLUSH_BIT)

lemma flush_bit_set: "(v OR CACHE_FLUSH_BIT) AND CACHE_FLUSH_BIT \<noteq> 0"
  by (simp add: and_flush_bit bit_or_iff bit_CACHE_FLUSH_BIT) (simp add: CACHE_FLUSH_BIT_def)

lemma rclass_from_flush [simp]: "rclass_from_u16 (v OR CACHE_FLUSH_BIT) = rclass_from_u16 v"
proof -
  have "(v OR CACHE_FLUSH_BIT) AND NOT CACHE_FLUSH_BIT = v AND NOT CACHE_FLUSH_BIT"
    by (rule bit_word_eqI) (auto simp: bit_simps)
  then show ?thesis by (simp add: rclass_from_u16_def)
qed

subsection \<open>Flags\<close>

datatype flags = Flags (flags_bits: u16)

definition QR_BIT :: u16 where "QR_BIT = push_bit 15 1"
definition OPCODE_SHIFT :: nat where "OPCODE_SHIFT = 11"
definition OPCODE_MASK :: u16 where "OPCODE_MASK = push_bit OPCODE_SHIFT 0b1111"
definition AA_BIT :: u16 where "AA_BIT = push_bit 10 1"
definition TC_BIT :: u16 where "TC_BIT = push_bit 9 1"
definition RD_BIT :: u16 where "RD_BIT = push_bit 8 1"
definition RA_BIT :: u16 where "RA_BIT = push_bit 7 1"
definition RCODE_MASK :: u16 where "RCODE_MASK = 0b1111"

lemmas flag_bit_defs =
  QR_BIT_def OPCODE_SHIFT_def OPCODE_MASK_def AA_BIT_def TC_BIT_def RD_BIT_def RA_BIT_def
  RCODE_MASK_def

definition flags_new :: flags where "flags_new = Flags 0"
definition flags_from_u16 :: "u16 \<Rightarrow> flags" where "flags_from_u16 b = Flags b"
definition flags_to_u16 :: "flags \<Rightarrow> u16" where "flags_to_u16 f = flags_bits f"

definition flags_is_response :: "flags \<Rightarrow> bool" where
  "flags_is_response f \<longleftrightarrow> flags_bits f AND QR_BIT \<noteq> 0"
definition flags_opcode :: "flags \<Rightarrow> opcode" where
  "flags_opcode f = opcode_from_u8 (ucast (drop_bit OPCODE_SHIFT (flags_bits f AND OPCODE_MASK)))"
definition flags_is_authoritative :: "flags \<Rightarrow> bool" where
  "flags_is_authoritative f \<longleftrightarrow> flags_bits f AND AA_BIT \<noteq> 0"
definition flags_is_truncated :: "flags \<Rightarrow> bool" where
  "flags_is_truncated f \<longleftrightarrow> flags_bits f AND TC_BIT \<noteq> 0"
definition flags_is_recursion_desired :: "flags \<Rightarrow> bool" where
  "flags_is_recursion_desired f \<longleftrightarrow> flags_bits f AND RD_BIT \<noteq> 0"
definition flags_is_recursion_available :: "flags \<Rightarrow> bool" where
  "flags_is_recursion_available f \<longleftrightarrow> flags_bits f AND RA_BIT \<noteq> 0"
definition flags_response_code :: "flags \<Rightarrow> response_code" where
  "flags_response_code f = response_code_from_u8 (ucast (flags_bits f AND RCODE_MASK))"

definition flags_set_response :: "flags \<Rightarrow> flags" where
  "flags_set_response f = Flags (flags_bits f OR QR_BIT)"
definition flags_clear_response :: "flags \<Rightarrow> flags" where
  "flags_clear_response f = Flags (flags_bits f AND NOT QR_BIT)"
definition flags_set_opcode :: "opcode \<Rightarrow> flags \<Rightarrow> flags" where
  "flags_set_opcode c f =
     Flags ((flags_bits f AND NOT OPCODE_MASK)
            OR (push_bit OPCODE_SHIFT (ucast (opcode_to_u8 c)) AND OPCODE_MASK))"
definition flags_set_authoritative :: "flags \<Rightarrow> flags" where
  "flags_set_authoritative f = Flags (flags_bits f OR AA_BIT)"
definition flags_clear_authoritative :: "flags \<Rightarrow> flags" where
  "flags_clear_authoritative f = Flags (flags_bits f AND NOT AA_BIT)"
definition flags_set_truncated :: "flags \<Rightarrow> flags" where
  "flags_set_truncated f = Flags (flags_bits f OR TC_BIT)"
definition flags_clear_truncated :: "flags \<Rightarrow> flags" where
  "flags_clear_truncated f = Flags (flags_bits f AND NOT TC_BIT)"
definition flags_set_response_code :: "response_code \<Rightarrow> flags \<Rightarrow> flags" where
  "flags_set_response_code c f =
     Flags ((flags_bits f AND NOT RCODE_MASK) OR (ucast (response_code_to_u8 c) AND RCODE_MASK))"

lemma bit_RCODE_MASK: "bit RCODE_MASK n \<longleftrightarrow> n < 4"
proof -
  have "RCODE_MASK = mask 4" by (simp add: RCODE_MASK_def mask_eq_exp_minus_1)
  then show ?thesis unfolding \<open>RCODE_MASK = _\<close> by (auto simp del: mask_numeral simp: bit_mask_iff)
qed

lemma bit_OPCODE_MASK: "bit OPCODE_MASK n \<longleftrightarrow> 11 \<le> n \<and> n < 15"
proof -
  have "OPCODE_MASK = push_bit 11 (mask 4)"
    by (simp add: OPCODE_MASK_def OPCODE_SHIFT_def mask_eq_exp_minus_1)
  then show ?thesis unfolding \<open>OPCODE_MASK = _\<close> bit_push_bit_iff bit_mask_iff by auto
qed

lemma and_single: "k < 16 \<Longrightarrow> (w :: u16) AND push_bit k 1 \<noteq> 0 \<longleftrightarrow> bit w k"
proof -
  assume k: "k < 16"
  have b: "bit (w AND push_bit k 1) n \<longleftrightarrow> n = k \<and> bit w k" for n
    unfolding bit_and_iff bit_single using k by auto
  show ?thesis unfolding bit_eq_iff [of "w AND push_bit k 1" 0] b using k by simp
qed

lemma flag_test_bits [simp]:
  "flags_is_response f \<longleftrightarrow> bit (flags_bits f) 15"
  "flags_is_authoritative f \<longleftrightarrow> bit (flags_bits f) 10"
  "flags_is_truncated f \<longleftrightarrow> bit (flags_bits f) 9"
  "flags_is_recursion_desired f \<longleftrightarrow> bit (flags_bits f) 8"
  "flags_is_recursion_available f \<longleftrightarrow> bit (flags_bits f) 7"
  unfolding flags_is_response_def flags_is_authoritative_def flags_is_truncated_def
    flags_is_recursion_desired_def flags_is_recursion_available_def
    QR_BIT_def AA_BIT_def TC_BIT_def RD_BIT_def RA_BIT_def
  by (rule and_single; simp)+

end
