(* ===== verification/WireHeader.thy ===== *)
theory WireHeader
  imports WireTypes
begin

text \<open>
  The 12-octet message header of \<open>wire/header.rs\<close>: the record, its reader and writer, with the
  round trips in both directions, and what each mutator of the flag word does to every field.
\<close>

definition HEADER_SIZE :: nat where "HEADER_SIZE = 12"

record header =
  hdr_id :: u16
  hdr_flags :: flags
  question_count :: u16
  answer_count :: u16
  authority_count :: u16
  additional_count :: u16

definition header_new :: header where
  "header_new = \<lparr>hdr_id = 0, hdr_flags = flags_new, question_count = 0, answer_count = 0,
                 authority_count = 0, additional_count = 0\<rparr>"

subsection \<open>Reading and writing\<close>

text \<open>\<open>head.get(a..a+2).and_then(first_chunk)\<close> with the error of the call site.\<close>

definition head_u16 :: "bytes \<Rightarrow> nat \<Rightarrow> parse_error + u16" where
  "head_u16 head a =
     rbind (ok_or (slice head a (a + 2)) (BufferTooShort 2 a (length head - a)))
       (\<lambda>s. Inr (from_be16 (s ! 0) (s ! 1)))"

definition header_try_parse :: "bytes \<Rightarrow> parse_error + header \<times> bytes" where
  "header_try_parse buf =
     (if length buf < HEADER_SIZE then Inl (BufferTooShort HEADER_SIZE 0 (length buf))
      else let head = take HEADER_SIZE buf; rest = drop HEADER_SIZE buf in
        rbind (head_u16 head 0) (\<lambda>i.
        rbind (head_u16 head 2) (\<lambda>f.
        rbind (head_u16 head 4) (\<lambda>qd.
        rbind (head_u16 head 6) (\<lambda>an.
        rbind (head_u16 head 8) (\<lambda>ns.
        rbind (head_u16 head 10) (\<lambda>ar.
          Inr (\<lparr>hdr_id = i, hdr_flags = flags_from_u16 f, question_count = qd, answer_count = an,
                authority_count = ns, additional_count = ar\<rparr>, rest))))))))"

text \<open>
  \<open>write\<close> returns the buffer it leaves behind with the result; the loop over the six words is
  \<open>write_words\<close>.
\<close>

fun write_words :: "bytes \<Rightarrow> nat \<Rightarrow> u16 list \<Rightarrow> bytes option" where
  "write_words head cursor [] = Some head"
| "write_words head cursor (v # vs) =
     (case put_slice head cursor (to_be16 v) of
        None \<Rightarrow> None
      | Some head' \<Rightarrow> write_words head' (cursor + 2) vs)"

definition header_words :: "header \<Rightarrow> u16 list" where
  "header_words h = [hdr_id h, flags_to_u16 (hdr_flags h), question_count h, answer_count h,
                     authority_count h, additional_count h]"

definition header_write :: "header \<Rightarrow> bytes \<Rightarrow> encode_error + nat \<times> bytes" where
  "header_write h out =
     (if length out < HEADER_SIZE then Inl (BufferTooSmall HEADER_SIZE (length out))
      else (case write_words (take HEADER_SIZE out) 0 (header_words h) of
              None \<Rightarrow> Inl (BufferTooSmall HEADER_SIZE (length out))
            | Some head \<Rightarrow> Inr (HEADER_SIZE, head @ drop HEADER_SIZE out)))"

definition header_bytes :: "header \<Rightarrow> bytes" where
  "header_bytes h = concat (map to_be16 (header_words h))"

lemma length_header_words [simp]: "length (header_words h) = 6"
  by (simp add: header_words_def)

lemma length_header_bytes [simp]: "length (header_bytes h) = 12"
  by (simp add: header_bytes_def header_words_def)

lemma write_words_eq:
  "cursor + 2 * length vs \<le> length head \<Longrightarrow>
   write_words head cursor vs
     = Some (take cursor head @ concat (map to_be16 vs) @ drop (cursor + 2 * length vs) head)"
proof (induction vs arbitrary: head cursor)
  case Nil
  then show ?case by simp
next
  case (Cons v vs)
  let ?h = "take cursor head @ to_be16 v @ drop (cursor + 2) head"
  from Cons.prems have "put_slice head cursor (to_be16 v) = Some ?h"
    by (simp add: put_slice_def)
  moreover have "write_words ?h (cursor + 2) vs
    = Some (take (cursor + 2) ?h @ concat (map to_be16 vs) @ drop (cursor + 2 + 2 * length vs) ?h)"
    using Cons.prems by (intro Cons.IH) simp
  moreover have "take (cursor + 2) ?h = take cursor head @ to_be16 v"
    using Cons.prems by simp
  moreover have "drop (cursor + 2 + 2 * length vs) ?h = drop (cursor + 2 * length (v # vs)) head"
    using Cons.prems by (simp add: add.commute)
  ultimately show ?case by (simp add: add.commute)
qed

lemma header_write_ok:
  "HEADER_SIZE \<le> length out \<Longrightarrow>
   header_write h out = Inr (HEADER_SIZE, header_bytes h @ drop HEADER_SIZE out)"
  by (simp add: header_write_def write_words_eq header_bytes_def HEADER_SIZE_def)

lemma header_write_err:
  "length out < HEADER_SIZE \<Longrightarrow>
   header_write h out = Inl (BufferTooSmall HEADER_SIZE (length out))"
  by (simp add: header_write_def)

lemma head_u16_ok: "a + 2 \<le> length head \<Longrightarrow> head_u16 head a = Inr (from_be16 (head ! a) (head ! Suc a))"
  by (simp add: head_u16_def slice_def)

lemma header_try_parse_ok:
  assumes "HEADER_SIZE \<le> length buf"
  shows "header_try_parse buf = Inr
     (\<lparr>hdr_id = from_be16 (buf ! 0) (buf ! 1), hdr_flags = Flags (from_be16 (buf ! 2) (buf ! 3)),
       question_count = from_be16 (buf ! 4) (buf ! 5), answer_count = from_be16 (buf ! 6) (buf ! 7),
       authority_count = from_be16 (buf ! 8) (buf ! 9),
       additional_count = from_be16 (buf ! 10) (buf ! 11)\<rparr>, drop HEADER_SIZE buf)"
  using assms by (simp add: header_try_parse_def head_u16_ok HEADER_SIZE_def flags_from_u16_def)

lemma header_bytes_nth:
  "header_bytes h ! 0 = to_be16 (hdr_id h) ! 0" "header_bytes h ! 1 = to_be16 (hdr_id h) ! 1"
  "header_bytes h ! 2 = to_be16 (flags_to_u16 (hdr_flags h)) ! 0"
  "header_bytes h ! 3 = to_be16 (flags_to_u16 (hdr_flags h)) ! 1"
  "header_bytes h ! 4 = to_be16 (question_count h) ! 0"
  "header_bytes h ! 5 = to_be16 (question_count h) ! 1"
  "header_bytes h ! 6 = to_be16 (answer_count h) ! 0"
  "header_bytes h ! 7 = to_be16 (answer_count h) ! 1"
  "header_bytes h ! 8 = to_be16 (authority_count h) ! 0"
  "header_bytes h ! 9 = to_be16 (authority_count h) ! 1"
  "header_bytes h ! 10 = to_be16 (additional_count h) ! 0"
  "header_bytes h ! 11 = to_be16 (additional_count h) ! 1"
  by (simp_all add: header_bytes_def header_words_def to_be16_def)

lemma from_to_be16_One [simp]: "from_be16 (to_be16 v ! 0) (to_be16 v ! 1) = v"
  using from_to_be16 [of v] by simp

lemma header_parse_bytes: "header_try_parse (header_bytes h @ rest) = Inr (h, rest)"
proof -
  have nth: "(header_bytes h @ rest) ! i = header_bytes h ! i" if "i < 12" for i
    using that by (simp add: nth_append)
  have "header_try_parse (header_bytes h @ rest) = Inr
     (\<lparr>hdr_id = hdr_id h, hdr_flags = Flags (flags_to_u16 (hdr_flags h)),
       question_count = question_count h, answer_count = answer_count h,
       authority_count = authority_count h, additional_count = additional_count h\<rparr>, rest)"
    by (subst header_try_parse_ok)
      (simp_all add: HEADER_SIZE_def nth header_bytes_nth del: One_nat_def)
  then show ?thesis by (cases "hdr_flags h") (simp add: flags_to_u16_def)
qed

text \<open>
  A header written into a buffer reads back as itself, the octets after it untouched, and a
  buffer shorter than the 12 octets is refused by the writer and by the reader alike.
\<close>
theorem header_write_parse:
  "header_write h out =
     (if length out < HEADER_SIZE then Inl (BufferTooSmall HEADER_SIZE (length out))
      else Inr (HEADER_SIZE, header_bytes h @ drop HEADER_SIZE out)) \<and>
   header_try_parse (header_bytes h @ rest) = Inr (h, rest) \<and>
   (is_ok (header_try_parse out) \<longleftrightarrow> HEADER_SIZE \<le> length out)"
proof -
  have "is_ok (header_try_parse out) \<longleftrightarrow> HEADER_SIZE \<le> length out"
    by (cases "HEADER_SIZE \<le> length out")
      (simp add: header_try_parse_ok, simp add: header_try_parse_def)
  then show ?thesis
    by (simp add: header_write_ok header_write_err header_parse_bytes)
qed

lemma header_bytes_parse:
  assumes "header_try_parse buf = Inr (h, rest)"
  shows "header_bytes h @ rest = buf"
proof (rule nth_equalityI)
  from assms have len: "HEADER_SIZE \<le> length buf"
    by (auto simp: header_try_parse_def split: if_splits)
  with assms have h: "h = \<lparr>hdr_id = from_be16 (buf ! 0) (buf ! 1),
       hdr_flags = Flags (from_be16 (buf ! 2) (buf ! 3)),
       question_count = from_be16 (buf ! 4) (buf ! 5), answer_count = from_be16 (buf ! 6) (buf ! 7),
       authority_count = from_be16 (buf ! 8) (buf ! 9),
       additional_count = from_be16 (buf ! 10) (buf ! 11)\<rparr>"
    and r: "rest = drop HEADER_SIZE buf"
    by (simp_all add: header_try_parse_ok)
  show "length (header_bytes h @ rest) = length buf"
    using len by (simp add: r HEADER_SIZE_def)
  fix i assume "i < length (header_bytes h @ rest)"
  show "(header_bytes h @ rest) ! i = buf ! i"
  proof (cases "i < 12")
    case True
    then have "i \<in> {0, 1, 2, 3, 4, 5, 6, 7, 8, 9, 10, 11}"
      unfolding insert_iff empty_iff by presburger
    then show ?thesis
      by (auto simp: nth_append header_bytes_nth h flags_to_u16_def to_from_be16
          simp del: One_nat_def)
  next
    case False
    then show ?thesis using len by (simp add: nth_append r HEADER_SIZE_def)
  qed
qed

subsection \<open>Flag words\<close>

lemmas bit_flag_masks = bit_single bit_RCODE_MASK bit_OPCODE_MASK

lemma opcode_field_bits:
  "bit (drop_bit OPCODE_SHIFT (w AND OPCODE_MASK)) n \<longleftrightarrow> n < 4 \<and> bit w (11 + n)"
  by (auto simp: bit_drop_bit_eq bit_and_iff bit_OPCODE_MASK OPCODE_SHIFT_def)

lemma flags_opcode_cong:
  assumes "\<And>n. 11 \<le> n \<Longrightarrow> n < 15 \<Longrightarrow> bit (flags_bits f) n = bit (flags_bits g) n"
  shows "flags_opcode f = flags_opcode g"
proof -
  have "drop_bit OPCODE_SHIFT (flags_bits f AND OPCODE_MASK)
          = drop_bit OPCODE_SHIFT (flags_bits g AND OPCODE_MASK)"
    by (rule bit_word_eqI) (simp only: opcode_field_bits, auto simp: assms)
  then show ?thesis by (simp add: flags_opcode_def)
qed

lemma flags_response_code_cong:
  assumes "\<And>n. n < 4 \<Longrightarrow> bit (flags_bits f) n = bit (flags_bits g) n"
  shows "flags_response_code f = flags_response_code g"
proof -
  have "flags_bits f AND RCODE_MASK = flags_bits g AND RCODE_MASK"
    by (rule bit_word_eqI) (auto simp: bit_and_iff bit_RCODE_MASK assms)
  then show ?thesis by (simp add: flags_response_code_def)
qed

lemma bits_flags_set_opcode:
  "n < 16 \<Longrightarrow> bit (flags_bits (flags_set_opcode c f)) n =
     (if 11 \<le> n \<and> n < 15 then bit (opcode_to_u8 c) (n - 11) else bit (flags_bits f) n)"
  by (auto simp: flags_set_opcode_def bit_or_iff bit_and_iff bit_not_iff bit_OPCODE_MASK
      bit_push_bit_iff bit_ucast_iff OPCODE_SHIFT_def)

lemma bits_flags_set_response_code:
  "n < 16 \<Longrightarrow> bit (flags_bits (flags_set_response_code c f)) n =
     (if n < 4 then bit (response_code_to_u8 c) n else bit (flags_bits f) n)"
  by (auto simp: flags_set_response_code_def bit_or_iff bit_and_iff bit_not_iff bit_RCODE_MASK
      bit_ucast_iff)

lemma bits_flags_set_single:
  assumes "n < 16"
  shows "bit (flags_bits (flags_set_response f)) n \<longleftrightarrow> n = 15 \<or> bit (flags_bits f) n"
    "bit (flags_bits (flags_clear_response f)) n \<longleftrightarrow> n \<noteq> 15 \<and> bit (flags_bits f) n"
    "bit (flags_bits (flags_set_authoritative f)) n \<longleftrightarrow> n = 10 \<or> bit (flags_bits f) n"
    "bit (flags_bits (flags_clear_authoritative f)) n \<longleftrightarrow> n \<noteq> 10 \<and> bit (flags_bits f) n"
    "bit (flags_bits (flags_set_truncated f)) n \<longleftrightarrow> n = 9 \<or> bit (flags_bits f) n"
    "bit (flags_bits (flags_clear_truncated f)) n \<longleftrightarrow> n \<noteq> 9 \<and> bit (flags_bits f) n"
  using assms
  unfolding flags_set_response_def flags_clear_response_def flags_set_authoritative_def
    flags_clear_authoritative_def flags_set_truncated_def flags_clear_truncated_def
    QR_BIT_def AA_BIT_def TC_BIT_def flags.sel bit_or_iff bit_and_iff bit_not_iff bit_single
  by auto

lemma flags_opcode_set_opcode:
  "flags_opcode (flags_set_opcode c f) = opcode_from_u8 (opcode_to_u8 c AND mask 4)"
proof -
  have "(ucast (drop_bit OPCODE_SHIFT (flags_bits (flags_set_opcode c f) AND OPCODE_MASK)) :: u8)
          = opcode_to_u8 c AND mask 4"
    by (rule bit_word_eqI)
      (simp only: bit_ucast_iff opcode_field_bits bit_and_iff bit_mask_iff,
       auto simp: bits_flags_set_opcode)
  then show ?thesis by (simp add: flags_opcode_def)
qed

lemma flags_response_code_set:
  "flags_response_code (flags_set_response_code c f)
     = response_code_from_u8 (response_code_to_u8 c AND mask 4)"
proof -
  have "(ucast (flags_bits (flags_set_response_code c f) AND RCODE_MASK) :: u8)
          = response_code_to_u8 c AND mask 4"
    by (rule bit_word_eqI)
      (auto simp: bit_ucast_iff bits_flags_set_response_code bit_RCODE_MASK bit_and_iff bit_mask_iff
        simp del: mask_numeral)
  then show ?thesis by (simp add: flags_response_code_def)
qed

definition flags_view :: "flags \<Rightarrow> bool \<times> opcode \<times> bool \<times> bool \<times> bool \<times> bool \<times> response_code" where
  "flags_view f = (flags_is_response f, flags_opcode f, flags_is_authoritative f, flags_is_truncated f,
     flags_is_recursion_desired f, flags_is_recursion_available f, flags_response_code f)"

lemmas bits_flags_set = bits_flags_set_opcode bits_flags_set_response_code bits_flags_set_single

lemma flags_view_setI:
  assumes "\<And>n. 11 \<le> n \<Longrightarrow> n < 15 \<Longrightarrow> bit (flags_bits g) n = bit (flags_bits f) n"
    and "\<And>n. n < 4 \<Longrightarrow> bit (flags_bits g) n = bit (flags_bits f) n"
  shows "flags_view g = (bit (flags_bits g) 15, flags_opcode f, bit (flags_bits g) 10,
     bit (flags_bits g) 9, bit (flags_bits g) 8, bit (flags_bits g) 7, flags_response_code f)"
  using flags_opcode_cong [of g f] flags_response_code_cong [of g f] assms by (simp add: flags_view_def)

text \<open>
  The fields of the flag word are independent: each setter changes the one field it names, the
  opcode and the response code to the low four bits of the given code, and every other field reads as
  before.
\<close>
theorem flags_fields_independent:
  assumes "flags_view f = (qr, oc, aa, tc, rd, ra, rc)"
  shows "flags_view (flags_set_response f) = (True, oc, aa, tc, rd, ra, rc) \<and>
    flags_view (flags_clear_response f) = (False, oc, aa, tc, rd, ra, rc) \<and>
    flags_view (flags_set_authoritative f) = (qr, oc, True, tc, rd, ra, rc) \<and>
    flags_view (flags_clear_authoritative f) = (qr, oc, False, tc, rd, ra, rc) \<and>
    flags_view (flags_set_truncated f) = (qr, oc, aa, True, rd, ra, rc) \<and>
    flags_view (flags_clear_truncated f) = (qr, oc, aa, False, rd, ra, rc) \<and>
    flags_view (flags_set_opcode c f)
       = (qr, opcode_from_u8 (opcode_to_u8 c AND mask 4), aa, tc, rd, ra, rc) \<and>
    flags_view (flags_set_response_code k f)
       = (qr, oc, aa, tc, rd, ra, response_code_from_u8 (response_code_to_u8 k AND mask 4))"
proof -
  have v: "qr = bit (flags_bits f) 15" "aa = bit (flags_bits f) 10" "tc = bit (flags_bits f) 9"
    "rd = bit (flags_bits f) 8" "ra = bit (flags_bits f) 7" "oc = flags_opcode f" "rc = flags_response_code f"
    using assms by (simp_all add: flags_view_def)
  have s: "flags_view (flags_set_response f) = (True, oc, aa, tc, rd, ra, rc)"
    "flags_view (flags_clear_response f) = (False, oc, aa, tc, rd, ra, rc)"
    "flags_view (flags_set_authoritative f) = (qr, oc, True, tc, rd, ra, rc)"
    "flags_view (flags_clear_authoritative f) = (qr, oc, False, tc, rd, ra, rc)"
    "flags_view (flags_set_truncated f) = (qr, oc, aa, True, rd, ra, rc)"
    "flags_view (flags_clear_truncated f) = (qr, oc, aa, False, rd, ra, rc)"
    unfolding v by (subst flags_view_setI [of _ f]; simp add: bits_flags_set)+
  moreover have "flags_view (flags_set_opcode c f)
       = (qr, opcode_from_u8 (opcode_to_u8 c AND mask 4), aa, tc, rd, ra, rc)"
    unfolding v flags_view_def flags_opcode_set_opcode
    by (simp add: bits_flags_set flags_response_code_cong [of "flags_set_opcode c f" f])
  moreover have "flags_view (flags_set_response_code k f)
       = (qr, oc, aa, tc, rd, ra, response_code_from_u8 (response_code_to_u8 k AND mask 4))"
    unfolding v flags_view_def flags_response_code_set
    by (simp add: bits_flags_set flags_opcode_cong [of "flags_set_response_code k f" f])
  ultimately show ?thesis using s by blast
qed

lemma flags_fields_independent_witness:
  "flags_view (flags_set_opcode (Opcode_Unknown 0xF4) (Flags 0x8403))
     = (True, Opcode_Notify, True, False, False, False, RC_NameError)"
proof -
  have "flags_view (Flags 0x8403) = (True, Opcode_Query, True, False, False, False, RC_NameError)" by code_simp
  from flags_fields_independent [OF this, of "Opcode_Unknown 0xF4" RC_NoError]
  have "flags_view (flags_set_opcode (Opcode_Unknown 0xF4) (Flags 0x8403))
     = (True, opcode_from_u8 (opcode_to_u8 (Opcode_Unknown 0xF4) AND mask 4), True, False, False, False, RC_NameError)"
    by blast
  moreover have "opcode_from_u8 (opcode_to_u8 (Opcode_Unknown 0xF4) AND mask 4) = Opcode_Notify" by code_simp
  ultimately show ?thesis by simp
qed

end
