(* ===== verification/DnsName.thy ===== *)
theory DnsName
  imports WireTypes
begin

text \<open>
  Owned DNS names (\<open>mdns-proto/src/name.rs\<close>): validation of a presentation string, construction
  from a string and from wire labels, and the two owner relations.  A \<open>Name\<close> wraps the stored
  string; its meaning is the label sequence \<open>name_labels\<close>, and the lemmas state each operation
  against that abstraction.  A Rust \<open>str\<close> is the list of its UTF-8 bytes; folding ASCII case
  character by character is folding it byte by byte, since no byte of a multi-byte character is
  an ASCII byte.
\<close>

datatype name_error = NE_LabelTooLong nat | NE_NameTooLong nat | NE_EmptyLabel

datatype name = Name (as_str: bytes)

subsection \<open>UTF-8\<close>

text \<open>\<open>core::str::from_utf8(b).is_ok()\<close>: the well-formed sequences of Unicode Table 3-7.\<close>

definition cont_byte :: "u8 \<Rightarrow> bool" where
  "cont_byte b \<longleftrightarrow> 0x80 \<le> b \<and> b \<le> 0xBF"

definition second_byte :: "u8 \<Rightarrow> u8 \<Rightarrow> bool" where
  "second_byte b c \<longleftrightarrow>
     (if b = 0xE0 then 0xA0 \<le> c \<and> c \<le> 0xBF
      else if b = 0xED then 0x80 \<le> c \<and> c \<le> 0x9F
      else if b = 0xF0 then 0x90 \<le> c \<and> c \<le> 0xBF
      else if b = 0xF4 then 0x80 \<le> c \<and> c \<le> 0x8F
      else cont_byte c)"

definition utf8_len :: "u8 \<Rightarrow> nat" where
  "utf8_len b =
     (if b < 0x80 then 1 else if b < 0xC2 then 0 else if b < 0xE0 then 2
      else if b < 0xF0 then 3 else if b < 0xF5 then 4 else 0)"

definition seq_ok :: "u8 \<Rightarrow> bytes \<Rightarrow> bool" where
  "seq_ok b cs = (case cs of [] \<Rightarrow> True | c # ds \<Rightarrow> second_byte b c \<and> list_all cont_byte ds)"

function utf8_valid :: "bytes \<Rightarrow> bool" where
  "utf8_valid [] \<longleftrightarrow> True"
| "utf8_valid (b # r) \<longleftrightarrow>
     (let k = utf8_len b - 1 in
      utf8_len b \<noteq> 0 \<and> k \<le> length r \<and> seq_ok b (take k r) \<and> utf8_valid (drop k r))"
  by pat_completeness auto
termination by (relation "measure length") auto

lemma utf8_valid_append: "utf8_valid xs \<Longrightarrow> utf8_valid (xs @ ys) \<longleftrightarrow> utf8_valid ys"
proof (induction xs rule: utf8_valid.induct)
  case (2 b r)
  let ?k = "utf8_len b - 1"
  from "2.prems" have k: "?k \<le> length r" by (simp add: Let_def)
  then have "take ?k (r @ ys) = take ?k r" "drop ?k (r @ ys) = drop ?k r @ ys" by simp_all
  with 2 show ?case by (simp add: Let_def del: take_append drop_append)
qed simp

lemma second_byte_high: "second_byte b c \<Longrightarrow> 0x80 \<le> c"
  by (auto simp: second_byte_def cont_byte_def word_le_nat_alt split: if_splits)

lemma to_lower_high: "0x80 \<le> b \<Longrightarrow> to_lower b = b"
  by (auto simp: to_lower_def word_le_nat_alt)

lemma to_lower_ge: "0x80 \<le> to_lower b \<longleftrightarrow> 0x80 \<le> b"
proof (cases "65 \<le> b \<and> b \<le> 90")
  case True
  then have "unat (b + 32) = unat b + 32"
    by (simp add: unat_plus_if' word_le_nat_alt)
  with True show ?thesis by (auto simp: to_lower_def word_le_nat_alt)
qed (auto simp: to_lower_def)

lemma utf8_len_ascii: "b < 0x80 \<Longrightarrow> utf8_len b = 1"
  by (simp add: utf8_len_def)

lemma utf8_len_to_lower [simp]: "utf8_len (to_lower b) = utf8_len b"
  by (cases "0x80 \<le> b") (simp_all add: to_lower_high utf8_len_ascii to_lower_ge not_le flip: not_le)

lemma utf8_len_multi: "utf8_len b \<noteq> 1 \<Longrightarrow> to_lower b = b"
  by (metis leI to_lower_high utf8_len_ascii)

lemma second_byte_to_lower [simp]: "second_byte b (to_lower c) \<longleftrightarrow> second_byte b c"
  by (metis second_byte_high to_lower_ge to_lower_high)

lemma cont_byte_to_lower [simp]: "cont_byte (to_lower c) \<longleftrightarrow> cont_byte c"
  by (metis cont_byte_def to_lower_ge to_lower_high)

lemma seq_ok_lower [simp]: "seq_ok b (lower cs) \<longleftrightarrow> seq_ok b cs"
proof (cases cs)
  case (Cons c ds)
  have "list_all cont_byte (lower ds) \<longleftrightarrow> list_all cont_byte ds" by (induction ds) auto
  with Cons show ?thesis by (simp add: seq_ok_def)
qed (simp add: seq_ok_def)

lemma utf8_valid_lower [simp]: "utf8_valid (lower s) \<longleftrightarrow> utf8_valid s"
proof (induction s rule: utf8_valid.induct)
  case (2 b r)
  have "seq_ok (to_lower b) (take (utf8_len b - 1) (lower r)) \<longleftrightarrow> seq_ok b (take (utf8_len b - 1) r)"
  proof (cases "utf8_len b - 1 = 0")
    case True
    then show ?thesis by (simp add: seq_ok_def)
  next
    case False
    then have "to_lower b = b" by (intro utf8_len_multi) simp
    then show ?thesis using seq_ok_lower [of b "take (utf8_len b - 1) r"] by (simp add: lower_def take_map)
  qed
  with 2 show ?case by (simp add: Let_def lower_def drop_map)
qed simp

subsection \<open>Validation\<close>

fun validate_labels :: "nat \<Rightarrow> bytes list \<Rightarrow> name_error + nat" where
  "validate_labels wire_len [] = Inr wire_len"
| "validate_labels wire_len (l # ls) =
     (if l = [] then Inl NE_EmptyLabel
      else if MAX_LABEL_BYTES < length l then Inl (NE_LabelTooLong (length l))
      else validate_labels (wire_len + 1 + length l) ls)"

definition validate_name :: "bytes \<Rightarrow> name_error + unit" where
  "validate_name s =
     (if MAX_NAME_BYTES < length s then Inl (NE_NameTooLong (length s))
      else if s = [] then Inr ()
      else rbind (validate_labels 1 (split_dot (strip_dot s))) (\<lambda>wire_len.
        if MAX_NAME_BYTES < wire_len then Inl (NE_NameTooLong wire_len) else Inr ()))"

definition try_from_str :: "bytes \<Rightarrow> name_error + name" where
  "try_from_str s = rbind (validate_name s) (\<lambda>_. Inr (Name (lower s)))"

text \<open>The loop of \<open>from_wire_labels\<close>: the string built so far and the running wire length.\<close>

fun wire_labels_loop :: "bytes \<Rightarrow> nat \<Rightarrow> ('e + bytes) list \<Rightarrow> bytes option" where
  "wire_labels_loop buf wire_len [] = Some buf"
| "wire_labels_loop buf wire_len (Inl e # ls) = None"
| "wire_labels_loop buf wire_len (Inr label # ls) =
     (if MAX_LABEL_BYTES < length label then None
      else if MAX_NAME_BYTES < wire_len + 1 + length label then None
      else if dot \<in> set label then None
      else if \<not> utf8_valid label then None
      else wire_labels_loop (buf @ lower label @ [dot]) (wire_len + 1 + length label) ls)"

definition from_wire_labels :: "('e + bytes) list \<Rightarrow> name option" where
  "from_wire_labels labels =
     (case wire_labels_loop [] 1 labels of
        None \<Rightarrow> None
      | Some buf \<Rightarrow> (case validate_name buf of Inl _ \<Rightarrow> None | Inr _ \<Rightarrow> Some (Name buf)))"

subsection \<open>Owner relations\<close>

definition same_owner :: "name \<Rightarrow> name \<Rightarrow> bool" where
  "same_owner a b \<longleftrightarrow> lower (strip_dot (as_str a)) = lower (strip_dot (as_str b))"

text \<open>\<open>s.split_once('.')\<close>.\<close>

definition split_once :: "bytes \<Rightarrow> (bytes \<times> bytes) option" where
  "split_once s =
     (let p = takeWhile (\<lambda>c. c \<noteq> dot) s in
      if length p < length s then Some (p, drop (Suc (length p)) s) else None)"

definition is_parent_of :: "name \<Rightarrow> name \<Rightarrow> bool" where
  "is_parent_of self other =
     (let other_trimmed = strip_dot (as_str other) in
      case split_once other_trimmed of
        Some (first_label, rest) \<Rightarrow> lower (strip_dot (as_str self)) = lower rest
      | None \<Rightarrow> other_trimmed \<noteq> [] \<and> strip_dot (as_str self) = [])"

subsection \<open>Label sequences\<close>

definition labels_of_str :: "bytes \<Rightarrow> bytes list" where
  "labels_of_str s = (let t = strip_dot s in if t = [] then [] else split_dot t)"

definition name_labels :: "name \<Rightarrow> bytes list" where
  "name_labels n = labels_of_str (as_str n)"

definition wire_octets_of :: "bytes list \<Rightarrow> nat" where
  "wire_octets_of ls = 1 + sum_list (map (\<lambda>l. 1 + length l) ls)"

definition label_ok :: "bytes \<Rightarrow> bool" where
  "label_ok l \<longleftrightarrow> 1 \<le> length l \<and> length l \<le> MAX_LABEL_BYTES"

text \<open>The invariant of a stored name: valid, folded, and within the limits of RFC 1035.\<close>

definition name_ok :: "name \<Rightarrow> bool" where
  "name_ok n \<longleftrightarrow> validate_name (as_str n) = Inr () \<and> lower (as_str n) = as_str n"

lemma wire_octets_of_simps [simp]:
  "wire_octets_of [] = 1"
  "wire_octets_of (l # ls) = Suc (length l) + wire_octets_of ls"
  by (simp_all add: wire_octets_of_def)

lemma wire_octets_of_append:
  "wire_octets_of (xs @ ys) + 1 = wire_octets_of xs + wire_octets_of ys"
  by (simp add: wire_octets_of_def)

lemma wire_octets_of_map:
  "(\<And>l. length (f l) = length l) \<Longrightarrow> wire_octets_of (map f ls) = wire_octets_of ls"
  by (induction ls) auto

lemma wire_octets_of_map_lower [simp]: "wire_octets_of (map lower ls) = wire_octets_of ls"
  by (rule wire_octets_of_map) simp

lemma label_ok_lower [simp]: "label_ok (lower l) = label_ok l"
  by (simp add: label_ok_def)

lemma validate_labels_ok:
  "validate_labels w ls = Inr k \<longleftrightarrow> list_all label_ok ls \<and> k + 1 = w + wire_octets_of ls"
  by (induction w ls rule: validate_labels.induct) (auto simp: label_ok_def not_less Suc_le_eq)

lemma validate_labels_err:
  "validate_labels w ls = Inl e \<Longrightarrow> \<exists>l\<in>set ls. \<not> label_ok l"
  by (induction w ls rule: validate_labels.induct) (auto simp: label_ok_def split: if_splits)

lemma wire_octets_split_dot: "wire_octets_of (split_dot s) = length s + 2"
proof -
  have "wire_octets_of ps = 1 + sum_list (map length ps) + length ps" for ps :: "bytes list"
    by (induction ps) auto
  then show ?thesis using sum_length_split_on [of dot s] by (simp add: split_dot_def)
qed

lemma validate_name_ok:
  "validate_name s = Inr () \<longleftrightarrow>
     s = [] \<or> (list_all label_ok (split_dot (strip_dot s)) \<and> length (strip_dot s) + 2 \<le> MAX_NAME_BYTES)"
proof (cases "s = []")
  case False
  have "length s \<le> Suc (length (strip_dot s))" by (auto simp: strip_dot_def)
  then show ?thesis using False
    by (auto simp: validate_name_def rbind_eq_Inr validate_labels_ok wire_octets_split_dot not_less
        limit_defs)
qed (simp add: validate_name_def)

lemma strip_dot_Nil_iff: "strip_dot s = [] \<longleftrightarrow> s = [] \<or> s = [dot]"
  by (cases s rule: rev_cases) (auto simp: strip_dot_def)

lemma validate_name_dot [simp]: "validate_name [dot] \<noteq> Inr ()"
  by (simp add: validate_name_ok strip_dot_def split_dot_def label_ok_def)

lemma valid_str_labels:
  assumes "validate_name s = Inr ()"
  shows "list_all label_ok (labels_of_str s)" "wire_octets_of (labels_of_str s) \<le> MAX_NAME_BYTES"
  using assms by (auto simp: validate_name_ok labels_of_str_def wire_octets_split_dot limit_defs Let_def
      strip_dot_def)

lemma labels_of_str_Nil_iff:
  "validate_name s = Inr () \<Longrightarrow> labels_of_str s = [] \<longleftrightarrow> s = []"
  using validate_name_dot by (auto simp: labels_of_str_def strip_dot_Nil_iff Let_def split_dot_def)

lemma labels_of_str_lower: "labels_of_str (lower s) = map lower (labels_of_str s)"
  by (simp add: labels_of_str_def strip_dot_lower split_dot_lower Let_def)

lemma validate_name_lower: "validate_name (lower s) = Inr () \<longleftrightarrow> validate_name s = Inr ()"
  by (auto simp: validate_name_ok strip_dot_lower split_dot_lower list_all_iff)

lemma try_from_str_ok:
  "try_from_str s = Inr n \<longleftrightarrow> validate_name s = Inr () \<and> n = Name (lower s)"
  by (auto simp: try_from_str_def rbind_eq_Inr)

lemma labels_of_str_inj: "labels_of_str s = labels_of_str t \<longleftrightarrow> strip_dot s = strip_dot t"
proof -
  have "split_on dot u \<noteq> []" "[] \<noteq> split_on dot u" for u by (simp_all add: eq_commute [of "[]"])
  then show ?thesis
    by (auto simp: labels_of_str_def Let_def split_dot_def dest: split_on_inj)
qed

lemma same_owner_labels:
  "same_owner a b \<longleftrightarrow> map lower (name_labels a) = map lower (name_labels b)"
  by (metis labels_of_str_inj labels_of_str_lower name_labels_def same_owner_def strip_dot_lower)

lemma name_ok_labels_lower: "name_ok n \<Longrightarrow> map lower (name_labels n) = name_labels n"
  by (metis labels_of_str_lower name_labels_def name_ok_def)

lemma split_dot_split_once:
  "split_dot s = (case split_once s of None \<Rightarrow> [s] | Some (p, r) \<Rightarrow> p # split_dot r)"
proof (cases "dot \<in> set s")
  case True
  then obtain p r where s: "s = p @ dot # r" and p: "dot \<notin> set p"
    by (metis split_list_first)
  then have "takeWhile (\<lambda>c. c \<noteq> dot) s = p"
    by (simp add: takeWhile_append takeWhile_eq_all_conv [THEN iffD2])
  then show ?thesis using s p by (simp add: split_once_def split_dot_def split_on_append_sep)
next
  case False
  then have tw: "takeWhile (\<lambda>c. c \<noteq> dot) s = s" by (auto simp: takeWhile_eq_all_conv)
  show ?thesis using False
    unfolding split_once_def tw Let_def by (simp add: split_dot_def split_on_no_sep)
qed

lemma is_parent_of_labels:
  assumes "name_ok self" "name_ok other"
  shows "is_parent_of self other
           \<longleftrightarrow> name_labels other \<noteq> [] \<and> tl (name_labels other) = name_labels self"
proof -
  let ?t = "strip_dot (as_str other)" and ?s = "strip_dot (as_str self)"
  have low: "lower ?t = ?t" "lower ?s = ?s"
    using assms by (simp_all add: name_ok_def flip: strip_dot_lower)
  have lself: "name_labels self = (if ?s = [] then [] else split_dot ?s)"
    by (simp add: name_labels_def labels_of_str_def Let_def)
  show ?thesis
  proof (cases "?t = []")
    case True
    then show ?thesis by (simp add: is_parent_of_def split_once_def name_labels_def labels_of_str_def)
  next
    case False
    then have lo: "name_labels other = split_dot ?t"
      by (simp add: name_labels_def labels_of_str_def Let_def)
    have ok: "list_all label_ok (split_dot ?t)"
      using valid_str_labels [of "as_str other"] assms(2) lo by (simp add: name_ok_def name_labels_def)
    show ?thesis
    proof (cases "split_once ?t")
      case None
      then have "split_dot ?t = [?t]" by (simp add: split_dot_split_once)
      moreover have "split_dot ?s \<noteq> []" by (simp add: split_dot_def)
      ultimately show ?thesis using False lo lself None by (auto simp: is_parent_of_def Let_def)
    next
      case (Some pr)
      then obtain p r where pr: "split_once ?t = Some (p, r)" by (cases pr) auto
      have tl: "split_dot ?t = p # split_dot r" using pr by (simp add: split_dot_split_once [of ?t])
      have "r \<noteq> []" using ok tl by (auto simp: split_dot_def label_ok_def)
      have "lower r = r"
      proof -
        have "map lower (split_dot ?t) = split_dot ?t" using low(1) by (simp flip: split_dot_lower)
        then have "split_dot (lower r) = split_dot r" using tl by (simp add: split_dot_lower)
        then show ?thesis by (auto simp: split_dot_def dest: split_on_inj)
      qed
      then show ?thesis using pr tl lo lself low(2) \<open>r \<noteq> []\<close>
        by (auto simp: is_parent_of_def split_dot_def dest: split_on_inj)
    qed
  qed
qed

subsection \<open>Names from wire labels\<close>

definition wire_label_fits :: "bytes \<Rightarrow> bool" where
  "wire_label_fits l \<longleftrightarrow> length l \<le> MAX_LABEL_BYTES \<and> dot \<notin> set l \<and> utf8_valid l"

definition dotted :: "bytes list \<Rightarrow> bytes" where
  "dotted ls = concat (map (\<lambda>l. lower l @ [dot]) ls)"

lemma dotted_simps [simp]:
  "dotted [] = []" "dotted (l # ls) = lower l @ dot # dotted ls"
  by (simp_all add: dotted_def)

lemma wire_labels_loop_Some:
  "wire_labels_loop buf w (map Inr ls) = Some r \<longleftrightarrow>
     list_all wire_label_fits ls \<and> (ls \<noteq> [] \<longrightarrow> w + wire_octets_of ls \<le> MAX_NAME_BYTES + 1) \<and>
     r = buf @ dotted ls"
proof (induction ls arbitrary: buf w)
  case (Cons l ls)
  have "1 \<le> wire_octets_of ls" by (simp add: wire_octets_of_def)
  then show ?case
    using Cons.IH by (cases ls) (auto simp: wire_label_fits_def not_less)
qed auto

lemma wire_labels_loop_all_ok:
  "wire_labels_loop buf w rs = Some r \<Longrightarrow> \<exists>ls. rs = map Inr ls"
proof (induction buf w rs rule: wire_labels_loop.induct)
  case (3 buf w l ls)
  then obtain ks where "ls = map Inr ks" by (auto split: if_splits)
  then have "Inr l # ls = map Inr (l # ks)" by simp
  then show ?case by (rule exI [of _ "l # ks"])
qed auto

lemma dot_notin_lower: "dot \<notin> set l \<Longrightarrow> dot \<notin> set (lower l)"
  unfolding lower_def dot_def set_map image_iff by (metis to_lower_dot)

lemma strip_dotted: "ls \<noteq> [] \<Longrightarrow> dotted ls = strip_dot (dotted ls) @ [dot]"
proof -
  assume "ls \<noteq> []"
  then obtain ks l where "ls = ks @ [l]" by (metis rev_exhaust)
  then have "dotted ls = (dotted ks @ lower l) @ [dot]" by (simp add: dotted_def)
  then show ?thesis by (metis strip_dot_append)
qed

lemma split_dotted:
  "list_all wire_label_fits ls \<Longrightarrow> split_dot (dotted ls) = map lower ls @ [[]]"
  by (induction ls)
    (auto simp: split_dot_def wire_label_fits_def split_on_append_sep dot_notin_lower)

lemma split_strip_dotted:
  assumes "list_all wire_label_fits ls" "ls \<noteq> []"
  shows "split_dot (strip_dot (dotted ls)) = map lower ls"
proof -
  have snoc: "split_on c (t @ [c]) = split_on c t @ [[]]" for c :: u8 and t
    by (induction t) (auto split: list.splits)
  have "split_dot (strip_dot (dotted ls) @ [dot]) = map lower ls @ [[]]"
    using strip_dotted [OF assms(2)] split_dotted [OF assms(1)] by simp
  then show ?thesis by (simp add: split_dot_def snoc)
qed

lemma lower_dotted [simp]: "lower (dotted ls) = dotted ls"
  by (induction ls) (simp_all add: to_lower_def dot_def)

lemma validate_dotted:
  assumes "list_all wire_label_fits ls" "wire_octets_of ls \<le> MAX_NAME_BYTES"
  shows "validate_name (dotted ls) = Inr () \<longleftrightarrow> [] \<notin> set ls"
proof (cases "ls = []")
  case False
  have "length (strip_dot (dotted ls)) + 2 = wire_octets_of (map lower ls)"
    using wire_octets_split_dot [of "strip_dot (dotted ls)"] assms(1) False
    by (simp add: split_strip_dotted)
  moreover have "dotted ls \<noteq> []" using False by (cases ls) simp_all
  ultimately show ?thesis using assms False
    by (auto simp: validate_name_ok split_strip_dotted list_all_iff label_ok_def wire_label_fits_def
        Suc_le_eq)
qed (simp add: validate_name_def limit_defs)

lemma from_wire_labels_Some:
  "from_wire_labels rs = Some n \<longleftrightarrow>
     (\<exists>ls. rs = map Inr ls \<and> list_all wire_label_fits ls \<and> [] \<notin> set ls \<and>
           wire_octets_of ls \<le> MAX_NAME_BYTES \<and> n = Name (dotted ls))"
proof
  assume *: "from_wire_labels rs = Some n"
  then obtain buf where loop: "wire_labels_loop [] 1 rs = Some buf" and n: "n = Name buf"
    and v: "validate_name buf = Inr ()"
    by (auto simp: from_wire_labels_def split: option.splits sum.splits)
  obtain ls where rs: "rs = map Inr ls" using wire_labels_loop_all_ok [OF loop] by blast
  have fits: "list_all wire_label_fits ls" and le: "wire_octets_of ls \<le> MAX_NAME_BYTES"
    and buf: "buf = dotted ls"
    using loop unfolding rs wire_labels_loop_Some by (auto simp: limit_defs)
  show "\<exists>ls. rs = map Inr ls \<and> list_all wire_label_fits ls \<and> [] \<notin> set ls \<and>
           wire_octets_of ls \<le> MAX_NAME_BYTES \<and> n = Name (dotted ls)"
    using rs fits le buf n v validate_dotted [OF fits le] by auto
next
  assume "\<exists>ls. rs = map Inr ls \<and> list_all wire_label_fits ls \<and> [] \<notin> set ls \<and>
           wire_octets_of ls \<le> MAX_NAME_BYTES \<and> n = Name (dotted ls)"
  then obtain ls where ls: "rs = map Inr ls" "list_all wire_label_fits ls" "[] \<notin> set ls"
    "wire_octets_of ls \<le> MAX_NAME_BYTES" "n = Name (dotted ls)" by blast
  then have "wire_labels_loop [] 1 rs = Some (dotted ls)"
    by (simp add: wire_labels_loop_Some)
  then show "from_wire_labels rs = Some n"
    using validate_dotted [OF ls(2,4)] ls(3,5) by (simp add: from_wire_labels_def)
qed

lemma labels_of_dotted:
  "list_all wire_label_fits ls \<Longrightarrow> [] \<notin> set ls \<Longrightarrow> labels_of_str (dotted ls) = map lower ls"
proof (cases "ls = []")
  case False
  assume *: "list_all wire_label_fits ls" "[] \<notin> set ls"
  then have "strip_dot (dotted ls) \<noteq> []"
    using split_strip_dotted [OF *(1) False] False by (cases ls) (auto simp: split_dot_def)
  then show ?thesis using * False by (simp add: labels_of_str_def split_strip_dotted)
qed (simp add: labels_of_str_def strip_dot_def)

subsection \<open>Properties\<close>

text \<open>
  \<open>Name::try_from_str\<close> accepts exactly the strings whose labels are 1 to 63 octets long and
  whose wire form is at most 255 octets (the empty string is the root), and the name it returns
  keeps the invariant of stored names and carries the string's labels, folded to lower case.
\<close>
theorem try_from_str_spec:
  "(is_ok (try_from_str s) \<longleftrightarrow>
      s = [] \<or> (list_all label_ok (split_dot (strip_dot s)) \<and>
               wire_octets_of (split_dot (strip_dot s)) \<le> MAX_NAME_BYTES)) \<and>
   (case try_from_str s of
      Inl _ \<Rightarrow> True
    | Inr n \<Rightarrow> name_ok n \<and> name_labels n = map lower (labels_of_str s) \<and>
              wire_octets_of (name_labels n) \<le> MAX_NAME_BYTES \<and> try_from_str (as_str n) = Inr n)"
proof -
  have ok: "is_ok (try_from_str s) \<longleftrightarrow> validate_name s = Inr ()"
    by (cases "validate_name s") (simp_all add: try_from_str_def)
  show ?thesis
  proof (cases "validate_name s")
    case (Inl e)
    then show ?thesis using ok validate_name_ok [of s]
      by (simp add: try_from_str_def wire_octets_split_dot)
  next
    case (Inr u)
    then have v: "validate_name s = Inr ()" by simp
    then have v': "validate_name (lower s) = Inr ()" by (simp add: validate_name_lower)
    from ok v show ?thesis
      using validate_name_ok [of s] valid_str_labels(2) [OF v']
      by (auto simp: try_from_str_def v' name_ok_def name_labels_def labels_of_str_lower
          wire_octets_split_dot)
  qed
qed

text \<open>
  \<open>Name::from_wire_labels\<close> never conflates two label sequences: it succeeds exactly when every
  item is a label of 1 to 63 octets of valid UTF-8 without a dot and the wire form is at most 255
  octets, the name it builds keeps the invariant, its string is valid UTF-8, and reading its labels
  back gives the input labels up to ASCII case.
\<close>
theorem from_wire_labels_faithful:
  "(from_wire_labels rs \<noteq> None \<longleftrightarrow>
      (\<exists>ls. rs = map Inr ls \<and> list_all label_ok ls \<and> list_all (\<lambda>l. dot \<notin> set l \<and> utf8_valid l) ls \<and>
            wire_octets_of ls \<le> MAX_NAME_BYTES)) \<and>
   (case from_wire_labels rs of
      None \<Rightarrow> True
    | Some n \<Rightarrow> name_ok n \<and> utf8_valid (as_str n) \<and> map Inr (name_labels n) = map (map_sum id lower) rs)"
proof (intro conjI)
  have "list_all wire_label_fits ls \<and> [] \<notin> set ls \<longleftrightarrow>
      list_all label_ok ls \<and> list_all (\<lambda>l. dot \<notin> set l \<and> utf8_valid l) ls" for ls
    by (induction ls) (auto simp: wire_label_fits_def label_ok_def Suc_le_eq)
  then show "from_wire_labels rs \<noteq> None \<longleftrightarrow>
      (\<exists>ls. rs = map Inr ls \<and> list_all label_ok ls \<and> list_all (\<lambda>l. dot \<notin> set l \<and> utf8_valid l) ls \<and>
            wire_octets_of ls \<le> MAX_NAME_BYTES)"
    unfolding not_None_eq from_wire_labels_Some by blast
  have utf8: "utf8_valid (dotted ls)" if "list_all wire_label_fits ls" for ls
    using that
  proof (induction ls)
    case (Cons l ls)
    have "utf8_valid (dot # dotted ls) \<longleftrightarrow> utf8_valid (dotted ls)"
      by (simp add: utf8_len_def dot_def seq_ok_def)
    with Cons show ?case by (simp add: utf8_valid_append wire_label_fits_def del: utf8_valid.simps)
  qed simp
  show "case from_wire_labels rs of None \<Rightarrow> True
    | Some n \<Rightarrow> name_ok n \<and> utf8_valid (as_str n) \<and> map Inr (name_labels n) = map (map_sum id lower) rs"
  proof (cases "from_wire_labels rs")
    case (Some n)
    then obtain ls where ls: "rs = map Inr ls" "list_all wire_label_fits ls" "[] \<notin> set ls"
      "wire_octets_of ls \<le> MAX_NAME_BYTES" "n = Name (dotted ls)"
      unfolding from_wire_labels_Some by blast
    with Some show ?thesis
      by (simp add: name_ok_def validate_dotted utf8 name_labels_def labels_of_dotted)
  qed simp
qed

text \<open>
  \<open>Name::same_owner\<close> is equality of label sequences up to ASCII case, so it is an equivalence
  relation blind to the trailing root dot and to nothing else.
\<close>
theorem same_owner_spec:
  "(same_owner a b \<longleftrightarrow> map lower (name_labels a) = map lower (name_labels b)) \<and>
   same_owner a a \<and> same_owner (Name (strip_dot (as_str a) @ [dot])) a"
  by (auto simp: same_owner_labels [symmetric]) (auto simp: same_owner_def)

text \<open>
  \<open>Name::is_parent_of\<close> asks for exactly one more label: for stored names the parent's labels are
  the child's labels after its first, and in particular nothing is the parent of the root.
\<close>
theorem is_parent_of_spec:
  assumes "name_ok self" "name_ok other"
  shows "is_parent_of self other \<longleftrightarrow> (\<exists>l. name_labels other = l # name_labels self)"
  using is_parent_of_labels [OF assms] by (cases "name_labels other") auto

lemma is_parent_of_spec_witness:
  "is_parent_of (Name [98]) (Name [97, 46, 98, 46]) \<and>
   (\<exists>l. name_labels (Name [97, 46, 98, 46]) = l # name_labels (Name [98]))"
proof -
  have "name_ok (Name [98])" "name_ok (Name [97, 46, 98, 46])" by code_simp+
  moreover have "is_parent_of (Name [98]) (Name [97, 46, 98, 46])" by code_simp
  ultimately show ?thesis using is_parent_of_spec by simp
qed

end
