(* ===== verification/WireName.thy ===== *)
theory WireName
  imports DnsName
begin

text \<open>
  Names inside a message (\<open>wire/name.rs\<close>): the inline parser \<open>NameRef::try_parse\<close>, the label
  iterator \<open>NameLabels\<close> that follows compression pointers, the decompressing writer \<open>write_wire\<close>
  and the comparison \<open>equals_ignoring_case\<close>.  The specification is the relation \<open>name_at\<close>, the
  reading of RFC 1035 section 4.1.4: the labels found at an offset, with the number of pointers
  followed.  The iterator is shown to yield exactly those labels, within 32 pointers and 255 octets.
\<close>

definition POINTER_TAG_MASK :: u8 where "POINTER_TAG_MASK = 0xC0"
definition POINTER_TAG :: u8 where "POINTER_TAG = 0xC0"
definition POINTER_OFFSET_HI_MASK :: u8 where "POINTER_OFFSET_HI_MASK = 0x3F"

record name_ref =
  nr_message :: bytes
  nr_start :: u16

subsection \<open>The inline parser\<close>

function nr_parse_loop :: "bytes \<Rightarrow> nat \<Rightarrow> nat \<Rightarrow> parse_error + name_ref \<times> nat" where
  "nr_parse_loop message offset cursor =
     (case get message cursor of
        None \<Rightarrow> Inl (BufferTooShort 1 cursor 0)
      | Some kind_byte \<Rightarrow>
          if kind_byte = 0 then
            let consumed = cursor - offset + 1 in
            rbind (ok_or (u16_try_from offset) IntegerConversion) (\<lambda>start.
              Inr (\<lparr>nr_message = message, nr_start = start\<rparr>, consumed))
          else if kind_byte AND POINTER_TAG_MASK = 0 then
            let len = unat kind_byte in
            if MAX_LABEL_BYTES < len then Inl (LabelTooLong len)
            else
              let after_len = cursor + 1; label_end = after_len + len in
              if length message < label_end
              then Inl (BufferTooShort len after_len (length message - after_len))
              else nr_parse_loop message offset label_end
          else if kind_byte AND POINTER_TAG_MASK = POINTER_TAG then
            let after_first = cursor + 1 in
            (case get message after_first of
               None \<Rightarrow> Inl (BufferTooShort 1 after_first 0)
             | Some _ \<Rightarrow>
                 let consumed = after_first + 1 - offset in
                 rbind (ok_or (u16_try_from offset) IntegerConversion) (\<lambda>start.
                   Inr (\<lparr>nr_message = message, nr_start = start\<rparr>, consumed)))
          else Inl (InvalidLabelKind kind_byte))"
  by pat_completeness auto
termination by (relation "measure (\<lambda>(message, offset, cursor). length message - cursor)") (auto simp: get_Some)

declare nr_parse_loop.simps [simp del]

definition nr_try_parse :: "bytes \<Rightarrow> nat \<Rightarrow> parse_error + name_ref \<times> nat" where
  "nr_try_parse message offset = nr_parse_loop message offset offset"

subsection \<open>The label iterator\<close>

record name_iter =
  ni_message :: bytes
  ni_cursor :: u16
  hops_remaining :: nat
  wire_octets :: nat
  ni_done :: bool

definition nr_labels :: "name_ref \<Rightarrow> name_iter" where
  "nr_labels r = \<lparr>ni_message = nr_message r, ni_cursor = nr_start r,
                  hops_remaining = MAX_POINTER_HOPS, wire_octets = 1, ni_done = False\<rparr>"

text \<open>The target of a two-octet pointer.\<close>

definition ptr_target :: "u8 \<Rightarrow> u8 \<Rightarrow> u16" where
  "ptr_target kind_byte second =
     push_bit 8 (ucast (kind_byte AND POINTER_OFFSET_HI_MASK)) OR ucast second"

type_synonym label_item = "parse_error + bytes"

definition ni_fail :: "name_iter \<Rightarrow> parse_error \<Rightarrow> label_item option \<times> name_iter" where
  "ni_fail it e = (Some (Inl e), it\<lparr>ni_done := True\<rparr>)"

function ni_loop :: "name_iter \<Rightarrow> label_item option \<times> name_iter" where
  "ni_loop it =
     (let message = ni_message it; cursor = unat (ni_cursor it) in
      case get message cursor of
        None \<Rightarrow> ni_fail it (BufferTooShort 1 cursor 0)
      | Some kind_byte \<Rightarrow>
          if kind_byte = 0 then (None, it\<lparr>ni_done := True\<rparr>)
          else if kind_byte AND POINTER_TAG_MASK = 0 then
            let len = unat kind_byte in
            if MAX_LABEL_BYTES < len then ni_fail it (LabelTooLong len)
            else
              let after_len = cursor + 1; label_end = after_len + len in
              (case slice message after_len label_end of
                 None \<Rightarrow> ni_fail it (BufferTooShort len after_len (length message - after_len))
               | Some label \<Rightarrow>
                   let it = it\<lparr>wire_octets := wire_octets it + (1 + len)\<rparr> in
                   if MAX_NAME_BYTES < wire_octets it then ni_fail it (NameTooLong (wire_octets it))
                   else (case u16_try_from label_end of
                           None \<Rightarrow> ni_fail it IntegerConversion
                         | Some v \<Rightarrow> (Some (Inr label), it\<lparr>ni_cursor := v\<rparr>)))
          else if kind_byte AND POINTER_TAG_MASK = POINTER_TAG then
            if hops_remaining it = 0 then ni_fail it (PointerChainTooLong MAX_POINTER_HOPS)
            else
              let it = it\<lparr>hops_remaining := hops_remaining it - 1\<rparr>; after_first = cursor + 1 in
              (case get message after_first of
                 None \<Rightarrow> ni_fail it (BufferTooShort 1 after_first 0)
               | Some second \<Rightarrow>
                   let target = ptr_target kind_byte second in
                   if ni_cursor it \<le> target then ni_fail it (PointerForward target (ni_cursor it))
                   else ni_loop (it\<lparr>ni_cursor := target\<rparr>))
          else ni_fail it (InvalidLabelKind kind_byte))"
  by pat_completeness auto
termination by (relation "measure hops_remaining") auto

declare ni_loop.simps [simp del]

definition ni_next :: "name_iter \<Rightarrow> label_item option \<times> name_iter" where
  "ni_next it = (if ni_done it then (None, it) else ni_loop it)"

text \<open>What a \<open>for\<close> loop over the iterator sees: its items, in order.\<close>

definition ni_measure :: "name_iter \<Rightarrow> nat" where
  "ni_measure it = (if ni_done it then 0 else 1 + (256 - wire_octets it))"

lemma ni_loop_progress:
  "ni_loop it = (Some r, it') \<Longrightarrow>
     (case r of Inl e \<Rightarrow> ni_done it'
      | Inr l \<Rightarrow> ni_done it' = ni_done it \<and> wire_octets it' = wire_octets it + 1 + length l \<and>
               1 \<le> length l \<and> length l \<le> MAX_LABEL_BYTES \<and> wire_octets it' \<le> MAX_NAME_BYTES)"
proof (induction "hops_remaining it" arbitrary: it rule: less_induct)
  case less
  let ?c = "unat (ni_cursor it)"
  let ?it = "it\<lparr>hops_remaining := hops_remaining it - 1,
                ni_cursor := ptr_target (ni_message it ! ?c) (ni_message it ! Suc ?c)\<rparr>"
  show ?case
    using less(2) less(1) [of ?it] unfolding ni_loop.simps [of it]
    by (auto simp: Let_def ni_fail_def get_Some not_less unat_gt_0 unat_eq_0 Suc_le_eq dest!: slice_length
        split: option.splits if_splits sum.splits)
qed

lemma ni_next_measure:
  "ni_next it = (Some r, it') \<Longrightarrow> ni_measure it' < ni_measure it"
  using ni_loop_progress [of it r it']
  by (auto simp: ni_next_def ni_measure_def limit_defs split: if_splits sum.splits)

function ni_collect :: "name_iter \<Rightarrow> label_item list" where
  "ni_collect it = (case ni_next it of (None, _) \<Rightarrow> [] | (Some r, it') \<Rightarrow> r # ni_collect it')"
  by pat_completeness auto
termination by (relation "measure ni_measure") (auto dest: ni_next_measure [OF sym])

declare ni_collect.simps [simp del]

definition nr_items :: "name_ref \<Rightarrow> label_item list" where
  "nr_items r = ni_collect (nr_labels r)"

subsection \<open>Decompressing and comparing\<close>

text \<open>\<open>write_wire\<close> pushes onto \<open>out\<close> as it reads, so the vector is returned in every case.\<close>

fun write_wire_loop ::
  "bool \<Rightarrow> nat \<Rightarrow> bytes \<Rightarrow> label_item list \<Rightarrow> (parse_error + unit) \<times> bytes" where
  "write_wire_loop fold_case encoded out [] = (Inr (), out @ [0])"
| "write_wire_loop fold_case encoded out (Inl e # items) = (Inl e, out)"
| "write_wire_loop fold_case encoded out (Inr label # items) =
     (if label = [] then (Inr (), out @ [0])
      else
        let len = min (length label) MAX_LABEL_BYTES; encoded = encoded + (1 + len) in
        if MAX_NAME_BYTES < encoded then (Inl (NameTooLong encoded), out)
        else write_wire_loop fold_case encoded
               (out @ word_of_nat len #
                  (if fold_case then map to_lower (take MAX_LABEL_BYTES label)
                   else take MAX_LABEL_BYTES label)) items)"

definition write_wire :: "name_ref \<Rightarrow> bytes \<Rightarrow> bool \<Rightarrow> (parse_error + unit) \<times> bytes" where
  "write_wire r out fold_case = write_wire_loop fold_case 1 out (nr_items r)"

text \<open>The inner loop over the octets of two labels of equal length.\<close>

function octets_eq_from :: "bytes \<Rightarrow> bytes \<Rightarrow> nat \<Rightarrow> bool" where
  "octets_eq_from la lb i =
     (if i < length la then
        (case get la i of None \<Rightarrow> False | Some ca \<Rightarrow>
          (case get lb i of None \<Rightarrow> False | Some cb \<Rightarrow>
            if \<not> eq_ignore_case ca cb then False else octets_eq_from la lb (i + 1)))
      else True)"
  by pat_completeness auto
termination by (relation "measure (\<lambda>(la, lb, i). length la - i)") auto

declare octets_eq_from.simps [simp del]

function iters_eq :: "name_iter \<Rightarrow> name_iter \<Rightarrow> bool" where
  "iters_eq a b =
     (case (ni_next a, ni_next b) of
        ((None, _), (None, _)) \<Rightarrow> True
      | ((Some (Inr la), a'), (Some (Inr lb), b')) \<Rightarrow>
          if length la \<noteq> length lb then False
          else if \<not> octets_eq_from la lb 0 then False
          else iters_eq a' b'
      | _ \<Rightarrow> False)"
  by pat_completeness auto
termination
  by (relation "measure (\<lambda>(a, b). ni_measure a)") (auto dest: ni_next_measure [OF sym])

declare iters_eq.simps [simp del]

definition equals_ignoring_case :: "name_ref \<Rightarrow> name_ref \<Rightarrow> bool" where
  "equals_ignoring_case a b = iters_eq (nr_labels a) (nr_labels b)"

subsection \<open>Pointer arithmetic\<close>

lemma bit_low6: "bit (0x3F :: u8) n \<longleftrightarrow> n < 6"
proof -
  have "(0x3F :: u8) = mask 6" by (simp add: mask_eq_exp_minus_1)
  then show ?thesis unfolding \<open>(0x3F :: u8) = mask 6\<close> bit_mask_iff by auto
qed

lemma tag_eq: "k AND POINTER_TAG_MASK = push_bit 6 (drop_bit 6 k)"
proof -
  have m: "POINTER_TAG_MASK = NOT (0x3F :: u8)" by (simp add: POINTER_TAG_MASK_def)
  have "bit (k AND POINTER_TAG_MASK) n = bit (push_bit 6 (drop_bit 6 k)) n" if "n < 8" for n
    using that unfolding m bit_and_iff bit_not_iff bit_low6 bit_push_bit_iff bit_drop_bit_eq
    by auto
  then show ?thesis by (intro bit_word_eqI) simp
qed

lemma unat_drop_bit6: "unat (drop_bit 6 (k :: u8)) = unat k div 64"
  by (simp add: drop_bit_eq_div unat_div)

lemma label_tag_iff [simp]: "k AND POINTER_TAG_MASK = 0 \<longleftrightarrow> unat k < 64"
proof -
  have "unat k div 64 < 4" using unat_u8_le [of k] by linarith
  then have "unat (push_bit 6 (drop_bit 6 k)) = unat k div 64 * 64"
    by (simp add: push_bit_eq_mult unat_word_ariths unat_drop_bit6)
  then show ?thesis unfolding tag_eq by (auto simp: unat_eq_0 [symmetric])
qed

lemma ptr_tag_iff [simp]: "k AND POINTER_TAG_MASK = POINTER_TAG \<longleftrightarrow> 192 \<le> unat k"
proof -
  have lt: "unat k div 64 < 4" using unat_u8_le [of k] by linarith
  then have "unat (push_bit 6 (drop_bit 6 k)) = unat k div 64 * 64"
    by (simp add: push_bit_eq_mult unat_word_ariths unat_drop_bit6)
  then show ?thesis unfolding tag_eq word_unat_eq_iff POINTER_TAG_def using lt by auto
qed

lemma unat_hi_mask: "unat (k AND POINTER_OFFSET_HI_MASK) = unat k mod 64"
proof -
  have "POINTER_OFFSET_HI_MASK = mask 6" by (simp add: POINTER_OFFSET_HI_MASK_def mask_eq_exp_minus_1)
  then have "k AND POINTER_OFFSET_HI_MASK = take_bit 6 k" by (simp add: take_bit_eq_mask)
  also have "\<dots> = k mod 64" by (simp add: take_bit_eq_mod)
  finally show ?thesis by (simp add: unat_mod)
qed

lemma unat_ptr_target: "unat (ptr_target k s) = unat k mod 64 * 256 + unat s"
proof -
  have up: "unat (ucast x :: u16) = unat x" for x :: u8
  proof -
    have "unat x < 65536" using unat_u8_le [of x] by linarith
    then show ?thesis by (simp add: unsigned_ucast_eq take_bit_eq_mod)
  qed
  let ?hi = "k AND POINTER_OFFSET_HI_MASK"
  have hi: "unat ?hi < 64" by (simp add: unat_hi_mask)
  have "unat s \<le> 255" by simp
  have "push_bit 8 (ucast ?hi :: u16) AND ucast s = 0"
    by (rule bit_word_eqI) (auto simp: bit_and_iff bit_push_bit_iff bit_ucast_iff dest: bit_imp_le_length)
  then have "ptr_target k s = push_bit 8 (ucast ?hi) + ucast s"
    by (simp add: ptr_target_def disjunctive_add_eq_or)
  moreover have "unat (push_bit 8 (ucast ?hi :: u16)) = unat ?hi * 256"
    using hi by (simp add: push_bit_eq_mult unat_word_ariths up)
  moreover have "unat (ucast s :: u16) = unat s" by (rule up)
  moreover have "unat ?hi * 256 + unat s < 65536" using hi \<open>unat s \<le> 255\<close> by linarith
  ultimately show ?thesis by (simp add: unat_word_ariths unat_hi_mask)
qed

subsection \<open>The specification: labels at an offset\<close>

text \<open>
  \<open>name_at m c h ls\<close>: the name at offset \<open>c\<close> of message \<open>m\<close> has the labels \<open>ls\<close> and is read by
  following \<open>h\<close> pointers, each to an earlier offset.
\<close>

inductive name_at :: "bytes \<Rightarrow> nat \<Rightarrow> nat \<Rightarrow> bytes list \<Rightarrow> bool" where
  name_root: "get m c = Some 0 \<Longrightarrow> name_at m c 0 []"
| name_label: "\<lbrakk>get m c = Some k; 1 \<le> unat k; unat k \<le> MAX_LABEL_BYTES;
     slice m (c + 1) (c + 1 + unat k) = Some l; name_at m (c + 1 + unat k) h ls\<rbrakk>
     \<Longrightarrow> name_at m c h (l # ls)"
| name_ptr: "\<lbrakk>get m c = Some k; 192 \<le> unat k; get m (c + 1) = Some s;
     unat (ptr_target k s) < c; name_at m (unat (ptr_target k s)) h ls\<rbrakk>
     \<Longrightarrow> name_at m c (Suc h) ls"

inductive_cases name_atE: "name_at m c h ls"

lemma name_at_lt: "name_at m c h ls \<Longrightarrow> c < length m"
  by (induction rule: name_at.induct) (auto simp: get_Some)

lemma name_at_labels: "name_at m c h ls \<Longrightarrow> list_all label_ok ls"
  by (induction rule: name_at.induct) (auto simp: label_ok_def dest!: slice_length)

text \<open>The relation is a function of the message and the offset.\<close>

lemma name_at_det: "name_at m c h ls \<Longrightarrow> name_at m c h' ls' \<Longrightarrow> h = h' \<and> ls = ls'"
proof (induction arbitrary: h' ls' rule: name_at.induct)
  case (name_root m c)
  from name_root.prems show ?case
    by cases (use name_root.hyps in auto)
next
  case (name_label m c k l h ls)
  from name_label.prems show ?case
  proof cases
    case (name_label k' l' ls')
    with name_label.hyps(1-4) name_label.IH [of h' ls'] show ?thesis by simp
  qed (use name_label.hyps(1-3) in \<open>simp_all add: limit_defs\<close>)
next
  case (name_ptr m c k s h ls)
  from name_ptr.prems show ?case
  proof cases
    case (name_ptr k' s' h'')
    with name_ptr.hyps(1-4) name_ptr.IH [of h'' ls'] show ?thesis by simp
  qed (use name_ptr.hyps(1-2) in \<open>simp_all add: limit_defs\<close>)
qed

subsection \<open>The iterator implements the specification\<close>

lemma ni_loop_eof: "length (ni_message it) \<le> unat (ni_cursor it) \<Longrightarrow>
    ni_loop it = ni_fail it (BufferTooShort 1 (unat (ni_cursor it)) 0)"
  by (subst ni_loop.simps) (simp add: get_def)

text \<open>The loop body, by the class of the kind octet.\<close>

lemma ni_loop_root: "get (ni_message it) (unat (ni_cursor it)) = Some 0 \<Longrightarrow>
    ni_loop it = (None, it\<lparr>ni_done := True\<rparr>)"
  by (subst ni_loop.simps) (simp add: Let_def get_def)

lemma ni_loop_label:
  assumes "get (ni_message it) (unat (ni_cursor it)) = Some k" "1 \<le> unat k" "unat k < 64"
  shows "ni_loop it =
    (let c = unat (ni_cursor it); e = c + 1 + unat k; w = wire_octets it + (1 + unat k) in
     case slice (ni_message it) (c + 1) e of
       None \<Rightarrow> ni_fail it (BufferTooShort (unat k) (c + 1) (length (ni_message it) - (c + 1)))
     | Some l \<Rightarrow>
         if MAX_NAME_BYTES < w then ni_fail (it\<lparr>wire_octets := w\<rparr>) (NameTooLong w)
         else (case u16_try_from e of
                 None \<Rightarrow> ni_fail (it\<lparr>wire_octets := w\<rparr>) IntegerConversion
               | Some v \<Rightarrow> (Some (Inr l), it\<lparr>wire_octets := w, ni_cursor := v\<rparr>)))"
proof -
  have "k \<noteq> 0" using assms(2) by (auto simp: unat_gt_0 Suc_le_eq)
  moreover have "\<not> MAX_LABEL_BYTES < unat k" using assms(3) by (simp add: limit_defs)
  moreover have "k AND POINTER_TAG_MASK = 0" using assms(3) unfolding label_tag_iff .
  ultimately show ?thesis
    using assms(1) by (subst ni_loop.simps) (simp add: Let_def split: option.split)
qed

lemma ni_loop_bad:
  assumes "get (ni_message it) (unat (ni_cursor it)) = Some k" "64 \<le> unat k" "unat k < 192"
  shows "ni_loop it = ni_fail it (InvalidLabelKind k)"
proof -
  have "k \<noteq> 0" "k AND POINTER_TAG_MASK \<noteq> 0" "k AND POINTER_TAG_MASK \<noteq> POINTER_TAG"
    using assms(2,3) unfolding label_tag_iff ptr_tag_iff by auto
  then show ?thesis using assms(1) by (subst ni_loop.simps) (simp add: Let_def)
qed

lemma ni_loop_ptr:
  assumes "get (ni_message it) (unat (ni_cursor it)) = Some k" "192 \<le> unat k"
  shows "ni_loop it =
    (let c = unat (ni_cursor it); it2 = it\<lparr>hops_remaining := hops_remaining it - 1\<rparr> in
     if hops_remaining it = 0 then ni_fail it (PointerChainTooLong MAX_POINTER_HOPS)
     else case get (ni_message it) (c + 1) of
         None \<Rightarrow> ni_fail it2 (BufferTooShort 1 (c + 1) 0)
       | Some s \<Rightarrow>
           if c \<le> unat (ptr_target k s) then ni_fail it2 (PointerForward (ptr_target k s) (ni_cursor it))
           else ni_loop (it2\<lparr>ni_cursor := ptr_target k s\<rparr>))"
proof -
  have "k \<noteq> 0" "k AND POINTER_TAG_MASK \<noteq> 0" "k AND POINTER_TAG_MASK = POINTER_TAG"
    using assms(2) unfolding label_tag_iff ptr_tag_iff by auto
  then show ?thesis using assms(1)
    by (subst ni_loop.simps) (simp add: Let_def word_le_nat_alt split: option.splits)
qed

lemma ni_collect_done [simp]: "ni_done it \<Longrightarrow> ni_collect it = []"
  by (subst ni_collect.simps) (simp add: ni_next_def)

lemma ni_collect_fail: "ni_next it = ni_fail it e \<Longrightarrow> ni_collect it = [Inl e]"
  by (subst ni_collect.simps) (simp add: ni_fail_def)

lemma ni_collect_None: "ni_next it = (None, it') \<Longrightarrow> ni_collect it = []"
  by (subst ni_collect.simps) simp

lemma ni_collect_Ok: "ni_next it = (Some (Inr l), it') \<Longrightarrow> ni_collect it = Inr l # ni_collect it'"
  by (subst ni_collect.simps) simp

lemma ni_complete:
  assumes "name_at m c h ls"
    and "ni_message it = m" "unat (ni_cursor it) = c" "\<not> ni_done it"
    and "h \<le> hops_remaining it" "wire_octets it + wire_octets_of ls \<le> MAX_NAME_BYTES + 1"
    and "length m \<le> 65536"
  shows "ni_collect it = map Inr ls"
  using assms
proof (induction arbitrary: it rule: name_at.induct)
  case (name_root m c)
  then have "ni_next it = (None, it\<lparr>ni_done := True\<rparr>)"
    by (simp add: ni_next_def ni_loop_root)
  then show ?case by (simp add: ni_collect_None)
next
  case (name_label m c k l h ls)
  let ?e = "c + 1 + unat k"
  let ?it = "it\<lparr>wire_octets := wire_octets it + (1 + unat k), ni_cursor := word_of_nat ?e\<rparr>"
  have len: "length l = unat k" using slice_length [OF name_label.hyps(4)] by simp
  have e: "?e < length m" using name_at_lt [OF name_label.hyps(5)] .
  then have e16: "unat (word_of_nat ?e :: u16) = ?e" "?e \<le> u16_max"
    using name_label.prems(6) unfolding unat_u16_of_nat by simp_all
  have "1 \<le> wire_octets_of ls" by (simp add: wire_octets_of_def)
  then have "wire_octets it + (1 + unat k) \<le> MAX_NAME_BYTES" using name_label.prems(5) len by simp
  then have "ni_next it = (Some (Inr l), ?it)"
    using name_label.hyps name_label.prems e16
    by (simp add: ni_next_def ni_loop_label [of it k] u16_try_from_def limit_defs Let_def
        del: of_nat_add of_nat_Suc)
  moreover have "ni_collect ?it = map Inr ls"
    using name_label.prems len e16 by (intro name_label.IH) auto
  ultimately show ?case by (simp add: ni_collect_Ok)
next
  case (name_ptr m c k s h ls)
  let ?it = "it\<lparr>hops_remaining := hops_remaining it - 1, ni_cursor := ptr_target k s\<rparr>"
  have "ni_loop it = ni_loop ?it"
    using name_ptr.hyps name_ptr.prems
    by (simp add: ni_loop_ptr [of it k] Let_def)
  moreover have "ni_collect ?it = map Inr ls"
    using name_ptr.prems by (intro name_ptr.IH) auto
  moreover have "\<not> ni_done ?it" using name_ptr.prems by simp
  ultimately have "ni_next it = ni_next ?it" by (simp add: ni_next_def)
  then have "ni_collect it = ni_collect ?it" by (simp only: ni_collect.simps [of it] ni_collect.simps [of ?it])
  then show ?case using name_ptr.IH [of ?it] name_ptr.prems by auto
qed

text \<open>One call of \<open>next\<close> follows pointers and then reads a root or one label.\<close>

lemma ni_loop_sound:
  assumes "ni_loop it = (r, it')"
  shows "(r = None \<longrightarrow>
        (\<exists>h\<le>hops_remaining it. name_at (ni_message it) (unat (ni_cursor it)) h [])) \<and>
    (\<forall>l. r = Some (Inr l) \<longrightarrow> ni_message it' = ni_message it \<and>
        hops_remaining it' \<le> hops_remaining it \<and>
        (\<forall>h ls. name_at (ni_message it) (unat (ni_cursor it')) h ls \<longrightarrow>
           name_at (ni_message it) (unat (ni_cursor it))
             (h + (hops_remaining it - hops_remaining it')) (l # ls)))"
  using assms
proof (induction "hops_remaining it" arbitrary: it rule: less_induct)
  case less
  let ?m = "ni_message it" and ?c = "unat (ni_cursor it)"
  show ?case
  proof (cases "get ?m ?c")
    case None
    with less.prems(1) show ?thesis by (auto simp: ni_loop.simps [of it] ni_fail_def)
  next
    case (Some k)
    consider "k = 0" | "1 \<le> unat k" "unat k < 64" | "64 \<le> unat k" "unat k < 192" | "192 \<le> unat k"
      by (metis Suc_leI not_less unat_gt_0 One_nat_def)
    then show ?thesis
    proof cases
      case 1
      with less.prems(1) Some show ?thesis
        by (auto simp: ni_loop_root intro!: exI [of _ 0] name_root)
    next
      case 2
      show ?thesis
        using less.prems(1) Some 2 name_label [of ?m ?c k, OF Some]
        by (auto simp: ni_loop_label [of it k] Let_def ni_fail_def not_less limit_defs
            u16_try_from_Some split: option.splits if_splits)
    next
      case 3
      with less.prems(1) Some show ?thesis
        by (auto simp: ni_loop_bad [of it k] ni_fail_def)
    next
      case 4
      let ?s = "?m ! Suc ?c"
      let ?it = "it\<lparr>hops_remaining := hops_remaining it - 1, ni_cursor := ptr_target k ?s\<rparr>"
      show ?thesis
      proof (cases "hops_remaining it \<noteq> 0 \<and> Suc ?c < length ?m \<and> unat (ptr_target k ?s) < ?c")
        case True
        with 4 Some less.prems(1) have "ni_loop ?it = (r, it')"
          by (auto simp: ni_loop_ptr [of it k] Let_def get_def)
        from less.hyps [OF _ this] True
        have IH: "r = None \<Longrightarrow>
              \<exists>h\<le>hops_remaining it - 1. name_at ?m (unat (ptr_target k ?s)) h []"
          "\<And>l. r = Some (Inr l) \<Longrightarrow> ni_message it' = ?m \<and>
              hops_remaining it' \<le> hops_remaining it - 1 \<and>
              (\<forall>h ls. name_at ?m (unat (ni_cursor it')) h ls \<longrightarrow>
                 name_at ?m (unat (ptr_target k ?s))
                   (h + (hops_remaining it - 1 - hops_remaining it')) (l # ls))"
          by simp_all
        have ptr: "name_at ?m ?c (Suc h) ls" if "name_at ?m (unat (ptr_target k ?s)) h ls" for h ls
          using that True 4 Some by (intro name_ptr [where k = k and s = ?s]) (simp_all add: get_def)
        have "\<exists>h\<le>hops_remaining it. name_at ?m ?c h []" if "r = None"
        proof -
          from IH(1) [OF that] obtain h where
            "h \<le> hops_remaining it - 1" "name_at ?m (unat (ptr_target k ?s)) h []" by blast
          then show ?thesis using ptr True by (intro exI [of _ "Suc h"]) auto
        qed
        moreover have "name_at ?m ?c (h + (hops_remaining it - hops_remaining it')) (l # ls)"
          if "r = Some (Inr l)" "name_at ?m (unat (ni_cursor it')) h ls" for l h ls
        proof -
          have "name_at ?m ?c (Suc (h + (hops_remaining it - 1 - hops_remaining it'))) (l # ls)"
            using IH(2) [OF that(1)] that(2) ptr by blast
          moreover have "Suc (h + (hops_remaining it - 1 - hops_remaining it'))
              = h + (hops_remaining it - hops_remaining it')"
            using IH(2) [OF that(1)] True by linarith
          ultimately show ?thesis by (simp only:)
        qed
        ultimately show ?thesis using IH(2) by fastforce
      next
        case False
        with 4 Some less.prems(1) show ?thesis
          by (auto simp: ni_loop_ptr [of it k] Let_def get_def ni_fail_def split: if_splits)
      qed
    qed
  qed
qed

lemma ni_sound:
  assumes "ni_collect it = map Inr ls" "\<not> ni_done it" "wire_octets it \<le> MAX_NAME_BYTES"
  shows "(\<exists>h\<le>hops_remaining it. name_at (ni_message it) (unat (ni_cursor it)) h ls) \<and>
    wire_octets it + wire_octets_of ls \<le> MAX_NAME_BYTES + 1"
  using assms
proof (induction ls arbitrary: it)
  case Nil
  then obtain it' where n: "ni_loop it = (None, it')"
    by (auto simp: ni_collect.simps [of it] ni_next_def split: prod.splits option.splits)
  show ?case using ni_loop_sound [OF n] Nil by simp
next
  case (Cons l ls)
  then obtain it' where n: "ni_loop it = (Some (Inr l), it')" and c: "ni_collect it' = map Inr ls"
    by (auto simp: ni_collect.simps [of it] ni_next_def split: prod.splits option.splits)
  note p = ni_loop_progress [OF n, simplified]
  with Cons.IH [OF c] Cons.prems obtain h where h: "h \<le> hops_remaining it'"
    "name_at (ni_message it') (unat (ni_cursor it')) h ls"
    "wire_octets it' + wire_octets_of ls \<le> MAX_NAME_BYTES + 1" by auto
  with ni_loop_sound [OF n] p show ?case
    by (auto intro!: exI [of _ "h + (hops_remaining it - hops_remaining it')"])
qed

lemma nr_items_name_at:
  assumes "length (nr_message r) \<le> 65536"
  shows "nr_items r = map Inr ls \<longleftrightarrow>
    (\<exists>h\<le>MAX_POINTER_HOPS. name_at (nr_message r) (unat (nr_start r)) h ls) \<and>
    wire_octets_of ls \<le> MAX_NAME_BYTES"
proof
  assume "nr_items r = map Inr ls"
  then show "(\<exists>h\<le>MAX_POINTER_HOPS. name_at (nr_message r) (unat (nr_start r)) h ls) \<and>
    wire_octets_of ls \<le> MAX_NAME_BYTES"
    using ni_sound [of "nr_labels r" ls] by (simp add: nr_items_def nr_labels_def limit_defs)
next
  assume "(\<exists>h\<le>MAX_POINTER_HOPS. name_at (nr_message r) (unat (nr_start r)) h ls) \<and>
    wire_octets_of ls \<le> MAX_NAME_BYTES"
  then show "nr_items r = map Inr ls"
    using assms unfolding nr_items_def
    by (auto intro!: ni_complete simp: nr_labels_def limit_defs)
qed

lemma ni_collect_shape:
  assumes "wire_octets it \<le> MAX_NAME_BYTES"
  shows "\<exists>ls tail. ni_collect it = map Inr ls @ tail \<and> (tail = [] \<or> (\<exists>e. tail = [Inl e])) \<and>
     list_all label_ok ls \<and> wire_octets it + wire_octets_of ls \<le> MAX_NAME_BYTES + 1"
  using assms
proof (induction it rule: ni_collect.induct)
  case (1 it)
  obtain r it' where n: "ni_next it = (r, it')" by (cases "ni_next it") auto
  show ?case
  proof (cases r)
    case None
    with 1(2) n show ?thesis by (intro exI [of _ "[]"]) (simp add: ni_collect_None)
  next
    case (Some q)
    from n Some have loop: "ni_loop it = (Some q, it')" by (simp add: ni_next_def split: if_splits)
    show ?thesis
    proof (cases q)
      case (Inl e)
      have "ni_done it'" using ni_loop_progress [OF loop] Inl by simp
      then have "ni_collect it = [Inl e]" using n Some Inl by (simp add: ni_collect.simps [of it])
      then show ?thesis using 1(2) by (intro exI [of _ "[]"] exI [of _ "[Inl e]"]) simp
    next
      case (Inr l)
      note p = ni_loop_progress [OF loop, unfolded Inr, simplified]
      from 1(1) [OF n [symmetric, unfolded Some]] p obtain ls tail where
        "ni_collect it' = map Inr ls @ tail" "tail = [] \<or> (\<exists>e. tail = [Inl e])" "list_all label_ok ls"
        "wire_octets it' + wire_octets_of ls \<le> MAX_NAME_BYTES + 1" by auto
      moreover have "label_ok l" using p by (simp add: label_ok_def)
      ultimately show ?thesis using n p Some Inr
        by (intro exI [of _ "l # ls"] exI [of _ tail]) (auto simp: ni_collect_Ok)
    qed
  qed
qed

subsection \<open>Self-contained encodings\<close>

definition wire_encode :: "bytes list \<Rightarrow> bytes" where
  "wire_encode ls = concat (map (\<lambda>l. word_of_nat (length l) # l) ls) @ [0]"

lemma wire_encode_simps [simp]:
  "wire_encode [] = [0]"
  "wire_encode (l # ls) = word_of_nat (length l) # l @ wire_encode ls"
  by (simp_all add: wire_encode_def)

lemma length_wire_encode: "length (wire_encode ls) = wire_octets_of ls"
  by (induction ls) auto

lemma unat_label_len: "label_ok l \<Longrightarrow> unat (word_of_nat (length l) :: u8) = length l"
  unfolding unat_u8_of_nat by (simp add: label_ok_def limit_defs)

lemma name_at_encode: "list_all label_ok ls \<Longrightarrow> name_at (p @ wire_encode ls @ q) (length p) 0 ls"
proof (induction ls arbitrary: p)
  case Nil
  then show ?case by (simp add: name_root get_def)
next
  case (Cons l ls)
  let ?m = "p @ wire_encode (l # ls) @ q"
  have len: "unat (word_of_nat (length l) :: u8) = length l" "label_ok l"
    using Cons.prems by (simp_all add: unat_label_len)
  have m: "?m = (p @ word_of_nat (length l) # l) @ wire_encode ls @ q" by simp
  have "name_at ?m (length p + 1 + length l) 0 ls"
    unfolding m using Cons.IH [of "p @ word_of_nat (length l) # l"] Cons.prems
    by (simp add: add.commute add.left_commute)
  moreover have "get ?m (length p) = Some (word_of_nat (length l))"
    by (simp add: get_def nth_append)
  moreover have "slice ?m (length p + 1) (length p + 1 + length l) = Some l"
    using slice_append_mid [of "p @ [word_of_nat (length l)]" l "wire_encode ls @ q"] by simp
  ultimately show ?case using len
    by (intro name_label [where k = "word_of_nat (length l)"]) (auto simp: label_ok_def)
qed

lemma write_wire_loop_ok:
  assumes "list_all label_ok ls" "encoded + wire_octets_of ls \<le> MAX_NAME_BYTES + 1"
  shows "write_wire_loop f encoded out (map Inr ls)
     = (Inr (), out @ wire_encode (map (\<lambda>l. if f then lower l else l) ls))"
  using assms
proof (induction ls arbitrary: encoded out)
  case (Cons l ls)
  have "1 \<le> wire_octets_of ls" by (simp add: wire_octets_of_def)
  with Cons show ?case
    by (auto simp: label_ok_def min_def not_less Let_def lower_def)
qed simp

lemma write_wire_loop_err:
  "list_all label_ok ls \<Longrightarrow> encoded + wire_octets_of ls \<le> MAX_NAME_BYTES + 1 \<Longrightarrow>
   fst (write_wire_loop f encoded out (map Inr ls @ [Inl e])) = Inl e"
proof (induction ls arbitrary: encoded out)
  case (Cons l ls)
  have "1 \<le> wire_octets_of ls" by (simp add: wire_octets_of_def)
  with Cons show ?case
    by (auto simp: label_ok_def min_def not_less Let_def)
qed simp

lemma nr_items_shape:
  "\<exists>ls tail. nr_items r = map Inr ls @ tail \<and> (tail = [] \<or> (\<exists>e. tail = [Inl e])) \<and>
     list_all label_ok ls \<and> wire_octets_of ls \<le> MAX_NAME_BYTES"
  using ni_collect_shape [of "nr_labels r"] by (simp add: nr_items_def nr_labels_def limit_defs)

lemma octets_eq_from_iff:
  assumes "length la = length lb"
  shows "octets_eq_from la lb i \<longleftrightarrow> lower (drop i la) = lower (drop i lb)"
  using assms
proof (induction la lb i rule: octets_eq_from.induct)
  case (1 la lb i)
  show ?case
  proof (cases "i < length la")
    case True
    then have "drop i la = la ! i # drop (Suc i) la" "drop i lb = lb ! i # drop (Suc i) lb"
      using 1(2) by (simp_all add: Cons_nth_drop_Suc)
    then show ?thesis using 1 True
      by (subst octets_eq_from.simps) (auto simp: get_def eq_ignore_case_def)
  next
    case False
    then show ?thesis using 1(2) by (subst octets_eq_from.simps) simp
  qed
qed

lemma iters_eq_iff:
  "iters_eq a b \<longleftrightarrow>
     (\<exists>la lb. ni_collect a = map Inr la \<and> ni_collect b = map Inr lb \<and> map lower la = map lower lb)"
proof (induction "ni_measure a" arbitrary: a b rule: less_induct)
  case less
  obtain ra a' rb b' where n: "ni_next a = (ra, a')" "ni_next b = (rb, b')"
    by (cases "ni_next a", cases "ni_next b") auto
  have c: "ni_collect a = (case ra of None \<Rightarrow> [] | Some r \<Rightarrow> r # ni_collect a')"
    "ni_collect b = (case rb of None \<Rightarrow> [] | Some r \<Rightarrow> r # ni_collect b')"
    using n by (simp_all add: ni_collect.simps [of a] ni_collect.simps [of b] split: option.splits)
  show ?case
  proof (cases "\<exists>la lb. ra = Some (Inr la) \<and> rb = Some (Inr lb)")
    case True
    then obtain la lb where r: "ra = Some (Inr la)" "rb = Some (Inr lb)" by blast
    have step: "iters_eq a b \<longleftrightarrow> lower la = lower lb \<and> iters_eq a' b'"
    proof (cases "length la = length lb")
      case True
      then show ?thesis using n r by (subst iters_eq.simps) (simp add: octets_eq_from_iff)
    next
      case False
      then have "lower la \<noteq> lower lb" by (metis length_lower)
      then show ?thesis using n r False by (subst iters_eq.simps) simp
    qed
    have IH: "iters_eq a' b' \<longleftrightarrow> (\<exists>la lb. ni_collect a' = map Inr la \<and> ni_collect b' = map Inr lb \<and>
        map lower la = map lower lb)"
      using n(1) r(1) by (intro less.hyps) (simp add: ni_next_measure)
    show ?thesis
      unfolding step c r by (auto simp: IH Cons_eq_map_conv)
  next
    case False
    then have "iters_eq a b \<longleftrightarrow> ra = None \<and> rb = None"
      using n by (subst iters_eq.simps) (auto split: option.splits sum.splits)
    then show ?thesis using False
      unfolding c by (auto split: option.splits simp: Cons_eq_map_conv)
  qed
qed

subsection \<open>The inline parser\<close>

text \<open>The body of the parser's loop, by the class of the kind octet.\<close>

lemma nr_parse_step:
  assumes "get m c = Some k"
  shows "nr_parse_loop m off c =
    (let found = (\<lambda>n. rbind (ok_or (u16_try_from off) IntegerConversion) (\<lambda>start.
        Inr (\<lparr>nr_message = m, nr_start = start\<rparr>, n))) in
     if unat k = 0 then found (c - off + 1)
     else if unat k < 64 then
       (if length m < c + 1 + unat k
        then Inl (BufferTooShort (unat k) (c + 1) (length m - (c + 1)))
        else nr_parse_loop m off (c + 1 + unat k))
     else if 192 \<le> unat k then
       (if c + 1 < length m then found (c + 2 - off) else Inl (BufferTooShort 1 (c + 1) 0))
     else Inl (InvalidLabelKind k))"
proof -
  have "k = 0 \<longleftrightarrow> unat k = 0" by (simp add: unat_eq_0)
  moreover have "\<not> (unat k < 64 \<and> 192 \<le> unat k)" by linarith
  ultimately show ?thesis using assms
    by (subst nr_parse_loop.simps) (simp add: Let_def limit_defs label_tag_iff ptr_tag_iff get_def)
qed

text \<open>How many octets a name takes where it stands: up to the root octet or the first pointer.\<close>

lemma nr_parse_bounds:
  assumes "nr_parse_loop m off c = Inr (r, n)" "off \<le> c"
  shows "nr_message r = m \<and> unat (nr_start r) = off \<and> c < off + n \<and> off + n \<le> length m"
  using assms
proof (induction m off c rule: nr_parse_loop.induct)
  case (1 m off c)
  show ?case
  proof (cases "get m c")
    case None
    with 1(2) show ?thesis by (simp add: nr_parse_loop.simps)
  next
    case (Some k)
    show ?thesis
    proof (cases "1 \<le> unat k \<and> unat k < 64 \<and> c + 1 + unat k \<le> length m")
      case True
      with Some 1(2) have "nr_parse_loop m off (c + 1 + unat k) = Inr (r, n)"
        by (simp add: nr_parse_step)
      moreover have "k \<noteq> 0" using True by auto
      moreover have "k AND POINTER_TAG_MASK = 0" using True unfolding label_tag_iff by simp
      ultimately have "nr_message r = m \<and> unat (nr_start r) = off \<and> c + 1 + unat k < off + n \<and>
          off + n \<le> length m"
        using 1(1) [of k "unat k" "c + 1" "c + 1 + unat k"] Some True 1(3) by (simp add: limit_defs)
      then show ?thesis by simp
    next
      case False
      with Some 1(2,3) show ?thesis
        by (auto simp: nr_parse_step Let_def rbind_eq_Inr u16_try_from_Some get_Some split: if_splits)
    qed
  qed
qed

lemma nr_parse_complete:
  "name_at m c h ls \<Longrightarrow> off \<le> u16_max \<Longrightarrow> is_ok (nr_parse_loop m off c)"
proof (induction rule: name_at.induct)
  case (name_root m c)
  then show ?case by (simp add: nr_parse_step u16_try_from_def)
next
  case (name_label m c k l h ls)
  then have "c + 1 + unat k < length m" by (simp add: name_at_lt)
  with name_label show ?case by (simp add: nr_parse_step Let_def limit_defs)
next
  case (name_ptr m c k s h ls)
  then show ?case by (simp add: nr_parse_step Let_def u16_try_from_def get_Some)
qed

lemma nr_parse_encoded:
  assumes "list_all label_ok ls" "off \<le> length p" "off \<le> u16_max"
  shows "nr_parse_loop (p @ wire_encode ls @ q) off (length p)
     = Inr (\<lparr>nr_message = p @ wire_encode ls @ q, nr_start = word_of_nat off\<rparr>,
            length p - off + wire_octets_of ls)"
  using assms
proof (induction ls arbitrary: p)
  case Nil
  then show ?case by (simp add: nr_parse_step [of _ _ 0] get_def nth_append u16_try_from_def)
next
  case (Cons l ls)
  let ?p = "p @ word_of_nat (length l) # l"
  have len: "unat (word_of_nat (length l) :: u8) = length l" "1 \<le> length l" "length l < 64"
    using Cons.prems by (simp_all add: unat_label_len) (simp_all add: label_ok_def limit_defs)
  have "get (p @ wire_encode (l # ls) @ q) (length p) = Some (word_of_nat (length l))"
    by (simp add: get_def nth_append)
  note step = nr_parse_step [OF this, of off, unfolded len(1)]
  have "length (p @ wire_encode (l # ls) @ q) \<ge> length p + 1 + length l" by simp
  then have "nr_parse_loop (p @ wire_encode (l # ls) @ q) off (length p)
      = nr_parse_loop (p @ wire_encode (l # ls) @ q) off (length p + 1 + length l)"
    unfolding step using len by (cases l) (simp_all add: Let_def del: of_nat_Suc)
  also have "p @ wire_encode (l # ls) @ q = ?p @ wire_encode ls @ q" by simp
  also have "length p + 1 + length l = length ?p" by simp
  also have "nr_parse_loop (?p @ wire_encode ls @ q) off (length ?p)
     = Inr (\<lparr>nr_message = ?p @ wire_encode ls @ q, nr_start = word_of_nat off\<rparr>,
            length ?p - off + wire_octets_of ls)"
    using Cons.prems by (intro Cons.IH) simp_all
  finally show ?case using Cons.prems(2) by simp
qed

subsection \<open>Properties\<close>

text \<open>
  C37. Reading a name follows RFC 1035: in a message of at most 65536 octets \<open>NameRef::labels\<close>
  yields the labels \<open>ls\<close> and no error exactly when \<open>ls\<close> is the name at that offset, read through
  at most 32 pointers that each go backwards, with a wire form of at most 255 octets.
\<close>
theorem labels_spec:
  assumes "length (nr_message r) \<le> 65536"
  shows "nr_items r = map Inr ls \<longleftrightarrow>
    (\<exists>h\<le>MAX_POINTER_HOPS. name_at (nr_message r) (unat (nr_start r)) h ls) \<and>
    wire_octets_of ls \<le> MAX_NAME_BYTES"
  using nr_items_name_at [OF assms] .

lemma labels_spec_witness:
  "nr_items \<lparr>nr_message = [1, 97, 0, 1, 98, 0xC0, 0], nr_start = 3\<rparr> = map Inr [[98], [97]] \<and>
   (\<exists>h\<le>MAX_POINTER_HOPS. name_at [1, 97, 0, 1, 98, 0xC0, 0] 3 h [[98], [97]])"
proof -
  let ?r = "\<lparr>nr_message = [1, 97, 0, 1, 98, 0xC0, 0], nr_start = 3\<rparr>"
  have "nr_items ?r = map Inr [[98], [97]]" by code_simp
  then show ?thesis using labels_spec [of ?r "[[98], [97]]"] by simp
qed

text \<open>
  Whatever the message holds, reading a name ends: the iterator yields labels of 1 to 63
  octets whose wire form is at most 255 octets in all, followed by at most one error, which is
  its last item.
\<close>
theorem labels_bounded:
  "\<exists>ls tail. nr_items r = map Inr ls @ tail \<and> (tail = [] \<or> (\<exists>e. tail = [Inl e])) \<and>
     list_all label_ok ls \<and> wire_octets_of ls \<le> MAX_NAME_BYTES"
  by (rule nr_items_shape)

text \<open>
  \<open>NameRef::try_parse\<close> stays inside the message and advances: on success it consumed at least
  one octet, ended at or before the end of the message, and the reference starts at the offset; and
  it succeeds wherever a name can be read at an offset that fits the reference's 16 bits.
\<close>
theorem nr_try_parse_spec:
  "(case nr_try_parse m off of
      Inl _ \<Rightarrow> off \<le> u16_max \<longrightarrow> (\<nexists>h ls. name_at m off h ls)
    | Inr (r, n) \<Rightarrow> nr_message r = m \<and> unat (nr_start r) = off \<and> 1 \<le> n \<and> off + n \<le> length m)"
proof (cases "nr_try_parse m off")
  case (Inl e)
  have "\<not> name_at m off h ls" if "off \<le> u16_max" for h ls
  proof
    assume "name_at m off h ls"
    from nr_parse_complete [OF this that] Inl show False by (simp add: nr_try_parse_def)
  qed
  then show ?thesis using Inl by simp
next
  case (Inr rn)
  then show ?thesis using nr_parse_bounds [of m off off "fst rn" "snd rn"]
    by (cases rn) (simp add: nr_try_parse_def)
qed

lemma nr_try_parse_spec_witness:
  "nr_try_parse [1, 97, 0xC1] 0 = Inl (BufferTooShort 1 3 0) \<and> (\<nexists>h ls. name_at [1, 97, 0xC1] 0 h ls)"
proof -
  have *: "nr_try_parse [1, 97, 0xC1] 0 = Inl (BufferTooShort 1 3 0)" by code_simp
  show ?thesis using nr_try_parse_spec [where m = "[1, 97, 0xC1]" and off = 0] unfolding * by simp
qed

text \<open>
  \<open>write_wire\<close> decompresses: it succeeds exactly when the labels can all be read, and then it
  appends the pointer-free encoding of the labels (folded to lower case on request), which is at
  most 255 octets long and reads back as those labels wherever it is placed.
\<close>
theorem write_wire_spec:
  "(is_ok (fst (write_wire r out f)) \<longleftrightarrow> (\<exists>ls. nr_items r = map Inr ls)) \<and>
   (\<forall>ls. nr_items r = map Inr ls \<longrightarrow>
      (let out' = snd (write_wire r out f); ls' = map (\<lambda>l. if f then lower l else l) ls in
       out' = out @ wire_encode ls' \<and> length out' \<le> length out + MAX_NAME_BYTES \<and>
       name_at (out' @ rest) (length out) 0 ls'))"
proof -
  obtain ls tail where items: "nr_items r = map Inr ls @ tail" "tail = [] \<or> (\<exists>e. tail = [Inl e])"
    "list_all label_ok ls" "wire_octets_of ls \<le> MAX_NAME_BYTES"
    using nr_items_shape by blast
  let ?g = "\<lambda>l. if f then lower l else l"
  have g: "list_all label_ok (map ?g ls)" "wire_octets_of (map ?g ls) = wire_octets_of ls"
    using items(3) by (auto simp: list_all_iff intro!: wire_octets_of_map)
  show ?thesis
  proof (cases "tail = []")
    case True
    then have w: "write_wire r out f = (Inr (), out @ wire_encode (map ?g ls))"
      using items by (simp add: write_wire_def write_wire_loop_ok)
    have "ks = ls" if "nr_items r = map Inr ks" for ks
      using that items(1) True by (auto simp: inj_map_eq_map)
    moreover have "name_at (out @ wire_encode (map ?g ls) @ rest) (length out) 0 (map ?g ls)"
      by (rule name_at_encode [OF g(1)])
    ultimately show ?thesis using items True g(2)
      by (auto simp: w Let_def length_wire_encode)
  next
    case False
    then obtain e where e: "tail = [Inl e]" using items(2) by blast
    then have "fst (write_wire r out f) = Inl e"
      using items by (simp add: write_wire_def write_wire_loop_err)
    moreover have "nr_items r \<noteq> map Inr ks" for ks
    proof
      assume "nr_items r = map Inr ks"
      then have "Inl e \<in> set (map Inr ks :: label_item list)" using items(1) e by (metis in_set_conv_decomp)
      then show False by auto
    qed
    ultimately show ?thesis by simp
  qed
qed

lemma write_wire_spec_witness:
  "let r = \<lparr>nr_message = [1, 97, 0, 1, 66, 0xC0, 0], nr_start = 3\<rparr>; out' = snd (write_wire r [9] True)
   in out' = [9] @ wire_encode [[98], [97]] \<and> name_at (out' @ [7]) 1 0 [[98], [97]]"
proof -
  let ?r = "\<lparr>nr_message = [1, 97, 0, 1, 66, 0xC0, 0], nr_start = 3\<rparr>"
  have items: "nr_items ?r = map Inr [[66], [97]]" by code_simp
  have low: "to_lower 66 = 98" "to_lower 97 = 97" by code_simp+
  show ?thesis
    using write_wire_spec [of ?r "[9]" True "[7]", THEN conjunct2, THEN spec, THEN mp, OF items]
    by (auto simp: Let_def low)
qed

text \<open>
  \<open>equals_ignoring_case\<close> holds exactly when both names can be read to the end and have the same
  labels up to ASCII case; a name that cannot be read equals nothing, itself included.
\<close>
theorem equals_ignoring_case_spec:
  "equals_ignoring_case a b \<longleftrightarrow>
     (\<exists>la lb. nr_items a = map Inr la \<and> nr_items b = map Inr lb \<and> map lower la = map lower lb)"
  by (simp add: equals_ignoring_case_def nr_items_def iters_eq_iff)

end
