(* ===== verification/WireRecord.thy ===== *)
theory WireRecord
  imports WireHeader WireName
begin

text \<open>
  Questions and resource records (\<open>wire/question.rs\<close>, \<open>wire/record\<close>): their parsers, the typed
  views of the RDATA, and the canonical RDATA forms by which records are compared and cached.
\<close>

text \<open>\<open>message.get(a..a+n)\<close> with the error \<open>BufferTooShort(n, a, rest)\<close>.\<close>

definition chunk :: "bytes \<Rightarrow> nat \<Rightarrow> nat \<Rightarrow> parse_error + bytes" where
  "chunk m a n = ok_or (slice m a (a + n)) (BufferTooShort n a (length m - a))"

lemma chunk_ok: "chunk m a n = Inr s \<longleftrightarrow> a + n \<le> length m \<and> s = take n (drop a m)"
  by (auto simp: chunk_def slice_Some_iff)

subsection \<open>Questions\<close>

record question_ref =
  q_name :: name_ref
  q_type :: resource_type
  q_class :: resource_class
  q_unicast :: bool

definition question_try_parse :: "bytes \<Rightarrow> nat \<Rightarrow> parse_error + question_ref \<times> nat" where
  "question_try_parse message offset =
     rbind (nr_try_parse message offset) (\<lambda>(qname, name_bytes).
     let after_name = offset + name_bytes in
     rbind (chunk message after_name 2) (\<lambda>qtype_slot.
     let qtype = rtype_from_u16 (from_be16 (qtype_slot ! 0) (qtype_slot ! 1));
         after_type = after_name + 2 in
     rbind (chunk message after_type 2) (\<lambda>qclass_slot.
     let raw = from_be16 (qclass_slot ! 0) (qclass_slot ! 1);
         unicast_response = (raw AND UNICAST_RESPONSE_BIT \<noteq> 0);
         qclass = rclass_from_u16 raw;
         after_class = after_type + 2 in
     Inr (\<lparr>q_name = qname, q_type = qtype, q_class = qclass, q_unicast = unicast_response\<rparr>,
          after_class))))"

subsection \<open>Records\<close>

record record_ref =
  rr_message :: bytes
  rr_name :: name_ref
  rr_rtype :: resource_type
  rr_rclass :: resource_class
  rr_cache_flush :: bool
  rr_ttl :: u32
  rdata_start :: nat
  rdata_len :: nat

text \<open>A field of the ten fixed octets, with the (unreachable) error of its call site.\<close>

definition hdr_field :: "bytes \<Rightarrow> nat \<Rightarrow> nat \<Rightarrow> nat \<Rightarrow> parse_error + bytes" where
  "hdr_field hdr after_name a n =
     ok_or (slice hdr a (a + n)) (BufferTooShort n (after_name + a) (length hdr))"

definition record_try_parse :: "bytes \<Rightarrow> nat \<Rightarrow> parse_error + record_ref \<times> nat" where
  "record_try_parse message offset =
     rbind (nr_try_parse message offset) (\<lambda>(name, name_bytes).
     let after_name = offset + name_bytes in
     rbind (chunk message after_name 10) (\<lambda>hdr.
     rbind (hdr_field hdr after_name 0 2) (\<lambda>t.
     rbind (hdr_field hdr after_name 2 2) (\<lambda>c.
     rbind (hdr_field hdr after_name 4 4) (\<lambda>l.
     rbind (hdr_field hdr after_name 8 2) (\<lambda>d.
     let rtype = rtype_from_u16 (from_be16 (t ! 0) (t ! 1));
         rclass_raw = from_be16 (c ! 0) (c ! 1);
         cache_flush = (rclass_raw AND CACHE_FLUSH_BIT \<noteq> 0);
         rclass = rclass_from_u16 rclass_raw;
         ttl = from_be32 (l ! 0) (l ! 1) (l ! 2) (l ! 3);
         rdlen = from_be16 (d ! 0) (d ! 1);
         start = after_name + 10;
         rdata_end = start + unat rdlen in
     if length message < rdata_end
     then Inl (RdlengthOverrun rdlen start (length message - start))
     else Inr (\<lparr>rr_message = message, rr_name = name, rr_rtype = rtype, rr_rclass = rclass,
                rr_cache_flush = cache_flush, rr_ttl = ttl, rdata_start = start,
                rdata_len = unat rdlen\<rparr>, rdata_end)))))))"

definition rr_rdata :: "record_ref \<Rightarrow> bytes" where
  "rr_rdata r = (case slice (rr_message r) (rdata_start r) (rdata_start r + rdata_len r) of
                   None \<Rightarrow> [] | Some s \<Rightarrow> s)"

subsection \<open>Typed views\<close>

text \<open>\<open>Ipv4Addr\<close> and \<open>Ipv6Addr\<close> are their octets.\<close>

definition a_try_from_rdata :: "bytes \<Rightarrow> parse_error + bytes" where
  "a_try_from_rdata rdata =
     (if length rdata \<noteq> 4 then Inl (BufferTooShort 4 0 (length rdata))
      else ok_or (slice rdata 0 4) (BufferTooShort 4 0 (length rdata)))"

definition aaaa_try_from_rdata :: "bytes \<Rightarrow> parse_error + bytes" where
  "aaaa_try_from_rdata rdata =
     (if length rdata \<noteq> 16 then Inl (BufferTooShort 16 0 (length rdata))
      else ok_or (slice rdata 0 16) (BufferTooShort 16 0 (length rdata)))"

definition ptr_try_from_message :: "bytes \<Rightarrow> nat \<Rightarrow> nat \<Rightarrow> parse_error + name_ref" where
  "ptr_try_from_message message rdata_offset len =
     rbind (nr_try_parse message rdata_offset) (\<lambda>(target, consumed).
       if consumed \<noteq> len then Inl (BufferTooShort consumed rdata_offset len) else Inr target)"

definition cname_try_from_message :: "bytes \<Rightarrow> nat \<Rightarrow> nat \<Rightarrow> parse_error + name_ref" where
  "cname_try_from_message message rdata_offset len =
     rbind (nr_try_parse message rdata_offset) (\<lambda>(target, consumed).
       if consumed \<noteq> len then Inl (BufferTooShort consumed rdata_offset len) else Inr target)"

record srv =
  srv_priority :: u16
  srv_weight :: u16
  srv_port :: u16
  srv_target :: name_ref

definition srv_try_from_message :: "bytes \<Rightarrow> nat \<Rightarrow> nat \<Rightarrow> parse_error + srv" where
  "srv_try_from_message message rdata_offset len =
     (if len < 6 then Inl (BufferTooShort 6 rdata_offset len)
      else rbind (chunk message rdata_offset 6) (\<lambda>head.
        let target_offset = rdata_offset + 6 in
        rbind (nr_try_parse message target_offset) (\<lambda>(target, consumed).
          if consumed + 6 \<noteq> len then Inl (BufferTooShort (consumed + 6) rdata_offset len)
          else Inr \<lparr>srv_priority = from_be16 (head ! 0) (head ! 1),
                    srv_weight = from_be16 (head ! 2) (head ! 3),
                    srv_port = from_be16 (head ! 4) (head ! 5), srv_target = target\<rparr>)))"

record nsec =
  next_name :: name_ref
  type_bitmap :: bytes

definition nsec_try_from_message :: "bytes \<Rightarrow> nat \<Rightarrow> nat \<Rightarrow> parse_error + nsec" where
  "nsec_try_from_message message rdata_offset len =
     rbind (nr_try_parse message rdata_offset) (\<lambda>(next, name_bytes).
       let bitmap_start = rdata_offset + name_bytes; rdata_end = rdata_offset + len in
       if rdata_end < bitmap_start then Inl (BufferTooShort (bitmap_start - rdata_end) rdata_end 0)
       else rbind (ok_or (slice message bitmap_start rdata_end)
                (BufferTooShort (rdata_end - bitmap_start) bitmap_start (length message - bitmap_start)))
              (\<lambda>bitmap. Inr \<lparr>next_name = next, type_bitmap = bitmap\<rparr>))"

text \<open>The strings of a TXT record: one call of \<open>TxtSegments::next\<close>, and all of them.\<close>

definition txt_next :: "bytes \<Rightarrow> label_item option \<times> bytes" where
  "txt_next rest =
     (case rest of
        [] \<Rightarrow> (None, rest)
      | len_byte # after_len \<Rightarrow>
          let len = unat len_byte in
          if len \<le> length after_len then (Some (Inr (take len after_len)), drop len after_len)
          else (Some (Inl (BufferTooShort len 0 (length after_len))), []))"

function txt_segments :: "bytes \<Rightarrow> label_item list" where
  "txt_segments rest = (case txt_next rest of (None, _) \<Rightarrow> [] | (Some s, rest') \<Rightarrow> s # txt_segments rest')"
  by pat_completeness auto
termination
  by (relation "measure length")
    (auto simp: txt_next_def Let_def split: list.splits if_splits)

declare txt_segments.simps [simp del]

datatype rdata = Rdata_A bytes | Rdata_AAAA bytes | Rdata_Ptr name_ref | Rdata_Cname name_ref
  | Rdata_Srv srv | Rdata_Txt bytes | Rdata_Nsec nsec | Rdata_Other bytes

definition rdata_view :: "record_ref \<Rightarrow> parse_error + rdata" where
  "rdata_view r =
     (case rr_rtype r of
        RT_A \<Rightarrow> rbind (a_try_from_rdata (rr_rdata r)) (\<lambda>a. Inr (Rdata_A a))
      | RT_AAAA \<Rightarrow> rbind (aaaa_try_from_rdata (rr_rdata r)) (\<lambda>a. Inr (Rdata_AAAA a))
      | RT_Ptr \<Rightarrow> rbind (ptr_try_from_message (rr_message r) (rdata_start r) (rdata_len r))
                   (\<lambda>p. Inr (Rdata_Ptr p))
      | RT_Cname \<Rightarrow> rbind (cname_try_from_message (rr_message r) (rdata_start r) (rdata_len r))
                   (\<lambda>c. Inr (Rdata_Cname c))
      | RT_Srv \<Rightarrow> rbind (srv_try_from_message (rr_message r) (rdata_start r) (rdata_len r))
                   (\<lambda>s. Inr (Rdata_Srv s))
      | RT_Txt \<Rightarrow> Inr (Rdata_Txt (rr_rdata r))
      | RT_Nsec \<Rightarrow> rbind (nsec_try_from_message (rr_message r) (rdata_start r) (rdata_len r))
                   (\<lambda>n. Inr (Rdata_Nsec n))
      | _ \<Rightarrow> Inr (Rdata_Other (rr_rdata r)))"

subsection \<open>Canonical RDATA\<close>

record rdata_form =
  fold_case :: bool
  normalise_empty_txt :: bool

definition AS_SENT :: rdata_form where
  "AS_SENT = \<lparr>fold_case = False, normalise_empty_txt = False\<rparr>"
definition PRESERVING_CASE :: rdata_form where
  "PRESERVING_CASE = \<lparr>fold_case = False, normalise_empty_txt = True\<rparr>"
definition FOLDED :: rdata_form where
  "FOLDED = \<lparr>fold_case = True, normalise_empty_txt = True\<rparr>"

text \<open>
  Writers push onto \<open>out\<close> and may fail half-way, so they return the vector in every case; \<open>wthen\<close>
  is \<open>f(out)?; g(out)\<close>.
\<close>

type_synonym written = "(parse_error + unit) \<times> bytes"

definition wthen :: "written \<Rightarrow> (bytes \<Rightarrow> written) \<Rightarrow> written" where
  "wthen w g = (case w of (Inl e, out) \<Rightarrow> (Inl e, out) | (Inr _, out) \<Rightarrow> g out)"

definition get_or_empty :: "bytes \<Rightarrow> nat \<Rightarrow> nat \<Rightarrow> bytes" where
  "get_or_empty m a b = (case slice m a b of None \<Rightarrow> [] | Some s \<Rightarrow> s)"

text \<open>The loop over the \<open>names\<close> compressible names, from \<open>cursor\<close>.\<close>

fun decompress_names :: "record_ref \<Rightarrow> nat \<Rightarrow> nat \<Rightarrow> bool \<Rightarrow> bytes \<Rightarrow> written \<times> nat" where
  "decompress_names r 0 cursor fc out = ((Inr (), out), cursor)"
| "decompress_names r (Suc names) cursor fc out =
     (case nr_try_parse (rr_message r) cursor of
        Inl e \<Rightarrow> ((Inl e, out), cursor)
      | Inr (name, consumed) \<Rightarrow>
          (case write_wire name out fc of
             (Inl e, out) \<Rightarrow> ((Inl e, out), cursor)
           | (Inr _, out) \<Rightarrow>
               let cursor = cursor + consumed in
               if rdata_start r + rdata_len r < cursor
               then ((Inl (UnsupportedNameBearingType (rtype_to_u16 (rr_rtype r))), out), cursor)
               else decompress_names r names cursor fc out))"

definition write_decompressed_rdata :: "record_ref \<Rightarrow> nat \<Rightarrow> nat \<Rightarrow> bool \<Rightarrow> bytes \<Rightarrow> written" where
  "write_decompressed_rdata r lead names fc out =
     (let rdata_end = rdata_start r + rdata_len r; cursor = rdata_start r + lead in
      if rdata_end < cursor
      then (Inl (UnsupportedNameBearingType (rtype_to_u16 (rr_rtype r))), out)
      else
        let out = out @ get_or_empty (rr_message r) (rdata_start r) cursor in
        (case decompress_names r names cursor fc out of
           ((Inl e, out), _) \<Rightarrow> (Inl e, out)
         | ((Inr _, out), cursor) \<Rightarrow> (Inr (), out @ get_or_empty (rr_message r) cursor rdata_end)))"

text \<open>The loop over TXT segments: the result so far and whether anything was written.\<close>

fun write_segments :: "label_item list \<Rightarrow> bytes \<Rightarrow> bool \<Rightarrow> written \<times> bool" where
  "write_segments [] out wrote_any = ((Inr (), out), wrote_any)"
| "write_segments (Inl e # segs) out wrote_any = ((Inl e, out), wrote_any)"
| "write_segments (Inr seg # segs) out wrote_any =
     write_segments segs (out @ word_of_nat (length seg) # seg) True"

definition write_canonical_rdata :: "record_ref \<Rightarrow> rdata_form \<Rightarrow> bytes \<Rightarrow> written" where
  "write_canonical_rdata r form out =
     (case rdata_view r of
        Inl e \<Rightarrow> (Inl e, out)
      | Inr (Rdata_Ptr p) \<Rightarrow> write_wire p out (fold_case form)
      | Inr (Rdata_Cname c) \<Rightarrow> write_wire c out (fold_case form)
      | Inr (Rdata_Srv s) \<Rightarrow>
          write_wire (srv_target s)
            (out @ to_be16 (srv_priority s) @ to_be16 (srv_weight s) @ to_be16 (srv_port s))
            (fold_case form)
      | Inr (Rdata_Nsec n) \<Rightarrow>
          wthen (write_wire (next_name n) out (fold_case form)) (\<lambda>out. (Inr (), out @ type_bitmap n))
      | Inr (Rdata_Other bs) \<Rightarrow>
          (case rtype_rdata_names (rr_rtype r) of
             Opaque \<Rightarrow> (Inr (), out @ bs)
           | Compressible lead names \<Rightarrow> write_decompressed_rdata r lead names (fold_case form) out)
      | Inr (Rdata_Txt t) \<Rightarrow>
          (case write_segments (txt_segments t) out False of
             ((Inl e, out), _) \<Rightarrow> (Inl e, out)
           | ((Inr _, out), wrote_any) \<Rightarrow>
               (Inr (), if \<not> wrote_any \<and> normalise_empty_txt form then out @ [0] else out))
      | Inr _ \<Rightarrow> (Inr (), out @ rr_rdata r))"

definition canonical_rdata_inner :: "record_ref \<Rightarrow> rdata_form \<Rightarrow> parse_error + bytes" where
  "canonical_rdata_inner r form =
     (case write_canonical_rdata r form [] of (Inl e, _) \<Rightarrow> Inl e | (Inr _, out) \<Rightarrow> Inr out)"

definition canonical_rdata :: "record_ref \<Rightarrow> parse_error + bytes" where
  "canonical_rdata r = canonical_rdata_inner r PRESERVING_CASE"

definition canonical_rdata_folded :: "record_ref \<Rightarrow> parse_error + bytes" where
  "canonical_rdata_folded r = canonical_rdata_inner r FOLDED"

subsection \<open>Bounds of the parsers\<close>

lemma nr_try_parse_bounds:
  "nr_try_parse m off = Inr (r, n) \<Longrightarrow>
     nr_message r = m \<and> unat (nr_start r) = off \<and> 1 \<le> n \<and> off + n \<le> length m"
  using nr_parse_bounds [of m off off r n] by (simp add: nr_try_parse_def)

lemma question_parse_bounds:
  "question_try_parse m off = Inr (q, next) \<Longrightarrow>
     off + 5 \<le> next \<and> next \<le> length m \<and> nr_message (q_name q) = m \<and> unat (nr_start (q_name q)) = off"
  by (auto simp: question_try_parse_def rbind_eq_Inr Let_def chunk_ok dest!: nr_try_parse_bounds)

lemma record_parse_bounds:
  "record_try_parse m off = Inr (r, next) \<Longrightarrow>
     off + 11 \<le> rdata_start r \<and> rdata_start r + rdata_len r = next \<and> next \<le> length m \<and>
     rdata_len r \<le> u16_max \<and> rr_message r = m \<and> nr_message (rr_name r) = m \<and>
     unat (nr_start (rr_name r)) = off"
  by (auto simp: record_try_parse_def rbind_eq_Inr Let_def chunk_ok not_less
      split: if_splits dest!: nr_try_parse_bounds)

lemma rr_rdata_eq:
  "rdata_start r + rdata_len r \<le> length (rr_message r) \<Longrightarrow>
     rr_rdata r = take (rdata_len r) (drop (rdata_start r) (rr_message r)) \<and>
     length (rr_rdata r) = rdata_len r"
  by (auto simp: rr_rdata_def slice_def)

lemma take_drop_nth: "i < n \<Longrightarrow> a + n \<le> length m \<Longrightarrow> take n (drop a m) ! i = m ! (a + i)"
  by simp

lemma record_parse_fields:
  assumes "nr_try_parse m off = Inr (nm, n)" "off + n = a" "a + 10 \<le> length m"
    and "e = a + 10 + unat (from_be16 (m ! (a + 8)) (m ! (a + 9)))" "e \<le> length m"
  shows "record_try_parse m off = Inr
     (\<lparr>rr_message = m, rr_name = nm, rr_rtype = rtype_from_u16 (from_be16 (m ! a) (m ! (a + 1))),
       rr_rclass = rclass_from_u16 (from_be16 (m ! (a + 2)) (m ! (a + 3))),
       rr_cache_flush = (from_be16 (m ! (a + 2)) (m ! (a + 3)) AND CACHE_FLUSH_BIT \<noteq> 0),
       rr_ttl = from_be32 (m ! (a + 4)) (m ! (a + 5)) (m ! (a + 6)) (m ! (a + 7)),
       rdata_start = a + 10, rdata_len = unat (from_be16 (m ! (a + 8)) (m ! (a + 9)))\<rparr>, e)"
proof -
  have "slice (take 10 (drop a m)) i (i + k) = Some (take k (drop (a + i) m))" if "i + k \<le> 10" for i k
    using that assms(3) by (simp add: slice_def take_drop min_def add.commute)
  then show ?thesis
    using assms by (simp add: record_try_parse_def chunk_def slice_def hdr_field_def Let_def
        numeral_2_eq_2 numeral_3_eq_3 take_drop) (simp_all add: add.commute [of a])
qed

end
