(* ===== verification/WireReader.thy ===== *)
theory WireReader
  imports WireRecord
begin

text \<open>
  The message reader (\<open>wire/reader.rs\<close>): the sections of a message as bounded iterators.  The
  lemmas show that every item starts at or after the header and lies inside the message, that a
  section never yields more items than its count, and that the sections of a well-formed message
  are consecutive.
\<close>

record message_reader =
  mr_message :: bytes
  mr_header :: header

definition reader_try_parse :: "bytes \<Rightarrow> parse_error + message_reader" where
  "reader_try_parse message =
     rbind (header_try_parse message) (\<lambda>(h, rest). Inr \<lparr>mr_message = message, mr_header = h\<rparr>)"

text \<open>\<open>Questions\<close> and \<open>Records\<close>: the message, the cursor and the items still to come.\<close>

record section_iter =
  si_message :: bytes
  si_cursor :: nat
  si_remaining :: u16

definition questions_next :: "section_iter \<Rightarrow> (parse_error + question_ref) option \<times> section_iter" where
  "questions_next it =
     (if si_remaining it = 0 then (None, it)
      else case question_try_parse (si_message it) (si_cursor it) of
        Inr (q, next) \<Rightarrow>
          (Some (Inr q), it\<lparr>si_cursor := next, si_remaining := si_remaining it - 1\<rparr>)
      | Inl e \<Rightarrow> (Some (Inl e), it\<lparr>si_remaining := 0\<rparr>))"

definition records_next :: "section_iter \<Rightarrow> (parse_error + record_ref) option \<times> section_iter" where
  "records_next it =
     (if si_remaining it = 0 then (None, it)
      else case record_try_parse (si_message it) (si_cursor it) of
        Inr (r, next) \<Rightarrow>
          (Some (Inr r), it\<lparr>si_cursor := next, si_remaining := si_remaining it - 1\<rparr>)
      | Inl e \<Rightarrow> (Some (Inl e), it\<lparr>si_remaining := 0\<rparr>))"

text \<open>The loops of \<open>skip_questions\<close> and \<open>skip_records\<close>; the count is the loop's \<open>remaining\<close>.\<close>

fun skip_question_loop :: "bytes \<Rightarrow> nat \<Rightarrow> nat \<Rightarrow> nat option" where
  "skip_question_loop message cursor 0 = Some cursor"
| "skip_question_loop message cursor (Suc remaining) =
     (case question_try_parse message cursor of
        Inl e \<Rightarrow> None
      | Inr (_, next) \<Rightarrow> skip_question_loop message next remaining)"

definition skip_questions :: "bytes \<Rightarrow> header \<Rightarrow> nat option" where
  "skip_questions message h = skip_question_loop message HEADER_SIZE (unat (question_count h))"

fun skip_record_loop :: "bytes \<Rightarrow> nat \<Rightarrow> nat \<Rightarrow> nat option" where
  "skip_record_loop message cursor 0 = Some cursor"
| "skip_record_loop message cursor (Suc count) =
     (case record_try_parse message cursor of
        Inl e \<Rightarrow> None
      | Inr (_, next) \<Rightarrow> skip_record_loop message next count)"

definition skip_records :: "bytes \<Rightarrow> nat \<Rightarrow> u16 \<Rightarrow> nat option" where
  "skip_records message cursor count = skip_record_loop message cursor (unat count)"

definition at_or_empty :: "bytes \<Rightarrow> u16 \<Rightarrow> nat option \<Rightarrow> section_iter" where
  "at_or_empty message count cursor =
     (case cursor of
        Some cursor \<Rightarrow> \<lparr>si_message = message, si_cursor = cursor, si_remaining = count\<rparr>
      | None \<Rightarrow> \<lparr>si_message = message, si_cursor = HEADER_SIZE, si_remaining = 0\<rparr>)"

definition new_after_questions :: "bytes \<Rightarrow> header \<Rightarrow> u16 \<Rightarrow> section_iter" where
  "new_after_questions message h count = at_or_empty message count (skip_questions message h)"

definition new_after_answers :: "bytes \<Rightarrow> header \<Rightarrow> u16 \<Rightarrow> section_iter" where
  "new_after_answers message h count = at_or_empty message count
     (Option.bind (skip_questions message h) (\<lambda>c. skip_records message c (answer_count h)))"

definition new_after_authority :: "bytes \<Rightarrow> header \<Rightarrow> u16 \<Rightarrow> section_iter" where
  "new_after_authority message h count = at_or_empty message count
     (Option.bind (Option.bind (skip_questions message h) (\<lambda>c. skip_records message c (answer_count h)))
        (\<lambda>c. skip_records message c (authority_count h)))"

definition questions :: "message_reader \<Rightarrow> section_iter" where
  "questions r = \<lparr>si_message = mr_message r, si_cursor = HEADER_SIZE,
                  si_remaining = question_count (mr_header r)\<rparr>"

definition answers :: "message_reader \<Rightarrow> section_iter" where
  "answers r = new_after_questions (mr_message r) (mr_header r) (answer_count (mr_header r))"

definition authority :: "message_reader \<Rightarrow> section_iter" where
  "authority r = new_after_answers (mr_message r) (mr_header r) (authority_count (mr_header r))"

definition additional :: "message_reader \<Rightarrow> section_iter" where
  "additional r = new_after_authority (mr_message r) (mr_header r) (additional_count (mr_header r))"

text \<open>What a \<open>for\<close> loop over a section sees.\<close>

lemma unat_minus_one_less: "w \<noteq> 0 \<Longrightarrow> unat (w - 1 :: u16) < unat w"
  using unat_minus_one [of w] unat_gt_0 [of w] by simp

function question_items :: "section_iter \<Rightarrow> (parse_error + question_ref) list" where
  "question_items it = (case questions_next it of (None, _) \<Rightarrow> [] | (Some q, it') \<Rightarrow> q # question_items it')"
  by pat_completeness auto
termination
  by (relation "measure (\<lambda>it. unat (si_remaining it))")
    (auto simp: questions_next_def unat_minus_one_less unat_gt_0 split: if_splits sum.splits)

function record_items :: "section_iter \<Rightarrow> (parse_error + record_ref) list" where
  "record_items it = (case records_next it of (None, _) \<Rightarrow> [] | (Some q, it') \<Rightarrow> q # record_items it')"
  by pat_completeness auto
termination
  by (relation "measure (\<lambda>it. unat (si_remaining it))")
    (auto simp: records_next_def unat_minus_one_less unat_gt_0 split: if_splits sum.splits)

declare question_items.simps [simp del] record_items.simps [simp del]

text \<open>The specification: \<open>n\<close> records one after the other from \<open>c\<close> to \<open>e\<close>.\<close>

fun parse_n :: "(bytes \<Rightarrow> nat \<Rightarrow> parse_error + 'a \<times> nat) \<Rightarrow> bytes \<Rightarrow> nat \<Rightarrow> nat \<Rightarrow> parse_error + 'a list \<times> nat" where
  "parse_n f m c 0 = Inr ([], c)"
| "parse_n f m c (Suc n) =
     rbind (f m c) (\<lambda>(x, c'). rbind (parse_n f m c' n) (\<lambda>(xs, e). Inr (x # xs, e)))"

lemma unat_minus_one: "w \<noteq> 0 \<Longrightarrow> unat (w :: u16) = Suc (unat (w - 1))"
  using unat_minus_one [of w] unat_gt_0 [of w] by simp

lemma question_items_parse_n:
  "question_items it = map Inr qs \<longleftrightarrow>
     (\<exists>e. parse_n question_try_parse (si_message it) (si_cursor it) (unat (si_remaining it)) = Inr (qs, e))"
proof (induction "unat (si_remaining it)" arbitrary: it qs)
  case 0
  then show ?case by (subst question_items.simps) (auto simp: questions_next_def unat_eq_0)
next
  case (Suc n)
  then have nz: "si_remaining it \<noteq> 0" by auto
  have n: "unat (si_remaining it - 1) = n" using Suc.hyps(2) unat_minus_one [OF nz] by simp
  show ?case
  proof (cases "question_try_parse (si_message it) (si_cursor it)")
    case (Inl e)
    with nz show ?thesis
      by (subst question_items.simps) (auto simp: questions_next_def Suc.hyps(2) [symmetric] Cons_eq_map_conv)
  next
    case (Inr qn)
    let ?it = "it\<lparr>si_cursor := snd qn, si_remaining := si_remaining it - 1\<rparr>"
    have "question_items it = Inr (fst qn) # question_items ?it"
      using nz Inr by (subst question_items.simps) (auto simp: questions_next_def split: prod.splits)
    then show ?thesis
      using Suc.hyps(1) [of ?it "tl qs"] n Inr
      by (cases qs) (auto simp: Suc.hyps(2) [symmetric] rbind_eq_Inr split: prod.splits)
  qed
qed

lemma record_items_parse_n:
  "record_items it = map Inr rs \<longleftrightarrow>
     (\<exists>e. parse_n record_try_parse (si_message it) (si_cursor it) (unat (si_remaining it)) = Inr (rs, e))"
proof (induction "unat (si_remaining it)" arbitrary: it rs)
  case 0
  then show ?case by (subst record_items.simps) (auto simp: records_next_def unat_eq_0)
next
  case (Suc n)
  then have nz: "si_remaining it \<noteq> 0" by auto
  have n: "unat (si_remaining it - 1) = n" using Suc.hyps(2) unat_minus_one [OF nz] by simp
  show ?case
  proof (cases "record_try_parse (si_message it) (si_cursor it)")
    case (Inl e)
    with nz show ?thesis
      by (subst record_items.simps) (auto simp: records_next_def Suc.hyps(2) [symmetric] Cons_eq_map_conv)
  next
    case (Inr rn)
    let ?it = "it\<lparr>si_cursor := snd rn, si_remaining := si_remaining it - 1\<rparr>"
    have "record_items it = Inr (fst rn) # record_items ?it"
      using nz Inr by (subst record_items.simps) (auto simp: records_next_def split: prod.splits)
    then show ?thesis
      using Suc.hyps(1) [of ?it "tl rs"] n Inr
      by (cases rs) (auto simp: Suc.hyps(2) [symmetric] rbind_eq_Inr split: prod.splits)
  qed
qed

lemma skip_question_parse_n:
  "skip_question_loop m c n = Some e \<longleftrightarrow> (\<exists>qs. parse_n question_try_parse m c n = Inr (qs, e))"
  by (induction m c n rule: skip_question_loop.induct)
    (auto simp: rbind_eq_Inr split: sum.splits prod.splits)

lemma skip_record_parse_n:
  "skip_record_loop m c n = Some e \<longleftrightarrow> (\<exists>rs. parse_n record_try_parse m c n = Inr (rs, e))"
  by (induction m c n rule: skip_record_loop.induct)
    (auto simp: rbind_eq_Inr split: sum.splits prod.splits)

lemma parse_n_advances:
  assumes "\<And>c x e. f m c = Inr (x, e) \<Longrightarrow> c + k \<le> e \<and> e \<le> length m"
  shows "parse_n f m c n = Inr (xs, e) \<Longrightarrow> c \<le> length m \<Longrightarrow>
    length xs = n \<and> c + n * k \<le> e \<and> e \<le> length m"
proof (induction n arbitrary: c xs e)
  case (Suc n)
  then obtain x c' ys where f: "f m c = Inr (x, c')" and p: "parse_n f m c' n = Inr (ys, e)"
    and xs: "xs = x # ys" by (auto simp: rbind_eq_Inr)
  from assms [OF f] Suc.IH [OF p] xs show ?case by auto
qed simp

lemmas parse_n_questions = parse_n_advances [where f = question_try_parse and k = 5]
lemmas parse_n_records = parse_n_advances [where f = record_try_parse and k = 11]

text \<open>One pass over the message: the four sections, each from where the one before it ended.\<close>

definition parse_sections ::
  "bytes \<Rightarrow> header \<Rightarrow> parse_error + question_ref list \<times> record_ref list \<times> record_ref list \<times> record_ref list"
where
  "parse_sections m h =
     rbind (parse_n question_try_parse m HEADER_SIZE (unat (question_count h))) (\<lambda>(qs, c).
     rbind (parse_n record_try_parse m c (unat (answer_count h))) (\<lambda>(an, c).
     rbind (parse_n record_try_parse m c (unat (authority_count h))) (\<lambda>(ns, c).
     rbind (parse_n record_try_parse m c (unat (additional_count h))) (\<lambda>(ar, c).
       Inr (qs, an, ns, ar)))))"

lemma record_items_at:
  "record_items (at_or_empty m n (Some c)) = map Inr rs \<longleftrightarrow>
     (\<exists>e. parse_n record_try_parse m c (unat n) = Inr (rs, e))"
  by (simp add: record_items_parse_n at_or_empty_def)

lemma sections_spec:
  fixes r :: message_reader
  defines "m \<equiv> mr_message r" and "h \<equiv> mr_header r"
  shows "parse_sections m h = Inr (qs, an, ns, ar) \<longleftrightarrow>
     question_items (questions r) = map Inr qs \<and> record_items (answers r) = map Inr an \<and>
     record_items (authority r) = map Inr ns \<and> record_items (additional r) = map Inr ar"
proof (cases "parse_n question_try_parse m HEADER_SIZE (unat (question_count h))")
  case (Inl e)
  then have "\<not> question_items (questions r) = map Inr qs"
    by (simp add: question_items_parse_n questions_def m_def h_def)
  with Inl show ?thesis by (simp add: parse_sections_def)
next
  case (Inr qc)
  obtain qs' c where qc: "qc = (qs', c)" by (cases qc)
  have sq: "skip_questions m h = Some c"
    using Inr qc by (auto simp: skip_questions_def skip_question_parse_n)
  have q: "question_items (questions r) = map Inr qs \<longleftrightarrow> qs = qs'"
    using Inr qc by (auto simp: question_items_parse_n questions_def m_def h_def)
  have an: "record_items (answers r) = map Inr an \<longleftrightarrow>
      (\<exists>e. parse_n record_try_parse m c (unat (answer_count h)) = Inr (an, e))"
    by (simp add: answers_def new_after_questions_def sq record_items_at flip: m_def h_def)
  show ?thesis
  proof (cases "parse_n record_try_parse m c (unat (answer_count h))")
    case (Inl e)
    then show ?thesis using an Inr qc by (simp add: parse_sections_def)
  next
    case (Inr ac)
    obtain an' c2 where ac: "ac = (an', c2)" by (cases ac)
    have sa: "skip_records m c (answer_count h) = Some c2"
      using Inr ac by (auto simp: skip_records_def skip_record_parse_n)
    have ns: "record_items (authority r) = map Inr ns \<longleftrightarrow>
        (\<exists>e. parse_n record_try_parse m c2 (unat (authority_count h)) = Inr (ns, e))"
      by (simp add: authority_def new_after_answers_def sq sa record_items_at flip: m_def h_def)
    show ?thesis
    proof (cases "parse_n record_try_parse m c2 (unat (authority_count h))")
      case (Inl e)
      then show ?thesis using ns Inr ac \<open>parse_n question_try_parse m _ _ = _\<close> qc
        by (simp add: parse_sections_def)
    next
      case nc: (Inr nc)
      obtain ns' c3 where nc': "nc = (ns', c3)" by (cases nc)
      have sn: "skip_records m c2 (authority_count h) = Some c3"
        using nc nc' by (auto simp: skip_records_def skip_record_parse_n)
      have ar: "record_items (additional r) = map Inr ar \<longleftrightarrow>
          (\<exists>e. parse_n record_try_parse m c3 (unat (additional_count h)) = Inr (ar, e))"
        by (simp add: additional_def new_after_authority_def sq sa sn record_items_at flip: m_def h_def)
      show ?thesis
        using q an ns ar Inr ac nc nc' \<open>parse_n question_try_parse m _ _ = _\<close> qc
        by (auto simp: parse_sections_def rbind_eq_Inr)
    qed
  qed
qed

lemma reader_parse_Inr:
  "reader_try_parse m = Inr r \<Longrightarrow> mr_message r = m \<and> HEADER_SIZE \<le> length m"
  by (auto simp: reader_try_parse_def rbind_eq_Inr header_try_parse_def split: if_splits)

text \<open>An item of a section lies inside the message, after the header.\<close>

lemma question_items_bounds:
  assumes "HEADER_SIZE \<le> si_cursor it"
  shows "length (question_items it) \<le> unat (si_remaining it) \<and>
    (\<forall>q. Inr q \<in> set (question_items it) \<longrightarrow>
       nr_message (q_name q) = si_message it \<and> HEADER_SIZE \<le> unat (nr_start (q_name q)) \<and>
       unat (nr_start (q_name q)) + 5 \<le> length (si_message it))"
  using assms
proof (induction "unat (si_remaining it)" arbitrary: it)
  case 0
  then show ?case by (simp add: question_items.simps [of it] questions_next_def unat_eq_0)
next
  case (Suc n)
  then have nz: "si_remaining it \<noteq> 0" by auto
  have n: "unat (si_remaining it - 1) = n" using Suc.hyps(2) unat_minus_one [OF nz] by simp
  show ?case
  proof (cases "question_try_parse (si_message it) (si_cursor it)")
    case (Inl e)
    with nz have "question_items it = [Inl e]"
      by (subst question_items.simps) (simp add: questions_next_def question_items.simps)
    with Suc.hyps(2) show ?thesis by simp
  next
    case (Inr qn)
    obtain q nx where qn: "qn = (q, nx)" by (cases qn)
    let ?it = "it\<lparr>si_cursor := nx, si_remaining := si_remaining it - 1\<rparr>"
    have items: "question_items it = Inr q # question_items ?it"
      using nz Inr qn by (subst question_items.simps) (auto simp: questions_next_def)
    note b = question_parse_bounds [OF Inr [unfolded qn]]
    with Suc.hyps(1) [of ?it] Suc.prems n show ?thesis
      unfolding items using Suc.hyps(2) by auto
  qed
qed

lemma record_items_bounds:
  assumes "HEADER_SIZE \<le> si_cursor it"
  shows "length (record_items it) \<le> unat (si_remaining it) \<and>
    (\<forall>r. Inr r \<in> set (record_items it) \<longrightarrow>
       rr_message r = si_message it \<and> HEADER_SIZE \<le> unat (nr_start (rr_name r)) \<and>
       unat (nr_start (rr_name r)) + 11 \<le> rdata_start r \<and>
       rdata_start r + rdata_len r \<le> length (si_message it))"
  using assms
proof (induction "unat (si_remaining it)" arbitrary: it)
  case 0
  then show ?case by (simp add: record_items.simps [of it] records_next_def unat_eq_0)
next
  case (Suc n)
  then have nz: "si_remaining it \<noteq> 0" by auto
  have n: "unat (si_remaining it - 1) = n" using Suc.hyps(2) unat_minus_one [OF nz] by simp
  show ?case
  proof (cases "record_try_parse (si_message it) (si_cursor it)")
    case (Inl e)
    with nz have "record_items it = [Inl e]"
      by (subst record_items.simps) (simp add: records_next_def record_items.simps)
    with Suc.hyps(2) show ?thesis by simp
  next
    case (Inr qn)
    obtain q nx where qn: "qn = (q, nx)" by (cases qn)
    let ?it = "it\<lparr>si_cursor := nx, si_remaining := si_remaining it - 1\<rparr>"
    have items: "record_items it = Inr q # record_items ?it"
      using nz Inr qn by (subst record_items.simps) (auto simp: records_next_def)
    note b = record_parse_bounds [OF Inr [unfolded qn]]
    with Suc.hyps(1) [of ?it] Suc.prems n show ?thesis
      unfolding items using Suc.hyps(2) by auto
  qed
qed

lemma skip_questions_bounds:
  assumes "HEADER_SIZE \<le> length m" "skip_questions m h = Some c"
  shows "HEADER_SIZE \<le> c \<and> c \<le> length m"
proof -
  from assms(2) obtain qs where "parse_n question_try_parse m HEADER_SIZE (unat (question_count h)) = Inr (qs, c)"
    by (auto simp: skip_questions_def skip_question_parse_n)
  from parse_n_questions [OF _ this assms(1)] show ?thesis
    using question_parse_bounds by fastforce
qed

lemma skip_records_bounds:
  assumes "c \<le> length m" "skip_records m c n = Some e"
  shows "c \<le> e \<and> e \<le> length m"
proof -
  from assms(2) obtain rs where "parse_n record_try_parse m c (unat n) = Inr (rs, e)"
    by (auto simp: skip_records_def skip_record_parse_n)
  from parse_n_records [OF _ this assms(1)] show ?thesis
    using record_parse_bounds by fastforce
qed

lemma at_or_empty_cursor:
  "(\<And>c. oc = Some c \<Longrightarrow> HEADER_SIZE \<le> c) \<Longrightarrow> HEADER_SIZE \<le> si_cursor (at_or_empty m n oc)"
  by (cases oc) (auto simp: at_or_empty_def)

lemma section_cursors:
  assumes "HEADER_SIZE \<le> length m"
  shows "HEADER_SIZE \<le> si_cursor (new_after_questions m h n)"
    "HEADER_SIZE \<le> si_cursor (new_after_answers m h n)"
    "HEADER_SIZE \<le> si_cursor (new_after_authority m h n)"
proof -
  have an: "HEADER_SIZE \<le> c \<and> c \<le> length m"
    if "Option.bind (skip_questions m h) (\<lambda>c. skip_records m c k) = Some c" for k c
  proof -
    from that obtain c1 where "skip_questions m h = Some c1" "skip_records m c1 k = Some c"
      by (cases "skip_questions m h") auto
    then show ?thesis
      using skip_questions_bounds [OF assms] skip_records_bounds by (metis order_trans)
  qed
  show "HEADER_SIZE \<le> si_cursor (new_after_questions m h n)"
    unfolding new_after_questions_def
    by (rule at_or_empty_cursor) (use skip_questions_bounds [OF assms] in blast)
  show "HEADER_SIZE \<le> si_cursor (new_after_answers m h n)"
    unfolding new_after_answers_def by (rule at_or_empty_cursor) (use an in blast)
  show "HEADER_SIZE \<le> si_cursor (new_after_authority m h n)"
    unfolding new_after_authority_def
  proof (rule at_or_empty_cursor)
    fix c assume "Option.bind (Option.bind (skip_questions m h) (\<lambda>c. skip_records m c (answer_count h)))
        (\<lambda>c. skip_records m c (authority_count h)) = Some c"
    then obtain c2 where "Option.bind (skip_questions m h) (\<lambda>c. skip_records m c (answer_count h)) = Some c2"
      "skip_records m c2 (authority_count h) = Some c"
      by (cases "Option.bind (skip_questions m h) (\<lambda>c. skip_records m c (answer_count h))") auto
    with an skip_records_bounds show "HEADER_SIZE \<le> c" by (meson le_trans)
  qed
qed

lemma at_or_empty_simps [simp]:
  "si_message (at_or_empty m n oc) = m" "unat (si_remaining (at_or_empty m n oc)) \<le> unat n"
  by (cases oc; simp add: at_or_empty_def)+

text \<open>
  C38. The four sections agree with one pass over the message: each section's iterator, which
  re-scans the sections before it, yields all its items without error, for all four sections, exactly
  when parsing the counted items one after the other succeeds, and then they are the same items.
\<close>
theorem reader_sections_spec:
  "parse_sections (mr_message r) (mr_header r) = Inr (qs, an, ns, ar) \<longleftrightarrow>
     question_items (questions r) = map Inr qs \<and> record_items (answers r) = map Inr an \<and>
     record_items (authority r) = map Inr ns \<and> record_items (additional r) = map Inr ar"
  by (rule sections_spec)

text \<open>
  However hostile the counts, a section yields no more items than its count, and every record
  and question it yields lies after the header and inside the message.
\<close>
theorem reader_bounds:
  assumes "reader_try_parse m = Inr r"
  shows "length (question_items (questions r)) \<le> unat (question_count (mr_header r)) \<and>
    length (record_items (answers r)) \<le> unat (answer_count (mr_header r)) \<and>
    length (record_items (authority r)) \<le> unat (authority_count (mr_header r)) \<and>
    length (record_items (additional r)) \<le> unat (additional_count (mr_header r)) \<and>
    (\<forall>q. Inr q \<in> set (question_items (questions r)) \<longrightarrow>
       HEADER_SIZE \<le> unat (nr_start (q_name q)) \<and> unat (nr_start (q_name q)) + 5 \<le> length m) \<and>
    (\<forall>x. Inr x \<in> set (record_items (answers r)) \<union> set (record_items (authority r)) \<union>
               set (record_items (additional r)) \<longrightarrow>
       HEADER_SIZE \<le> unat (nr_start (rr_name x)) \<and>
       unat (nr_start (rr_name x)) + 11 \<le> rdata_start x \<and> rdata_start x + rdata_len x \<le> length m)"
proof -
  from reader_parse_Inr [OF assms] have m: "mr_message r = m" "HEADER_SIZE \<le> length m" by auto
  note cur = section_cursors [OF m(2)]
  note q = question_items_bounds [of "questions r", simplified questions_def, simplified]
  note a = record_items_bounds [OF cur(1), of "mr_header r" "answer_count (mr_header r)"]
  note b = record_items_bounds [OF cur(2), of "mr_header r" "authority_count (mr_header r)"]
  note c = record_items_bounds [OF cur(3), of "mr_header r" "additional_count (mr_header r)"]
  have msg: "si_message (new_after_questions m h n) = m" "si_message (new_after_answers m h n) = m"
    "si_message (new_after_authority m h n) = m" "unat (si_remaining (new_after_questions m h n)) \<le> unat n"
    "unat (si_remaining (new_after_answers m h n)) \<le> unat n"
    "unat (si_remaining (new_after_authority m h n)) \<le> unat n" for h n
    by (simp_all add: new_after_questions_def new_after_answers_def new_after_authority_def)
  show ?thesis
    using q a b c m(1) msg(4) [of "mr_header r" "answer_count (mr_header r)"]
      msg(5) [of "mr_header r" "authority_count (mr_header r)"]
      msg(6) [of "mr_header r" "additional_count (mr_header r)"]
    unfolding questions_def answers_def authority_def additional_def msg(1-3) by auto
qed

lemma reader_bounds_witness:
  "let m = header_bytes (header_new\<lparr>question_count := 2\<rparr>) @ [0, 0, 1, 0, 1];
       r = \<lparr>mr_message = m, mr_header = header_new\<lparr>question_count := 2\<rparr>\<rparr>
   in reader_try_parse m = Inr r \<and> length (question_items (questions r)) \<le> 2"
proof -
  let ?h = "header_new\<lparr>question_count := 2\<rparr>"
  let ?m = "header_bytes ?h @ [0, 0, 1, 0, 1]"
  have "reader_try_parse ?m = Inr \<lparr>mr_message = ?m, mr_header = ?h\<rparr>"
    by (simp add: reader_try_parse_def header_parse_bytes)
  with reader_bounds [OF this] show ?thesis by (simp add: Let_def)
qed

end
