(* ===== verification/WireCanonical.thy ===== *)
theory WireCanonical
  imports WireReader
begin

text \<open>
  Canonical RDATA (\<open>wire/record/mod.rs\<close>, \<open>canonical_rdata\<close> and \<open>canonical_rdata_folded\<close>) against its
  specification: what a record's RDATA says, names expanded, encoded again without compression.
\<close>

text \<open>RDATA as fixed octets, then names, then fixed octets.\<close>

type_synonym decoded = "bytes \<times> bytes list list \<times> bytes"

definition whole_name :: "name_ref \<Rightarrow> bytes list option" where
  "whole_name nr = (if list_all is_ok (nr_items nr) then Some (map projr (nr_items nr)) else None)"

fun names_run :: "bytes \<Rightarrow> nat \<Rightarrow> nat \<Rightarrow> (bytes list list \<times> nat) option" where
  "names_run m 0 c = Some ([], c)"
| "names_run m (Suc n) c =
     (case nr_try_parse m c of
        Inl _ \<Rightarrow> None
      | Inr (nr, k) \<Rightarrow> Option.bind (whole_name nr) (\<lambda>ls.
          Option.bind (names_run m n (c + k)) (\<lambda>(lss, e). Some (ls # lss, e))))"

definition whole_txt :: "bytes \<Rightarrow> bytes list option" where
  "whole_txt t = (if list_all is_ok (txt_segments t) then Some (map projr (txt_segments t)) else None)"

definition encode_txt :: "bytes list \<Rightarrow> bytes" where
  "encode_txt segs = (if segs = [] then [0] else concat (map (\<lambda>s. word_of_nat (length s) # s) segs))"

definition decoded_rdata :: "record_ref \<Rightarrow> decoded option" where
  "decoded_rdata r =
     (case rdata_view r of
        Inl _ \<Rightarrow> None
      | Inr (Rdata_A _) \<Rightarrow> Some (rr_rdata r, [], [])
      | Inr (Rdata_AAAA _) \<Rightarrow> Some (rr_rdata r, [], [])
      | Inr (Rdata_Ptr p) \<Rightarrow> map_option (\<lambda>ls. ([], [ls], [])) (whole_name p)
      | Inr (Rdata_Cname c) \<Rightarrow> map_option (\<lambda>ls. ([], [ls], [])) (whole_name c)
      | Inr (Rdata_Srv s) \<Rightarrow> map_option (\<lambda>ls.
          (to_be16 (srv_priority s) @ to_be16 (srv_weight s) @ to_be16 (srv_port s), [ls], []))
          (whole_name (srv_target s))
      | Inr (Rdata_Nsec n) \<Rightarrow> map_option (\<lambda>ls. ([], [ls], type_bitmap n)) (whole_name (next_name n))
      | Inr (Rdata_Txt t) \<Rightarrow> map_option (\<lambda>segs. (encode_txt segs, [], [])) (whole_txt t)
      | Inr (Rdata_Other bs) \<Rightarrow>
          (case rtype_rdata_names (rr_rtype r) of
             Opaque \<Rightarrow> Some (bs, [], [])
           | Compressible lead names \<Rightarrow>
               let first = rdata_start r + lead; rdata_end = rdata_start r + rdata_len r in
               if rdata_end < first then None
               else case names_run (rr_message r) names first of
                 None \<Rightarrow> None
               | Some (lss, e) \<Rightarrow>
                   if rdata_end < e then None
                   else Some (get_or_empty (rr_message r) (rdata_start r) first, lss,
                              get_or_empty (rr_message r) e rdata_end)))"

definition encode_decoded :: "(bytes \<Rightarrow> bytes) \<Rightarrow> decoded \<Rightarrow> bytes" where
  "encode_decoded g = (\<lambda>(lead, lss, tail). lead @ concat (map (\<lambda>ls. wire_encode (map g ls)) lss) @ tail)"

lemma all_ok_map_Inr: "list_all is_ok xs \<longleftrightarrow> xs = map Inr (map projr xs)"
  by (induction xs) (auto split: sum.splits simp: is_ok_def)

lemma whole_name_Some: "whole_name nr = Some ls \<longleftrightarrow> nr_items nr = map Inr ls"
  using all_ok_map_Inr [of "nr_items nr"] by (auto simp: whole_name_def comp_def list_all_iff)

lemma whole_txt_Some: "whole_txt t = Some segs \<longleftrightarrow> txt_segments t = map Inr segs"
  using all_ok_map_Inr [of "txt_segments t"] by (auto simp: whole_txt_def comp_def list_all_iff)

lemma write_wire_cases:
  "case whole_name r of
     None \<Rightarrow> (\<exists>e. fst (write_wire r out f) = Inl e)
   | Some ls \<Rightarrow> write_wire r out f = (Inr (), out @ wire_encode (map (\<lambda>l. if f then lower l else l) ls))"
proof -
  obtain ls tail where items: "nr_items r = map Inr ls @ tail" "tail = [] \<or> (\<exists>e. tail = [Inl e])"
    "list_all label_ok ls" "wire_octets_of ls \<le> MAX_NAME_BYTES"
    using nr_items_shape by blast
  show ?thesis
  proof (cases "tail = []")
    case True
    then have "whole_name r = Some ls" using items(1) by (simp add: whole_name_Some)
    then show ?thesis using items True by (simp add: write_wire_def write_wire_loop_ok)
  next
    case False
    then obtain e where e: "tail = [Inl e]" using items(2) by blast
    then have "whole_name r = None" using items(1) by (simp add: whole_name_def)
    then show ?thesis using items e by (simp add: write_wire_def write_wire_loop_err)
  qed
qed

lemma names_run_le: "names_run m n c = Some (lss, e) \<Longrightarrow> c \<le> e"
  by (induction n arbitrary: c lss e)
    (auto simp: bind_eq_Some_conv split: sum.splits prod.splits, fastforce)

lemma decompress_names_spec:
  "case names_run (rr_message r) n c of
     None \<Rightarrow> (\<exists>e. fst (fst (decompress_names r n c f out)) = Inl e)
   | Some (lss, e) \<Rightarrow>
       if rdata_start r + rdata_len r < e \<and> n \<noteq> 0 then (\<exists>e. fst (fst (decompress_names r n c f out)) = Inl e)
       else decompress_names r n c f out =
         ((Inr (), out @ concat (map (\<lambda>ls. wire_encode (map (\<lambda>l. if f then lower l else l) ls)) lss)), e)"
proof (induction n arbitrary: c out)
  case (Suc n)
  show ?case
  proof (cases "nr_try_parse (rr_message r) c")
    case (Inr p)
    obtain nr k where p: "p = (nr, k)" by (cases p)
    show ?thesis
    proof (cases "whole_name nr")
      case None
      then show ?thesis using Inr p write_wire_cases [of nr out f]
        by (auto split: prod.splits)
    next
      case (Some ls)
      let ?out = "out @ wire_encode (map (\<lambda>l. if f then lower l else l) ls)"
      have w: "write_wire nr out f = (Inr (), ?out)" using Some write_wire_cases [of nr out f] by simp
      show ?thesis
        using Suc.IH [of "c + k" ?out] Inr p Some w names_run_le [of "rr_message r" n "c + k"]
        by (cases "names_run (rr_message r) n (c + k)"; cases "n = 0") (auto simp: Let_def not_less)
    qed
  qed simp
qed simp

lemma write_segments_ok:
  "write_segments (map Inr segs) out w =
     ((Inr (), out @ concat (map (\<lambda>s. word_of_nat (length s) # s) segs)), w \<or> segs \<noteq> [])"
  by (induction segs arbitrary: out w) auto

lemma write_segments_err:
  "\<not> list_all is_ok items \<Longrightarrow> \<exists>e. fst (fst (write_segments items out w)) = Inl e"
  by (induction items out w rule: write_segments.induct) auto

lemma encode_single: "encode_decoded g (lead, [ls], tail) = lead @ wire_encode (map g ls) @ tail"
  by (simp add: encode_decoded_def)

definition case_of :: "bool \<Rightarrow> bytes \<Rightarrow> bytes" where
  "case_of f l = (if f then lower l else l)"

definition finished :: "written \<Rightarrow> parse_error + bytes" where
  "finished w = (case w of (Inl e, _) \<Rightarrow> Inl e | (Inr _, out) \<Rightarrow> Inr out)"

lemma finished_simps [simp]:
  "finished (Inl e, out) = Inl e" "finished (Inr u, out) = Inr out"
  by (simp_all add: finished_def)

lemma finished_write_wire:
  "ok (finished (write_wire r out f)) = map_option (\<lambda>ls. out @ wire_encode (map (case_of f) ls)) (whole_name r)"
  using write_wire_cases [of r out f]
  by (cases "whole_name r"; cases "write_wire r out f") (auto simp: case_of_def [abs_def])

lemma finished_write_wire_tail:
  "ok (finished (wthen (write_wire r out f) (\<lambda>o'. (Inr (), o' @ tail))))
     = map_option (\<lambda>ls. out @ wire_encode (map (case_of f) ls) @ tail) (whole_name r)"
  using write_wire_cases [of r out f]
  by (cases "whole_name r"; cases "write_wire r out f") (auto simp: wthen_def case_of_def [abs_def])

lemma finished_write_txt:
  assumes "normal"
  shows "ok (finished (case write_segments (txt_segments t) [] False of
        ((Inl e, out), _) \<Rightarrow> (Inl e, out)
      | ((Inr _, out), wrote_any) \<Rightarrow> (Inr (), if \<not> wrote_any \<and> normal then out @ [0] else out)))
     = map_option encode_txt (whole_txt t)"
proof (cases "whole_txt t")
  case None
  then have "\<not> list_all is_ok (txt_segments t)" by (simp add: whole_txt_def split: if_splits)
  with write_segments_err [of "txt_segments t" "[]" False] None show ?thesis
    by (cases "write_segments (txt_segments t) [] False") auto
next
  case (Some segs)
  then have "txt_segments t = map Inr segs" by (simp add: whole_txt_Some)
  then show ?thesis using Some assms by (simp add: write_segments_ok encode_txt_def)
qed

lemma finished_decompressed:
  "ok (finished (write_decompressed_rdata r lead names f [])) =
     (let first = rdata_start r + lead; rdata_end = rdata_start r + rdata_len r in
      if rdata_end < first then None
      else case names_run (rr_message r) names first of
        None \<Rightarrow> None
      | Some (lss, e) \<Rightarrow>
          if rdata_end < e then None
          else Some (encode_decoded (case_of f)
            (get_or_empty (rr_message r) (rdata_start r) first, lss, get_or_empty (rr_message r) e rdata_end)))"
proof (cases "rdata_len r < lead")
  case True
  then show ?thesis by (simp add: write_decompressed_rdata_def Let_def)
next
  case False
  let ?first = "rdata_start r + lead"
  let ?out = "get_or_empty (rr_message r) (rdata_start r) ?first"
  note spec = decompress_names_spec [of r names ?first f ?out]
  show ?thesis
  proof (cases "names_run (rr_message r) names ?first")
    case None
    then show ?thesis using spec False
      by (cases "decompress_names r names ?first f ?out") (auto simp: write_decompressed_rdata_def Let_def)
  next
    case (Some p)
    obtain lss e where p: "p = (lss, e)" by (cases p)
    have z: "e = ?first" if "names = 0" using Some p that by simp
    show ?thesis using spec Some p False z
      by (cases "decompress_names r names ?first f ?out"; cases "rdata_start r + rdata_len r < e"; cases "names = 0")
        (auto simp: write_decompressed_rdata_def Let_def encode_decoded_def case_of_def [abs_def])
  qed
qed

lemma canonical_inner_spec:
  assumes "normalise_empty_txt form"
  shows "ok (canonical_rdata_inner r form)
     = map_option (encode_decoded (case_of (fold_case form))) (decoded_rdata r)"
proof -
  have e: "canonical_rdata_inner r form = finished (write_canonical_rdata r form [])"
    by (simp add: canonical_rdata_inner_def finished_def)
  show ?thesis
  proof (cases "rdata_view r")
    case (Inl err)
    then show ?thesis by (simp add: e write_canonical_rdata_def decoded_rdata_def)
  next
    case (Inr v)
    have fix1: "(\<lambda>d. encode_decoded g d) \<circ> (\<lambda>ls. (lead, [ls], tail)) = (\<lambda>ls. lead @ wire_encode (map g ls) @ tail)" for g lead tail
      by (simp add: comp_def encode_single)
    show ?thesis
    proof (cases v)
      case (Rdata_Other bs)
      then show ?thesis using Inr
        by (cases "rtype_rdata_names (rr_rtype r)")
          (simp_all add: e write_canonical_rdata_def decoded_rdata_def finished_decompressed encode_decoded_def
            Let_def split: option.splits prod.splits)
    qed (use Inr assms in \<open>simp_all add: e write_canonical_rdata_def decoded_rdata_def finished_write_wire
        finished_write_wire_tail finished_write_txt [OF assms] option.map_comp comp_def encode_single encode_decoded_def\<close>)
  qed
qed

text \<open>
  Canonical RDATA is what the record says and nothing else: \<open>canonical_rdata\<close> and
  \<open>canonical_rdata_folded\<close> succeed exactly when every name, string and field of the RDATA can be read,
  and then they are the uncompressed encoding of what was read (an empty TXT as one empty string), with
  the labels as sent or folded to lower case.  So two records that say the same have the same canonical
  octets, whatever compression, offset or message they were parsed from.
\<close>
theorem canonical_rdata_spec:
  "ok (canonical_rdata r) = map_option (encode_decoded (\<lambda>l. l)) (decoded_rdata r) \<and>
   ok (canonical_rdata_folded r) = map_option (encode_decoded lower) (decoded_rdata r)"
proof -
  have "case_of True = lower" "case_of False = (\<lambda>l. l)" by (simp_all add: case_of_def fun_eq_iff)
  then show ?thesis
    using canonical_inner_spec [of PRESERVING_CASE r] canonical_inner_spec [of FOLDED r]
    by (simp add: canonical_rdata_def canonical_rdata_folded_def PRESERVING_CASE_def FOLDED_def)
qed

end
