(* ===== verification/WireBuilder.thy ===== *)
theory WireBuilder
  imports WireReader
begin

text \<open>
  The message builder (\<open>wire/builder.rs\<close>).  Every operation is a function from the builder to its
  result and the builder it leaves behind, also when it fails: a failed push has advanced the cursor
  and recorded compression entries, which is what \<open>checkpoint\<close> and \<open>restore\<close> are for.  \<open>bseq\<close> is
  a sequence of statements that each end in \<open>?\<close>.
\<close>

subsection \<open>The compression table\<close>

text \<open>The array \<open>entries\<close> has \<open>COMP_N\<close> elements, of which the first \<open>used\<close> are live.\<close>

record compression_table =
  ct_entries :: "(u64 \<times> u16) list"
  ct_used :: nat

definition DEFAULT_COMPRESSION_TABLE :: nat where "DEFAULT_COMPRESSION_TABLE = 32"

definition ct_new :: "nat \<Rightarrow> compression_table" where
  "ct_new comp_n = \<lparr>ct_entries = replicate comp_n (0, 0), ct_used = 0\<rparr>"

function ct_lookup_loop :: "compression_table \<Rightarrow> u64 \<Rightarrow> nat \<Rightarrow> u16 option" where
  "ct_lookup_loop ct hash i =
     (if i < ct_used ct then
        (case get (ct_entries ct) i of
           None \<Rightarrow> None
         | Some entry \<Rightarrow> if fst entry = hash then Some (snd entry) else ct_lookup_loop ct hash (i + 1))
      else None)"
  by pat_completeness auto
termination by (relation "measure (\<lambda>(ct, hash, i). ct_used ct - i)") auto

declare ct_lookup_loop.simps [simp del]

definition ct_lookup :: "compression_table \<Rightarrow> u64 \<Rightarrow> u16 option" where
  "ct_lookup ct hash = ct_lookup_loop ct hash 0"

definition ct_insert :: "compression_table \<Rightarrow> u64 \<Rightarrow> u16 \<Rightarrow> compression_table" where
  "ct_insert ct hash offset =
     (if ct_used ct < length (ct_entries ct)
      then ct\<lparr>ct_entries := (ct_entries ct)[ct_used ct := (hash, offset)], ct_used := ct_used ct + 1\<rparr>
      else ct)"

definition FNV_BASIS :: u64 where "FNV_BASIS = 0xcbf29ce484222325"
definition FNV_PRIME :: u64 where "FNV_PRIME = 0x100000001b3"

definition hash_octet :: "u64 \<Rightarrow> u8 \<Rightarrow> u64" where
  "hash_octet h b = (h XOR ucast (to_lower b)) * FNV_PRIME"

definition hash_label :: "u64 \<Rightarrow> bytes \<Rightarrow> u64" where
  "hash_label h label = (foldl hash_octet h label XOR ucast dot) * FNV_PRIME"

definition hash_suffix :: "bytes list \<Rightarrow> u64" where
  "hash_suffix labels = foldl hash_label FNV_BASIS labels"

subsection \<open>The builder\<close>

record builder =
  b_out :: bytes
  b_cursor :: nat
  b_header :: header
  b_compression :: compression_table

type_synonym 'a build = "builder \<Rightarrow> (encode_error + 'a) \<times> builder"

definition bbind :: "'a build \<Rightarrow> ('a \<Rightarrow> 'b build) \<Rightarrow> 'b build" where
  "bbind m f b = (case m b of (Inl e, b') \<Rightarrow> (Inl e, b') | (Inr x, b') \<Rightarrow> f x b')"

fun bseq :: "unit build list \<Rightarrow> unit build" where
  "bseq [] b = (Inr (), b)"
| "bseq (m # ms) b = (case m b of (Inl e, b') \<Rightarrow> (Inl e, b') | (Inr _, b') \<Rightarrow> bseq ms b')"

definition berr :: "encode_error \<Rightarrow> 'a build" where "berr e b = (Inl e, b)"

text \<open>\<open>let x = self.cursor; ...\<close>\<close>

definition with_cursor :: "(nat \<Rightarrow> 'a build) \<Rightarrow> 'a build" where
  "with_cursor f b = f (b_cursor b) b"

definition builder_try_new :: "nat \<Rightarrow> bytes \<Rightarrow> header \<Rightarrow> encode_error + builder" where
  "builder_try_new comp_n out h =
     (if length out < HEADER_SIZE then Inl (BufferTooSmall HEADER_SIZE (length out))
      else Inr \<lparr>b_out = out, b_cursor = HEADER_SIZE, b_header = h, b_compression = ct_new comp_n\<rparr>)"

record builder_checkpoint =
  cp_cursor :: nat
  cp_header :: header
  cp_compression_used :: nat

definition checkpoint :: "builder \<Rightarrow> builder_checkpoint" where
  "checkpoint b = \<lparr>cp_cursor = b_cursor b, cp_header = b_header b,
                   cp_compression_used = ct_used (b_compression b)\<rparr>"

definition restore :: "builder_checkpoint \<Rightarrow> builder \<Rightarrow> builder" where
  "restore cp b = b\<lparr>b_cursor := cp_cursor cp, b_header := cp_header cp,
                    b_compression := (b_compression b)\<lparr>ct_used := cp_compression_used cp\<rparr>\<rparr>"

subsection \<open>Writing octets and names\<close>

definition write_byte :: "u8 \<Rightarrow> unit build" where
  "write_byte v b =
     (if b_cursor b < length (b_out b)
      then (Inr (), b\<lparr>b_out := (b_out b)[b_cursor b := v], b_cursor := b_cursor b + 1\<rparr>)
      else (Inl (BufferTooSmall 1 0), b))"

definition write_u16 :: "u16 \<Rightarrow> unit build" where
  "write_u16 v b =
     (case put_slice (b_out b) (b_cursor b) (to_be16 v) of
        None \<Rightarrow> (Inl (BufferTooSmall 2 0), b)
      | Some out \<Rightarrow> (Inr (), b\<lparr>b_out := out, b_cursor := b_cursor b + 2\<rparr>))"

definition write_u32 :: "u32 \<Rightarrow> unit build" where
  "write_u32 v b =
     (case put_slice (b_out b) (b_cursor b) (to_be32 v) of
        None \<Rightarrow> (Inl (BufferTooSmall 4 0), b)
      | Some out \<Rightarrow> (Inr (), b\<lparr>b_out := out, b_cursor := b_cursor b + 4\<rparr>))"

text \<open>\<open>for b in bytes { self.write_byte(b)?; }\<close>\<close>

definition write_bytes :: "bytes \<Rightarrow> unit build" where
  "write_bytes bs = bseq (map write_byte bs)"

text \<open>The search for the longest known suffix, from label \<open>i\<close> on.\<close>

fun find_suffix :: "compression_table \<Rightarrow> nat \<Rightarrow> bytes list \<Rightarrow> (nat \<times> u16) option" where
  "find_suffix ct i [] = None"
| "find_suffix ct i (l # ls) =
     (case ct_lookup ct (hash_suffix (l # ls)) of
        Some off \<Rightarrow> Some (i, off)
      | None \<Rightarrow> find_suffix ct (i + 1) ls)"

text \<open>\<open>let offset = u16::try_from(self.cursor)?; self.compression.insert(h, offset);\<close>\<close>

definition record_suffix :: "u64 \<Rightarrow> unit build" where
  "record_suffix h b =
     (case u16_try_from (b_cursor b) of
        None \<Rightarrow> (Inl EncIntegerConversion, b)
      | Some offset \<Rightarrow> (Inr (), b\<lparr>b_compression := ct_insert (b_compression b) h offset\<rparr>))"

text \<open>The inline labels: the first \<open>k\<close> of the suffix \<open>ls\<close>, each recorded before it is written.\<close>

fun emit_labels :: "bytes list \<Rightarrow> nat \<Rightarrow> unit build" where
  "emit_labels [] k b = (Inr (), b)"
| "emit_labels (l # ls) k b =
     (if k = 0 then (Inr (), b)
      else if MAX_LABEL_BYTES < length l
      then (Inl (BufferTooSmall (length l) (length (b_out b))), b)
      else bseq [record_suffix (hash_suffix (l # ls)), write_byte (word_of_nat (length l)),
                 write_bytes (map to_lower l), emit_labels ls (k - 1)] b)"

definition ptr_hi :: "u16 \<Rightarrow> u8" where "ptr_hi off = ucast (drop_bit 8 off) OR 0xC0"
definition ptr_lo :: "u16 \<Rightarrow> u8" where "ptr_lo off = ucast (off AND 0x00FF)"

definition write_terminator :: "u16 option \<Rightarrow> unit build" where
  "write_terminator pointer_target =
     (case pointer_target of
        Some off \<Rightarrow> bseq [write_byte (ptr_hi off), write_byte (ptr_lo off)]
      | None \<Rightarrow> write_byte 0)"

definition write_name :: "name \<Rightarrow> unit build" where
  "write_name n b =
     (let s = as_str n in
      if s = [] then write_byte 0 b
      else
        let labels = split_dot (strip_dot s) in
        if 128 < length labels then (Inl (BufferTooSmall MAX_NAME_BYTES (length (b_out b))), b)
        else
          let (suffix_start, pointer_target) =
            (case find_suffix (b_compression b) 0 labels of
               Some (i, off) \<Rightarrow> (i, Some off)
             | None \<Rightarrow> (length labels, None)) in
          bseq [emit_labels labels suffix_start, write_terminator pointer_target] b)"

subsection \<open>Pushing questions and records\<close>

definition set_header :: "(header \<Rightarrow> header) \<Rightarrow> unit build" where
  "set_header f b = (Inr (), b\<lparr>b_header := f (b_header b)\<rparr>)"

definition inc_question :: "unit build" where
  "inc_question = set_header (\<lambda>h. h\<lparr>question_count := sat_inc16 (question_count h)\<rparr>)"
definition inc_answer :: "unit build" where
  "inc_answer = set_header (\<lambda>h. h\<lparr>answer_count := sat_inc16 (answer_count h)\<rparr>)"
definition inc_authority :: "unit build" where
  "inc_authority = set_header (\<lambda>h. h\<lparr>authority_count := sat_inc16 (authority_count h)\<rparr>)"
definition inc_additional :: "unit build" where
  "inc_additional = set_header (\<lambda>h. h\<lparr>additional_count := sat_inc16 (additional_count h)\<rparr>)"

definition class_flush :: "bool \<Rightarrow> u16" where
  "class_flush cache_flush =
     rclass_to_u16 Class_In OR (if cache_flush then CACHE_FLUSH_BIT else 0)"

definition push_question :: "name \<Rightarrow> resource_type \<Rightarrow> resource_class \<Rightarrow> bool \<Rightarrow> unit build" where
  "push_question n qtype qclass unicast_response = bseq
     [write_name n, write_u16 (rtype_to_u16 qtype),
      write_u16 (rclass_to_u16 qclass OR (if unicast_response then UNICAST_RESPONSE_BIT else 0)),
      inc_question]"

definition push_a_answer :: "name \<Rightarrow> u32 \<Rightarrow> bytes \<Rightarrow> bool \<Rightarrow> unit build" where
  "push_a_answer n ttl addr cache_flush = bseq
     [write_name n, write_u16 (rtype_to_u16 RT_A), write_u16 (class_flush cache_flush),
      write_u32 ttl, write_u16 4, write_bytes addr, inc_answer]"

definition push_aaaa_answer :: "name \<Rightarrow> u32 \<Rightarrow> bytes \<Rightarrow> bool \<Rightarrow> unit build" where
  "push_aaaa_answer n ttl addr cache_flush = bseq
     [write_name n, write_u16 (rtype_to_u16 RT_AAAA), write_u16 (class_flush cache_flush),
      write_u32 ttl, write_u16 16, write_bytes addr, inc_answer]"

text \<open>
  The RDLENGTH of a record whose RDATA is written first: two zero octets at \<open>len_offset\<close>, patched
  when the RDATA is complete.
\<close>

definition patch_rdlen :: "nat \<Rightarrow> nat \<Rightarrow> unit build" where
  "patch_rdlen len_offset start b =
     (case u16_try_from (b_cursor b - start) of
        None \<Rightarrow> (Inl EncIntegerConversion, b)
      | Some rdlen \<Rightarrow>
          (case put_slice (b_out b) len_offset (to_be16 rdlen) of
             None \<Rightarrow> (Inl (BufferTooSmall 2 0), b)
           | Some out \<Rightarrow> (Inr (), b\<lparr>b_out := out\<rparr>)))"

definition write_rdata :: "unit build list \<Rightarrow> unit build" where
  "write_rdata body = with_cursor (\<lambda>len_offset. bseq
     [write_u16 0, with_cursor (\<lambda>start. bseq (body @ [patch_rdlen len_offset start]))])"

definition push_srv_answer ::
  "name \<Rightarrow> u32 \<Rightarrow> u16 \<Rightarrow> u16 \<Rightarrow> u16 \<Rightarrow> name \<Rightarrow> bool \<Rightarrow> unit build" where
  "push_srv_answer n ttl priority weight port target cache_flush = bseq
     [write_name n, write_u16 (rtype_to_u16 RT_Srv), write_u16 (class_flush cache_flush),
      write_u32 ttl,
      write_rdata [write_u16 priority, write_u16 weight, write_u16 port, write_name target],
      inc_answer]"

fun write_txt_segments :: "bytes list \<Rightarrow> bool \<Rightarrow> bool build" where
  "write_txt_segments [] wrote_any b = (Inr wrote_any, b)"
| "write_txt_segments (s # segments) wrote_any b =
     (if 255 < length s then (Inl (BufferTooSmall (length s) 255), b)
      else (case bseq [write_byte (word_of_nat (length s)), write_bytes s] b of
              (Inl e, b') \<Rightarrow> (Inl e, b')
            | (Inr _, b') \<Rightarrow> write_txt_segments segments True b'))"

definition write_txt_body :: "bytes list \<Rightarrow> unit build" where
  "write_txt_body segments = bbind (write_txt_segments segments False)
     (\<lambda>wrote_any. if \<not> wrote_any then write_byte 0 else bseq [])"

definition push_txt_answer :: "name \<Rightarrow> u32 \<Rightarrow> bytes list \<Rightarrow> bool \<Rightarrow> unit build" where
  "push_txt_answer n ttl segments cache_flush = bseq
     [write_name n, write_u16 (rtype_to_u16 RT_Txt), write_u16 (class_flush cache_flush),
      write_u32 ttl, write_rdata [write_txt_body segments], inc_answer]"

definition push_ptr_answer :: "name \<Rightarrow> u32 \<Rightarrow> name \<Rightarrow> unit build" where
  "push_ptr_answer n ttl target = bseq
     [write_name n, write_u16 (rtype_to_u16 RT_Ptr), write_u16 (rclass_to_u16 Class_In),
      write_u32 ttl, write_rdata [write_name target], inc_answer]"

definition push_a_authority :: "name \<Rightarrow> u32 \<Rightarrow> bytes \<Rightarrow> unit build" where
  "push_a_authority n ttl addr = bseq
     [write_name n, write_u16 (rtype_to_u16 RT_A), write_u16 (rclass_to_u16 Class_In),
      write_u32 ttl, write_u16 4, write_bytes addr, inc_authority]"

definition push_aaaa_authority :: "name \<Rightarrow> u32 \<Rightarrow> bytes \<Rightarrow> unit build" where
  "push_aaaa_authority n ttl addr = bseq
     [write_name n, write_u16 (rtype_to_u16 RT_AAAA), write_u16 (rclass_to_u16 Class_In),
      write_u32 ttl, write_u16 16, write_bytes addr, inc_authority]"

definition push_srv_authority ::
  "name \<Rightarrow> u32 \<Rightarrow> u16 \<Rightarrow> u16 \<Rightarrow> u16 \<Rightarrow> name \<Rightarrow> unit build" where
  "push_srv_authority n ttl priority weight port target = bseq
     [write_name n, write_u16 (rtype_to_u16 RT_Srv), write_u16 (rclass_to_u16 Class_In),
      write_u32 ttl,
      write_rdata [write_u16 priority, write_u16 weight, write_u16 port, write_name target],
      inc_authority]"

definition push_txt_authority :: "name \<Rightarrow> u32 \<Rightarrow> bytes list \<Rightarrow> unit build" where
  "push_txt_authority n ttl segments = bseq
     [write_name n, write_u16 (rtype_to_u16 RT_Txt), write_u16 (rclass_to_u16 Class_In),
      write_u32 ttl, write_rdata [write_txt_body segments], inc_authority]"

definition push_ptr_authority :: "name \<Rightarrow> u32 \<Rightarrow> name \<Rightarrow> unit build" where
  "push_ptr_authority n ttl target = bseq
     [write_name n, write_u16 (rtype_to_u16 RT_Ptr), write_u16 (rclass_to_u16 Class_In),
      write_u32 ttl, write_rdata [write_name target], inc_authority]"

fun nsec_bits :: "u16 list \<Rightarrow> bytes \<Rightarrow> nat option \<Rightarrow> bytes \<times> nat option" where
  "nsec_bits [] bitmap max_byte = (bitmap, max_byte)"
| "nsec_bits (t # ts) bitmap max_byte =
     (if 256 \<le> t then nsec_bits ts bitmap max_byte
      else
        let byte_idx = unat (drop_bit 3 t); m = drop_bit (unat (t AND 0x07)) (0x80 :: u8) in
        (case get bitmap byte_idx of
           None \<Rightarrow> nsec_bits ts bitmap max_byte
         | Some slot \<Rightarrow> nsec_bits ts (bitmap[byte_idx := slot OR m])
             (Some (case max_byte of None \<Rightarrow> byte_idx | Some k \<Rightarrow> max k byte_idx))))"

definition nsec_bitmap_body :: "u16 list \<Rightarrow> unit build" where
  "nsec_bitmap_body present_types =
     (let (bitmap, max_byte) = nsec_bits present_types (replicate 32 0) None in
      case max_byte of
        None \<Rightarrow> bseq []
      | Some max_byte \<Rightarrow>
          let blen = max_byte + 1 in
          bseq ([write_byte 0, write_byte (word_of_nat blen)] @
                map (\<lambda>i. write_byte (case get bitmap i of None \<Rightarrow> 0 | Some v \<Rightarrow> v)) [0..<blen]))"

definition push_nsec_additional :: "name \<Rightarrow> u32 \<Rightarrow> u16 list \<Rightarrow> bool \<Rightarrow> unit build" where
  "push_nsec_additional n ttl present_types cache_flush = bseq
     [write_name n, write_u16 (rtype_to_u16 RT_Nsec), write_u16 (class_flush cache_flush),
      write_u32 ttl, write_rdata [write_name n, nsec_bitmap_body present_types], inc_additional]"

definition builder_finish :: "builder \<Rightarrow> (encode_error + nat) \<times> bytes" where
  "builder_finish b =
     (case slice (b_out b) 0 HEADER_SIZE of
        None \<Rightarrow> (Inl (BufferTooSmall HEADER_SIZE 0), b_out b)
      | Some head_slot \<Rightarrow>
          (case header_write (b_header b) head_slot of
             Inl e \<Rightarrow> (Inl e, b_out b)
           | Inr (_, head) \<Rightarrow> (Inr (b_cursor b), head @ drop HEADER_SIZE (b_out b))))"

subsection \<open>What every operation keeps\<close>

text \<open>
  \<open>ext b b'\<close>: the octets before the cursor of \<open>b\<close> and its live compression entries are still there
  in \<open>b'\<close>.  It is a preorder that every operation satisfies, whether it succeeds or fails.
\<close>

definition ext :: "builder \<Rightarrow> builder \<Rightarrow> bool" where
  "ext b b' \<longleftrightarrow>
     length (b_out b') = length (b_out b) \<and> b_cursor b \<le> b_cursor b' \<and>
     (b_cursor b \<le> length (b_out b) \<longrightarrow> b_cursor b' \<le> length (b_out b)) \<and>
     take (b_cursor b) (b_out b') = take (b_cursor b) (b_out b) \<and>
     length (ct_entries (b_compression b')) = length (ct_entries (b_compression b)) \<and>
     ct_used (b_compression b) \<le> ct_used (b_compression b') \<and>
     (ct_used (b_compression b) \<le> length (ct_entries (b_compression b)) \<longrightarrow>
        ct_used (b_compression b') \<le> length (ct_entries (b_compression b))) \<and>
     take (ct_used (b_compression b)) (ct_entries (b_compression b'))
       = take (ct_used (b_compression b)) (ct_entries (b_compression b))"

definition keeps :: "'a build \<Rightarrow> bool" where
  "keeps m \<longleftrightarrow> (\<forall>b. ext b (snd (m b)))"

named_theorems keeps_intros "operations that keep what was written"

lemma ext_refl [simp]: "ext b b"
  by (simp add: ext_def)

lemma take_mono_eq: "take n xs = take n ys \<Longrightarrow> m \<le> n \<Longrightarrow> take m xs = take m ys"
  by (metis min.absorb1 take_take)

lemma ext_trans:
  assumes "ext a b" "ext b c"
  shows "ext a c"
proof -
  have "take (b_cursor a) (b_out c) = take (b_cursor a) (b_out b)"
    by (rule take_mono_eq [of "b_cursor b"]) (use assms in \<open>simp_all add: ext_def\<close>)
  moreover have "take (ct_used (b_compression a)) (ct_entries (b_compression c))
      = take (ct_used (b_compression a)) (ct_entries (b_compression b))"
    by (rule take_mono_eq [of "ct_used (b_compression b)"]) (use assms in \<open>simp_all add: ext_def\<close>)
  ultimately show ?thesis using assms unfolding ext_def by auto
qed

lemma bseq_last [simp]:
  "(case p of (Inl e, b') \<Rightarrow> (Inl e, b') | (Inr x, b') \<Rightarrow> bseq [] b') = p"
  by (cases p) (auto split: sum.splits)

lemma bseq_single: "bseq [m] b = m b"
  by simp

lemma bseq_append:
  "bseq (xs @ ys) b = (case bseq xs b of (Inl e, b') \<Rightarrow> (Inl e, b') | (Inr _, b') \<Rightarrow> bseq ys b')"
  by (induction xs arbitrary: b) (auto split: prod.splits sum.splits)

lemma keepsD: "keeps m \<Longrightarrow> m b = (r, b') \<Longrightarrow> ext b b'"
  by (metis keeps_def snd_conv)

lemma keeps_bseq: "(\<And>m. m \<in> set ms \<Longrightarrow> keeps m) \<Longrightarrow> keeps (bseq ms)"
proof (induction ms)
  case Nil
  then show ?case by (simp add: keeps_def)
next
  case (Cons m ms)
  show ?case unfolding keeps_def
  proof
    fix b
    obtain r b' where m: "m b = (r, b')" by (cases "m b")
    have "ext b b'" using keepsD [of m b r b'] m Cons.prems by simp
    moreover have "ext b' (snd (bseq ms b'))" using Cons by (simp add: keeps_def)
    ultimately show "ext b (snd (bseq (m # ms) b))"
      using m by (cases r) (auto intro: ext_trans)
  qed
qed

lemma keeps_bbind: "keeps m \<Longrightarrow> (\<And>x. keeps (f x)) \<Longrightarrow> keeps (bbind m f)"
  unfolding keeps_def bbind_def
  by (auto split: prod.splits sum.splits) (metis ext_trans snd_conv)+

lemma keeps_simple [keeps_intros]:
  "keeps (write_byte v)" "keeps (write_u16 w)" "keeps (write_u32 l)" "keeps (record_suffix h)"
  "keeps (set_header f)" "keeps (berr e)"
proof -
  show "keeps (write_byte v)" "keeps (set_header f)" "keeps (berr e)"
    by (auto simp: keeps_def ext_def write_byte_def set_header_def berr_def)
  show "keeps (write_u16 w)" "keeps (write_u32 l)"
    by (auto simp: keeps_def ext_def write_u16_def write_u32_def put_slice_def)
  show "keeps (record_suffix h)"
    by (auto simp: keeps_def ext_def record_suffix_def ct_insert_def split: option.splits)
qed

lemma keeps_incs [keeps_intros]:
  "keeps inc_question" "keeps inc_answer" "keeps inc_authority" "keeps inc_additional"
  by (simp_all add: inc_question_def inc_answer_def inc_authority_def inc_additional_def keeps_intros)

lemma keeps_write_bytes [keeps_intros]: "keeps (write_bytes bs)"
  unfolding write_bytes_def by (rule keeps_bseq) (auto simp: keeps_intros)

lemma keeps_emit_labels [keeps_intros]: "keeps (emit_labels ls k)"
proof (induction ls arbitrary: k)
  case Nil
  then show ?case by (cases k) (simp_all add: keeps_def)
next
  case (Cons l ls)
  show ?case
  proof (cases k)
    case (Suc j)
    have "keeps (bseq [record_suffix (hash_suffix (l # ls)), write_byte (word_of_nat (length l)),
                 write_bytes (map to_lower l), emit_labels ls j])"
      by (rule keeps_bseq) (auto simp: keeps_intros Cons.IH)
    then show ?thesis using Suc by (simp add: keeps_def)
  qed (simp add: keeps_def)
qed

lemma keeps_write_terminator [keeps_intros]: "keeps (write_terminator t)"
proof (cases t)
  case (Some off)
  have "keeps (bseq [write_byte (ptr_hi off), write_byte (ptr_lo off)])"
    by (rule keeps_bseq) (auto simp: keeps_intros)
  then show ?thesis by (simp add: write_terminator_def Some)
qed (simp add: write_terminator_def keeps_intros)

lemma keeps_write_name [keeps_intros]: "keeps (write_name n)"
proof -
  have "keeps (bseq [emit_labels ls k, write_terminator t])" for ls k t
    by (rule keeps_bseq) (auto simp: keeps_intros)
  then show ?thesis
    using keeps_simple(1) [of 0]
    by (auto simp: keeps_def write_name_def Let_def split: option.splits prod.splits)
qed

lemma keeps_write_rdata [keeps_intros]:
  assumes "\<And>m. m \<in> set body \<Longrightarrow> keeps m"
  shows "keeps (write_rdata body)"
  unfolding keeps_def
proof
  fix b :: builder
  let ?c = "b_cursor b"
  show "ext b (snd (write_rdata body b))"
  proof (cases "put_slice (b_out b) ?c (to_be16 0)")
    case None
    then show ?thesis by (simp add: write_rdata_def with_cursor_def write_u16_def)
  next
    case (Some out)
    let ?b1 = "b\<lparr>b_out := out, b_cursor := ?c + 2\<rparr>"
    have b1: "ext b ?b1" using keepsD [of "write_u16 0" b "Inr ()" ?b1] keeps_simple(2) Some
      by (simp add: write_u16_def)
    obtain r b2 where body: "bseq body ?b1 = (r, b2)" by (cases "bseq body ?b1")
    have b2: "ext ?b1 b2" using keepsD [of "bseq body" ?b1 r b2] keeps_bseq [of body] assms body by blast
    have run: "write_rdata body b = (case r of Inl e \<Rightarrow> (Inl e, b2) | Inr _ \<Rightarrow> patch_rdlen ?c (?c + 2) b2)"
      using Some body by (simp add: write_rdata_def with_cursor_def write_u16_def bseq_append split: sum.splits)
    have "ext b (snd (patch_rdlen ?c (?c + 2) b2))"
      using ext_trans [OF b1 b2]
      by (auto simp: patch_rdlen_def ext_def put_slice_def split: option.splits)
    then show ?thesis using ext_trans [OF b1 b2] unfolding run
      by (auto split: sum.splits prod.splits)
  qed
qed

lemma keeps_write_txt [keeps_intros]: "keeps (write_txt_body segments)"
proof -
  have seg: "keeps (write_txt_segments segments w)" for w
  proof (induction segments arbitrary: w)
    case (Cons s segments)
    have "keeps (bseq [write_byte (word_of_nat (length s)), write_bytes s])"
      by (rule keeps_bseq) (auto simp: keeps_intros)
    with Cons.IH show ?case
      by (auto simp: keeps_def split: prod.splits sum.splits) (metis ext_trans snd_conv)+
  qed (simp add: keeps_def)
  show ?thesis unfolding write_txt_body_def
    by (rule keeps_bbind [OF seg]) (auto intro: keeps_bseq simp: keeps_intros)
qed

lemma keeps_nsec_bitmap [keeps_intros]: "keeps (nsec_bitmap_body ts)"
  unfolding nsec_bitmap_body_def Let_def
  by (auto split: prod.splits option.splits intro!: keeps_bseq simp: keeps_intros simp del: upt_Suc)

lemma keeps_push [keeps_intros]:
  "keeps (push_question n t c u)"
  "keeps (push_a_answer n l a f)" "keeps (push_aaaa_answer n l a f)"
  "keeps (push_srv_answer n l p w q tg f)" "keeps (push_txt_answer n l segs f)"
  "keeps (push_ptr_answer n l tg)"
  "keeps (push_a_authority n l a)" "keeps (push_aaaa_authority n l a)"
  "keeps (push_srv_authority n l p w q tg)" "keeps (push_txt_authority n l segs)"
  "keeps (push_ptr_authority n l tg)" "keeps (push_nsec_additional n l ts f)"
  unfolding push_question_def push_a_answer_def push_aaaa_answer_def push_srv_answer_def
    push_txt_answer_def push_ptr_answer_def push_a_authority_def push_aaaa_authority_def
    push_srv_authority_def push_txt_authority_def push_ptr_authority_def push_nsec_additional_def
  by (rule keeps_bseq, auto simp: keeps_intros intro!: keeps_write_rdata)+

end
