(* ===== verification/BuilderNames.thy ===== *)
theory BuilderNames
  imports WireBuilder
begin

text \<open>
  Names written with compression read back as themselves.  \<open>name_over P m c h ls\<close> is the reading
  relation of \<open>WireName\<close> restricted to octets at positions in \<open>P\<close>, so that overwriting octets
  outside \<open>P\<close> (a patched RDLENGTH, the header) does not disturb it.  A compression table is sound
  when each live entry points, below the 14-bit limit of a pointer, at a name with the entry's hash,
  read through no more pointers than the entry's index.
\<close>

subsection \<open>Reading over a set of positions\<close>

inductive name_over :: "nat set \<Rightarrow> bytes \<Rightarrow> nat \<Rightarrow> nat \<Rightarrow> bytes list \<Rightarrow> bool" for P where
  over_root: "c \<in> P \<Longrightarrow> get m c = Some 0 \<Longrightarrow> name_over P m c 0 []"
| over_label: "\<lbrakk>get m c = Some k; 1 \<le> unat k; unat k \<le> MAX_LABEL_BYTES; {c..c + unat k} \<subseteq> P;
     slice m (c + 1) (c + 1 + unat k) = Some l; name_over P m (c + 1 + unat k) h ls\<rbrakk>
     \<Longrightarrow> name_over P m c h (l # ls)"
| over_ptr: "\<lbrakk>get m c = Some k; 192 \<le> unat k; get m (c + 1) = Some s; {c, c + 1} \<subseteq> P;
     unat (ptr_target k s) < c; name_over P m (unat (ptr_target k s)) h ls\<rbrakk>
     \<Longrightarrow> name_over P m c (Suc h) ls"

lemma name_over_at: "name_over P m c h ls \<Longrightarrow> name_at m c h ls"
  by (induction rule: name_over.induct) (auto intro: name_at.intros simp del: One_nat_def)

lemma name_over_mono: "name_over P m c h ls \<Longrightarrow> P \<subseteq> Q \<Longrightarrow> name_over Q m c h ls"
proof (induction rule: name_over.induct)
  case (over_label m c k l h ls)
  then show ?case by (intro name_over.over_label) auto
next
  case (over_ptr m c k s h ls)
  then show ?case by (intro name_over.over_ptr) auto
qed (auto intro: over_root)

lemma slice_agree:
  assumes "slice m a b = Some l" "a < b" "\<forall>i\<in>{a..<b}. i < length m' \<and> m' ! i = m ! i"
  shows "slice m' a b = Some l"
proof -
  from assms(1) have b: "b \<le> length m" "l = take (b - a) (drop a m)"
    by (auto simp: slice_Some_iff)
  have "b - 1 \<in> {a..<b}" using assms(2) by auto
  with assms(3) have "b - 1 < length m'" by blast
  then have "b \<le> length m'" by simp
  moreover have "take (b - a) (drop a m') = l"
    using b assms(2,3) calculation by (intro nth_equalityI) auto
  ultimately show ?thesis using assms(2) by (simp add: slice_Some_iff)
qed

lemma name_over_frame:
  assumes "name_over P m c h ls" "\<forall>i\<in>P. i < length m \<longrightarrow> i < length m' \<and> m' ! i = m ! i"
  shows "name_over P m' c h ls"
  using assms
proof (induction rule: name_over.induct)
  case (over_root c m)
  then show ?case by (auto intro!: name_over.over_root simp: get_Some)
next
  case (over_label m c k l h ls)
  from over_label.hyps(5) have le: "c + 1 + unat k \<le> length m" by (simp add: slice_Some_iff)
  have agree: "i < length m' \<and> m' ! i = m ! i" if "c \<le> i" "i < c + 1 + unat k" for i
  proof -
    from that over_label.hyps(4) have "i \<in> P" by auto
    with that over_label.prems le show ?thesis by auto
  qed
  have "get m' c = Some k" using agree [of c] over_label.hyps(1,2) by (simp add: get_Some)
  moreover have "slice m' (c + 1) (c + 1 + unat k) = Some l"
    using slice_agree [OF over_label.hyps(5)] agree over_label.hyps(2) by simp
  ultimately show ?case
    using over_label.hyps over_label.IH [OF over_label.prems] by (intro name_over.over_label)
next
  case (over_ptr m c k s h ls)
  then have "get m' c = Some k" "get m' (c + 1) = Some s" by (auto simp: get_Some)
  then show ?case using over_ptr by (intro name_over.over_ptr)
qed

lemma name_over_start: "name_over P m c h ls \<Longrightarrow> c \<in> P"
  by (induction rule: name_over.induct) auto

subsection \<open>Pointers\<close>

lemma bit_0xC0: "bit (0xC0 :: u8) n \<longleftrightarrow> n = 6 \<or> n = 7"
proof -
  have "(0xC0 :: u8) = push_bit 6 (mask 2)" by (simp add: mask_eq_exp_minus_1)
  then show ?thesis unfolding \<open>(0xC0 :: u8) = _\<close> bit_push_bit_iff bit_mask_iff by auto
qed

lemma unat_ptr_hi: "unat (ptr_hi off) = 192 + unat off div 256 mod 64"
proof -
  let ?x = "ucast (drop_bit 8 off) :: u8"
  have "drop_bit 6 (ptr_hi off) = 3"
  proof (rule bit_word_eqI)
    fix n assume "n < LENGTH(8)"
    have "bit (3 :: u8) n \<longleftrightarrow> n < 2"
    proof -
      have "(3 :: u8) = mask 2" by (simp add: mask_eq_exp_minus_1)
      then show ?thesis unfolding \<open>(3 :: u8) = _\<close> bit_mask_iff by auto
    qed
    then show "bit (drop_bit 6 (ptr_hi off)) n \<longleftrightarrow> bit (3 :: u8) n"
      unfolding ptr_hi_def bit_drop_bit_eq bit_or_iff bit_0xC0 comp_def
      by (auto dest: bit_imp_le_length)
  qed
  then have d: "unat (ptr_hi off) div 64 = 3" using unat_drop_bit6 [of "ptr_hi off"] by simp
  have "take_bit 6 (ptr_hi off) = take_bit 6 ?x"
    unfolding ptr_hi_def
    by (rule bit_word_eqI) (auto simp only: bit_take_bit_iff bit_or_iff bit_0xC0)
  then have "unat (take_bit 6 (ptr_hi off)) = unat (take_bit 6 ?x)" by simp
  then have m: "unat (ptr_hi off) mod 64 = unat ?x mod 64"
    by (simp add: take_bit_eq_mod unat_mod)
  have "unat off \<le> 65535" by simp
  then have "unat off div 256 < 256" by linarith
  then have "unat ?x = unat off div 256"
    by (simp add: unsigned_ucast_eq take_bit_eq_mod drop_bit_eq_div unat_div)
  then have "unat (ptr_hi off) mod 64 = unat off div 256 mod 64" using m by simp
  then show ?thesis using div_mult_mod_eq [of "unat (ptr_hi off)" 64] d by linarith
qed

lemma unat_ptr_lo: "unat (ptr_lo off) = unat off mod 256"
proof -
  have "(0x00FF :: u16) = mask 8" by (simp add: mask_eq_exp_minus_1)
  then have "off AND 0x00FF = take_bit 8 off" by (simp add: take_bit_eq_mask)
  then have "unat (off AND 0x00FF) = unat off mod 256" by (simp add: take_bit_eq_mod unat_mod)
  then show ?thesis by (simp add: ptr_lo_def unsigned_ucast_eq take_bit_eq_mod)
qed

lemma ptr_roundtrip: "unat (ptr_target (ptr_hi off) (ptr_lo off)) = unat off mod 16384"
proof -
  have "(192 + x mod 64) mod 64 = x mod (64 :: nat)" for x
  proof -
    have "(192 + x mod 64) mod 64 = (192 + x) mod 64" by (rule mod_add_right_eq)
    also have "\<dots> = (x + 64 * 3) mod 64" by (simp add: add.commute)
    finally show ?thesis by (simp only: mod_mult_self2)
  qed
  then have "unat (ptr_target (ptr_hi off) (ptr_lo off)) = (unat off div 256 mod 64) * 256 + unat off mod 256"
    by (simp add: unat_ptr_target unat_ptr_hi unat_ptr_lo)
  also have "\<dots> = unat off mod (256 * 64)" unfolding mod_mult2_eq by simp
  finally show ?thesis by simp
qed

subsection \<open>Successful writes\<close>

definition wrote :: "builder \<Rightarrow> builder \<Rightarrow> bytes \<Rightarrow> bool" where
  "wrote b b' bs \<longleftrightarrow>
     length (b_out b') = length (b_out b) \<and> b_cursor b' = b_cursor b + length bs \<and>
     b_cursor b' \<le> length (b_out b) \<and> take (b_cursor b') (b_out b') = take (b_cursor b) (b_out b) @ bs \<and>
     b_header b' = b_header b"

lemma wrote_trans:
  assumes "wrote a b xs" "wrote b c ys"
  shows "wrote a c (xs @ ys)"
  using assms by (auto simp: wrote_def)

lemma wrote_refl: "b_cursor b \<le> length (b_out b) \<Longrightarrow> wrote b b []"
  by (simp add: wrote_def)

lemma write_byte_wrote:
  "write_byte v b = (Inr u, b') \<Longrightarrow> wrote b b' [v] \<and> b_compression b' = b_compression b"
  by (auto simp: write_byte_def wrote_def take_Suc_conv_app_nth split: if_splits)

lemma put_slice_wrote:
  "put_slice xs a ys = Some zs \<Longrightarrow>
     length zs = length xs \<and> a + length ys \<le> length xs \<and> take (a + length ys) zs = take a xs @ ys"
  by (auto simp: put_slice_Some_iff)

lemma write_u16_wrote:
  "write_u16 v b = (Inr u, b') \<Longrightarrow> wrote b b' (to_be16 v) \<and> b_compression b' = b_compression b"
  using put_slice_wrote [of "b_out b" "b_cursor b" "to_be16 v"]
  by (auto simp: write_u16_def wrote_def split: option.splits)

lemma write_u32_wrote:
  "write_u32 v b = (Inr u, b') \<Longrightarrow> wrote b b' (to_be32 v) \<and> b_compression b' = b_compression b"
  using put_slice_wrote [of "b_out b" "b_cursor b" "to_be32 v"]
  by (auto simp: write_u32_def wrote_def split: option.splits)

lemma bseq_Inr:
  "bseq (m # ms) b = (Inr u, b') \<longleftrightarrow> (\<exists>b1. m b = (Inr (), b1) \<and> bseq ms b1 = (Inr u, b'))"
  by (auto split: prod.splits sum.splits)

lemma bseq_append_Inr:
  "bseq (xs @ ys) b = (Inr u, b') \<longleftrightarrow> (\<exists>b1. bseq xs b = (Inr (), b1) \<and> bseq ys b1 = (Inr u, b'))"
  by (auto simp: bseq_append split: prod.splits sum.splits)

lemma bseq_Nil_Inr: "bseq [] b = (Inr u, b') \<longleftrightarrow> b' = b"
  by auto

lemma write_bytes_wrote:
  "write_bytes bs b = (Inr u, b') \<Longrightarrow> b_cursor b \<le> length (b_out b) \<Longrightarrow>
     wrote b b' bs \<and> b_compression b' = b_compression b"
proof (induction bs arbitrary: b)
  case Nil
  then show ?case by (simp add: write_bytes_def wrote_refl)
next
  case (Cons v bs)
  then obtain b1 where b1: "write_byte v b = (Inr (), b1)" and rest: "write_bytes bs b1 = (Inr u, b')"
    by (auto simp: write_bytes_def bseq_Inr simp del: bseq.simps)
  from write_byte_wrote [OF b1] have w: "wrote b b1 [v]" "b_compression b1 = b_compression b" by auto
  then have "b_cursor b1 \<le> length (b_out b1)" by (simp add: wrote_def)
  from Cons.IH [OF rest this] w wrote_trans [of b b1 "[v]" b' bs] show ?case by auto
qed

lemma wrote_nth_old: "wrote b b' bs \<Longrightarrow> i < b_cursor b \<Longrightarrow> b_out b' ! i = b_out b ! i"
proof -
  assume w: "wrote b b' bs" and i: "i < b_cursor b"
  from w have c: "b_cursor b' = b_cursor b + length bs" "b_cursor b' \<le> length (b_out b)"
    and t: "take (b_cursor b') (b_out b') = take (b_cursor b) (b_out b) @ bs"
    unfolding wrote_def by blast+
  from i c have "b_out b' ! i = take (b_cursor b') (b_out b') ! i" by simp
  also have "\<dots> = b_out b ! i" unfolding t using i c by (simp add: nth_append)
  finally show ?thesis .
qed

lemma wrote_slice:
  "wrote b b' bs \<Longrightarrow> take (length bs) (drop (b_cursor b) (b_out b')) = bs"
proof -
  assume w: "wrote b b' bs"
  then have c: "b_cursor b' = b_cursor b + length bs" "b_cursor b' \<le> length (b_out b)"
    and t: "take (b_cursor b') (b_out b') = take (b_cursor b) (b_out b) @ bs"
    unfolding wrote_def by blast+
  have "take (length bs) (drop (b_cursor b) (b_out b'))
      = drop (b_cursor b) (take (b_cursor b') (b_out b'))"
    unfolding c(1) by (simp add: drop_take)
  also have "\<dots> = bs" unfolding t using c by simp
  finally show ?thesis .
qed

subsection \<open>The compression table as a list\<close>

definition ct_list :: "compression_table \<Rightarrow> (u64 \<times> u16) list" where
  "ct_list ct = take (ct_used ct) (ct_entries ct)"

definition ct_ok :: "compression_table \<Rightarrow> bool" where
  "ct_ok ct \<longleftrightarrow> ct_used ct \<le> length (ct_entries ct)"

lemma ct_new_simps [simp]: "ct_list (ct_new n) = []" "ct_ok (ct_new n)"
  by (simp_all add: ct_list_def ct_ok_def ct_new_def)

lemma length_ct_list: "ct_ok ct \<Longrightarrow> length (ct_list ct) = ct_used ct"
  by (simp add: ct_list_def ct_ok_def)

lemma ct_insert_list:
  "ct_ok ct \<Longrightarrow> ct_ok (ct_insert ct h off) \<and>
     length (ct_entries (ct_insert ct h off)) = length (ct_entries ct) \<and>
     ct_list (ct_insert ct h off) = take (length (ct_entries ct)) (ct_list ct @ [(h, off)])"
  by (auto simp: ct_insert_def ct_list_def ct_ok_def take_Suc_conv_app_nth)

lemma ct_lookup_loop_eq:
  "ct_ok ct \<Longrightarrow> ct_lookup_loop ct h i = map_of (drop i (ct_list ct)) h"
proof (induction ct h i rule: ct_lookup_loop.induct)
  case (1 ct h i)
  show ?case
  proof (cases "i < ct_used ct")
    case True
    then have i: "i < length (ct_entries ct)" using 1(2) by (simp add: ct_ok_def)
    then have "drop i (ct_list ct) = ct_entries ct ! i # drop (Suc i) (ct_list ct)"
      using True by (simp add: ct_list_def Cons_nth_drop_Suc [symmetric] drop_take take_Cons')
    then show ?thesis using 1 True i
      by (subst ct_lookup_loop.simps) (auto simp: get_def)
  next
    case False
    then show ?thesis by (subst ct_lookup_loop.simps) (simp add: ct_list_def)
  qed
qed

lemma ct_lookup_eq: "ct_ok ct \<Longrightarrow> ct_lookup ct h = map_of (ct_list ct) h"
  by (simp add: ct_lookup_def ct_lookup_loop_eq)

lemma find_suffix_Some:
  "ct_ok ct \<Longrightarrow> find_suffix ct i ls = Some (j, off) \<Longrightarrow>
     i \<le> j \<and> j - i < length ls \<and> (hash_suffix (drop (j - i) ls), off) \<in> set (ct_list ct)"
proof (induction ct i ls rule: find_suffix.induct)
  case (2 ct i l ls)
  show ?case
  proof (cases "ct_lookup ct (hash_suffix (l # ls))")
    case None
    with 2(1) [OF None 2(2)] 2(3) have "i + 1 \<le> j" "j - (i + 1) < length ls"
      "(hash_suffix (drop (j - (i + 1)) ls), off) \<in> set (ct_list ct)" by auto
    moreover from this have "j - i = Suc (j - (i + 1))" by linarith
    then have "drop (j - i) (l # ls) = drop (j - (i + 1)) ls" by simp
    ultimately show ?thesis by auto
  next
    case (Some a)
    with 2(2,3) show ?thesis by (auto simp: ct_lookup_eq dest: map_of_SomeD)
  qed
qed simp

subsection \<open>Emitted labels\<close>

definition enc_label :: "bytes \<Rightarrow> bytes" where
  "enc_label l = word_of_nat (length l) # lower l"

definition emit_bytes :: "bytes list \<Rightarrow> nat \<Rightarrow> bytes" where
  "emit_bytes ls k = concat (map enc_label (take k ls))"

fun suffix_entries :: "bytes list \<Rightarrow> nat \<Rightarrow> nat \<Rightarrow> (u64 \<times> u16) list" where
  "suffix_entries (l # ls) (Suc k) c =
     (hash_suffix (l # ls), word_of_nat c) # suffix_entries ls k (c + 1 + length l)"
| "suffix_entries ls k c = []"

definition insert_all :: "compression_table \<Rightarrow> (u64 \<times> u16) list \<Rightarrow> compression_table" where
  "insert_all ct es = foldl (\<lambda>ct (h, off). ct_insert ct h off) ct es"

lemma take_snoc_append:
  "length xs \<le> n \<Longrightarrow> take n (take n (xs @ [y]) @ ys) = take n (xs @ y # ys)"
  by (cases "n - length xs") (auto simp: min_def Suc_diff_Suc take_Cons')

lemma insert_all_list:
  "ct_ok ct \<Longrightarrow> ct_ok (insert_all ct es) \<and>
     length (ct_entries (insert_all ct es)) = length (ct_entries ct) \<and>
     ct_list (insert_all ct es) = take (length (ct_entries ct)) (ct_list ct @ es)"
proof (induction es arbitrary: ct)
  case Nil
  then show ?case by (simp add: insert_all_def ct_list_def ct_ok_def)
next
  case (Cons e es)
  obtain h off where e: "e = (h, off)" by (cases e)
  note ins = ct_insert_list [OF Cons.prems, of h off]
  have "insert_all ct (e # es) = insert_all (ct_insert ct h off) es"
    by (simp add: insert_all_def e)
  moreover have "ct_list (insert_all (ct_insert ct h off) es)
      = take (length (ct_entries ct)) (take (length (ct_entries ct)) (ct_list ct @ [(h, off)]) @ es)"
    using Cons.IH [of "ct_insert ct h off"] ins by simp
  moreover have "\<dots> = take (length (ct_entries ct)) (ct_list ct @ e # es)"
    unfolding e using Cons.prems by (intro take_snoc_append) (simp add: length_ct_list ct_ok_def)
  ultimately show ?case using Cons.IH [of "ct_insert ct h off"] ins by simp
qed

lemma emit_labels_wrote:
  assumes "emit_labels ls k b = (Inr u, b')" "k \<le> length ls" "b_cursor b \<le> length (b_out b)"
  shows "wrote b b' (emit_bytes ls k) \<and>
    b_compression b' = insert_all (b_compression b) (suffix_entries ls k (b_cursor b)) \<and>
    (\<forall>l\<in>set (take k ls). length l \<le> MAX_LABEL_BYTES)"
  using assms
proof (induction ls arbitrary: k b)
  case (Cons l ls k0 b)
  show ?case
  proof (cases k0)
    case 0
    with Cons.prems show ?thesis by (auto simp: emit_bytes_def insert_all_def wrote_refl)
  next
    case (Suc k)
    note prems = Cons.prems [unfolded Suc]
  have small: "length l \<le> MAX_LABEL_BYTES" using prems(1) by (auto split: if_splits)
  obtain b1 b2 b3 where
    r: "record_suffix (hash_suffix (l # ls)) b = (Inr (), b1)" and
    len: "write_byte (word_of_nat (length l)) b1 = (Inr (), b2)" and
    bs: "write_bytes (map to_lower l) b2 = (Inr (), b3)" and
    rest: "emit_labels ls k b3 = (Inr u, b')"
    using prems(1) small by (auto simp: bseq_Inr bseq_Nil_Inr not_less simp del: bseq.simps)
  from r have b1: "b1 = b\<lparr>b_compression := ct_insert (b_compression b) (hash_suffix (l # ls)) (word_of_nat (b_cursor b))\<rparr>"
    by (auto simp: record_suffix_def u16_try_from_def split: if_splits)
  from write_byte_wrote [OF len] have w2: "wrote b1 b2 [word_of_nat (length l)]"
    "b_compression b2 = b_compression b1" by auto
  then have c2: "b_cursor b2 \<le> length (b_out b2)" by (simp add: wrote_def)
  from write_bytes_wrote [OF bs c2] have w3: "wrote b2 b3 (lower l)" "b_compression b3 = b_compression b2"
    by (auto simp: lower_def)
  have w: "wrote b b3 (enc_label l)"
    using wrote_trans [OF w2(1) w3(1)] by (auto simp: wrote_def b1 enc_label_def)
  then have c3: "b_cursor b3 \<le> length (b_out b3)" and cur: "b_cursor b3 = b_cursor b + 1 + length l"
    by (auto simp: wrote_def enc_label_def)
  from Cons.IH [OF rest _ c3] prems(2) have IH: "wrote b3 b' (emit_bytes ls k)"
    "b_compression b' = insert_all (b_compression b3) (suffix_entries ls k (b_cursor b3))"
    "\<forall>l\<in>set (take k ls). length l \<le> MAX_LABEL_BYTES" by auto
  have "wrote b b' (emit_bytes (l # ls) (Suc k))"
    using wrote_trans [OF w IH(1)] by (simp add: emit_bytes_def)
  moreover have "b_compression b'
      = insert_all (b_compression b) (suffix_entries (l # ls) (Suc k) (b_cursor b))"
    using IH(2) w3(2) w2(2) by (simp add: insert_all_def b1 cur)
  ultimately show ?thesis using Suc IH(3) small by simp
  qed
qed (auto simp: emit_bytes_def insert_all_def wrote_refl)

subsection \<open>Sound tables\<close>

text \<open>
  \<open>S\<close> is a set of folded label sequences on which the hash is injective (no two names of the
  message collide) and \<open>P\<close> the positions that names occupy.
\<close>

definition suffixes_in :: "bytes list set \<Rightarrow> bytes list \<Rightarrow> bool" where
  "suffixes_in S ls \<longleftrightarrow> (\<forall>j<length ls. map lower (drop j ls) \<in> S)"

definition entry_sound :: "bytes list set \<Rightarrow> nat set \<Rightarrow> bytes \<Rightarrow> nat \<Rightarrow> u64 \<times> u16 \<Rightarrow> bool" where
  "entry_sound S P out i e \<longleftrightarrow>
     unat (snd e) < 16384 \<and>
     (\<exists>ls h. ls \<in> S \<and> hash_suffix ls = fst e \<and> h \<le> i \<and> name_over P out (unat (snd e)) h ls)"

definition table_sound :: "bytes list set \<Rightarrow> nat set \<Rightarrow> builder \<Rightarrow> bool" where
  "table_sound S P b \<longleftrightarrow>
     P \<subseteq> {HEADER_SIZE..<b_cursor b} \<and> HEADER_SIZE \<le> b_cursor b \<and> b_cursor b \<le> length (b_out b) \<and>
     ct_ok (b_compression b) \<and>
     (\<forall>i<length (ct_list (b_compression b)).
        entry_sound S P (b_out b) i (ct_list (b_compression b) ! i))"

lemma entry_sound_mono:
  assumes "entry_sound S P out i e" "P \<subseteq> Q" "i \<le> j"
    and "\<forall>p\<in>P. p < length out \<longrightarrow> p < length out' \<and> out' ! p = out ! p"
  shows "entry_sound S Q out' j e"
proof -
  from assms(1) obtain ls h where *: "unat (snd e) < 16384" "ls \<in> S" "hash_suffix ls = fst e" "h \<le> i"
    "name_over P out (unat (snd e)) h ls" by (auto simp: entry_sound_def)
  have "name_over Q out' (unat (snd e)) h ls"
    using name_over_mono [OF name_over_frame [OF *(5) assms(4)] assms(2)] .
  with * assms(3) show ?thesis unfolding entry_sound_def by (meson le_trans)
qed

lemma hash_label_lower [simp]: "hash_label h (lower l) = hash_label h l"
proof -
  have "foldl hash_octet h (map to_lower l) = foldl hash_octet h l" for h
    by (induction l arbitrary: h) (simp_all add: hash_octet_def)
  then show ?thesis by (simp add: hash_label_def lower_def)
qed

lemma hash_suffix_lower [simp]: "hash_suffix (map lower ls) = hash_suffix ls"
proof -
  have "foldl hash_label h (map lower ls) = foldl hash_label h ls" for h
    by (induction ls arbitrary: h) simp_all
  then show ?thesis by (simp add: hash_suffix_def)
qed

text \<open>The name that an inline label begins, given the name that follows it.\<close>

lemma enc_label_over:
  assumes "take (Suc (length l)) (drop c out) = enc_label l" "c + Suc (length l) \<le> length out"
    "label_ok l" "{c..<c + Suc (length l)} \<subseteq> P" "name_over P out (c + Suc (length l)) h ls"
  shows "name_over P out c h (lower l # ls)"
proof (rule over_label)
  have len: "unat (word_of_nat (length l) :: u8) = length l" using unat_label_len [OF assms(3)] .
  have hd: "out ! c = word_of_nat (length l)"
  proof -
    have "out ! c = take (Suc (length l)) (drop c out) ! 0" using assms(2) by simp
    then show ?thesis unfolding assms(1) by (simp add: enc_label_def)
  qed
  then show "get out c = Some (word_of_nat (length l))" using assms(2) by (simp add: get_def)
  show "1 \<le> unat (word_of_nat (length l) :: u8)" "unat (word_of_nat (length l) :: u8) \<le> MAX_LABEL_BYTES"
    using assms(3) unfolding len by (simp_all add: label_ok_def)
  show "{c..c + unat (word_of_nat (length l) :: u8)} \<subseteq> P"
    using assms(4) unfolding len by (auto simp: subset_eq)
  have "take (length l) (drop (c + 1) out) = drop 1 (take (Suc (length l)) (drop c out))"
    by (simp add: drop_take)
  also have "\<dots> = lower l" unfolding assms(1) by (simp add: enc_label_def)
  finally show "slice out (c + 1) (c + 1 + unat (word_of_nat (length l) :: u8)) = Some (lower l)"
    unfolding len using assms(2) by (simp add: slice_def)
  show "name_over P out (c + 1 + unat (word_of_nat (length l) :: u8)) h ls"
    using assms(5) unfolding len by simp
qed

lemma length_emit_bytes_Suc:
  "length (emit_bytes (l # ls) (Suc k)) = Suc (length l) + length (emit_bytes ls k)"
  by (simp add: emit_bytes_def enc_label_def)

lemma emit_bytes_over:
  assumes "take (length (emit_bytes ls k)) (drop c out) = emit_bytes ls k"
    "c + length (emit_bytes ls k) \<le> length out" "list_all label_ok ls" "k \<le> length ls"
    "{c..<c + length (emit_bytes ls k)} \<subseteq> P"
    "name_over P out (c + length (emit_bytes ls k)) h (map lower (drop k ls))"
    "c + length (emit_bytes ls k) \<le> 16384" "suffixes_in S ls"
  shows "name_over P out c h (map lower ls) \<and>
    (\<forall>e\<in>set (suffix_entries ls k c). entry_sound S P out h e)"
  using assms
proof (induction ls k c rule: suffix_entries.induct)
  case (1 l ls k c)
  let ?e = "emit_bytes ls k" and ?c = "c + 1 + length l"
  have e: "emit_bytes (l # ls) (Suc k) = enc_label l @ ?e" by (simp add: emit_bytes_def)
  have el: "length (enc_label l) = Suc (length l)" by (simp add: enc_label_def)
  have t1: "take (Suc (length l)) (drop c out) = enc_label l"
  proof -
    have "take (Suc (length l)) (drop c out)
        = take (Suc (length l)) (take (length (enc_label l @ ?e)) (drop c out))"
      by (simp add: el min_def)
    also have "\<dots> = enc_label l" using "1.prems"(1) unfolding e by (simp add: el)
    finally show ?thesis .
  qed
  have t2: "take (length ?e) (drop ?c out) = ?e"
  proof -
    have "take (length ?e) (drop ?c out)
        = drop (Suc (length l)) (take (length (enc_label l @ ?e)) (drop c out))"
      by (simp add: el drop_take add.commute)
    also have "\<dots> = ?e" using "1.prems"(1) unfolding e by (simp add: el)
    finally show ?thesis .
  qed
  have suf: "suffixes_in S ls" "map lower (l # ls) \<in> S"
    using "1.prems"(8) by (auto simp: suffixes_in_def)
  have IH: "name_over P out ?c h (map lower ls)"
    "\<forall>e\<in>set (suffix_entries ls k ?c). entry_sound S P out h e"
    using "1.IH" t2 "1.prems" suf(1) by (auto simp: length_emit_bytes_Suc add.assoc subset_eq)
  have over: "name_over P out c h (lower l # map lower ls)"
    using t1 "1.prems" IH(1) by (intro enc_label_over) (auto simp: length_emit_bytes_Suc subset_eq)
  have c: "unat (word_of_nat c :: u16) = c"
    using "1.prems"(7) unfolding unat_u16_of_nat by (simp add: length_emit_bytes_Suc)
  have "hash_suffix (map lower (l # ls)) = hash_suffix (l # ls)" by (rule hash_suffix_lower)
  then have "entry_sound S P out h (hash_suffix (l # ls), word_of_nat c)"
    unfolding entry_sound_def snd_conv fst_conv c
    using over suf(2) "1.prems"(7) by (auto simp: length_emit_bytes_Suc)
  with IH(2) over show ?case by simp
qed (auto simp: emit_bytes_def)

subsection \<open>Writing a name\<close>

definition term_bytes :: "u16 option \<Rightarrow> bytes" where
  "term_bytes t = (case t of None \<Rightarrow> [0] | Some off \<Rightarrow> [ptr_hi off, ptr_lo off])"

definition is_name_bytes :: "bytes \<Rightarrow> bool" where
  "is_name_bytes nb \<longleftrightarrow> (\<exists>ls k t. nb = emit_bytes ls k @ term_bytes t \<and> list_all label_ok ls \<and> k \<le> length ls)"

lemma write_terminator_wrote:
  "write_terminator t b = (Inr u, b') \<Longrightarrow>
     wrote b b' (term_bytes t) \<and> b_compression b' = b_compression b"
proof (cases t)
  case (Some off)
  assume "write_terminator t b = (Inr u, b')"
  then obtain b1 where "write_byte (ptr_hi off) b = (Inr (), b1)" "write_byte (ptr_lo off) b1 = (Inr (), b')"
    by (auto simp: write_terminator_def Some bseq_Inr bseq_Nil_Inr simp del: bseq.simps)
  then show ?thesis
    using write_byte_wrote [of "ptr_hi off" b "()" b1] write_byte_wrote [of "ptr_lo off" b1 "()" b']
      wrote_trans [of b b1 "[ptr_hi off]" b' "[ptr_lo off]"]
    by (simp add: term_bytes_def Some)
qed (auto simp: write_terminator_def term_bytes_def dest: write_byte_wrote)

lemma name_ok_labels:
  assumes "name_ok n"
  shows "list_all label_ok (name_labels n)" "wire_octets_of (name_labels n) \<le> MAX_NAME_BYTES"
    "map lower (name_labels n) = name_labels n"
    "as_str n \<noteq> [] \<Longrightarrow> split_dot (strip_dot (as_str n)) = name_labels n"
    "as_str n = [] \<Longrightarrow> name_labels n = []"
proof -
  show "list_all label_ok (name_labels n)" "wire_octets_of (name_labels n) \<le> MAX_NAME_BYTES"
    using assms valid_str_labels [of "as_str n"] by (auto simp: name_ok_def name_labels_def)
  show "map lower (name_labels n) = name_labels n" by (rule name_ok_labels_lower [OF assms])
  show "split_dot (strip_dot (as_str n)) = name_labels n" if "as_str n \<noteq> []"
  proof -
    have "strip_dot (as_str n) \<noteq> []"
      using that assms validate_name_dot by (auto simp: strip_dot_Nil_iff name_ok_def)
    then show ?thesis by (simp add: name_labels_def labels_of_str_def)
  qed
  show "name_labels n = []" if "as_str n = []"
    using that by (simp add: name_labels_def labels_of_str_def strip_dot_def)
qed

lemma wrote_get:
  "wrote b b' bs \<Longrightarrow> i < length bs \<Longrightarrow> get (b_out b') (b_cursor b + i) = Some (bs ! i)"
proof -
  assume w: "wrote b b' bs" and i: "i < length bs"
  have "take (length bs) (drop (b_cursor b) (b_out b')) ! i = bs ! i"
    using wrote_slice [OF w] by simp
  moreover have "b_cursor b + length bs \<le> length (b_out b')" using w by (auto simp: wrote_def)
  ultimately show ?thesis using i by (simp add: get_def)
qed

text \<open>The name that the terminator begins: the root, or the known suffix it points at.\<close>

lemma write_name_plan:
  assumes sound: "table_sound S P b" and inj: "inj_on hash_suffix S"
    and n: "name_ok n" and suf: "suffixes_in S (name_labels n)"
    and w: "write_name n b = (Inr u, b')"
  obtains k t where "k \<le> length (name_labels n)"
    "bseq [emit_labels (name_labels n) k, write_terminator t] b = (Inr (), b')"
    "t = None \<Longrightarrow> k = length (name_labels n)"
    "\<And>off. t = Some off \<Longrightarrow> unat off < 16384 \<and>
       (\<exists>h. h < ct_used (b_compression b) \<and> name_over P (b_out b) (unat off) h (drop k (name_labels n)))"
proof (cases "as_str n = []")
  case True
  then have l: "name_labels n = []" by (rule name_ok_labels(5) [OF n])
  have "bseq [emit_labels (name_labels n) 0, write_terminator None] b = (Inr (), b')"
    using w True l by (simp add: write_name_def write_terminator_def)
  then show thesis using that [of 0 None] l by simp
next
  case False
  let ?ls = "name_labels n"
  have ls: "split_dot (strip_dot (as_str n)) = ?ls" by (rule name_ok_labels(4) [OF n False])
  have ct: "ct_ok (b_compression b)" using sound by (simp add: table_sound_def)
  show thesis
  proof (cases "find_suffix (b_compression b) 0 ?ls")
    case None
    with w False ls that [of "length ?ls" None] show thesis
      by (auto simp: write_name_def Let_def simp del: bseq.simps split: if_splits)
  next
    case (Some ko)
    obtain k off where ko: "ko = (k, off)" by (cases ko)
    from find_suffix_Some [OF ct Some [unfolded ko]] have k: "k < length ?ls"
      and mem: "(hash_suffix (drop k ?ls), off) \<in> set (ct_list (b_compression b))" by auto
    then obtain i where i: "i < length (ct_list (b_compression b))"
      "ct_list (b_compression b) ! i = (hash_suffix (drop k ?ls), off)" by (auto simp: in_set_conv_nth)
    with sound obtain ls' h where e: "unat off < 16384" "ls' \<in> S" "hash_suffix ls' = hash_suffix (drop k ?ls)"
      "h \<le> i" "name_over P (b_out b) (unat off) h ls'"
      by (force simp: table_sound_def entry_sound_def)
    have low: "map lower (drop k ?ls) = drop k ?ls"
      using name_ok_labels(3) [OF n] by (metis drop_map)
    have "drop k ?ls \<in> S" using suf k low by (auto simp: suffixes_in_def)
    then have "ls' = drop k ?ls" using inj e(2,3) by (auto dest: inj_onD)
    moreover have "h < ct_used (b_compression b)" using i(1) e(4) ct by (simp add: length_ct_list)
    moreover have "bseq [emit_labels ?ls k, write_terminator (Some off)] b = (Inr (), b')"
      using w False ls Some ko by (auto simp: write_name_def Let_def simp del: bseq.simps split: if_splits)
    ultimately show thesis using that [of k "Some off"] k e by auto
  qed
qed

lemma write_name_sound:
  assumes sound: "table_sound S P b" and inj: "inj_on hash_suffix S"
    and n: "name_ok n" and suf: "suffixes_in S (name_labels n)"
    and w: "write_name n b = (Inr u, b')" and lim: "b_cursor b' \<le> 16384"
  shows "\<exists>h nb. wrote b b' nb \<and> is_name_bytes nb \<and> h \<le> ct_used (b_compression b) \<and>
    table_sound S (P \<union> {b_cursor b..<b_cursor b'}) b' \<and>
    name_over (P \<union> {b_cursor b..<b_cursor b'}) (b_out b') (b_cursor b) h (name_labels n)"
proof -
  let ?ls = "name_labels n" and ?c = "b_cursor b" and ?Q = "P \<union> {b_cursor b..<b_cursor b'}"
  let ?ct = "b_compression b"
  from write_name_plan [OF sound inj n suf w] obtain k t where k: "k \<le> length ?ls"
    and run: "bseq [emit_labels ?ls k, write_terminator t] b = (Inr (), b')"
    and t: "t = None \<Longrightarrow> k = length ?ls"
      "\<And>off. t = Some off \<Longrightarrow> unat off < 16384 \<and>
       (\<exists>h. h < ct_used ?ct \<and> name_over P (b_out b) (unat off) h (drop k ?ls))" by metis
  from run obtain b1 where e: "emit_labels ?ls k b = (Inr (), b1)" and tm: "write_terminator t b1 = (Inr (), b')"
    by (auto simp: bseq_Inr bseq_Nil_Inr simp del: bseq.simps)
  have wf: "?c \<le> length (b_out b)" "ct_ok ?ct" "P \<subseteq> {HEADER_SIZE..<?c}" "HEADER_SIZE \<le> ?c"
    using sound by (auto simp: table_sound_def)
  from emit_labels_wrote [OF e k wf(1)] have w1: "wrote b b1 (emit_bytes ?ls k)"
    and ct1: "b_compression b1 = insert_all ?ct (suffix_entries ?ls k ?c)" by auto
  from write_terminator_wrote [OF tm] have w2: "wrote b1 b' (term_bytes t)"
    and ct': "b_compression b' = b_compression b1" by auto
  have w': "wrote b b' (emit_bytes ?ls k @ term_bytes t)" using wrote_trans [OF w1 w2] .
  let ?d = "?c + length (emit_bytes ?ls k)"
  have d: "b_cursor b1 = ?d" using w1 by (auto simp: wrote_def)
  have c': "b_cursor b' = ?d + length (term_bytes t)" "b_cursor b' \<le> length (b_out b')"
    using w' by (auto simp: wrote_def)
  have low: "map lower (drop k ?ls) = drop k ?ls"
    using name_ok_labels(3) [OF n] by (metis drop_map)
  have old: "\<forall>p\<in>P. p < length (b_out b) \<longrightarrow> p < length (b_out b') \<and> b_out b' ! p = b_out b ! p"
  proof (intro ballI impI)
    fix p assume "p \<in> P" "p < length (b_out b)"
    then have "p < ?c" using wf(3) by auto
    then show "p < length (b_out b') \<and> b_out b' ! p = b_out b ! p"
      using wrote_nth_old [OF w'] \<open>p < length (b_out b)\<close> w' by (auto simp: wrote_def)
  qed
  have "\<exists>h\<le>ct_used ?ct. name_over ?Q (b_out b') ?d h (map lower (drop k ?ls))"
  proof (cases t)
    case None
    then have "get (b_out b') ?d = Some 0"
      using wrote_get [OF w2, of 0] d by (simp add: term_bytes_def)
    then have "name_over ?Q (b_out b') ?d 0 []"
      using c' None by (intro over_root) (auto simp: term_bytes_def)
    then show ?thesis using t(1) [OF None] by auto
  next
    case (Some off)
    from t(2) [OF this] obtain h where h: "unat off < 16384" "h < ct_used ?ct"
      "name_over P (b_out b) (unat off) h (drop k ?ls)" by blast
    have g: "get (b_out b') ?d = Some (ptr_hi off)" "get (b_out b') (?d + 1) = Some (ptr_lo off)"
      using wrote_get [OF w2, of 0] wrote_get [OF w2, of 1] d Some by (simp_all add: term_bytes_def)
    have tgt: "unat (ptr_target (ptr_hi off) (ptr_lo off)) = unat off"
      using h(1) by (simp add: ptr_roundtrip)
    have "unat off < ?c" using name_over_start [OF h(3)] wf(3) by auto
    moreover have "name_over ?Q (b_out b') (unat off) h (drop k ?ls)"
      using name_over_mono [OF name_over_frame [OF h(3) old], of ?Q] by blast
    ultimately have "name_over ?Q (b_out b') ?d (Suc h) (drop k ?ls)"
      using g c' Some h(1)
      by (intro over_ptr [where k = "ptr_hi off" and s = "ptr_lo off"])
        (auto simp: tgt unat_ptr_hi term_bytes_def)
    then show ?thesis using h(2) low by (intro exI [of _ "Suc h"]) auto
  qed
  then obtain h where h: "h \<le> ct_used ?ct" "name_over ?Q (b_out b') ?d h (map lower (drop k ?ls))"
    by blast
  have sl: "take (length (emit_bytes ?ls k)) (drop ?c (b_out b')) = emit_bytes ?ls k"
  proof -
    have "take (length (emit_bytes ?ls k)) (drop ?c (b_out b'))
        = take (length (emit_bytes ?ls k))
            (take (length (emit_bytes ?ls k @ term_bytes t)) (drop ?c (b_out b')))"
      by (simp add: min_def)
    also have "\<dots> = take (length (emit_bytes ?ls k)) (emit_bytes ?ls k @ term_bytes t)"
      unfolding wrote_slice [OF w'] ..
    finally show ?thesis by simp
  qed
  have over: "name_over ?Q (b_out b') ?c h (map lower ?ls)"
    and new: "\<forall>e\<in>set (suffix_entries ?ls k ?c). entry_sound S ?Q (b_out b') h e"
  proof -
    have q: "{?c..<?d} \<subseteq> ?Q" and l: "?d \<le> length (b_out b')" "?d \<le> 16384" using c' lim by auto
    from emit_bytes_over [OF sl l(1) name_ok_labels(1) [OF n] k q h(2) l(2) suf]
    show "name_over ?Q (b_out b') ?c h (map lower ?ls)"
      "\<forall>e\<in>set (suffix_entries ?ls k ?c). entry_sound S ?Q (b_out b') h e" by auto
  qed
  have "table_sound S ?Q b'"
    unfolding table_sound_def
  proof (intro conjI allI impI)
    show "?Q \<subseteq> {HEADER_SIZE..<b_cursor b'}" "HEADER_SIZE \<le> b_cursor b'"
      using wf(3,4) c' by (auto simp: subset_eq)
    show "b_cursor b' \<le> length (b_out b')" by (rule c'(2))
    note ins = insert_all_list [OF wf(2), of "suffix_entries ?ls k ?c"]
    show "ct_ok (b_compression b')" using ins by (simp add: ct' ct1)
    fix i assume i: "i < length (ct_list (b_compression b'))"
    let ?L = "ct_list ?ct @ suffix_entries ?ls k ?c"
    have L: "ct_list (b_compression b') = take (length (ct_entries ?ct)) ?L"
      unfolding ct' ct1 using ins by blast
    have nth: "ct_list (b_compression b') ! i = ?L ! i" "i < length ?L"
      using i unfolding L by (simp_all del: take_append length_append)
    show "entry_sound S ?Q (b_out b') i (ct_list (b_compression b') ! i)"
    proof (cases "i < length (ct_list ?ct)")
      case True
      then have "entry_sound S P (b_out b) i (ct_list ?ct ! i)" using sound by (simp add: table_sound_def)
      from entry_sound_mono [OF this _ _ old, of ?Q i] show ?thesis
        using True by (simp add: nth nth_append)
    next
      case False
      then have "?L ! i \<in> set (suffix_entries ?ls k ?c)" using nth(2) by (simp add: nth_append)
      with new have e: "entry_sound S ?Q (b_out b') h (?L ! i)" by blast
      have "h \<le> i" using False h(1) wf(2) by (simp add: length_ct_list)
      from entry_sound_mono [OF e subset_refl this] show ?thesis unfolding nth(1) by blast
    qed
  qed
  moreover have "is_name_bytes (emit_bytes ?ls k @ term_bytes t)"
    using name_ok_labels(1) [OF n] k by (auto simp: is_name_bytes_def)
  moreover have "name_over ?Q (b_out b') ?c h ?ls"
    using over unfolding name_ok_labels(3) [OF n] .
  ultimately show ?thesis using w' h(1) by blast
qed

subsection \<open>Parsing what was written\<close>

lemma nr_parse_emitted:
  assumes "list_all label_ok ls" "k \<le> length ls" "off \<le> length p" "off \<le> u16_max"
  shows "nr_parse_loop (p @ (emit_bytes ls k @ term_bytes t) @ q) off (length p)
     = Inr (\<lparr>nr_message = p @ (emit_bytes ls k @ term_bytes t) @ q, nr_start = word_of_nat off\<rparr>,
            length p - off + length (emit_bytes ls k @ term_bytes t))"
  using assms
proof (induction k arbitrary: ls p)
  case (Suc k)
  then obtain l ls' where ls: "ls = l # ls'" by (cases ls) auto
  note prems = Suc.prems [unfolded ls]
  let ?p = "p @ enc_label l" and ?e = "emit_bytes ls' k @ term_bytes t"
  let ?m = "p @ (emit_bytes (l # ls') (Suc k) @ term_bytes t) @ q"
  have len: "unat (word_of_nat (length l) :: u8) = length l" "1 \<le> length l" "length l < 64"
    using prems by (simp_all add: unat_label_len) (simp_all add: label_ok_def limit_defs)
  have m: "?m = ?p @ ?e @ q" by (simp add: emit_bytes_def)
  have "get ?m (length p) = Some (word_of_nat (length l))"
    unfolding m by (simp add: get_def nth_append enc_label_def)
  note step = nr_parse_step [OF this, of off, unfolded len(1)]
  have "length ?m \<ge> length p + 1 + length l" unfolding m by (simp add: enc_label_def)
  then have "nr_parse_loop ?m off (length p) = nr_parse_loop ?m off (length p + 1 + length l)"
    unfolding step using len by (cases l) (simp_all add: Let_def del: of_nat_Suc)
  also have "length p + 1 + length l = length ?p" by (simp add: enc_label_def)
  also have "nr_parse_loop ?m off (length ?p)
     = Inr (\<lparr>nr_message = ?p @ ?e @ q, nr_start = word_of_nat off\<rparr>, length ?p - off + length ?e)"
    unfolding m using prems by (intro Suc.IH) simp_all
  also have "length ?p - off + length ?e = length p - off + length (emit_bytes (l # ls') (Suc k) @ term_bytes t)"
    using prems(3) by (simp add: emit_bytes_def)
  finally show ?case unfolding ls m .
next
  case 0
  show ?case
  proof (cases t)
    case None
    have "get (p @ 0 # q) (length p) = Some 0" by (simp add: get_def nth_append)
    from nr_parse_step [OF this, of off] show ?thesis
      using 0 None by (simp add: emit_bytes_def term_bytes_def u16_try_from_def)
  next
    case (Some tgt)
    have "get (p @ ptr_hi tgt # ptr_lo tgt # q) (length p) = Some (ptr_hi tgt)"
      by (simp add: get_def nth_append)
    from nr_parse_step [OF this, of off] show ?thesis
      using 0 Some by (simp add: emit_bytes_def term_bytes_def u16_try_from_def unat_ptr_hi Suc_diff_le)
  qed
qed

lemma nr_parse_name_bytes:
  assumes "is_name_bytes nb" "length p \<le> u16_max"
  shows "nr_try_parse (p @ nb @ q) (length p)
     = Inr (\<lparr>nr_message = p @ nb @ q, nr_start = word_of_nat (length p)\<rparr>, length nb)"
  using assms nr_parse_emitted [where off = "length p" and p = p and q = q]
  by (auto simp: is_name_bytes_def nr_try_parse_def)

text \<open>A later message that still has the octets written so far.\<close>

definition agrees :: "bytes \<Rightarrow> builder \<Rightarrow> bool" where
  "agrees m b \<longleftrightarrow> b_cursor b \<le> length m \<and> length m \<le> 65536 \<and>
     (\<forall>i. HEADER_SIZE \<le> i \<and> i < b_cursor b \<longrightarrow> m ! i = b_out b ! i)"

lemma agrees_over:
  assumes "agrees m b" "P \<subseteq> {HEADER_SIZE..<b_cursor b}" "name_over P (b_out b) c h ls"
  shows "name_over P m c h ls"
  using assms(3)
  by (rule name_over_frame) (use assms(1,2) in \<open>auto simp: agrees_def subset_eq\<close>)

lemma agrees_bytes:
  assumes "agrees m b'" "wrote b b' bs" "HEADER_SIZE \<le> b_cursor b"
  shows "m = take (b_cursor b) m @ bs @ drop (b_cursor b') m" "length (take (b_cursor b) m) = b_cursor b"
proof -
  have c: "b_cursor b' = b_cursor b + length bs" "b_cursor b' \<le> length m" "b_cursor b' \<le> length (b_out b')"
    using assms by (auto simp: agrees_def wrote_def)
  have "take (length bs) (drop (b_cursor b) m) = take (length bs) (drop (b_cursor b) (b_out b'))"
    using assms(1,3) c by (intro nth_equalityI) (auto simp: agrees_def)
  then have "take (length bs) (drop (b_cursor b) m) = bs" using wrote_slice [OF assms(2)] by simp
  then show "m = take (b_cursor b) m @ bs @ drop (b_cursor b') m"
    by (metis append_take_drop_id c(1) drop_drop add.commute)
  show "length (take (b_cursor b) m) = b_cursor b" using c by simp
qed

lemma name_reads_back:
  assumes "name_over P m (unat c) h (name_labels n)" "h \<le> MAX_POINTER_HOPS" "name_ok n" "length m \<le> 65536"
  shows "nr_items \<lparr>nr_message = m, nr_start = c\<rparr> = map Inr (name_labels n)"
  using nr_items_name_at [of "\<lparr>nr_message = m, nr_start = c\<rparr>" "name_labels n"]
    name_over_at [OF assms(1)] assms(2-4) name_ok_labels(2) [OF assms(3)] by auto

text \<open>
  Compressed names read back: if no two names of the message collide in the 64-bit hash, a name
  written by \<open>write_name\<close> below offset 16384, through whatever suffixes the table already knows, is
  parsed where it was written, with its exact length, and its labels are the name's labels, in every
  message that keeps the octets written; the table stays sound for the names that follow.
\<close>
theorem write_name_reads_back:
  assumes "table_sound S P b" "inj_on hash_suffix S" "name_ok n" "suffixes_in S (name_labels n)"
    and "write_name n b = (Inr u, b')" "b_cursor b' \<le> 16384" "agrees m b'"
    and "ct_used (b_compression b) \<le> MAX_POINTER_HOPS"
  shows "\<exists>r. nr_try_parse m (b_cursor b) = Inr (r, b_cursor b' - b_cursor b) \<and>
      nr_items r = map Inr (name_labels n) \<and>
      table_sound S (P \<union> {b_cursor b..<b_cursor b'}) b'"
proof -
  let ?Q = "P \<union> {b_cursor b..<b_cursor b'}"
  from write_name_sound [OF assms(1-6)] obtain h nb where w: "wrote b b' nb" "is_name_bytes nb"
    and h: "h \<le> ct_used (b_compression b)" and t: "table_sound S ?Q b'"
    and o: "name_over ?Q (b_out b') (b_cursor b) h (name_labels n)" by blast
  have hd: "HEADER_SIZE \<le> b_cursor b" using assms(1) by (simp add: table_sound_def)
  note m = agrees_bytes [OF assms(7) w(1) hd]
  have c: "b_cursor b \<le> u16_max" "b_cursor b' - b_cursor b = length nb"
    using w(1) assms(6) by (auto simp: wrote_def)
  have "nr_try_parse m (b_cursor b)
      = Inr (\<lparr>nr_message = m, nr_start = word_of_nat (b_cursor b)\<rparr>, b_cursor b' - b_cursor b)"
    using nr_parse_name_bytes [OF w(2), of "take (b_cursor b) m" "drop (b_cursor b') m"] m c by simp
  moreover have "unat (word_of_nat (b_cursor b) :: u16) = b_cursor b"
    using c(1) unfolding unat_u16_of_nat by simp
  moreover have "name_over ?Q m (b_cursor b) h (name_labels n)"
    by (rule agrees_over [OF assms(7) _ o]) (use t in \<open>simp add: table_sound_def\<close>)
  ultimately show ?thesis
    using name_reads_back [of ?Q m "word_of_nat (b_cursor b)" h n] h assms(3,7,8) t
    by (auto simp: agrees_def)
qed

lemma table_sound_new:
  "builder_try_new comp_n out h = Inr b \<Longrightarrow> table_sound S {} b"
  by (auto simp: builder_try_new_def table_sound_def split: if_splits)

lemma write_name_reads_back_witness:
  "\<exists>r. nr_try_parse (replicate 12 0 @ [1, 97, 0]) 12 = Inr (r, 3) \<and> nr_items r = map Inr [[97]]"
proof -
  let ?S = "{[[97]]} :: bytes list set" and ?n = "Name [97]"
  let ?b = "\<lparr>b_out = replicate 15 0, b_cursor = 12, b_header = header_new, b_compression = ct_new 32\<rparr>"
  let ?r = "write_name ?n ?b" and ?m = "replicate 12 0 @ [1, 97, 0] :: bytes"
  have new: "builder_try_new 32 (replicate 15 0) header_new = Inr ?b"
    by (simp add: builder_try_new_def HEADER_SIZE_def)
  have labels: "name_ok ?n" "name_labels ?n = [[97]]" by code_simp+
  have low: "to_lower 97 = 97" by code_simp
  have suf: "suffixes_in ?S (name_labels ?n)"
    unfolding labels suffixes_in_def by (simp add: low)
  have run: "fst ?r = Inr () \<and> b_cursor (snd ?r) = 15 \<and> b_out (snd ?r) = ?m" by code_simp
  then have "agrees ?m (snd ?r)" by (simp add: agrees_def)
  moreover have "?r = (Inr (), snd ?r)" using run by (simp add: prod_eq_iff)
  ultimately show ?thesis
    using write_name_reads_back [OF table_sound_new [OF new] _ labels(1) suf, of "()" "snd ?r" ?m]
      labels run by (auto simp: ct_new_def)
qed

text \<open>
  A compression pointer carries 14 bits: the pointer that \<open>write_name\<close> emits for a recorded
  offset is read back as the offset modulo 16384, so it is right exactly below 16384, although the
  table records every offset up to 65535.
\<close>
theorem pointer_target_spec:
  "unat (ptr_target (ptr_hi off) (ptr_lo off)) = unat off mod 16384 \<and>
   (ptr_target (ptr_hi off) (ptr_lo off) = off \<longleftrightarrow> unat off < 16384)"
proof -
  have "ptr_target (ptr_hi off) (ptr_lo off) = off \<longleftrightarrow> unat off mod 16384 = unat off"
    unfolding word_unat_eq_iff ptr_roundtrip ..
  also have "\<dots> \<longleftrightarrow> unat off < 16384" by (metis mod_less mod_less_divisor zero_less_numeral)
  finally show ?thesis by (simp add: ptr_roundtrip)
qed

end
