(* ===== verification/BuilderRoundTrip.thy ===== *)
theory BuilderRoundTrip
  imports BuilderNames
begin

text \<open>
  Whatever a push writes, the parsers of \<open>WireRecord\<close> read back: the octets each push emits, the
  invariant of the compression table across pushes, and for each record type the parsed record with
  its typed view.  The step relation \<open>sound_step\<close> composes along \<open>bseq\<close>.
\<close>

subsection \<open>Sound steps\<close>

definition sound_step :: "bytes list set \<Rightarrow> builder \<Rightarrow> nat set \<Rightarrow> builder \<Rightarrow> nat set \<Rightarrow> bytes \<Rightarrow> bool" where
  "sound_step S b P b' P' bs \<longleftrightarrow>
     wrote b b' bs \<and> table_sound S P' b' \<and> P \<subseteq> P' \<and> P' - P \<subseteq> {b_cursor b..<b_cursor b'} \<and>
     length (ct_entries (b_compression b')) = length (ct_entries (b_compression b))"

lemma sound_step_trans:
  assumes "sound_step S a P b Q xs" "sound_step S b Q c R ys"
  shows "sound_step S a P c R (xs @ ys)"
proof -
  have "wrote a c (xs @ ys)" using assms wrote_trans by (auto simp: sound_step_def)
  moreover have "b_cursor a \<le> b_cursor b" "b_cursor b \<le> b_cursor c"
    using assms by (auto simp: sound_step_def wrote_def)
  moreover have "R - P \<subseteq> (R - Q) \<union> (Q - P)" by blast
  ultimately show ?thesis using assms unfolding sound_step_def
    by (auto simp: subset_eq) (metis atLeastLessThan_iff Diff_iff le_trans less_le_trans)+
qed

lemma plain_step:
  assumes "table_sound S P b" "wrote b b' bs" "b_compression b' = b_compression b"
  shows "sound_step S b P b' P bs"
proof -
  have P: "P \<subseteq> {HEADER_SIZE..<b_cursor b}" and le: "b_cursor b \<le> b_cursor b'"
    "b_cursor b' \<le> length (b_out b')"
    using assms(1,2) by (auto simp: table_sound_def wrote_def)
  have "\<forall>p\<in>P. p < length (b_out b) \<longrightarrow> p < length (b_out b') \<and> b_out b' ! p = b_out b ! p"
    using P wrote_nth_old [OF assms(2)] assms(2) by (auto simp: wrote_def)
  then have "entry_sound S P (b_out b') i e" if "entry_sound S P (b_out b) i e" for i e
    using entry_sound_mono [OF that subset_refl le_refl] by blast
  moreover have "P \<subseteq> {HEADER_SIZE..<b_cursor b'}" using P le(1) by (auto simp: subset_eq)
  ultimately have "table_sound S P b'"
    using assms(1,3) le by (auto simp: table_sound_def)
  then show ?thesis using assms(2,3) by (simp add: sound_step_def)
qed

lemma u16_step:
  "table_sound S P b \<Longrightarrow> write_u16 v b = (Inr u, b') \<Longrightarrow> sound_step S b P b' P (to_be16 v)"
  using write_u16_wrote plain_step by blast

lemma u32_step:
  "table_sound S P b \<Longrightarrow> write_u32 v b = (Inr u, b') \<Longrightarrow> sound_step S b P b' P (to_be32 v)"
  using write_u32_wrote plain_step by blast

lemma byte_step:
  "table_sound S P b \<Longrightarrow> write_byte v b = (Inr u, b') \<Longrightarrow> sound_step S b P b' P [v]"
  using write_byte_wrote plain_step by blast

lemma bytes_step:
  "table_sound S P b \<Longrightarrow> write_bytes bs b = (Inr u, b') \<Longrightarrow> sound_step S b P b' P bs"
  using write_bytes_wrote plain_step by (metis table_sound_def)

lemma sound_stepD: "sound_step S b P b' P' bs \<Longrightarrow> table_sound S P' b'"
  by (simp add: sound_step_def)

lemma set_header_step:
  assumes "table_sound S P b" "set_header f b = (Inr u, b')"
  shows "table_sound S P b' \<and> b_out b' = b_out b \<and> b_cursor b' = b_cursor b \<and>
     b_compression b' = b_compression b \<and> b_header b' = f (b_header b)"
  using assms by (auto simp: set_header_def table_sound_def)

text \<open>A name step also tells how the name reads.\<close>

definition name_step ::
  "bytes list set \<Rightarrow> name \<Rightarrow> builder \<Rightarrow> nat set \<Rightarrow> builder \<Rightarrow> nat set \<Rightarrow> bytes \<Rightarrow> bool" where
  "name_step S n b P b' P' nb \<longleftrightarrow>
     sound_step S b P b' P' nb \<and> is_name_bytes nb \<and>
     (\<exists>h\<le>ct_used (b_compression b). name_over P' (b_out b') (b_cursor b) h (name_labels n))"

lemma name_step:
  assumes "table_sound S P b" "inj_on hash_suffix S" "name_ok n" "suffixes_in S (name_labels n)"
    and "write_name n b = (Inr u, b')" "b_cursor b' \<le> 16384"
  shows "\<exists>P' nb. name_step S n b P b' P' nb"
proof -
  have "length (ct_entries (b_compression b')) = length (ct_entries (b_compression b))"
    using keepsD [of "write_name n" b "Inr u" b'] keeps_write_name assms(5) by (simp add: ext_def)
  then show ?thesis
    using write_name_sound [OF assms] unfolding name_step_def sound_step_def by blast
qed

text \<open>Patching two octets that no name uses.\<close>

lemma patch_step:
  assumes "sound_step S b P b1 P [0, 0]" "sound_step S b1 P b2 P' bs"
    and "patch_rdlen (b_cursor b) (b_cursor b1) b2 = (Inr u, b3)" "table_sound S P b"
  shows "sound_step S b P b3 P' (to_be16 (word_of_nat (length bs)) @ bs)" "length bs \<le> u16_max"
    "b_compression b3 = b_compression b2"
    "\<And>c h ls. name_over P' (b_out b2) c h ls \<Longrightarrow> name_over P' (b_out b3) c h ls"
proof -
  let ?c = "b_cursor b" and ?l = "to_be16 (word_of_nat (length bs))"
  have w: "wrote b b2 ([0, 0] @ bs)" using sound_step_trans [OF assms(1,2)] by (simp add: sound_step_def)
  then have c2: "b_cursor b2 = ?c + 2 + length bs" "b_cursor b2 \<le> length (b_out b2)"
    by (auto simp: wrote_def)
  have c1: "b_cursor b1 = ?c + 2" using assms(1) by (auto simp: sound_step_def wrote_def)
  have len: "b_cursor b2 - b_cursor b1 = length bs" using c1 c2 by simp
  from assms(3) obtain out where
    p: "put_slice (b_out b2) ?c ?l = Some out" and b3: "b3 = b2\<lparr>b_out := out\<rparr>" and le: "length bs \<le> u16_max"
    by (auto simp: patch_rdlen_def u16_try_from_def len split: if_splits option.splits)
  show "length bs \<le> u16_max" by (rule le)
  show "b_compression b3 = b_compression b2" by (simp add: b3)
  have t2: "take (b_cursor b2) (b_out b2) = take ?c (b_out b) @ [0, 0] @ bs"
    and lo: "length (b_out b2) = length (b_out b)" and hd: "b_header b2 = b_header b"
    using w by (auto simp: wrote_def)
  have cb: "?c \<le> length (b_out b)" using assms(4) by (simp add: table_sound_def)
  have out: "out = take ?c (b_out b2) @ ?l @ drop (?c + 2) (b_out b2)"
    using p by (simp add: put_slice_Some_iff)
  have "take (b_cursor b2) out = take ?c (b_out b2) @ ?l @ take (length bs) (drop (?c + 2) (b_out b2))"
    unfolding out c2(1) using cb lo by simp
  also have "take ?c (b_out b2) = take ?c (take (b_cursor b2) (b_out b2))" using c2 by (simp add: min_def)
  also have "\<dots> = take ?c (b_out b)" unfolding t2 using cb by simp
  also have "take (length bs) (drop (?c + 2) (b_out b2)) = drop (?c + 2) (take (b_cursor b2) (b_out b2))"
    unfolding c2(1) by (simp add: drop_take)
  also have "\<dots> = bs" unfolding t2 using cb by simp
  finally have t3: "take (b_cursor b2) out = take ?c (b_out b) @ ?l @ bs" .
  have w3: "wrote b b3 (?l @ bs)"
    unfolding wrote_def using c2 lo hd t3 put_slice_length [OF p] by (simp add: b3)
  have P: "P \<subseteq> {HEADER_SIZE..<?c}" and P': "P' \<subseteq> {HEADER_SIZE..<b_cursor b2}"
    "P' - P \<subseteq> {?c + 2..<b_cursor b2}" "P \<subseteq> P'"
    using assms(2,4) c1 by (auto simp: table_sound_def sound_step_def)
  have agree: "\<forall>p\<in>P'. p < length (b_out b2) \<longrightarrow> p < length (b_out b3) \<and> b_out b3 ! p = b_out b2 ! p"
  proof (intro ballI impI)
    fix q assume q: "q \<in> P'" "q < length (b_out b2)"
    then have "q < ?c \<or> ?c + 2 \<le> q" using P P' by (cases "q \<in> P") auto
    then show "q < length (b_out b3) \<and> b_out b3 ! q = b_out b2 ! q"
      using put_slice_nth_outside [OF p] put_slice_length [OF p] q(2) by (auto simp: b3)
  qed
  show "name_over P' (b_out b3) c h ls" if "name_over P' (b_out b2) c h ls" for c h ls
    using name_over_frame [OF that agree] .
  have "entry_sound S P' (b_out b3) i e" if "entry_sound S P' (b_out b2) i e" for i e
    using entry_sound_mono [OF that subset_refl le_refl agree] .
  then have "table_sound S P' b3"
    using assms(2) put_slice_length [OF p] by (auto simp: table_sound_def sound_step_def b3)
  then show "sound_step S b P b3 P' (?l @ bs)"
    using w3 assms(1,2) P' by (auto simp: sound_step_def b3)
qed

lemma sound_step_over:
  assumes "sound_step S b P b' P' bs" "table_sound S P b" "name_over P (b_out b) c h ls"
  shows "name_over P' (b_out b') c h ls"
proof -
  have "\<forall>p\<in>P. p < length (b_out b) \<longrightarrow> p < length (b_out b') \<and> b_out b' ! p = b_out b ! p"
    using assms(1,2) wrote_nth_old by (auto simp: sound_step_def table_sound_def wrote_def subset_eq)
  then show ?thesis
    using name_over_mono [OF name_over_frame [OF assms(3)], of "b_out b'" P'] assms(1)
    by (auto simp: sound_step_def)
qed

subsection \<open>Records\<close>

definition record_bytes :: "bytes \<Rightarrow> u16 \<Rightarrow> u16 \<Rightarrow> u32 \<Rightarrow> bytes \<Rightarrow> bytes" where
  "record_bytes nb t c ttl bs =
     nb @ to_be16 t @ to_be16 c @ to_be32 ttl @ to_be16 (word_of_nat (length bs)) @ bs"

lemma length_record_bytes [simp]:
  "length (record_bytes nb t c ttl bs) = length nb + 10 + length bs"
  by (simp add: record_bytes_def)

lemma record_bytes_parse:
  assumes "is_name_bytes nb" "length p \<le> u16_max" "length bs \<le> u16_max"
    and m: "m = p @ record_bytes nb t c ttl bs @ q"
  shows "record_try_parse m (length p) = Inr
     (\<lparr>rr_message = m, rr_name = \<lparr>nr_message = m, nr_start = word_of_nat (length p)\<rparr>,
       rr_rtype = rtype_from_u16 t, rr_rclass = rclass_from_u16 c,
       rr_cache_flush = (c AND CACHE_FLUSH_BIT \<noteq> 0), rr_ttl = ttl,
       rdata_start = length p + length nb + 10, rdata_len = length bs\<rparr>,
      length p + length nb + 10 + length bs)"
proof -
  let ?hdr = "to_be16 t @ to_be16 c @ to_be32 ttl @ to_be16 (word_of_nat (length bs))"
  let ?a = "length p + length nb"
  have m': "m = (p @ nb) @ ?hdr @ bs @ q" unfolding m record_bytes_def by simp
  have nm: "nr_try_parse m (length p)
      = Inr (\<lparr>nr_message = m, nr_start = word_of_nat (length p)\<rparr>, length nb)"
    unfolding m record_bytes_def append_assoc
    using nr_parse_name_bytes [OF assms(1,2), of "?hdr @ bs @ q"] by simp
  have nth: "m ! (?a + i) = ?hdr ! i" if "i < 10" for i
    unfolding m' using that by (simp add: nth_append)
  have h: "m ! ?a = to_be16 t ! 0" "m ! (?a + 1) = to_be16 t ! 1"
    "m ! (?a + 2) = to_be16 c ! 0" "m ! (?a + 3) = to_be16 c ! 1"
    "m ! (?a + 4) = to_be32 ttl ! 0" "m ! (?a + 5) = to_be32 ttl ! 1"
    "m ! (?a + 6) = to_be32 ttl ! 2" "m ! (?a + 7) = to_be32 ttl ! 3"
    "m ! (?a + 8) = to_be16 (word_of_nat (length bs)) ! 0"
    "m ! (?a + 9) = to_be16 (word_of_nat (length bs)) ! 1"
    using nth [of 0] nth [of 1] nth [of 2] nth [of 3] nth [of 4] nth [of 5] nth [of 6] nth [of 7]
      nth [of 8] nth [of 9] by (simp_all add: to_be16_def to_be32_def)
  have len: "unat (word_of_nat (length bs) :: u16) = length bs"
    using assms(3) unfolding unat_u16_of_nat by simp
  have lm: "?a + 10 + length bs \<le> length m" unfolding m' by simp
  show ?thesis
    using record_parse_fields [OF nm refl, of "?a + 10 + length bs"] lm
    unfolding h from_to_be16_One from_to_be32 [unfolded One_nat_def [symmetric]] len by simp
qed

text \<open>What it means that a record is read between two offsets, with a given view of its RDATA.\<close>

definition record_is ::
  "name \<Rightarrow> u16 \<Rightarrow> u16 \<Rightarrow> u32 \<Rightarrow> (record_ref \<Rightarrow> bool) \<Rightarrow> record_ref \<Rightarrow> bool" where
  "record_is n t c ttl V r \<longleftrightarrow>
     nr_items (rr_name r) = map Inr (name_labels n) \<and>
     rr_rtype r = rtype_from_u16 t \<and> rr_rclass r = rclass_from_u16 c \<and>
     rr_cache_flush r = (c AND CACHE_FLUSH_BIT \<noteq> 0) \<and> rr_ttl r = ttl \<and> V r"

definition reads_record :: "bytes \<Rightarrow> nat \<Rightarrow> nat \<Rightarrow> (record_ref \<Rightarrow> bool) \<Rightarrow> bool" where
  "reads_record m a e V \<longleftrightarrow>
     (case record_try_parse m a of Inl _ \<Rightarrow> False | Inr (r, e') \<Rightarrow> e' = e \<and> V r)"

text \<open>
  \<open>rdata_writer S rd Q\<close>: the statements \<open>rd\<close> write a length and that many octets, keep the table
  sound, and establish \<open>Q\<close> of the message, the offset of the RDATA and its octets.
\<close>

definition rdata_writer ::
  "bytes list set \<Rightarrow> unit build list \<Rightarrow> (bytes \<Rightarrow> nat \<Rightarrow> bytes \<Rightarrow> bool) \<Rightarrow> bool" where
  "rdata_writer S rd Q \<longleftrightarrow> keeps (bseq rd) \<and>
     (\<forall>b P u b'. table_sound S P b \<longrightarrow> bseq rd b = (Inr u, b') \<longrightarrow> b_cursor b' \<le> 16384 \<longrightarrow>
        length (ct_entries (b_compression b)) \<le> MAX_POINTER_HOPS \<longrightarrow>
        (\<exists>P' bs. sound_step S b P b' P' (to_be16 (word_of_nat (length bs)) @ bs) \<and>
           length bs \<le> u16_max \<and> (\<forall>m. agrees m b' \<longrightarrow> Q m (b_cursor b + 2) bs)))"

lemma agrees_mono:
  "agrees m b' \<Longrightarrow> wrote b b' bs \<Longrightarrow> agrees m b"
  using wrote_nth_old [of b b' bs] by (fastforce simp: agrees_def wrote_def)

lemma agrees_cong: "b_out b = b_out b' \<Longrightarrow> b_cursor b = b_cursor b' \<Longrightarrow> agrees m b \<longleftrightarrow> agrees m b'"
  by (simp add: agrees_def)

lemma ct_used_le:
  "table_sound S P b \<Longrightarrow> length (ct_entries (b_compression b)) \<le> k \<Longrightarrow> ct_used (b_compression b) \<le> k"
  by (simp add: table_sound_def ct_ok_def)

lemma name_step_reads:
  assumes "name_step S n b P b' P' nb" "agrees m b'" "name_ok n" "table_sound S P b"
    "length (ct_entries (b_compression b)) \<le> MAX_POINTER_HOPS" "b_cursor b \<le> u16_max"
  shows "nr_items \<lparr>nr_message = m, nr_start = word_of_nat (b_cursor b)\<rparr> = map Inr (name_labels n)"
proof -
  from assms(1) obtain h where h: "h \<le> ct_used (b_compression b)"
    "name_over P' (b_out b') (b_cursor b) h (name_labels n)" and st: "sound_step S b P b' P' nb"
    by (auto simp: name_step_def)
  have "P' \<subseteq> {HEADER_SIZE..<b_cursor b'}" using st by (simp add: sound_step_def table_sound_def)
  from agrees_over [OF assms(2) this h(2)] have "name_over P' m (b_cursor b) h (name_labels n)" .
  moreover have "unat (word_of_nat (b_cursor b) :: u16) = b_cursor b"
    using assms(6) unfolding unat_u16_of_nat by simp
  ultimately show ?thesis
    using h(1) ct_used_le [OF assms(4,5)] assms(2,3)
    by (intro name_reads_back [where P = P' and h = h]) (auto simp: agrees_def)
qed

lemma push_record_reads:
  assumes sound: "table_sound S P b" and inj: "inj_on hash_suffix S"
    and n: "name_ok n" "suffixes_in S (name_labels n)"
    and rd: "rdata_writer S rd Q"
    and run: "bseq ([write_name n, write_u16 t, write_u16 c, write_u32 ttl] @ rd @ [set_header f]) b = (Inr u, b')"
    and lim: "b_cursor b' \<le> 16384" and hops: "length (ct_entries (b_compression b)) \<le> MAX_POINTER_HOPS"
  shows "\<exists>P'. table_sound S P' b' \<and> P \<subseteq> P' \<and> b_cursor b \<le> b_cursor b' \<and> b_header b' = f (b_header b) \<and>
    length (ct_entries (b_compression b')) = length (ct_entries (b_compression b)) \<and>
    (\<forall>i<b_cursor b. b_out b' ! i = b_out b ! i) \<and>
    (\<forall>m. agrees m b' \<longrightarrow> reads_record m (b_cursor b) (b_cursor b') (record_is n t c ttl
       (\<lambda>r. rr_message r = m \<and> Q m (rdata_start r) (rr_rdata r) \<and> rdata_len r = length (rr_rdata r))))"
proof -
  from run obtain b1 b2 b3 b4 b5 where
    r1: "write_name n b = (Inr (), b1)" and r2: "write_u16 t b1 = (Inr (), b2)" and
    r3: "write_u16 c b2 = (Inr (), b3)" and r4: "write_u32 ttl b3 = (Inr (), b4)" and
    r5: "bseq rd b4 = (Inr (), b5)" and r6: "set_header f b5 = (Inr (), b')"
    by (auto simp: bseq_Inr bseq_append_Inr bseq_Nil_Inr simp del: bseq.simps)
  note h = set_header_step [OF _ r6]
  have b': "b_out b' = b_out b5" "b_cursor b' = b_cursor b5" "b_compression b' = b_compression b5"
    "b_header b' = f (b_header b5)" using r6 by (auto simp: set_header_def)
  have mono: "b_cursor b1 \<le> b_cursor b2" "b_cursor b2 \<le> b_cursor b3" "b_cursor b3 \<le> b_cursor b4"
    "b_cursor b4 \<le> b_cursor b5"
    using write_u16_wrote [OF r2] write_u16_wrote [OF r3] write_u32_wrote [OF r4] keepsD [of "bseq rd" b4 "Inr ()" b5] r5 rd
    by (auto simp: wrote_def rdata_writer_def ext_def)
  obtain P1 nb where ns: "name_step S n b P b1 P1 nb"
    using name_step [OF sound inj n r1] mono lim b' by auto
  then have st1: "sound_step S b P b1 P1 nb" and nb: "is_name_bytes nb" by (auto simp: name_step_def)
  note t1 = sound_stepD [OF st1]
  note st2 = u16_step [OF t1 r2] note t2 = sound_stepD [OF st2]
  note st3 = u16_step [OF t2 r3] note t3 = sound_stepD [OF st3]
  note st4 = u32_step [OF t3 r4] note t4 = sound_stepD [OF st4]
  have e4: "length (ct_entries (b_compression b4)) = length (ct_entries (b_compression b))"
    using st1 st2 st3 st4 by (simp add: sound_step_def)
  from rd r5 t4 lim hops e4 b' obtain P' bs where
    st5: "sound_step S b4 P1 b5 P' (to_be16 (word_of_nat (length bs)) @ bs)" and
    len: "length bs \<le> u16_max" and Q: "\<forall>m. agrees m b5 \<longrightarrow> Q m (b_cursor b4 + 2) bs"
    unfolding rdata_writer_def by metis
  have st: "sound_step S b P b5 P' (record_bytes nb t c ttl bs)"
    using sound_step_trans [OF st1 sound_step_trans [OF st2 sound_step_trans [OF st3 sound_step_trans [OF st4 st5]]]]
    by (simp add: record_bytes_def)
  have w1: "wrote b b1 nb" and w: "wrote b b5 (record_bytes nb t c ttl bs)"
    and w15: "wrote b1 b5 (to_be16 t @ to_be16 c @ to_be32 ttl @ to_be16 (word_of_nat (length bs)) @ bs)"
    using st1 st sound_step_trans [OF st2 sound_step_trans [OF st3 sound_step_trans [OF st4 st5]]]
    by (simp_all add: sound_step_def)
  have cur: "b_cursor b4 + 2 = b_cursor b + length nb + 10" "b_cursor b5 = b_cursor b + length nb + 10 + length bs"
    using st1 st2 st3 st4 w by (auto simp: sound_step_def wrote_def)
  have hd: "HEADER_SIZE \<le> b_cursor b" and u16: "b_cursor b \<le> u16_max"
    using sound lim cur b' by (auto simp: table_sound_def)
  have "reads_record m (b_cursor b) (b_cursor b') (record_is n t c ttl
       (\<lambda>r. rr_message r = m \<and> Q m (rdata_start r) (rr_rdata r) \<and> rdata_len r = length (rr_rdata r)))"
    if m': "agrees m b'" for m
  proof -
    have m: "agrees m b5" using m' b' agrees_cong [of b' b5 m] by simp
    have m1: "agrees m b1" using agrees_mono [OF m w15] .
    note ab = agrees_bytes [OF m w hd]
    let ?p = "take (b_cursor b) m" and ?q = "drop (b_cursor b5) m"
    note parse = record_bytes_parse [OF nb _ len ab(1), unfolded ab(2), OF u16]
    have "nr_items \<lparr>nr_message = m, nr_start = word_of_nat (b_cursor b)\<rparr> = map Inr (name_labels n)"
      by (rule name_step_reads [OF ns m1 n(1) sound hops u16])
    moreover have "slice m (b_cursor b + length nb + 10) (b_cursor b + length nb + 10 + length bs) = Some bs"
    proof -
      have "m = (?p @ nb @ to_be16 t @ to_be16 c @ to_be32 ttl @ to_be16 (word_of_nat (length bs))) @ bs @ ?q"
        by (subst ab(1)) (simp add: record_bytes_def)
      moreover have "length (?p @ nb @ to_be16 t @ to_be16 c @ to_be32 ttl @ to_be16 (word_of_nat (length bs)))
          = b_cursor b + length nb + 10" by (simp add: ab(2) del: length_take)
      ultimately show ?thesis by (metis slice_append_mid)
    qed
    moreover have "Q m (b_cursor b + length nb + 10) bs"
      using Q [rule_format, OF m] unfolding cur(1) .
    ultimately show ?thesis
      using cur(2) b' by (simp add: reads_record_def record_is_def parse rr_rdata_def)
  qed
  moreover have "table_sound S P' b'"
    using sound_stepD [OF st] h by blast
  moreover have "\<forall>i<b_cursor b. b_out b' ! i = b_out b ! i"
    using wrote_nth_old [OF w] b' by simp
  ultimately show ?thesis using st w b' by (auto simp: sound_step_def wrote_def)
qed

subsection \<open>RDATA writers\<close>

lemma fixed_writer:
  assumes "length bs0 \<le> 16384"
  shows "rdata_writer S [write_u16 (word_of_nat (length bs0)), write_bytes bs0] (\<lambda>m a bs. bs = bs0)"
  unfolding rdata_writer_def
proof (intro conjI allI impI)
  show "keeps (bseq [write_u16 (word_of_nat (length bs0)), write_bytes bs0])"
    by (rule keeps_bseq) (auto simp: keeps_intros)
  fix b P u b'
  assume t: "table_sound S P b"
    and "bseq [write_u16 (word_of_nat (length bs0)), write_bytes bs0] b = (Inr u, b')"
  then obtain b1 where r: "write_u16 (word_of_nat (length bs0)) b = (Inr (), b1)"
    "write_bytes bs0 b1 = (Inr (), b')" by (auto simp: bseq_Inr bseq_Nil_Inr simp del: bseq.simps)
  note st1 = u16_step [OF t r(1)]
  note st2 = bytes_step [OF sound_stepD [OF st1] r(2)]
  show "\<exists>P' bs. sound_step S b P b' P' (to_be16 (word_of_nat (length bs)) @ bs) \<and>
           length bs \<le> u16_max \<and> (\<forall>m. agrees m b' \<longrightarrow> bs = bs0)"
    using sound_step_trans [OF st1 st2] assms by (intro exI [of _ P] exI [of _ bs0]) simp
qed

text \<open>
  \<open>body_writer S body B\<close>: the octets written satisfy \<open>B\<close> together with the names they hold, each
  with its offset in the RDATA.
\<close>

definition body_writer ::
  "bytes list set \<Rightarrow> unit build list \<Rightarrow> (bytes \<Rightarrow> (nat \<times> name) list \<Rightarrow> bool) \<Rightarrow> bool" where
  "body_writer S body B \<longleftrightarrow> (\<forall>m\<in>set body. keeps m) \<and>
     (\<forall>b P u b'. table_sound S P b \<longrightarrow> bseq body b = (Inr u, b') \<longrightarrow> b_cursor b' \<le> 16384 \<longrightarrow>
        length (ct_entries (b_compression b)) \<le> MAX_POINTER_HOPS \<longrightarrow>
        (\<exists>P' bs ns. sound_step S b P b' P' bs \<and> B bs ns \<and>
           (\<forall>(d, n)\<in>set ns. d < length bs \<and> name_ok n \<and>
              (\<exists>h\<le>MAX_POINTER_HOPS. name_over P' (b_out b') (b_cursor b + d) h (name_labels n)))))"

lemma write_rdata_writer:
  assumes "body_writer S body B"
  shows "rdata_writer S [write_rdata body] (\<lambda>m a bs. \<exists>ns. B bs ns \<and>
     (\<forall>(d, n)\<in>set ns. nr_items \<lparr>nr_message = m, nr_start = word_of_nat (a + d)\<rparr> = map Inr (name_labels n)))"
  unfolding rdata_writer_def
proof (intro conjI allI impI)
  show "keeps (bseq [write_rdata body])"
    by (rule keeps_bseq) (use assms in \<open>auto simp: body_writer_def intro: keeps_write_rdata\<close>)
  fix b P u b'
  assume t: "table_sound S P b" and "bseq [write_rdata body] b = (Inr u, b')"
    and lim: "b_cursor b' \<le> 16384" and hops: "length (ct_entries (b_compression b)) \<le> MAX_POINTER_HOPS"
  then obtain b1 b2 where r1: "write_u16 0 b = (Inr (), b1)" and r2: "bseq body b1 = (Inr (), b2)"
    and r3: "patch_rdlen (b_cursor b) (b_cursor b1) b2 = (Inr (), b')"
    by (auto simp: write_rdata_def with_cursor_def bseq_Inr bseq_append_Inr bseq_Nil_Inr simp del: bseq.simps)
  have z: "to_be16 0 = [0, 0]" by (simp add: to_be16_def)
  note st1 = u16_step [OF t r1, unfolded z]
  have "b_cursor b2 = b_cursor b'"
    using r3 by (auto simp: patch_rdlen_def split: option.splits)
  moreover have "length (ct_entries (b_compression b1)) \<le> MAX_POINTER_HOPS"
    using st1 hops by (simp add: sound_step_def)
  moreover note bw = assms [unfolded body_writer_def, THEN conjunct2, rule_format, OF sound_stepD [OF st1] r2]
  ultimately obtain P' bs ns where st2: "sound_step S b1 P b2 P' bs" and B: "B bs ns"
    and ns: "\<forall>(d, n)\<in>set ns. d < length bs \<and> name_ok n \<and>
              (\<exists>h\<le>MAX_POINTER_HOPS. name_over P' (b_out b2) (b_cursor b1 + d) h (name_labels n))"
    using lim by auto
  note pt = patch_step [OF st1 st2 r3 t]
  have c1: "b_cursor b1 = b_cursor b + 2" using st1 by (auto simp: sound_step_def wrote_def)
  have "\<forall>(d, n)\<in>set ns. nr_items \<lparr>nr_message = m, nr_start = word_of_nat (b_cursor b + 2 + d)\<rparr>
           = map Inr (name_labels n)" if m: "agrees m b'" for m
  proof (intro ballI, clarify)
    fix d n assume "(d, n) \<in> set ns"
    with ns obtain h where h: "d < length bs" "name_ok n" "h \<le> MAX_POINTER_HOPS"
      "name_over P' (b_out b2) (b_cursor b1 + d) h (name_labels n)" by blast
    from pt(4) [OF h(4)] have o: "name_over P' (b_out b') (b_cursor b + 2 + d) h (name_labels n)"
      unfolding c1 .
    have "P' \<subseteq> {HEADER_SIZE..<b_cursor b'}" using pt(1) by (simp add: sound_step_def table_sound_def)
    from agrees_over [OF m this o] have o': "name_over P' m (b_cursor b + 2 + d) h (name_labels n)" .
    have "b_cursor b' = b_cursor b + 2 + length bs" using pt(1) by (auto simp: sound_step_def wrote_def)
    then have "b_cursor b + 2 + d \<le> u16_max" using h(1) lim by simp
    then have "unat (word_of_nat (b_cursor b + 2 + d) :: u16) = b_cursor b + 2 + d"
      unfolding unat_u16_of_nat by simp
    then show "nr_items \<lparr>nr_message = m, nr_start = word_of_nat (b_cursor b + 2 + d)\<rparr>
           = map Inr (name_labels n)"
      using o' h(2,3) m by (intro name_reads_back) (auto simp: agrees_def)
  qed
  then show "\<exists>P' bs. sound_step S b P b' P' (to_be16 (word_of_nat (length bs)) @ bs) \<and>
     length bs \<le> u16_max \<and> (\<forall>m. agrees m b' \<longrightarrow> (\<exists>ns. B bs ns \<and>
       (\<forall>(d, n)\<in>set ns. nr_items \<lparr>nr_message = m, nr_start = word_of_nat (b_cursor b + 2 + d)\<rparr>
           = map Inr (name_labels n))))"
    using pt(1,2) B by blast
qed

text \<open>The RDATA bodies of the pushes.\<close>

definition txt_bytes :: "bytes list \<Rightarrow> bytes" where
  "txt_bytes segs = concat (map (\<lambda>s. word_of_nat (length s) # s) segs)"

lemma name_body:
  assumes "inj_on hash_suffix S" "name_ok n" "suffixes_in S (name_labels n)"
    and pre: "\<And>b P u b'. table_sound S P b \<Longrightarrow> bseq pre b = (Inr u, b') \<Longrightarrow> sound_step S b P b' P pb"
    and post: "\<And>b P u b'. table_sound S P b \<Longrightarrow> bseq post b = (Inr u, b') \<Longrightarrow> sound_step S b P b' P qb"
    and k: "\<And>m. m \<in> set (pre @ post) \<Longrightarrow> keeps m"
  shows "body_writer S (pre @ [write_name n] @ post)
     (\<lambda>bs ns. \<exists>nb. bs = pb @ nb @ qb \<and> is_name_bytes nb \<and> ns = [(length pb, n)])"
  unfolding body_writer_def
proof (intro conjI allI impI)
  show "\<forall>m\<in>set (pre @ [write_name n] @ post). keeps m" using k by (auto simp: keeps_intros)
  fix b P u b'
  assume t: "table_sound S P b" and "bseq (pre @ [write_name n] @ post) b = (Inr u, b')"
    and lim: "b_cursor b' \<le> 16384" and hops: "length (ct_entries (b_compression b)) \<le> MAX_POINTER_HOPS"
  then obtain b1 b2 where r1: "bseq pre b = (Inr (), b1)" and r2: "write_name n b1 = (Inr (), b2)"
    and r3: "bseq post b2 = (Inr (), b')"
    by (auto simp: bseq_append_Inr bseq_Inr bseq_Nil_Inr simp del: bseq.simps)
  note st1 = pre [OF t r1] note t1 = sound_stepD [OF st1]
  have "b_cursor b2 \<le> b_cursor b'"
    using keepsD [OF keeps_bseq r3] k by (auto simp: ext_def)
  then obtain Q nb where ns: "name_step S n b1 P b2 Q nb"
    using name_step [OF t1 assms(1-3) r2] lim by auto
  then have st2: "sound_step S b1 P b2 Q nb" and nb: "is_name_bytes nb" by (auto simp: name_step_def)
  from ns obtain h where h: "h \<le> ct_used (b_compression b1)"
    "name_over Q (b_out b2) (b_cursor b1) h (name_labels n)" by (auto simp: name_step_def)
  note st3 = post [OF sound_stepD [OF st2] r3]
  have "length (ct_entries (b_compression b1)) \<le> MAX_POINTER_HOPS"
    using st1 hops by (simp add: sound_step_def)
  then have "h \<le> MAX_POINTER_HOPS" using ct_used_le [OF t1] h(1) le_trans by blast
  moreover have "b_cursor b1 = b_cursor b + length pb" using st1 by (auto simp: sound_step_def wrote_def)
  moreover have "name_over Q (b_out b') (b_cursor b1) h (name_labels n)"
    by (rule sound_step_over [OF st3 sound_stepD [OF st2] h(2)])
  moreover have "nb \<noteq> []" using nb by (auto simp: is_name_bytes_def term_bytes_def split: option.splits)
  ultimately show "\<exists>P' bs ns. sound_step S b P b' P' bs \<and>
     (\<exists>nb. bs = pb @ nb @ qb \<and> is_name_bytes nb \<and> ns = [(length pb, n)]) \<and>
     (\<forall>(d, n)\<in>set ns. d < length bs \<and> name_ok n \<and>
        (\<exists>h\<le>MAX_POINTER_HOPS. name_over P' (b_out b') (b_cursor b + d) h (name_labels n)))"
    using sound_step_trans [OF st1 sound_step_trans [OF st2 st3]] nb assms(2)
    by (intro exI [of _ Q] exI [of _ "pb @ nb @ qb"] exI [of _ "[(length pb, n)]"]) auto
qed

lemma txt_segments_step:
  "table_sound S P b \<Longrightarrow> write_txt_segments segs w b = (Inr w', b') \<Longrightarrow>
     sound_step S b P b' P (txt_bytes segs) \<and> w' = (w \<or> segs \<noteq> []) \<and> (\<forall>s\<in>set segs. length s \<le> 255)"
proof (induction segs arbitrary: b w)
  case Nil
  then show ?case
    using plain_step [of S P b b "[]"] by (auto simp: txt_bytes_def table_sound_def wrote_refl)
next
  case (Cons s segs)
  from Cons.prems(2) obtain b1 b2 where len: "length s \<le> 255"
    and r1: "write_byte (word_of_nat (length s)) b = (Inr (), b1)" and r2: "write_bytes s b1 = (Inr (), b2)"
    and r3: "write_txt_segments segs True b2 = (Inr w', b')"
    by (auto simp: not_less bseq_Inr bseq_Nil_Inr simp del: bseq.simps split: if_splits prod.splits sum.splits)
  note st1 = byte_step [OF Cons.prems(1) r1]
  note st2 = bytes_step [OF sound_stepD [OF st1] r2]
  from Cons.IH [OF sound_stepD [OF st2] r3] sound_step_trans [OF st1 st2] len show ?case
    by (auto simp: txt_bytes_def dest: sound_step_trans)
qed

lemma txt_body:
  "body_writer S [write_txt_body segs]
     (\<lambda>bs ns. ns = [] \<and> bs = (if segs = [] then [0] else txt_bytes segs) \<and> (\<forall>s\<in>set segs. length s \<le> 255))"
  unfolding body_writer_def
proof (intro conjI allI impI)
  show "\<forall>m\<in>set [write_txt_body segs]. keeps m" by (simp add: keeps_intros)
  fix b P u b'
  assume t: "table_sound S P b" and "bseq [write_txt_body segs] b = (Inr u, b')"
  then obtain w b1 where r1: "write_txt_segments segs False b = (Inr w, b1)"
    and r2: "(if \<not> w then write_byte 0 else bseq []) b1 = (Inr (), b')"
    by (auto simp: write_txt_body_def bbind_def bseq_Inr bseq_Nil_Inr simp del: bseq.simps
        split: prod.splits sum.splits)
  note st1 = txt_segments_step [OF t r1]
  show "\<exists>P' bs ns. sound_step S b P b' P' bs \<and>
     (ns = [] \<and> bs = (if segs = [] then [0] else txt_bytes segs) \<and> (\<forall>s\<in>set segs. length s \<le> 255)) \<and>
     (\<forall>(d, n)\<in>set ns. d < length bs \<and> name_ok n \<and>
        (\<exists>h\<le>MAX_POINTER_HOPS. name_over P' (b_out b') (b_cursor b + d) h (name_labels n)))"
  proof (cases "segs = []")
    case True
    with st1 r1 r2 have "write_byte 0 b = (Inr (), b')" by simp
    from byte_step [OF t this] True show ?thesis by (intro exI [of _ P] exI [of _ "[0]"]) simp
  next
    case False
    with st1 r2 show ?thesis by (intro exI [of _ P] exI [of _ "txt_bytes segs"]) simp
  qed
qed

subsection \<open>The NSEC bitmap\<close>

lemma nsec_bits_length:
  "nsec_bits ts bm mx = (bm', mx') \<Longrightarrow> length bm' = length bm"
  by (induction ts bm mx rule: nsec_bits.induct) (auto simp: Let_def split: if_splits option.splits)

lemma nsec_bits_Cons:
  "nsec_bits (t # ts) bm mx =
     (if unat t < 256 \<and> unat t div 8 < length bm
      then nsec_bits ts (bm[unat t div 8 := bm ! (unat t div 8) OR drop_bit (unat t mod 8) 0x80])
             (Some (case mx of None \<Rightarrow> unat t div 8 | Some k \<Rightarrow> max k (unat t div 8)))
      else nsec_bits ts bm mx)"
proof -
  have d: "unat (drop_bit 3 t) = unat t div 8" by (simp add: drop_bit_eq_div unat_div)
  have "(0x07 :: u16) = mask 3" by (simp add: mask_eq_exp_minus_1)
  then have "t AND 0x07 = take_bit 3 t" by (simp add: take_bit_eq_mask)
  then have m: "unat (t AND 0x07) = unat t mod 8" by (simp add: take_bit_eq_mod unat_mod)
  have "256 \<le> t \<longleftrightarrow> \<not> unat t < 256" by (simp add: word_le_nat_alt not_less)
  then show ?thesis by (simp add: Let_def d m get_def)
qed

lemma nsec_bits_max:
  "nsec_bits ts bm mx = (bm', mx') \<Longrightarrow> (\<forall>k. mx = Some k \<longrightarrow> k < length bm) \<Longrightarrow>
     (\<forall>k. mx' = Some k \<longrightarrow> k < length bm)"
proof (induction ts arbitrary: bm mx)
  case (Cons t ts)
  show ?case
  proof (cases "unat t < 256 \<and> unat t div 8 < length bm")
    case True
    let ?bm = "bm[unat t div 8 := bm ! (unat t div 8) OR drop_bit (unat t mod 8) 0x80]"
    let ?mx = "Some (case mx of None \<Rightarrow> unat t div 8 | Some k \<Rightarrow> max k (unat t div 8))"
    have "nsec_bits ts ?bm ?mx = (bm', mx')"
      using Cons.prems(1) True unfolding nsec_bits_Cons by (simp split: if_splits)
    moreover have "\<forall>k. ?mx = Some k \<longrightarrow> k < length ?bm"
      using Cons.prems(2) True by (auto split: option.splits)
    ultimately have "\<forall>k. mx' = Some k \<longrightarrow> k < length ?bm" by (rule Cons.IH)
    then show ?thesis by simp
  next
    case False
    then have "nsec_bits ts bm mx = (bm', mx')" using Cons.prems(1) unfolding nsec_bits_Cons by auto
    then show ?thesis using Cons.IH Cons.prems(2) by blast
  qed
qed simp

text \<open>Bit \<open>t\<close> of a bitmap: octet \<open>t / 8\<close>, the most significant bit first.\<close>

definition nsec_bit :: "bytes \<Rightarrow> nat \<Rightarrow> bool" where
  "nsec_bit bm t \<longleftrightarrow> t div 8 < length bm \<and> bit (bm ! (t div 8)) (7 - t mod 8)"

lemma nsec_mask_bit:
  "i < 8 \<Longrightarrow> bit (drop_bit i (0x80 :: u8)) k \<longleftrightarrow> k = 7 - i"
proof -
  assume i: "i < 8"
  have e: "(0x80 :: u8) = push_bit 7 1" by simp
  have b: "bit (0x80 :: u8) k \<longleftrightarrow> k = 7" for k
    unfolding e bit_push_bit_iff bit_1_iff by auto
  show ?thesis unfolding bit_drop_bit_eq comp_def b using i by linarith
qed

lemma diff7: "a \<le> 7 \<Longrightarrow> b \<le> 7 \<Longrightarrow> 7 - a = 7 - b \<longleftrightarrow> a = (b :: nat)"
  by linarith

lemma nsec_bits_spec:
  assumes "nsec_bits ts bm mx = (bm', mx')" "length bm = 32" "t < 256"
  shows "nsec_bit bm' t \<longleftrightarrow> nsec_bit bm t \<or> t \<in> unat ` set ts"
  using assms
proof (induction ts arbitrary: bm mx)
  case (Cons x ts)
  show ?case
  proof (cases "unat x < 256")
    case True
    let ?i = "unat x div 8" and ?m = "drop_bit (unat x mod 8) (0x80 :: u8)"
    let ?bm = "bm[?i := bm ! ?i OR ?m]"
    have i: "?i < length bm" using True Cons.prems(2) by simp
    have "nsec_bits ts ?bm (Some (case mx of None \<Rightarrow> ?i | Some k \<Rightarrow> max k ?i)) = (bm', mx')"
      using Cons.prems(1) True i unfolding nsec_bits_Cons by simp
    from Cons.IH [OF this] Cons.prems(2,3)
    have IH: "nsec_bit bm' t \<longleftrightarrow> nsec_bit ?bm t \<or> t \<in> unat ` set ts" by simp
    have "nsec_bit ?bm t \<longleftrightarrow> nsec_bit bm t \<or> t = unat x"
    proof (cases "t div 8 = ?i")
      case True
      have "7 - t mod 8 = 7 - unat x mod 8 \<longleftrightarrow> t mod 8 = unat x mod 8"
        by (rule diff7) (simp_all add: less_Suc_eq_le [symmetric])
      also have "\<dots> \<longleftrightarrow> t = unat x"
        using True div_mult_mod_eq [of t 8] div_mult_mod_eq [of "unat x" 8] by auto
      finally show ?thesis using True i
        by (simp add: nsec_bit_def bit_or_iff nsec_mask_bit)
    next
      case False
      then show ?thesis by (auto simp: nsec_bit_def)
    qed
    with IH show ?thesis by auto
  next
    case False
    then have "nsec_bits ts bm mx = (bm', mx')" using Cons.prems(1) unfolding nsec_bits_Cons by simp
    from Cons.IH [OF this Cons.prems(2,3)] False Cons.prems(3) show ?thesis by auto
  qed
qed simp

text \<open>The bitmap is cut after its last non-zero octet.\<close>

lemma nsec_bits_tail:
  assumes "nsec_bits ts bm mx = (bm', mx')" "\<forall>i<length bm. bm ! i \<noteq> 0 \<longrightarrow> (\<exists>k. mx = Some k \<and> i \<le> k)"
  shows "\<forall>i<length bm'. bm' ! i \<noteq> 0 \<longrightarrow> (\<exists>k. mx' = Some k \<and> i \<le> k)"
  using assms
proof (induction ts arbitrary: bm mx)
  case (Cons x ts)
  show ?case
  proof (cases "unat x < 256 \<and> unat x div 8 < length bm")
    case True
    let ?i = "unat x div 8"
    let ?bm = "bm[?i := bm ! ?i OR drop_bit (unat x mod 8) 0x80]"
    let ?k = "case mx of None \<Rightarrow> ?i | Some k \<Rightarrow> max k ?i"
    have "nsec_bits ts ?bm (Some ?k) = (bm', mx')"
      using Cons.prems(1) True unfolding nsec_bits_Cons by (simp split: if_splits)
    moreover have "\<forall>i<length ?bm. ?bm ! i \<noteq> 0 \<longrightarrow> (\<exists>k. Some ?k = Some k \<and> i \<le> k)"
    proof (intro allI impI)
      fix i assume i: "i < length ?bm" "?bm ! i \<noteq> 0"
      show "\<exists>k. Some ?k = Some k \<and> i \<le> k"
      proof (cases "i = ?i")
        case True
        then show ?thesis by (auto split: option.splits)
      next
        case False
        then have "bm ! i \<noteq> 0" using i by simp
        with Cons.prems(2) i(1) obtain k where "mx = Some k" "i \<le> k" by auto
        then show ?thesis by auto
      qed
    qed
    ultimately show ?thesis by (rule Cons.IH)
  next
    case False
    then have "nsec_bits ts bm mx = (bm', mx')" using Cons.prems(1) unfolding nsec_bits_Cons by auto
    then show ?thesis using Cons.IH Cons.prems(2) by blast
  qed
qed simp

definition nsec_bytes :: "u16 list \<Rightarrow> bytes" where
  "nsec_bytes ts = (case nsec_bits ts (replicate 32 0) None of
     (bm, None) \<Rightarrow> [] | (bm, Some k) \<Rightarrow> [0, word_of_nat (k + 1)] @ take (k + 1) bm)"

lemma nsec_bitmap_step:
  assumes "table_sound S P b" "nsec_bitmap_body ts b = (Inr u, b')"
  shows "sound_step S b P b' P (nsec_bytes ts)"
proof -
  obtain bm mx where bits: "nsec_bits ts (replicate 32 0) None = (bm, mx)"
    by (cases "nsec_bits ts (replicate 32 0) None")
  have len: "length bm = 32" using nsec_bits_length [OF bits] by simp
  show ?thesis
  proof (cases mx)
    case None
    then have "b' = b" using assms(2) bits by (simp add: nsec_bitmap_body_def)
    then show ?thesis
      using assms(1) plain_step [of S P b b "[]"] bits None
      by (auto simp: nsec_bytes_def table_sound_def wrote_refl)
  next
    case (Some k)
    have k: "k < 32" using nsec_bits_max [OF bits] Some by simp
    have "map (\<lambda>i. write_byte (case get bm i of None \<Rightarrow> 0 | Some v \<Rightarrow> v)) [0..<k + 1]
        = map write_byte (take (k + 1) bm)"
      using k len by (intro nth_equalityI) (auto simp: get_def simp del: upt_Suc)
    then have "bseq ([write_byte 0, write_byte (word_of_nat (k + 1))] @ map write_byte (take (k + 1) bm)) b = (Inr u, b')"
      using assms(2) bits Some by (simp add: nsec_bitmap_body_def Let_def del: bseq.simps upt_Suc)
    then have "write_bytes (nsec_bytes ts) b = (Inr u, b')"
      using bits Some by (simp add: nsec_bytes_def write_bytes_def)
    from bytes_step [OF assms(1) this] show ?thesis .
  qed
qed

end
