(* ===== verification/BuilderMessage.thy ===== *)
theory BuilderMessage
  imports BuilderRoundTrip
begin

text \<open>
  Whole messages: a sequence of pushes, finished, read by the message reader.  \<open>item\<close> names the
  twelve pushes with their arguments; \<open>reads_item\<close> says what a parser must find where the item was
  written.
\<close>

datatype item =
    Question name resource_type resource_class bool
  | Answer_A name u32 bytes bool
  | Answer_AAAA name u32 bytes bool
  | Answer_Srv name u32 u16 u16 u16 name bool
  | Answer_Txt name u32 "bytes list" bool
  | Answer_Ptr name u32 name
  | Auth_A name u32 bytes
  | Auth_AAAA name u32 bytes
  | Auth_Srv name u32 u16 u16 u16 name
  | Auth_Txt name u32 "bytes list"
  | Auth_Ptr name u32 name
  | Add_Nsec name u32 "u16 list" bool

fun push_item :: "item \<Rightarrow> unit build" where
  "push_item (Question n t c u) = push_question n t c u"
| "push_item (Answer_A n l a f) = push_a_answer n l a f"
| "push_item (Answer_AAAA n l a f) = push_aaaa_answer n l a f"
| "push_item (Answer_Srv n l p w q tg f) = push_srv_answer n l p w q tg f"
| "push_item (Answer_Txt n l segs f) = push_txt_answer n l segs f"
| "push_item (Answer_Ptr n l tg) = push_ptr_answer n l tg"
| "push_item (Auth_A n l a) = push_a_authority n l a"
| "push_item (Auth_AAAA n l a) = push_aaaa_authority n l a"
| "push_item (Auth_Srv n l p w q tg) = push_srv_authority n l p w q tg"
| "push_item (Auth_Txt n l segs) = push_txt_authority n l segs"
| "push_item (Auth_Ptr n l tg) = push_ptr_authority n l tg"
| "push_item (Add_Nsec n l ts f) = push_nsec_additional n l ts f"

text \<open>Sections in the order of the message: questions, answers, authority, additional.\<close>

fun item_section :: "item \<Rightarrow> nat" where
  "item_section (Question _ _ _ _) = 0"
| "item_section (Auth_A _ _ _) = 2"
| "item_section (Auth_AAAA _ _ _) = 2"
| "item_section (Auth_Srv _ _ _ _ _ _) = 2"
| "item_section (Auth_Txt _ _ _) = 2"
| "item_section (Auth_Ptr _ _ _) = 2"
| "item_section (Add_Nsec _ _ _ _) = 3"
| "item_section _ = 1"

definition item_inc :: "item \<Rightarrow> header \<Rightarrow> header" where
  "item_inc it h =
     (if item_section it = 0 then h\<lparr>question_count := sat_inc16 (question_count h)\<rparr>
      else if item_section it = 1 then h\<lparr>answer_count := sat_inc16 (answer_count h)\<rparr>
      else if item_section it = 2 then h\<lparr>authority_count := sat_inc16 (authority_count h)\<rparr>
      else h\<lparr>additional_count := sat_inc16 (additional_count h)\<rparr>)"

fun item_names :: "item \<Rightarrow> name list" where
  "item_names (Answer_Srv n _ _ _ _ tg _) = [n, tg]"
| "item_names (Answer_Ptr n _ tg) = [n, tg]"
| "item_names (Auth_Srv n _ _ _ _ tg) = [n, tg]"
| "item_names (Auth_Ptr n _ tg) = [n, tg]"
| "item_names (Question n _ _ _) = [n]"
| "item_names (Answer_A n _ _ _) = [n]"
| "item_names (Answer_AAAA n _ _ _) = [n]"
| "item_names (Answer_Txt n _ _ _) = [n]"
| "item_names (Auth_A n _ _) = [n]"
| "item_names (Auth_AAAA n _ _) = [n]"
| "item_names (Auth_Txt n _ _) = [n]"
| "item_names (Add_Nsec n _ _ _) = [n]"

text \<open>The invariants of the argument types: stored names, and addresses of four and sixteen octets.\<close>

fun addr_ok :: "item \<Rightarrow> bool" where
  "addr_ok (Answer_A _ _ a _) \<longleftrightarrow> length a = 4"
| "addr_ok (Answer_AAAA _ _ a _) \<longleftrightarrow> length a = 16"
| "addr_ok (Auth_A _ _ a) \<longleftrightarrow> length a = 4"
| "addr_ok (Auth_AAAA _ _ a) \<longleftrightarrow> length a = 16"
| "addr_ok _ \<longleftrightarrow> True"

definition item_ok :: "bytes list set \<Rightarrow> item \<Rightarrow> bool" where
  "item_ok S it \<longleftrightarrow> addr_ok it \<and> (\<forall>n\<in>set (item_names it). name_ok n \<and> suffixes_in S (name_labels n))"

subsection \<open>What a reader finds\<close>

definition view_srv :: "u16 \<Rightarrow> u16 \<Rightarrow> u16 \<Rightarrow> name \<Rightarrow> record_ref \<Rightarrow> bool" where
  "view_srv p w q tg r \<longleftrightarrow>
     (case rdata_view r of
        Inr (Rdata_Srv s) \<Rightarrow> srv_priority s = p \<and> srv_weight s = w \<and> srv_port s = q \<and>
          nr_items (srv_target s) = map Inr (name_labels tg)
      | _ \<Rightarrow> False)"

definition view_ptr :: "name \<Rightarrow> record_ref \<Rightarrow> bool" where
  "view_ptr tg r \<longleftrightarrow>
     (case rdata_view r of
        Inr (Rdata_Ptr p) \<Rightarrow> nr_items p = map Inr (name_labels tg)
      | _ \<Rightarrow> False)"

definition view_txt :: "bytes list \<Rightarrow> record_ref \<Rightarrow> bool" where
  "view_txt segs r \<longleftrightarrow>
     (case rdata_view r of
        Inr (Rdata_Txt t) \<Rightarrow> txt_segments t = map Inr (if segs = [] then [[]] else segs)
      | _ \<Rightarrow> False)"

text \<open>The types an NSEC bitmap in one window block 0 asserts.\<close>

definition bitmap_has :: "bytes \<Rightarrow> nat \<Rightarrow> bool" where
  "bitmap_has bm t \<longleftrightarrow> (case bm of w # k # bits \<Rightarrow> w = 0 \<and> unat k = length bits \<and> nsec_bit bits t | _ \<Rightarrow> False)"

definition view_nsec :: "name \<Rightarrow> u16 list \<Rightarrow> record_ref \<Rightarrow> bool" where
  "view_nsec n ts r \<longleftrightarrow>
     (case rdata_view r of
        Inr (Rdata_Nsec x) \<Rightarrow> nr_items (next_name x) = map Inr (name_labels n) \<and>
          (\<forall>t<256. bitmap_has (type_bitmap x) t \<longleftrightarrow> t \<in> unat ` set ts)
      | _ \<Rightarrow> False)"

text \<open>The question, or the record, that an item becomes.\<close>

fun item_question :: "item \<Rightarrow> question_ref \<Rightarrow> bool" where
  "item_question (Question n t c u) q \<longleftrightarrow>
     nr_items (q_name q) = map Inr (name_labels n) \<and>
     q_type q = rtype_from_u16 (rtype_to_u16 t) \<and>
     q_class q = rclass_from_u16 (rclass_to_u16 c) \<and>
     q_unicast q = (u \<or> rclass_to_u16 c AND UNICAST_RESPONSE_BIT \<noteq> 0)"
| "item_question _ q \<longleftrightarrow> False"

fun item_record :: "item \<Rightarrow> record_ref \<Rightarrow> bool" where
  "item_record (Question n t c u) = (\<lambda>r. False)"
| "item_record (Answer_A n l ad f) =
     record_is n 1 (class_flush f) l (\<lambda>r. rdata_view r = Inr (Rdata_A ad))"
| "item_record (Answer_AAAA n l ad f) =
     record_is n 28 (class_flush f) l (\<lambda>r. rdata_view r = Inr (Rdata_AAAA ad))"
| "item_record (Answer_Srv n l p w q tg f) = record_is n 33 (class_flush f) l (view_srv p w q tg)"
| "item_record (Answer_Txt n l segs f) = record_is n 16 (class_flush f) l (view_txt segs)"
| "item_record (Answer_Ptr n l tg) = record_is n 12 1 l (view_ptr tg)"
| "item_record (Auth_A n l ad) = record_is n 1 1 l (\<lambda>r. rdata_view r = Inr (Rdata_A ad))"
| "item_record (Auth_AAAA n l ad) = record_is n 28 1 l (\<lambda>r. rdata_view r = Inr (Rdata_AAAA ad))"
| "item_record (Auth_Srv n l p w q tg) = record_is n 33 1 l (view_srv p w q tg)"
| "item_record (Auth_Txt n l segs) = record_is n 16 1 l (view_txt segs)"
| "item_record (Auth_Ptr n l tg) = record_is n 12 1 l (view_ptr tg)"
| "item_record (Add_Nsec n l ts f) = record_is n 47 (class_flush f) l (view_nsec n ts)"

definition reads_item :: "bytes \<Rightarrow> nat \<Rightarrow> nat \<Rightarrow> item \<Rightarrow> bool" where
  "reads_item m a e it \<longleftrightarrow>
     (if item_section it = 0
      then (case question_try_parse m a of Inl _ \<Rightarrow> False | Inr (q, e') \<Rightarrow> e' = e \<and> item_question it q)
      else reads_record m a e (item_record it))"

lemma reads_record_mono:
  assumes "reads_record m a e (record_is n t c l V)"
    and "\<And>r. record_try_parse m a = Inr (r, e) \<Longrightarrow> rr_rtype r = rtype_from_u16 t \<Longrightarrow> V r \<Longrightarrow> W r"
  shows "reads_record m a e (record_is n t c l W)"
  using assms by (auto simp: reads_record_def record_is_def split: sum.splits)

subsection \<open>Typed views of written RDATA\<close>

lemma rr_decompose:
  assumes "record_try_parse m a = Inr (r, e)"
  shows "rr_message r = m" "length (rr_rdata r) = rdata_len r" "rdata_start r + rdata_len r = e"
    "m = take (rdata_start r) m @ rr_rdata r @ drop e m" "length (take (rdata_start r) m) = rdata_start r"
proof -
  note b = record_parse_bounds [OF assms]
  then have "rr_message r = m" "rdata_start r + rdata_len r = e" "e \<le> length m" by auto
  note d = rr_rdata_eq [of r]
  show "rr_message r = m" "length (rr_rdata r) = rdata_len r" "rdata_start r + rdata_len r = e"
    "length (take (rdata_start r) m) = rdata_start r"
    using b d by auto
  show "m = take (rdata_start r) m @ rr_rdata r @ drop e m"
    using d \<open>rr_message r = m\<close> \<open>rdata_start r + rdata_len r = e\<close> \<open>e \<le> length m\<close>
    by (metis add.commute append_take_drop_id drop_drop)
qed

lemma name_bytes_in_rdata:
  assumes "record_try_parse m a = Inr (r, e)" "rr_rdata r = pre @ nb @ post" "is_name_bytes nb"
    "rdata_start r + length pre \<le> u16_max"
  shows "nr_try_parse m (rdata_start r + length pre)
     = Inr (\<lparr>nr_message = m, nr_start = word_of_nat (rdata_start r + length pre)\<rparr>, length nb)"
proof -
  note d = rr_decompose [OF assms(1)]
  have m: "(take (rdata_start r) m @ pre) @ nb @ post @ drop e m = m"
    using d(4) assms(2) by simp
  have "length (take (rdata_start r) m @ pre) = rdata_start r + length pre" using d(5) by simp
  then show ?thesis
    using nr_parse_name_bytes [OF assms(3), of "take (rdata_start r) m @ pre" "post @ drop e m"] assms(4)
    unfolding m by simp
qed

lemma view_ptr_intro:
  assumes "record_try_parse m a = Inr (r, e)" "rr_rtype r = RT_Ptr" "is_name_bytes (rr_rdata r)"
    "rdata_start r \<le> u16_max"
    "nr_items \<lparr>nr_message = m, nr_start = word_of_nat (rdata_start r)\<rparr> = map Inr (name_labels tg)"
  shows "view_ptr tg r"
  using name_bytes_in_rdata [OF assms(1), of "[]" "rr_rdata r" "[]"] assms rr_decompose(1,2) [OF assms(1)]
  by (simp add: view_ptr_def rdata_view_def ptr_try_from_message_def)

lemma view_srv_intro:
  assumes "record_try_parse m a = Inr (r, e)" "rr_rtype r = RT_Srv" "is_name_bytes nb"
    "rr_rdata r = to_be16 p @ to_be16 w @ to_be16 q @ nb" "rdata_start r + 6 \<le> u16_max"
    "nr_items \<lparr>nr_message = m, nr_start = word_of_nat (rdata_start r + 6)\<rparr> = map Inr (name_labels tg)"
  shows "view_srv p w q tg r"
proof -
  let ?s = "rdata_start r" and ?pre = "to_be16 p @ to_be16 w @ to_be16 q"
  note d = rr_decompose [OF assms(1)]
  have nm: "nr_try_parse m (?s + 6)
      = Inr (\<lparr>nr_message = m, nr_start = word_of_nat (?s + 6)\<rparr>, length nb)"
    using name_bytes_in_rdata [OF assms(1), of ?pre nb "[]"] assms(3-5) by simp
  have m: "m = take ?s m @ ?pre @ nb @ drop e m" using d(4) assms(4) by simp
  have "slice m ?s (?s + 6) = Some ?pre"
    using slice_append_mid [of "take ?s m" ?pre "nb @ drop e m"] d(5) m by (simp del: length_take)
  then have "chunk m ?s 6 = Inr ?pre" by (simp add: chunk_def)
  then have "srv_try_from_message m ?s (rdata_len r)
      = Inr \<lparr>srv_priority = p, srv_weight = w, srv_port = q,
             srv_target = \<lparr>nr_message = m, nr_start = word_of_nat (?s + 6)\<rparr>\<rparr>"
    using nm d(2) assms(4)
    by (simp add: srv_try_from_message_def Let_def nth_append numeral_eq_Suc pred_numeral_simps
        del: of_nat_add)
  then show ?thesis using assms(2,6) d(1) by (simp add: view_srv_def rdata_view_def)
qed

lemma txt_segments_bytes:
  "\<forall>s\<in>set segs. length s \<le> 255 \<Longrightarrow> txt_segments (txt_bytes segs) = map Inr segs"
proof (induction segs)
  case Nil
  then show ?case by (simp add: txt_bytes_def txt_segments.simps txt_next_def)
next
  case (Cons s segs)
  have "unat (word_of_nat (length s) :: u8) = length s"
    unfolding unat_u8_of_nat using Cons.prems by simp
  then have "txt_next (txt_bytes (s # segs)) = (Some (Inr s), txt_bytes segs)"
    by (simp add: txt_next_def txt_bytes_def)
  then show ?case using Cons by (subst txt_segments.simps) simp
qed

lemma view_txt_intro:
  assumes "rr_rtype r = RT_Txt" "rr_rdata r = (if segs = [] then [0] else txt_bytes segs)"
    "\<forall>s\<in>set segs. length s \<le> 255"
  shows "view_txt segs r"
proof (cases "segs = []")
  case True
  have "txt_segments [0] = [Inr []]" by code_simp
  then show ?thesis using assms True by (simp add: view_txt_def rdata_view_def)
next
  case False
  then show ?thesis using assms by (simp add: view_txt_def rdata_view_def txt_segments_bytes)
qed

lemma bitmap_has_nsec_bytes: "t < 256 \<Longrightarrow> bitmap_has (nsec_bytes ts) t \<longleftrightarrow> t \<in> unat ` set ts"
proof -
  assume t: "t < 256"
  obtain bm mx where bits: "nsec_bits ts (replicate 32 0) None = (bm, mx)"
    by (cases "nsec_bits ts (replicate 32 0) None")
  have len: "length bm = 32" using nsec_bits_length [OF bits] by simp
  have "\<not> nsec_bit (replicate 32 0) t" by (simp add: nsec_bit_def)
  then have has: "nsec_bit bm t \<longleftrightarrow> t \<in> unat ` set ts" using nsec_bits_spec [OF bits _ t] by simp
  have tail: "\<forall>i<length bm. bm ! i \<noteq> 0 \<longrightarrow> (\<exists>k. mx = Some k \<and> i \<le> k)"
    by (rule nsec_bits_tail [OF bits]) simp
  have nz: "bm ! (t div 8) \<noteq> 0" if "nsec_bit bm t" using that by (auto simp: nsec_bit_def)
  show ?thesis
  proof (cases mx)
    case None
    then have "\<not> nsec_bit bm t" using tail nz by (auto simp: nsec_bit_def)
    then show ?thesis using has bits None by (simp add: nsec_bytes_def bitmap_has_def)
  next
    case (Some k)
    have k: "k < 32" using nsec_bits_max [OF bits] Some by simp
    have "nsec_bit (take (k + 1) bm) t \<longleftrightarrow> nsec_bit bm t"
      using tail nz Some k len by (auto simp: nsec_bit_def)
    moreover have "unat (word_of_nat (k + 1) :: u8) = length (take (k + 1) bm)"
      unfolding unat_u8_of_nat using k len by simp
    ultimately show ?thesis using has bits Some by (simp add: nsec_bytes_def bitmap_has_def del: of_nat_Suc)
  qed
qed

lemma view_nsec_intro:
  assumes "record_try_parse m a = Inr (r, e)" "rr_rtype r = RT_Nsec" "is_name_bytes nb"
    "rr_rdata r = nb @ nsec_bytes ts" "rdata_start r \<le> u16_max"
    "nr_items \<lparr>nr_message = m, nr_start = word_of_nat (rdata_start r)\<rparr> = map Inr (name_labels n)"
  shows "view_nsec n ts r"
proof -
  let ?s = "rdata_start r"
  note d = rr_decompose [OF assms(1)]
  have nm: "nr_try_parse m ?s = Inr (\<lparr>nr_message = m, nr_start = word_of_nat ?s\<rparr>, length nb)"
    using name_bytes_in_rdata [OF assms(1), of "[]" nb "nsec_bytes ts"] assms(3-5) by simp
  have m: "m = (take ?s m @ nb) @ nsec_bytes ts @ drop e m" using d(4) assms(4) by simp
  have "slice m (?s + length nb) (?s + length nb + length (nsec_bytes ts)) = Some (nsec_bytes ts)"
    using slice_append_mid [of "take ?s m @ nb" "nsec_bytes ts" "drop e m"] d(5) m by (simp del: length_take)
  moreover have "rdata_len r = length nb + length (nsec_bytes ts)" using d(2) assms(4) by simp
  ultimately have "nsec_try_from_message m ?s (rdata_len r)
      = Inr \<lparr>next_name = \<lparr>nr_message = m, nr_start = word_of_nat ?s\<rparr>, type_bitmap = nsec_bytes ts\<rparr>"
    using nm by (simp add: nsec_try_from_message_def Let_def add.assoc)
  then show ?thesis using assms(2,6) d(1) by (simp add: view_nsec_def rdata_view_def bitmap_has_nsec_bytes)
qed

subsection \<open>One push\<close>

text \<open>What a successful push establishes.\<close>

definition pushed :: "bytes list set \<Rightarrow> builder \<Rightarrow> builder \<Rightarrow> (header \<Rightarrow> header) \<Rightarrow> (bytes \<Rightarrow> bool) \<Rightarrow> bool" where
  "pushed S b b' f R \<longleftrightarrow>
     (\<exists>P'. table_sound S P' b') \<and> b_cursor b \<le> b_cursor b' \<and> b_header b' = f (b_header b) \<and>
     length (ct_entries (b_compression b')) = length (ct_entries (b_compression b)) \<and>
     (\<forall>i<b_cursor b. b_out b' ! i = b_out b ! i) \<and> (\<forall>m. agrees m b' \<longrightarrow> R m)"

lemma pushed_record:
  assumes "table_sound S P b" "inj_on hash_suffix S" "name_ok n" "suffixes_in S (name_labels n)"
    and "rdata_writer S rd Q"
    and "bseq ([write_name n, write_u16 t, write_u16 c, write_u32 ttl] @ rd @ [set_header f]) b = (Inr u, b')"
    and "b_cursor b' \<le> 16384" "length (ct_entries (b_compression b)) \<le> MAX_POINTER_HOPS"
    and view: "\<And>m a r. record_try_parse m a = Inr (r, b_cursor b') \<Longrightarrow> rr_rtype r = rtype_from_u16 t \<Longrightarrow>
       rr_message r = m \<Longrightarrow> Q m (rdata_start r) (rr_rdata r) \<Longrightarrow> rdata_len r = length (rr_rdata r) \<Longrightarrow>
       rdata_start r + rdata_len r \<le> 16384 \<Longrightarrow> W r"
  shows "pushed S b b' f (\<lambda>m. reads_record m (b_cursor b) (b_cursor b') (record_is n t c ttl W))"
proof -
  from push_record_reads [OF assms(1-8)] obtain P' where P': "table_sound S P' b'"
    "b_cursor b \<le> b_cursor b'" "b_header b' = f (b_header b)"
    "length (ct_entries (b_compression b')) = length (ct_entries (b_compression b))"
    "\<forall>i<b_cursor b. b_out b' ! i = b_out b ! i"
    and rd: "\<And>m. agrees m b' \<Longrightarrow> reads_record m (b_cursor b) (b_cursor b') (record_is n t c ttl
       (\<lambda>r. rr_message r = m \<and> Q m (rdata_start r) (rr_rdata r) \<and> rdata_len r = length (rr_rdata r)))"
    by blast
  have "reads_record m (b_cursor b) (b_cursor b') (record_is n t c ttl W)" if "agrees m b'" for m
    using rd [OF that]
  proof (rule reads_record_mono)
    fix r
    assume p: "record_try_parse m (b_cursor b) = Inr (r, b_cursor b')" and ty: "rr_rtype r = rtype_from_u16 t"
      and q: "rr_message r = m \<and> Q m (rdata_start r) (rr_rdata r) \<and> rdata_len r = length (rr_rdata r)"
    have "rdata_start r + rdata_len r \<le> 16384" using rr_decompose(3) [OF p] assms(7) by simp
    with p ty q show "W r" by (intro view) auto
  qed
  with P' show ?thesis unfolding pushed_def by blast
qed

lemma simple_writers:
  assumes "inj_on hash_suffix S" "name_ok tg" "suffixes_in S (name_labels tg)"
  shows "body_writer S [write_name tg]
      (\<lambda>bs ns. is_name_bytes bs \<and> ns = [(0, tg)])"
    and "body_writer S [write_u16 p, write_u16 w, write_u16 q, write_name tg]
      (\<lambda>bs ns. \<exists>nb. bs = to_be16 p @ to_be16 w @ to_be16 q @ nb \<and> is_name_bytes nb \<and> ns = [(6, tg)])"
    and "body_writer S [write_name tg, nsec_bitmap_body ts]
      (\<lambda>bs ns. \<exists>nb. bs = nb @ nsec_bytes ts \<and> is_name_bytes nb \<and> ns = [(0, tg)])"
proof -
  have empty: "sound_step S b P b' P []" if "table_sound S P b" "bseq [] b = (Inr u, b')" for b P u b'
    using that plain_step [of S P b b "[]"] by (auto simp: table_sound_def wrote_refl)
  have three: "sound_step S b P b' P (to_be16 p @ to_be16 w @ to_be16 q)"
    if "table_sound S P b" "bseq [write_u16 p, write_u16 w, write_u16 q] b = (Inr u, b')" for b P u b'
  proof -
    from that(2) obtain b1 b2 where r: "write_u16 p b = (Inr (), b1)" "write_u16 w b1 = (Inr (), b2)"
      "write_u16 q b2 = (Inr (), b')" by (auto simp: bseq_Inr bseq_Nil_Inr simp del: bseq.simps)
    note s1 = u16_step [OF that(1) r(1)]
    note s2 = u16_step [OF sound_stepD [OF s1] r(2)]
    note s3 = u16_step [OF sound_stepD [OF s2] r(3)]
    show ?thesis using sound_step_trans [OF s1 sound_step_trans [OF s2 s3]] .
  qed
  have bm: "sound_step S b P b' P (nsec_bytes ts)"
    if "table_sound S P b" "bseq [nsec_bitmap_body ts] b = (Inr u, b')" for b P u b'
    using that by (intro nsec_bitmap_step) (auto simp: bseq_Inr bseq_Nil_Inr simp del: bseq.simps)
  have k: "\<And>m. m \<in> set ([write_u16 p, write_u16 w, write_u16 q] @ []) \<Longrightarrow> keeps m"
    "\<And>m. m \<in> set ([] @ [nsec_bitmap_body ts]) \<Longrightarrow> keeps m" "\<And>m. m \<in> set ([] @ []) \<Longrightarrow> keeps m"
    by (auto simp: keeps_intros)
  show "body_writer S [write_name tg] (\<lambda>bs ns. is_name_bytes bs \<and> ns = [(0, tg)])"
    using name_body [where pre = "[]" and post = "[]" and pb = "[]" and qb = "[]", OF assms empty empty k(3)] by simp
  show "body_writer S [write_u16 p, write_u16 w, write_u16 q, write_name tg]
      (\<lambda>bs ns. \<exists>nb. bs = to_be16 p @ to_be16 w @ to_be16 q @ nb \<and> is_name_bytes nb \<and> ns = [(6, tg)])"
    using name_body [where pre = "[write_u16 p, write_u16 w, write_u16 q]" and post = "[]"
        and pb = "to_be16 p @ to_be16 w @ to_be16 q" and qb = "[]", OF assms three empty k(1)] by simp
  show "body_writer S [write_name tg, nsec_bitmap_body ts]
      (\<lambda>bs ns. \<exists>nb. bs = nb @ nsec_bytes ts \<and> is_name_bytes nb \<and> ns = [(0, tg)])"
    using name_body [where pre = "[]" and post = "[nsec_bitmap_body ts]" and pb = "[]"
        and qb = "nsec_bytes ts", OF assms empty bm k(2)] by simp
qed

text \<open>
  \<open>writes_record S n t c ttl rd W\<close>: pushing a record with this name, type, class, TTL and RDATA
  writer leaves octets that read as such a record with view \<open>W\<close>.
\<close>

definition writes_record ::
  "bytes list set \<Rightarrow> name \<Rightarrow> u16 \<Rightarrow> u16 \<Rightarrow> u32 \<Rightarrow> unit build list \<Rightarrow> (record_ref \<Rightarrow> bool) \<Rightarrow> bool" where
  "writes_record S n t c ttl rd W \<longleftrightarrow>
     (\<forall>b P u b' f. table_sound S P b \<longrightarrow>
        bseq ([write_name n, write_u16 t, write_u16 c, write_u32 ttl] @ rd @ [set_header f]) b = (Inr u, b') \<longrightarrow>
        b_cursor b' \<le> 16384 \<longrightarrow> length (ct_entries (b_compression b)) \<le> MAX_POINTER_HOPS \<longrightarrow>
        pushed S b b' f (\<lambda>m. reads_record m (b_cursor b) (b_cursor b') (record_is n t c ttl W)))"

lemma writes_record_intro:
  assumes "inj_on hash_suffix S" "name_ok n" "suffixes_in S (name_labels n)" "rdata_writer S rd Q"
    and view: "\<And>m a e r. record_try_parse m a = Inr (r, e) \<Longrightarrow> rr_rtype r = rtype_from_u16 t \<Longrightarrow>
       Q m (rdata_start r) (rr_rdata r) \<Longrightarrow> rdata_start r + length (rr_rdata r) \<le> 16384 \<Longrightarrow> W r"
  shows "writes_record S n t c ttl rd W"
  unfolding writes_record_def
proof (intro allI impI)
  fix b P u b' f
  assume p: "table_sound S P b"
    "bseq ([write_name n, write_u16 t, write_u16 c, write_u32 ttl] @ rd @ [set_header f]) b = (Inr u, b')"
    "b_cursor b' \<le> 16384" "length (ct_entries (b_compression b)) \<le> MAX_POINTER_HOPS"
  show "pushed S b b' f (\<lambda>m. reads_record m (b_cursor b) (b_cursor b') (record_is n t c ttl W))"
    by (rule pushed_record [OF p(1) assms(1-4) p(2-4)]) (use view in auto)
qed

lemma rtype_codes [simp]:
  "rtype_to_u16 RT_A = 1" "rtype_to_u16 RT_AAAA = 28" "rtype_to_u16 RT_Srv = 33"
  "rtype_to_u16 RT_Txt = 16" "rtype_to_u16 RT_Ptr = 12" "rtype_to_u16 RT_Nsec = 47"
  "rtype_from_u16 1 = RT_A" "rtype_from_u16 28 = RT_AAAA" "rtype_from_u16 33 = RT_Srv"
  "rtype_from_u16 16 = RT_Txt" "rtype_from_u16 12 = RT_Ptr" "rtype_from_u16 47 = RT_Nsec"
  by (simp_all add: rtype_from_u16_def)

lemma writes_addr:
  assumes "inj_on hash_suffix S" "name_ok n" "suffixes_in S (name_labels n)"
  shows "length ad = 4 \<Longrightarrow> writes_record S n 1 c ttl [write_u16 4, write_bytes ad]
           (\<lambda>r. rdata_view r = Inr (Rdata_A ad))"
    and "length ad = 16 \<Longrightarrow> writes_record S n 28 c ttl [write_u16 16, write_bytes ad]
           (\<lambda>r. rdata_view r = Inr (Rdata_AAAA ad))"
proof -
  assume l: "length ad = 4"
  have w: "rdata_writer S [write_u16 4, write_bytes ad] (\<lambda>m a bs. bs = ad)"
    using fixed_writer [of ad S] l by simp
  have "slice ad 0 4 = Some ad" using l by (simp add: slice_def)
  then show "writes_record S n 1 c ttl [write_u16 4, write_bytes ad] (\<lambda>r. rdata_view r = Inr (Rdata_A ad))"
    by (intro writes_record_intro [OF assms w]) (simp add: rdata_view_def a_try_from_rdata_def l)
next
  assume l: "length ad = 16"
  have w: "rdata_writer S [write_u16 16, write_bytes ad] (\<lambda>m a bs. bs = ad)"
    using fixed_writer [of ad S] l by simp
  have "slice ad 0 16 = Some ad" using l by (simp add: slice_def)
  then show "writes_record S n 28 c ttl [write_u16 16, write_bytes ad] (\<lambda>r. rdata_view r = Inr (Rdata_AAAA ad))"
    by (intro writes_record_intro [OF assms w]) (simp add: rdata_view_def aaaa_try_from_rdata_def l)
qed

lemma writes_names:
  assumes "inj_on hash_suffix S" "name_ok n" "suffixes_in S (name_labels n)"
    and "name_ok tg" "suffixes_in S (name_labels tg)"
  shows "writes_record S n 12 c ttl [write_rdata [write_name tg]] (view_ptr tg)"
    and "writes_record S n 33 c ttl
           [write_rdata [write_u16 p, write_u16 w, write_u16 q, write_name tg]] (view_srv p w q tg)"
    and "writes_record S n 47 c ttl [write_rdata [write_name n, nsec_bitmap_body ts]] (view_nsec n ts)"
proof -
  note sw = simple_writers [OF assms(1)]
  show "writes_record S n 12 c ttl [write_rdata [write_name tg]] (view_ptr tg)"
    by (rule writes_record_intro [OF assms(1-3) write_rdata_writer [OF sw(1) [OF assms(4,5)]]])
      (auto intro: view_ptr_intro)
  show "writes_record S n 33 c ttl
      [write_rdata [write_u16 p, write_u16 w, write_u16 q, write_name tg]] (view_srv p w q tg)"
    by (rule writes_record_intro [OF assms(1-3) write_rdata_writer [OF sw(2) [OF assms(4,5)]]])
      (auto intro: view_srv_intro)
  show "writes_record S n 47 c ttl [write_rdata [write_name n, nsec_bitmap_body ts]] (view_nsec n ts)"
    by (rule writes_record_intro [OF assms(1-3) write_rdata_writer [OF sw(3) [OF assms(2,3)]]])
      (auto intro: view_nsec_intro)
qed

lemma writes_txt:
  assumes "inj_on hash_suffix S" "name_ok n" "suffixes_in S (name_labels n)"
  shows "writes_record S n 16 c ttl [write_rdata [write_txt_body segs]] (view_txt segs)"
  by (rule writes_record_intro [OF assms write_rdata_writer [OF txt_body]]) (auto intro!: view_txt_intro)

subsection \<open>Questions\<close>

lemma question_bytes_parse:
  assumes "is_name_bytes nb" "length p \<le> u16_max"
    and m: "m = p @ (nb @ to_be16 t @ to_be16 c) @ q"
  shows "question_try_parse m (length p) = Inr
     (\<lparr>q_name = \<lparr>nr_message = m, nr_start = word_of_nat (length p)\<rparr>, q_type = rtype_from_u16 t,
       q_class = rclass_from_u16 c, q_unicast = (c AND UNICAST_RESPONSE_BIT \<noteq> 0)\<rparr>,
      length p + length nb + 4)"
proof -
  have nm: "nr_try_parse m (length p) = Inr (\<lparr>nr_message = m, nr_start = word_of_nat (length p)\<rparr>, length nb)"
    unfolding m append_assoc by (rule nr_parse_name_bytes [OF assms(1,2)])
  have s1: "slice m (length p + length nb) (length p + length nb + 2) = Some (to_be16 t)"
    using slice_append_mid [of "p @ nb" "to_be16 t" "to_be16 c @ q"] m by simp
  have s2: "slice m (length p + length nb + 2) (length p + length nb + 2 + 2) = Some (to_be16 c)"
    using slice_append_mid [of "p @ nb @ to_be16 t" "to_be16 c" q] m by (simp add: add.assoc)
  show ?thesis
    using s1 s2 by (simp add: question_try_parse_def nm chunk_def Let_def)
qed

lemma push_question_reads:
  assumes sound: "table_sound S P b" and inj: "inj_on hash_suffix S"
    and n: "name_ok n" "suffixes_in S (name_labels n)"
    and run: "bseq [write_name n, write_u16 t, write_u16 c, set_header f] b = (Inr u, b')"
    and lim: "b_cursor b' \<le> 16384" and hops: "length (ct_entries (b_compression b)) \<le> MAX_POINTER_HOPS"
  shows "pushed S b b' f (\<lambda>m. case question_try_parse m (b_cursor b) of Inl _ \<Rightarrow> False
     | Inr (q, e) \<Rightarrow> e = b_cursor b' \<and> nr_items (q_name q) = map Inr (name_labels n) \<and>
         q_type q = rtype_from_u16 t \<and> q_class q = rclass_from_u16 c \<and>
         q_unicast q = (c AND UNICAST_RESPONSE_BIT \<noteq> 0))"
proof -
  from run obtain b1 b2 b3 where
    r1: "write_name n b = (Inr (), b1)" and r2: "write_u16 t b1 = (Inr (), b2)" and
    r3: "write_u16 c b2 = (Inr (), b3)" and r4: "set_header f b3 = (Inr (), b')"
    by (auto simp: bseq_Inr bseq_Nil_Inr simp del: bseq.simps)
  have b': "b_out b' = b_out b3" "b_cursor b' = b_cursor b3" "b_compression b' = b_compression b3"
    "b_header b' = f (b_header b3)" using r4 by (auto simp: set_header_def)
  have mono: "b_cursor b1 \<le> b_cursor b2" "b_cursor b2 \<le> b_cursor b3"
    using write_u16_wrote [OF r2] write_u16_wrote [OF r3] by (auto simp: wrote_def)
  obtain P1 nb where ns: "name_step S n b P b1 P1 nb"
    using name_step [OF sound inj n r1] mono lim b' by auto
  then have st1: "sound_step S b P b1 P1 nb" and nb: "is_name_bytes nb" by (auto simp: name_step_def)
  note st2 = u16_step [OF sound_stepD [OF st1] r2]
  note st3 = u16_step [OF sound_stepD [OF st2] r3]
  note st23 = sound_step_trans [OF st2 st3]
  note st = sound_step_trans [OF st1 st23]
  have w: "wrote b b3 (nb @ to_be16 t @ to_be16 c)" using st by (simp add: sound_step_def)
  have w1: "wrote b1 b3 (to_be16 t @ to_be16 c)" using st23 by (simp add: sound_step_def)
  have cur: "b_cursor b3 = b_cursor b + length nb + 4" using w by (auto simp: wrote_def)
  have hd: "HEADER_SIZE \<le> b_cursor b" and u16: "b_cursor b \<le> u16_max"
    using sound lim cur b' by (auto simp: table_sound_def)
  have rd: "case question_try_parse m (b_cursor b) of Inl _ \<Rightarrow> False
     | Inr (q, e) \<Rightarrow> e = b_cursor b' \<and> nr_items (q_name q) = map Inr (name_labels n) \<and>
         q_type q = rtype_from_u16 t \<and> q_class q = rclass_from_u16 c \<and>
         q_unicast q = (c AND UNICAST_RESPONSE_BIT \<noteq> 0)" if m': "agrees m b'" for m
  proof -
    have m: "agrees m b3" using m' b' agrees_cong [of b' b3 m] by simp
    note ab = agrees_bytes [OF m w hd]
    note parse = question_bytes_parse [OF nb _ ab(1), unfolded ab(2), OF u16]
    have "nr_items \<lparr>nr_message = m, nr_start = word_of_nat (b_cursor b)\<rparr> = map Inr (name_labels n)"
      by (rule name_step_reads [OF ns agrees_mono [OF m w1] n(1) sound hops u16])
    then show ?thesis using cur b' by (simp add: parse)
  qed
  have "table_sound S P1 b'" using set_header_step [OF sound_stepD [OF st] r4] by blast
  then show ?thesis
    unfolding pushed_def using st w b' rd wrote_nth_old [OF w] by (auto simp: sound_step_def wrote_def)
qed

subsection \<open>Every item\<close>

lemma writes_recordD:
  assumes "writes_record S n t c ttl rd W" "table_sound S P b"
    and "bseq ([write_name n, write_u16 t, write_u16 c, write_u32 ttl] @ rd @ [set_header f]) b = (Inr u, b')"
    and "b_cursor b' \<le> 16384" "length (ct_entries (b_compression b)) \<le> MAX_POINTER_HOPS"
  shows "pushed S b b' f (\<lambda>m. reads_record m (b_cursor b) (b_cursor b') (record_is n t c ttl W))"
  using assms unfolding writes_record_def by blast

text \<open>Every record push is the same sequence with its own type, class, TTL, RDATA writer and view.\<close>

definition item_shape ::
  "bytes list set \<Rightarrow> item \<Rightarrow> name \<Rightarrow> u16 \<Rightarrow> u16 \<Rightarrow> u32 \<Rightarrow> unit build list \<Rightarrow> (record_ref \<Rightarrow> bool) \<Rightarrow> bool" where
  "item_shape S it n t c ttl rd W \<longleftrightarrow>
     push_item it = bseq ([write_name n, write_u16 t, write_u16 c, write_u32 ttl] @ rd @ [set_header (item_inc it)]) \<and>
     item_record it = record_is n t c ttl W \<and> writes_record S n t c ttl rd W"

lemmas push_defs = push_a_answer_def push_aaaa_answer_def push_srv_answer_def push_txt_answer_def
  push_ptr_answer_def push_a_authority_def push_aaaa_authority_def push_srv_authority_def
  push_txt_authority_def push_ptr_authority_def push_nsec_additional_def
  inc_answer_def inc_authority_def inc_additional_def

lemma item_shapeI:
  assumes inj: "inj_on hash_suffix S" and ok: "item_ok S it" and "item_section it \<noteq> 0"
  shows "\<exists>n t c ttl rd W. item_shape S it n t c ttl rd W"
proof -
  have n: "name_ok n" "suffixes_in S (name_labels n)" if "n \<in> set (item_names it)" for n
    using ok that by (auto simp: item_ok_def)
  have ad: "addr_ok it" using ok by (simp add: item_ok_def)
  note W = writes_addr [OF inj] writes_names [OF inj] writes_txt [OF inj]
  show ?thesis
  proof (cases it)
    case (Question n t c u)
    then show ?thesis using assms(3) by simp
  next
    case (Answer_A n l a f)
    have "item_shape S it n 1 (class_flush f) l [write_u16 4, write_bytes a] (\<lambda>r. rdata_view r = Inr (Rdata_A a))"
      using n ad W(1) by (simp add: Answer_A item_shape_def push_defs item_inc_def [abs_def] del: bseq.simps)
    then show ?thesis by blast
  next
    case (Answer_AAAA n l a f)
    have "item_shape S it n 28 (class_flush f) l [write_u16 16, write_bytes a] (\<lambda>r. rdata_view r = Inr (Rdata_AAAA a))"
      using n ad W(2) by (simp add: Answer_AAAA item_shape_def push_defs item_inc_def [abs_def] del: bseq.simps)
    then show ?thesis by blast
  next
    case (Answer_Srv n l p w q tg f)
    have "item_shape S it n 33 (class_flush f) l [write_rdata [write_u16 p, write_u16 w, write_u16 q, write_name tg]] (view_srv p w q tg)"
      using n ad W(4) by (simp add: Answer_Srv item_shape_def push_defs item_inc_def [abs_def] del: bseq.simps)
    then show ?thesis by blast
  next
    case (Answer_Txt n l segs f)
    have "item_shape S it n 16 (class_flush f) l [write_rdata [write_txt_body segs]] (view_txt segs)"
      using n ad W(6) by (simp add: Answer_Txt item_shape_def push_defs item_inc_def [abs_def] del: bseq.simps)
    then show ?thesis by blast
  next
    case (Answer_Ptr n l tg)
    have "item_shape S it n 12 1 l [write_rdata [write_name tg]] (view_ptr tg)"
      using n ad W(3) by (simp add: Answer_Ptr item_shape_def push_defs item_inc_def [abs_def] del: bseq.simps)
    then show ?thesis by blast
  next
    case (Auth_A n l a)
    have "item_shape S it n 1 1 l [write_u16 4, write_bytes a] (\<lambda>r. rdata_view r = Inr (Rdata_A a))"
      using n ad W(1) by (simp add: Auth_A item_shape_def push_defs item_inc_def [abs_def] del: bseq.simps)
    then show ?thesis by blast
  next
    case (Auth_AAAA n l a)
    have "item_shape S it n 28 1 l [write_u16 16, write_bytes a] (\<lambda>r. rdata_view r = Inr (Rdata_AAAA a))"
      using n ad W(2) by (simp add: Auth_AAAA item_shape_def push_defs item_inc_def [abs_def] del: bseq.simps)
    then show ?thesis by blast
  next
    case (Auth_Srv n l p w q tg)
    have "item_shape S it n 33 1 l [write_rdata [write_u16 p, write_u16 w, write_u16 q, write_name tg]] (view_srv p w q tg)"
      using n ad W(4) by (simp add: Auth_Srv item_shape_def push_defs item_inc_def [abs_def] del: bseq.simps)
    then show ?thesis by blast
  next
    case (Auth_Txt n l segs)
    have "item_shape S it n 16 1 l [write_rdata [write_txt_body segs]] (view_txt segs)"
      using n ad W(6) by (simp add: Auth_Txt item_shape_def push_defs item_inc_def [abs_def] del: bseq.simps)
    then show ?thesis by blast
  next
    case (Auth_Ptr n l tg)
    have "item_shape S it n 12 1 l [write_rdata [write_name tg]] (view_ptr tg)"
      using n ad W(3) by (simp add: Auth_Ptr item_shape_def push_defs item_inc_def [abs_def] del: bseq.simps)
    then show ?thesis by blast
  next
    case (Add_Nsec n l ts f)
    have "item_shape S it n 47 (class_flush f) l [write_rdata [write_name n, nsec_bitmap_body ts]] (view_nsec n ts)"
      using n ad W(5) by (simp add: Add_Nsec item_shape_def push_defs item_inc_def [abs_def] del: bseq.simps)
    then show ?thesis by blast
  qed
qed

lemma or_unicast: "(w OR UNICAST_RESPONSE_BIT) AND UNICAST_RESPONSE_BIT \<noteq> 0"
  unfolding UNICAST_eq_FLUSH by (rule flush_bit_set)

lemma push_item_reads:
  assumes sound: "table_sound S P b" and inj: "inj_on hash_suffix S" and ok: "item_ok S it"
    and run: "push_item it b = (Inr u, b')"
    and lim: "b_cursor b' \<le> 16384" "length (ct_entries (b_compression b)) \<le> MAX_POINTER_HOPS"
  shows "pushed S b b' (item_inc it) (\<lambda>m. reads_item m (b_cursor b) (b_cursor b') it)"
proof (cases "item_section it = 0")
  case True
  then obtain n t c uni where Question: "it = Question n t c uni" by (cases it) auto
  let ?c = "rclass_to_u16 c OR (if uni then UNICAST_RESPONSE_BIT else 0)"
  have cls: "rclass_from_u16 ?c = rclass_from_u16 (rclass_to_u16 c)"
    by (simp add: UNICAST_eq_FLUSH)
  have uni: "(?c AND UNICAST_RESPONSE_BIT \<noteq> 0) = (uni \<or> rclass_to_u16 c AND UNICAST_RESPONSE_BIT \<noteq> 0)"
    using or_unicast by simp
  have "pushed S b b' (item_inc it) (\<lambda>m. case question_try_parse m (b_cursor b) of Inl _ \<Rightarrow> False
   | Inr (q, e) \<Rightarrow> e = b_cursor b' \<and> nr_items (q_name q) = map Inr (name_labels n) \<and>
       q_type q = rtype_from_u16 (rtype_to_u16 t) \<and> q_class q = rclass_from_u16 ?c \<and>
       q_unicast q = (?c AND UNICAST_RESPONSE_BIT \<noteq> 0))"
    by (rule push_question_reads [OF sound inj _ _ _ lim, where u = u])
      (use Question ok run in \<open>simp_all add: item_ok_def push_question_def inc_question_def
        item_inc_def [abs_def] del: bseq.simps\<close>)
  then show ?thesis unfolding cls uni reads_item_def using Question
    by (simp cong: sum.case_cong)
next
  case False
  from item_shapeI [OF inj ok this] obtain n t c ttl rd W where "item_shape S it n t c ttl rd W" by blast
  then have "pushed S b b' (item_inc it)
      (\<lambda>m. reads_record m (b_cursor b) (b_cursor b') (record_is n t c ttl W))"
    and "item_record it = record_is n t c ttl W"
    using writes_recordD [OF _ sound _ lim] run by (auto simp: item_shape_def simp del: bseq.simps)
  then show ?thesis using False by (simp add: reads_item_def)
qed

subsection \<open>A whole message\<close>

fun reads_items :: "bytes \<Rightarrow> nat \<Rightarrow> item list \<Rightarrow> nat \<Rightarrow> bool" where
  "reads_items m a [] e \<longleftrightarrow> e = a"
| "reads_items m a (it # its) e \<longleftrightarrow> (\<exists>c. reads_item m a c it \<and> reads_items m c its e)"

lemma reads_items_append:
  "reads_items m a (xs @ ys) e \<longleftrightarrow> (\<exists>c. reads_items m a xs c \<and> reads_items m c ys e)"
  by (induction xs arbitrary: a) auto

lemma keeps_push_item: "keeps (push_item it)"
  by (cases it) (simp_all add: keeps_intros)

lemma push_items_read:
  assumes "inj_on hash_suffix S"
  shows "table_sound S P b \<Longrightarrow> \<forall>it\<in>set items. item_ok S it \<Longrightarrow> bseq (map push_item items) b = (Inr u, b') \<Longrightarrow>
    b_cursor b' \<le> 16384 \<Longrightarrow> length (ct_entries (b_compression b)) \<le> MAX_POINTER_HOPS \<Longrightarrow>
    pushed S b b' (fold item_inc items) (\<lambda>m. reads_items m (b_cursor b) items (b_cursor b'))"
proof (induction items arbitrary: b P)
  case Nil
  then show ?case by (auto simp: pushed_def)
next
  case (Cons it items)
  then obtain b1 where r1: "push_item it b = (Inr (), b1)" and r2: "bseq (map push_item items) b1 = (Inr u, b')"
    by (auto simp: bseq_Inr simp del: bseq.simps)
  have mono: "b_cursor b1 \<le> b_cursor b'"
    using keepsD [OF keeps_bseq r2] keeps_push_item by (auto simp: ext_def)
  have p1: "pushed S b b1 (item_inc it) (\<lambda>m. reads_item m (b_cursor b) (b_cursor b1) it)"
    by (rule push_item_reads [OF Cons.prems(1) assms _ r1]) (use Cons.prems mono in auto)
  then obtain P1 where t1: "table_sound S P1 b1" by (auto simp: pushed_def)
  have p2: "pushed S b1 b' (fold item_inc items) (\<lambda>m. reads_items m (b_cursor b1) items (b_cursor b'))"
    by (rule Cons.IH [OF t1 _ r2]) (use Cons.prems p1 in \<open>auto simp: pushed_def\<close>)
  have ag: "agrees m b1" if "agrees m b'" for m
    using p2 that by (auto simp: agrees_def pushed_def)
  show ?case
    using p1 p2 ag unfolding pushed_def by fastforce
qed

lemma reads_item_question:
  "item_section it = 0 \<Longrightarrow> reads_item m a c it \<longleftrightarrow> (\<exists>q. question_try_parse m a = Inr (q, c) \<and> item_question it q)"
  by (auto simp: reads_item_def split: sum.splits)

lemma reads_item_record:
  "item_section it \<noteq> 0 \<Longrightarrow> reads_item m a c it \<longleftrightarrow> (\<exists>r. record_try_parse m a = Inr (r, c) \<and> item_record it r)"
  by (auto simp: reads_item_def reads_record_def split: sum.splits)

lemma reads_questions:
  "\<forall>it\<in>set items. item_section it = 0 \<Longrightarrow> reads_items m a items e \<Longrightarrow>
     \<exists>qs. parse_n question_try_parse m a (length items) = Inr (qs, e) \<and> list_all2 item_question items qs"
proof (induction items arbitrary: a)
  case (Cons it items)
  then obtain c q where q: "question_try_parse m a = Inr (q, c)" "item_question it q" "reads_items m c items e"
    by (auto simp: reads_item_question)
  from Cons.IH [OF _ q(3)] Cons.prems(1) obtain qs where
    "parse_n question_try_parse m c (length items) = Inr (qs, e)" "list_all2 item_question items qs" by auto
  with q show ?case by (intro exI [of _ "q # qs"]) simp
qed simp

lemma reads_records:
  "\<forall>it\<in>set items. item_section it \<noteq> 0 \<Longrightarrow> reads_items m a items e \<Longrightarrow>
     \<exists>rs. parse_n record_try_parse m a (length items) = Inr (rs, e) \<and> list_all2 item_record items rs"
proof (induction items arbitrary: a)
  case (Cons it items)
  then obtain c q where q: "record_try_parse m a = Inr (q, c)" "item_record it q" "reads_items m c items e"
    by (auto simp: reads_item_record)
  from Cons.IH [OF _ q(3)] Cons.prems(1) obtain qs where
    "parse_n record_try_parse m c (length items) = Inr (qs, e)" "list_all2 item_record items qs" by auto
  with q show ?case by (intro exI [of _ "q # qs"]) simp
qed simp

lemma reads_items_length: "reads_items m a items e \<Longrightarrow> a + 5 * length items \<le> e"
proof (induction items arbitrary: a)
  case (Cons it items)
  then obtain c where c: "reads_item m a c it" "reads_items m c items e" by auto
  have "a + 5 \<le> c"
    using c(1) question_parse_bounds record_parse_bounds
    by (cases "item_section it = 0") (fastforce simp: reads_item_question reads_item_record)+
  with Cons.IH [OF c(2)] show ?case by simp
qed simp

lemma unat_sat_inc16: "unat w < u16_max \<Longrightarrow> unat (sat_inc16 w) = Suc (unat w)"
proof -
  assume "unat w < u16_max"
  moreover have "unat (- 1 :: u16) = u16_max"
    by code_simp
  ultimately have "w \<noteq> - 1" by auto
  then show ?thesis using \<open>unat w < u16_max\<close> by (simp add: sat_inc16_def unat_word_ariths)
qed

definition sections :: "item list \<Rightarrow> nat \<Rightarrow> nat" where
  "sections items k = length (filter (\<lambda>it. item_section it = k) items)"

lemma sections_le: "sections items k \<le> length items"
  by (simp add: sections_def)

lemma item_section_cases: "item_section it \<in> {0, 1, 2, 3}"
  by (cases it) auto

lemma fold_item_inc:
  "unat (question_count h) + length items \<le> u16_max \<Longrightarrow> unat (answer_count h) + length items \<le> u16_max \<Longrightarrow>
   unat (authority_count h) + length items \<le> u16_max \<Longrightarrow> unat (additional_count h) + length items \<le> u16_max \<Longrightarrow>
   unat (question_count (fold item_inc items h)) = unat (question_count h) + sections items 0 \<and>
   unat (answer_count (fold item_inc items h)) = unat (answer_count h) + sections items 1 \<and>
   unat (authority_count (fold item_inc items h)) = unat (authority_count h) + sections items 2 \<and>
   unat (additional_count (fold item_inc items h)) = unat (additional_count h) + sections items 3 \<and>
   hdr_id (fold item_inc items h) = hdr_id h \<and> hdr_flags (fold item_inc items h) = hdr_flags h"
proof (induction items arbitrary: h)
  case (Cons it items)
  then show ?case
    using item_section_cases [of it] Cons.IH [of "item_inc it h"]
    by (auto simp: item_inc_def sections_def unat_sat_inc16)
qed (simp add: sections_def)

text \<open>The folded suffixes of every name of a message: what the compression table hashes.\<close>

definition message_suffixes :: "item list \<Rightarrow> bytes list set" where
  "message_suffixes items = set (concat (map (\<lambda>it. concat (map (\<lambda>n.
     map (\<lambda>j. map lower (drop j (name_labels n))) [0..<length (name_labels n)]) (item_names it))) items))"

definition item_valid :: "item \<Rightarrow> bool" where
  "item_valid it \<longleftrightarrow> addr_ok it \<and> list_all name_ok (item_names it)"

lemma item_ok_suffixes: "item_valid it \<Longrightarrow> it \<in> set items \<Longrightarrow> item_ok (message_suffixes items) it"
  by (auto simp: item_valid_def item_ok_def list_all_iff message_suffixes_def suffixes_in_def
      intro!: bexI [of _ it] bexI imageI)

definition empty_sections :: "header \<Rightarrow> bool" where
  "empty_sections h \<longleftrightarrow> question_count h = 0 \<and> answer_count h = 0 \<and> authority_count h = 0 \<and> additional_count h = 0"

definition in_section :: "nat \<Rightarrow> item list \<Rightarrow> bool" where
  "in_section k items \<longleftrightarrow> list_all (\<lambda>it. item_section it = k) items"

lemma sections_append [simp]: "sections (xs @ ys) k = sections xs k + sections ys k"
  by (simp add: sections_def)

lemma in_section_sections: "in_section k xs \<Longrightarrow> sections xs j = (if j = k then length xs else 0)"
  by (auto simp: in_section_def sections_def list_all_iff filter_id_conv filter_empty_conv)

lemma builder_finish_spec:
  "HEADER_SIZE \<le> length (b_out b) \<Longrightarrow>
     builder_finish b = (Inr (b_cursor b), header_bytes (b_header b) @ drop HEADER_SIZE (b_out b))"
proof -
  assume l: "HEADER_SIZE \<le> length (b_out b)"
  then have "slice (b_out b) 0 HEADER_SIZE = Some (take HEADER_SIZE (b_out b))" by (simp add: slice_def)
  moreover have "header_write (b_header b) (take HEADER_SIZE (b_out b)) = Inr (HEADER_SIZE, header_bytes (b_header b))"
    using header_write_ok [of "take HEADER_SIZE (b_out b)" "b_header b"] l by simp
  ultimately show ?thesis by (simp add: builder_finish_def)
qed

lemma finished_agrees:
  assumes "table_sound S P b" "b_cursor b \<le> 16384" "builder_finish b = (Inr n, out)"
  shows "n = b_cursor b" "agrees (take n out) b"
    "reader_try_parse (take n out) = Inr \<lparr>mr_message = take n out, mr_header = b_header b\<rparr>"
proof -
  have l: "HEADER_SIZE \<le> b_cursor b" "b_cursor b \<le> length (b_out b)"
    using assms(1) by (auto simp: table_sound_def)
  then have n: "n = b_cursor b" and out: "out = header_bytes (b_header b) @ drop HEADER_SIZE (b_out b)"
    using assms(3) builder_finish_spec [of b] by auto
  show "n = b_cursor b" by (rule n)
  have m: "take n out = header_bytes (b_header b) @ take (n - HEADER_SIZE) (drop HEADER_SIZE (b_out b))"
    unfolding out using l n by (simp add: HEADER_SIZE_def)
  show "reader_try_parse (take n out) = Inr \<lparr>mr_message = take n out, mr_header = b_header b\<rparr>"
    unfolding reader_try_parse_def m header_parse_bytes by simp
  show "agrees (take n out) b"
    unfolding agrees_def m using l n assms(2) by (auto simp: HEADER_SIZE_def nth_append)
qed

text \<open>What the reader finds in a message the builder finished.\<close>

lemma built_message_parses:
  assumes new: "builder_try_new comp_n out h = Inr b0" "comp_n \<le> MAX_POINTER_HOPS" "empty_sections h"
    and secs: "in_section 0 qs" "in_section 1 an" "in_section 2 ns" "in_section 3 ar"
    and ok: "list_all item_valid (qs @ an @ ns @ ar)"
    and inj: "inj_on hash_suffix (message_suffixes (qs @ an @ ns @ ar))"
    and run: "bseq (map push_item (qs @ an @ ns @ ar)) b0 = (Inr (), b)" "b_cursor b \<le> 16384"
    and fin: "builder_finish b = (Inr n, out')"
  shows "\<exists>r qs' an' ns' ar'. reader_try_parse (take n out') = Inr r \<and>
     hdr_id (mr_header r) = hdr_id h \<and> hdr_flags (mr_header r) = hdr_flags h \<and>
     question_items (questions r) = map Inr qs' \<and> list_all2 item_question qs qs' \<and>
     record_items (answers r) = map Inr an' \<and> list_all2 item_record an an' \<and>
     record_items (authority r) = map Inr ns' \<and> list_all2 item_record ns ns' \<and>
     record_items (additional r) = map Inr ar' \<and> list_all2 item_record ar ar'"
proof -
  let ?items = "qs @ an @ ns @ ar"
  let ?S = "message_suffixes ?items"
  have b0: "b_cursor b0 = HEADER_SIZE" "b_header b0 = h" "length (ct_entries (b_compression b0)) = comp_n"
    using new(1) by (auto simp: builder_try_new_def ct_new_def split: if_splits)
  have "\<forall>it\<in>set ?items. item_ok ?S it"
    using ok item_ok_suffixes by (metis list_all_iff)
  from push_items_read [OF inj table_sound_new [OF new(1)] this run] new(2) b0
  have p: "pushed ?S b0 b (fold item_inc ?items) (\<lambda>m. reads_items m (b_cursor b0) ?items (b_cursor b))"
    by simp
  then obtain P where t: "table_sound ?S P b" by (auto simp: pushed_def)
  note f = finished_agrees [OF t run(2) fin]
  let ?m = "take n out'" and ?h = "b_header b"
  have rd: "reads_items ?m HEADER_SIZE ?items (b_cursor b)"
    using p f(2) b0 by (auto simp: pushed_def)
  have len: "length ?items \<le> u16_max" using reads_items_length [OF rd] run(2) by simp
  have "?h = fold item_inc ?items h" using p b0 by (simp add: pushed_def)
  with fold_item_inc [of h ?items] len new(3) secs
  have c: "unat (question_count ?h) = length qs" "unat (answer_count ?h) = length an"
    "unat (authority_count ?h) = length ns" "unat (additional_count ?h) = length ar"
    "hdr_id ?h = hdr_id h" "hdr_flags ?h = hdr_flags h"
    by (simp_all add: empty_sections_def in_section_sections)
  from rd obtain c1 c2 c3 where rs: "reads_items ?m HEADER_SIZE qs c1" "reads_items ?m c1 an c2"
    "reads_items ?m c2 ns c3" "reads_items ?m c3 ar (b_cursor b)"
    by (auto simp: reads_items_append)
  have sec: "\<forall>it\<in>set qs. item_section it = 0" "\<forall>it\<in>set an. item_section it \<noteq> 0"
    "\<forall>it\<in>set ns. item_section it \<noteq> 0" "\<forall>it\<in>set ar. item_section it \<noteq> 0"
    using secs by (auto simp: in_section_def list_all_iff)
  from reads_questions [OF sec(1) rs(1)] reads_records [OF sec(2) rs(2)] reads_records [OF sec(3) rs(3)]
    reads_records [OF sec(4) rs(4)]
  obtain qs' an' ns' ar' where q: "parse_n question_try_parse ?m HEADER_SIZE (length qs) = Inr (qs', c1)"
    "list_all2 item_question qs qs'"
    and a: "parse_n record_try_parse ?m c1 (length an) = Inr (an', c2)" "list_all2 item_record an an'"
    and s: "parse_n record_try_parse ?m c2 (length ns) = Inr (ns', c3)" "list_all2 item_record ns ns'"
    and x: "parse_n record_try_parse ?m c3 (length ar) = Inr (ar', b_cursor b)" "list_all2 item_record ar ar'"
    by blast
  let ?r = "\<lparr>mr_message = ?m, mr_header = ?h\<rparr>"
  have "parse_sections ?m ?h = Inr (qs', an', ns', ar')"
    using q a s x c by (simp add: parse_sections_def)
  with sections_spec [of ?r qs' an' ns' ar'] f(3) c q a s x show ?thesis
    by (intro exI [of _ ?r] exI [of _ qs'] exI [of _ an'] exI [of _ ns'] exI [of _ ar']) simp
qed

text \<open>
  C1. A message round trip.  Questions, answers, authority and additional records pushed in that order
  into a fresh builder of at most 32 compression slots, ending below offset 16384 and with no two
  name suffixes of equal 64-bit hash, finish into octets that the reader parses: the same identifier
  and flags, and in each section as many items as were pushed, every one with its name, type, class,
  TTL, cache-flush or unicast bit and typed RDATA.
\<close>
theorem message_round_trip:
  assumes new: "builder_try_new comp_n out h = Inr b0" "comp_n \<le> MAX_POINTER_HOPS" "empty_sections h"
    and secs: "in_section 0 qs" "in_section 1 an" "in_section 2 ns" "in_section 3 ar"
    and ok: "list_all item_valid (qs @ an @ ns @ ar)"
    and inj: "inj_on hash_suffix (message_suffixes (qs @ an @ ns @ ar))"
    and run: "bseq (map push_item (qs @ an @ ns @ ar)) b0 = (Inr (), b)" "b_cursor b \<le> 16384"
    and fin: "builder_finish b = (Inr n, out')"
  shows "\<exists>r qs' an' ns' ar'. reader_try_parse (take n out') = Inr r \<and>
     hdr_id (mr_header r) = hdr_id h \<and> hdr_flags (mr_header r) = hdr_flags h \<and>
     question_items (questions r) = map Inr qs' \<and> list_all2 item_question qs qs' \<and>
     record_items (answers r) = map Inr an' \<and> list_all2 item_record an an' \<and>
     record_items (authority r) = map Inr ns' \<and> list_all2 item_record ns ns' \<and>
     record_items (additional r) = map Inr ar' \<and> list_all2 item_record ar ar'"
  using built_message_parses [OF assms] .


text \<open>A message with a question, a PTR answer and an NSEC record, in a buffer of 60 octets.\<close>

definition sample_builder :: builder where
  "sample_builder = \<lparr>b_out = replicate 60 0, b_cursor = 12, b_header = header_new, b_compression = ct_new 32\<rparr>"

definition sample_items :: "item list" where
  "sample_items = [Question (Name [97]) RT_Ptr Class_In True,
     Answer_Ptr (Name [97]) 120 (Name [97]),
     Add_Nsec (Name [97]) 120 [16] True]"

lemma inj_on_set: "distinct (map f (remdups xs)) \<Longrightarrow> inj_on f (set xs)"
  by (simp add: distinct_map)

lemma message_round_trip_witness:
  "\<exists>n out r. builder_finish (snd (bseq (map push_item sample_items) sample_builder)) = (Inr n, out) \<and>
     reader_try_parse (take n out) = Inr r \<and>
     length (question_items (questions r)) = 1 \<and> length (record_items (answers r)) = 1 \<and>
     length (record_items (authority r)) = 0 \<and> length (record_items (additional r)) = 1"
proof -
  let ?qs = "[Question (Name [97]) RT_Ptr Class_In True]"
  let ?an = "[Answer_Ptr (Name [97]) 120 (Name [97])]"
  let ?ar = "[Add_Nsec (Name [97]) 120 [16] True]"
  have items: "?qs @ ?an @ [] @ ?ar = sample_items" by (simp add: sample_items_def)
  have new: "builder_try_new 32 (replicate 60 0) header_new = Inr sample_builder"
    by (simp add: builder_try_new_def HEADER_SIZE_def sample_builder_def)
  have secs: "in_section 0 ?qs" "in_section 1 ?an" "in_section 2 []" "in_section 3 ?ar"
    by (simp_all add: in_section_def)
  have ok: "list_all item_valid sample_items" by code_simp
  have inj: "inj_on hash_suffix (message_suffixes sample_items)"
    unfolding message_suffixes_def by (rule inj_on_set) code_simp
  let ?r = "bseq (map push_item sample_items) sample_builder"
  have "case ?r of (Inr _, b) \<Rightarrow> b_cursor b \<le> 16384 \<and> 12 \<le> length (b_out b) | _ \<Rightarrow> False" by code_simp
  then obtain b where r: "?r = (Inr (), b)" and run: "b_cursor b \<le> 16384" "HEADER_SIZE \<le> length (b_out b)"
    by (auto simp: HEADER_SIZE_def split: prod.splits sum.splits)
  from builder_finish_spec [OF run(2)] obtain n out where fin: "builder_finish b = (Inr n, out)" by blast
  have "empty_sections header_new" by code_simp
  from message_round_trip [OF new _ this secs, unfolded items, OF _ ok inj r run(1) fin]
  obtain r qs' an' ns' ar' where m: "reader_try_parse (take n out) = Inr r"
    "question_items (questions r) = map Inr qs'" "list_all2 item_question ?qs qs'"
    "record_items (answers r) = map Inr an'" "list_all2 item_record ?an an'"
    "record_items (authority r) = map Inr ns'" "list_all2 item_record [] ns'"
    "record_items (additional r) = map Inr ar'" "list_all2 item_record ?ar ar'"
    by (auto simp: MAX_POINTER_HOPS_def)
  from m(3,5,7,9) have "length qs' = 1" "length an' = 1" "length ns' = 0" "length ar' = 1"
    by (auto dest!: list_all2_lengthD)
  with m fin r show ?thesis by simp
qed

end
