(* ===== verification/BuilderTransaction.thy ===== *)
theory BuilderTransaction
  imports BuilderMessage
begin

text \<open>
  Transactions on the builder: a caller takes a \<open>checkpoint\<close>, pushes, and calls \<open>restore\<close> when a push
  failed half way.  \<open>same_live\<close> relates builders that differ only in dead storage: the octets after
  the cursor and the table entries after the used ones.
\<close>

definition builder_wf :: "builder \<Rightarrow> bool" where
  "builder_wf b \<longleftrightarrow> b_cursor b \<le> length (b_out b) \<and> ct_ok (b_compression b)"

definition same_live :: "builder \<Rightarrow> builder \<Rightarrow> bool" where
  "same_live b c \<longleftrightarrow> b_cursor b = b_cursor c \<and> b_header b = b_header c \<and>
     length (b_out b) = length (b_out c) \<and> take (b_cursor b) (b_out b) = take (b_cursor c) (b_out c) \<and>
     ct_used (b_compression b) = ct_used (b_compression c) \<and>
     length (ct_entries (b_compression b)) = length (ct_entries (b_compression c)) \<and>
     ct_list (b_compression b) = ct_list (b_compression c) \<and> builder_wf b \<and> builder_wf c"

lemma same_live_take: "same_live b c \<Longrightarrow> take (b_cursor b) (b_out b) = take (b_cursor b) (b_out c)"
  unfolding same_live_def by (elim conjE) (simp only:)

text \<open>An operation cannot see dead storage.\<close>

definition blind :: "'a build \<Rightarrow> bool" where
  "blind m \<longleftrightarrow> (\<forall>b c. same_live b c \<longrightarrow> fst (m b) = fst (m c) \<and> same_live (snd (m b)) (snd (m c)))"

named_theorems blind_intros "operations that cannot see dead storage"

lemma blindI:
  "(\<And>b c. same_live b c \<Longrightarrow> fst (m b) = fst (m c) \<and> same_live (snd (m b)) (snd (m c))) \<Longrightarrow> blind m"
  by (simp add: blind_def)

lemma blindD: "blind m \<Longrightarrow> same_live b c \<Longrightarrow> fst (m b) = fst (m c) \<and> same_live (snd (m b)) (snd (m c))"
  by (simp add: blind_def)

lemma blind_bseq: "(\<And>m. m \<in> set ms \<Longrightarrow> blind m) \<Longrightarrow> blind (bseq ms)"
proof (induction ms)
  case (Cons m ms)
  show ?case
  proof (rule blindI)
    fix b c assume s: "same_live b c"
    from blindD [OF Cons.prems(1) [of m] s] have m: "fst (m b) = fst (m c)" "same_live (snd (m b)) (snd (m c))"
      by simp_all
    have "blind (bseq ms)" using Cons by simp
    from blindD [OF this m(2)] m
    show "fst (bseq (m # ms) b) = fst (bseq (m # ms) c) \<and> same_live (snd (bseq (m # ms) b)) (snd (bseq (m # ms) c))"
      by (cases "m b"; cases "m c") (auto split: sum.splits)
  qed
qed (simp add: blind_def)

lemma blind_bbind: "blind m \<Longrightarrow> (\<And>x. blind (f x)) \<Longrightarrow> blind (bbind m f)"
proof (rule blindI)
  fix b c assume p: "blind m" "\<And>x. blind (f x)" "same_live b c"
  from blindD [OF p(1,3)] blindD [OF p(2)]
  show "fst (bbind m f b) = fst (bbind m f c) \<and> same_live (snd (bbind m f b)) (snd (bbind m f c))"
    by (cases "m b"; cases "m c") (auto simp: bbind_def split: sum.splits)
qed

lemma take_Suc_update: "n < length xs \<Longrightarrow> take (Suc n) (xs[n := v]) = take n xs @ [v]"
  by (simp add: take_Suc_conv_app_nth)

lemma blind_put:
  assumes "same_live b c" "put_slice (b_out b) (b_cursor b) bs = Some ob" 
  shows "\<exists>oc. put_slice (b_out c) (b_cursor c) bs = Some oc \<and>
     same_live (b\<lparr>b_out := ob, b_cursor := b_cursor b + length bs\<rparr>) (c\<lparr>b_out := oc, b_cursor := b_cursor c + length bs\<rparr>)"
  using assms by (auto simp: same_live_def builder_wf_def put_slice_def split: if_splits)

lemma blind_put_None:
  "same_live b c \<Longrightarrow> put_slice (b_out b) (b_cursor b) bs = None \<longleftrightarrow> put_slice (b_out c) (b_cursor c) bs = None"
  by (auto simp: same_live_def put_slice_def)

lemma blind_simple [blind_intros]:
  "blind (write_byte v)" "blind (write_u16 w)" "blind (write_u32 l)" "blind (record_suffix h)"
  "blind (set_header f)" "blind (berr e)"
proof -
  show "blind (berr e)" "blind (set_header f)"
    by (auto simp: blind_def berr_def set_header_def same_live_def builder_wf_def)
  show "blind (write_u16 w)" "blind (write_u32 l)"
    using blind_put blind_put_None
    by (auto simp: blind_def write_u16_def write_u32_def split: option.splits; fastforce)+
  show "blind (write_byte v)"
    by (auto simp: blind_def write_byte_def same_live_def builder_wf_def take_Suc_conv_app_nth)
  show "blind (record_suffix h)"
    by (auto simp: blind_def record_suffix_def same_live_def builder_wf_def ct_ok_def ct_insert_def
       ct_list_def take_Suc_update split: option.splits)
qed

lemma blind_incs [blind_intros]:
  "blind inc_question" "blind inc_answer" "blind inc_authority" "blind inc_additional"
  by (simp_all add: inc_question_def inc_answer_def inc_authority_def inc_additional_def blind_intros)

lemma blind_write_bytes [blind_intros]: "blind (write_bytes bs)"
  unfolding write_bytes_def by (rule blind_bseq) (auto simp: blind_intros)

lemma blind_emit_labels [blind_intros]: "blind (emit_labels ls k)"
proof (induction ls arbitrary: k)
  case Nil
  then show ?case by (simp add: blind_def)
next
  case (Cons l ls)
  have seq: "blind (bseq [record_suffix (hash_suffix (l # ls)), write_byte (word_of_nat (length l)),
               write_bytes (map to_lower l), emit_labels ls (k - 1)])"
    by (rule blind_bseq) (auto simp: blind_intros Cons.IH)
  show ?case
  proof (rule blindI)
    fix b c assume s: "same_live b c"
    then have "length (b_out b) = length (b_out c)" by (simp add: same_live_def)
    with blindD [OF seq s] s
    show "fst (emit_labels (l # ls) k b) = fst (emit_labels (l # ls) k c) \<and>
        same_live (snd (emit_labels (l # ls) k b)) (snd (emit_labels (l # ls) k c))"
      by (simp del: bseq.simps)
  qed
qed

lemma blind_write_terminator [blind_intros]: "blind (write_terminator t)"
  by (cases t) (auto simp: write_terminator_def blind_intros simp del: bseq.simps intro!: blind_bseq)

lemma find_suffix_blind: "same_live b c \<Longrightarrow> find_suffix (b_compression b) i ls = find_suffix (b_compression c) i ls"
proof (induction ls arbitrary: i)
  case (Cons l ls)
  have "ct_lookup (b_compression b) h = ct_lookup (b_compression c) h" for h
    using Cons.prems by (simp add: same_live_def builder_wf_def ct_lookup_eq)
  with Cons show ?case by (simp split: option.splits)
qed simp

lemma blind_write_name [blind_intros]: "blind (write_name n)"
proof (rule blindI)
  fix b c assume s: "same_live b c"
  have seq: "blind (bseq [emit_labels ls k, write_terminator t])" for ls k t
    by (rule blind_bseq) (auto simp: blind_intros)
  have z: "blind (write_byte 0)" by (rule blind_simple)
  have l: "length (b_out b) = length (b_out c)" using s by (simp add: same_live_def)
  show "fst (write_name n b) = fst (write_name n c) \<and> same_live (snd (write_name n b)) (snd (write_name n c))"
    unfolding write_name_def Let_def find_suffix_blind [OF s] l
    using blindD [OF seq s] blindD [OF z s] s
    by (simp del: bseq.simps split: option.splits prod.splits)
qed

lemma blind_patch:
  assumes "same_live b c" "off + 2 \<le> b_cursor b"
  shows "fst (patch_rdlen off st b) = fst (patch_rdlen off st c) \<and>
     same_live (snd (patch_rdlen off st b)) (snd (patch_rdlen off st c))"
proof -
  have t: "take k (b_out b) = take k (b_out c)" if "k \<le> b_cursor b" for k
    by (rule take_mono_eq [OF same_live_take [OF assms(1)] that])
  have le: "b_cursor b \<le> length (b_out b)" "length (b_out b) = length (b_out c)" "b_cursor b = b_cursor c"
    using assms(1) by (auto simp: same_live_def builder_wf_def)
  have d: "take (b_cursor b - (off + 2)) (drop (off + 2) (b_out b)) = take (b_cursor b - (off + 2)) (drop (off + 2) (b_out c))"
    using t [of "b_cursor b"] by (metis drop_take order_refl)
  show ?thesis
    using assms t [of off] d le
    by (auto simp: patch_rdlen_def put_slice_def same_live_def builder_wf_def split: option.splits)
qed

lemma blind_write_rdata [blind_intros]:
  assumes "\<And>m. m \<in> set body \<Longrightarrow> blind m" "\<And>m. m \<in> set body \<Longrightarrow> keeps m"
  shows "blind (write_rdata body)"
proof (rule blindI)
  fix b c assume s: "same_live b c"
  have cur: "b_cursor b = b_cursor c" using s by (simp add: same_live_def)
  obtain rb b1 where wb: "write_u16 0 b = (rb, b1)" by (cases "write_u16 0 b")
  obtain rc c1 where wc: "write_u16 0 c = (rc, c1)" by (cases "write_u16 0 c")
  from blindD [OF blind_simple(2) s, of 0] wb wc have s1: "rb = rc" "same_live b1 c1" by auto
  obtain qb b2 where bb: "bseq body b1 = (qb, b2)" by (cases "bseq body b1")
  obtain qc c2 where bc: "bseq body c1 = (qc, c2)" by (cases "bseq body c1")
  have "blind (bseq body)" using assms(1) by (rule blind_bseq)
  from blindD [OF this s1(2)] bb bc have s2: "qb = qc" "same_live b2 c2" by auto
  have cur1: "b_cursor b1 = b_cursor c1" using s1(2) by (simp add: same_live_def)
  have "b_cursor b1 \<le> b_cursor b2"
    using keepsD [OF keeps_bseq bb] assms(2) by (auto simp: ext_def)
  moreover have "b_cursor b1 = b_cursor b + 2" if "rb = Inr x" for x
    using wb that by (auto simp: write_u16_def split: option.splits)
  ultimately have p: "fst (patch_rdlen (b_cursor b) (b_cursor b1) b2) = fst (patch_rdlen (b_cursor b) (b_cursor b1) c2) \<and>
     same_live (snd (patch_rdlen (b_cursor b) (b_cursor b1) b2)) (snd (patch_rdlen (b_cursor b) (b_cursor b1) c2))"
    if "rb = Inr x" for x
    using blind_patch [OF s2(2)] that by simp
  have run: "write_rdata body d = (case r of Inl e \<Rightarrow> (Inl e, d1) | Inr _ \<Rightarrow>
       (case q of Inl e \<Rightarrow> (Inl e, d2) | Inr _ \<Rightarrow> patch_rdlen (b_cursor d) (b_cursor d1) d2))"
    if "write_u16 0 d = (r, d1)" "bseq body d1 = (q, d2)" for d r d1 q d2
    using that by (simp add: write_rdata_def with_cursor_def bseq_append split: sum.splits)
  show "fst (write_rdata body b) = fst (write_rdata body c) \<and>
      same_live (snd (write_rdata body b)) (snd (write_rdata body c))"
    unfolding run [OF wb bb] run [OF wc bc] using s1 s2 p cur cur1 by (auto split: sum.splits)
qed

lemma blind_write_txt [blind_intros]: "blind (write_txt_body segments)"
proof -
  have seg: "blind (write_txt_segments segments w)" for w
  proof (induction segments arbitrary: w)
    case (Cons s segments)
    have sq: "blind (bseq [write_byte (word_of_nat (length s)), write_bytes s])"
      by (rule blind_bseq) (auto simp: blind_intros)
    show ?case
    proof (rule blindI)
      fix b c assume l: "same_live b c"
      let ?m = "bseq [write_byte (word_of_nat (length s)), write_bytes s]"
      from blindD [OF sq l] blindD [OF Cons.IH, of "snd (?m b)" "snd (?m c)" True] l
      show "fst (write_txt_segments (s # segments) w b) = fst (write_txt_segments (s # segments) w c) \<and>
        same_live (snd (write_txt_segments (s # segments) w b)) (snd (write_txt_segments (s # segments) w c))"
        by (cases "?m b"; cases "?m c") (auto simp del: bseq.simps split: sum.splits)
    qed
  qed (simp add: blind_def)
  show ?thesis unfolding write_txt_body_def
    by (rule blind_bbind [OF seg]) (auto intro: blind_bseq simp: blind_intros simp del: bseq.simps)
qed

lemma blind_nsec_bitmap [blind_intros]: "blind (nsec_bitmap_body ts)"
  unfolding nsec_bitmap_body_def Let_def
  by (auto split: prod.splits option.splits intro!: blind_bseq simp: blind_intros simp del: upt_Suc bseq.simps)

lemma blind_push_item: "blind (push_item it)"
  by (cases it; simp only: push_item.simps push_question_def push_defs inc_question_def; rule blind_bseq)
    (auto simp: blind_intros keeps_intros intro!: blind_write_rdata)

lemma same_live_restore:
  assumes "builder_wf b" "ext b b'"
  shows "same_live (restore (checkpoint b) b') b"
proof -
  have "ct_used (b_compression b) \<le> length (ct_entries (b_compression b'))"
    using assms by (simp add: builder_wf_def ct_ok_def ext_def)
  then show ?thesis
    using assms unfolding same_live_def builder_wf_def restore_def checkpoint_def ext_def ct_list_def ct_ok_def
    by simp
qed

lemma builder_wf_new: "builder_try_new comp_n out h = Inr b \<Longrightarrow> builder_wf b"
  by (auto simp: builder_try_new_def builder_wf_def split: if_splits)

lemma ext_wf: "ext b b' \<Longrightarrow> builder_wf b \<Longrightarrow> builder_wf b'"
  by (simp add: ext_def builder_wf_def ct_ok_def)

lemma same_live_finish:
  assumes "same_live b c" "HEADER_SIZE \<le> b_cursor b"
  shows "fst (builder_finish b) = fst (builder_finish c)"
    "take (b_cursor b) (snd (builder_finish b)) = take (b_cursor b) (snd (builder_finish c))"
proof -
  have l: "HEADER_SIZE \<le> length (b_out b)" "HEADER_SIZE \<le> length (b_out c)"
    using assms by (auto simp: same_live_def builder_wf_def)
  note f = builder_finish_spec [OF l(1)] builder_finish_spec [OF l(2)]
  have e: "b_cursor b = b_cursor c" "b_header b = b_header c" "take (b_cursor b) (b_out b) = take (b_cursor b) (b_out c)"
    using same_live_take [OF assms(1)] assms(1) by (simp_all add: same_live_def)
  then show "fst (builder_finish b) = fst (builder_finish c)" by (simp add: f)
  have "take (b_cursor b - HEADER_SIZE) (drop HEADER_SIZE (b_out b)) = take (b_cursor b - HEADER_SIZE) (drop HEADER_SIZE (b_out c))"
    using e(3) by (metis drop_take)
  then show "take (b_cursor b) (snd (builder_finish b)) = take (b_cursor b) (snd (builder_finish c))"
    unfolding f using e assms(2) by (simp add: HEADER_SIZE_def)
qed

text \<open>
  A rolled-back push leaves no trace.  After any pushes \<open>tried\<close>, complete or failed half way,
  restoring the checkpoint taken before them gives a builder on which every later sequence of pushes
  has the same outcome, error or success, and finishes into the same message, as if the pushes rolled
  back had never been attempted.
\<close>
theorem restore_is_transactional:
  assumes "builder_try_new comp_n out h = Inr b0" "bseq (map push_item before) b0 = (r0, b)"
  shows "let undone = restore (checkpoint b) (snd (bseq (map push_item tried) b));
             (r1, b1) = bseq (map push_item later) undone;
             (r2, b2) = bseq (map push_item later) b
         in r1 = r2 \<and> fst (builder_finish b1) = fst (builder_finish b2) \<and>
            take (b_cursor b1) (snd (builder_finish b1)) = take (b_cursor b2) (snd (builder_finish b2)) \<and>
            same_live b1 b2"
proof -
  have k: "keeps (bseq (map push_item items))" for items
    by (rule keeps_bseq) (auto simp: keeps_push_item)
  have bl: "blind (bseq (map push_item items))" for items
    by (rule blind_bseq) (auto simp: blind_push_item)
  have e0: "ext b0 b" using keepsD [OF k assms(2)] .
  then have wf: "builder_wf b" using ext_wf builder_wf_new [OF assms(1)] by blast
  let ?undone = "restore (checkpoint b) (snd (bseq (map push_item tried) b))"
  have s: "same_live ?undone b"
    using same_live_restore [OF wf] k by (simp add: keeps_def)
  obtain r1 b1 where p1: "bseq (map push_item later) ?undone = (r1, b1)" by (cases "bseq (map push_item later) ?undone")
  obtain r2 b2 where p2: "bseq (map push_item later) b = (r2, b2)" by (cases "bseq (map push_item later) b")
  from blindD [OF bl s, of later] p1 p2 have s2: "r1 = r2" "same_live b1 b2" by auto
  have "b_cursor b0 = HEADER_SIZE" using assms(1) by (auto simp: builder_try_new_def split: if_splits)
  then have "HEADER_SIZE \<le> b_cursor b" using e0 by (simp add: ext_def)
  moreover have "b_cursor b \<le> b_cursor b2" using keepsD [OF k p2] by (simp add: ext_def)
  moreover have "b_cursor b1 = b_cursor b2" using s2(2) by (simp add: same_live_def)
  ultimately show ?thesis
    using same_live_finish [OF s2(2)] s2 by (simp add: p1 p2 Let_def)
qed

lemma restore_is_transactional_witness:
  "let undone = restore (checkpoint sample_builder) (snd (bseq (map push_item sample_items) sample_builder));
       (r1, b1) = bseq (map push_item sample_items) undone;
       (r2, b2) = bseq (map push_item sample_items) sample_builder
   in r1 = r2 \<and> same_live b1 b2"
proof -
  have new: "builder_try_new 32 (replicate 60 0) header_new = Inr sample_builder"
    by (simp add: builder_try_new_def HEADER_SIZE_def sample_builder_def)
  from restore_is_transactional [OF new, of "[]" "Inr ()" sample_builder sample_items sample_items]
  show ?thesis by (simp add: Let_def split: prod.splits del: split_paired_All)
qed

end
