(* ===== verification/Clock.thy ===== *)
theory Clock
  imports Prelude
begin

text \<open>
  Time (\<open>time.rs\<close>, and the provider \<open>hick-smoltcp/src/time.rs\<close>).  The protocol core is generic over
  a trait \<open>Instant\<close> with two checked operations; here a value of type \<open>'i clock\<close> is passed to the
  operations that read it, and the locale \<open>instant\<close> states what the trait's documentation promises.
  A \<open>core::time::Duration\<close> is its number of nanoseconds.
\<close>

record 'i clock =
  cadd :: "'i \<Rightarrow> nat \<Rightarrow> 'i option"
  csince :: "'i \<Rightarrow> 'i \<Rightarrow> nat option"

definition millis :: "nat \<Rightarrow> nat" where "millis n = n * 1000000"
definition secs :: "nat \<Rightarrow> nat" where "secs n = n * 1000000000"

lemma secs_mono [simp]: "secs a \<le> secs b \<longleftrightarrow> a \<le> b" "secs a < secs b \<longleftrightarrow> a < b" "secs a = secs b \<longleftrightarrow> a = b"
  by (simp_all add: secs_def)

lemma secs_zero [simp]: "secs 0 = 0" by (simp add: secs_def)

locale instant =
  fixes clk :: "'i :: linorder clock"
  assumes add_zero: "cadd clk t 0 = Some t"
    and add_mono: "d \<le> e \<Longrightarrow> cadd clk t d = Some a \<Longrightarrow> cadd clk t e = Some b \<Longrightarrow> a \<le> b"
    and add_defined: "d \<le> e \<Longrightarrow> cadd clk t e \<noteq> None \<Longrightarrow> cadd clk t d \<noteq> None"
    and add_shift: "s \<le> t \<Longrightarrow> cadd clk s d = Some a \<Longrightarrow> cadd clk t d = Some b \<Longrightarrow> a \<le> b"
    and add_shift_defined: "s \<le> t \<Longrightarrow> cadd clk t d \<noteq> None \<Longrightarrow> cadd clk s d \<noteq> None"
    and since_le: "csince clk t s = Some d \<Longrightarrow> s \<le> t"
    and since_antimono: "s \<le> s' \<Longrightarrow> csince clk t s = Some d \<Longrightarrow> csince clk t s' = Some d' \<Longrightarrow> d' \<le> d"
begin

lemma add_ge: "cadd clk t d = Some a \<Longrightarrow> t \<le> a"
  using add_mono [of 0 d t t a] add_zero by simp

lemma add_ge_unwrap: "t \<le> (case cadd clk t d of None \<Rightarrow> t | Some a \<Rightarrow> a)"
  using add_ge by (auto split: option.splits)

end

subsection \<open>The smoltcp clock\<close>

text \<open>\<open>SmoltcpInstant(RawInstant)\<close>: the raw instant is its \<open>i64\<close> count of microseconds.\<close>

datatype smoltcp_instant = SmoltcpInstant (raw_micros: "64 word")

definition total_micros :: "smoltcp_instant \<Rightarrow> int" where
  "total_micros t = sint (raw_micros t)"

lemma total_micros_inj [simp]: "total_micros a = total_micros b \<longleftrightarrow> a = b"
  by (cases a; cases b) (auto simp: total_micros_def dest: arg_cong [where f = "word_of_int :: int \<Rightarrow> 64 word"])

instantiation smoltcp_instant :: linorder
begin

definition less_eq_smoltcp_instant :: "smoltcp_instant \<Rightarrow> smoltcp_instant \<Rightarrow> bool" where
  "a \<le> b \<longleftrightarrow> total_micros a \<le> total_micros b"

definition less_smoltcp_instant :: "smoltcp_instant \<Rightarrow> smoltcp_instant \<Rightarrow> bool" where
  "a < b \<longleftrightarrow> total_micros a < total_micros b"

instance
  by standard
    (auto simp: less_eq_smoltcp_instant_def less_smoltcp_instant_def dest: order_antisym)

end

definition i64_max :: int where "i64_max = 9223372036854775807"
definition i64_min :: int where "i64_min = - 9223372036854775808"

definition smoltcp_add :: "smoltcp_instant \<Rightarrow> nat \<Rightarrow> smoltcp_instant option" where
  "smoltcp_add t dur =
     (let add_us = int (dur div 1000) in
      if i64_max < add_us then None
      else let total = total_micros t + add_us in
           if total < i64_min \<or> i64_max < total then None else Some (SmoltcpInstant (word_of_int total)))"

definition smoltcp_since :: "smoltcp_instant \<Rightarrow> smoltcp_instant \<Rightarrow> nat option" where
  "smoltcp_since t earlier =
     (let delta = total_micros t - total_micros earlier in
      if delta < i64_min \<or> i64_max < delta then None
      else if delta < 0 then None
      else Some (nat delta * 1000))"

definition smoltcp_clock :: "smoltcp_instant clock" where
  "smoltcp_clock = \<lparr>cadd = smoltcp_add, csince = smoltcp_since\<rparr>"

lemma total_micros_range: "i64_min \<le> total_micros t" "total_micros t \<le> i64_max"
  using sint_ge [of "raw_micros t"] sint_lt [of "raw_micros t"]
  by (simp_all add: total_micros_def i64_min_def i64_max_def)

lemma total_micros_of_int:
  "i64_min \<le> n \<Longrightarrow> n \<le> i64_max \<Longrightarrow> total_micros (SmoltcpInstant (word_of_int n)) = n"
  by (simp add: total_micros_def i64_min_def i64_max_def signed_of_int signed_take_bit_int_eq_self)

lemma smoltcp_add_Some:
  "smoltcp_add t d = Some a \<longleftrightarrow>
     total_micros t + int (d div 1000) \<le> i64_max \<and> int (d div 1000) \<le> i64_max \<and>
     total_micros a = total_micros t + int (d div 1000)"
proof -
  have "total_micros t + int (d div 1000) \<ge> i64_min" using total_micros_range(1) [of t] by simp
  moreover have "SmoltcpInstant (word_of_int n) = a \<longleftrightarrow> total_micros a = n" if "i64_min \<le> n" "n \<le> i64_max" for n
    using total_micros_of_int [OF that] total_micros_inj by metis
  ultimately show ?thesis
    unfolding smoltcp_add_def Let_def by (auto simp: not_less simp del: of_int_add of_int_of_nat_eq of_int_sint)
qed

lemma smoltcp_add_None:
  "smoltcp_add t d = None \<longleftrightarrow> i64_max < total_micros t + int (d div 1000) \<or> i64_max < int (d div 1000)"
proof -
  have "total_micros t + int (d div 1000) \<ge> i64_min" using total_micros_range(1) [of t] by simp
  then show ?thesis by (auto simp: smoltcp_add_def Let_def)
qed

lemma smoltcp_since_Some:
  "smoltcp_since t s = Some d \<longleftrightarrow>
     total_micros s \<le> total_micros t \<and> total_micros t - total_micros s \<le> i64_max \<and>
     d = nat (total_micros t - total_micros s) * 1000"
  by (auto simp: smoltcp_since_def Let_def i64_min_def)

interpretation smoltcp: instant smoltcp_clock
proof
  fix t s s' a b :: smoltcp_instant and d e d' :: nat
  show "cadd smoltcp_clock t 0 = Some t"
    using total_micros_range(2) [of t] by (simp add: smoltcp_clock_def smoltcp_add_Some i64_max_def)
  have div: "d div 1000 \<le> e div 1000" if "d \<le> e" using that by (rule div_le_mono)
  show "a \<le> b" if "d \<le> e" "cadd smoltcp_clock t d = Some a" "cadd smoltcp_clock t e = Some b"
    using that div by (simp add: smoltcp_clock_def smoltcp_add_Some less_eq_smoltcp_instant_def)
  show "cadd smoltcp_clock t d \<noteq> None" if "d \<le> e" "cadd smoltcp_clock t e \<noteq> None"
    using that div by (auto simp: smoltcp_clock_def smoltcp_add_None)
  show "a \<le> b" if "s \<le> t" "cadd smoltcp_clock s d = Some a" "cadd smoltcp_clock t d = Some b"
    using that by (simp add: smoltcp_clock_def smoltcp_add_Some less_eq_smoltcp_instant_def)
  show "cadd smoltcp_clock s d \<noteq> None" if "s \<le> t" "cadd smoltcp_clock t d \<noteq> None"
    using that by (auto simp: smoltcp_clock_def smoltcp_add_None less_eq_smoltcp_instant_def)
  show "s \<le> t" if "csince smoltcp_clock t s = Some d"
    using that by (simp add: smoltcp_clock_def smoltcp_since_Some less_eq_smoltcp_instant_def)
  show "d' \<le> d" if "s \<le> s'" "csince smoltcp_clock t s = Some d" "csince smoltcp_clock t s' = Some d'"
    using that by (auto simp: smoltcp_clock_def smoltcp_since_Some less_eq_smoltcp_instant_def intro: mult_le_mono1)
qed

text \<open>
  The smoltcp clock keeps the trait's contract to the microsecond: where both are defined, adding
  a duration and asking how long ago the start was gives the duration rounded down to microseconds,
  a later instant is never reported as elapsed, and an addition that leaves the \<open>i64\<close> range is
  refused instead of wrapping round.
\<close>
theorem smoltcp_clock_exact:
  "(\<forall>t' e. smoltcp_add t d = Some t' \<longrightarrow> smoltcp_since t' t = Some e \<longrightarrow> e = d div 1000 * 1000) \<and>
   (smoltcp_since t s = None \<longleftrightarrow> t < s \<or> i64_max < total_micros t - total_micros s) \<and>
   (smoltcp_add t d = None \<longleftrightarrow> i64_max < total_micros t + int (d div 1000) \<or> i64_max < int (d div 1000))"
proof -
  have "e = d div 1000 * 1000" if "smoltcp_add t d = Some t'" "smoltcp_since t' t = Some e" for t' e
    using that unfolding smoltcp_add_Some smoltcp_since_Some by (simp flip: of_nat_div)
  moreover have "smoltcp_since t s = None \<longleftrightarrow> t < s \<or> i64_max < total_micros t - total_micros s"
    by (auto simp: smoltcp_since_def Let_def i64_min_def less_smoltcp_instant_def)
  ultimately show ?thesis using smoltcp_add_None by blast
qed

lemma smoltcp_clock_exact_witness:
  "smoltcp_since (SmoltcpInstant 12) (SmoltcpInstant 10) = Some 2000"
proof -
  have a: "smoltcp_add (SmoltcpInstant 10) 2999 = Some (SmoltcpInstant 12)" by code_simp
  have "Option.is_none (smoltcp_since (SmoltcpInstant 12) (SmoltcpInstant 10)) = False" by code_simp
  then obtain e where e: "smoltcp_since (SmoltcpInstant 12) (SmoltcpInstant 10) = Some e"
    by (auto simp: Option.is_none_def)
  with smoltcp_clock_exact [of "SmoltcpInstant 10" 2999, THEN conjunct1] a show ?thesis by simp
qed

end
