(* ===== verification/Pool.thy ===== *)
theory Pool
  imports Prelude
begin

text \<open>
  Backing storage (\<open>pool.rs\<close>).  The state machines are generic over the trait \<open>Pool\<close>; here the
  operations they call are a record \<open>pool_ops\<close> passed as an argument, and the locale \<open>pool\<close> states
  the trait's contract over the finite map from keys to values that a pool stands for.  The map says
  nothing about the order of iteration, which the trait leaves open.  \<open>slab::Slab\<close> is a third-party
  crate, so it stays a parameter; \<open>FixedPool\<close>, the capped pool of this repository, is modelled over it
  and shown to keep the contract.
\<close>

record ('v, 'p, 'e) pool_ops =
  pl_new :: 'p
  pl_iter :: "'p \<Rightarrow> (nat \<times> 'v) list"
  pl_len :: "'p \<Rightarrow> nat"
  pl_vacant :: "'p \<Rightarrow> 'e + nat"
  pl_get :: "'p \<Rightarrow> nat \<Rightarrow> 'v option"
  pl_put :: "'p \<Rightarrow> nat \<Rightarrow> 'v \<Rightarrow> 'p"
  pl_insert :: "'p \<Rightarrow> 'v \<Rightarrow> ('e + nat) \<times> 'p"
  pl_remove :: "'p \<Rightarrow> nat \<Rightarrow> 'v option \<times> 'p"

text \<open>\<open>pl_put p k v\<close> is an assignment through \<open>get_mut(k)\<close>.\<close>

abbreviation pmap :: "('v, 'p, 'e) pool_ops \<Rightarrow> 'p \<Rightarrow> nat \<Rightarrow> 'v option" where
  "pmap ops p \<equiv> map_of (pl_iter ops p)"

locale pool =
  fixes ops :: "('v, 'p, 'e) pool_ops" and pinv :: "'p \<Rightarrow> bool"
  assumes new_inv: "pinv (pl_new ops)" and new_iter: "pl_iter ops (pl_new ops) = []"
    and iter_distinct: "pinv p \<Longrightarrow> distinct (map fst (pl_iter ops p))"
    and len_iter: "pinv p \<Longrightarrow> pl_len ops p = length (pl_iter ops p)"
    and get_map: "pinv p \<Longrightarrow> pl_get ops p k = pmap ops p k"
    and put_inv: "pinv p \<Longrightarrow> k \<in> dom (pmap ops p) \<Longrightarrow> pinv (pl_put ops p k v)"
    and put_map: "pinv p \<Longrightarrow> k \<in> dom (pmap ops p) \<Longrightarrow> pmap ops (pl_put ops p k v) = (pmap ops p)(k \<mapsto> v)"
    and insert_Inr: "pinv p \<Longrightarrow> pl_insert ops p v = (Inr k, p') \<Longrightarrow>
      pinv p' \<and> k \<notin> dom (pmap ops p) \<and> pmap ops p' = (pmap ops p)(k \<mapsto> v)"
    and insert_Inl: "pinv p \<Longrightarrow> pl_insert ops p v = (Inl e, p') \<Longrightarrow> p' = p"
    and vacant_insert: "pinv p \<Longrightarrow> is_ok (pl_vacant ops p) \<longleftrightarrow> is_ok (fst (pl_insert ops p v))"
    and remove_map: "pinv p \<Longrightarrow> pl_remove ops p k = (r, p') \<Longrightarrow>
      pinv p' \<and> r = pmap ops p k \<and> pmap ops p' = (pmap ops p)(k := None)"
begin

text \<open>The values a pool holds.\<close>

lemma ran_set: "pinv p \<Longrightarrow> ran (pmap ops p) = set (map snd (pl_iter ops p))"
  using ran_distinct [OF iter_distinct] by simp

lemma len_card: "pinv p \<Longrightarrow> pl_len ops p = card (dom (pmap ops p))"
  using len_iter [of p] iter_distinct [of p] distinct_card [of "map fst (pl_iter ops p)"]
  by (simp add: dom_map_of_conv_image_fst)

lemma mem_iter: "pinv p \<Longrightarrow> (k, v) \<in> set (pl_iter ops p) \<longleftrightarrow> pmap ops p k = Some v"
  using iter_distinct by simp

lemma finite_pool: "finite (dom (pmap ops p))" "finite (ran (pmap ops p))"
  by (simp_all add: finite_dom_map_of finite_ran)

lemma insert_len:
  "pinv p \<Longrightarrow> pl_insert ops p v = (Inr k, p') \<Longrightarrow> pl_len ops p' = Suc (pl_len ops p)"
  using insert_Inr [of p v k p'] finite_pool(1) [of p] by (simp add: len_card)

lemma remove_len:
  "pinv p \<Longrightarrow> pl_remove ops p k = (r, p') \<Longrightarrow>
     pl_len ops p' = (if k \<in> dom (pmap ops p) then pl_len ops p - 1 else pl_len ops p)"
  using remove_map [of p k r p'] finite_pool(1) [of p]
  by (auto simp: len_card card_Diff_singleton_if insert_absorb)

end

subsection \<open>The capped pool\<close>

text \<open>\<open>FixedPool<V, N>\<close>: a slab that refuses to hold more than \<open>N\<close> values.\<close>

datatype fixed_pool_full = FixedPoolFull

definition fixed_vacant :: "nat \<Rightarrow> ('v, 'p, 'e) pool_ops \<Rightarrow> 'p \<Rightarrow> fixed_pool_full + nat" where
  "fixed_vacant n slab p =
     (if n \<le> pl_len slab p then Inl FixedPoolFull
      else case pl_vacant slab p of Inl _ \<Rightarrow> Inl FixedPoolFull | Inr k \<Rightarrow> Inr k)"

definition fixed_insert ::
  "nat \<Rightarrow> ('v, 'p, 'e) pool_ops \<Rightarrow> 'p \<Rightarrow> 'v \<Rightarrow> (fixed_pool_full + nat) \<times> 'p" where
  "fixed_insert n slab p v =
     (if n \<le> pl_len slab p then (Inl FixedPoolFull, p)
      else case pl_insert slab p v of (Inl _, p') \<Rightarrow> (Inl FixedPoolFull, p') | (Inr k, p') \<Rightarrow> (Inr k, p'))"

text \<open>The remaining methods call the slab's own.\<close>

definition fixed_pool :: "nat \<Rightarrow> ('v, 'p, 'e) pool_ops \<Rightarrow> ('v, 'p, fixed_pool_full) pool_ops" where
  "fixed_pool n slab =
     \<lparr>pl_new = pl_new slab, pl_iter = pl_iter slab, pl_len = pl_len slab,
      pl_vacant = fixed_vacant n slab, pl_get = pl_get slab, pl_put = pl_put slab,
      pl_insert = fixed_insert n slab, pl_remove = pl_remove slab\<rparr>"

locale capped_pool = pool ops pinv for ops :: "('v, 'p, 'e) pool_ops" and pinv :: "'p \<Rightarrow> bool" +
  fixes n :: nat
begin

lemma fixed_pool_laws: "pool (fixed_pool n ops) pinv"
proof
  fix p :: 'p and v :: 'v and k p' and e :: fixed_pool_full and r
  note simps = fixed_pool_def fixed_insert_def fixed_vacant_def
  show "pinv (pl_new (fixed_pool n ops))" "pl_iter (fixed_pool n ops) (pl_new (fixed_pool n ops)) = []"
    by (simp_all add: simps new_inv new_iter)
  assume p: "pinv p"
  show "distinct (map fst (pl_iter (fixed_pool n ops) p))"
    "pl_len (fixed_pool n ops) p = length (pl_iter (fixed_pool n ops) p)"
    "pl_get (fixed_pool n ops) p k = pmap (fixed_pool n ops) p k"
    using p by (simp_all add: simps iter_distinct len_iter get_map)
  show "k \<in> dom (pmap (fixed_pool n ops) p) \<Longrightarrow> pinv (pl_put (fixed_pool n ops) p k v)"
    "k \<in> dom (pmap (fixed_pool n ops) p) \<Longrightarrow>
       pmap (fixed_pool n ops) (pl_put (fixed_pool n ops) p k v) = (pmap (fixed_pool n ops) p)(k \<mapsto> v)"
    using p by (simp_all add: simps put_inv put_map del: map_of_eq_None_iff)
  show "pl_insert (fixed_pool n ops) p v = (Inr k, p') \<Longrightarrow>
      pinv p' \<and> k \<notin> dom (pmap (fixed_pool n ops) p) \<and> pmap (fixed_pool n ops) p' = (pmap (fixed_pool n ops) p)(k \<mapsto> v)"
    using insert_Inr [OF p, of v k p'] by (auto simp: simps split: if_splits prod.splits sum.splits)
  show "pl_insert (fixed_pool n ops) p v = (Inl e, p') \<Longrightarrow> p' = p"
    using insert_Inl [OF p, of v _ p'] by (auto simp: simps split: if_splits prod.splits sum.splits)
  show "is_ok (pl_vacant (fixed_pool n ops) p) \<longleftrightarrow> is_ok (fst (pl_insert (fixed_pool n ops) p v))"
    using vacant_insert [OF p, of v] by (auto simp: simps split: prod.splits sum.splits)
  show "pl_remove (fixed_pool n ops) p k = (r, p') \<Longrightarrow>
      pinv p' \<and> r = pmap (fixed_pool n ops) p k \<and> pmap (fixed_pool n ops) p' = (pmap (fixed_pool n ops) p)(k := None)"
    using remove_map [OF p, of k r p'] by (simp add: simps)
qed

end

sublocale capped_pool \<subseteq> fixed: pool "fixed_pool n ops" pinv
  by (rule fixed_pool_laws)

text \<open>
  The capped pool never holds more than its bound, and it keeps the contract over every slab that
  does.
\<close>

lemma fixed_insert_bounded:
  assumes "pool slab pinv" "pinv p" "pl_len slab p \<le> n" "fixed_insert n slab p v = (r, p')"
  shows "pl_len slab p' \<le> n"
  using assms(2-4) pool.insert_len [OF assms(1,2), of v] pool.insert_Inl [OF assms(1,2), of v]
  by (auto simp: fixed_insert_def split: if_splits prod.splits sum.splits)

subsection \<open>A reference slab\<close>

text \<open>
  The documented behaviour of a growable slab as an association list: the next key is one that is not
  in use.  It instantiates the contract and serves as the concrete argument of witnesses.
\<close>

definition slab_key :: "(nat \<times> 'v) list \<Rightarrow> nat" where
  "slab_key p = fold (\<lambda>(k, _) m. max (Suc k) m) p 0"

definition list_slab :: "('v, (nat \<times> 'v) list, unit) pool_ops" where
  "list_slab =
     \<lparr>pl_new = [], pl_iter = (\<lambda>p. p), pl_len = length, pl_vacant = (\<lambda>p. Inr (slab_key p)),
      pl_get = map_of, pl_put = (\<lambda>p k v. map (\<lambda>(j, w). (j, if j = k then v else w)) p),
      pl_insert = (\<lambda>p v. (Inr (slab_key p), p @ [(slab_key p, v)])),
      pl_remove = (\<lambda>p k. (map_of p k, filter (\<lambda>(j, _). j \<noteq> k) p))\<rparr>"

lemma slab_key_fold: "m \<le> fold (\<lambda>(k, _) m. max (Suc k) m) p m"
  by (induction p arbitrary: m) (auto, metis max.cobounded2 order_trans)

lemma slab_key_fresh: "(k, v) \<in> set p \<Longrightarrow> k < slab_key p"
proof -
  have "(k, v) \<in> set p \<Longrightarrow> k < fold (\<lambda>(k, _) m. max (Suc k) m) p m" for m
  proof (induction p arbitrary: m)
    case (Cons x p)
    then show ?case using slab_key_fold [of "max (Suc k) m" p] by (cases x) fastforce
  qed simp
  then show "(k, v) \<in> set p \<Longrightarrow> k < slab_key p" by (simp add: slab_key_def)
qed

lemma map_of_put:
  "map_of (map (\<lambda>(j, w). (j, if j = k then v else w)) p) i =
     (if i = k \<and> k \<in> dom (map_of p) then Some v else map_of p i)"
  by (induction p) (auto simp: domIff)

lemma map_of_remove: "map_of (filter (\<lambda>(j, _). j \<noteq> k) p) = (map_of p)(k := None)"
  by (induction p) (auto simp: fun_eq_iff)

interpretation list_slab: pool list_slab "\<lambda>p. distinct (map fst p)"
proof
  fix p :: "(nat \<times> 'v) list" and v :: 'v and k p' and e :: unit and r
  show "distinct (map fst (pl_new list_slab))" "pl_iter list_slab (pl_new list_slab) = []"
    by (simp_all add: list_slab_def)
  assume p: "distinct (map fst p)"
  show "distinct (map fst (pl_iter list_slab p))" "pl_len list_slab p = length (pl_iter list_slab p)"
    "pl_get list_slab p k = pmap list_slab p k"
    using p by (simp_all add: list_slab_def)
  have "map fst (map (\<lambda>(j, w). (j, if j = k then v else w)) p) = map fst p" by (induction p) auto
  then show "distinct (map fst (pl_put list_slab p k v))" using p by (simp only: list_slab_def pool_ops.simps)
  show "k \<in> dom (pmap list_slab p) \<Longrightarrow> pmap list_slab (pl_put list_slab p k v) = (pmap list_slab p)(k \<mapsto> v)"
    by (auto simp: list_slab_def map_of_put fun_eq_iff)
  have fresh: "slab_key p \<notin> fst ` set p" using slab_key_fresh by fastforce
  show "pl_insert list_slab p v = (Inr k, p') \<Longrightarrow>
      distinct (map fst p') \<and> k \<notin> dom (pmap list_slab p) \<and> pmap list_slab p' = (pmap list_slab p)(k \<mapsto> v)"
    using p fresh by (auto simp: list_slab_def dom_map_of_conv_image_fst map_add_def fun_eq_iff
        split: option.splits dest!: map_of_SomeD) force
  show "pl_insert list_slab p v = (Inl e, p') \<Longrightarrow> p' = p" by (simp add: list_slab_def)
  show "is_ok (pl_vacant list_slab p) \<longleftrightarrow> is_ok (fst (pl_insert list_slab p v))" by (simp add: list_slab_def)
  show "pl_remove list_slab p k = (r, p') \<Longrightarrow>
      distinct (map fst p') \<and> r = pmap list_slab p k \<and> pmap list_slab p' = (pmap list_slab p)(k := None)"
    using p by (auto simp: list_slab_def map_of_remove distinct_map_filter)
qed

interpretation fixed_slab: capped_pool list_slab "\<lambda>p. distinct (map fst p)" n for n
  by unfold_locales

end
