(* ===== verification/Cache.thy ===== *)
theory Cache
  imports WireTypes DnsName Clock Pool
begin

text \<open>
  The passive record cache (\<open>cache.rs\<close>): insertion with deduplication, goodbye and cache-flush
  clamping, bounded eviction, and the expiry sweep.  The operations take the clock and the pool as
  arguments; the specification reads a cache as the set of its entries.
\<close>

record 'i cache_entry =
  ce_name :: name
  ce_rtype :: resource_type
  ce_rclass :: resource_class
  ce_rdata :: bytes
  ce_expires_at :: 'i
  ce_received_at :: 'i

record 'p cache =
  ca_entries :: 'p
  ca_max_entries :: nat

type_synonym ('i, 'p, 'e) entry_pool = "('i cache_entry, 'p, 'e) pool_ops"

definition DEFAULT_MAX_ENTRIES :: nat where "DEFAULT_MAX_ENTRIES = 1024"

definition cache_new :: "('i, 'p, 'e) entry_pool \<Rightarrow> 'p cache" where
  "cache_new ops = \<lparr>ca_entries = pl_new ops, ca_max_entries = DEFAULT_MAX_ENTRIES\<rparr>"

definition cache_with_max_entries :: "('i, 'p, 'e) entry_pool \<Rightarrow> nat \<Rightarrow> 'p cache" where
  "cache_with_max_entries ops m = \<lparr>ca_entries = pl_new ops, ca_max_entries = m\<rparr>"

text \<open>\<open>rrset_matches\<close>: the tests on type, class and name; \<open>record_matches\<close> adds the RDATA.\<close>

definition rrset_matches :: "name \<Rightarrow> resource_type \<Rightarrow> resource_class \<Rightarrow> 'i cache_entry \<Rightarrow> bool" where
  "rrset_matches n rtype rclass e \<longleftrightarrow>
     ce_rtype e = rtype \<and> ce_rclass e = rclass \<and> as_str (ce_name e) = as_str n"

definition record_matches :: "name \<Rightarrow> resource_type \<Rightarrow> resource_class \<Rightarrow> bytes \<Rightarrow> 'i cache_entry \<Rightarrow> bool" where
  "record_matches n rtype rclass rdata e \<longleftrightarrow> rrset_matches n rtype rclass e \<and> ce_rdata e = rdata"

text \<open>The first key in iteration order whose entry passes the test.\<close>

fun find_key :: "('i cache_entry \<Rightarrow> bool) \<Rightarrow> (nat \<times> 'i cache_entry) list \<Rightarrow> nat option" where
  "find_key P [] = None"
| "find_key P ((k, e) # es) = (if P e then Some k else find_key P es)"

text \<open>\<open>if let Some(entry) = self.entries.get_mut(key) { f(entry) }\<close>\<close>

definition update_entry ::
  "('i, 'p, 'e) entry_pool \<Rightarrow> ('i cache_entry \<Rightarrow> 'i cache_entry) \<Rightarrow> nat \<Rightarrow> 'p \<Rightarrow> 'p" where
  "update_entry ops f key p = (case pl_get ops p key of None \<Rightarrow> p | Some e \<Rightarrow> pl_put ops p key (f e))"

definition clamp_to :: "'i :: linorder \<Rightarrow> 'i cache_entry \<Rightarrow> 'i cache_entry" where
  "clamp_to deadline e = (if deadline < ce_expires_at e then e\<lparr>ce_expires_at := deadline\<rparr> else e)"

text \<open>TTL 0: the matching record is clamped to one second from now.\<close>

definition goodbye ::
  "'i :: linorder clock \<Rightarrow> ('i, 'p, 'e) entry_pool \<Rightarrow> name \<Rightarrow> resource_type \<Rightarrow> resource_class \<Rightarrow> bytes \<Rightarrow> 'i \<Rightarrow> 'p \<Rightarrow> 'p" where
  "goodbye clk ops n rtype rclass rdata now p =
     (case cadd clk now (secs 1) of
        None \<Rightarrow> p
      | Some deadline \<Rightarrow>
          (case find_key (record_matches n rtype rclass rdata) (pl_iter ops p) of
             None \<Rightarrow> p
           | Some key \<Rightarrow> update_entry ops (clamp_to deadline) key p))"

text \<open>The loop that collects the siblings a cache-flush record clamps.\<close>

definition flush_clamps ::
  "'i :: linorder clock \<Rightarrow> name \<Rightarrow> resource_type \<Rightarrow> resource_class \<Rightarrow> bytes \<Rightarrow> 'i \<Rightarrow> 'i \<Rightarrow> 'i cache_entry \<Rightarrow> bool" where
  "flush_clamps clk n rtype rclass rdata now deadline e =
     (if \<not> rrset_matches n rtype rclass e then False
      else
        let recent = (case csince clk now (ce_received_at e) of Some d \<Rightarrow> d < secs 1 | None \<Rightarrow> True) in
        if recent \<or> ce_rdata e = rdata then False
        else deadline < ce_expires_at e)"

definition flush_siblings ::
  "'i :: linorder clock \<Rightarrow> ('i, 'p, 'e) entry_pool \<Rightarrow> name \<Rightarrow> resource_type \<Rightarrow> resource_class \<Rightarrow> bytes \<Rightarrow> 'i \<Rightarrow> 'p \<Rightarrow> 'p" where
  "flush_siblings clk ops n rtype rclass rdata now p =
     (case cadd clk now (secs 1) of
        None \<Rightarrow> p
      | Some deadline \<Rightarrow>
          fold (update_entry ops (\<lambda>e. e\<lparr>ce_expires_at := deadline\<rparr>))
            (map fst (filter (\<lambda>(_, e). flush_clamps clk n rtype rclass rdata now deadline e) (pl_iter ops p))) p)"

text \<open>The entry evicted: the soonest to expire, the first such in iteration order.\<close>

fun soonest :: "(nat \<times> 'i :: linorder cache_entry) list \<Rightarrow> (nat \<times> 'i) option \<Rightarrow> (nat \<times> 'i) option" where
  "soonest [] victim = victim"
| "soonest ((key, e) # es) victim =
     soonest es (case victim of
         Some (_, prev_exp) \<Rightarrow> if prev_exp \<le> ce_expires_at e then victim else Some (key, ce_expires_at e)
       | None \<Rightarrow> Some (key, ce_expires_at e))"

definition evict_soonest :: "('i :: linorder, 'p, 'e) entry_pool \<Rightarrow> 'p \<Rightarrow> 'p" where
  "evict_soonest ops p =
     (case soonest (pl_iter ops p) None of None \<Rightarrow> p | Some (vk, _) \<Rightarrow> snd (pl_remove ops p vk))"

definition bounded_insert ::
  "('i :: linorder, 'p, 'e) entry_pool \<Rightarrow> nat \<Rightarrow> 'i cache_entry \<Rightarrow> 'p \<Rightarrow> ('e + nat) \<times> 'p" where
  "bounded_insert ops max_entries e p =
     (let p = (if max_entries \<le> pl_len ops p then evict_soonest ops p else p) in
      case pl_insert ops p e of
        (Inr k, p) \<Rightarrow> (Inr k, p)
      | (Inl _, p) \<Rightarrow> pl_insert ops (evict_soonest ops p) e)"

definition try_insert ::
  "'i :: linorder clock \<Rightarrow> ('i, 'p, 'e) entry_pool \<Rightarrow> name \<Rightarrow> resource_type \<Rightarrow> resource_class \<Rightarrow> bytes \<Rightarrow> nat \<Rightarrow>
     'i \<Rightarrow> bool \<Rightarrow> 'p cache \<Rightarrow> ('e + nat option) \<times> 'p cache" where
  "try_insert clk ops n rtype rclass rdata ttl now cache_flush c =
     (if ca_max_entries c = 0 then (Inr None, c)
      else if ttl = 0
      then (Inr None, c\<lparr>ca_entries := goodbye clk ops n rtype rclass rdata now (ca_entries c)\<rparr>)
      else
        let p = (if cache_flush then flush_siblings clk ops n rtype rclass rdata now (ca_entries c)
                 else ca_entries c);
            expires_at = (case cadd clk now ttl of Some t \<Rightarrow> t | None \<Rightarrow> now) in
        case find_key (record_matches n rtype rclass rdata) (pl_iter ops p) of
          Some key \<Rightarrow>
            (Inr (Some key), c\<lparr>ca_entries :=
               update_entry ops (\<lambda>e. e\<lparr>ce_expires_at := expires_at, ce_received_at := now\<rparr>) key p\<rparr>)
        | None \<Rightarrow>
            (case bounded_insert ops (ca_max_entries c)
                \<lparr>ce_name = n, ce_rtype = rtype, ce_rclass = rclass, ce_rdata = rdata,
                 ce_expires_at = expires_at, ce_received_at = now\<rparr> p of
               (Inl err, p) \<Rightarrow> (Inl err, c\<lparr>ca_entries := p\<rparr>)
             | (Inr k, p) \<Rightarrow> (Inr (Some k), c\<lparr>ca_entries := p\<rparr>)))"

definition sweep_expired :: "('i :: linorder, 'p, 'e) entry_pool \<Rightarrow> 'i \<Rightarrow> 'p cache \<Rightarrow> nat \<times> 'p cache" where
  "sweep_expired ops now c =
     (let (removed, p) = fold (\<lambda>key (removed, p).
            case pl_remove ops p key of
              (Some _, p) \<Rightarrow> (removed + 1, p)
            | (None, p) \<Rightarrow> (removed, p))
          (map fst (filter (\<lambda>(_, e). ce_expires_at e \<le> now) (pl_iter ops (ca_entries c)))) (0, ca_entries c) in
      (removed, c\<lparr>ca_entries := p\<rparr>))"

definition next_expiration :: "('i :: linorder, 'p, 'e) entry_pool \<Rightarrow> 'p cache \<Rightarrow> 'i option" where
  "next_expiration ops c =
     fold (\<lambda>(_, e) best. Some (case best of
         Some prev \<Rightarrow> if prev < ce_expires_at e then prev else ce_expires_at e
       | None \<Rightarrow> ce_expires_at e)) (pl_iter ops (ca_entries c)) None"

definition cache_contains ::
  "('i, 'p, 'e) entry_pool \<Rightarrow> name \<Rightarrow> resource_type \<Rightarrow> resource_class \<Rightarrow> 'p cache \<Rightarrow> bool" where
  "cache_contains ops n rtype rclass c \<longleftrightarrow> list_ex (\<lambda>(_, e). rrset_matches n rtype rclass e) (pl_iter ops (ca_entries c))"

definition count_matching ::
  "('i, 'p, 'e) entry_pool \<Rightarrow> name \<Rightarrow> resource_type \<Rightarrow> resource_class \<Rightarrow> 'p cache \<Rightarrow> nat" where
  "count_matching ops n rtype rclass c =
     length (filter (\<lambda>(_, e). rrset_matches n rtype rclass e) (pl_iter ops (ca_entries c)))"

subsection \<open>A cache as the set of its entries\<close>

type_synonym ident = "resource_type \<times> resource_class \<times> bytes \<times> bytes"

definition ident :: "'i cache_entry \<Rightarrow> ident" where
  "ident e = (ce_rtype e, ce_rclass e, as_str (ce_name e), ce_rdata e)"

definition entries :: "('i, 'p, 'e) entry_pool \<Rightarrow> 'p cache \<Rightarrow> 'i cache_entry set" where
  "entries ops c = ran (pmap ops (ca_entries c))"

definition idents_distinct :: "('i, 'p, 'e) entry_pool \<Rightarrow> 'p \<Rightarrow> bool" where
  "idents_distinct ops p \<longleftrightarrow>
     (\<forall>k j e f. pmap ops p k = Some e \<longrightarrow> pmap ops p j = Some f \<longrightarrow> ident e = ident f \<longrightarrow> k = j)"

definition cache_ok :: "('i, 'p, 'e) entry_pool \<Rightarrow> ('p \<Rightarrow> bool) \<Rightarrow> 'p cache \<Rightarrow> bool" where
  "cache_ok ops pinv c \<longleftrightarrow>
     pinv (ca_entries c) \<and> pl_len ops (ca_entries c) \<le> ca_max_entries c \<and> idents_distinct ops (ca_entries c)"

lemma record_matches_ident: "record_matches n rt rc rd e \<longleftrightarrow> ident e = (rt, rc, as_str n, rd)"
  by (auto simp: record_matches_def rrset_matches_def ident_def)

lemma find_key_Some: "find_key P es = Some k \<Longrightarrow> \<exists>e. (k, e) \<in> set es \<and> P e"
  by (induction P es rule: find_key.induct) (auto split: if_splits)

lemma find_key_None: "find_key P es = None \<longleftrightarrow> (\<forall>(k, e)\<in>set es. \<not> P e)"
  by (induction P es rule: find_key.induct) auto

lemma soonest_Some:
  "soonest es v = Some (k, t) \<Longrightarrow>
     (v = Some (k, t) \<or> (\<exists>e. (k, e) \<in> set es \<and> ce_expires_at e = t)) \<and>
     (\<forall>(j, e)\<in>set es. t \<le> ce_expires_at e) \<and> (\<forall>j u. v = Some (j, u) \<longrightarrow> t \<le> u)"
proof (induction es v rule: soonest.induct)
  case (2 key e es v)
  show ?case
  proof (cases v)
    case None
    with 2 show ?thesis by fastforce
  next
    case (Some ju)
    obtain j u where ju: "ju = (j, u)" by (cases ju)
    with 2 Some show ?thesis by (cases "u \<le> ce_expires_at e") (fastforce+)
  qed
qed simp

lemma soonest_None: "soonest es v = None \<longleftrightarrow> es = [] \<and> v = None"
  by (induction es v rule: soonest.induct) (auto split: option.splits if_splits)

lemma flush_clamps_ident:
  "flush_clamps clk n rt rc rd now dl e \<Longrightarrow> ident e \<noteq> (rt, rc, as_str n, rd) \<and> dl < ce_expires_at e"
  by (auto simp: flush_clamps_def ident_def rrset_matches_def Let_def split: if_splits)

text \<open>What a cache-flush record does to an entry, and what a refresh does.\<close>

definition flushed ::
  "'i :: linorder clock \<Rightarrow> name \<Rightarrow> resource_type \<Rightarrow> resource_class \<Rightarrow> bytes \<Rightarrow> 'i \<Rightarrow> 'i cache_entry \<Rightarrow> 'i cache_entry" where
  "flushed clk n rt rc rd now e =
     (case cadd clk now (secs 1) of None \<Rightarrow> e
      | Some dl \<Rightarrow> if flush_clamps clk n rt rc rd now dl e then e\<lparr>ce_expires_at := dl\<rparr> else e)"

definition refreshed :: "'i \<Rightarrow> 'i \<Rightarrow> 'i cache_entry \<Rightarrow> 'i cache_entry" where
  "refreshed t now e = e\<lparr>ce_expires_at := t, ce_received_at := now\<rparr>"

locale entry_store = pool ops pinv for ops :: "('i :: linorder, 'p, 'e) entry_pool" and pinv :: "'p \<Rightarrow> bool"
begin

abbreviation M :: "'p \<Rightarrow> nat \<Rightarrow> 'i cache_entry option" where "M \<equiv> pmap ops"

lemma update_entry_map:
  "pinv p \<Longrightarrow> pinv (update_entry ops f key p) \<and>
     M (update_entry ops f key p) = (\<lambda>k. if k = key then map_option f (M p k) else M p k)"
proof (cases "M p key")
  case (Some e)
  assume p: "pinv p"
  have "key \<in> dom (M p)" using Some by blast
  from put_inv [OF p this] put_map [OF p this] Some get_map [OF p, of key] show ?thesis
    by (auto simp: update_entry_def fun_eq_iff)
next
  case None
  assume p: "pinv p"
  then show ?thesis using None get_map [OF p, of key] by (auto simp: update_entry_def fun_eq_iff)
qed

lemma update_fold_map:
  "pinv p \<Longrightarrow> distinct keys \<Longrightarrow> pinv (fold (update_entry ops f) keys p) \<and>
     M (fold (update_entry ops f) keys p) = (\<lambda>k. if k \<in> set keys then map_option f (M p k) else M p k)"
proof (induction keys arbitrary: p)
  case (Cons key keys)
  from update_entry_map [OF Cons.prems(1), of f key]
  have u: "pinv (update_entry ops f key p)"
    "M (update_entry ops f key p) = (\<lambda>k. if k = key then map_option f (M p k) else M p k)" by auto
  from Cons.IH [OF u(1)] Cons.prems(2) show ?case by (auto simp: u(2) fun_eq_iff)
qed simp

text \<open>Updating the entries that pass a test, and what it does to the set of entries.\<close>

definition updates :: "'p \<Rightarrow> ('i cache_entry \<Rightarrow> 'i cache_entry) \<Rightarrow> 'p \<Rightarrow> bool" where
  "updates p f p' \<longleftrightarrow> pinv p' \<and> M p' = (\<lambda>k. map_option f (M p k))"

lemma updates_ran: "updates p f p' \<Longrightarrow> ran (M p') = f ` ran (M p)"
  by (auto simp: updates_def ran_def image_def)

lemma updates_len: "pinv p \<Longrightarrow> updates p f p' \<Longrightarrow> pl_len ops p' = pl_len ops p"
proof -
  assume "pinv p" "updates p f p'"
  moreover from this have "dom (M p') = dom (M p)" by (auto simp: updates_def dom_def)
  ultimately show ?thesis by (simp add: len_card updates_def)
qed

lemma updates_distinct:
  "updates p f p' \<Longrightarrow> (\<And>e. ident (f e) = ident e) \<Longrightarrow> idents_distinct ops p \<Longrightarrow> idents_distinct ops p'"
  unfolding updates_def idents_distinct_def by (fastforce simp: map_option_eq_Some)

lemma updates_refl: "pinv p \<Longrightarrow> updates p (\<lambda>e. e) p"
  by (simp add: updates_def option.map_ident)

lemma update_match:
  assumes "pinv p" "idents_distinct ops p" "find_key (record_matches n rt rc rd) (pl_iter ops p) = Some key"
  shows "updates p (\<lambda>e. if ident e = (rt, rc, as_str n, rd) then f e else e) (update_entry ops f key p)"
proof -
  from find_key_Some [OF assms(3)] obtain e where e: "M p key = Some e" "ident e = (rt, rc, as_str n, rd)"
    by (auto simp: mem_iter [OF assms(1)] record_matches_ident)
  have key: "ident e' = (rt, rc, as_str n, rd) \<longleftrightarrow> k = key" if "M p k = Some e'" for k e'
    using assms(2) e that by (auto simp: idents_distinct_def)
  have "M (update_entry ops f key p) k
      = map_option (\<lambda>e. if ident e = (rt, rc, as_str n, rd) then f e else e) (M p k)" for k
    using update_entry_map [OF assms(1), of f key] key [of k] by (cases "M p k") auto
  then show ?thesis using update_entry_map [OF assms(1), of f key] by (auto simp: updates_def)
qed

lemma goodbye_updates:
  assumes "pinv p" "idents_distinct ops p"
  shows "updates p (case cadd clk now (secs 1) of None \<Rightarrow> (\<lambda>e. e)
     | Some dl \<Rightarrow> (\<lambda>e. if ident e = (rt, rc, as_str n, rd) then clamp_to dl e else e))
     (goodbye clk ops n rt rc rd now p)"
proof (cases "cadd clk now (secs 1)")
  case None
  then show ?thesis using updates_refl [OF assms(1)] by (simp add: goodbye_def)
next
  case (Some dl)
  show ?thesis
  proof (cases "find_key (record_matches n rt rc rd) (pl_iter ops p)")
    case None
    then have "ident e \<noteq> (rt, rc, as_str n, rd)" if "M p k = Some e" for k e
      using that mem_iter [OF assms(1)] by (fastforce simp: find_key_None record_matches_ident)
    then have "map_option (\<lambda>e. if ident e = (rt, rc, as_str n, rd) then clamp_to dl e else e) (M p k) = M p k" for k
      by (cases "M p k") auto
    then show ?thesis using assms(1) None Some by (simp add: goodbye_def updates_def)
  next
    case (Some key)
    then show ?thesis using update_match [OF assms Some, of "clamp_to dl"] \<open>cadd clk now (secs 1) = Some dl\<close>
      by (simp add: goodbye_def)
  qed
qed

lemma flush_updates:
  assumes "pinv p"
  shows "updates p (flushed clk n rt rc rd now) (flush_siblings clk ops n rt rc rd now p)"
proof (cases "cadd clk now (secs 1)")
  case None
  then show ?thesis using updates_refl [OF assms] by (simp add: flush_siblings_def flushed_def [abs_def])
next
  case (Some dl)
  let ?P = "flush_clamps clk n rt rc rd now dl"
  let ?keys = "map fst (filter (\<lambda>(_, e). ?P e) (pl_iter ops p))"
  have d: "distinct ?keys" using iter_distinct [OF assms] by (simp add: distinct_map_filter)
  have key: "k \<in> set ?keys \<longleftrightarrow> (\<exists>e. M p k = Some e \<and> ?P e)" for k
    by (force simp: mem_iter [OF assms, symmetric])
  show ?thesis
    using update_fold_map [OF assms d, of "\<lambda>e. e\<lparr>ce_expires_at := dl\<rparr>"] Some
    by (auto simp: flush_siblings_def updates_def flushed_def key fun_eq_iff map_option_case simp del: set_map
        split: option.splits)
qed

lemma evict_map:
  assumes "pinv p"
  shows "pinv (evict_soonest ops p) \<and>
    (pl_len ops p = 0 \<and> evict_soonest ops p = p \<or>
     (\<exists>k e. M p k = Some e \<and> M (evict_soonest ops p) = (M p)(k := None) \<and>
        (\<forall>f\<in>ran (M p). ce_expires_at e \<le> ce_expires_at f) \<and>
        Suc (pl_len ops (evict_soonest ops p)) = pl_len ops p))"
proof (cases "soonest (pl_iter ops p) None")
  case None
  then show ?thesis using assms by (simp add: evict_soonest_def soonest_None len_iter)
next
  case (Some kt)
  obtain k t where kt: "kt = (k, t)" by (cases kt)
  from soonest_Some [OF Some [unfolded kt]] obtain e where e: "M p k = Some e" "ce_expires_at e = t"
    "\<forall>(j, f)\<in>set (pl_iter ops p). t \<le> ce_expires_at f"
    by (auto simp: mem_iter [OF assms])
  obtain r p' where r: "pl_remove ops p k = (r, p')" by (cases "pl_remove ops p k")
  note rm = remove_map [OF assms r] and rl = remove_len [OF assms r]
  have "k \<in> dom (M p)" using e(1) by blast
  moreover have "0 < pl_len ops p"
    using \<open>k \<in> dom (M p)\<close> finite_pool(1) [of p] by (auto simp: len_card [OF assms] card_gt_0_iff)
  moreover have "\<forall>f\<in>ran (M p). ce_expires_at e \<le> ce_expires_at f"
    using e(2,3) by (auto simp: ran_set [OF assms])
  ultimately show ?thesis using rm rl r Some kt e(1) by (auto simp: evict_soonest_def)
qed

lemma idents_distinct_restrict: "idents_distinct ops p \<Longrightarrow> M p' = M p |` K \<Longrightarrow> idents_distinct ops p'"
  unfolding idents_distinct_def by (auto simp: restrict_map_def split: if_splits)

lemma ran_restrict:
  "idents_distinct ops p \<Longrightarrow> ran (M p |` (- K)) = ran (M p) - ran (M p |` K)"
  unfolding idents_distinct_def by (fastforce simp: ran_def restrict_map_def split: if_splits)

text \<open>At most \<open>m\<close> entries evicted, those under the keys \<open>K\<close>, none of which outlives one that stayed.\<close>

definition evicts :: "'p \<Rightarrow> 'p \<Rightarrow> nat set \<Rightarrow> nat \<Rightarrow> bool" where
  "evicts p p' K m \<longleftrightarrow> pinv p' \<and> K \<subseteq> dom (M p) \<and> card K \<le> m \<and> finite K \<and> M p' = M p |` (- K) \<and>
     pl_len ops p' + card K = pl_len ops p \<and>
     (\<forall>v\<in>ran (M p |` K). \<forall>f\<in>ran (M p'). ce_expires_at v \<le> ce_expires_at f)"

lemma evicts_refl: "pinv p \<Longrightarrow> evicts p p {} m"
  by (simp add: evicts_def ran_def restrict_map_def)

lemma evicts_one:
  assumes "pinv p"
  shows "\<exists>K. evicts p (evict_soonest ops p) K 1 \<and> (0 < pl_len ops p \<longrightarrow> card K = 1)"
  using evict_map [OF assms]
proof (elim conjE disjE exE)
  assume "pinv (evict_soonest ops p)" "pl_len ops p = 0" "evict_soonest ops p = p"
  then show ?thesis using evicts_refl [OF assms, of 1] by (intro exI [of _ "{}"]) simp
next
  fix k e
  assume i: "pinv (evict_soonest ops p)" and e: "M p k = Some e"
    and m: "M (evict_soonest ops p) = (M p)(k := None)"
    and l: "\<forall>f\<in>ran (M p). ce_expires_at e \<le> ce_expires_at f"
      "Suc (pl_len ops (evict_soonest ops p)) = pl_len ops p"
  have r: "(M p)(k := None) = M p |` (- {k})" "M p |` {k} = [k \<mapsto> e]"
    using e by (auto simp: fun_eq_iff restrict_map_def)
  have "ran ((M p)(k := None)) \<subseteq> ran (M p)" by (auto simp: ran_def)
  then show ?thesis
    using i e m l r by (intro exI [of _ "{k}"]) (auto simp: evicts_def)
qed

lemma evicts_trans:
  assumes "evicts p q K 1" "evicts q r L 1"
  shows "evicts p r (K \<union> L) 2"
proof -
  have d: "K \<inter> L = {}" using assms by (auto simp: evicts_def restrict_map_def dom_def split: if_splits)
  have c: "card (K \<union> L) = card K + card L" using assms d by (simp add: evicts_def card_Un_disjoint)
  have r: "M r = M p |` (- (K \<union> L))" using assms by (auto simp: evicts_def restrict_map_def fun_eq_iff)
  have "ran (M p |` (K \<union> L)) \<subseteq> ran (M p |` K) \<union> ran (M q |` L)"
    using assms d by (fastforce simp: evicts_def ran_def restrict_map_def split: if_splits)
  moreover have "ran (M r) \<subseteq> ran (M q)"
    using assms by (fastforce simp: evicts_def ran_def restrict_map_def split: if_splits)
  moreover have "L \<subseteq> dom (M p)" using assms by (auto simp: evicts_def restrict_map_def dom_def split: if_splits)
  ultimately show ?thesis using assms c r unfolding evicts_def by (auto simp: subset_iff)
qed

lemma bounded_insert_spec:
  assumes "pinv p" "0 < m" "pl_len ops p \<le> m" "bounded_insert ops m e p = (r, p')"
  shows "\<exists>q K. evicts p q K 2 \<and>
    (case r of Inr k \<Rightarrow> pinv p' \<and> k \<notin> dom (M q) \<and> M p' = (M q)(k \<mapsto> e) \<and> pl_len ops p' = Suc (pl_len ops q)
     | Inl _ \<Rightarrow> p' = q) \<and> pl_len ops p' \<le> m"
proof -
  let ?q = "if m \<le> pl_len ops p then evict_soonest ops p else p"
  obtain K where K: "evicts p ?q K 1" "m \<le> pl_len ops p \<Longrightarrow> card K = 1"
  proof (cases "m \<le> pl_len ops p")
    case True
    then show ?thesis using evicts_one [OF assms(1)] assms(2) that by auto
  next
    case False
    then show ?thesis using evicts_refl [OF assms(1)] that [of "{}"] by simp
  qed
  have q: "pinv ?q" and len: "pl_len ops ?q < m"
    using K assms(2,3) by (auto simp: evicts_def simp del: if_split split: if_split_asm)
  have K2: "evicts p ?q K 2" using K(1) by (simp add: evicts_def)
  have ins: "\<exists>K'. evicts p s K' 2 \<Longrightarrow> pinv s \<Longrightarrow> pl_len ops s < m \<Longrightarrow> pl_insert ops s e = (r, p') \<Longrightarrow> ?thesis" for s
  proof -
    assume s: "\<exists>K'. evicts p s K' 2" "pinv s" "pl_len ops s < m" "pl_insert ops s e = (r, p')"
    show ?thesis
    proof (cases r)
      case (Inl err)
      then have "p' = s" using insert_Inl [OF s(2), of e err p'] s(4) by simp
      with Inl s show ?thesis by auto
    next
      case (Inr k)
      with insert_Inr [OF s(2)] insert_len [OF s(2)] s show ?thesis by fastforce
    qed
  qed
  show ?thesis
  proof (cases "pl_insert ops ?q e")
    case (Pair r1 q1)
    show ?thesis
    proof (cases r1)
      case (Inr k)
      with Pair assms(4) have "pl_insert ops ?q e = (r, p')" by (simp add: bounded_insert_def Let_def)
      with ins [of ?q] K2 q len show ?thesis by blast
    next
      case (Inl err)
      with Pair insert_Inl [OF q] have "q1 = ?q" by blast
      with Pair Inl assms(4) have i: "pl_insert ops (evict_soonest ops ?q) e = (r, p')"
        by (simp add: bounded_insert_def Let_def)
      obtain L where L: "evicts ?q (evict_soonest ops ?q) L 1" using evicts_one [OF q] by blast
      have "evicts p (evict_soonest ops ?q) (K \<union> L) 2" by (rule evicts_trans [OF K(1) L])
      moreover have "pinv (evict_soonest ops ?q)" "pl_len ops (evict_soonest ops ?q) < m"
        using L len by (simp_all add: evicts_def)
      ultimately show ?thesis using ins [OF _ _ _ i] by blast
    qed
  qed
qed

lemma ident_flushed [simp]: "ident (flushed clk n rt rc rd now e) = ident e"
  by (simp add: flushed_def ident_def split: option.splits)

lemma ident_updates [simp]:
  "ident (refreshed t now e) = ident e" "ident (clamp_to dl e) = ident e"
  by (simp_all add: refreshed_def clamp_to_def ident_def)

lemma goodbye_case:
  assumes "cache_ok ops pinv c" "ca_max_entries c \<noteq> 0"
    and "try_insert clk ops n rt rc rd 0 now cf c = (r, c')"
  shows "r = Inr None \<and> cache_ok ops pinv c' \<and> entries ops c' =
     (case cadd clk now (secs 1) of None \<Rightarrow> entries ops c
      | Some dl \<Rightarrow> (\<lambda>e. if ident e = (rt, rc, as_str n, rd) then clamp_to dl e else e) ` entries ops c)"
proof -
  have p: "pinv (ca_entries c)" "idents_distinct ops (ca_entries c)" using assms(1) by (simp_all add: cache_ok_def)
  have c': "c' = c\<lparr>ca_entries := goodbye clk ops n rt rc rd now (ca_entries c)\<rparr>" "r = Inr None"
    using assms(2,3) by (simp_all add: try_insert_def)
  note u = goodbye_updates [OF p, where clk = clk and now = now and rt = rt and rc = rc and n = n and rd = rd]
  have "idents_distinct ops (ca_entries c')"
    unfolding c' using updates_distinct [OF u _ p(2)] by (simp split: option.splits)
  moreover have "entries ops c' = (case cadd clk now (secs 1) of None \<Rightarrow> entries ops c
      | Some dl \<Rightarrow> (\<lambda>e. if ident e = (rt, rc, as_str n, rd) then clamp_to dl e else e) ` entries ops c)"
    unfolding entries_def using updates_ran [OF u] by (simp add: c' split: option.splits)
  ultimately show ?thesis
    using assms(1) updates_len [OF p(1) u] u by (simp add: c' cache_ok_def updates_def)
qed

lemma live_case:
  assumes ok: "cache_ok ops pinv c" and "ca_max_entries c \<noteq> 0" "ttl \<noteq> 0"
    and run: "try_insert clk ops n rt rc rd ttl now cf c = (r, c')"
  defines "F \<equiv> (if cf then flushed clk n rt rc rd now ` entries ops c else entries ops c)"
    and "t \<equiv> (case cadd clk now ttl of Some t \<Rightarrow> t | None \<Rightarrow> now)"
    and "idt \<equiv> (rt, rc, as_str n, rd)"
  shows "cache_ok ops pinv c' \<and>
    (if idt \<in> ident ` F
     then (\<exists>k. r = Inr (Some k)) \<and> entries ops c' = (\<lambda>e. if ident e = idt then refreshed t now e else e) ` F
     else \<exists>V. V \<subseteq> F \<and> finite V \<and> card V \<le> 2 \<and>
       (\<forall>v\<in>V. \<forall>f\<in>F - V. ce_expires_at v \<le> ce_expires_at f) \<and>
       (case r of
          Inl _ \<Rightarrow> entries ops c' = F - V
        | Inr k \<Rightarrow> k \<noteq> None \<and> entries ops c' = insert \<lparr>ce_name = n, ce_rtype = rt, ce_rclass = rc, ce_rdata = rd,
             ce_expires_at = t, ce_received_at = now\<rparr> (F - V)))"
proof -
  have p: "pinv (ca_entries c)" "idents_distinct ops (ca_entries c)" "pl_len ops (ca_entries c) \<le> ca_max_entries c"
    using ok by (simp_all add: cache_ok_def)
  define q where "q = (if cf then flush_siblings clk ops n rt rc rd now (ca_entries c) else ca_entries c)"
  have uq: "updates (ca_entries c) (if cf then flushed clk n rt rc rd now else (\<lambda>e. e)) q"
    using flush_updates [OF p(1)] updates_refl [OF p(1)] by (simp add: q_def)
  have q: "pinv q" "idents_distinct ops q" "pl_len ops q \<le> ca_max_entries c" "ran (M q) = F"
    using uq updates_distinct [OF uq _ p(2)] updates_len [OF p(1) uq] updates_ran [OF uq] p(3)
    by (auto simp: updates_def F_def entries_def)
  let ?new = "\<lparr>ce_name = n, ce_rtype = rt, ce_rclass = rc, ce_rdata = rd, ce_expires_at = t, ce_received_at = now\<rparr>"
  let ?f = "find_key (record_matches n rt rc rd) (pl_iter ops q)"
  have run': "(case ?f of
      Some key \<Rightarrow> (Inr (Some key), c\<lparr>ca_entries := update_entry ops (refreshed t now) key q\<rparr>)
    | None \<Rightarrow> (case bounded_insert ops (ca_max_entries c) ?new q of
        (Inl err, p) \<Rightarrow> (Inl err, c\<lparr>ca_entries := p\<rparr>) | (Inr k, p) \<Rightarrow> (Inr (Some k), c\<lparr>ca_entries := p\<rparr>))) = (r, c')"
    using run assms(2,3)
    unfolding try_insert_def Let_def q_def [symmetric] t_def [symmetric] refreshed_def [abs_def] by simp
  show ?thesis
  proof (cases ?f)
    case (Some key)
    note u = update_match [OF q(1,2) Some, of "refreshed t now"]
    have "idt \<in> ident ` F"
      using find_key_Some [OF Some] by (force simp: mem_iter [OF q(1)] record_matches_ident idt_def ran_def simp flip: q(4))
    moreover have "idents_distinct ops (update_entry ops (refreshed t now) key q)"
      using updates_distinct [OF u _ q(2)] by simp
    moreover have "c' = c\<lparr>ca_entries := update_entry ops (refreshed t now) key q\<rparr>" "r = Inr (Some key)"
      using run' Some by simp_all
    ultimately show ?thesis
      using u updates_len [OF q(1) u] updates_ran [OF u] q
      by (simp add: cache_ok_def entries_def idt_def updates_def)
  next
    case None
    then have fresh: "ident e \<noteq> idt" if "e \<in> F" for e
      using that by (auto simp: find_key_None record_matches_ident idt_def ran_set [OF q(1)] simp flip: q(4))
    obtain r0 p' where b: "bounded_insert ops (ca_max_entries c) ?new q = (r0, p')"
      by (cases "bounded_insert ops (ca_max_entries c) ?new q")
    have "0 < ca_max_entries c" using assms(2) by simp
    from bounded_insert_spec [OF q(1) this q(3) b] obtain s K where
      K: "evicts q s K 2" and len: "pl_len ops p' \<le> ca_max_entries c"
      and res: "case r0 of Inr k \<Rightarrow> pinv p' \<and> k \<notin> dom (M s) \<and> M p' = (M s)(k \<mapsto> ?new) \<and>
          pl_len ops p' = Suc (pl_len ops s) | Inl _ \<Rightarrow> p' = s"
      by blast
    let ?V = "ran (M q |` K)"
    have s: "pinv s" "idents_distinct ops s" "ran (M s) = F - ?V"
      using K idents_distinct_restrict [OF q(2), of s "- K"] ran_restrict [OF q(2), of K] q(4)
      by (auto simp: evicts_def)
    have V: "?V \<subseteq> F" "finite ?V" "card ?V \<le> 2" "\<forall>v\<in>?V. \<forall>f\<in>F - ?V. ce_expires_at v \<le> ce_expires_at f"
    proof -
      have im: "?V \<subseteq> (\<lambda>k. the (M q k)) ` K" by (force simp: ran_def restrict_map_def split: if_splits)
      have K': "finite K" "card K \<le> 2" using K by (simp_all add: evicts_def)
      show "?V \<subseteq> F" using q(4) by (auto simp: ran_def restrict_map_def split: if_splits)
      show "finite ?V" using im K'(1) finite_surj by blast
      have "card ?V \<le> card K"
        using im K'(1) by (metis card_image_le card_mono finite_imageI le_trans)
      with K'(2) show "card ?V \<le> 2" by simp
      show "\<forall>v\<in>?V. \<forall>f\<in>F - ?V. ce_expires_at v \<le> ce_expires_at f" using K s(3) by (simp add: evicts_def)
    qed
    have nid: "idt \<notin> ident ` F" using fresh by blast
    show ?thesis
    proof (cases r0)
      case (Inl err)
      with res b run' None have "p' = s" "r = Inl err" "c' = c\<lparr>ca_entries := s\<rparr>" by simp_all
      with s V nid len show ?thesis
        by (simp add: cache_ok_def entries_def exI [of _ ?V])
    next
      case (Inr k)
      with res b run' None have c': "r = Inr (Some k)" "c' = c\<lparr>ca_entries := p'\<rparr>" and p': "pinv p'"
        "k \<notin> dom (M s)" "M p' = (M s)(k \<mapsto> ?new)" by simp_all
      have "ident ?new = idt" by (simp add: ident_def idt_def)
      then have "ident e \<noteq> ident ?new" if "e \<in> ran (M s)" for e using fresh that s(3) by simp
      then have "ident e \<noteq> ident ?new" "ident ?new \<noteq> ident e" if "M s k = Some e" for k e
        using that by (metis ranI)+
      with s(2) have "idents_distinct ops p'" unfolding idents_distinct_def p'(3)
        by (auto split: if_splits)
      moreover have "ran (M p') = insert ?new (F - ?V)"
        using p'(2) s(3) by (simp add: p'(3) domIff)
      ultimately show ?thesis using c' p'(1) V nid len
        by (simp add: cache_ok_def entries_def) blast
    qed
  qed
qed

subsection \<open>The sweep\<close>

lemma sweep_fold:
  "pinv p \<Longrightarrow> distinct keys \<Longrightarrow> set keys \<subseteq> dom (M p) \<Longrightarrow>
   fold (\<lambda>key (removed, p). case pl_remove ops p key of (Some _, p) \<Rightarrow> (removed + 1, p) | (None, p) \<Rightarrow> (removed, p))
     keys (k, p) = (k', p') \<Longrightarrow>
   pinv p' \<and> M p' = M p |` (- set keys) \<and> k' = k + length keys \<and> pl_len ops p' + length keys = pl_len ops p"
proof (induction keys arbitrary: k p)
  case Nil
  then show ?case by (simp add: restrict_map_def)
next
  case (Cons key keys)
  obtain r p1 where r: "pl_remove ops p key = (r, p1)" by (cases "pl_remove ops p key")
  have key: "key \<in> dom (M p)" using Cons.prems(3) by simp
  note rm = remove_map [OF Cons.prems(1) r]
  have l: "Suc (pl_len ops p1) = pl_len ops p"
  proof -
    have "0 < card (dom (M p))" using key finite_pool(1) [of p] by (auto simp: card_gt_0_iff)
    then show ?thesis using remove_len [OF Cons.prems(1) r] key by (simp add: len_card [OF Cons.prems(1)] del: domIff)
  qed
  from rm key obtain v where "r = Some v" by auto
  with r Cons.prems(4) have f: "fold (\<lambda>key (removed, p). case pl_remove ops p key of (Some _, p) \<Rightarrow> (removed + 1, p)
      | (None, p) \<Rightarrow> (removed, p)) keys (k + 1, p1) = (k', p')" by simp
  have d: "set keys \<subseteq> dom (M p1)" using Cons.prems(2,3) rm by auto
  from Cons.IH [OF _ _ d f] rm Cons.prems(2) l show ?case
    by (auto simp: restrict_map_def fun_eq_iff)
qed

lemma sweep_case:
  assumes ok: "cache_ok ops pinv c" and run: "sweep_expired ops now c = (removed, c')"
  shows "cache_ok ops pinv c' \<and> entries ops c' = {e \<in> entries ops c. now < ce_expires_at e} \<and>
    pl_len ops (ca_entries c') + removed = pl_len ops (ca_entries c)"
proof -
  have p: "pinv (ca_entries c)" "idents_distinct ops (ca_entries c)" "pl_len ops (ca_entries c) \<le> ca_max_entries c"
    using ok by (simp_all add: cache_ok_def)
  let ?keys = "map fst (filter (\<lambda>(_, e). ce_expires_at e \<le> now) (pl_iter ops (ca_entries c)))"
  let ?step = "\<lambda>key (removed, p). case pl_remove ops p key of (Some _, p) \<Rightarrow> (removed + 1, p) | (None, p) \<Rightarrow> (removed, p)"
  obtain k' p' where f: "fold ?step ?keys (0 :: nat, ca_entries c) = (k', p')" by (rule prod.exhaust)
  have c': "removed = k'" "c' = c\<lparr>ca_entries := p'\<rparr>"
    using run f by (simp_all add: sweep_expired_def)
  have d: "distinct ?keys" using iter_distinct [OF p(1)] by (simp add: distinct_map_filter)
  have key: "k \<in> set ?keys \<longleftrightarrow> (\<exists>e. M (ca_entries c) k = Some e \<and> ce_expires_at e \<le> now)" for k
    by (force simp: mem_iter [OF p(1), symmetric])
  then have "set ?keys \<subseteq> dom (M (ca_entries c))" by blast
  from sweep_fold [OF p(1) d this f]
  have s: "pinv p'" "M p' = M (ca_entries c) |` (- set ?keys)"
    "pl_len ops p' + k' = pl_len ops (ca_entries c)" by simp_all
  have "entries ops c' = {e \<in> entries ops c. now < ce_expires_at e}"
  proof -
    have "M p' k = Some e \<longleftrightarrow> M (ca_entries c) k = Some e \<and> now < ce_expires_at e" for k e
      using key [of k] by (auto simp: s(2) restrict_map_def not_less simp del: set_map)
    then show ?thesis by (auto simp: entries_def ran_def c')
  qed
  with s p(2,3) idents_distinct_restrict [OF p(2) s(2)] show ?thesis by (simp add: c' cache_ok_def)
qed

lemma next_expiration_fold:
  fixes es :: "(nat \<times> 'i cache_entry) list"
  shows "fold (\<lambda>(_, e) best. Some (case best of Some prev \<Rightarrow> if prev < ce_expires_at e then prev else ce_expires_at e
       | None \<Rightarrow> ce_expires_at e)) es best =
     (if es = [] \<and> best = None then None
      else Some (Min (set_option best \<union> ce_expires_at ` set (map snd es))))"
proof (induction es arbitrary: best)
  case (Cons x es)
  obtain k e where x: "x = (k, e)" by (cases x)
  have min: "(if prev < t then prev else t) = min prev t" for prev t :: 'i by auto
  show ?case
    using Cons [of "Some (ce_expires_at e)"] Cons [of "Some (min (the best) (ce_expires_at e))"]
    by (cases best; cases "es = []") (auto simp: x min insert_commute Min_insert2 min.assoc)
qed auto

lemma next_expiration_spec:
  assumes "pinv (ca_entries c)"
  shows "next_expiration ops c =
     (if entries ops c = {} then None else Some (Min (ce_expires_at ` entries ops c)))"
proof -
  have "entries ops c = set (map snd (pl_iter ops (ca_entries c)))"
    by (simp add: entries_def ran_set [OF assms])
  then show ?thesis unfolding next_expiration_def next_expiration_fold by simp
qed

end

interpretation slab_entries: entry_store list_slab "\<lambda>p. distinct (map fst p)"
  by unfold_locales

interpretation fixed_entries: entry_store "fixed_pool cap list_slab" "\<lambda>p. distinct (map fst p)" for cap
  by unfold_locales

subsection \<open>Properties\<close>

text \<open>
  C39. The cache invariant: over any pool that keeps its contract, a fresh cache is well-formed, and
  every insertion (goodbye, cache-flush, refresh, eviction or pool error) and every sweep keeps it
  well-formed: at most \<open>max_entries\<close> entries, and never two with the same type, class, name and RDATA.
\<close>
theorem cache_invariant:
  assumes "pool ops pinv"
  shows "cache_ok ops pinv (cache_with_max_entries ops m) \<and>
    (cache_ok ops pinv c \<longrightarrow>
       cache_ok ops pinv (snd (try_insert clk ops n rt rc rd ttl now cf c)) \<and>
       cache_ok ops pinv (snd (sweep_expired ops now c)))"
proof (intro conjI impI)
  note es = entry_store.intro [OF assms]
  show "cache_ok ops pinv (cache_with_max_entries ops m)"
    using pool.new_inv [OF assms] pool.new_iter [OF assms] pool.len_iter [OF assms, of "pl_new ops"]
    by (simp add: cache_ok_def cache_with_max_entries_def idents_distinct_def)
  assume ok: "cache_ok ops pinv c"
  obtain r c' where run: "try_insert clk ops n rt rc rd ttl now cf c = (r, c')" by (rule prod.exhaust)
  have "cache_ok ops pinv c'"
  proof (cases "ca_max_entries c = 0")
    case True
    then show ?thesis using run ok by (simp add: try_insert_def)
  next
    case False
    then show ?thesis
      using entry_store.goodbye_case [OF es ok False, of clk n rt rc rd now cf r c']
        entry_store.live_case [OF es ok False _ run] run by (cases "ttl = 0") blast+
  qed
  then show "cache_ok ops pinv (snd (try_insert clk ops n rt rc rd ttl now cf c))" by (simp add: run)
  obtain k c2 where "sweep_expired ops now c = (k, c2)" by (rule prod.exhaust)
  with entry_store.sweep_case [OF es ok this] show "cache_ok ops pinv (snd (sweep_expired ops now c))" by simp
qed

text \<open>
  Insertion of a live record (TTL not 0) into a well-formed cache with room for anything.  With the
  cache-flush bit the siblings older than a second are first clamped to one second from now.  If the
  record is already there it is refreshed, and no other entry changes; otherwise it is added, its
  deadline TTL from now, after at most two evictions, each of an entry that none of the entries kept
  outlives by expiring sooner.  When the pool refuses the record nothing is added.
\<close>
theorem cache_insert_spec:
  assumes "pool ops pinv" "cache_ok ops pinv c" "ca_max_entries c \<noteq> 0" "ttl \<noteq> 0"
    and "try_insert clk ops n rt rc rd ttl now cf c = (r, c')"
  shows "let E = entries ops c;
      F = (if cf then flushed clk n rt rc rd now ` E else E);
      t = (case cadd clk now ttl of Some t \<Rightarrow> t | None \<Rightarrow> now);
      record_id = (rt, rc, as_str n, rd) in
    (if record_id \<in> ident ` F
     then (\<exists>k. r = Inr (Some k)) \<and>
       entries ops c' = (\<lambda>e. if ident e = record_id then refreshed t now e else e) ` F
     else \<exists>V. V \<subseteq> F \<and> finite V \<and> card V \<le> 2 \<and>
       (\<forall>v\<in>V. \<forall>f\<in>F - V. ce_expires_at v \<le> ce_expires_at f) \<and>
       (case r of
          Inl _ \<Rightarrow> entries ops c' = F - V
        | Inr k \<Rightarrow> k \<noteq> None \<and> entries ops c' = insert \<lparr>ce_name = n, ce_rtype = rt, ce_rclass = rc,
             ce_rdata = rd, ce_expires_at = t, ce_received_at = now\<rparr> (F - V)))"
  unfolding Let_def
  using entry_store.live_case [OF entry_store.intro [OF assms(1)] assms(2-5)] by (rule conjunct2)

text \<open>A cache of one entry, on the reference slab and the smoltcp clock.\<close>

definition sample_cache :: "(nat \<times> smoltcp_instant cache_entry) list cache" where
  "sample_cache = \<lparr>ca_entries = [(0, \<lparr>ce_name = Name [97], ce_rtype = RT_A, ce_rclass = Class_In,
     ce_rdata = [1, 2, 3, 4], ce_expires_at = SmoltcpInstant 9000000, ce_received_at = SmoltcpInstant 0\<rparr>)],
     ca_max_entries = 1\<rparr>"

lemma pool_list_slab: "pool list_slab (\<lambda>p. distinct (map fst p))"
  by (rule list_slab.pool_axioms)

lemma sample_cache_ok: "cache_ok list_slab (\<lambda>p. distinct (map fst p)) sample_cache"
  by (simp add: cache_ok_def sample_cache_def list_slab_def idents_distinct_def)

lemma sample_entries: "entries list_slab sample_cache = {\<lparr>ce_name = Name [97], ce_rtype = RT_A,
    ce_rclass = Class_In, ce_rdata = [1, 2, 3, 4], ce_expires_at = SmoltcpInstant 9000000,
    ce_received_at = SmoltcpInstant 0\<rparr>}"
  by (simp add: entries_def sample_cache_def list_slab_def)

lemma cache_invariant_witness:
  "cache_ok list_slab (\<lambda>p. distinct (map fst p)) (snd (try_insert smoltcp_clock list_slab (Name [98]) RT_A
     Class_In [5, 6, 7, 8] (secs 120) (SmoltcpInstant 2000000) True sample_cache))"
  using cache_invariant [OF pool_list_slab] sample_cache_ok by blast

lemma cache_insert_spec_witness:
  "\<exists>V \<subseteq> entries list_slab sample_cache.
     entries list_slab (snd (try_insert smoltcp_clock list_slab (Name [98]) RT_A Class_In [5, 6, 7, 8] (secs 120)
       (SmoltcpInstant 2000000) False sample_cache))
     = insert \<lparr>ce_name = Name [98], ce_rtype = RT_A, ce_rclass = Class_In, ce_rdata = [5, 6, 7, 8],
         ce_expires_at = SmoltcpInstant 122000000, ce_received_at = SmoltcpInstant 2000000\<rparr>
         (entries list_slab sample_cache - V)"
proof -
  let ?r = "try_insert smoltcp_clock list_slab (Name [98]) RT_A Class_In [5, 6, 7, 8] (secs 120)
       (SmoltcpInstant 2000000) False sample_cache"
  have "fst ?r = Inr (Some 0)" by code_simp
  then obtain c' where r: "?r = (Inr (Some 0), c')" by (cases ?r) simp
  have t: "cadd smoltcp_clock (SmoltcpInstant 2000000) (secs 120) = Some (SmoltcpInstant 122000000)" by code_simp
  have id: "(RT_A, Class_In, as_str (Name [98]), [5, 6, 7, 8]) \<notin> ident ` entries list_slab sample_cache"
    by (simp add: sample_entries ident_def)
  have "ca_max_entries sample_cache \<noteq> 0" by (simp add: sample_cache_def)
  moreover have "secs 120 \<noteq> 0" by (simp add: secs_def)
  ultimately show ?thesis
    using cache_insert_spec [OF pool_list_slab sample_cache_ok _ _ r] id t unfolding r
    by (simp add: Let_def) blast
qed

text \<open>
  Goodbyes shorten and never delete: a record with TTL 0 leaves every entry in the cache, changes
  none but the one it names, and that one expires one second from now or when it already would have,
  whichever is sooner.
\<close>
theorem cache_goodbye_spec:
  assumes "pool ops pinv" "cache_ok ops pinv c" "ca_max_entries c \<noteq> 0"
    and "try_insert clk ops n rt rc rd 0 now cf c = (r, c')"
  shows "r = Inr None \<and> entries ops c' = (\<lambda>e. case cadd clk now (secs 1) of
      None \<Rightarrow> e
    | Some dl \<Rightarrow> if ident e = (rt, rc, as_str n, rd) then e\<lparr>ce_expires_at := min dl (ce_expires_at e)\<rparr> else e)
      ` entries ops c"
proof -
  have "clamp_to dl e = e\<lparr>ce_expires_at := min dl (ce_expires_at e)\<rparr>" for dl and e :: "'a cache_entry"
    by (simp add: clamp_to_def min_def not_less)
  then show ?thesis
    using entry_store.goodbye_case [OF entry_store.intro [OF assms(1)] assms(2-4)]
    by (simp split: option.splits)
qed

lemma cache_goodbye_spec_witness:
  "entries list_slab (snd (try_insert smoltcp_clock list_slab (Name [97]) RT_A Class_In [1, 2, 3, 4] 0
     (SmoltcpInstant 2000000) False sample_cache))
   = {\<lparr>ce_name = Name [97], ce_rtype = RT_A, ce_rclass = Class_In, ce_rdata = [1, 2, 3, 4],
       ce_expires_at = SmoltcpInstant 3000000, ce_received_at = SmoltcpInstant 0\<rparr>}"
proof -
  let ?r = "try_insert smoltcp_clock list_slab (Name [97]) RT_A Class_In [1, 2, 3, 4] 0
     (SmoltcpInstant 2000000) False sample_cache"
  have t: "cadd smoltcp_clock (SmoltcpInstant 2000000) (secs 1) = Some (SmoltcpInstant 3000000)" by code_simp
  have m: "min (SmoltcpInstant 3000000) (SmoltcpInstant 9000000) = SmoltcpInstant 3000000" by code_simp
  have "ca_max_entries sample_cache \<noteq> 0" by (simp add: sample_cache_def)
  note g = cache_goodbye_spec [OF pool_list_slab sample_cache_ok this prod.collapse [symmetric], THEN conjunct2]
  show ?thesis unfolding g t sample_entries by (simp add: m ident_def)
qed

text \<open>
  The sweep is exact: it removes the entries whose deadline has passed and no other, reports how
  many, and the next wakeup the cache asks for is the earliest deadline left, so a sweep at that
  instant always removes something.
\<close>
theorem cache_sweep_spec:
  assumes "pool ops pinv" "cache_ok ops pinv c" "sweep_expired ops now c = (removed, c')"
  shows "entries ops c' = {e \<in> entries ops c. now < ce_expires_at e} \<and>
    pl_len ops (ca_entries c') + removed = pl_len ops (ca_entries c) \<and>
    next_expiration ops c' =
      (if entries ops c' = {} then None else Some (Min (ce_expires_at ` entries ops c'))) \<and>
    (\<forall>t. next_expiration ops c = Some t \<longrightarrow> (0 < removed \<longleftrightarrow> t \<le> now))"
proof -
  note es = entry_store.intro [OF assms(1)]
  note s = entry_store.sweep_case [OF es assms(2,3)]
  have inv: "pinv (ca_entries c)" "pinv (ca_entries c')" using assms(2) s by (simp_all add: cache_ok_def)
  note nx = entry_store.next_expiration_spec [OF es inv(1)] entry_store.next_expiration_spec [OF es inv(2)]
  have fin: "finite (entries ops c)" unfolding entries_def by (rule pool.finite_pool(2) [OF assms(1)])
  have "0 < removed \<longleftrightarrow> t \<le> now" if "next_expiration ops c = Some t" for t
  proof -
    have t: "entries ops c \<noteq> {}" "t = Min (ce_expires_at ` entries ops c)"
      using that nx(1) by (auto split: if_splits)
    have "t \<le> now \<longleftrightarrow> (\<exists>e\<in>entries ops c. ce_expires_at e \<le> now)"
      using fin t by (simp add: Min_le_iff)
    also have "\<dots> \<longleftrightarrow> entries ops c' \<noteq> entries ops c" using s by (force simp: not_less set_eq_iff)
    also have "\<dots> \<longleftrightarrow> 0 < removed"
    proof -
      have card: "pl_len ops (ca_entries d) = card (entries ops d)" if "cache_ok ops pinv d" for d
      proof -
        let ?m = "pmap ops (ca_entries d)"
        have "inj_on ?m (dom ?m)"
          using that by (auto simp: cache_ok_def idents_distinct_def inj_on_def)
        moreover have "Some ` ran ?m = ?m ` dom ?m" by (auto simp: ran_def dom_def image_def)
        ultimately have "card (dom ?m) = card (ran ?m)" by (metis card_image inj_Some)
        then show ?thesis using that pool.len_card [OF assms(1)] by (simp add: cache_ok_def entries_def)
      qed
      have "card (entries ops c') + removed = card (entries ops c)"
        using s card [OF assms(2)] card [of c'] by simp
      moreover have "entries ops c' \<subseteq> entries ops c" using s by blast
      ultimately show ?thesis
        using psubset_card_mono [OF fin, of "entries ops c'"] by (cases "entries ops c' = entries ops c") (simp_all add: psubset_eq)
    qed
    finally show ?thesis ..
  qed
  with s nx(2) show ?thesis by blast
qed

lemma cache_sweep_spec_witness:
  "entries list_slab (snd (sweep_expired list_slab (SmoltcpInstant 9000000) sample_cache)) = {} \<and>
   entries list_slab (snd (sweep_expired list_slab (SmoltcpInstant 8999999) sample_cache))
     = entries list_slab sample_cache"
proof -
  have le: "(SmoltcpInstant 9000000 < SmoltcpInstant 9000000) = False"
    "(SmoltcpInstant 8999999 < SmoltcpInstant 9000000) = True" by code_simp+
  note sw = cache_sweep_spec [OF pool_list_slab sample_cache_ok prod.collapse [symmetric], THEN conjunct1]
  show ?thesis unfolding sw sample_entries by (auto simp: le)
qed

end
