(* ===== verification/Net.thy ===== *)
theory Net
  imports Prelude
begin

text \<open>
  Addresses (\<open>core::net\<close>, \<open>constants.rs\<close>): an \<open>Ipv4Addr\<close> or \<open>Ipv6Addr\<close> is its octets, as in the
  records that carry one; a socket address of IPv6 has a flow label and a scope.
\<close>

datatype ip_addr = IpV4 bytes | IpV6 bytes

datatype socket_addr =
    SockV4 bytes u16
  | SockV6 bytes u16 u32 u32

fun sock_ip :: "socket_addr \<Rightarrow> ip_addr" where
  "sock_ip (SockV4 ip _) = IpV4 ip"
| "sock_ip (SockV6 ip _ _ _) = IpV6 ip"

fun sock_port :: "socket_addr \<Rightarrow> u16" where
  "sock_port (SockV4 _ port) = port"
| "sock_port (SockV6 _ port _ _) = port"

text \<open>\<open>SocketAddr::new\<close>\<close>

fun sock_new :: "ip_addr \<Rightarrow> u16 \<Rightarrow> socket_addr" where
  "sock_new (IpV4 ip) port = SockV4 ip port"
| "sock_new (IpV6 ip) port = SockV6 ip port 0 0"

definition MDNS_IPV4_GROUP :: bytes where "MDNS_IPV4_GROUP = [224, 0, 0, 251]"
definition MDNS_IPV6_GROUP :: bytes where
  "MDNS_IPV6_GROUP = [0xff, 0x02, 0, 0, 0, 0, 0, 0, 0, 0, 0, 0, 0, 0, 0, 0xfb]"
definition MDNS_PORT :: u16 where "MDNS_PORT = 5353"

definition multicast_dst :: socket_addr where
  "multicast_dst = sock_new (IpV4 MDNS_IPV4_GROUP) MDNS_PORT"

lemma sock_new_simps [simp]: "sock_ip (sock_new ip p) = ip" "sock_port (sock_new ip p) = p"
  by (cases ip; simp)+

end
