(* ===== verification/Transmit.thy ===== *)
theory Transmit
  imports Clock Net
begin

text \<open>
  What a driver reports about a datagram and what the core makes of it (\<open>transmit.rs\<close>): the attempt of
  each address family, its projection onto delivered, missed or unobligated, the anchor of the confirm
  and the retirement predicate.  A pair indexed \<open>[v4, v6]\<close> is a HOL pair.
\<close>

datatype transmit_obligation = Sustained | OneShot

record transmit =
  tr_dst :: socket_addr
  tr_src_ip :: "ip_addr option"
  tr_size :: nat
  tr_obligation :: transmit_obligation
  tr_min_family_gap :: nat

datatype 'i family_attempt =
    Accepted 'i
  | Refused bool
  | GateShut
  | NoSocket
  | NotAddressed
  | WouldBlock

datatype family_delivery = Unobligated | Delivered | Missed

fun family_attempt_as_str :: "'i family_attempt \<Rightarrow> string" where
  "family_attempt_as_str (Accepted _) = ''accepted''"
| "family_attempt_as_str (Refused permanent) = (if permanent then ''refused_permanent'' else ''refused'')"
| "family_attempt_as_str GateShut = ''gate_shut''"
| "family_attempt_as_str NoSocket = ''no_socket''"
| "family_attempt_as_str NotAddressed = ''not_addressed''"
| "family_attempt_as_str WouldBlock = ''would_block''"

fun delivery :: "'i family_attempt \<Rightarrow> family_delivery" where
  "delivery (Accepted _) = Delivered"
| "delivery (Refused _) = Missed"
| "delivery GateShut = Missed"
| "delivery WouldBlock = Missed"
| "delivery NoSocket = Unobligated"
| "delivery NotAddressed = Unobligated"

fun accepted_at :: "'i family_attempt \<Rightarrow> 'i option" where
  "accepted_at (Accepted t) = Some t"
| "accepted_at _ = None"

type_synonym transmit_delivery = "family_delivery \<times> family_delivery"

definition project :: "'i family_attempt \<Rightarrow> 'i family_attempt \<Rightarrow> transmit_delivery" where
  "project v4 v6 = (delivery v4, delivery v6)"

definition anchor :: "'i :: linorder family_attempt \<Rightarrow> 'i family_attempt \<Rightarrow> 'i \<Rightarrow> 'i" where
  "anchor v4 v6 fallback =
     (case (accepted_at v4, accepted_at v6) of
        (Some a, Some b) \<Rightarrow> if a \<le> b then a else b
      | (Some a, None) \<Rightarrow> a
      | (None, Some a) \<Rightarrow> a
      | (None, None) \<Rightarrow> fallback)"

text \<open>\<open>undeliverable_scan\<close> is the match on one family: \<open>None\<close> is the early \<open>return false\<close>.\<close>

fun undeliverable_scan :: "'i family_attempt \<Rightarrow> bool \<Rightarrow> bool option" where
  "undeliverable_scan (Refused permanent) any_permanent = (if permanent then Some True else None)"
| "undeliverable_scan NoSocket any_permanent = Some any_permanent"
| "undeliverable_scan NotAddressed any_permanent = Some any_permanent"
| "undeliverable_scan _ any_permanent = None"

definition undeliverable :: "'i family_attempt \<Rightarrow> 'i family_attempt \<Rightarrow> bool" where
  "undeliverable v4 v6 =
     (case undeliverable_scan v4 False of
        None \<Rightarrow> False
      | Some p \<Rightarrow> (case undeliverable_scan v6 p of None \<Rightarrow> False | Some p \<Rightarrow> p))"

record transmit_confirm =
  tc_any_delivered :: bool
  tc_retire_producer :: bool

definition NOTHING :: transmit_confirm where
  "NOTHING = \<lparr>tc_any_delivered = False, tc_retire_producer = False\<rparr>"

fun family_delivery_as_str :: "family_delivery \<Rightarrow> string" where
  "family_delivery_as_str Unobligated = ''unobligated''"
| "family_delivery_as_str Delivered = ''delivered''"
| "family_delivery_as_str Missed = ''missed''"

datatype family = V4 | V6

fun family_of :: "socket_addr \<Rightarrow> family" where
  "family_of (SockV4 _ _) = V4"
| "family_of (SockV6 _ _ _ _) = V6"

fun pick :: "family \<Rightarrow> 'a \<times> 'a \<Rightarrow> 'a" where
  "pick V4 (v4, v6) = v4"
| "pick V6 (v4, v6) = v6"

definition any_delivered :: "transmit_delivery \<Rightarrow> bool" where
  "any_delivered d \<longleftrightarrow> fst d = Delivered \<or> snd d = Delivered"

definition any_missed :: "transmit_delivery \<Rightarrow> bool" where
  "any_missed d \<longleftrightarrow> fst d = Missed \<or> snd d = Missed"

definition all_delivered :: "transmit_delivery \<Rightarrow> bool" where
  "all_delivered d \<longleftrightarrow> any_delivered d \<and> \<not> any_missed d"

definition delivered_on :: "transmit_delivery \<Rightarrow> bool \<times> bool" where
  "delivered_on d = (fst d = Delivered, snd d = Delivered)"

subsection \<open>Laws\<close>

lemma delivery_simps [simp]:
  "delivery a = Delivered \<longleftrightarrow> (\<exists>t. a = Accepted t)"
  "delivery a = Unobligated \<longleftrightarrow> a = NoSocket \<or> a = NotAddressed"
  by (cases a; simp)+

lemma accepted_at_Some [simp]: "accepted_at a = Some t \<longleftrightarrow> a = Accepted t"
  by (cases a) auto

lemma accepted_at_None [simp]: "accepted_at a = None \<longleftrightarrow> delivery a \<noteq> Delivered"
  by (cases a) auto

text \<open>Which attempts say that the same octets may still get through later.\<close>

definition may_clear :: "'i family_attempt \<Rightarrow> bool" where
  "may_clear a \<longleftrightarrow> a \<in> {Refused False, GateShut, WouldBlock}"

text \<open>
  One round of attempts read by the core.  The confirm is anchored at the earliest acceptance and
  at the driver's own instant only when nobody accepted; a delivery is an acceptance and nothing else;
  a round is complete only if some family was obligated; and a datagram is called undeliverable exactly
  when some family refused its size for good and every other family was never offered it, never when a
  family accepted it or may accept it later.
\<close>
theorem attempts_read:
  "anchor v4 v6 t0 = (let T = {t. v4 = Accepted t \<or> v6 = Accepted t} in if T = {} then t0 else Min T) \<and>
   (any_delivered (project v4 v6) \<longleftrightarrow> (\<exists>t. v4 = Accepted t \<or> v6 = Accepted t)) \<and>
   (all_delivered (project v4 v6) \<longleftrightarrow>
      delivery v4 \<noteq> Missed \<and> delivery v6 \<noteq> Missed \<and> (delivery v4, delivery v6) \<noteq> (Unobligated, Unobligated)) \<and>
   (undeliverable v4 v6 \<longleftrightarrow>
      (v4 = Refused True \<or> v6 = Refused True) \<and> \<not> any_delivered (project v4 v6) \<and>
      \<not> may_clear v4 \<and> \<not> may_clear v6)"
proof -
  have "{t. v4 = Accepted t \<or> v6 = Accepted t} = set_option (accepted_at v4) \<union> set_option (accepted_at v6)"
    by (cases v4; cases v6) auto
  then have "anchor v4 v6 t0 = (let T = {t. v4 = Accepted t \<or> v6 = Accepted t} in if T = {} then t0 else Min T)"
    by (cases v4; cases v6) (auto simp: anchor_def min_def)
  moreover have "any_delivered (project v4 v6) \<longleftrightarrow> (\<exists>t. v4 = Accepted t \<or> v6 = Accepted t)"
    by (auto simp: any_delivered_def project_def)
  moreover have "all_delivered (project v4 v6) \<longleftrightarrow>
      delivery v4 \<noteq> Missed \<and> delivery v6 \<noteq> Missed \<and> (delivery v4, delivery v6) \<noteq> (Unobligated, Unobligated)"
    by (cases v4; cases v6) (auto simp: all_delivered_def any_delivered_def any_missed_def project_def)
  moreover have "undeliverable v4 v6 \<longleftrightarrow> (v4 = Refused True \<or> v6 = Refused True) \<and>
      \<not> any_delivered (project v4 v6) \<and> \<not> may_clear v4 \<and> \<not> may_clear v6"
    by (cases v4; cases v6) (auto simp: undeliverable_def any_delivered_def project_def may_clear_def)
  ultimately show ?thesis by blast
qed

end
