(* ===== verification/Schedule.thy ===== *)
theory Schedule
  imports Transmit
begin

text \<open>
  The deadlines of the probe, announce and re-announce sequence and the bounded patience of the core
  with a family that never carries a datagram (\<open>service/schedule.rs\<close>, \<open>query/retry.rs\<close>).
\<close>

subsection \<open>Intervals\<close>

definition INITIAL_PROBE_WAIT_MAX_MS :: nat where "INITIAL_PROBE_WAIT_MAX_MS = 250"
definition PROBE_INTERVAL :: nat where "PROBE_INTERVAL = millis 250"
definition TIEBREAK_DEFER_WAIT :: nat where "TIEBREAK_DEFER_WAIT = secs 1"
definition FIRST_ANNOUNCE_DELAY :: nat where "FIRST_ANNOUNCE_DELAY = secs 0"
definition ANNOUNCE_INTERVAL :: nat where "ANNOUNCE_INTERVAL = secs 1"

text \<open>\<open>Duration::as_secs\<close>\<close>

definition as_secs :: "nat \<Rightarrow> nat" where "as_secs d = d div 1000000000"

text \<open>\<open>draw\<close> is the value of \<open>rng.next_u32()\<close>.\<close>

definition probe_deadline :: "'i clock \<Rightarrow> 'i \<Rightarrow> nat \<Rightarrow> u32 \<Rightarrow> 'i option" where
  "probe_deadline clk now probe_count draw =
     (let wait = (if probe_count = 0 then millis (unat draw mod (INITIAL_PROBE_WAIT_MAX_MS + 1))
                  else PROBE_INTERVAL) in
      cadd clk now wait)"

definition probe_retry_deadline :: "'i clock \<Rightarrow> 'i \<Rightarrow> 'i option" where
  "probe_retry_deadline clk now = cadd clk now PROBE_INTERVAL"

definition announce_deadline :: "'i clock \<Rightarrow> 'i \<Rightarrow> nat \<Rightarrow> 'i option" where
  "announce_deadline clk now announce_count =
     cadd clk now (if announce_count = 0 then FIRST_ANNOUNCE_DELAY else ANNOUNCE_INTERVAL)"

definition MAX_PARTIAL_ANNOUNCE_SHIFT :: nat where "MAX_PARTIAL_ANNOUNCE_SHIFT = 6"

text \<open>\<open>saturating_mul\<close> on \<open>u64\<close>\<close>

definition sat_mul64 :: "nat \<Rightarrow> nat \<Rightarrow> nat" where "sat_mul64 a b = min (a * b) u64_max"

definition periodic_refresh_secs :: "nat \<Rightarrow> nat" where
  "periodic_refresh_secs ttl_secs = sat_mul64 ttl_secs 80 div 100"

definition partial_announce_deadline :: "'i clock \<Rightarrow> 'i \<Rightarrow> nat \<Rightarrow> nat \<Rightarrow> 'i option" where
  "partial_announce_deadline clk now streak ttl_secs =
     (let shift = min streak MAX_PARTIAL_ANNOUNCE_SHIFT;
          rung = sat_mul64 (as_secs ANNOUNCE_INTERVAL) (2 ^ shift);
          cap = max (periodic_refresh_secs ttl_secs) (as_secs ANNOUNCE_INTERVAL) in
      cadd clk now (secs (min rung cap)))"

definition re_announce_deadline :: "'i clock \<Rightarrow> 'i \<Rightarrow> nat \<Rightarrow> 'i option" where
  "re_announce_deadline clk now ttl_secs =
     cadd clk now (secs (max (periodic_refresh_secs ttl_secs) (as_secs ANNOUNCE_INTERVAL)))"

text \<open>\<open>query/retry.rs\<close>\<close>

definition INITIAL_SECS :: nat where "INITIAL_SECS = 1"
definition MIN_QUERY_GAP :: nat where "MIN_QUERY_GAP = secs INITIAL_SECS"
definition MAX_SECS :: nat where "MAX_SECS = 60"

definition retry_next_deadline :: "'i clock \<Rightarrow> 'i \<Rightarrow> nat \<Rightarrow> 'i option" where
  "retry_next_deadline clk now sends =
     (let shift = min (sends - 1) 6; s = sat_mul64 INITIAL_SECS (2 ^ shift) in
      cadd clk now (secs (min s MAX_SECS)))"

subsection \<open>Patience\<close>

definition MAX_PARTIAL_ROUNDS :: nat where "MAX_PARTIAL_ROUNDS = 2"

record family_patience =
  missed :: nat
  covered :: bool
  stalled :: bool

definition fp_default :: family_patience where
  "fp_default = \<lparr>missed = 0, covered = False, stalled = False\<rparr>"

definition in_good_standing :: "family_patience \<Rightarrow> bool" where
  "in_good_standing p \<longleftrightarrow> \<not> stalled p"

text \<open>The zip, filters and \<open>min\<close> of the iterator chain over the two families.\<close>

definition stalest_refresh_due ::
  "'i :: linorder clock \<Rightarrow> 'i option \<times> 'i option \<Rightarrow> family_patience \<times> family_patience \<Rightarrow> nat \<Rightarrow> 'i option" where
  "stalest_refresh_due clk last_delivered patience ttl_secs =
     (let zipped = [(fst last_delivered, fst patience), (snd last_delivered, snd patience)];
          dues = List.map_filter (\<lambda>(at, p). if in_good_standing p
                   then Option.bind at (\<lambda>t. re_announce_deadline clk t ttl_secs) else None) zipped in
      if dues = [] then None else Some (Min (set dues)))"

definition compose_announce_deadline ::
  "'i :: linorder clock \<Rightarrow> 'i \<Rightarrow> 'i option \<Rightarrow> 'i option \<Rightarrow> 'i option" where
  "compose_announce_deadline clk now base due =
     (case base of
        None \<Rightarrow> None
      | Some base \<Rightarrow>
          let capped = (case due of Some d \<Rightarrow> if d < base then d else base | None \<Rightarrow> base) in
          (case announce_deadline clk now 1 of
             Some floor \<Rightarrow> if capped < floor then Some floor else Some capped
           | None \<Rightarrow> Some capped))"

datatype phase_advance = AdvDelivered | Covered | Excused | Partial | Failed

definition advances :: "phase_advance \<Rightarrow> bool" where
  "advances a \<longleftrightarrow> a \<in> {AdvDelivered, Covered, Excused}"

definition advances_without_delivery :: "phase_advance \<Rightarrow> bool" where
  "advances_without_delivery a \<longleftrightarrow> a \<in> {Covered, Excused}"

type_synonym patience = "family_patience \<times> family_patience"

text \<open>A silent round clears the families that ceased to be obligated.\<close>

definition silent_round :: "family_delivery \<Rightarrow> family_patience \<Rightarrow> family_patience" where
  "silent_round d p = (if d = Unobligated then fp_default else p)"

text \<open>The fold of one family into a round: its new standing, and whether it may be excused.\<close>

definition fold_round :: "family_delivery \<Rightarrow> family_patience \<Rightarrow> bool \<Rightarrow> family_patience \<times> bool" where
  "fold_round d p excusable =
     (if d = Delivered \<or> d = Unobligated then (p\<lparr>missed := 0, covered := True, stalled := False\<rparr>, excusable)
      else if \<not> covered p
      then (p\<lparr>missed := sat_add u8_max (missed p) 1\<rparr>,
            if missed p < MAX_PARTIAL_ROUNDS \<and> \<not> stalled p then False else excusable)
      else (p, excusable))"

definition close_phase :: "family_patience \<Rightarrow> family_patience" where
  "close_phase p = p\<lparr>stalled := (stalled p \<or> \<not> covered p), missed := 0, covered := False\<rparr>"

definition classify_advance :: "patience \<Rightarrow> transmit_delivery \<Rightarrow> phase_advance \<times> patience" where
  "classify_advance p d =
     (if \<not> any_delivered d
      then (Failed, (silent_round (fst d) (fst p), silent_round (snd d) (snd p)))
      else
        let (p4, excusable) = fold_round (fst d) (fst p) True;
            (p6, excusable) = fold_round (snd d) (snd p) excusable in
        if \<not> any_missed d then (AdvDelivered, (close_phase p4, close_phase p6))
        else if covered p4 \<and> covered p6 then (Covered, (close_phase p4, close_phase p6))
        else if excusable then (Excused, (close_phase p4, close_phase p6))
        else (Partial, (p4, p6)))"

subsection \<open>What patience guarantees\<close>

text \<open>Histories of rounds, the most recent first.\<close>

fun patience_after :: "transmit_delivery list \<Rightarrow> patience" where
  "patience_after [] = (fp_default, fp_default)"
| "patience_after (d # ds) = snd (classify_advance (patience_after ds) d)"

definition verdict :: "transmit_delivery list \<Rightarrow> transmit_delivery \<Rightarrow> phase_advance" where
  "verdict ds d = fst (classify_advance (patience_after ds) d)"

text \<open>The rounds since the phase last advanced.\<close>

fun current_rounds :: "transmit_delivery list \<Rightarrow> transmit_delivery list" where
  "current_rounds [] = []"
| "current_rounds (d # ds) = (if advances (verdict ds d) then [] else d # current_rounds ds)"

text \<open>
  The rounds in a row in which a datagram reached a wire and this family missed it; rounds that reached
  no wire do not count.
\<close>

fun owed_misses :: "family \<Rightarrow> transmit_delivery list \<Rightarrow> nat" where
  "owed_misses f [] = 0"
| "owed_misses f (d # ds) =
     (if pick f d \<noteq> Missed then 0 else if any_delivered d then Suc (owed_misses f ds) else owed_misses f ds)"

lemma pick_pair: "pick f (a, b) = (case f of V4 \<Rightarrow> a | V6 \<Rightarrow> b)"
  by (cases f) auto

lemmas patience_defs = classify_advance_def fold_round_def close_phase_def silent_round_def Let_def
  any_delivered_def any_missed_def advances_def fp_default_def MAX_PARTIAL_ROUNDS_def

definition patience_inv :: "transmit_delivery list \<Rightarrow> family \<Rightarrow> bool" where
  "patience_inv ds f \<longleftrightarrow>
     (let p = pick f (patience_after ds) in
      missed p \<le> owed_misses f ds \<and> (stalled p \<longrightarrow> MAX_PARTIAL_ROUNDS < owed_misses f ds) \<and>
      (covered p \<longrightarrow> (\<exists>e\<in>set (current_rounds ds). any_delivered e \<and> pick f e \<noteq> Missed)))"

text \<open>One round seen from one family: \<open>other\<close> is what the other family contributes.\<close>

text \<open>The standing of one family after a delivering round, before the phase closes.\<close>

definition fold_standing :: "family_delivery \<Rightarrow> family_patience \<Rightarrow> family_patience" where
  "fold_standing d p = (if d = Delivered \<or> d = Unobligated then p\<lparr>missed := 0, covered := True, stalled := False\<rparr>
     else if \<not> covered p then p\<lparr>missed := sat_add u8_max (missed p) 1\<rparr> else p)"

definition excusable :: "family_delivery \<Rightarrow> family_patience \<Rightarrow> bool" where
  "excusable d p \<longleftrightarrow> d \<noteq> Missed \<or> covered p \<or> MAX_PARTIAL_ROUNDS \<le> missed p \<or> stalled p"

lemma fold_round_simps [simp]:
  "fst (fold_round d p e) = fold_standing d p"
  "snd (fold_round d p e) \<longleftrightarrow> e \<and> excusable d p"
  "covered (fold_standing d p) \<longleftrightarrow> d \<noteq> Missed \<or> covered p"
proof -
  show "fst (fold_round d p e) = fold_standing d p" "covered (fold_standing d p) \<longleftrightarrow> d \<noteq> Missed \<or> covered p"
    by (cases d; simp add: fold_round_def fold_standing_def)+
  show "snd (fold_round d p e) \<longleftrightarrow> e \<and> excusable d p"
    by (cases d) (auto simp: fold_round_def excusable_def not_less)
qed

lemma classify_advance_eq:
  "classify_advance p d =
     (if \<not> any_delivered d then (Failed, (silent_round (fst d) (fst p), silent_round (snd d) (snd p)))
      else
        let p4 = fold_standing (fst d) (fst p); p6 = fold_standing (snd d) (snd p);
            a = (if \<not> any_missed d then AdvDelivered else if covered p4 \<and> covered p6 then Covered
                 else if excusable (fst d) (fst p) \<and> excusable (snd d) (snd p) then Excused
                 else Partial) in
        (a, if a = Partial then (p4, p6) else (close_phase p4, close_phase p6)))"
  unfolding classify_advance_def Let_def case_prod_unfold fold_round_simps(1,2)
  by (simp del: fold_round_simps) blast

lemma pick_delivered: "pick f d = Delivered \<Longrightarrow> any_delivered d"
  by (cases d; cases f) (auto simp: any_delivered_def)

lemma pick_missed: "pick f d = Missed \<Longrightarrow> any_missed d"
  by (cases d; cases f) (auto simp: any_missed_def)

lemma pick_simps: "pick V4 x = fst x" "pick V6 x = snd x"
  by (cases x; simp)+

lemma classify_family:
  fixes p :: patience and d :: transmit_delivery
  defines "q \<equiv> snd (classify_advance p d)" and "a \<equiv> fst (classify_advance p d)"
  shows "\<not> any_delivered d \<Longrightarrow> a = Failed \<and> pick f q = silent_round (pick f d) (pick f p)"
    and "any_delivered d \<Longrightarrow> \<not> advances a \<Longrightarrow> a = Partial \<and> pick f q = fold_standing (pick f d) (pick f p)"
    and "any_delivered d \<Longrightarrow> advances a \<Longrightarrow> pick f q = close_phase (fold_standing (pick f d) (pick f p))"
    and "advances a \<Longrightarrow> pick f d = Missed \<Longrightarrow> \<not> covered (pick f p) \<Longrightarrow>
           MAX_PARTIAL_ROUNDS \<le> missed (pick f p) \<or> stalled (pick f p)"
proof -
  show "\<not> any_delivered d \<Longrightarrow> a = Failed \<and> pick f q = silent_round (pick f d) (pick f p)"
    by (cases f) (simp_all add: q_def a_def classify_advance_eq pick_simps)
  show "any_delivered d \<Longrightarrow> \<not> advances a \<Longrightarrow> a = Partial \<and> pick f q = fold_standing (pick f d) (pick f p)"
    by (cases f) (simp_all add: q_def a_def classify_advance_eq pick_simps Let_def advances_def
        split: if_splits del: fold_round_simps, blast+)
  show "any_delivered d \<Longrightarrow> advances a \<Longrightarrow> pick f q = close_phase (fold_standing (pick f d) (pick f p))"
    by (cases f) (auto simp: q_def a_def classify_advance_eq pick_simps Let_def advances_def)
  show "advances a \<Longrightarrow> pick f d = Missed \<Longrightarrow> \<not> covered (pick f p) \<Longrightarrow>
           MAX_PARTIAL_ROUNDS \<le> missed (pick f p) \<or> stalled (pick f p)"
    using pick_missed [of f d]
    by (cases f) (auto simp: a_def classify_advance_eq pick_simps Let_def advances_def excusable_def split: if_splits)
qed

lemma held_back:
  "any_delivered d \<Longrightarrow> \<not> advances (fst (classify_advance p d)) \<Longrightarrow> \<exists>f. \<not> excusable (pick f d) (pick f p)"
  by (auto simp: classify_advance_eq Let_def advances_def pick_simps simp del: fold_round_simps split: if_splits
      intro: exI [of _ V4] exI [of _ V6])

lemma patience_inv_step: "patience_inv ds f \<Longrightarrow> patience_inv (d # ds) f"
proof -
  assume inv: "patience_inv ds f"
  let ?p = "pick f (patience_after ds)" and ?a = "verdict ds d"
  note c = classify_family [where p = "patience_after ds" and d = d and f = f, folded verdict_def]
  show ?thesis
  proof (cases "any_delivered d")
    case False
    with c(1) have "?a = Failed" "pick f (patience_after (d # ds)) = silent_round (pick f d) ?p" by auto
    then show ?thesis using inv False
      using pick_delivered [of f d]
      by (cases "pick f d") (auto simp: patience_inv_def silent_round_def fp_default_def advances_def Let_def)
  next
    case True
    show ?thesis
    proof (cases "advances ?a")
      case False
      with c(2) True have "pick f (patience_after (d # ds)) = fold_standing (pick f d) ?p" by auto
      then show ?thesis using inv True False
        by (cases "pick f d") (auto simp: patience_inv_def fold_standing_def Let_def sat_add_def)
    next
      case adv: True
      with c(3) True have q: "pick f (patience_after (d # ds)) = close_phase (fold_standing (pick f d) ?p)"
        by auto
      show ?thesis
      proof (cases "pick f d = Missed \<and> \<not> covered ?p")
        case True
        with c(4) adv have "MAX_PARTIAL_ROUNDS \<le> missed ?p \<or> stalled ?p" by auto
        then show ?thesis using inv True \<open>any_delivered d\<close> q
          by (auto simp: patience_inv_def fold_standing_def close_phase_def Let_def)
      next
        case False
        then show ?thesis using inv True q
          by (cases "pick f d") (auto simp: patience_inv_def fold_standing_def close_phase_def Let_def)
      qed
    qed
  qed
qed

lemma patience_inv: "patience_inv ds f"
proof (induction ds)
  case Nil
  show ?case by (cases f) (simp_all add: patience_inv_def fp_default_def)
next
  case (Cons d ds)
  then show ?case by (rule patience_inv_step)
qed

text \<open>
  C40. The phase never moves past a family by silence.  After any history of rounds, a confirm advances
  nothing when nobody delivered, is a full delivery exactly when every obligated family accepted, and if
  it advances while some obligated family missed the datagram, then that family has already been
  reached in this phase, or it has now missed more than \<open>MAX_PARTIAL_ROUNDS\<close> datagrams in a row
  that did reach a wire.
\<close>
theorem patience_sound:
  "(verdict ds d = Failed \<longleftrightarrow> \<not> any_delivered d) \<and>
   (verdict ds d = AdvDelivered \<longleftrightarrow> all_delivered d) \<and>
   (\<forall>f. advances (verdict ds d) \<and> pick f d = Missed \<longrightarrow>
      (\<exists>e\<in>set (current_rounds ds). any_delivered e \<and> pick f e \<noteq> Missed) \<or>
      MAX_PARTIAL_ROUNDS < owed_misses f (d # ds))"
proof (intro conjI allI impI)
  show "verdict ds d = Failed \<longleftrightarrow> \<not> any_delivered d" "verdict ds d = AdvDelivered \<longleftrightarrow> all_delivered d"
    by (auto simp: verdict_def classify_advance_def all_delivered_def Let_def split: prod.splits if_splits)
  fix f assume a: "advances (verdict ds d) \<and> pick f d = Missed"
  have "any_delivered d"
  proof (rule ccontr)
    assume "\<not> any_delivered d"
    from classify_family(1) [OF this, of "patience_after ds" f, folded verdict_def] a show False
      by (simp add: advances_def)
  qed
  with a patience_inv [of ds f] classify_family(4) [where p = "patience_after ds" and d = d and f = f]
  show "(\<exists>e\<in>set (current_rounds ds). any_delivered e \<and> pick f e \<noteq> Missed) \<or> MAX_PARTIAL_ROUNDS < owed_misses f (d # ds)"
    by (auto simp: patience_inv_def verdict_def Let_def)
qed

lemma patience_sound_witness:
  "verdict [(Delivered, Missed), (Delivered, Missed)] (Delivered, Missed) = Excused \<and>
   MAX_PARTIAL_ROUNDS < owed_misses V6 [(Delivered, Missed), (Delivered, Missed), (Delivered, Missed)]"
proof -
  let ?d = "(Delivered, Missed)"
  have v: "verdict [?d, ?d] ?d = Excused" by code_simp
  have adv: "advances (verdict [?d, ?d] ?d)" unfolding v by (simp add: advances_def)
  have "list_all (\<lambda>e. pick V6 e = Missed) (current_rounds [?d, ?d])" by code_simp
  then have n: "\<not> (\<exists>e\<in>set (current_rounds [?d, ?d]). any_delivered e \<and> pick V6 e \<noteq> Missed)"
    by (auto simp only: list_all_iff)
  have "pick V6 ?d = Missed" by simp
  with patience_sound [of "[?d, ?d]" ?d, THEN conjunct2, THEN conjunct2, rule_format, of V6] adv n v
  show ?thesis by blast
qed

lemma no_third_partial:
  assumes "any_delivered d1" "any_delivered d2" "any_delivered d3"
    and r: "classify_advance p d1 = (a1, p1)" "classify_advance p1 d2 = (a2, p2)" "classify_advance p2 d3 = (a3, p3)"
  shows "advances a1 \<or> advances a2 \<or> advances a3"
proof -
  have "advances a3" if "\<not> advances a1" "\<not> advances a2"
  proof (rule ccontr)
    assume "\<not> advances a3"
    with held_back [of d3 p2] assms(3) r(3) obtain f where f: "\<not> excusable (pick f d3) (pick f p2)" by auto
    have "pick f p1 = fold_standing (pick f d1) (pick f p)" "pick f p2 = fold_standing (pick f d2) (pick f p1)"
      using classify_family(2) [of d1 p f] classify_family(2) [of d2 p1 f] assms(1,2) r that by simp_all
    with f show False
      by (auto simp: excusable_def fold_standing_def MAX_PARTIAL_ROUNDS_def sat_add_def split: if_splits)
  qed
  then show ?thesis by blast
qed

text \<open>
  Patience is bounded: among any three consecutive rounds that each reach at least one wire, from
  whatever standing of the families, one advances the phase.
\<close>
theorem phase_progress:
  assumes "any_delivered d1" "any_delivered d2" "any_delivered d3"
  shows "let (a1, p1) = classify_advance p d1; (a2, p2) = classify_advance p1 d2; (a3, p3) = classify_advance p2 d3
         in advances a1 \<or> advances a2 \<or> advances a3"
  unfolding Let_def case_prod_unfold by (rule no_third_partial [OF assms prod.collapse [symmetric] prod.collapse [symmetric] prod.collapse [symmetric]])

lemma phase_progress_witness:
  "let (a1, p1) = classify_advance (fp_default, fp_default) (Delivered, Missed);
       (a2, p2) = classify_advance p1 (Delivered, Missed); (a3, p3) = classify_advance p2 (Delivered, Missed)
   in advances a1 \<or> advances a2 \<or> advances a3"
  by (rule phase_progress) (simp_all add: any_delivered_def)

subsection \<open>What the deadlines guarantee\<close>

lemma stalest_le:
  assumes "in_good_standing (pick f patience)" "pick f last_delivered = Some at"
    "re_announce_deadline clk at ttl = Some due"
  shows "\<exists>s. stalest_refresh_due clk last_delivered patience ttl = Some s \<and> s \<le> due"
  using assms by (cases f; cases "in_good_standing (fst patience)"; cases "in_good_standing (snd patience)")
    (auto simp: stalest_refresh_due_def Let_def pick_simps List.map_filter_simps bind_eq_None_conv
      split: option.splits)

text \<open>
  The refresh guarantee: the composed announcement deadline is never sooner than the one-second
  minimum after now, never later than the phase's own schedule unless that minimum forces it, and for
  every family in good standing never later than that family's own refresh, counted from its last
  delivery, unless that minimum forces it.
\<close>
theorem refresh_bound:
  assumes "announce_deadline clk now 1 = Some least"
    and "compose_announce_deadline clk now (Some base) (stalest_refresh_due clk last_delivered patience ttl) = Some t"
    and "in_good_standing (pick f patience)" "pick f last_delivered = Some at"
    and "re_announce_deadline clk at ttl = Some due"
  shows "least \<le> t \<and> t \<le> max least base \<and> t \<le> max least due"
proof -
  from stalest_le [OF assms(3-5)] obtain s where
    s: "stalest_refresh_due clk last_delivered patience ttl = Some s" "s \<le> due" by blast
  then show ?thesis
    using assms(1,2) by (auto simp: compose_announce_deadline_def Let_def max_def split: if_splits)
qed

lemma refresh_bound_witness:
  "\<exists>t. compose_announce_deadline smoltcp_clock (SmoltcpInstant 9000000) (Some (SmoltcpInstant 90000000))
        (stalest_refresh_due smoltcp_clock (Some (SmoltcpInstant 5000000), None) (fp_default, fp_default) 10) = Some t \<and>
      t \<le> SmoltcpInstant 13000000"
proof -
  let ?pat = "(fp_default, fp_default)" and ?l = "(Some (SmoltcpInstant 5000000), None)"
  have c: "announce_deadline smoltcp_clock (SmoltcpInstant 9000000) 1 = Some (SmoltcpInstant 10000000)"
    "re_announce_deadline smoltcp_clock (SmoltcpInstant 5000000) 10 = Some (SmoltcpInstant 13000000)"
    "max (SmoltcpInstant 10000000) (SmoltcpInstant 13000000) = SmoltcpInstant 13000000" by code_simp+
  have t: "compose_announce_deadline smoltcp_clock (SmoltcpInstant 9000000) (Some (SmoltcpInstant 90000000))
        (stalest_refresh_due smoltcp_clock ?l ?pat 10) = Some (SmoltcpInstant 13000000)"
    by code_simp
  have "in_good_standing (pick V4 ?pat)" by (simp add: in_good_standing_def fp_default_def)
  from refresh_bound [OF c(1) t this _ c(2)] c(3) t show ?thesis by simp
qed

definition partial_wait :: "nat \<Rightarrow> nat \<Rightarrow> nat" where
  "partial_wait streak ttl = min (2 ^ min streak 6) (max (ttl * 80 div 100) 1)"

lemma periodic_refresh_u32: "ttl \<le> u32_max \<Longrightarrow> periodic_refresh_secs ttl = ttl * 80 div 100"
  by (simp add: periodic_refresh_secs_def sat_mul64_def)

lemma pow64: "(2::nat) ^ min n 6 \<le> 64"
proof -
  have "(2::nat) ^ min n 6 \<le> 2 ^ 6" by (rule power_increasing) auto
  then show ?thesis by simp
qed

lemma as_secs_announce [simp]: "as_secs ANNOUNCE_INTERVAL = 1"
  by (simp add: as_secs_def ANNOUNCE_INTERVAL_def secs_def)

text \<open>
  The ladders.  After \<open>streak\<close> partial announcements the next waits \<open>2^streak\<close> seconds, between one
  second and 64, never longer than the periodic refresh of the TTL nor shorter than after fewer of
  them, and twice as long as the time before until one of those caps binds; a query's sends wait 1, 2,
  4, ... seconds up to 60.
\<close>
theorem ladder_bounds:
  assumes "ttl \<le> u32_max"
  shows "partial_announce_deadline clk now streak ttl = cadd clk now (secs (partial_wait streak ttl)) \<and>
    1 \<le> partial_wait streak ttl \<and> partial_wait streak ttl \<le> 64 \<and>
    secs (partial_wait streak ttl) \<le> secs (max (periodic_refresh_secs ttl) 1) \<and>
    (streak \<le> streak' \<longrightarrow> partial_wait streak ttl \<le> partial_wait streak' ttl) \<and>
    (partial_wait (Suc streak) ttl < max (ttl * 80 div 100) 1 \<and> streak < 6 \<longrightarrow>
       partial_wait (Suc streak) ttl = 2 * partial_wait streak ttl) \<and>
    retry_next_deadline clk now sends = cadd clk now (secs (min (2 ^ min (sends - 1) 6) 60))"
proof -
  have m: "min (2 ^ min n 6) u64_max = 2 ^ min n 6" for n :: nat
    using pow64 [of n] by simp
  have "partial_announce_deadline clk now streak ttl = cadd clk now (secs (partial_wait streak ttl))"
    using m by (simp add: partial_announce_deadline_def partial_wait_def Let_def MAX_PARTIAL_ANNOUNCE_SHIFT_def
        sat_mul64_def periodic_refresh_u32 [OF assms])
  moreover have "1 \<le> partial_wait streak ttl" by (simp add: partial_wait_def)
  moreover have "partial_wait streak ttl \<le> 64" using pow64 [of streak] by (simp add: partial_wait_def min.coboundedI1)
  moreover have "secs (partial_wait streak ttl) \<le> secs (max (periodic_refresh_secs ttl) 1)"
    by (simp add: partial_wait_def periodic_refresh_u32 [OF assms])
  moreover have "streak \<le> streak' \<longrightarrow> partial_wait streak ttl \<le> partial_wait streak' ttl"
    unfolding partial_wait_def by (intro impI min.mono power_increasing) auto
  moreover have "partial_wait (Suc streak) ttl < max (ttl * 80 div 100) 1 \<and> streak < 6 \<longrightarrow>
       partial_wait (Suc streak) ttl = 2 * partial_wait streak ttl"
    by (auto simp: partial_wait_def min_def)
  moreover have "retry_next_deadline clk now sends = cadd clk now (secs (min (2 ^ min (sends - 1) 6) 60))"
    using m by (simp add: retry_next_deadline_def Let_def INITIAL_SECS_def MAX_SECS_def sat_mul64_def)
  ultimately show ?thesis by blast
qed

lemma ladder_bounds_witness:
  "partial_announce_deadline smoltcp_clock (SmoltcpInstant 0) 2 120
     = smoltcp_add (SmoltcpInstant 0) (secs (partial_wait 2 120)) \<and>
   partial_wait 2 120 \<le> partial_wait 3 120 \<and> partial_wait 3 120 = 2 * partial_wait 2 120"
proof -
  have "partial_wait (Suc 2) 120 < max (120 * 80 div 100) 1" by (simp add: partial_wait_def)
  then show ?thesis
    using ladder_bounds [of 120 smoltcp_clock "SmoltcpInstant 0" 2 3] by (simp add: smoltcp_clock_def)
qed

end
