(* ===== verification/Records.thy ===== *)
theory Records
  imports Net WireTypes DnsName Clock
begin

text \<open>
  What a caller hands to the core: the record set of a service (\<open>records.rs\<close>), the endpoint's
  configuration and the specification of a query (\<open>config.rs\<close>), and the lifecycle states of a service
  (\<open>service/state.rs\<close>).
\<close>

subsection \<open>Service records\<close>

record service_records =
  sr_service_type :: name
  sr_instance :: name
  sr_host :: name
  sr_port :: u16
  sr_priority :: u16
  sr_weight :: u16
  sr_a_addrs :: "bytes list"
  sr_aaaa_addrs :: "bytes list"
  sr_aaaa_scopes :: "u32 list"
  sr_txt :: "bytes list"
  sr_subtypes :: "name list"
  sr_ttl_secs :: u32

definition arc_push :: "'a list \<Rightarrow> 'a \<Rightarrow> 'a list" where
  "arc_push xs x = xs @ [x]"

definition sr_new :: "name \<Rightarrow> name \<Rightarrow> name \<Rightarrow> u16 \<Rightarrow> u32 \<Rightarrow> service_records" where
  "sr_new service_type inst host port ttl_secs =
     \<lparr>sr_service_type = service_type, sr_instance = inst, sr_host = host, sr_port = port,
      sr_priority = 0, sr_weight = 0, sr_a_addrs = [], sr_aaaa_addrs = [], sr_aaaa_scopes = [],
      sr_txt = [], sr_subtypes = [], sr_ttl_secs = ttl_secs\<rparr>"

definition sr_add_a :: "bytes \<Rightarrow> service_records \<Rightarrow> service_records" where
  "sr_add_a addr r = r\<lparr>sr_a_addrs := arc_push (sr_a_addrs r) addr\<rparr>"

definition sr_add_aaaa_scoped :: "bytes \<Rightarrow> u32 \<Rightarrow> service_records \<Rightarrow> service_records" where
  "sr_add_aaaa_scoped addr scope_id r =
     r\<lparr>sr_aaaa_addrs := arc_push (sr_aaaa_addrs r) addr, sr_aaaa_scopes := arc_push (sr_aaaa_scopes r) scope_id\<rparr>"

definition sr_add_aaaa :: "bytes \<Rightarrow> service_records \<Rightarrow> service_records" where
  "sr_add_aaaa addr r = sr_add_aaaa_scoped addr 0 r"

definition sr_add_txt_segment :: "bytes \<Rightarrow> service_records \<Rightarrow> service_records" where
  "sr_add_txt_segment segment r = r\<lparr>sr_txt := arc_push (sr_txt r) segment\<rparr>"

text \<open>\<open>str::trim_end_matches('.')\<close>\<close>

definition trim_end_dots :: "bytes \<Rightarrow> bytes" where
  "trim_end_dots s = rev (dropWhile (\<lambda>b. b = dot) (rev s))"

text \<open>\<open>"._sub."\<close>\<close>

definition sub_infix :: bytes where "sub_infix = [46, 95, 115, 117, 98, 46]"

definition sr_add_subtype :: "bytes \<Rightarrow> service_records \<Rightarrow> name_error + service_records" where
  "sr_add_subtype subtype r =
     rbind (try_from_str (trim_end_dots subtype @ sub_infix @ as_str (sr_service_type r))) (\<lambda>n.
     Inr (r\<lparr>sr_subtypes := arc_push (sr_subtypes r) n\<rparr>))"

definition sr_retain_subtypes :: "(name \<Rightarrow> bool) \<Rightarrow> service_records \<Rightarrow> service_records" where
  "sr_retain_subtypes keep r =
     (if list_all keep (sr_subtypes r) then r
      else r\<lparr>sr_subtypes := filter keep (sr_subtypes r)\<rparr>)"

definition sr_set_priority :: "u16 \<Rightarrow> service_records \<Rightarrow> service_records" where
  "sr_set_priority v r = r\<lparr>sr_priority := v\<rparr>"

definition sr_set_weight :: "u16 \<Rightarrow> service_records \<Rightarrow> service_records" where
  "sr_set_weight v r = r\<lparr>sr_weight := v\<rparr>"

definition sr_set_ttl_secs :: "u32 \<Rightarrow> service_records \<Rightarrow> service_records" where
  "sr_set_ttl_secs v r = r\<lparr>sr_ttl_secs := v\<rparr>"

definition sr_set_instance :: "name \<Rightarrow> service_records \<Rightarrow> service_records" where
  "sr_set_instance n r = r\<lparr>sr_instance := n\<rparr>"

lemma sr_retain_subtypes_eq: "sr_retain_subtypes keep r = r\<lparr>sr_subtypes := filter keep (sr_subtypes r)\<rparr>"
  by (auto simp: sr_retain_subtypes_def list_all_iff filter_id_conv)

subsection \<open>Endpoint configuration\<close>

record endpoint_config =
  cf_probe_unique_names :: bool
  cf_answer_questions :: bool
  cf_re_announce :: bool
  cf_populate_cache :: bool
  cf_trust_advertised_src_as_self :: bool
  cf_relinquished_retention :: nat

definition DEFAULT_RELINQUISHED_RETENTION :: nat where
  "DEFAULT_RELINQUISHED_RETENTION = secs 5"

definition config_new :: endpoint_config where
  "config_new = \<lparr>cf_probe_unique_names = True, cf_answer_questions = True, cf_re_announce = True,
     cf_populate_cache = True, cf_trust_advertised_src_as_self = False,
     cf_relinquished_retention = DEFAULT_RELINQUISHED_RETENTION\<rparr>"

subsection \<open>Query specification\<close>

record query_spec =
  qs_qname :: name
  qs_qtype :: resource_type
  qs_qclass :: resource_class
  qs_unicast_response :: bool
  qs_timeout :: "nat option"
  qs_max_answers :: "nat option"

definition query_spec_new :: "name \<Rightarrow> resource_type \<Rightarrow> query_spec" where
  "query_spec_new qname qtype = \<lparr>qs_qname = qname, qs_qtype = qtype, qs_qclass = Class_In,
     qs_unicast_response = False, qs_timeout = None, qs_max_answers = None\<rparr>"

subsection \<open>Lifecycle states\<close>

datatype service_state = St_Init | Probing nat | Announcing nat | Established | Conflicting

fun service_state_as_str :: "service_state \<Rightarrow> string" where
  "service_state_as_str St_Init = ''init''"
| "service_state_as_str (Probing _) = ''probing''"
| "service_state_as_str (Announcing _) = ''announcing''"
| "service_state_as_str Established = ''established''"
| "service_state_as_str Conflicting = ''conflicting''"

end
