(* ===== verification/Events.thy ===== *)
theory Events
  imports Net WireReader DnsName
begin

text \<open>
  The vocabulary between the endpoint and its state machines: handles (\<open>handle.rs\<close>), events and
  updates (\<open>event.rs\<close>), and the errors of the operations above the wire layer (\<open>error.rs\<close>).
\<close>

datatype service_handle = ServiceHandle (sh_raw: u32)
datatype query_handle = QueryHandle (qh_raw: u32)

subsection \<open>Events for a service\<close>

record service_question =
  sq_question :: question_ref
  sq_src :: socket_addr
  sq_query_id :: u16
  sq_truncated :: bool

definition service_question_new :: "question_ref \<Rightarrow> socket_addr \<Rightarrow> u16 \<Rightarrow> service_question" where
  "service_question_new q src query_id =
     \<lparr>sq_question = q, sq_src = src, sq_query_id = query_id, sq_truncated = False\<rparr>"

datatype conflict_origin = TentativeProbe | AuthoritativeResponse
datatype conflict_history = Unmatched | Relinquished
datatype conflict_role = RoleInstance | InstanceAndHost

text \<open>The identity of a datagram, by which a state machine tells one arrival from the next.\<close>

datatype datagram_id = DatagramId u64

record probe_conflict =
  pc_src :: socket_addr
  pc_record :: record_ref
  pc_datagram :: datagram_id
  pc_history :: conflict_history
  pc_role :: conflict_role

record probe_proposal =
  pp_src :: socket_addr
  pp_reader :: message_reader
  pp_datagram :: datagram_id

record host_conflict =
  hc_record :: record_ref
  hc_origin :: conflict_origin
  hc_datagram :: datagram_id

record known_answer =
  ka_src :: socket_addr
  ka_record :: record_ref

datatype service_event =
    SE_Question service_question
  | SE_ProbeConflict probe_conflict
  | SE_ProbeProposal probe_proposal
  | SE_HostConflict host_conflict
  | SE_KnownAnswer known_answer

fun event_datagram :: "service_event \<Rightarrow> datagram_id option" where
  "event_datagram (SE_ProbeConflict pc) = Some (pc_datagram pc)"
| "event_datagram (SE_ProbeProposal pp) = Some (pp_datagram pp)"
| "event_datagram (SE_HostConflict hc) = Some (hc_datagram hc)"
| "event_datagram (SE_Question _) = None"
| "event_datagram (SE_KnownAnswer _) = None"

subsection \<open>Events for a query, and updates for the caller\<close>

datatype query_event = Answer record_ref | Truncated

record to_query =
  tq_handle :: query_handle
  tq_event :: query_event

datatype route_event = ToQuery to_query | CacheUpdated

datatype query_update = Timeout | Done

datatype endpoint_event = CacheExpired

datatype service_update = SU_Established | SU_Renamed name | SU_Conflict | SU_HostConflict

subsection \<open>Errors\<close>

text \<open>\<open>HandleTimeoutError::Overflow\<close>, \<open>TransmitError::BufferTooSmall\<close> with its two numbers.\<close>

datatype handle_timeout_error = TimeoutOverflow
datatype transmit_error = TxBufferTooSmall nat nat
datatype storage_full_error = StorageFullError

datatype handle_error = HE_Parse parse_error | HE_InvalidOpcode opcode | HE_InvalidResponseCode response_code

end
