(* ===== verification/Query.thy ===== *)
theory Query
  imports WireCanonical BuilderMessage Pool Schedule Events
begin

text \<open>
  The query state machine (\<open>query/mod.rs\<close>): collection of answers with deduplication and first-in
  first-out eviction, the retry ladder, the per-family patience, duplicate-question suppression, the
  caller's absolute deadline, and the terminal transition.  The clock and the two pools (answers,
  pending updates) are arguments.  Statistics and tracing are left out, and so are the debug
  assertions of the call order: the model is what a release build does, whichever order the
  operations come in.
\<close>

definition MAX_RETRIES :: nat where "MAX_RETRIES = 8"
definition DEFAULT_MAX_ANSWERS :: nat where "DEFAULT_MAX_ANSWERS = 256"

record collected_answer =
  an_rtype :: resource_type
  an_rclass :: resource_class
  an_rdata :: bytes
  an_rdata_key :: "bytes option"
  an_seq :: nat

definition answer_from_parts :: "resource_type \<Rightarrow> resource_class \<Rightarrow> bytes \<Rightarrow> nat \<Rightarrow> collected_answer" where
  "answer_from_parts rtype rclass rdata sq =
     \<lparr>an_rtype = rtype, an_rclass = rclass, an_rdata = rdata, an_rdata_key = None, an_seq = sq\<rparr>"

text \<open>The accessor \<open>rdata_key()\<close>: the folded form, or the RDATA itself when folding changed nothing.\<close>

definition an_key :: "collected_answer \<Rightarrow> bytes" where
  "an_key a = (case an_rdata_key a of Some k \<Rightarrow> k | None \<Rightarrow> an_rdata a)"

record ('i, 'an, 'ev) query =
  qy_handle :: query_handle
  qy_qname :: name
  qy_qtype :: resource_type
  qy_qclass :: resource_class
  qy_txid :: u16
  qy_retry_count :: nat
  qy_next_deadline :: "'i option"
  qy_answers :: 'an
  qy_pending_updates :: 'ev
  qy_done :: bool
  qy_terminal_emitted :: bool
  qy_max_answers :: nat
  qy_next_seq :: nat
  qy_transmit_pending :: bool
  qy_awaiting_send_confirm :: bool
  qy_partial_send_streak :: nat
  qy_partial_rounds :: patience
  qy_unicast_response :: bool
  qy_timeout_deadline :: "'i option"

type_synonym ('an, 'e) answer_pool = "(collected_answer, 'an, 'e) pool_ops"
type_synonym ('ev, 'e) update_pool = "(query_update, 'ev, 'e) pool_ops"

definition query_try_new ::
  "('an, 'e) answer_pool \<Rightarrow> ('ev, 'f) update_pool \<Rightarrow> query_handle \<Rightarrow> name \<Rightarrow> resource_type \<Rightarrow> resource_class \<Rightarrow>
     u16 \<Rightarrow> bool \<Rightarrow> 'i option \<Rightarrow> ('i, 'an, 'ev) query" where
  "query_try_new an ev handle qname qtype qclass txid unicast_response timeout_deadline =
     \<lparr>qy_handle = handle, qy_qname = qname, qy_qtype = qtype, qy_qclass = qclass, qy_txid = txid,
      qy_retry_count = 0, qy_next_deadline = None, qy_answers = pl_new an, qy_pending_updates = pl_new ev,
      qy_done = False, qy_terminal_emitted = False, qy_max_answers = DEFAULT_MAX_ANSWERS, qy_next_seq = 0,
      qy_transmit_pending = True, qy_awaiting_send_confirm = False, qy_partial_send_streak = 0,
      qy_partial_rounds = (fp_default, fp_default), qy_unicast_response = unicast_response,
      qy_timeout_deadline = timeout_deadline\<rparr>"

definition with_max_answers :: "nat \<Rightarrow> ('i, 'an, 'ev) query \<Rightarrow> ('i, 'an, 'ev) query" where
  "with_max_answers m q = q\<lparr>qy_max_answers := m\<rparr>"

definition caller_window_shut :: "'i :: linorder \<Rightarrow> ('i, 'an, 'ev) query \<Rightarrow> bool" where
  "caller_window_shut now q = (case qy_timeout_deadline q of None \<Rightarrow> False | Some deadline \<Rightarrow> deadline \<le> now)"

subsection \<open>Collecting answers\<close>

text \<open>The oldest answer: the lowest sequence number, the first such in iteration order.\<close>

fun oldest :: "(nat \<times> collected_answer) list \<Rightarrow> (nat \<times> nat) option \<Rightarrow> (nat \<times> nat) option" where
  "oldest [] victim = victim"
| "oldest ((key, a) # as) victim =
     oldest as (Some (case victim of
         Some prev \<Rightarrow> if snd prev \<le> an_seq a then prev else (key, an_seq a)
       | None \<Rightarrow> (key, an_seq a)))"

definition evict_oldest :: "('an, 'e) answer_pool \<Rightarrow> 'an \<Rightarrow> 'an" where
  "evict_oldest an p = (case oldest (pl_iter an p) None of None \<Rightarrow> p | Some (k, _) \<Rightarrow> snd (pl_remove an p k))"

definition same_answer :: "resource_type \<Rightarrow> resource_class \<Rightarrow> bytes \<Rightarrow> collected_answer \<Rightarrow> bool" where
  "same_answer rtype rclass key a \<longleftrightarrow> an_rtype a = rtype \<and> an_rclass a = rclass \<and> an_key a = key"

text \<open>The answer arm after the filters: deduplicate, make room, insert.\<close>

definition collect_answer ::
  "('an, 'e) answer_pool \<Rightarrow> resource_type \<Rightarrow> resource_class \<Rightarrow> bytes \<Rightarrow> bytes \<Rightarrow>
     ('i, 'an, 'ev) query \<Rightarrow> ('i, 'an, 'ev) query" where
  "collect_answer an rtype rclass owned folded q =
     (let rdata_key = (if folded = owned then None else Some folded);
          key = (case rdata_key of Some k \<Rightarrow> k | None \<Rightarrow> owned) in
      if list_ex (\<lambda>(_, existing). same_answer rtype rclass key existing) (pl_iter an (qy_answers q)) then q
      else if qy_max_answers q = 0 then q
      else
        let p = (if qy_max_answers q \<le> pl_len an (qy_answers q) \<or> \<not> is_ok (pl_vacant an (qy_answers q))
                 then evict_oldest an (qy_answers q) else qy_answers q);
            new_seq = qy_next_seq q in
        case pl_insert an p \<lparr>an_rtype = rtype, an_rclass = rclass, an_rdata = owned,
                             an_rdata_key = rdata_key, an_seq = new_seq\<rparr> of
          (Inr _, p) \<Rightarrow> q\<lparr>qy_answers := p, qy_next_seq := sat_add u64_max new_seq 1\<rparr>
        | (Inl _, p) \<Rightarrow> q\<lparr>qy_answers := p\<rparr>)"

definition query_handle_event ::
  "('an, 'e) answer_pool \<Rightarrow> query_event \<Rightarrow> 'i :: linorder \<Rightarrow> ('i, 'an, 'ev) query \<Rightarrow> ('i, 'an, 'ev) query" where
  "query_handle_event an event now q =
     (if qy_done q then q
      else if caller_window_shut now q then q
      else case event of
        Answer r \<Rightarrow>
          if rr_ttl r = 0 then q
          else if qy_qtype q \<noteq> RT_Any \<and> rr_rtype r \<noteq> qy_qtype q then q
          else if qy_qclass q \<noteq> Class_Any \<and> rr_rclass r \<noteq> qy_qclass q then q
          else (case canonical_rdata r of
              Inl _ \<Rightarrow> q
            | Inr owned \<Rightarrow>
                (case canonical_rdata_folded r of
                   Inl _ \<Rightarrow> q
                 | Inr folded \<Rightarrow> collect_answer an (rr_rtype r) (rr_rclass r) owned folded q))
      | Truncated \<Rightarrow> q)"

subsection \<open>Deadlines and the terminal\<close>

definition query_poll_timeout :: "('i :: linorder, 'an, 'ev) query \<Rightarrow> 'i option" where
  "query_poll_timeout q =
     (case (qy_next_deadline q, qy_timeout_deadline q) of
        (Some n, Some t) \<Rightarrow> Some (if n < t then n else t)
      | (Some n, None) \<Rightarrow> Some n
      | (None, Some t) \<Rightarrow> Some t
      | (None, None) \<Rightarrow> None)"

definition terminate :: "('ev, 'f) update_pool \<Rightarrow> query_update \<Rightarrow> ('i, 'an, 'ev) query \<Rightarrow> ('i, 'an, 'ev) query" where
  "terminate ev update q =
     (if qy_done q then q
      else q\<lparr>qy_done := True, qy_transmit_pending := False,
             qy_pending_updates := snd (pl_insert ev (qy_pending_updates q) update),
             qy_next_deadline := None, qy_timeout_deadline := None\<rparr>)"

definition query_handle_timeout ::
  "('ev, 'f) update_pool \<Rightarrow> 'i :: linorder \<Rightarrow> ('i, 'an, 'ev) query \<Rightarrow>
     (handle_timeout_error + unit) \<times> ('i, 'an, 'ev) query" where
  "query_handle_timeout ev now q =
     (if qy_done q then (Inr (), q)
      else if caller_window_shut now q then (Inr (), terminate ev Timeout q)
      else case qy_next_deadline q of
        None \<Rightarrow> (Inr (), q)
      | Some due \<Rightarrow>
          if now < due then (Inr (), q)
          else if MAX_RETRIES < qy_retry_count q then (Inr (), terminate ev Timeout q)
          else (Inr (), q\<lparr>qy_transmit_pending := True, qy_next_deadline := None\<rparr>))"

definition retire :: "('ev, 'f) update_pool \<Rightarrow> ('i, 'an, 'ev) query \<Rightarrow> ('i, 'an, 'ev) query" where
  "retire ev q = terminate ev Timeout q"

subsection \<open>Sending\<close>

text \<open>
  \<open>poll_transmit\<close>: \<open>reading\<close> is what the closure \<open>clock\<close> returns at its one call.  The result carries
  the caller's buffer, which a failing encode may have written into.
\<close>

definition encode_question :: "('i, 'an, 'ev) query \<Rightarrow> bytes \<Rightarrow> (transmit_error + nat) \<times> bytes" where
  "encode_question q buf =
     (case builder_try_new DEFAULT_COMPRESSION_TABLE buf (header_new\<lparr>hdr_id := qy_txid q\<rparr>) of
        Inl _ \<Rightarrow> (Inl (TxBufferTooSmall HEADER_SIZE (length buf)), buf)
      | Inr b \<Rightarrow>
          (case push_question (qy_qname q) (qy_qtype q) (qy_qclass q) (qy_unicast_response q) b of
             (Inl _, b) \<Rightarrow> (Inl (TxBufferTooSmall 0 0), b_out b)
           | (Inr _, b) \<Rightarrow>
               (case builder_finish b of
                  (Inl _, out) \<Rightarrow> (Inl (TxBufferTooSmall 0 0), out)
                | (Inr n, out) \<Rightarrow> (Inr n, out))))"

definition query_poll_transmit ::
  "'i :: linorder \<Rightarrow> bytes \<Rightarrow> ('i, 'an, 'ev) query \<Rightarrow>
     (transmit_error + transmit option) \<times> bytes \<times> ('i, 'an, 'ev) query" where
  "query_poll_transmit reading buf q =
     (if qy_done q \<or> \<not> qy_transmit_pending q then (Inr None, buf, q)
      else if (case qy_timeout_deadline q of Some deadline \<Rightarrow> deadline \<le> reading | None \<Rightarrow> False)
      then (Inr None, buf, q)
      else case encode_question q buf of
        (Inl e, out) \<Rightarrow> (Inl e, out, q)
      | (Inr n, out) \<Rightarrow>
          (Inr (Some \<lparr>tr_dst = multicast_dst, tr_src_ip = None, tr_size = n, tr_obligation = Sustained,
                      tr_min_family_gap = MIN_QUERY_GAP\<rparr>), out,
           q\<lparr>qy_transmit_pending := False, qy_awaiting_send_confirm := True\<rparr>))"

definition query_note_transmit_outcome ::
  "'i :: linorder clock \<Rightarrow> 'i \<Rightarrow> 'i family_attempt \<Rightarrow> 'i family_attempt \<Rightarrow> ('i, 'an, 'ev) query \<Rightarrow>
     transmit_confirm \<times> ('i, 'an, 'ev) query" where
  "query_note_transmit_outcome clk now v4 v6 q =
     (if \<not> qy_awaiting_send_confirm q then (NOTHING, q)
      else
        let q = q\<lparr>qy_awaiting_send_confirm := False\<rparr>;
            delivery = project v4 v6;
            confirm = \<lparr>tc_any_delivered = any_delivered delivery,
                       tc_retire_producer = (\<not> qy_done q \<and> undeliverable v4 v6)\<rparr> in
        if qy_done q then (confirm, q)
        else
          let now = anchor v4 v6 now;
              (advance, rounds) = classify_advance (qy_partial_rounds q) delivery;
              q = q\<lparr>qy_partial_rounds := rounds\<rparr> in
          (confirm,
           if advance = AdvDelivered then
             let n = sat_add u32_max (qy_retry_count q) 1 in
             q\<lparr>qy_retry_count := n, qy_partial_send_streak := 0,
               qy_next_deadline := retry_next_deadline clk now n\<rparr>
           else if advance = Covered \<or> advance = Excused then
             let n = sat_add u32_max (qy_retry_count q) 1;
                 index = sat_add u32_max n (qy_partial_send_streak q) in
             q\<lparr>qy_retry_count := n, qy_next_deadline := retry_next_deadline clk now index,
               qy_partial_send_streak := sat_add u32_max (qy_partial_send_streak q) 1\<rparr>
           else if advance = Partial then
             let index = sat_add u32_max (sat_add u32_max (qy_retry_count q) 1) (qy_partial_send_streak q) in
             q\<lparr>qy_next_deadline := retry_next_deadline clk now index,
               qy_partial_send_streak := sat_add u32_max (qy_partial_send_streak q) 1\<rparr>
           else
             q\<lparr>qy_next_deadline := retry_next_deadline clk now (sat_add u32_max (qy_retry_count q) 1)\<rparr>))"

definition note_duplicate_question ::
  "'i :: linorder clock \<Rightarrow> ('ev, 'f) update_pool \<Rightarrow> 'i \<Rightarrow> ('i, 'an, 'ev) query \<Rightarrow> bool \<times> ('i, 'an, 'ev) query" where
  "note_duplicate_question clk ev now q =
     (if qy_done q \<or> qy_awaiting_send_confirm q then (False, q)
      else if caller_window_shut now q then (False, q)
      else if \<not> (qy_transmit_pending q \<or>
                  (case qy_next_deadline q of Some d \<Rightarrow> d \<le> now | None \<Rightarrow> False)) then (False, q)
      else
        let q = q\<lparr>qy_transmit_pending := False, qy_retry_count := sat_add u32_max (qy_retry_count q) 1,
                  qy_partial_send_streak := 0, qy_partial_rounds := (fp_default, fp_default)\<rparr> in
        if MAX_RETRIES < qy_retry_count q then (True, terminate ev Timeout q)
        else (True, q\<lparr>qy_next_deadline := retry_next_deadline clk now (qy_retry_count q)\<rparr>))"

text \<open>\<open>poll\<close>: the first pending update in iteration order is removed and returned.\<close>

definition query_poll :: "('ev, 'f) update_pool \<Rightarrow> ('i, 'an, 'ev) query \<Rightarrow> query_update option \<times> ('i, 'an, 'ev) query" where
  "query_poll ev q =
     (case pl_iter ev (qy_pending_updates q) of
        [] \<Rightarrow> (None, q)
      | (key, _) # _ \<Rightarrow>
          (case pl_remove ev (qy_pending_updates q) key of
             (r, p) \<Rightarrow> (r, q\<lparr>qy_pending_updates := p\<rparr>)))"

definition mark_terminal_emitted :: "('i, 'an, 'ev) query \<Rightarrow> ('i, 'an, 'ev) query" where
  "mark_terminal_emitted q = q\<lparr>qy_terminal_emitted := True\<rparr>"

definition collected_answers :: "('an, 'e) answer_pool \<Rightarrow> ('i, 'an, 'ev) query \<Rightarrow> collected_answer list" where
  "collected_answers an q = map snd (pl_iter an (qy_answers q))"

subsection \<open>The answers as a set\<close>

definition answer_id :: "collected_answer \<Rightarrow> resource_type \<times> resource_class \<times> bytes" where
  "answer_id a = (an_rtype a, an_rclass a, an_key a)"

definition answer_set :: "('an, 'e) answer_pool \<Rightarrow> ('i, 'an, 'ev) query \<Rightarrow> collected_answer set" where
  "answer_set an q = ran (pmap an (qy_answers q))"

definition new_answer :: "resource_type \<Rightarrow> resource_class \<Rightarrow> bytes \<Rightarrow> bytes \<Rightarrow> nat \<Rightarrow> collected_answer" where
  "new_answer rtype rclass owned folded sq =
     \<lparr>an_rtype = rtype, an_rclass = rclass, an_rdata = owned,
      an_rdata_key = (if folded = owned then None else Some folded), an_seq = sq\<rparr>"

lemma new_answer_simps [simp]:
  "answer_id (new_answer t c owned folded s) = (t, c, folded)" "an_seq (new_answer t c owned folded s) = s"
  by (simp_all add: new_answer_def answer_id_def an_key_def)

lemma same_answer_id: "same_answer t c k a \<longleftrightarrow> answer_id a = (t, c, k)"
  by (simp add: same_answer_def answer_id_def)

lemma collect_answer_eq:
  "collect_answer an t c owned folded q =
     (if \<exists>a\<in>snd ` set (pl_iter an (qy_answers q)). answer_id a = (t, c, folded) then q
      else if qy_max_answers q = 0 then q
      else
        let p = (if qy_max_answers q \<le> pl_len an (qy_answers q) \<or> \<not> is_ok (pl_vacant an (qy_answers q))
                 then evict_oldest an (qy_answers q) else qy_answers q) in
        case pl_insert an p (new_answer t c owned folded (qy_next_seq q)) of
          (Inr _, p) \<Rightarrow> q\<lparr>qy_answers := p, qy_next_seq := sat_add u64_max (qy_next_seq q) 1\<rparr>
        | (Inl _, p) \<Rightarrow> q\<lparr>qy_answers := p\<rparr>)"
proof -
  have k: "(case (if folded = owned then None else Some folded) of Some k \<Rightarrow> k | None \<Rightarrow> owned) = folded" by simp
  show ?thesis
    unfolding collect_answer_def Let_def k list_ex_iff new_answer_def same_answer_id
    by (auto simp: image_iff)
qed

lemma oldest_Some:
  "oldest as v = Some (k, s) \<Longrightarrow>
     (v = Some (k, s) \<or> (\<exists>a. (k, a) \<in> set as \<and> an_seq a = s)) \<and>
     (\<forall>(j, a)\<in>set as. s \<le> an_seq a) \<and> (\<forall>j u. v = Some (j, u) \<longrightarrow> s \<le> u)"
proof (induction as v rule: oldest.induct)
  case (2 key a as v)
  show ?case
  proof (cases v)
    case None
    with 2 show ?thesis by fastforce
  next
    case (Some ju)
    obtain j u where ju: "ju = (j, u)" by (cases ju)
    with 2 Some show ?thesis by (cases "u \<le> an_seq a") (fastforce+)
  qed
qed simp

lemma oldest_None: "oldest as v = None \<longleftrightarrow> as = [] \<and> v = None"
  by (induction as v rule: oldest.induct) (auto split: option.splits if_splits)

locale answer_store = pool ops pinv for ops :: "(collected_answer, 'p, 'e) pool_ops" and pinv :: "'p \<Rightarrow> bool"
begin

definition distinct_ids :: "'p \<Rightarrow> bool" where
  "distinct_ids p \<longleftrightarrow> inj_on (map_option answer_id \<circ> pmap ops p) (dom (pmap ops p))"

lemma distinct_ids_iff:
  "distinct_ids p \<longleftrightarrow>
     (\<forall>k j a b. pmap ops p k = Some a \<longrightarrow> pmap ops p j = Some b \<longrightarrow> answer_id a = answer_id b \<longrightarrow> k = j)"
  by (fastforce simp: distinct_ids_def inj_on_def dom_def)

lemma distinct_ids_list:
  assumes "pinv p"
  shows "distinct_ids p \<longleftrightarrow> distinct (map answer_id (map snd (pl_iter ops p)))"
proof -
  note d = iter_distinct [OF assms]
  have "distinct (map answer_id (map snd (pl_iter ops p))) \<longleftrightarrow> inj_on (answer_id \<circ> snd) (set (pl_iter ops p))"
    using d by (auto simp: distinct_map comp_def)
  also have "\<dots> \<longleftrightarrow> distinct_ids p"
    by (fastforce simp: distinct_ids_iff inj_on_def mem_iter [OF assms, symmetric] eq_key_imp_eq_value [OF d])
  finally show ?thesis by simp
qed

lemma evict_oldest_map:
  assumes "pinv p"
  shows "pinv (evict_oldest ops p) \<and>
    (pl_len ops p = 0 \<and> evict_oldest ops p = p \<or>
     (\<exists>k v. pmap ops p k = Some v \<and> pmap ops (evict_oldest ops p) = (pmap ops p)(k := None) \<and>
        (\<forall>a\<in>ran (pmap ops p). an_seq v \<le> an_seq a) \<and> Suc (pl_len ops (evict_oldest ops p)) = pl_len ops p))"
proof (cases "oldest (pl_iter ops p) None")
  case None
  then show ?thesis using assms by (simp add: evict_oldest_def oldest_None len_iter)
next
  case (Some ks)
  obtain k s where ks: "ks = (k, s)" by (cases ks)
  from oldest_Some [OF Some [unfolded ks]] obtain v where v: "pmap ops p k = Some v" "an_seq v = s"
    "\<forall>(j, a)\<in>set (pl_iter ops p). s \<le> an_seq a"
    by (auto simp: mem_iter [OF assms])
  obtain r p' where r: "pl_remove ops p k = (r, p')" by (cases "pl_remove ops p k")
  note rm = remove_map [OF assms r] and rl = remove_len [OF assms r]
  have "k \<in> dom (pmap ops p)" using v(1) by blast
  moreover have "0 < pl_len ops p"
    using \<open>k \<in> dom (pmap ops p)\<close> finite_pool(1) [of p] by (auto simp: len_card [OF assms] card_gt_0_iff)
  moreover have "\<forall>a\<in>ran (pmap ops p). an_seq v \<le> an_seq a"
    using v(2,3) by (auto simp: ran_set [OF assms])
  ultimately show ?thesis using rm rl r Some ks v(1) by (auto simp: evict_oldest_def)
qed

lemma ran_minus: "distinct_ids p \<Longrightarrow> pmap ops p k = Some v \<Longrightarrow> ran ((pmap ops p)(k := None)) = ran (pmap ops p) - {v}"
  unfolding distinct_ids_iff by (auto simp: ran_def split: if_splits) (metis option.inject)

text \<open>
  What collecting one answer does to the store: nothing when its identity is held or the cap is zero,
  and otherwise it is added, at the price of the oldest answer when there was no room.
\<close>

lemma collect_answer_store:
  assumes "pinv (qy_answers q)" "distinct_ids (qy_answers q)"
  shows "let q' = collect_answer ops t c owned folded q; p = qy_answers q; A = answer_set ops q;
             new = new_answer t c owned folded (qy_next_seq q);
             held = (\<exists>a\<in>A. answer_id a = (t, c, folded));
             room = (pl_len ops p < qy_max_answers q \<and> is_ok (pl_vacant ops p)) in
    pinv (qy_answers q') \<and> distinct_ids (qy_answers q') \<and>
    (pl_len ops p \<le> qy_max_answers q \<longrightarrow> pl_len ops (qy_answers q') \<le> qy_max_answers q) \<and>
    (held \<or> qy_max_answers q = 0 \<longrightarrow> q' = q) \<and>
    (\<not> held \<and> qy_max_answers q \<noteq> 0 \<longrightarrow>
       (\<exists>V\<subseteq>A. card V \<le> 1 \<and> finite V \<and> (room \<longrightarrow> V = {}) \<and> (\<forall>v\<in>V. \<forall>a\<in>A. an_seq v \<le> an_seq a) \<and>
          (q' = q\<lparr>qy_answers := qy_answers q', qy_next_seq := sat_add u64_max (qy_next_seq q) 1\<rparr> \<and>
             answer_set ops q' = insert new (A - V) \<or>
           \<not> room \<and> q' = q\<lparr>qy_answers := qy_answers q'\<rparr> \<and> answer_set ops q' = A - V)))"
proof -
  let ?p = "qy_answers q" and ?new = "new_answer t c owned folded (qy_next_seq q)"
  let ?room = "pl_len ops ?p < qy_max_answers q \<and> is_ok (pl_vacant ops ?p)"
  have img: "snd ` set (pl_iter ops ?p) = answer_set ops q" by (simp add: answer_set_def ran_set [OF assms(1)])
  show ?thesis
  proof (cases "(\<exists>a\<in>answer_set ops q. answer_id a = (t, c, folded)) \<or> qy_max_answers q = 0")
    case True
    then have "collect_answer ops t c owned folded q = q" by (auto simp: collect_answer_eq img)
    then show ?thesis unfolding Let_def using assms True by (intro conjI impI) simp_all
  next
    case fresh: False
    define s where "s = (if ?room then ?p else evict_oldest ops ?p)"
    obtain V where V: "V \<subseteq> answer_set ops q" "card V \<le> 1" "finite V" "?room \<longrightarrow> V = {}"
        "\<forall>v\<in>V. \<forall>a\<in>answer_set ops q. an_seq v \<le> an_seq a"
      and s: "pinv s" "distinct_ids s" "ran (pmap ops s) = answer_set ops q - V"
        "pl_len ops ?p \<le> qy_max_answers q \<longrightarrow> pl_len ops s < qy_max_answers q"
    proof (cases ?room)
      case True
      then show ?thesis using that [of "{}"] assms by (simp add: s_def answer_set_def)
    next
      case False
      from evict_oldest_map [OF assms(1)] show ?thesis
      proof (elim conjE disjE exE)
        assume "pinv (evict_oldest ops ?p)" "pl_len ops ?p = 0" "evict_oldest ops ?p = ?p"
        then show ?thesis using that [of "{}"] assms fresh False by (auto simp: s_def answer_set_def)
      next
        fix k v assume e: "pinv (evict_oldest ops ?p)" "pmap ops ?p k = Some v"
          "pmap ops (evict_oldest ops ?p) = (pmap ops ?p)(k := None)"
          "\<forall>a\<in>ran (pmap ops ?p). an_seq v \<le> an_seq a" "Suc (pl_len ops (evict_oldest ops ?p)) = pl_len ops ?p"
        have "distinct_ids (evict_oldest ops ?p)" using assms(2) e(3) by (auto simp: distinct_ids_iff split: if_splits)
        moreover have "v \<in> answer_set ops q" using e(2) by (auto simp: answer_set_def ran_def)
        ultimately show ?thesis
          using that [of "{v}"] e ran_minus [OF assms(2) e(2)] False by (auto simp: s_def answer_set_def)
      qed
    qed
    have q': "collect_answer ops t c owned folded q = (case pl_insert ops s ?new of
        (Inr _, p) \<Rightarrow> q\<lparr>qy_answers := p, qy_next_seq := sat_add u64_max (qy_next_seq q) 1\<rparr>
      | (Inl _, p) \<Rightarrow> q\<lparr>qy_answers := p\<rparr>)"
      using fresh by (auto simp: collect_answer_eq img s_def Let_def not_less)
    obtain r p' where ins: "pl_insert ops s ?new = (r, p')" by (cases "pl_insert ops s ?new")
    show ?thesis
    proof (cases r)
      case (Inl e)
      have "\<not> ?room"
      proof
        assume ?room
        then show False using vacant_insert [OF assms(1), of ?new] ins Inl by (simp add: s_def is_ok_def)
      qed
      moreover have "p' = s" using insert_Inl [OF s(1)] ins Inl by blast
      ultimately show ?thesis using fresh V s q' ins Inl
        by (auto simp: Let_def answer_set_def intro!: exI [of _ V])
    next
      case (Inr k)
      note i = insert_Inr [OF s(1) ins [unfolded Inr]]
      have "ran (pmap ops p') = insert ?new (answer_set ops q - V)"
        using i s(3) by (simp add: ran_map_upd domIff)
      moreover have "distinct_ids p'"
        unfolding distinct_ids_iff
      proof (intro allI impI)
        fix k1 k2 a b assume ab: "pmap ops p' k1 = Some a" "pmap ops p' k2 = Some b" "answer_id a = answer_id b"
        have "answer_id x \<noteq> (t, c, folded)" if "pmap ops s j = Some x" for j x
          using that s(3) fresh by (auto simp: ran_def set_eq_iff)
        note fresh_id = this
        show "k1 = k2"
        proof (cases "k1 = k \<or> k2 = k")
          case True
          then show ?thesis using ab i fresh_id [of k1 a] fresh_id [of k2 b] by (auto split: if_splits)
        next
          case False
          then show ?thesis using ab i s(2) by (auto simp: distinct_ids_iff)
        qed
      qed
      moreover have "pl_len ops p' = Suc (pl_len ops s)" using insert_len [OF s(1)] ins Inr by blast
      ultimately show ?thesis using fresh V s(4) q' ins Inr i
        by (auto simp: Let_def answer_set_def intro!: exI [of _ V])
    qed
  qed
qed

end

interpretation slab_answers: answer_store list_slab "\<lambda>p. distinct (map fst p)"
  by unfold_locales

end
