(* ===== verification/QueryLife.thy ===== *)
theory QueryLife
  imports Query
begin

text \<open>
  The life of a query: its operations as a step relation, the invariant every reachable state
  satisfies, the caller's window, the frozen terminal, and the bound on the questions it asks.
\<close>

subsection \<open>Steps\<close>

inductive query_step ::
  "'i :: linorder clock \<Rightarrow> ('an, 'e) answer_pool \<Rightarrow> ('ev, 'f) update_pool \<Rightarrow>
     ('i, 'an, 'ev) query \<Rightarrow> ('i, 'an, 'ev) query \<Rightarrow> bool"
  for clk an ev where
    step_event: "query_step clk an ev q (query_handle_event an event now q)"
  | step_tick: "query_step clk an ev q (snd (query_handle_timeout ev now q))"
  | step_retire: "query_step clk an ev q (retire ev q)"
  | step_send: "query_step clk an ev q (snd (snd (query_poll_transmit reading buf q)))"
  | step_confirm: "query_step clk an ev q (snd (query_note_transmit_outcome clk now v4 v6 q))"
  | step_duplicate: "query_step clk an ev q (snd (note_duplicate_question clk ev now q))"
  | step_poll: "query_step clk an ev q (snd (query_poll ev q))"
  | step_emitted: "query_step clk an ev q (mark_terminal_emitted q)"

inductive_cases query_stepE: "query_step clk an ev q q'"

subsection \<open>The control state\<close>

text \<open>
  A live query is in one of three phases: a question is due, a question awaits its confirm, or the next
  one is scheduled.  The budget is never exceeded by a question that may still be asked.
\<close>

definition control_ok :: "('i, 'an, 'ev) query \<Rightarrow> bool" where
  "control_ok q \<longleftrightarrow>
     (qy_done q \<longrightarrow> \<not> qy_transmit_pending q \<and> qy_next_deadline q = None \<and> qy_timeout_deadline q = None) \<and>
     (qy_transmit_pending q \<longrightarrow>
        \<not> qy_awaiting_send_confirm q \<and> qy_next_deadline q = None \<and> qy_retry_count q \<le> MAX_RETRIES) \<and>
     (qy_awaiting_send_confirm q \<longrightarrow> qy_next_deadline q = None \<and> qy_retry_count q \<le> MAX_RETRIES) \<and>
     qy_retry_count q \<le> MAX_RETRIES + (if qy_done q then 2 else 1)"

lemma collect_answer_control [simp]:
  "qy_done (collect_answer an t c owned folded q) = qy_done q"
  "qy_transmit_pending (collect_answer an t c owned folded q) = qy_transmit_pending q"
  "qy_awaiting_send_confirm (collect_answer an t c owned folded q) = qy_awaiting_send_confirm q"
  "qy_next_deadline (collect_answer an t c owned folded q) = qy_next_deadline q"
  "qy_timeout_deadline (collect_answer an t c owned folded q) = qy_timeout_deadline q"
  "qy_retry_count (collect_answer an t c owned folded q) = qy_retry_count q"
  "qy_pending_updates (collect_answer an t c owned folded q) = qy_pending_updates q"
  "qy_max_answers (collect_answer an t c owned folded q) = qy_max_answers q"
  "qy_qtype (collect_answer an t c owned folded q) = qy_qtype q"
  "qy_qclass (collect_answer an t c owned folded q) = qy_qclass q"
  by (auto simp: collect_answer_def Let_def split: prod.splits sum.splits)

lemma handle_event_result:
  "query_handle_event an event now q = q \<or>
   (\<not> qy_done q \<and> \<not> caller_window_shut now q \<and>
    (\<exists>t c owned folded. query_handle_event an event now q = collect_answer an t c owned folded q \<and>
       (qy_qtype q = RT_Any \<or> t = qy_qtype q) \<and> (qy_qclass q = Class_Any \<or> c = qy_qclass q)))"
proof (cases event)
  case Truncated
  then show ?thesis by (simp add: query_handle_event_def)
next
  case (Answer r)
  show ?thesis
  proof (cases "canonical_rdata r")
    case (Inr owned)
    show ?thesis
    proof (cases "canonical_rdata_folded r")
      case folded: (Inr folded)
      show ?thesis
        by (simp add: query_handle_event_def Answer Inr folded) blast
    next
      case (Inl e)
      then show ?thesis using Inr by (simp add: query_handle_event_def Answer)
    qed
  next
    case (Inl e)
    then show ?thesis by (simp add: query_handle_event_def Answer)
  qed
qed

lemma handle_event_cases:
  obtains "query_handle_event an event now q = q"
  | t c owned folded where "\<not> qy_done q" "\<not> caller_window_shut now q"
      "query_handle_event an event now q = collect_answer an t c owned folded q"
      "qy_qtype q = RT_Any \<or> t = qy_qtype q" "qy_qclass q = Class_Any \<or> c = qy_qclass q"
  using handle_event_result [of an event now q] by blast

text \<open>The fields an operation other than an answer leaves alone.\<close>

lemma terminate_simps [simp]:
  "qy_done (terminate ev u q)" "qy_answers (terminate ev u q) = qy_answers q"
  "qy_retry_count (terminate ev u q) = qy_retry_count q" "qy_max_answers (terminate ev u q) = qy_max_answers q"
  "qy_next_seq (terminate ev u q) = qy_next_seq q" "qy_qtype (terminate ev u q) = qy_qtype q"
  "qy_qclass (terminate ev u q) = qy_qclass q"
  "qy_awaiting_send_confirm (terminate ev u q) = qy_awaiting_send_confirm q"
  by (auto simp: terminate_def)

lemma control_terminate: "control_ok q \<Longrightarrow> control_ok (terminate ev u q)"
  by (auto simp: control_ok_def terminate_def split: if_splits)

lemma control_arm:
  "control_ok q \<Longrightarrow> qy_next_deadline q = Some due \<Longrightarrow> \<not> MAX_RETRIES < qy_retry_count q \<Longrightarrow>
     control_ok (q\<lparr>qy_transmit_pending := True, qy_next_deadline := None\<rparr>)"
  by (auto simp: control_ok_def)

lemma control_step: "query_step clk an ev q q' \<Longrightarrow> control_ok q \<Longrightarrow> control_ok q'"
proof (erule query_stepE)
  fix event now assume "control_ok q" "q' = query_handle_event an event now q"
  then show "control_ok q'" by (cases rule: handle_event_cases [of an event now q]) (auto simp: control_ok_def)
next
  fix now assume "control_ok q" "q' = snd (query_handle_timeout ev now q)"
  then show "control_ok q'"
    by (auto simp: query_handle_timeout_def intro: control_terminate control_arm split: option.splits)
next
  assume "control_ok q" "q' = retire ev q"
  then show "control_ok q'" by (simp add: retire_def control_terminate)
next
  fix reading buf assume "control_ok q" "q' = snd (snd (query_poll_transmit reading buf q))"
  then show "control_ok q'"
    by (auto simp: query_poll_transmit_def control_ok_def split: prod.splits sum.splits if_splits)
next
  fix now v4 v6 assume "control_ok q" "q' = snd (query_note_transmit_outcome clk now v4 v6 q)"
  then show "control_ok q'"
    by (auto simp: query_note_transmit_outcome_def control_ok_def Let_def sat_add_def split: prod.splits if_splits)
next
  fix now assume q: "control_ok q" "q' = snd (note_duplicate_question clk ev now q)"
  then show "control_ok q'"
    by (auto simp: note_duplicate_question_def control_ok_def Let_def sat_add_def terminate_def
        split: prod.splits if_splits option.splits)
next
  assume "control_ok q" "q' = snd (query_poll ev q)"
  then show "control_ok q'" by (auto simp: query_poll_def control_ok_def split: list.splits prod.splits)
next
  assume "control_ok q" "q' = mark_terminal_emitted q"
  then show "control_ok q'" by (simp add: mark_terminal_emitted_def control_ok_def)
qed


subsection \<open>The stores\<close>

definition store_ok ::
  "('an, 'e) answer_pool \<Rightarrow> ('an \<Rightarrow> bool) \<Rightarrow> ('ev, 'f) update_pool \<Rightarrow> ('ev \<Rightarrow> bool) \<Rightarrow> ('i, 'an, 'ev) query \<Rightarrow> bool" where
  "store_ok an apinv ev epinv q \<longleftrightarrow>
     apinv (qy_answers q) \<and> epinv (qy_pending_updates q) \<and>
     length (collected_answers an q) \<le> qy_max_answers q \<and>
     distinct (map answer_id (collected_answers an q)) \<and>
     (\<forall>a\<in>set (collected_answers an q).
        (qy_qtype q = RT_Any \<or> an_rtype a = qy_qtype q) \<and> (qy_qclass q = Class_Any \<or> an_rclass a = qy_qclass q)) \<and>
     (qy_next_seq q < u64_max \<longrightarrow>
        inj_on an_seq (set (collected_answers an q)) \<and> (\<forall>a\<in>set (collected_answers an q). an_seq a < qy_next_seq q)) \<and>
     length (pl_iter ev (qy_pending_updates q)) \<le> (if qy_done q then 1 else 0)"

lemma set_collected: "pool an apinv \<Longrightarrow> apinv (qy_answers q) \<Longrightarrow> set (collected_answers an q) = answer_set an q"
  by (simp add: collected_answers_def answer_set_def pool.ran_set)

lemma store_same:
  "qy_answers q' = qy_answers q \<Longrightarrow> qy_pending_updates q' = qy_pending_updates q \<Longrightarrow> qy_max_answers q' = qy_max_answers q \<Longrightarrow>
   qy_qtype q' = qy_qtype q \<Longrightarrow> qy_qclass q' = qy_qclass q \<Longrightarrow> qy_next_seq q' = qy_next_seq q \<Longrightarrow>
   qy_done q' = qy_done q \<Longrightarrow> store_ok an apinv ev epinv q' = store_ok an apinv ev epinv q"
  by (simp add: store_ok_def collected_answers_def)

lemma store_terminate:
  assumes "pool ev epinv" "store_ok an apinv ev epinv q"
  shows "store_ok an apinv ev epinv (terminate ev u q)"
proof (cases "qy_done q")
  case True
  then show ?thesis using assms(2) by (simp add: terminate_def)
next
  case False
  let ?p = "qy_pending_updates q"
  have p: "epinv ?p" "pl_iter ev ?p = []" using assms(2) False by (simp_all add: store_ok_def)
  obtain r p' where r: "pl_insert ev ?p u = (r, p')" by (cases "pl_insert ev ?p u")
  have "epinv p' \<and> length (pl_iter ev p') \<le> 1"
  proof (cases r)
    case (Inl e)
    then show ?thesis using pool.insert_Inl [OF assms(1) p(1), of u e p'] r p by simp
  next
    case (Inr k)
    then show ?thesis
      using pool.insert_Inr [OF assms(1) p(1), of u k p'] pool.insert_len [OF assms(1) p(1), of u k p']
        pool.len_iter [OF assms(1)] r p by simp
  qed
  then show ?thesis using assms(2) False r by (simp add: terminate_def store_ok_def collected_answers_def)
qed

lemma store_collect:
  assumes "pool an apinv" "store_ok an apinv ev epinv q"
    and "qy_qtype q = RT_Any \<or> t = qy_qtype q" "qy_qclass q = Class_Any \<or> c = qy_qclass q"
  shows "store_ok an apinv ev epinv (collect_answer an t c owned folded q)" (is "store_ok _ _ _ _ ?q'")
proof -
  note st = answer_store.intro [OF assms(1)]
  have inv: "apinv (qy_answers q)" using assms(2) by (simp add: store_ok_def)
  have ids: "answer_store.distinct_ids an (qy_answers q)"
    using assms(2) answer_store.distinct_ids_list [OF st inv] by (simp add: store_ok_def collected_answers_def)
  let ?new = "new_answer t c owned folded (qy_next_seq q)"
  note sp = answer_store.collect_answer_store [OF st inv ids, of t c owned folded, unfolded Let_def]
  have inv': "apinv (qy_answers ?q')" and ids': "distinct (map answer_id (collected_answers an ?q'))"
    using sp [THEN conjunct1] answer_store.distinct_ids_list [OF st sp [THEN conjunct1]]
      sp [THEN conjunct2, THEN conjunct1] by (simp_all add: collected_answers_def)
  have len': "length (collected_answers an ?q') \<le> qy_max_answers q"
    using sp [THEN conjunct2, THEN conjunct2, THEN conjunct1] assms(2) pool.len_iter [OF assms(1) inv]
      pool.len_iter [OF assms(1) inv'] by (simp add: collected_answers_def store_ok_def)
  have set: "set (collected_answers an ?q') = answer_set an ?q'" "set (collected_answers an q) = answer_set an q"
    using set_collected [OF assms(1)] inv inv' by blast+
  have new: "an_rtype ?new = t" "an_rclass ?new = c" by (simp_all add: new_answer_def)
  consider "?q' = q" | "answer_set an ?q' \<subseteq> answer_set an q" "qy_next_seq ?q' = qy_next_seq q"
    | "answer_set an ?q' \<subseteq> insert ?new (answer_set an q)" "qy_next_seq ?q' = sat_add u64_max (qy_next_seq q) 1"
  proof -
    note r = that
    show thesis
    proof (cases "(\<exists>a\<in>answer_set an q. answer_id a = (t, c, folded)) \<or> qy_max_answers q = 0")
      case True
      then show thesis using r(1) sp by blast
    next
      case False
      then obtain V where V: "?q' = q\<lparr>qy_answers := qy_answers ?q', qy_next_seq := sat_add u64_max (qy_next_seq q) 1\<rparr> \<and>
             answer_set an ?q' = insert ?new (answer_set an q - V) \<or>
           ?q' = q\<lparr>qy_answers := qy_answers ?q'\<rparr> \<and> answer_set an ?q' = answer_set an q - V"
        using sp by blast
      then show thesis
      proof
        assume v: "?q' = q\<lparr>qy_answers := qy_answers ?q', qy_next_seq := sat_add u64_max (qy_next_seq q) 1\<rparr> \<and>
             answer_set an ?q' = insert ?new (answer_set an q - V)"
        then have "qy_next_seq ?q' = sat_add u64_max (qy_next_seq q) 1"
          by (metis query.select_convs(13) query.surjective query.update_convs(13))
        with v show thesis by (intro r(3)) auto
      next
        assume v: "?q' = q\<lparr>qy_answers := qy_answers ?q'\<rparr> \<and> answer_set an ?q' = answer_set an q - V"
        then have "qy_next_seq ?q' = qy_next_seq q"
          by (metis query.select_convs(13) query.surjective query.update_convs(8))
        with v show thesis by (intro r(2)) auto
      qed
    qed
  qed
  then show ?thesis
  proof cases
    case 1
    then show ?thesis using assms(2) by simp
  next
    case 2
    then show ?thesis using assms(2) inv' ids' len' set by (auto simp: store_ok_def intro: inj_on_subset)
  next
    case 3
    have old: "\<forall>a\<in>answer_set an q. (qy_qtype q = RT_Any \<or> an_rtype a = qy_qtype q) \<and>
        (qy_qclass q = Class_Any \<or> an_rclass a = qy_qclass q)"
      using assms(2) set(2) by (simp add: store_ok_def)
    have "inj_on an_seq (answer_set an ?q') \<and> (\<forall>a\<in>answer_set an ?q'. an_seq a < qy_next_seq ?q')"
      if "qy_next_seq ?q' < u64_max"
    proof -
      from that 3(2) have n: "qy_next_seq q < u64_max" "qy_next_seq ?q' = Suc (qy_next_seq q)"
        by (auto simp: sat_add_def min_def split: if_splits)
      with assms(2) set(2) have o: "inj_on an_seq (answer_set an q)" "\<forall>a\<in>answer_set an q. an_seq a < qy_next_seq q"
        by (simp_all add: store_ok_def)
      have "inj_on an_seq (insert ?new (answer_set an q))" using o by (fastforce simp: inj_on_insert)
      then have "inj_on an_seq (answer_set an ?q')" by (rule inj_on_subset [OF _ 3(1)])
      then show ?thesis using o n(2) 3(1) by (auto simp: less_Suc_eq)
    qed
    moreover have "\<forall>a\<in>answer_set an ?q'. (qy_qtype q = RT_Any \<or> an_rtype a = qy_qtype q) \<and>
        (qy_qclass q = Class_Any \<or> an_rclass a = qy_qclass q)"
      using old assms(3,4) 3(1) new by (metis insert_iff subset_iff)
    ultimately show ?thesis using assms(2) inv' ids' len' by (simp add: store_ok_def set)
  qed
qed


lemma poll_store:
  assumes "pool ev epinv" "store_ok an apinv ev epinv q"
  shows "store_ok an apinv ev epinv (snd (query_poll ev q))"
proof (cases "pl_iter ev (qy_pending_updates q)")
  case Nil
  then show ?thesis using assms(2) by (simp add: query_poll_def)
next
  case (Cons ku us)
  obtain k u where ku: "ku = (k, u)" by (cases ku)
  have p: "epinv (qy_pending_updates q)" using assms(2) by (simp add: store_ok_def)
  obtain r p' where r: "pl_remove ev (qy_pending_updates q) k = (r, p')"
    by (cases "pl_remove ev (qy_pending_updates q) k")
  have "epinv p' \<and> length (pl_iter ev p') \<le> length (pl_iter ev (qy_pending_updates q))"
    using pool.remove_map [OF assms(1) p r] pool.remove_len [OF assms(1) p r] pool.len_iter [OF assms(1)] p
    by (auto split: if_splits)
  then show ?thesis using assms(2) r Cons ku by (auto simp: query_poll_def store_ok_def collected_answers_def)
qed

lemma store_step:
  assumes "pool an apinv" "pool ev epinv"
  shows "query_step clk an ev q q' \<Longrightarrow> store_ok an apinv ev epinv q \<Longrightarrow> store_ok an apinv ev epinv q'"
proof (erule query_stepE)
  note t = store_terminate [OF assms(2), where an = an and apinv = apinv]
  assume ok: "store_ok an apinv ev epinv q"
  have same: "store_ok an apinv ev epinv q'"
    if "qy_answers q' = qy_answers q" "qy_pending_updates q' = qy_pending_updates q" "qy_max_answers q' = qy_max_answers q"
      "qy_qtype q' = qy_qtype q" "qy_qclass q' = qy_qclass q" "qy_next_seq q' = qy_next_seq q" "qy_done q' = qy_done q" for q'
    using store_same [OF that] ok by blast
  { fix event now assume "q' = query_handle_event an event now q"
    then show "store_ok an apinv ev epinv q'" using ok store_collect [OF assms(1) ok]
      by (cases rule: handle_event_cases [of an event now q]) auto }
  { fix now assume "q' = snd (query_handle_timeout ev now q)"
    then show "store_ok an apinv ev epinv q'" using ok
      by (auto simp: query_handle_timeout_def intro: t same split: option.splits) }
  { assume "q' = retire ev q"
    then show "store_ok an apinv ev epinv q'" using ok by (simp add: retire_def t) }
  { fix reading buf assume "q' = snd (snd (query_poll_transmit reading buf q))"
    then show "store_ok an apinv ev epinv q'"
      by (intro same) (auto simp: query_poll_transmit_def split: prod.splits sum.splits option.splits) }
  { fix now v4 v6 assume "q' = snd (query_note_transmit_outcome clk now v4 v6 q)"
    then show "store_ok an apinv ev epinv q'"
      by (intro same) (auto simp: query_note_transmit_outcome_def Let_def split: prod.splits) }
  { fix now assume q': "q' = snd (note_duplicate_question clk ev now q)"
    have "store_ok an apinv ev epinv (q\<lparr>qy_transmit_pending := False,
        qy_retry_count := n, qy_partial_send_streak := 0, qy_partial_rounds := r\<rparr>)" for n r
      by (rule same) simp_all
    from t [OF this] q' show "store_ok an apinv ev epinv q'" using ok
      by (auto simp: note_duplicate_question_def Let_def intro: same) }
  { assume "q' = snd (query_poll ev q)"
    then show "store_ok an apinv ev epinv q'" using poll_store [OF assms(2) ok] by simp }
  { assume "q' = mark_terminal_emitted q"
    then show "store_ok an apinv ev epinv q'" by (intro same) (simp_all add: mark_terminal_emitted_def) }
qed

subsection \<open>What every reachable query satisfies\<close>

lemma step_fields:
  "query_step clk an ev q q' \<Longrightarrow> qy_qtype q' = qy_qtype q \<and> qy_qclass q' = qy_qclass q \<and>
     qy_max_answers q' = qy_max_answers q \<and> (qy_done q \<longrightarrow> qy_done q')"
proof (erule query_stepE)
  fix event now assume "q' = query_handle_event an event now q"
  then show ?thesis by (cases rule: handle_event_cases [of an event now q]) auto
qed (auto simp: query_handle_timeout_def retire_def query_poll_transmit_def query_note_transmit_outcome_def
    note_duplicate_question_def query_poll_def mark_terminal_emitted_def Let_def
    split: option.splits prod.splits sum.splits list.splits)

lemma reachable_ok:
  assumes "pool an apinv" "pool ev epinv"
  shows "(query_step clk an ev)\<^sup>*\<^sup>* q q' \<Longrightarrow> control_ok q \<Longrightarrow> store_ok an apinv ev epinv q \<Longrightarrow>
     control_ok q' \<and> store_ok an apinv ev epinv q' \<and> qy_qtype q' = qy_qtype q \<and> qy_qclass q' = qy_qclass q \<and>
     qy_max_answers q' = qy_max_answers q"
  by (induction rule: rtranclp_induct) (auto dest: control_step store_step [OF assms] step_fields)

lemma new_query_ok:
  assumes "pool an apinv" "pool ev epinv"
  shows "control_ok (with_max_answers m (query_try_new an ev h n t c x u td))"
    "store_ok an apinv ev epinv (with_max_answers m (query_try_new an ev h n t c x u td))"
  using pool.new_inv [OF assms(1)] pool.new_inv [OF assms(2)] pool.new_iter [OF assms(1)] pool.new_iter [OF assms(2)]
  by (simp_all add: control_ok_def store_ok_def with_max_answers_def query_try_new_def collected_answers_def)

text \<open>
  C12. The invariant of a query.  Whatever calls reach it in whatever order, over any pools that keep
  their contract: the answers stay within the cap, are pairwise distinct as records (type, class and
  case-folded RDATA), all match the question's type and class, and carry distinct sequence numbers
  below the next one (until the 64-bit counter saturates); at most one terminal update is queued, and
  none before the query is done; a finished query has nothing due; and a live query is in just one of
  its three phases, question due, confirm awaited, or retry scheduled, with its budget respected.
\<close>
theorem query_invariant:
  assumes "pool an apinv" "pool ev epinv"
    and "(query_step clk an ev)\<^sup>*\<^sup>* (with_max_answers m (query_try_new an ev h n t c x u td)) q"
  shows "length (collected_answers an q) \<le> m \<and> distinct (map answer_id (collected_answers an q)) \<and>
    (\<forall>a\<in>set (collected_answers an q). (t = RT_Any \<or> an_rtype a = t) \<and> (c = Class_Any \<or> an_rclass a = c)) \<and>
    (qy_next_seq q < u64_max \<longrightarrow> inj_on an_seq (set (collected_answers an q)) \<and>
       (\<forall>a\<in>set (collected_answers an q). an_seq a < qy_next_seq q)) \<and>
    length (pl_iter ev (qy_pending_updates q)) \<le> (if qy_done q then 1 else 0) \<and>
    (qy_done q \<longrightarrow> \<not> qy_transmit_pending q \<and> query_poll_timeout q = None) \<and>
    \<not> (qy_transmit_pending q \<and> qy_awaiting_send_confirm q) \<and>
    (qy_transmit_pending q \<or> qy_awaiting_send_confirm q \<longrightarrow>
       qy_next_deadline q = None \<and> qy_retry_count q \<le> MAX_RETRIES) \<and>
    (\<not> qy_done q \<longrightarrow> qy_retry_count q \<le> MAX_RETRIES + 1)"
proof -
  let ?q0 = "with_max_answers m (query_try_new an ev h n t c x u td)"
  have f: "qy_qtype ?q0 = t" "qy_qclass ?q0 = c" "qy_max_answers ?q0 = m"
    by (simp_all add: with_max_answers_def query_try_new_def)
  have c: "control_ok q" and s: "store_ok an apinv ev epinv q" and "qy_qtype q = t" "qy_qclass q = c"
    "qy_max_answers q = m"
    using reachable_ok [OF assms new_query_ok [OF assms(1,2)]] f by auto
  then show ?thesis
    using s c unfolding store_ok_def control_ok_def by (simp add: query_poll_timeout_def) auto
qed

text \<open>A concrete life: two addresses collected under a cap of one.\<close>

definition sample_answer :: "bytes \<Rightarrow> record_ref" where
  "sample_answer addr = \<lparr>rr_message = addr, rr_name = \<lparr>nr_message = addr, nr_start = 0\<rparr>, rr_rtype = RT_A,
     rr_rclass = Class_In, rr_cache_flush = True, rr_ttl = 120, rdata_start = 0, rdata_len = length addr\<rparr>"

definition sample_query ::
  "(smoltcp_instant, (nat \<times> collected_answer) list, (nat \<times> query_update) list) query" where
  "sample_query = query_try_new list_slab list_slab (QueryHandle 1) (Name [97]) RT_A Class_In 7 False
     (Some (SmoltcpInstant 5000000))"

lemma slab_pools:
  "pool (list_slab :: ('v, (nat \<times> 'v) list, unit) pool_ops) (\<lambda>p. distinct (map fst p))"
  by (rule list_slab.pool_axioms)

lemma query_invariant_witness:
  "let q = query_handle_event list_slab (Answer (sample_answer [5, 6, 7, 8])) (SmoltcpInstant 2)
             (query_handle_event list_slab (Answer (sample_answer [1, 2, 3, 4])) (SmoltcpInstant 1)
               (with_max_answers 1 sample_query)) in
   length (collected_answers list_slab q) \<le> 1 \<and> map an_rdata (collected_answers list_slab q) = [[5, 6, 7, 8]]"
proof -
  let ?q0 = "with_max_answers 1 sample_query"
  let ?q1 = "query_handle_event list_slab (Answer (sample_answer [1, 2, 3, 4])) (SmoltcpInstant 1) ?q0"
  let ?q2 = "query_handle_event list_slab (Answer (sample_answer [5, 6, 7, 8])) (SmoltcpInstant 2) ?q1"
  have "(query_step smoltcp_clock list_slab list_slab)\<^sup>*\<^sup>* ?q0 ?q2"
    by (rule rtranclp_trans [OF r_into_rtranclp r_into_rtranclp]; rule step_event)
  from query_invariant [OF slab_pools slab_pools this [unfolded sample_query_def]]
  have "length (collected_answers list_slab ?q2) \<le> 1" by (simp add: sample_query_def)
  moreover have "map an_rdata (collected_answers list_slab ?q2) = [[5, 6, 7, 8]]" by code_simp
  ultimately show ?thesis unfolding Let_def by blast
qed

lemma done_step:
  "query_step clk an ev q q' \<Longrightarrow> qy_done q \<Longrightarrow> qy_done q' \<and> qy_answers q' = qy_answers q \<and>
     qy_next_seq q' = qy_next_seq q \<and> qy_next_deadline q' = qy_next_deadline q \<and>
     qy_timeout_deadline q' = qy_timeout_deadline q"
proof (erule query_stepE)
  fix now v4 v6 assume "qy_done q" "q' = snd (query_note_transmit_outcome clk now v4 v6 q)"
  then show ?thesis by (cases "qy_awaiting_send_confirm q") (simp_all add: query_note_transmit_outcome_def Let_def)
next
  assume "qy_done q" "q' = snd (query_poll ev q)"
  then show ?thesis by (simp add: query_poll_def split: list.splits prod.splits)
qed (simp_all add: query_handle_event_def query_handle_timeout_def retire_def terminate_def
    query_poll_transmit_def note_duplicate_question_def mark_terminal_emitted_def)

text \<open>
  C36. Nothing moves after the end.  Once a query has terminated, by its timer, its budget or the driver,
  no call in any order revives it: it stays done with the same answers, schedules no wake-up and
  produces no datagram.
\<close>
theorem query_frozen:
  assumes "\<not> qy_done q" "(query_step clk an ev)\<^sup>*\<^sup>* (terminate ev u q) q'"
  shows "qy_done q' \<and> qy_answers q' = qy_answers q \<and> qy_next_seq q' = qy_next_seq q \<and>
    query_poll_timeout q' = None \<and> query_poll_transmit reading buf q' = (Inr None, buf, q')"
proof -
  have "qy_done q' \<and> qy_answers q' = qy_answers q \<and> qy_next_seq q' = qy_next_seq q \<and>
    qy_next_deadline q' = None \<and> qy_timeout_deadline q' = None"
    using assms(2)
  proof (induction rule: rtranclp_induct)
    case base
    then show ?case using assms(1) by (simp add: terminate_def)
  next
    case (step q1 q2)
    show ?case using done_step [OF step.hyps(2)] step.IH by simp
  qed
  then show ?thesis by (simp add: query_poll_timeout_def query_poll_transmit_def)
qed

lemma query_frozen_witness:
  "qy_done (mark_terminal_emitted (terminate list_slab Timeout sample_query))"
proof -
  have "\<not> qy_done sample_query" by (simp add: sample_query_def query_try_new_def)
  from query_frozen [OF this r_into_rtranclp [where r = "query_step smoltcp_clock list_slab list_slab",
      OF step_emitted]]
  show ?thesis by blast
qed

text \<open>
  The caller's window.  From the caller's deadline on, a live query collects nothing, suppresses
  nothing and sends nothing, on whichever call reaches it first; its wake-up is published no later than
  that deadline, and the first timer tick at or after it ends the query with one timeout update.
\<close>
theorem query_window:
  assumes "\<not> qy_done q" "qy_timeout_deadline q = Some deadline" "deadline \<le> now"
  shows "query_handle_event an event now q = q \<and> note_duplicate_question clk ev now q = (False, q) \<and>
    query_poll_transmit now buf q = (Inr None, buf, q) \<and>
    (\<exists>t. query_poll_timeout q = Some t \<and> t \<le> deadline) \<and>
    query_handle_timeout ev now q = (Inr (), terminate ev Timeout q) \<and> qy_done (terminate ev Timeout q) \<and>
    qy_pending_updates (terminate ev Timeout q) = snd (pl_insert ev (qy_pending_updates q) Timeout)"
  using assms
  by (auto simp: query_handle_event_def note_duplicate_question_def query_poll_transmit_def
      query_handle_timeout_def caller_window_shut_def query_poll_timeout_def terminate_def split: option.splits)

lemma query_window_witness:
  "query_handle_event list_slab (Answer (sample_answer [1, 2, 3, 4])) (SmoltcpInstant 5000000) sample_query = sample_query \<and>
   qy_done (terminate list_slab Timeout sample_query)"
proof -
  have "\<not> qy_done sample_query" "qy_timeout_deadline sample_query = Some (SmoltcpInstant 5000000)"
    by (simp_all add: sample_query_def query_try_new_def)
  from query_window [OF this order.refl] show ?thesis by blast
qed

subsection \<open>What collecting an answer does\<close>

text \<open>An answer the query takes: live, of the asked type and class, with readable RDATA.\<close>

definition takes :: "('i, 'an, 'ev) query \<Rightarrow> record_ref \<Rightarrow> bool" where
  "takes q r \<longleftrightarrow> rr_ttl r \<noteq> 0 \<and> (qy_qtype q = RT_Any \<or> rr_rtype r = qy_qtype q) \<and>
     (qy_qclass q = Class_Any \<or> rr_rclass r = qy_qclass q) \<and> is_ok (canonical_rdata r) \<and> is_ok (canonical_rdata_folded r)"

lemma handle_event_takes:
  assumes "\<not> qy_done q" "\<not> caller_window_shut now q"
  shows "query_handle_event an (Answer r) now q =
    (case (canonical_rdata r, canonical_rdata_folded r) of
       (Inr owned, Inr folded) \<Rightarrow>
         if takes q r then collect_answer an (rr_rtype r) (rr_rclass r) owned folded q else q
     | _ \<Rightarrow> q)"
proof (cases "canonical_rdata r")
  case (Inr owned)
  then show ?thesis
  proof (cases "canonical_rdata_folded r")
    case folded: (Inr folded)
    then show ?thesis using Inr assms by (simp add: query_handle_event_def takes_def is_ok_def)
  next
    case (Inl e)
    then show ?thesis using Inr by (simp add: query_handle_event_def)
  qed
qed (simp add: query_handle_event_def)

text \<open>
  C35. Collecting.  A live query within its window ignores a record it does not take, one whose identity
  (type, class and RDATA up to the case of names) it holds, and every record under a cap of zero.  Any
  other record joins the answers with the next sequence number; the store gives up at most one answer,
  none while there is room, and then one no younger than all others.  Only a pool that refuses the
  record even so makes it lost.
\<close>
theorem query_collects:
  assumes "pool an apinv" "store_ok an apinv ev epinv q" "\<not> qy_done q" "\<not> caller_window_shut now q"
    and "canonical_rdata r = Inr owned" "canonical_rdata_folded r = Inr folded"
  defines "A \<equiv> set (collected_answers an q)" and "q' \<equiv> query_handle_event an (Answer r) now q"
    and "room \<equiv> length (collected_answers an q) < qy_max_answers q \<and> is_ok (pl_vacant an (qy_answers q))"
    and "wanted \<equiv> takes q r \<and> qy_max_answers q \<noteq> 0 \<and>
      (\<forall>a\<in>set (collected_answers an q). answer_id a \<noteq> (rr_rtype r, rr_rclass r, folded))"
  shows "(\<not> wanted \<longrightarrow> q' = q) \<and>
    (wanted \<longrightarrow> (\<exists>V\<subseteq>A. card V \<le> 1 \<and> (room \<longrightarrow> V = {}) \<and> (\<forall>v\<in>V. \<forall>a\<in>A. an_seq v \<le> an_seq a) \<and>
       (set (collected_answers an q') =
          insert (new_answer (rr_rtype r) (rr_rclass r) owned folded (qy_next_seq q)) (A - V) \<or>
        \<not> room \<and> set (collected_answers an q') = A - V)))"
proof -
  note st = answer_store.intro [OF assms(1)]
  have inv: "apinv (qy_answers q)" using assms(2) by (simp add: store_ok_def)
  have ids: "answer_store.distinct_ids an (qy_answers q)"
    using assms(2) answer_store.distinct_ids_list [OF st inv] by (simp add: store_ok_def collected_answers_def)
  let ?t = "rr_rtype r" and ?c = "rr_rclass r"
  let ?q' = "collect_answer an ?t ?c owned folded q"
  note sp = answer_store.collect_answer_store [OF st inv ids, of ?t ?c owned folded, unfolded Let_def]
  have A: "A = answer_set an q" unfolding A_def using set_collected [OF assms(1) inv] .
  have A': "set (collected_answers an ?q') = answer_set an ?q'" using set_collected [OF assms(1) sp [THEN conjunct1]] .
  have room: "room \<longleftrightarrow> pl_len an (qy_answers q) < qy_max_answers q \<and> is_ok (pl_vacant an (qy_answers q))"
    unfolding room_def collected_answers_def by (simp add: pool.len_iter [OF assms(1) inv])
  have w: "wanted \<longleftrightarrow> takes q r \<and> \<not> (\<exists>a\<in>answer_set an q. answer_id a = (?t, ?c, folded)) \<and> qy_max_answers q \<noteq> 0"
    unfolding wanted_def A_def [symmetric] A by blast
  have q': "q' = (if takes q r then ?q' else q)"
    unfolding q'_def using handle_event_takes [OF assms(3,4), of an r] assms(5,6) by simp
  show ?thesis
  proof (cases "takes q r")
    case True
    then have q'q: "q' = ?q'" using q' by simp
    show ?thesis
      unfolding q'q A A' room using sp w True by blast
  next
    case False
    then show ?thesis using q' w by simp
  qed
qed

lemma query_collects_witness:
  "set (collected_answers list_slab (query_handle_event list_slab (Answer (sample_answer [1, 2, 3, 4])) (SmoltcpInstant 1) sample_query))
     = {new_answer RT_A Class_In [1, 2, 3, 4] [1, 2, 3, 4] 0}"
proof -
  let ?r = "sample_answer [1, 2, 3, 4]"
  have c: "canonical_rdata ?r = Inr [1, 2, 3, 4]" "canonical_rdata_folded ?r = Inr [1, 2, 3, 4]" by code_simp+
  have e: "collected_answers list_slab sample_query = []" "qy_next_seq sample_query = 0"
    "qy_max_answers sample_query = 256" "is_ok (pl_vacant list_slab (qy_answers sample_query))"
    "rr_rtype ?r = RT_A" "rr_rclass ?r = Class_In" by code_simp+
  have t: "takes sample_query ?r" by code_simp
  have "store_ok list_slab (\<lambda>p. distinct (map fst p)) list_slab (\<lambda>p. distinct (map fst p)) sample_query"
    "\<not> qy_done sample_query" "\<not> caller_window_shut (SmoltcpInstant 1) sample_query" by code_simp+
  from query_collects [OF slab_pools this c, unfolded e(1-3,5,6)] t e(4) show ?thesis by auto
qed

subsection \<open>What goes on the wire\<close>

lemma encode_question_item:
  "encode_question q buf =
     (case builder_try_new DEFAULT_COMPRESSION_TABLE buf (header_new\<lparr>hdr_id := qy_txid q\<rparr>) of
        Inl _ \<Rightarrow> (Inl (TxBufferTooSmall HEADER_SIZE (length buf)), buf)
      | Inr b \<Rightarrow>
          (case bseq (map push_item [Question (qy_qname q) (qy_qtype q) (qy_qclass q) (qy_unicast_response q)]) b of
             (Inl _, b) \<Rightarrow> (Inl (TxBufferTooSmall 0 0), b_out b)
           | (Inr _, b) \<Rightarrow> (case builder_finish b of
                  (Inl _, out) \<Rightarrow> (Inl (TxBufferTooSmall 0 0), out)
                | (Inr n, out) \<Rightarrow> (Inr n, out))))"
proof -
  have "bseq [push_item (Question n t c u)] b = push_question n t c u b" for n t c u and b :: builder
    by (cases "push_question n t c u b"; cases "fst (push_question n t c u b)") auto
  then show ?thesis by (simp only: encode_question_def list.map)
qed

text \<open>
  The question on the wire.  Whatever \<open>poll_transmit\<close> emits is addressed to the multicast group,
  must be kept up until delivered, and parses: its identifier is the query's, it holds exactly one
  question, with the labels of the queried name, its type and class and the QU bit asked for, and no
  record; it is emitted only inside the caller's window, and the query then awaits the confirm with
  nothing else due.
\<close>
theorem query_datagram:
  assumes "query_poll_transmit reading buf q = (Inr (Some tr), out, q')" "tr_size tr \<le> 16384"
    and "name_ok (qy_qname q)"
    and "inj_on hash_suffix (message_suffixes [Question (qy_qname q) (qy_qtype q) (qy_qclass q) (qy_unicast_response q)])"
  shows "tr_dst tr = multicast_dst \<and> tr_obligation tr = Sustained \<and>
    (\<forall>d. qy_timeout_deadline q = Some d \<longrightarrow> reading < d) \<and>
    q' = q\<lparr>qy_transmit_pending := False, qy_awaiting_send_confirm := True\<rparr> \<and>
    (\<exists>r qr. reader_try_parse (take (tr_size tr) out) = Inr r \<and> hdr_id (mr_header r) = qy_txid q \<and>
       question_items (questions r) = [Inr qr] \<and>
       item_question (Question (qy_qname q) (qy_qtype q) (qy_qclass q) (qy_unicast_response q)) qr \<and>
       record_items (answers r) = [] \<and> record_items (authority r) = [] \<and> record_items (additional r) = [])"
proof -
  let ?it = "Question (qy_qname q) (qy_qtype q) (qy_qclass q) (qy_unicast_response q)"
  let ?h = "header_new\<lparr>hdr_id := qy_txid q\<rparr>"
  from assms(1) have e: "encode_question q buf = (Inr (tr_size tr), out)" "tr_dst tr = multicast_dst"
    "tr_obligation tr = Sustained" "q' = q\<lparr>qy_transmit_pending := False, qy_awaiting_send_confirm := True\<rparr>"
    "\<forall>d. qy_timeout_deadline q = Some d \<longrightarrow> reading < d"
    by (auto simp: query_poll_transmit_def not_le split: if_splits prod.splits sum.splits option.splits)
  from e(1) obtain b0 b where b: "builder_try_new DEFAULT_COMPRESSION_TABLE buf ?h = Inr b0"
    "bseq (map push_item ([?it] @ [] @ [] @ [])) b0 = (Inr (), b)" "builder_finish b = (Inr (tr_size tr), out)"
    by (auto simp: encode_question_item split: sum.splits prod.splits simp del: bseq.simps)
  have cur: "b_cursor b \<le> 16384"
    using b(3) assms(2) by (auto simp: builder_finish_def split: option.splits prod.splits sum.splits)
  have hdr: "empty_sections ?h" by (simp add: empty_sections_def header_new_def)
  from built_message_parses [OF b(1) _ hdr _ _ _ _ _ _ b(2) cur b(3)] assms(3,4)
  obtain r qs' an' ns' ar' where "reader_try_parse (take (tr_size tr) out) = Inr r" "hdr_id (mr_header r) = qy_txid q"
    "question_items (questions r) = map Inr qs'" "list_all2 item_question [?it] qs'"
    "record_items (answers r) = map Inr an'" "list_all2 item_record [] an'"
    "record_items (authority r) = map Inr ns'" "list_all2 item_record [] ns'"
    "record_items (additional r) = map Inr ar'" "list_all2 item_record [] ar'"
    by (auto simp: in_section_def item_valid_def DEFAULT_COMPRESSION_TABLE_def MAX_POINTER_HOPS_def)
  then show ?thesis using e(2-5) by (auto simp: list_all2_Cons1)
qed

lemma query_datagram_witness:
  "\<exists>tr out r. query_poll_transmit (SmoltcpInstant 0) (replicate 40 0) sample_query = (Inr (Some tr), out,
       sample_query\<lparr>qy_transmit_pending := False, qy_awaiting_send_confirm := True\<rparr>) \<and>
     reader_try_parse (take (tr_size tr) out) = Inr r \<and> length (question_items (questions r)) = 1"
proof -
  let ?p = "query_poll_transmit (SmoltcpInstant 0) (replicate 40 0) sample_query"
  have "case ?p of (Inr (Some tr), _, _) \<Rightarrow> tr_size tr \<le> 16384 | _ \<Rightarrow> False" by code_simp
  then obtain tr out q' where p: "?p = (Inr (Some tr), out, q')" "tr_size tr \<le> 16384"
    by (auto split: prod.splits sum.splits option.splits)
  have n: "name_ok (qy_qname sample_query)" by code_simp
  have q: "qy_qname sample_query = Name [97]" "qy_qtype sample_query = RT_A" "qy_qclass sample_query = Class_In"
    "qy_unicast_response sample_query = False" by (simp_all add: sample_query_def query_try_new_def)
  have "inj_on hash_suffix (message_suffixes [Question (Name [97]) RT_A Class_In False])"
    unfolding message_suffixes_def by (rule inj_on_set) code_simp
  from query_datagram [OF p n, unfolded q, OF this] p(1) show ?thesis by auto
qed

subsection \<open>Termination\<close>

text \<open>
  One round of a driver: the timer fires, the question is sent, and its outcome is confirmed.  \<open>asked q
  k q'\<close>: \<open>k\<close> such rounds lead from \<open>q\<close> to \<open>q'\<close>, none before the retry it serves was due, each
  accepted by at least one family, at instants the clock can add a minute to.
\<close>

definition ask ::
  "'i :: linorder clock \<Rightarrow> ('ev, 'f) update_pool \<Rightarrow> bytes \<Rightarrow> 'i \<Rightarrow> 'i family_attempt \<Rightarrow> 'i family_attempt \<Rightarrow>
     ('i, 'an, 'ev) query \<Rightarrow> ('i, 'an, 'ev) query" where
  "ask clk ev buf now v4 v6 q =
     (let q = snd (query_handle_timeout ev now q);
          q = snd (snd (query_poll_transmit now buf q)) in
      snd (query_note_transmit_outcome clk now v4 v6 q))"

inductive asked ::
  "'i :: linorder clock \<Rightarrow> ('ev, 'f) update_pool \<Rightarrow> bytes \<Rightarrow> ('i, 'an, 'ev) query \<Rightarrow> nat \<Rightarrow> ('i, 'an, 'ev) query \<Rightarrow> bool"
  for clk ev buf q where
    asked_none: "asked clk ev buf q 0 q"
  | asked_again: "asked clk ev buf q k q1 \<Longrightarrow> (\<forall>d. qy_next_deadline q1 = Some d \<longrightarrow> d \<le> now) \<Longrightarrow>
      any_delivered (project v4 v6) \<Longrightarrow> cadd clk (anchor v4 v6 now) (secs 60) \<noteq> None \<Longrightarrow>
      asked clk ev buf q (Suc k) (ask clk ev buf now v4 v6 q1)"

text \<open>\<open>held n p\<close>: the standing \<open>p\<close> is reached by \<open>n\<close> delivering rounds none of which advanced.\<close>

fun held :: "nat \<Rightarrow> patience \<Rightarrow> bool" where
  "held 0 p \<longleftrightarrow> True"
| "held (Suc n) p \<longleftrightarrow> (\<exists>p0 d a. held n p0 \<and> any_delivered d \<and> classify_advance p0 d = (a, p) \<and> \<not> advances a)"

lemma held_le_two: "held n p \<Longrightarrow> n \<le> 2"
proof -
  have three: "\<not> held (Suc (Suc (Suc n))) p" for n p
  proof
    assume "held (Suc (Suc (Suc n))) p"
    then show False unfolding held.simps by (elim exE conjE) (use no_third_partial in blast)
  qed
  assume "held n p"
  show "n \<le> 2"
  proof (rule ccontr)
    assume "\<not> n \<le> 2"
    then have "n = Suc (Suc (Suc (n - 3)))" by simp
    then show False using three [of "n - 3" p] \<open>held n p\<close> by metis
  qed
qed

text \<open>Which question is asked, and how the budget and the patience stand.\<close>

definition asks_ok :: "bytes \<Rightarrow> nat \<Rightarrow> ('i, 'an, 'ev) query \<Rightarrow> bool" where
  "asks_ok buf k q \<longleftrightarrow> qy_done q \<or>
     (is_ok (fst (encode_question q buf)) \<and> \<not> qy_awaiting_send_confirm q \<and>
      (qy_transmit_pending q \<and> qy_next_deadline q = None \<and> qy_retry_count q = 0 \<or>
       \<not> qy_transmit_pending q \<and> qy_next_deadline q \<noteq> None) \<and>
      (\<exists>r. held r (qy_partial_rounds q) \<and> k \<le> 3 * qy_retry_count q + r \<and>
         (qy_retry_count q \<le> MAX_RETRIES \<or> qy_retry_count q = MAX_RETRIES + 1 \<and> r = 0)))"


lemma retry_next_defined:
  assumes "instant clk" "cadd clk t (secs 60) \<noteq> None"
  shows "retry_next_deadline clk t n \<noteq> None"
proof -
  have "secs (min s MAX_SECS) \<le> secs 60" for s by (simp add: MAX_SECS_def)
  then show ?thesis unfolding retry_next_deadline_def Let_def
    using instant.add_defined [OF assms(1)] assms(2) by blast
qed

lemma encode_question_fields:
  "qy_txid q' = qy_txid q \<Longrightarrow> qy_qname q' = qy_qname q \<Longrightarrow> qy_qtype q' = qy_qtype q \<Longrightarrow> qy_qclass q' = qy_qclass q \<Longrightarrow>
   qy_unicast_response q' = qy_unicast_response q \<Longrightarrow> encode_question q' buf = encode_question q buf"
  by (simp only: encode_question_def)

lemma classify_Failed: "any_delivered d \<Longrightarrow> fst (classify_advance p d) \<noteq> Failed"
  by (auto simp: classify_advance_eq Let_def)

text \<open>The confirm of a delivering round: it schedules the next retry and makes progress.\<close>

lemma confirm_progress:
  assumes "instant clk" "any_delivered (project v4 v6)" "cadd clk (anchor v4 v6 now) (secs 60) \<noteq> None"
    and "\<not> qy_done q" "qy_awaiting_send_confirm q" "\<not> qy_transmit_pending q" "qy_retry_count q \<le> MAX_RETRIES"
    and "is_ok (fst (encode_question q buf))" "held r (qy_partial_rounds q)" "k \<le> 3 * qy_retry_count q + r"
  shows "asks_ok buf (Suc k) (snd (query_note_transmit_outcome clk now v4 v6 q))"
proof -
  let ?q' = "snd (query_note_transmit_outcome clk now v4 v6 q)"
  obtain a p where c: "classify_advance (qy_partial_rounds q) (project v4 v6) = (a, p)" by (rule prod.exhaust)
  have nf: "a \<noteq> Failed" using classify_Failed [OF assms(2), of "qy_partial_rounds q"] c by simp
  note df = retry_next_defined [OF assms(1,3)]
  have n: "sat_add u32_max (qy_retry_count q) 1 = Suc (qy_retry_count q)"
    using assms(7) by (simp add: sat_add_def MAX_RETRIES_def)
  have flow: "\<not> qy_done ?q'" "\<not> qy_awaiting_send_confirm ?q'" "\<not> qy_transmit_pending ?q'" "qy_next_deadline ?q' \<noteq> None"
    "qy_partial_rounds ?q' = p" "qy_retry_count ?q' = (if advances a then Suc (qy_retry_count q) else qy_retry_count q)"
    using assms(4-6) c df nf n
    by (cases a; simp add: query_note_transmit_outcome_def Let_def advances_def)+
  have e: "encode_question ?q' buf = encode_question q buf"
    by (rule encode_question_fields)
      (use c in \<open>simp_all add: query_note_transmit_outcome_def Let_def\<close>)
  have r: "r \<le> 2" by (rule held_le_two [OF assms(9)])
  have "\<exists>r'. held r' p \<and> Suc k \<le> 3 * qy_retry_count ?q' + r' \<and>
      (qy_retry_count ?q' \<le> MAX_RETRIES \<or> qy_retry_count ?q' = MAX_RETRIES + 1 \<and> r' = 0)"
  proof (cases "advances a")
    case True
    then show ?thesis using assms(7,10) r flow(6) by (intro exI [of _ 0]) auto
  next
    case False
    then have "held (Suc r) p" unfolding held.simps using assms(2,9) c by blast
    then show ?thesis using assms(7,10) False flow(6) by (intro exI [of _ "Suc r"]) simp
  qed
  then show ?thesis using flow assms(8) e by (simp add: asks_ok_def)
qed

lemma asks_step:
  assumes "instant clk" "asks_ok buf k q" "\<forall>d. qy_next_deadline q = Some d \<longrightarrow> d \<le> now"
    and "any_delivered (project v4 v6)" "cadd clk (anchor v4 v6 now) (secs 60) \<noteq> None"
  shows "asks_ok buf (Suc k) (ask clk ev buf now v4 v6 q)"
proof -
  have fin: "asks_ok buf (Suc k) (snd (query_note_transmit_outcome clk now v4 v6 (snd (snd (query_poll_transmit now buf q1)))))"
    if "qy_done q1" for q1 :: "('a, 'b, 'c) query"
    using that by (cases "qy_awaiting_send_confirm q1")
      (simp_all add: asks_ok_def query_poll_transmit_def query_note_transmit_outcome_def Let_def)
  let ?q1 = "snd (query_handle_timeout ev now q)"
  show ?thesis
  proof (cases "qy_done ?q1")
    case True
    then show ?thesis using fin by (simp add: ask_def)
  next
    case False
    then have live: "\<not> qy_done q" "\<not> caller_window_shut now q" by (auto simp: query_handle_timeout_def split: if_splits)
    with assms(2) obtain r where q: "is_ok (fst (encode_question q buf))" "\<not> qy_awaiting_send_confirm q"
      "qy_transmit_pending q \<and> qy_next_deadline q = None \<and> qy_retry_count q = 0 \<or>
       \<not> qy_transmit_pending q \<and> qy_next_deadline q \<noteq> None"
      "held r (qy_partial_rounds q)" "k \<le> 3 * qy_retry_count q + r"
      by (auto simp: asks_ok_def)
    from q(3) live False assms(3) have q1: "?q1 = q\<lparr>qy_transmit_pending := True, qy_next_deadline := None\<rparr>"
      "qy_retry_count q \<le> MAX_RETRIES"
      by (auto simp: query_handle_timeout_def not_le split: if_splits)
    have e1: "encode_question ?q1 buf = encode_question q buf" by (rule encode_question_fields) (simp_all add: q1)
    obtain n out where e: "encode_question q buf = (Inr n, out)"
      using q(1) by (cases "encode_question q buf"; cases "fst (encode_question q buf)") (auto simp: is_ok_def)
    define q2 where "q2 = snd (snd (query_poll_transmit now buf ?q1))"
    have q2: "q2 = q\<lparr>qy_transmit_pending := False, qy_awaiting_send_confirm := True, qy_next_deadline := None\<rparr>"
      unfolding q2_def using e1 e live q1 by (simp add: query_poll_transmit_def caller_window_shut_def split: option.splits)
    have "asks_ok buf (Suc k) (snd (query_note_transmit_outcome clk now v4 v6 q2))"
    proof (rule confirm_progress [OF assms(1,4,5)])
      show "is_ok (fst (encode_question q2 buf))"
        using encode_question_fields [of q2 q buf] q(1) by (simp add: q2)
    qed (use live q q1 in \<open>simp_all add: q2\<close>)
    then show ?thesis by (simp add: ask_def q2_def)
  qed
qed

lemma asked_ok:
  assumes "instant clk" "asks_ok buf 0 q"
  shows "asked clk ev buf q k q' \<Longrightarrow> asks_ok buf k q'"
  by (induction rule: asked.induct) (use assms asks_step in blast)+

text \<open>
  C13. A query ends.  If each of its questions is accepted by at least one address family, however the
  families take turns at missing it, then within 28 rounds of the driver the query is done: the retry
  budget is spent at least every third round.
\<close>
theorem query_terminates:
  fixes clk :: "'i :: linorder clock" and an :: "('an, 'e) answer_pool" and ev :: "('ev, 'f) update_pool"
  assumes "instant clk" "is_ok (fst (encode_question (query_try_new an ev h n t c x u td) buf))"
    and "asked clk ev buf (query_try_new an ev h n t c x u td) k q" "28 \<le> k"
  shows "qy_done q"
proof -
  have "asks_ok buf 0 (query_try_new an ev h n t c x u td)"
    using assms(2) by (auto simp: asks_ok_def query_try_new_def intro: exI [of _ 0])
  from asked_ok [OF assms(1) this assms(3)] have "asks_ok buf k q" .
  moreover have "\<not> (held r p \<and> k \<le> 3 * m + r \<and> (m \<le> MAX_RETRIES \<or> m = MAX_RETRIES + 1 \<and> r = 0))" for r p m
    using held_le_two [of r p] assms(4) by (auto simp: MAX_RETRIES_def)
  ultimately show ?thesis unfolding asks_ok_def by blast
qed

text \<open>A driver that asks again as soon as it may, on one instant, always can.\<close>

lemma ask_deadline:
  assumes "qy_next_deadline (ask clk ev buf now v4 v6 q) = Some d"
  shows "qy_next_deadline q = Some d \<or> (\<exists>n. retry_next_deadline clk (anchor v4 v6 now) n = Some d)"
proof -
  have t: "qy_next_deadline (snd (query_handle_timeout ev now q)) \<in> {None, qy_next_deadline q}" for q :: "('a, 'b, 'c) query"
    by (simp add: query_handle_timeout_def terminate_def split: option.splits)
  have p: "qy_next_deadline (snd (snd (query_poll_transmit now buf q))) = qy_next_deadline q" for q :: "('a, 'b, 'c) query"
    by (simp add: query_poll_transmit_def split: option.splits prod.splits sum.splits)
  have c: "qy_next_deadline (snd (query_note_transmit_outcome clk now v4 v6 q)) = Some d \<Longrightarrow>
      qy_next_deadline q = Some d \<or> (\<exists>n. retry_next_deadline clk (anchor v4 v6 now) n = Some d)" for q :: "('a, 'b, 'c) query"
    by (auto simp: query_note_transmit_outcome_def Let_def split: if_splits prod.splits)
  from c [of "snd (snd (query_poll_transmit now buf (snd (query_handle_timeout ev now q))))"] p t [of q] assms
  show ?thesis by (auto simp: ask_def)
qed

lemma asked_exists:
  assumes "instant clk" "cadd clk t (secs 60) = Some e" "qy_next_deadline q = None"
  shows "\<exists>q'. asked clk ev buf q k q' \<and> (\<forall>d. qy_next_deadline q' = Some d \<longrightarrow> d \<le> e)"
proof (induction k)
  case 0
  then show ?case using assms(3) asked_none by fastforce
next
  case (Suc k)
  then obtain q' where q': "asked clk ev buf q k q'" "\<forall>d. qy_next_deadline q' = Some d \<longrightarrow> d \<le> e" by blast
  have an: "anchor (Accepted t) NoSocket e = t" "any_delivered (project (Accepted t) NoSocket)"
    by (simp_all add: anchor_def project_def any_delivered_def)
  have le: "d \<le> e" if "retry_next_deadline clk t n = Some d" for n d
  proof -
    have "secs (min s MAX_SECS) \<le> secs 60" for s by (simp add: MAX_SECS_def)
    from instant.add_mono [OF assms(1) this _ assms(2)] that show ?thesis
      unfolding retry_next_deadline_def Let_def .
  qed
  from asked_again [OF q'(1,2) an(2)] an(1) assms(2) have "asked clk ev buf q (Suc k) (ask clk ev buf e (Accepted t) NoSocket q')"
    by simp
  moreover have "\<forall>d. qy_next_deadline (ask clk ev buf e (Accepted t) NoSocket q') = Some d \<longrightarrow> d \<le> e"
    using ask_deadline [of clk ev buf e "Accepted t" NoSocket q'] q'(2) le an(1) by auto
  ultimately show ?case by blast
qed

lemma query_terminates_witness:
  "\<exists>q. asked smoltcp_clock (list_slab :: (query_update, (nat \<times> query_update) list, unit) pool_ops) (replicate 40 0)
       (query_try_new (list_slab :: (collected_answer, (nat \<times> collected_answer) list, unit) pool_ops) list_slab
          (QueryHandle 1) (Name [97]) RT_A Class_In 7 False None) 28 q \<and> qy_done q"
proof -
  let ?an = "list_slab :: (collected_answer, (nat \<times> collected_answer) list, unit) pool_ops"
  let ?ev = "list_slab :: (query_update, (nat \<times> query_update) list, unit) pool_ops"
  let ?q0 = "query_try_new ?an ?ev (QueryHandle 1) (Name [97]) RT_A Class_In 7 False None"
  have e: "is_ok (fst (encode_question ?q0 (replicate 40 0)))" by code_simp
  have c: "cadd smoltcp_clock (SmoltcpInstant 0) (secs 60) = Some (SmoltcpInstant 60000000)" by code_simp
  have "qy_next_deadline ?q0 = (None :: smoltcp_instant option)" by (simp add: query_try_new_def)
  from asked_exists [OF smoltcp.instant_axioms c this]
  obtain q where "asked smoltcp_clock ?ev (replicate 40 0) ?q0 28 q" by blast
  with query_terminates [OF smoltcp.instant_axioms e this] show ?thesis by blast
qed

end
