(* ===== verification/Matching.thy ===== *)
theory Matching
  imports Query
begin

text \<open>
  How arriving names and records are matched to what is held (\<open>endpoint/matching.rs\<close>): stored names
  against names in a message, a question about a name, and the admission rule of probe proposals.
\<close>

text \<open>\<open>"_services._dns-sd._udp.local."\<close>\<close>

definition DNS_SD_META_QUERY_NAME :: bytes where
  "DNS_SD_META_QUERY_NAME =
     [95, 115, 101, 114, 118, 105, 99, 101, 115, 46, 95, 100, 110, 115, 45, 115, 100, 46,
      95, 117, 100, 112, 46, 108, 111, 99, 97, 108, 46]"

text \<open>The loop over the stored labels and the arriving ones.\<close>

fun match_labels :: "bytes list \<Rightarrow> label_item list \<Rightarrow> bool" where
  "match_labels [] [] = True"
| "match_labels (s # ss) (Inr i # is) =
     (if length s \<noteq> length i then False
      else if \<not> list_all2 eq_ignore_case s i then False
      else match_labels ss is)"
| "match_labels _ _ = False"

definition names_match_str :: "bytes \<Rightarrow> name_ref \<Rightarrow> bool" where
  "names_match_str stored incoming = match_labels (split_dot (strip_dot stored)) (nr_items incoming)"

definition names_match :: "name \<Rightarrow> name_ref \<Rightarrow> bool" where
  "names_match stored incoming = names_match_str (as_str stored) incoming"

definition is_meta_query_name :: "name_ref \<Rightarrow> bool" where
  "is_meta_query_name qname = names_match_str DNS_SD_META_QUERY_NAME qname"

definition names_match_record :: "name \<Rightarrow> record_ref \<Rightarrow> bool" where
  "names_match_record stored r = names_match stored (rr_name r)"

definition name_fully_decodes :: "name_ref \<Rightarrow> bool" where
  "name_fully_decodes n = list_all is_ok (nr_items n)"

definition question_is_about :: "question_ref \<Rightarrow> name \<Rightarrow> bool" where
  "question_is_about q n \<longleftrightarrow> (q_class q = Class_In \<or> q_class q = Class_Any) \<and> names_match n (q_name q)"

datatype not_ours = DifferentClass | DifferentOwner | NameOutOfQuestionScope
datatype admission = NotOurs not_ours | Ours
datatype questions_unreadable = QuestionsUnreadable

text \<open>\<open>ProposalScope\<close>: the closure is the items of the question section, read at most once.\<close>

record proposal_scope =
  ps_questions :: "(parse_error + question_ref) list"
  ps_name :: name
  ps_scoped :: "(questions_unreadable + bool) option"

definition scope_new :: "(parse_error + question_ref) list \<Rightarrow> name \<Rightarrow> proposal_scope" where
  "scope_new qs n = \<lparr>ps_questions = qs, ps_name = n, ps_scoped = None\<rparr>"

fun read_questions_loop :: "name \<Rightarrow> (parse_error + question_ref) list \<Rightarrow> bool \<Rightarrow> questions_unreadable + bool" where
  "read_questions_loop n [] admitted = Inr admitted"
| "read_questions_loop n (Inl _ # qs) admitted = Inl QuestionsUnreadable"
| "read_questions_loop n (Inr q # qs) admitted =
     (if \<not> name_fully_decodes (q_name q) then Inl QuestionsUnreadable
      else read_questions_loop n qs (if question_is_about q n then True else admitted))"

definition read_questions :: "proposal_scope \<Rightarrow> questions_unreadable + bool" where
  "read_questions ps = read_questions_loop (ps_name ps) (ps_questions ps) False"

definition scope_admits :: "record_ref \<Rightarrow> proposal_scope \<Rightarrow> (questions_unreadable + admission) \<times> proposal_scope" where
  "scope_admits r ps =
     (if rr_rclass r \<noteq> Class_In then (Inr (NotOurs DifferentClass), ps)
      else if \<not> names_match_record (ps_name ps) r then (Inr (NotOurs DifferentOwner), ps)
      else
        let (scoped, ps) = (case ps_scoped ps of
            Some scoped \<Rightarrow> (scoped, ps)
          | None \<Rightarrow> let scoped = read_questions ps in (scoped, ps\<lparr>ps_scoped := Some scoped\<rparr>)) in
        (rbind scoped (\<lambda>s. Inr (if s then Ours else NotOurs NameOutOfQuestionScope)), ps))"

definition is_host_conflict_rtype :: "resource_type \<Rightarrow> bool" where
  "is_host_conflict_rtype rt \<longleftrightarrow> rt = RT_A \<or> rt = RT_AAAA"

definition qry_query_accepts :: "('i, 'an, 'ev) query \<Rightarrow> record_ref \<Rightarrow> bool" where
  "qry_query_accepts q r \<longleftrightarrow>
     (qy_qtype q = RT_Any \<or> qy_qtype q = rr_rtype r) \<and> (qy_qclass q = Class_Any \<or> qy_qclass q = rr_rclass r)"

subsection \<open>What matching means\<close>

lemma match_labels_iff: "match_labels ss items \<longleftrightarrow> (\<exists>ls. items = map Inr ls \<and> map lower ss = map lower ls)"
proof (induction ss items rule: match_labels.induct)
  case (2 s ss i "is")
  have "lower s = lower i \<Longrightarrow> length s = length i" by (metis length_map lower_def)
  with 2 show ?case by (auto simp: list_all2_eq_ignore_case Cons_eq_map_conv)
qed auto

lemma names_match_labels:
  assumes "name_ok n" "as_str n \<noteq> []"
  shows "names_match n i \<longleftrightarrow> (\<exists>ls. nr_items i = map Inr ls \<and> map lower ls = name_labels n)"
proof -
  have "strip_dot (as_str n) \<noteq> []" using assms validate_name_dot by (auto simp: strip_dot_Nil_iff name_ok_def)
  then have l: "name_labels n = split_dot (strip_dot (as_str n))" by (simp add: name_labels_def labels_of_str_def)
  then show ?thesis
    using name_ok_labels_lower [OF assms(1)] by (auto simp: names_match_def names_match_str_def match_labels_iff)
qed

lemma names_match_decodes: "names_match n i \<Longrightarrow> name_fully_decodes i"
  by (auto simp: names_match_def names_match_str_def match_labels_iff name_fully_decodes_def list_all_iff is_ok_def)

lemma read_questions_loop_eq:
  "read_questions_loop n qs admitted =
     (if list_all (\<lambda>q. case q of Inl _ \<Rightarrow> False | Inr q \<Rightarrow> name_fully_decodes (q_name q)) qs
      then Inr (admitted \<or> list_ex (\<lambda>q. case q of Inl _ \<Rightarrow> False | Inr q \<Rightarrow> question_is_about q n) qs)
      else Inl QuestionsUnreadable)"
  by (induction n qs admitted rule: read_questions_loop.induct) auto

text \<open>What the scope decides, without the memory of having read the questions.\<close>

definition admitted :: "(parse_error + question_ref) list \<Rightarrow> name \<Rightarrow> record_ref \<Rightarrow> questions_unreadable + admission" where
  "admitted qs n r =
     (if rr_rclass r \<noteq> Class_In then Inr (NotOurs DifferentClass)
      else if \<not> names_match_record n r then Inr (NotOurs DifferentOwner)
      else if \<not> list_all (\<lambda>q. case q of Inl _ \<Rightarrow> False | Inr q \<Rightarrow> name_fully_decodes (q_name q)) qs
      then Inl QuestionsUnreadable
      else if list_ex (\<lambda>q. case q of Inl _ \<Rightarrow> False | Inr q \<Rightarrow> question_is_about q n) qs then Inr Ours
      else Inr (NotOurs NameOutOfQuestionScope))"

definition scope_ok :: "(parse_error + question_ref) list \<Rightarrow> name \<Rightarrow> proposal_scope \<Rightarrow> bool" where
  "scope_ok qs n ps \<longleftrightarrow> ps_questions ps = qs \<and> ps_name ps = n \<and> (ps_scoped ps = None \<or> ps_scoped ps = Some (read_questions ps))"

lemma scope_ok_new: "scope_ok qs n (scope_new qs n)"
  by (simp add: scope_ok_def scope_new_def)

lemma scope_admits_eq:
  "scope_ok qs n ps \<Longrightarrow> fst (scope_admits r ps) = admitted qs n r \<and> scope_ok qs n (snd (scope_admits r ps))"
  by (auto simp: scope_ok_def scope_admits_def admitted_def read_questions_def read_questions_loop_eq Let_def
      split: option.splits)

end
