(* ===== verification/Respond.thy ===== *)
theory Respond
  imports Records BuilderMessage
begin

text \<open>
  The datagrams a service emits (\<open>service/respond.rs\<close>): probe, announcement, answers, legacy unicast
  replies and goodbyes, and the canonical forms of its own records.  A writer returns its result and
  the caller's buffer, which a failing encode may have written into.
\<close>

subsection \<open>Canonical forms of our own records\<close>

text \<open>\<open>write_canonical_txt\<close> appends to \<open>out\<close>; segments longer than 255 octets are left out.\<close>

definition canonical_txt_segment :: "bytes \<Rightarrow> bytes" where
  "canonical_txt_segment seg = (if length seg \<le> 255 then word_of_nat (length seg) # seg else [])"

definition write_canonical_txt :: "bytes list \<Rightarrow> bytes \<Rightarrow> bytes" where
  "write_canonical_txt segments out =
     (let wrote_any = list_ex (\<lambda>seg. length seg \<le> 255) segments;
          out = out @ concat (map canonical_txt_segment segments) in
      if \<not> wrote_any then out @ [0] else out)"

text \<open>\<open>write_canonical_wire_name\<close> (\<open>service/proposal.rs\<close>).\<close>

definition canonical_wire_label :: "bytes \<Rightarrow> bytes" where
  "canonical_wire_label label =
     (if label = [] then [] else word_of_nat (min (length label) 63) # map to_lower (take 63 label))"

definition write_canonical_wire_name :: "bytes \<Rightarrow> bytes \<Rightarrow> bytes" where
  "write_canonical_wire_name name_str out =
     (let trimmed = strip_dot name_str in
      if trimmed = [] then out @ [0]
      else out @ concat (map canonical_wire_label (split_dot trimmed)) @ [0])"

definition canonical_srv :: "service_records \<Rightarrow> bytes" where
  "canonical_srv r = write_canonical_wire_name (as_str (sr_host r))
     (to_be16 (sr_priority r) @ to_be16 (sr_weight r) @ to_be16 (sr_port r))"

definition INSTANCE_NSEC_TYPES :: "u16 list" where
  "INSTANCE_NSEC_TYPES = [rtype_to_u16 RT_Srv, rtype_to_u16 RT_Txt]"

definition instance_rrset_types :: "service_records \<Rightarrow> u16 list" where
  "instance_rrset_types r =
     (if same_owner (sr_instance r) (sr_host r)
      then INSTANCE_NSEC_TYPES @ (if sr_a_addrs r \<noteq> [] then [rtype_to_u16 RT_A] else []) @
        (if sr_aaaa_addrs r \<noteq> [] then [rtype_to_u16 RT_AAAA] else [])
      else INSTANCE_NSEC_TYPES)"

definition emitted_nsec_types :: "service_records \<Rightarrow> u16 list" where
  "emitted_nsec_types r = instance_rrset_types r"

text \<open>\<open>write_nsec_type_bitmap\<close>: the bit loop is the one of \<open>push_nsec_additional\<close>.\<close>

definition write_nsec_type_bitmap :: "u16 list \<Rightarrow> bytes \<Rightarrow> bytes" where
  "write_nsec_type_bitmap present_types out =
     (let (bitmap, max_byte) = nsec_bits present_types (replicate 32 0) None in
      case max_byte of
        None \<Rightarrow> out
      | Some max_byte \<Rightarrow> let blen = max_byte + 1 in out @ [0, word_of_nat blen] @ take blen bitmap)"

definition nsec_identity :: "service_records \<Rightarrow> u16 list \<Rightarrow> bytes" where
  "nsec_identity r types = write_nsec_type_bitmap types (write_canonical_wire_name (as_str (sr_instance r)) [])"

definition our_nsec_identities :: "service_records \<Rightarrow> bytes list" where
  "our_nsec_identities r =
     (let forms = [nsec_identity r INSTANCE_NSEC_TYPES]; published = nsec_identity r (instance_rrset_types r) in
      if published \<in> set forms then forms else forms @ [published])"

definition emitted_nsec_identity :: "service_records \<Rightarrow> bytes" where
  "emitted_nsec_identity r = nsec_identity r (emitted_nsec_types r)"

definition INSTANCE_CANONICAL_RTYPES :: "resource_type list" where
  "INSTANCE_CANONICAL_RTYPES = [RT_Srv, RT_Txt, RT_Nsec]"

definition canonical_rdata_forms :: "service_records \<Rightarrow> resource_type \<Rightarrow> bytes list" where
  "canonical_rdata_forms r rtype =
     (case rtype of
        RT_Srv \<Rightarrow> [canonical_srv r]
      | RT_Txt \<Rightarrow> [write_canonical_txt (sr_txt r) []]
      | RT_Nsec \<Rightarrow> our_nsec_identities r
      | _ \<Rightarrow> [])"

definition transmitted_rdata_forms :: "service_records \<Rightarrow> resource_type \<Rightarrow> bytes list" where
  "transmitted_rdata_forms r rtype =
     (case rtype of
        RT_Srv \<Rightarrow> canonical_rdata_forms r rtype
      | RT_Txt \<Rightarrow> canonical_rdata_forms r rtype
      | RT_Nsec \<Rightarrow> [emitted_nsec_identity r]
      | _ \<Rightarrow> [])"

datatype record_section = SecAnswer | SecAuthority | SecAdditional

definition transmitted_envelope :: "resource_type \<Rightarrow> record_section \<Rightarrow> bool \<Rightarrow> bool" where
  "transmitted_envelope rtype sec cache_flush =
     (if rtype \<in> {RT_Srv, RT_Txt, RT_A, RT_AAAA} then sec = SecAnswer \<and> cache_flush
      else if rtype = RT_Nsec then sec = SecAdditional \<and> cache_flush
      else False)"

definition emitted_owner_name :: "service_records \<Rightarrow> resource_type \<Rightarrow> name option" where
  "emitted_owner_name r rtype =
     (if rtype = RT_Ptr then Some (sr_service_type r)
      else if rtype \<in> {RT_Srv, RT_Txt, RT_Nsec} then Some (sr_instance r)
      else if rtype \<in> {RT_A, RT_AAAA} then Some (sr_host r)
      else None)"

subsection \<open>What was emitted\<close>

record emitted_records =
  em_ptr :: bool
  em_srv :: bool
  em_txt :: bool
  em_a :: "bytes list"
  em_aaaa :: "bytes list"
  em_subtypes :: bool
  em_nsec :: bool

definition emitted_default :: emitted_records where
  "emitted_default = \<lparr>em_ptr = False, em_srv = False, em_txt = False, em_a = [], em_aaaa = [],
     em_subtypes = False, em_nsec = False\<rparr>"

definition em_is_empty :: "emitted_records \<Rightarrow> bool" where
  "em_is_empty e \<longleftrightarrow> \<not> em_ptr e \<and> \<not> em_srv e \<and> \<not> em_txt e \<and> \<not> em_subtypes e \<and> em_a e = [] \<and> em_aaaa e = []"

definition claims_instance_name :: "emitted_records \<Rightarrow> bool" where
  "claims_instance_name e \<longleftrightarrow> em_srv e \<or> em_txt e"

definition merge_instance :: "emitted_records \<Rightarrow> emitted_records \<Rightarrow> emitted_records" where
  "merge_instance other e = e\<lparr>em_ptr := (em_ptr e \<or> em_ptr other), em_srv := (em_srv e \<or> em_srv other),
     em_txt := (em_txt e \<or> em_txt other), em_subtypes := (em_subtypes e \<or> em_subtypes other),
     em_nsec := (em_nsec e \<or> em_nsec other)\<rparr>"

text \<open>The loop that adds the addresses not yet held.\<close>

fun add_missing :: "'a list \<Rightarrow> 'a list \<Rightarrow> 'a list" where
  "add_missing [] held = held"
| "add_missing (ip # ips) held = add_missing ips (if ip \<in> set held then held else held @ [ip])"

definition merge_addrs :: "emitted_records \<Rightarrow> emitted_records \<Rightarrow> emitted_records" where
  "merge_addrs other e = e\<lparr>em_a := add_missing (em_a other) (em_a e), em_aaaa := add_missing (em_aaaa other) (em_aaaa e)\<rparr>"

definition keep_only_shared_ptrs :: "bool \<Rightarrow> bool \<Rightarrow> emitted_records \<Rightarrow> emitted_records" where
  "keep_only_shared_ptrs type_ptr subtypes e =
     emitted_default\<lparr>em_ptr := (em_ptr e \<and> type_ptr), em_subtypes := (em_subtypes e \<and> subtypes)\<rparr>"

definition instance_rtype_exposed :: "emitted_records \<Rightarrow> resource_type \<Rightarrow> bool" where
  "instance_rtype_exposed e rtype =
     (if rtype = RT_Srv then em_srv e else if rtype = RT_Txt then em_txt e
      else if rtype = RT_Nsec then em_nsec e else False)"

subsection \<open>Composing a datagram\<close>

text \<open>\<open>MessageBuilder::try_new\<close>, the pushes, \<open>finish\<close>, with a \<open>?\<close> after each.\<close>

definition compose :: "header \<Rightarrow> 'a build \<Rightarrow> bytes \<Rightarrow> (encode_error + nat \<times> 'a) \<times> bytes" where
  "compose h body out =
     (case builder_try_new DEFAULT_COMPRESSION_TABLE out h of
        Inl e \<Rightarrow> (Inl e, out)
      | Inr b \<Rightarrow>
          (case body b of
             (Inl e, b) \<Rightarrow> (Inl e, b_out b)
           | (Inr x, b) \<Rightarrow> (case builder_finish b of (Inl e, out) \<Rightarrow> (Inl e, out) | (Inr n, out) \<Rightarrow> (Inr (n, x), out))))"

definition bret :: "'a \<Rightarrow> 'a build" where "bret x b = (Inr x, b)"

definition response_header :: header where
  "response_header = header_new\<lparr>hdr_flags := flags_set_authoritative (flags_set_response flags_new)\<rparr>"

definition write_probe :: "service_records \<Rightarrow> bytes \<Rightarrow> (encode_error + nat \<times> unit) \<times> bytes" where
  "write_probe r = compose header_new (bseq
     ([push_question (sr_instance r) RT_Any Class_In True,
       push_srv_authority (sr_instance r) (sr_ttl_secs r) (sr_priority r) (sr_weight r) (sr_port r) (sr_host r),
       push_txt_authority (sr_instance r) (sr_ttl_secs r) (sr_txt r)] @
      map (\<lambda>a. push_a_authority (sr_host r) (sr_ttl_secs r) a) (sr_a_addrs r) @
      map (\<lambda>a. push_aaaa_authority (sr_host r) (sr_ttl_secs r) a) (sr_aaaa_addrs r)))"

text \<open>The NSEC record rides along if it fits: a failed push is rolled back.\<close>

definition push_service_nsec :: "service_records \<Rightarrow> bool build" where
  "push_service_nsec r b =
     (case push_nsec_additional (sr_instance r) (sr_ttl_secs r) (emitted_nsec_types r) True b of
        (Inl _, b') \<Rightarrow> (Inr False, restore (checkpoint b) b')
      | (Inr _, b') \<Rightarrow> (Inr True, b'))"

definition write_announce :: "service_records \<Rightarrow> bytes \<Rightarrow> (encode_error + nat \<times> bool) \<times> bytes" where
  "write_announce r = compose response_header (bbind (bseq
     ([push_ptr_answer (sr_service_type r) (sr_ttl_secs r) (sr_instance r)] @
      map (\<lambda>sub. push_ptr_answer sub (sr_ttl_secs r) (sr_instance r)) (sr_subtypes r) @
      [push_srv_answer (sr_instance r) (sr_ttl_secs r) (sr_priority r) (sr_weight r) (sr_port r) (sr_host r) True,
       push_txt_answer (sr_instance r) (sr_ttl_secs r) (sr_txt r) True] @
      map (\<lambda>a. push_a_answer (sr_host r) (sr_ttl_secs r) a True) (sr_a_addrs r) @
      map (\<lambda>a. push_aaaa_answer (sr_host r) (sr_ttl_secs r) a True) (sr_aaaa_addrs r)))
     (\<lambda>_. push_service_nsec r))"

definition write_meta_response :: "service_records \<Rightarrow> name \<Rightarrow> bytes \<Rightarrow> (encode_error + nat \<times> unit) \<times> bytes" where
  "write_meta_response r meta_name =
     compose response_header (push_ptr_answer meta_name (sr_ttl_secs r) (sr_service_type r))"

definition LEGACY_UNICAST_MAX_TTL_SECS :: u32 where "LEGACY_UNICAST_MAX_TTL_SECS = 10"

definition write_legacy_meta_response ::
  "service_records \<Rightarrow> u16 \<Rightarrow> name \<Rightarrow> resource_type \<Rightarrow> resource_class \<Rightarrow> bytes \<Rightarrow> (encode_error + nat \<times> unit) \<times> bytes" where
  "write_legacy_meta_response r query_id meta_name qtype qclass =
     compose (response_header\<lparr>hdr_id := query_id\<rparr>) (bseq
       [push_question meta_name qtype qclass False,
        push_ptr_answer meta_name (min (sr_ttl_secs r) LEGACY_UNICAST_MAX_TTL_SECS) (sr_service_type r)])"

definition write_legacy_response ::
  "service_records \<Rightarrow> u16 \<Rightarrow> name \<Rightarrow> resource_type \<Rightarrow> resource_class \<Rightarrow> bytes \<Rightarrow>
     (encode_error + nat \<times> emitted_records) \<times> bytes" where
  "write_legacy_response r query_id qname qtype qclass =
     (let ttl = min (sr_ttl_secs r) LEGACY_UNICAST_MAX_TTL_SECS in
      compose (response_header\<lparr>hdr_id := query_id\<rparr>) (bbind (bseq
        ([push_question qname qtype qclass False, push_ptr_answer (sr_service_type r) ttl (sr_instance r)] @
         map (\<lambda>sub. push_ptr_answer sub ttl (sr_instance r)) (sr_subtypes r) @
         [push_srv_answer (sr_instance r) ttl (sr_priority r) (sr_weight r) (sr_port r) (sr_host r) False,
          push_txt_answer (sr_instance r) ttl (sr_txt r) False] @
         map (\<lambda>a. push_a_answer (sr_host r) ttl a False) (sr_a_addrs r) @
         map (\<lambda>a. push_aaaa_answer (sr_host r) ttl a False) (sr_aaaa_addrs r)))
        (\<lambda>_. bret \<lparr>em_ptr = True, em_srv = True, em_txt = True, em_a = sr_a_addrs r, em_aaaa = sr_aaaa_addrs r,
                   em_subtypes = (sr_subtypes r \<noteq> []), em_nsec = False\<rparr>)))"

definition push_goodbye_records ::
  "service_records \<Rightarrow> bool \<Rightarrow> bool \<Rightarrow> bool \<Rightarrow> bool \<Rightarrow> bytes list \<Rightarrow> bytes list \<Rightarrow> unit build" where
  "push_goodbye_records r include_ptr include_srv include_txt include_subtypes a_addrs aaaa_addrs = bseq
     ((if include_ptr then [push_ptr_answer (sr_service_type r) 0 (sr_instance r)] else []) @
      (if include_srv
       then [push_srv_answer (sr_instance r) 0 (sr_priority r) (sr_weight r) (sr_port r) (sr_host r) True] else []) @
      (if include_txt then [push_txt_answer (sr_instance r) 0 (sr_txt r) True] else []) @
      (if include_subtypes then map (\<lambda>sub. push_ptr_answer sub 0 (sr_instance r)) (sr_subtypes r) else []) @
      map (\<lambda>a. push_a_answer (sr_host r) 0 a True) a_addrs @
      map (\<lambda>a. push_aaaa_answer (sr_host r) 0 a True) aaaa_addrs)"

definition write_goodbye ::
  "service_records \<Rightarrow> bytes \<Rightarrow> bool \<Rightarrow> bool \<Rightarrow> bool \<Rightarrow> bool \<Rightarrow> bytes list \<Rightarrow> bytes list \<Rightarrow>
     (encode_error + nat \<times> unit) \<times> bytes" where
  "write_goodbye r out include_ptr include_srv include_txt include_subtypes a_addrs aaaa_addrs =
     compose response_header
       (push_goodbye_records r include_ptr include_srv include_txt include_subtypes a_addrs aaaa_addrs) out"

subsection \<open>The answer with known answers left out\<close>

text \<open>
  \<open>hint_matches\<close> is a question about the type and the canonical RDATA.  A record it recognises is not
  pushed; the loop over the addresses returns those that were.
\<close>

fun push_unhinted :: "(bytes \<Rightarrow> bool) \<Rightarrow> (bytes \<Rightarrow> unit build) \<Rightarrow> bytes list \<Rightarrow> bytes list build" where
  "push_unhinted hinted push [] = bret []"
| "push_unhinted hinted push (a # as) =
     (if hinted a then push_unhinted hinted push as
      else bbind (push a) (\<lambda>_. bbind (push_unhinted hinted push as) (\<lambda>pushed. bret (a # pushed))))"

definition push_if :: "bool \<Rightarrow> unit build \<Rightarrow> bool build" where
  "push_if c m = (if c then bbind m (\<lambda>_. bret True) else bret False)"

definition write_announce_filtered ::
  "service_records \<Rightarrow> bytes \<Rightarrow> (resource_type \<Rightarrow> bytes \<Rightarrow> bool) \<Rightarrow> (encode_error + nat \<times> emitted_records) \<times> bytes" where
  "write_announce_filtered r out hint_matches = compose response_header
     (bbind (push_if (\<not> hint_matches RT_Ptr (write_canonical_wire_name (as_str (sr_instance r)) []))
        (push_ptr_answer (sr_service_type r) (sr_ttl_secs r) (sr_instance r))) (\<lambda>ptr.
      bbind (bseq (map (\<lambda>sub. push_ptr_answer sub (sr_ttl_secs r) (sr_instance r)) (sr_subtypes r))) (\<lambda>_.
      bbind (push_if (\<not> hint_matches RT_Srv (canonical_srv r))
        (push_srv_answer (sr_instance r) (sr_ttl_secs r) (sr_priority r) (sr_weight r) (sr_port r) (sr_host r) True)) (\<lambda>srv.
      bbind (push_if (\<not> hint_matches RT_Txt (write_canonical_txt (sr_txt r) []))
        (push_txt_answer (sr_instance r) (sr_ttl_secs r) (sr_txt r) True)) (\<lambda>txt.
      bbind (push_unhinted (hint_matches RT_A) (\<lambda>a. push_a_answer (sr_host r) (sr_ttl_secs r) a True) (sr_a_addrs r)) (\<lambda>a.
      bbind (push_unhinted (hint_matches RT_AAAA) (\<lambda>a. push_aaaa_answer (sr_host r) (sr_ttl_secs r) a True) (sr_aaaa_addrs r)) (\<lambda>aaaa.
      let emitted = \<lparr>em_ptr = ptr, em_srv = srv, em_txt = txt, em_a = a, em_aaaa = aaaa,
                     em_subtypes = (sr_subtypes r \<noteq> []), em_nsec = False\<rparr> in
      if \<not> em_is_empty emitted
      then bbind (push_service_nsec r) (\<lambda>nsec. bret (emitted\<lparr>em_nsec := nsec\<rparr>))
      else bret emitted))))))) out"

end
