(* ===== verification/Proposal.thy ===== *)
theory Proposal
  imports Matching Respond "HOL-Library.List_Lexorder" "HOL-Library.Multiset"
begin

text \<open>
  Simultaneous probes (\<open>service/proposal.rs\<close>): a peer's proposal, the authority section of its probe,
  is streamed against our own sorted list and decides who keeps the name.  Octet strings and lists of
  them are ordered lexicographically, as \<open>Vec\<close> is.
\<close>

datatype abandon = UnparseableAuthority | UndecodableOwnerName | UndecodableRdata | UnreadableQuestions
datatype verdict = PeerWins | WeHold | Abandoned abandon

subsection \<open>Our own proposal\<close>

definition our_proposal :: "service_records \<Rightarrow> bytes list" where
  "our_proposal our =
     sort ([to_be16 (rtype_to_u16 RT_Srv) @ canonical_srv our,
            write_canonical_txt (sr_txt our) (to_be16 (rtype_to_u16 RT_Txt))] @
       (if same_owner (sr_instance our) (sr_host our)
        then map (\<lambda>a. to_be16 (rtype_to_u16 RT_A) @ a) (sr_a_addrs our) @
          map (\<lambda>a. to_be16 (rtype_to_u16 RT_AAAA) @ a) (sr_aaaa_addrs our)
        else []))"

subsection \<open>The fold\<close>

record proposal_fold =
  pf_smallest :: "bytes list"
  pf_count :: nat
  pf_keep :: nat

definition fold_new :: "nat \<Rightarrow> proposal_fold" where
  "fold_new keep = \<lparr>pf_smallest = [], pf_count = 0, pf_keep = keep\<rparr>"

text \<open>\<open>partition_point\<close> on a partitioned vector is the length of the prefix that passes the test.\<close>

definition fold_offer :: "bytes \<Rightarrow> proposal_fold \<Rightarrow> proposal_fold" where
  "fold_offer elem pf =
     (let pf = pf\<lparr>pf_count := sat_add u64_max (pf_count pf) 1\<rparr>;
          n = length (takeWhile (\<lambda>e. e \<le> elem) (pf_smallest pf)) in
      if n < pf_keep pf
      then pf\<lparr>pf_smallest := take (pf_keep pf) (take n (pf_smallest pf) @ elem # drop n (pf_smallest pf))\<rparr>
      else pf)"

fun compare_elems :: "bytes list \<Rightarrow> bytes list \<Rightarrow> bool \<Rightarrow> bool" where
  "compare_elems (p # ps) (e # es) longer = (if p = e then compare_elems ps es longer else e < p)"
| "compare_elems _ _ longer = longer"

definition peer_wins :: "bytes list \<Rightarrow> proposal_fold \<Rightarrow> bool" where
  "peer_wins our pf = compare_elems (pf_smallest pf) our (length our < pf_count pf)"

text \<open>The loop over the authority section.\<close>

fun fold_records ::
  "(parse_error + record_ref) list \<Rightarrow> proposal_scope \<Rightarrow> proposal_fold \<Rightarrow> abandon + proposal_fold" where
  "fold_records [] ps pf = Inr pf"
| "fold_records (Inl _ # rs) ps pf = Inl UnparseableAuthority"
| "fold_records (Inr r # rs) ps pf =
     (if \<not> name_fully_decodes (rr_name r) then Inl UndecodableOwnerName
      else case scope_admits r ps of
        (Inl _, _) \<Rightarrow> Inl UnreadableQuestions
      | (Inr (NotOurs _), ps) \<Rightarrow> fold_records rs ps pf
      | (Inr Ours, ps) \<Rightarrow>
          (case write_canonical_rdata r AS_SENT (to_be16 (rtype_to_u16 (rr_rtype r))) of
             (Inl _, _) \<Rightarrow> Inl UndecodableRdata
           | (Inr _, elem) \<Rightarrow> fold_records rs ps (fold_offer elem pf)))"

definition proposal_verdict :: "probe_proposal \<Rightarrow> service_records \<Rightarrow> abandon + verdict" where
  "proposal_verdict pp ours_records =
     (let ours = our_proposal ours_records;
          ps = scope_new (question_items (questions (pp_reader pp))) (sr_instance ours_records) in
      rbind (fold_records (record_items (authority (pp_reader pp))) ps (fold_new (length ours))) (\<lambda>pf.
      Inr (if peer_wins ours pf then PeerWins else WeHold)))"

definition adjudicate :: "probe_proposal \<Rightarrow> service_records \<Rightarrow> verdict" where
  "adjudicate pp ours_records =
     (case proposal_verdict pp ours_records of Inr v \<Rightarrow> v | Inl why \<Rightarrow> Abandoned why)"

subsection \<open>The fold compares sorted lists\<close>

definition insert_after :: "'a :: linorder \<Rightarrow> 'a list \<Rightarrow> 'a list" where
  "insert_after e xs = takeWhile (\<lambda>x. x \<le> e) xs @ e # dropWhile (\<lambda>x. x \<le> e) xs"

lemma sorted_dropWhile_le: "sorted xs \<Longrightarrow> x \<in> set (dropWhile (\<lambda>x. x \<le> (e :: 'a :: linorder)) xs) \<Longrightarrow> e < x"
proof (induction xs)
  case (Cons y ys)
  then show ?case by (cases "y \<le> e") (auto simp: not_le intro: less_le_trans)
qed simp

lemma insert_after_sort: "sorted xs \<Longrightarrow> insert_after e xs = sort (e # xs)"
proof (rule properties_for_sort [symmetric])
  assume s: "sorted xs"
  have "sorted (takeWhile (\<lambda>x. x \<le> e) xs)" "sorted (dropWhile (\<lambda>x. x \<le> e) xs)"
    using s by (simp_all add: sorted_wrt_takeWhile sorted_wrt_dropWhile)
  moreover have lo: "x \<le> e" if "x \<in> set (takeWhile (\<lambda>x. x \<le> e) xs)" for x using that by (auto dest: set_takeWhileD)
  moreover have hi: "e \<le> y" if "y \<in> set (dropWhile (\<lambda>x. x \<le> e) xs)" for y
    using sorted_dropWhile_le [OF s that] by (rule less_imp_le)
  moreover have "x \<le> y" if "x \<in> set (takeWhile (\<lambda>x. x \<le> e) xs)" "y \<in> set (dropWhile (\<lambda>x. x \<le> e) xs)" for x y
    using order_trans [OF lo [OF that(1)] hi [OF that(2)]] .
  ultimately show "sorted (insert_after e xs)"
    unfolding insert_after_def sorted_append sorted_simps(2) list.set(2) by blast
  show "mset (insert_after e xs) = mset (e # xs)"
  proof -
    have "mset (takeWhile (\<lambda>x. x \<le> e) xs) + mset (dropWhile (\<lambda>x. x \<le> e) xs) = mset xs"
      unfolding mset_append [symmetric] takeWhile_dropWhile_id ..
    then show ?thesis by (simp add: insert_after_def)
  qed
qed

lemma take_insert_after:
  "take k (insert_after e (take k xs)) = take k (insert_after e xs)"
  "k \<le> length (takeWhile (\<lambda>x. x \<le> e) (take k xs)) \<Longrightarrow> take k (insert_after e xs) = take k xs"
proof -
  show "take k (insert_after e (take k xs)) = take k (insert_after e xs)"
  proof (induction xs arbitrary: k)
    case (Cons x xs)
    then show ?case by (cases k; cases "x \<le> e") (auto simp: insert_after_def take_Cons')
  qed (simp add: insert_after_def)
  show "k \<le> length (takeWhile (\<lambda>x. x \<le> e) (take k xs)) \<Longrightarrow> take k (insert_after e xs) = take k xs"
  proof (induction xs arbitrary: k)
    case (Cons x xs)
    then show ?case by (cases k; cases "x \<le> e") (auto simp: insert_after_def)
  qed simp
qed

definition fold_holds :: "bytes list \<Rightarrow> nat \<Rightarrow> proposal_fold \<Rightarrow> bool" where
  "fold_holds xs keep pf \<longleftrightarrow>
     pf_smallest pf = take keep (sort xs) \<and> pf_count pf = min (length xs) u64_max \<and> pf_keep pf = keep"

lemma fold_offer_eq:
  "fold_offer e pf =
     (let pf = pf\<lparr>pf_count := sat_add u64_max (pf_count pf) 1\<rparr> in
      if length (takeWhile (\<lambda>x. x \<le> e) (pf_smallest pf)) < pf_keep pf
      then pf\<lparr>pf_smallest := take (pf_keep pf) (insert_after e (pf_smallest pf))\<rparr> else pf)"
proof -
  have "take (length (takeWhile P s)) s = takeWhile P s" "drop (length (takeWhile P s)) s = dropWhile P s"
    for P and s :: "bytes list"
    by (metis append_eq_conv_conj takeWhile_dropWhile_id) (metis dropWhile_eq_drop)
  then show ?thesis by (simp add: fold_offer_def insert_after_def Let_def)
qed

lemma fold_holds_offer:
  assumes "fold_holds xs keep pf"
  shows "fold_holds (e # xs) keep (fold_offer e pf)"
proof -
  let ?s = "take keep (sort xs)"
  have h: "pf_smallest pf = ?s" "pf_count pf = min (length xs) u64_max" "pf_keep pf = keep"
    using assms by (simp_all add: fold_holds_def)
  have c: "sat_add u64_max (min (length xs) u64_max) 1 = min (length (e # xs)) u64_max"
    by (simp add: sat_add_def min_def)
  have ins: "insert_after e (sort xs) = sort (e # xs)"
    using insert_after_sort [of "sort xs" e] by (simp add: sorted_sort_id)
  have "fold_offer e pf = pf\<lparr>pf_count := min (length (e # xs)) u64_max, pf_smallest := take keep (sort (e # xs))\<rparr>"
  proof (cases "length (takeWhile (\<lambda>x. x \<le> e) ?s) < keep")
    case True
    have "take keep (insert_after e ?s) = take keep (sort (e # xs))"
      using take_insert_after(1) [of keep e "sort xs"] unfolding ins .
    then show ?thesis using True h c by (simp add: fold_offer_eq Let_def del: sort_key_simps)
  next
    case False
    then have "take keep (sort (e # xs)) = ?s"
      using take_insert_after(2) [of keep e "sort xs"] unfolding ins by simp
    then show ?thesis using False h c by (simp add: fold_offer_eq Let_def del: sort_key_simps)
  qed
  then show ?thesis using h(3) by (simp add: fold_holds_def del: sort_key_simps)
qed

lemma compare_elems_less:
  "compare_elems (take (length es) ps) es (length es < length ps) \<longleftrightarrow> es < ps"
proof (induction es arbitrary: ps)
  case Nil
  then show ?case by (cases ps) auto
next
  case (Cons e es)
  then show ?case by (cases ps) (auto simp: Cons_less_Cons)
qed

subsection \<open>The peer's list\<close>

text \<open>The elements of a proposal in the order of the section, or why it is abandoned.\<close>

fun proposal_elems ::
  "(parse_error + question_ref) list \<Rightarrow> name \<Rightarrow> (parse_error + record_ref) list \<Rightarrow> abandon + bytes list" where
  "proposal_elems qs n [] = Inr []"
| "proposal_elems qs n (Inl _ # rs) = Inl UnparseableAuthority"
| "proposal_elems qs n (Inr r # rs) =
     (if \<not> name_fully_decodes (rr_name r) then Inl UndecodableOwnerName
      else case admitted qs n r of
        Inl _ \<Rightarrow> Inl UnreadableQuestions
      | Inr (NotOurs _) \<Rightarrow> proposal_elems qs n rs
      | Inr Ours \<Rightarrow>
          (case write_canonical_rdata r AS_SENT (to_be16 (rtype_to_u16 (rr_rtype r))) of
             (Inl _, _) \<Rightarrow> Inl UndecodableRdata
           | (Inr _, elem) \<Rightarrow> rbind (proposal_elems qs n rs) (\<lambda>es. Inr (elem # es))))"

lemma fold_records_elems:
  "scope_ok qs n ps \<Longrightarrow> fold_holds xs keep pf \<Longrightarrow>
   case proposal_elems qs n rs of
     Inl e \<Rightarrow> fold_records rs ps pf = Inl e
   | Inr es \<Rightarrow> \<exists>pf'. fold_records rs ps pf = Inr pf' \<and> fold_holds (rev es @ xs) keep pf'"
proof (induction qs n rs arbitrary: ps pf xs rule: proposal_elems.induct)
  case (3 qs n r rs)
  show ?case
  proof (cases "name_fully_decodes (rr_name r)")
    case True
    obtain a ps' where a: "scope_admits r ps = (a, ps')" by (cases "scope_admits r ps")
    with scope_admits_eq [OF 3(3), of r] have ad: "a = admitted qs n r" and ok: "scope_ok qs n ps'" by auto
    show ?thesis
    proof (cases a)
      case (Inl e)
      then show ?thesis using True a ad by simp
    next
      case (Inr adm)
      show ?thesis
      proof (cases adm)
        case (NotOurs w)
        have "admitted qs n r = Inr (NotOurs w)" using ad Inr NotOurs by simp
          then show ?thesis using True a 3(1) [OF _ _ _ ok 3(4)] Inr NotOurs
            by (cases "proposal_elems qs n rs") simp_all
      next
        case Ours
        have ad: "admitted qs n r = Inr Ours" using ad Inr Ours by simp
        let ?w = "write_canonical_rdata r AS_SENT (to_be16 (rtype_to_u16 (rr_rtype r)))"
        obtain u elem where w: "?w = (u, elem)" by (cases ?w)
        show ?thesis
        proof (cases u)
          case (Inl e)
          then show ?thesis using True a ad Inr Ours w by simp
        next
          case u: (Inr _)
          from 3(2) [OF _ ad _ w [symmetric] u ok fold_holds_offer [OF 3(4)], of elem] True
          show ?thesis using True a Inr Ours ad w u by (cases "proposal_elems qs n rs") (auto simp: rbind_def)
        qed
      qed
    qed
  qed simp
qed auto

lemma adjudicate_eq:
  "adjudicate pp our =
     (case proposal_elems (question_items (questions (pp_reader pp))) (sr_instance our)
         (record_items (authority (pp_reader pp))) of
        Inl why \<Rightarrow> Abandoned why
      | Inr es \<Rightarrow> if compare_elems (take (length (our_proposal our)) (sort es)) (our_proposal our)
          (length (our_proposal our) < min (length es) u64_max) then PeerWins else WeHold)"
proof -
  let ?qs = "question_items (questions (pp_reader pp))" and ?n = "sr_instance our"
  let ?rs = "record_items (authority (pp_reader pp))" and ?k = "length (our_proposal our)"
  have h: "fold_holds [] ?k (fold_new ?k)" by (simp add: fold_holds_def fold_new_def)
  note f = fold_records_elems [OF scope_ok_new [of ?qs ?n] h, of ?rs]
  show ?thesis
  proof (cases "proposal_elems ?qs ?n ?rs")
    case (Inl e)
    then show ?thesis using f by (simp add: adjudicate_def proposal_verdict_def Let_def)
  next
    case (Inr es)
    with f obtain pf where pf: "fold_records ?rs (scope_new ?qs ?n) (fold_new ?k) = Inr pf" "fold_holds (rev es) ?k pf"
      by auto
    have "sort (rev es) = sort es" by (rule properties_for_sort) auto
    with pf Inr show ?thesis
      by (simp add: adjudicate_def proposal_verdict_def Let_def peer_wins_def fold_holds_def)
  qed
qed

lemma proposal_elems_length: "proposal_elems qs n rs = Inr es \<Longrightarrow> length es \<le> length rs"
  by (induction qs n rs arbitrary: es rule: proposal_elems.induct)
    (auto simp: rbind_eq_Inr split: if_splits sum.splits admission.splits prod.splits, fastforce+)

lemma authority_length:
  assumes "reader_try_parse m = Inr r"
  shows "length (record_items (authority r)) \<le> u64_max"
proof -
  from reader_parse_Inr [OF assms] have m: "mr_message r = m" "HEADER_SIZE \<le> length m" by auto
  note b = record_items_bounds [OF section_cursors(2) [OF m(2)], of "mr_header r" "authority_count (mr_header r)"]
  have "unat (si_remaining (new_after_answers (mr_message r) (mr_header r) n)) \<le> u64_max" for n
    using unsigned_less [of "si_remaining (new_after_answers (mr_message r) (mr_header r) n)", where ?'a = nat] by simp
  then show ?thesis using b m(1) unfolding authority_def by (meson le_trans)
qed

lemma adjudicate_verdict:
  assumes "reader_try_parse m = Inr (pp_reader pp)"
  shows "adjudicate pp our =
     (case proposal_elems (question_items (questions (pp_reader pp))) (sr_instance our)
         (record_items (authority (pp_reader pp))) of
        Inl why \<Rightarrow> Abandoned why
      | Inr es \<Rightarrow> if our_proposal our < sort es then PeerWins else WeHold)"
proof (cases "proposal_elems (question_items (questions (pp_reader pp))) (sr_instance our)
         (record_items (authority (pp_reader pp)))")
  case (Inr es)
  then have "min (length es) u64_max = length (sort es)" using proposal_elems_length [OF Inr] authority_length [OF assms] by simp
  with Inr show ?thesis using compare_elems_less [of "our_proposal our" "sort es"] unfolding adjudicate_eq by simp
qed (simp add: adjudicate_eq)

text \<open>
  C27. The verdict is the comparison RFC 6762 asks for.  A proposal any part of which cannot be read
  decides nothing; otherwise the peer wins exactly when its whole list of records for the name, sorted,
  is later than ours in lexicographic order, the longer of two lists that agree being the later:
  although no more of it than our own list is ever kept.
\<close>
theorem adjudicate_spec:
  assumes "reader_try_parse m = Inr (pp_reader pp)"
  shows "adjudicate pp our =
     (case proposal_elems (question_items (questions (pp_reader pp))) (sr_instance our)
         (record_items (authority (pp_reader pp))) of
        Inl why \<Rightarrow> Abandoned why
      | Inr es \<Rightarrow> if our_proposal our < sort es then PeerWins else WeHold)"
  by (rule adjudicate_verdict [OF assms])

text \<open>
  The probe of a peer for \<open>a.local\<close> that proposes the TXT record \<open>a\<close>, against a service that has no TXT
  segment: the peer's record is the later, although our list, with its SRV record, is the longer.
\<close>

definition sample_peer_probe :: bytes where
  "sample_peer_probe =
     [0, 0, 0, 0, 0, 1, 0, 0, 0, 1, 0, 0] @ [1, 97, 5, 108, 111, 99, 97, 108, 0, 0, 255, 0, 1] @
     [0xC0, 12, 0, 16, 0, 1, 0, 0, 0, 120, 0, 2, 1, 97]"

definition sample_records :: service_records where
  "sample_records = sr_new (Name [95, 104]) (Name [97, 46, 108, 111, 99, 97, 108]) (Name [104, 46, 108, 111, 99, 97, 108]) 80 120"

lemma adjudicate_spec_witness:
  "\<exists>r. reader_try_parse sample_peer_probe = Inr r \<and>
     adjudicate \<lparr>pp_src = SockV4 [10, 0, 0, 1] 5353, pp_reader = r, pp_datagram = DatagramId 1\<rparr> sample_records = PeerWins"
proof -
  have "case reader_try_parse sample_peer_probe of Inl _ \<Rightarrow> False
    | Inr r \<Rightarrow> (case proposal_elems (question_items (questions r)) (sr_instance sample_records)
         (record_items (authority r)) of Inl _ \<Rightarrow> False | Inr es \<Rightarrow> sort es = [[0, 16, 1, 97]])"
    by code_simp
  then obtain r es where r: "reader_try_parse sample_peer_probe = Inr r"
    "proposal_elems (question_items (questions r)) (sr_instance sample_records) (record_items (authority r)) = Inr es"
    "sort es = [[0, 16, 1, 97]]"
    by (auto split: sum.splits)
  have "our_proposal sample_records < [[0, 16, 1, 97]]" by code_simp
  with adjudicate_spec [of _ "\<lparr>pp_src = SockV4 [10, 0, 0, 1] 5353, pp_reader = r, pp_datagram = DatagramId 1\<rparr>"] r
  show ?thesis by auto
qed

end
