(* ===== verification/RespondMessage.thy ===== *)
theory RespondMessage
  imports Respond BuilderTransaction
begin

text \<open>
  What the datagrams of \<open>Respond\<close> say to a reader: each writer's pushes as items of a message, and the
  message its octets parse to.
\<close>

definition records_ok :: "service_records \<Rightarrow> bool" where
  "records_ok r \<longleftrightarrow> name_ok (sr_service_type r) \<and> name_ok (sr_instance r) \<and> name_ok (sr_host r) \<and>
     list_all name_ok (sr_subtypes r) \<and> list_all (\<lambda>a. length a = 4) (sr_a_addrs r) \<and>
     list_all (\<lambda>a. length a = 16) (sr_aaaa_addrs r)"

lemma compose_Inr:
  assumes "compose h body out = (Inr (n, x), out')"
  obtains b0 b where "builder_try_new DEFAULT_COMPRESSION_TABLE out h = Inr b0" "body b0 = (Inr x, b)"
    "builder_finish b = (Inr n, out')"
  using assms by (auto simp: compose_def split: sum.splits prod.splits)

text \<open>A message of items in section order, composed, is read item by item.\<close>

definition message_reads :: "bytes \<Rightarrow> header \<Rightarrow> item list \<Rightarrow> item list \<Rightarrow> item list \<Rightarrow> item list \<Rightarrow> message_reader \<Rightarrow> bool" where
  "message_reads m h qs an ns ar r \<longleftrightarrow>
     reader_try_parse m = Inr r \<and> hdr_id (mr_header r) = hdr_id h \<and> hdr_flags (mr_header r) = hdr_flags h \<and>
     (\<exists>qs' an' ns' ar'.
        question_items (questions r) = map Inr qs' \<and> list_all2 item_question qs qs' \<and>
        record_items (answers r) = map Inr an' \<and> list_all2 item_record an an' \<and>
        record_items (authority r) = map Inr ns' \<and> list_all2 item_record ns ns' \<and>
        record_items (additional r) = map Inr ar' \<and> list_all2 item_record ar ar')"

lemma finished_message_reads:
  assumes "builder_try_new DEFAULT_COMPRESSION_TABLE out h = Inr b0" "empty_sections h"
    and "in_section 0 qs" "in_section 1 an" "in_section 2 ns" "in_section 3 ar"
    and "list_all item_valid (qs @ an @ ns @ ar)" "inj_on hash_suffix (message_suffixes (qs @ an @ ns @ ar))"
    and "bseq (map push_item (qs @ an @ ns @ ar)) b0 = (Inr (), b)" "b_cursor b \<le> 16384"
    and "builder_finish b = (Inr n, out')"
  shows "\<exists>r. message_reads (take n out') h qs an ns ar r"
proof -
  have c: "DEFAULT_COMPRESSION_TABLE \<le> MAX_POINTER_HOPS"
    by (simp add: DEFAULT_COMPRESSION_TABLE_def MAX_POINTER_HOPS_def)
  from built_message_parses [OF assms(1) c assms(2-11)] show ?thesis
    unfolding message_reads_def by blast
qed

lemma builder_finish_n: "builder_finish b = (Inr n, out) \<Longrightarrow> b_cursor b = n"
  by (auto simp: builder_finish_def split: option.splits prod.splits sum.splits)

lemma composed_reads:
  assumes "compose h (bseq (map push_item (qs @ an @ ns @ ar))) out = (Inr (n, u), out')" "n \<le> 16384" "empty_sections h"
    and "in_section 0 qs" "in_section 1 an" "in_section 2 ns" "in_section 3 ar"
    and "list_all item_valid (qs @ an @ ns @ ar)" "inj_on hash_suffix (message_suffixes (qs @ an @ ns @ ar))"
  shows "\<exists>r. message_reads (take n out') h qs an ns ar r"
proof (rule compose_Inr [OF assms(1)])
  fix b0 b assume b: "builder_try_new DEFAULT_COMPRESSION_TABLE out h = Inr b0"
    "bseq (map push_item (qs @ an @ ns @ ar)) b0 = (Inr u, b)" "builder_finish b = (Inr n, out')"
  from finished_message_reads [OF b(1) assms(3-9) _ _ b(3)] b(2) builder_finish_n [OF b(3)] assms(2)
  show ?thesis by simp
qed

subsection \<open>The probe\<close>

definition probe_authority :: "service_records \<Rightarrow> item list" where
  "probe_authority r =
     [Auth_Srv (sr_instance r) (sr_ttl_secs r) (sr_priority r) (sr_weight r) (sr_port r) (sr_host r),
      Auth_Txt (sr_instance r) (sr_ttl_secs r) (sr_txt r)] @
     map (\<lambda>a. Auth_A (sr_host r) (sr_ttl_secs r) a) (sr_a_addrs r) @
     map (\<lambda>a. Auth_AAAA (sr_host r) (sr_ttl_secs r) a) (sr_aaaa_addrs r)"

abbreviation probe_question :: "service_records \<Rightarrow> item" where
  "probe_question r \<equiv> Question (sr_instance r) RT_Any Class_In True"

lemma write_probe_items:
  "write_probe r = compose header_new (bseq (map push_item ([probe_question r] @ [] @ probe_authority r @ [])))"
  by (simp add: write_probe_def probe_authority_def comp_def del: bseq.simps)

lemma probe_reads:
  assumes "write_probe r out = (Inr (n, u), out')" "n \<le> 16384" "records_ok r"
    and "inj_on hash_suffix (message_suffixes (probe_question r # probe_authority r))"
  shows "\<exists>rd. message_reads (take n out') header_new [probe_question r] [] (probe_authority r) [] rd"
proof (rule composed_reads [OF assms(1) [unfolded write_probe_items] assms(2)])
  show "empty_sections header_new" by (simp add: empty_sections_def header_new_def)
  show "in_section 2 (probe_authority r)"
    by (auto simp: in_section_def probe_authority_def list_all_iff)
  show "list_all item_valid ([probe_question r] @ [] @ probe_authority r @ [])"
    using assms(3) by (auto simp: records_ok_def probe_authority_def item_valid_def list_all_iff)
qed (use assms(4) in \<open>simp_all add: in_section_def\<close>)

subsection \<open>Answers and goodbyes\<close>

definition srv_item :: "service_records \<Rightarrow> u32 \<Rightarrow> bool \<Rightarrow> item" where
  "srv_item r ttl flush =
     Answer_Srv (sr_instance r) ttl (sr_priority r) (sr_weight r) (sr_port r) (sr_host r) flush"

text \<open>The answers of a service: which records of each kind, with what TTL and cache-flush bit.\<close>

definition service_items ::
  "service_records \<Rightarrow> u32 \<Rightarrow> bool \<Rightarrow> bool \<Rightarrow> name list \<Rightarrow> bool \<Rightarrow> bool \<Rightarrow> bytes list \<Rightarrow> bytes list \<Rightarrow> item list" where
  "service_items r ttl flush ptr subs srv txt a aaaa =
     (if ptr then [Answer_Ptr (sr_service_type r) ttl (sr_instance r)] else []) @
     map (\<lambda>sub. Answer_Ptr sub ttl (sr_instance r)) subs @
     (if srv then [srv_item r ttl flush] else []) @
     (if txt then [Answer_Txt (sr_instance r) ttl (sr_txt r) flush] else []) @
     map (\<lambda>x. Answer_A (sr_host r) ttl x flush) a @
     map (\<lambda>x. Answer_AAAA (sr_host r) ttl x flush) aaaa"

definition nsec_items :: "service_records \<Rightarrow> bool \<Rightarrow> item list" where
  "nsec_items r nsec = (if nsec then [Add_Nsec (sr_instance r) (sr_ttl_secs r) (emitted_nsec_types r) True] else [])"

lemma service_items_section: "in_section 1 (service_items r ttl flush ptr subs srv txt a aaaa)"
  by (auto simp: in_section_def service_items_def srv_item_def list_all_iff)

lemma service_items_valid:
  assumes "records_ok r" "set subs \<subseteq> set (sr_subtypes r)" "set a \<subseteq> set (sr_a_addrs r)" "set aaaa \<subseteq> set (sr_aaaa_addrs r)"
  shows "list_all item_valid (service_items r ttl flush ptr subs srv txt a aaaa)"
  using assms by (auto simp: records_ok_def service_items_def srv_item_def item_valid_def list_all_iff)

lemma nsec_items_valid: "records_ok r \<Longrightarrow> list_all item_valid (nsec_items r nsec)"
  by (simp add: nsec_items_def item_valid_def records_ok_def)

text \<open>Every name suffix an answer of this service may hold.\<close>

definition all_suffixes :: "service_records \<Rightarrow> bytes list set" where
  "all_suffixes r = message_suffixes
     (service_items r (sr_ttl_secs r) True True (sr_subtypes r) True True (sr_a_addrs r) (sr_aaaa_addrs r) @ nsec_items r True)"

lemma message_suffixes_names:
  "message_suffixes its = (\<Union>it\<in>set its. \<Union>n\<in>set (item_names it). (\<lambda>j. map lower (drop j (name_labels n))) ` {..<length (name_labels n)})"
  by (simp add: message_suffixes_def lessThan_atLeast0)

lemma suffixes_sub:
  "(\<Union>it\<in>set xs. set (item_names it)) \<subseteq> (\<Union>it\<in>set ys. set (item_names it)) \<Longrightarrow>
   message_suffixes xs \<subseteq> message_suffixes ys"
  unfolding message_suffixes_names by blast

text \<open>A push of the NSEC record that does not fit leaves the message as it was.\<close>

lemma answered_reads:
  assumes new: "builder_try_new DEFAULT_COMPRESSION_TABLE out h = Inr b0" "empty_sections h"
    and items: "in_section 0 qs" "in_section 1 an" "list_all item_valid (qs @ an)" "records_ok r"
    and inj: "inj_on hash_suffix (message_suffixes (qs @ an @ nsec_items r True))"
    and run: "bseq (map push_item (qs @ an)) b0 = (Inr (), b1)" "push_service_nsec r b1 = (Inr nsec, b)"
    and fin: "builder_finish b = (Inr n, out')" "n \<le> 16384"
  shows "\<exists>rd. message_reads (take n out') h qs an [] (nsec_items r nsec) rd"
proof -
  let ?p = "push_item (Add_Nsec (sr_instance r) (sr_ttl_secs r) (emitted_nsec_types r) True)"
  have sub: "message_suffixes (qs @ an @ nsec_items r nsec) \<subseteq> message_suffixes (qs @ an @ nsec_items r True)"
    by (cases nsec) (auto simp: nsec_items_def message_suffixes_names)
  have secs: "in_section 2 []" "in_section 3 (nsec_items r nsec)" by (simp_all add: in_section_def nsec_items_def)
  have valid: "list_all item_valid (qs @ an @ [] @ nsec_items r nsec)"
    using items(3) nsec_items_valid [OF items(4)] by simp
  have i: "inj_on hash_suffix (message_suffixes (qs @ an @ [] @ nsec_items r nsec))"
    using inj_on_subset [OF inj sub] by simp
  have k: "keeps (bseq (map push_item items))" for items by (rule keeps_bseq) (auto simp: keeps_push_item)
  obtain res b2 where nb: "?p b1 = (res, b2)" by (cases "?p b1")
  show ?thesis
  proof (cases res)
    case (Inr u)
    then have b: "nsec" "b2 = b" using run(2) nb by (simp_all add: push_service_nsec_def)
    have "bseq (map push_item (qs @ an) @ [?p]) b0 = (Inr (), b)"
      unfolding bseq_append_Inr using run(1) nb Inr b by (intro exI [of _ b1]) simp
    then have "bseq (map push_item (qs @ an @ [] @ nsec_items r nsec)) b0 = (Inr (), b)"
      using b(1) by (simp add: nsec_items_def del: push_item.simps)
    from finished_message_reads [OF new items(1,2) secs valid i this _ fin(1)] fin(2) builder_finish_n [OF fin(1)]
    show ?thesis by simp
  next
    case (Inl e)
    then have b: "\<not> nsec" "b = restore (checkpoint b1) b2" using run(2) nb by (simp_all add: push_service_nsec_def)
    have e0: "ext b0 b1" using keepsD [OF k run(1)] .
    then have wf: "builder_wf b1" using ext_wf builder_wf_new [OF new(1)] by blast
    have "ext b1 b2" using keepsD [OF keeps_push_item nb] .
    from same_live_restore [OF wf this] b(2) have s: "same_live b b1" by simp
    have "b_cursor b0 = HEADER_SIZE" using new(1) by (auto simp: builder_try_new_def split: if_splits)
    then have c: "HEADER_SIZE \<le> b_cursor b1" "b_cursor b = b_cursor b1"
      using e0 s by (simp_all add: ext_def same_live_def)
    from same_live_finish [OF s] c fin(1) builder_finish_n [OF fin(1)]
    obtain o1 where f1: "builder_finish b1 = (Inr n, o1)" "take n out' = take n o1"
      by (cases "builder_finish b1") auto
    have "bseq (map push_item (qs @ an @ [] @ nsec_items r nsec)) b0 = (Inr (), b1)"
      using run(1) b(1) by (simp add: nsec_items_def)
    from finished_message_reads [OF new items(1,2) secs valid i this _ f1(1)] fin(2) builder_finish_n [OF f1(1)] f1(2)
    show ?thesis by simp
  qed
qed

subsection \<open>The writers\<close>

lemma bbind_Inr: "bbind m f b = (Inr x, b') \<longleftrightarrow> (\<exists>u b1. m b = (Inr u, b1) \<and> f u b1 = (Inr x, b'))"
  by (auto simp: bbind_def split: prod.splits sum.splits)

lemma bret_Inr [simp]: "bret x b = (Inr y, b') \<longleftrightarrow> y = x \<and> b' = b"
  by (auto simp: bret_def)

text \<open>Pushes one after the other are one sequence of pushes.\<close>

lemma bbind_bseq_append: "bbind (bseq xs) (\<lambda>_. bbind (bseq ys) f) = bbind (bseq (xs @ ys)) f"
  by (rule ext) (simp add: bbind_def bseq_append split: prod.splits sum.splits)

lemma bbind_push_if: "bbind (push_if c m) f = bbind (bseq (if c then [m] else [])) (\<lambda>_. f c)"
  by (rule ext) (auto simp: push_if_def bbind_def bret_def split: prod.splits sum.splits)

lemma bbind_push_unhinted:
  "bbind (push_unhinted hinted push as) f =
   bbind (bseq (map push (filter (\<lambda>a. \<not> hinted a) as))) (\<lambda>_. f (filter (\<lambda>a. \<not> hinted a) as))"
proof (induction hinted push as arbitrary: f rule: push_unhinted.induct)
  case (1 hinted push)
  show ?case by (rule ext) (simp add: bbind_def bret_def)
next
  case (2 hinted push a as)
  have b: "bbind (push a) (\<lambda>_. g) = bbind (bseq [push a]) (\<lambda>_. g)" for g :: "'b build"
    by (rule ext) (auto simp: bbind_def split: prod.splits sum.splits)
  have c: "bbind (bbind m (\<lambda>_. bbind m' (\<lambda>x. bret (a # x)))) f = bbind m (\<lambda>_. bbind m' (\<lambda>x. f (a # x)))"
    for m :: "unit build" and m' :: "bytes list build"
    by (rule ext) (auto simp: bbind_def bret_def split: prod.splits sum.splits)
  show ?case
  proof (cases "hinted a")
    case False
    then show ?thesis using 2(2) [of "\<lambda>x. f (a # x)"] bbind_bseq_append [of "[push a]"]
      by (simp add: c b del: bseq.simps)
  qed (simp add: 2(1))
qed

text \<open>What an answer leaves out is what the querier said it knows, and nothing else.\<close>

definition unhinted :: "service_records \<Rightarrow> (resource_type \<Rightarrow> bytes \<Rightarrow> bool) \<Rightarrow> emitted_records" where
  "unhinted r hint =
     \<lparr>em_ptr = (\<not> hint RT_Ptr (write_canonical_wire_name (as_str (sr_instance r)) [])),
      em_srv = (\<not> hint RT_Srv (canonical_srv r)), em_txt = (\<not> hint RT_Txt (write_canonical_txt (sr_txt r) [])),
      em_a = filter (\<lambda>a. \<not> hint RT_A a) (sr_a_addrs r), em_aaaa = filter (\<lambda>a. \<not> hint RT_AAAA a) (sr_aaaa_addrs r),
      em_subtypes = (sr_subtypes r \<noteq> []), em_nsec = False\<rparr>"

abbreviation answer_items :: "service_records \<Rightarrow> emitted_records \<Rightarrow> item list" where
  "answer_items r e \<equiv> service_items r (sr_ttl_secs r) True (em_ptr e) (sr_subtypes r) (em_srv e) (em_txt e) (em_a e) (em_aaaa e)"

definition with_nsec :: "service_records \<Rightarrow> emitted_records \<Rightarrow> emitted_records build" where
  "with_nsec r e = (if \<not> em_is_empty e then bbind (push_service_nsec r) (\<lambda>nsec. bret (e\<lparr>em_nsec := nsec\<rparr>)) else bret e)"

lemma filtered_eq:
  "write_announce_filtered r out hint =
     compose response_header
       (bbind (bseq (map push_item (answer_items r (unhinted r hint)))) (\<lambda>_. with_nsec r (unhinted r hint))) out"
  by (simp add: write_announce_filtered_def bbind_push_if bbind_push_unhinted bbind_bseq_append Let_def
      service_items_def srv_item_def unhinted_def with_nsec_def comp_def if_distrib [of "map push_item"] del: bseq.simps)

lemma announce_eq:
  "write_announce r out =
     compose response_header
       (bbind (bseq (map push_item (answer_items r (unhinted r (\<lambda>_ _. False))))) (\<lambda>_. push_service_nsec r)) out"
  by (simp add: write_announce_def service_items_def srv_item_def unhinted_def comp_def del: bseq.simps)

lemma with_nsec_Inr:
  "with_nsec r e b1 = (Inr e', b) \<longleftrightarrow>
     (if em_is_empty e then e' = e \<and> b = b1 else \<exists>ns. push_service_nsec r b1 = (Inr ns, b) \<and> e' = e\<lparr>em_nsec := ns\<rparr>)"
  by (auto simp: with_nsec_def bbind_Inr)

lemma answer_suffixes:
  assumes "set a \<subseteq> set (sr_a_addrs r)" "set aaaa \<subseteq> set (sr_aaaa_addrs r)" "subs = sr_subtypes r"
  shows "message_suffixes (service_items r ttl flush ptr subs srv txt a aaaa @ nsec_items r True) \<subseteq> all_suffixes r"
  unfolding all_suffixes_def using assms
  by (intro suffixes_sub) (auto simp: service_items_def srv_item_def nsec_items_def split: if_splits)

lemma empty_response_header: "empty_sections response_header"
  by (simp add: response_header_def empty_sections_def header_new_def)

text \<open>
  C22. What is said of known answers is true, and nothing else is left out.  A response composed against
  the querier's known answers reads back as exactly the PTR, SRV, TXT and address records that the
  hints do not recognise, with all the subtype PTRs, unique records with the cache-flush bit, and the
  record of what was emitted names exactly these; an NSEC record rides along when it fits, and only in a
  response that says something else.
\<close>
theorem answers_read:
  assumes "write_announce_filtered r out hint = (Inr (n, e), out')" "n \<le> 16384" "records_ok r"
    and "inj_on hash_suffix (all_suffixes r)"
  shows "e = (unhinted r hint)\<lparr>em_nsec := em_nsec e\<rparr> \<and> (em_is_empty e \<longrightarrow> \<not> em_nsec e) \<and>
     (\<exists>rd. message_reads (take n out') response_header [] (answer_items r e) [] (nsec_items r (em_nsec e)) rd)"
proof (rule compose_Inr [OF assms(1) [unfolded filtered_eq]])
  let ?u = "unhinted r hint"
  fix b0 b assume new: "builder_try_new DEFAULT_COMPRESSION_TABLE out response_header = Inr b0"
    and body: "bbind (bseq (map push_item (answer_items r ?u))) (\<lambda>_. with_nsec r ?u) b0 = (Inr e, b)"
    and fin: "builder_finish b = (Inr n, out')"
  from body obtain b1 where b1: "bseq (map push_item (answer_items r ?u)) b0 = (Inr (), b1)"
    "with_nsec r ?u b1 = (Inr e, b)" by (auto simp: bbind_Inr)
  have sub: "set (em_a ?u) \<subseteq> set (sr_a_addrs r)" "set (em_aaaa ?u) \<subseteq> set (sr_aaaa_addrs r)"
    by (auto simp: unhinted_def)
  have valid: "list_all item_valid (answer_items r ?u)" using service_items_valid [OF assms(3) _ sub] by simp
  have inj: "inj_on hash_suffix (message_suffixes (answer_items r ?u @ nsec_items r True))"
    using inj_on_subset [OF assms(4) answer_suffixes [OF sub refl]] .
  have nil: "in_section 0 []" "in_section 2 []" "in_section 3 []" by (simp_all add: in_section_def)
  show ?thesis
  proof (cases "em_is_empty ?u")
    case True
    with b1 have e: "e = ?u" "b = b1" by (simp_all add: with_nsec_Inr)
    have nn: "\<not> em_nsec ?u" by (simp add: unhinted_def)
    have "inj_on hash_suffix (message_suffixes (answer_items r ?u))"
      by (rule inj_on_subset [OF inj]) (auto simp: message_suffixes_names)
    from this valid b1(1) fin assms(2) builder_finish_n [OF fin] e(2)
    have "\<exists>rd. message_reads (take n out') response_header [] (answer_items r ?u) [] [] rd"
      by (intro finished_message_reads [OF new empty_response_header nil(1) service_items_section nil(2,3)]) simp_all
    then show ?thesis using e nn by (simp add: nsec_items_def)
  next
    case False
    with b1 obtain ns where e: "push_service_nsec r b1 = (Inr ns, b)" "e = ?u\<lparr>em_nsec := ns\<rparr>"
      by (auto simp: with_nsec_Inr)
    have "\<exists>rd. message_reads (take n out') response_header [] (answer_items r ?u) [] (nsec_items r ns) rd"
      using valid inj b1(1)
      by (intro answered_reads [OF new empty_response_header nil(1) service_items_section _ assms(3) _ _ e(1) fin assms(2)])
        simp_all
    moreover have "\<not> em_is_empty e" using e(2) False by (simp add: em_is_empty_def)
    ultimately show ?thesis using e(2) by simp
  qed
qed

text \<open>
  C23. An announcement says everything: it reads back as the PTR of the service type, every subtype
  PTR, SRV, TXT and every address of the host, the unique ones with the cache-flush bit, and the NSEC
  record exactly when the flag returned says so, a push of it that did not fit leaving no trace.
\<close>
theorem announce_reads:
  assumes "write_announce r out = (Inr (n, nsec), out')" "n \<le> 16384" "records_ok r"
    and "inj_on hash_suffix (all_suffixes r)"
  shows "\<exists>rd. message_reads (take n out') response_header []
     (service_items r (sr_ttl_secs r) True True (sr_subtypes r) True True (sr_a_addrs r) (sr_aaaa_addrs r)) []
     (nsec_items r nsec) rd"
proof (rule compose_Inr [OF assms(1) [unfolded announce_eq]])
  let ?u = "unhinted r (\<lambda>_ _. False)"
  have u: "answer_items r ?u =
      service_items r (sr_ttl_secs r) True True (sr_subtypes r) True True (sr_a_addrs r) (sr_aaaa_addrs r)"
    by (simp add: unhinted_def)
  fix b0 b assume new: "builder_try_new DEFAULT_COMPRESSION_TABLE out response_header = Inr b0"
    and body: "bbind (bseq (map push_item (answer_items r ?u))) (\<lambda>_. push_service_nsec r) b0 = (Inr nsec, b)"
    and fin: "builder_finish b = (Inr n, out')"
  from body obtain b1 where b1: "bseq (map push_item (answer_items r ?u)) b0 = (Inr (), b1)"
    "push_service_nsec r b1 = (Inr nsec, b)" by (auto simp: bbind_Inr)
  have "in_section 0 []" by (simp add: in_section_def)
  moreover have "list_all item_valid (answer_items r ?u)"
    using service_items_valid [OF assms(3)] by (simp add: unhinted_def)
  moreover have "inj_on hash_suffix (message_suffixes (answer_items r ?u @ nsec_items r True))"
    by (rule inj_on_subset [OF assms(4)]) (rule answer_suffixes; simp add: unhinted_def)
  ultimately have "\<exists>rd. message_reads (take n out') response_header [] (answer_items r ?u) [] (nsec_items r nsec) rd"
    using b1(1)
    by (intro answered_reads [OF new empty_response_header _ service_items_section _ assms(3) _ _ b1(2) fin assms(2)])
      simp_all
  then show ?thesis using u by simp
qed

subsection \<open>Goodbyes and legacy replies\<close>

lemma list_all2_right:
  "list_all2 P xs ys \<Longrightarrow> (\<And>x y. P x y \<Longrightarrow> x \<in> set xs \<Longrightarrow> Q y) \<Longrightarrow> \<forall>y\<in>set ys. Q y"
  by (induction xs ys rule: list_all2_induct) auto

definition goodbye_items ::
  "service_records \<Rightarrow> bool \<Rightarrow> bool \<Rightarrow> bool \<Rightarrow> bool \<Rightarrow> bytes list \<Rightarrow> bytes list \<Rightarrow> item list" where
  "goodbye_items r ptr srv txt subtypes a aaaa =
     service_items r 0 True ptr [] srv txt [] [] @
     service_items r 0 True False (if subtypes then sr_subtypes r else []) False False a aaaa"

text \<open>
  C24. A goodbye withdraws what it is asked to and nothing else: it reads back as the chosen PTR, SRV,
  TXT, subtype PTR and address records, every one with TTL 0.
\<close>
theorem goodbye_reads:
  assumes "write_goodbye r out ptr srv txt subtypes a aaaa = (Inr (n, u), out')" "n \<le> 16384" "records_ok r"
    and "list_all (\<lambda>x. length x = 4) a" "list_all (\<lambda>x. length x = 16) aaaa"
    and "inj_on hash_suffix (message_suffixes (goodbye_items r ptr srv txt subtypes a aaaa))"
  shows "(\<exists>rd. message_reads (take n out') response_header [] (goodbye_items r ptr srv txt subtypes a aaaa) [] [] rd) \<and>
     (\<forall>rd x. reader_try_parse (take n out') = Inr rd \<longrightarrow> x \<in> set (record_items (answers rd)) \<longrightarrow>
       (\<exists>rr. x = Inr rr \<and> rr_ttl rr = 0))"
proof -
  let ?g = "goodbye_items r ptr srv txt subtypes a aaaa"
  have e: "push_goodbye_records r ptr srv txt subtypes a aaaa = bseq (map push_item ([] @ ?g @ [] @ []))"
    by (simp add: push_goodbye_records_def goodbye_items_def service_items_def srv_item_def comp_def del: bseq.simps)
  have s: "in_section 0 []" "in_section 1 ?g" "in_section 2 []" "in_section 3 []"
    using service_items_section by (simp_all add: in_section_def goodbye_items_def)
  have v: "list_all item_valid ([] @ ?g @ [] @ [])"
    using assms(3-5) by (auto simp: goodbye_items_def service_items_def srv_item_def records_ok_def item_valid_def list_all_iff)
  from composed_reads [OF assms(1) [unfolded write_goodbye_def e] assms(2) empty_response_header s v] assms(6)
  obtain rd where rd: "message_reads (take n out') response_header [] ?g [] [] rd" by auto
  then obtain an where an: "record_items (answers rd) = map Inr an" "list_all2 item_record ?g an"
    "reader_try_parse (take n out') = Inr rd" by (auto simp: message_reads_def)
  have "\<forall>rr\<in>set an. rr_ttl rr = 0"
    by (rule list_all2_right [OF an(2)])
      (auto simp: goodbye_items_def service_items_def srv_item_def record_is_def split: if_splits)
  with rd an show ?thesis by auto
qed

definition legacy_ttl :: "service_records \<Rightarrow> u32" where
  "legacy_ttl r = min (sr_ttl_secs r) LEGACY_UNICAST_MAX_TTL_SECS"

text \<open>
  C25. A legacy reply is one a plain DNS resolver accepts: it carries the identifier of the query, echoes
  its question, and answers with every record of the service, no cache-flush bit set and no TTL above
  ten seconds; and what was emitted is everything.
\<close>
theorem legacy_reads:
  assumes "write_legacy_response r query_id qname qtype qclass out = (Inr (n, e), out')" "n \<le> 16384"
    and "records_ok r" "name_ok qname"
    and "inj_on hash_suffix (message_suffixes (Question qname qtype qclass False #
       service_items r (legacy_ttl r) False True (sr_subtypes r) True True (sr_a_addrs r) (sr_aaaa_addrs r)))"
  shows "\<exists>rd. message_reads (take n out') (response_header\<lparr>hdr_id := query_id\<rparr>) [Question qname qtype qclass False]
       (service_items r (legacy_ttl r) False True (sr_subtypes r) True True (sr_a_addrs r) (sr_aaaa_addrs r)) [] [] rd \<and>
     hdr_id (mr_header rd) = query_id \<and>
     (\<forall>x\<in>set (record_items (answers rd)). \<exists>rr. x = Inr rr \<and> \<not> rr_cache_flush rr \<and> rr_ttl rr \<le> 10) \<and>
     em_a e = sr_a_addrs r \<and> em_aaaa e = sr_aaaa_addrs r \<and> em_ptr e \<and> em_srv e \<and> em_txt e \<and> \<not> em_nsec e"
proof -
  let ?h = "response_header\<lparr>hdr_id := query_id\<rparr>" and ?q = "Question qname qtype qclass False"
  let ?an = "service_items r (legacy_ttl r) False True (sr_subtypes r) True True (sr_a_addrs r) (sr_aaaa_addrs r)"
  let ?e = "\<lparr>em_ptr = True, em_srv = True, em_txt = True, em_a = sr_a_addrs r, em_aaaa = sr_aaaa_addrs r,
                   em_subtypes = (sr_subtypes r \<noteq> []), em_nsec = False\<rparr>"
  have w: "write_legacy_response r query_id qname qtype qclass out =
      compose ?h (bbind (bseq (map push_item ([?q] @ ?an @ [] @ []))) (\<lambda>_. bret ?e)) out"
    by (simp add: write_legacy_response_def Let_def service_items_def srv_item_def legacy_ttl_def comp_def del: bseq.simps)
  from assms(1) have "compose ?h (bseq (map push_item ([?q] @ ?an @ [] @ []))) out = (Inr (n, ()), out')" and e: "e = ?e"
    unfolding w by (auto simp: compose_def bbind_def bret_def split: sum.splits prod.splits)
  moreover have "empty_sections ?h" using empty_response_header by (simp add: empty_sections_def)
  moreover have "in_section 0 [?q]" "in_section 2 []" "in_section 3 []" by (simp_all add: in_section_def)
  moreover have "list_all item_valid ([?q] @ ?an @ [] @ [])"
    using service_items_valid [OF assms(3)] assms(4) by (simp add: item_valid_def)
  ultimately obtain rd where rd: "message_reads (take n out') ?h [?q] ?an [] [] rd"
    using composed_reads [of ?h "[?q]" ?an "[]" "[]" out n "()" out'] service_items_section assms(2,5) by auto
  then obtain an where an: "record_items (answers rd) = map Inr an" "list_all2 item_record ?an an"
    and h: "hdr_id (mr_header rd) = query_id" by (auto simp: message_reads_def)
  have f: "class_flush False AND CACHE_FLUSH_BIT = 0" "(1 :: u16) AND CACHE_FLUSH_BIT = 0" by code_simp+
  have "legacy_ttl r \<le> 10" by (simp add: legacy_ttl_def LEGACY_UNICAST_MAX_TTL_SECS_def)
  then have "\<forall>rr\<in>set an. \<not> rr_cache_flush rr \<and> rr_ttl rr \<le> 10"
    by (intro list_all2_right [OF an(2)]) (auto simp: f service_items_def srv_item_def record_is_def)
  with rd an(1) h e show ?thesis by (intro exI [of _ rd]) auto
qed

subsection \<open>A service of one address\<close>

definition sample_service :: service_records where
  "sample_service = sr_add_a [10, 0, 0, 1] (sr_new (Name []) (Name [97]) (Name []) 80 120)"

lemma answers_read_witness:
  "\<exists>n e out. write_announce_filtered sample_service (replicate 90 0) (\<lambda>t _. t = RT_Txt) = (Inr (n, e), out) \<and>
     em_srv e \<and> \<not> em_txt e \<and> em_a e = [[10, 0, 0, 1]]"
proof -
  let ?w = "write_announce_filtered sample_service (replicate 90 0) (\<lambda>t _. t = RT_Txt)"
  have "case ?w of (Inr (n, _), _) \<Rightarrow> n \<le> 16384 | _ \<Rightarrow> False" by code_simp
  then obtain n e out where w: "?w = (Inr (n, e), out)" "n \<le> 16384" by (auto split: prod.splits sum.splits)
  have ok: "records_ok sample_service" by code_simp
  have i: "inj_on hash_suffix (all_suffixes sample_service)"
    unfolding all_suffixes_def message_suffixes_def by (rule inj_on_set) code_simp
  have "(unhinted sample_service (\<lambda>t _. t = RT_Txt))\<lparr>em_nsec := x\<rparr> =
      \<lparr>em_ptr = True, em_srv = True, em_txt = False, em_a = [[10, 0, 0, 1]], em_aaaa = [], em_subtypes = False, em_nsec = x\<rparr>" for x
    by (simp add: unhinted_def sample_service_def sr_add_a_def sr_new_def arc_push_def)
  with answers_read [OF w ok i] w(1) show ?thesis by (metis emitted_records.select_convs(2-4))
qed

lemma announce_reads_witness:
  "\<exists>n f out rd. write_announce sample_service (replicate 90 0) = (Inr (n, f), out) \<and>
     reader_try_parse (take n out) = Inr rd \<and> length (record_items (answers rd)) = 4"
proof -
  let ?w = "write_announce sample_service (replicate 90 0)"
  have "case ?w of (Inr (n, _), _) \<Rightarrow> n \<le> 16384 | _ \<Rightarrow> False" by code_simp
  then obtain n f out where w: "?w = (Inr (n, f), out)" "n \<le> 16384" by (auto split: prod.splits sum.splits)
  have ok: "records_ok sample_service" by code_simp
  have i: "inj_on hash_suffix (all_suffixes sample_service)"
    unfolding all_suffixes_def message_suffixes_def by (rule inj_on_set) code_simp
  from announce_reads [OF w ok i] show ?thesis
    using w(1) by (auto simp: message_reads_def service_items_def sample_service_def sr_add_a_def sr_new_def arc_push_def
        dest!: list_all2_lengthD)
qed

lemma goodbye_reads_witness:
  "\<exists>n out rd. write_goodbye sample_service (replicate 90 0) True True True False [[10, 0, 0, 1]] [] = (Inr (n, ()), out) \<and>
     reader_try_parse (take n out) = Inr rd \<and> length (record_items (answers rd)) = 4"
proof -
  let ?w = "write_goodbye sample_service (replicate 90 0) True True True False [[10, 0, 0, 1]] []"
  have "case ?w of (Inr (n, _), _) \<Rightarrow> n \<le> 16384 | _ \<Rightarrow> False" by code_simp
  then obtain n out where w: "?w = (Inr (n, ()), out)" "n \<le> 16384" by (auto split: prod.splits sum.splits)
  have ok: "records_ok sample_service" by code_simp
  have a: "list_all (\<lambda>x. length x = 4) [[10, 0, 0, 1 :: u8]]" "list_all (\<lambda>x. length x = 16) ([] :: bytes list)" by simp_all
  have i: "inj_on hash_suffix (message_suffixes (goodbye_items sample_service True True True False [[10, 0, 0, 1]] []))"
    unfolding message_suffixes_def by (rule inj_on_set) code_simp
  from goodbye_reads [OF w ok a i] show ?thesis
    using w(1) by (auto simp: message_reads_def goodbye_items_def service_items_def dest!: list_all2_lengthD)
qed

lemma legacy_reads_witness:
  "\<exists>n e out rd. write_legacy_response sample_service 7 (Name []) RT_Ptr Class_In (replicate 90 0) = (Inr (n, e), out) \<and>
     reader_try_parse (take n out) = Inr rd \<and> hdr_id (mr_header rd) = 7"
proof -
  let ?w = "write_legacy_response sample_service 7 (Name []) RT_Ptr Class_In (replicate 90 0)"
  have "case ?w of (Inr (n, _), _) \<Rightarrow> n \<le> 16384 | _ \<Rightarrow> False" by code_simp
  then obtain n e out where w: "?w = (Inr (n, e), out)" "n \<le> 16384" by (auto split: prod.splits sum.splits)
  have ok: "records_ok sample_service" "name_ok (Name [])" by code_simp+
  have i: "inj_on hash_suffix (message_suffixes (Question (Name []) RT_Ptr Class_In False #
       service_items sample_service (legacy_ttl sample_service) False True (sr_subtypes sample_service) True True
         (sr_a_addrs sample_service) (sr_aaaa_addrs sample_service)))"
    unfolding message_suffixes_def by (rule inj_on_set) code_simp
  from legacy_reads [OF w ok i] show ?thesis using w(1) by (auto simp: message_reads_def)
qed

end
