(* ===== verification/TieBreak.thy ===== *)
theory TieBreak
  imports Proposal RespondMessage
begin

text \<open>
  The tie-break between two hosts of this implementation: the probe one writes (\<open>write_probe\<close>), as the
  other parses and adjudicates it (\<open>adjudicate\<close>), compares the two proposals.
\<close>

subsection \<open>Canonical octets of what we wrote\<close>

lemma canonical_labels:
  assumes "list_all label_ok ls" "map lower ls = ls"
  shows "concat (map canonical_wire_label ls) @ [0] = wire_encode ls"
proof -
  have "canonical_wire_label l = word_of_nat (length l) # l" if "label_ok l" "lower l = l" for l
    using that by (auto simp: canonical_wire_label_def label_ok_def MAX_LABEL_BYTES_def lower_def)
  then show ?thesis using assms by (induction ls) auto
qed

lemma canonical_name:
  assumes "name_ok n"
  shows "write_canonical_wire_name (as_str n) out = out @ wire_encode (name_labels n)"
proof (cases "strip_dot (as_str n) = []")
  case True
  then show ?thesis by (simp add: write_canonical_wire_name_def name_labels_def labels_of_str_def)
next
  case False
  then have "split_dot (strip_dot (as_str n)) = name_labels n" by (simp add: name_labels_def labels_of_str_def)
  then show ?thesis using canonical_labels name_ok_labels(1,3) [OF assms] False
    by (simp add: write_canonical_wire_name_def Let_def)
qed

lemma txt_segments_short: "Inr s \<in> set (txt_segments t) \<Longrightarrow> length s \<le> 255"
proof (induction t rule: txt_segments.induct)
  case (1 t)
  have "length s \<le> 255" if "txt_next t = (Some (Inr s), t')" for t'
    using that unat_u8_le [of "hd t"] by (auto simp: txt_next_def Let_def split: list.splits if_splits)
  with 1 show ?case by (subst (asm) (2) txt_segments.simps) (auto split: prod.splits option.splits, metis)
qed

text \<open>The element of the sorted list that a record of a probe is compared by.\<close>

fun auth_elem :: "item \<Rightarrow> bytes" where
  "auth_elem (Auth_Srv n l p w q tg) =
     to_be16 33 @ to_be16 p @ to_be16 w @ to_be16 q @ wire_encode (name_labels tg)"
| "auth_elem (Auth_Txt n l segs) = to_be16 16 @ encode_txt segs"
| "auth_elem (Auth_A n l a) = to_be16 1 @ a"
| "auth_elem (Auth_AAAA n l a) = to_be16 28 @ a"
| "auth_elem it = []"

fun auth_owner :: "item \<Rightarrow> name" where
  "auth_owner (Auth_Srv n l p w q tg) = n"
| "auth_owner (Auth_Txt n l segs) = n"
| "auth_owner (Auth_A n l a) = n"
| "auth_owner (Auth_AAAA n l a) = n"
| "auth_owner it = Name []"

fun of_probe :: "item \<Rightarrow> bool" where
  "of_probe (Auth_Srv n l p w q tg) \<longleftrightarrow> True"
| "of_probe (Auth_Txt n l segs) \<longleftrightarrow> True"
| "of_probe (Auth_A n l a) \<longleftrightarrow> True"
| "of_probe (Auth_AAAA n l a) \<longleftrightarrow> True"
| "of_probe it \<longleftrightarrow> False"

lemma probe_codes:
  "rtype_from_u16 1 = RT_A" "rtype_from_u16 28 = RT_AAAA" "rtype_from_u16 33 = RT_Srv" "rtype_from_u16 16 = RT_Txt"
  "rclass_from_u16 1 = Class_In"
  by code_simp+

lemma probe_item_record:
  assumes "item_record it r" "of_probe it"
  shows "rr_rclass r = Class_In" "nr_items (rr_name r) = map Inr (name_labels (auth_owner it))"
    "write_canonical_rdata r AS_SENT (to_be16 (rtype_to_u16 (rr_rtype r))) = (Inr (), auth_elem it)"
proof -
  show "rr_rclass r = Class_In" "nr_items (rr_name r) = map Inr (name_labels (auth_owner it))"
    using assms by (cases it; simp add: record_is_def probe_codes)+
  have t: "rtype_to_u16 RT_A = 1" "rtype_to_u16 RT_AAAA = 28" "rtype_to_u16 RT_Srv = 33" "rtype_to_u16 RT_Txt = 16"
    by code_simp+
  have addr: "rr_rdata r = a" if "rdata_view r = Inr (Rdata_A a)" "rr_rtype r = RT_A" for a
    using that by (auto simp: rdata_view_def a_try_from_rdata_def rbind_eq_Inr ok_or_eq_Inr slice_def split: if_splits)
  have addr6: "rr_rdata r = a" if "rdata_view r = Inr (Rdata_AAAA a)" "rr_rtype r = RT_AAAA" for a
    using that by (auto simp: rdata_view_def aaaa_try_from_rdata_def rbind_eq_Inr ok_or_eq_Inr slice_def split: if_splits)
  show "write_canonical_rdata r AS_SENT (to_be16 (rtype_to_u16 (rr_rtype r))) = (Inr (), auth_elem it)"
  proof (cases it)
    case (Auth_A n l a)
    then show ?thesis using assms addr by (simp add: record_is_def probe_codes t write_canonical_rdata_def)
  next
    case (Auth_AAAA n l a)
    then show ?thesis using assms addr6 by (simp add: record_is_def probe_codes t write_canonical_rdata_def)
  next
    case (Auth_Txt n l segs)
    with assms obtain x where x: "rdata_view r = Inr (Rdata_Txt x)" "rr_rtype r = RT_Txt"
      "txt_segments x = map Inr (if segs = [] then [[]] else segs)"
      by (auto simp: record_is_def probe_codes view_txt_def split: sum.splits rdata.splits)
    then show ?thesis using Auth_Txt
      by (simp add: write_canonical_rdata_def write_segments_ok t encode_txt_def)
  next
    case (Auth_Srv n l p w q tg)
    with assms obtain s where s: "rdata_view r = Inr (Rdata_Srv s)" "rr_rtype r = RT_Srv"
      "srv_priority s = p" "srv_weight s = w" "srv_port s = q" "whole_name (srv_target s) = Some (name_labels tg)"
      by (auto simp: record_is_def probe_codes view_srv_def whole_name_Some split: sum.splits rdata.splits)
    then show ?thesis using Auth_Srv write_wire_cases [of "srv_target s" "to_be16 33 @ to_be16 p @ to_be16 w @ to_be16 q" False]
      by (simp add: write_canonical_rdata_def AS_SENT_def t)
  qed (use assms in simp_all)
qed


subsection \<open>The two lists\<close>

lemma same_owner_sym: "same_owner a b \<longleftrightarrow> same_owner b a"
  by (auto simp: same_owner_def)

lemma same_owner_trans: "same_owner a b \<Longrightarrow> same_owner b c \<Longrightarrow> same_owner a c"
  by (simp add: same_owner_def)

lemma names_match_owner:
  assumes "name_ok n" "name_labels n \<noteq> []" "nr_items i = map Inr (name_labels k)"
  shows "names_match n i \<longleftrightarrow> same_owner k n"
proof -
  have "as_str n \<noteq> []" using assms(2) by (auto simp: name_labels_def labels_of_str_def strip_dot_def)
  then show ?thesis
    using names_match_labels [OF assms(1), of i] assms(3) name_ok_labels_lower [OF assms(1)]
    by (auto simp: same_owner_labels inj_map_eq_map)
qed

lemma canonical_txt_encode:
  assumes "list_all (\<lambda>s. length s \<le> 255) segs"
  shows "write_canonical_txt segs out = out @ encode_txt segs"
proof -
  have "concat (map canonical_txt_segment segs) = concat (map (\<lambda>s. word_of_nat (length s) # s) segs)"
    using assms by (induction segs) (auto simp: canonical_txt_segment_def)
  moreover have "list_ex (\<lambda>s. length s \<le> 255) segs \<longleftrightarrow> segs \<noteq> []" using assms by (cases segs) auto
  ultimately show ?thesis by (simp add: write_canonical_txt_def encode_txt_def)
qed

lemma our_proposal_items:
  assumes "records_ok r" "list_all (\<lambda>s. length s \<le> 255) (sr_txt r)"
  shows "our_proposal r =
     sort (map auth_elem (filter (\<lambda>it. same_owner (auth_owner it) (sr_instance r)) (probe_authority r)))"
proof -
  have h: "name_ok (sr_host r)" using assms(1) by (simp add: records_ok_def)
  have t: "rtype_to_u16 RT_A = 1" "rtype_to_u16 RT_AAAA = 28" "rtype_to_u16 RT_Srv = 33" "rtype_to_u16 RT_Txt = 16"
    by code_simp+
  have s: "same_owner (sr_instance r) (sr_instance r)" by (simp add: same_owner_def)
  have f: "filter (\<lambda>it. same_owner (auth_owner it) (sr_instance r)) (probe_authority r) =
     (if same_owner (sr_host r) (sr_instance r) then probe_authority r else take 2 (probe_authority r))"
    by (simp add: probe_authority_def s filter_id_conv filter_empty_conv)
  show ?thesis
    unfolding f our_proposal_def same_owner_sym [of "sr_instance r"]
    by (rule arg_cong [where f = sort])
      (simp add: probe_authority_def canonical_srv_def canonical_name [OF h] t
        canonical_txt_encode [OF assms(2)] comp_def numeral_2_eq_2)
qed

lemma proposal_elems_probe:
  assumes n: "name_ok n" "name_labels n \<noteq> []"
    and q: "item_question (probe_question peer) q" "same_owner (sr_instance peer) n"
    and rs: "list_all2 item_record its rs" "list_all of_probe its"
  shows "proposal_elems [Inr q] n (map Inr rs) =
     Inr (map auth_elem (filter (\<lambda>it. same_owner (auth_owner it) n) its))"
  using rs
proof (induction its rs rule: list_all2_induct)
  case (Cons it its r rs)
  then have it: "item_record it r" "of_probe it" by simp_all
  note p = probe_item_record [OF it]
  have d: "name_fully_decodes (rr_name r)" using p(2) by (simp add: name_fully_decodes_def list_all_iff is_ok_def)
  have qd: "name_fully_decodes (q_name q)" using q(1) by (simp add: name_fully_decodes_def list_all_iff is_ok_def)
  have "rclass_from_u16 (rclass_to_u16 Class_In) = Class_In" by code_simp
  then have qa: "question_is_about q n"
    using q names_match_owner [OF n, of "q_name q"] by (simp add: question_is_about_def)
  have m: "names_match_record n r \<longleftrightarrow> same_owner (auth_owner it) n"
    using names_match_owner [OF n p(2)] by (simp add: names_match_record_def)
  show ?case
  proof (cases "same_owner (auth_owner it) n")
    case True
    then have "admitted [Inr q] n r = Inr Ours" using p(1) m qd qa by (simp add: admitted_def)
    then show ?thesis using True d p(3) Cons by simp
  next
    case False
    then have "admitted [Inr q] n r = Inr (NotOurs DifferentOwner)" using p(1) m by (simp add: admitted_def)
    then show ?thesis using False d Cons by simp
  qed
qed simp

lemma probe_of_probe: "list_all of_probe (probe_authority r)"
  by (auto simp: probe_authority_def list_all_iff)

lemma probe_txt_short:
  assumes "list_all2 item_record (probe_authority r) rs"
  shows "list_all (\<lambda>s. length s \<le> 255) (sr_txt r)"
proof -
  from assms obtain x where "item_record (Auth_Txt (sr_instance r) (sr_ttl_secs r) (sr_txt r)) x"
    by (auto simp: probe_authority_def list_all2_Cons1)
  then obtain t where "txt_segments t = map Inr (if sr_txt r = [] then [[]] else sr_txt r)"
    by (auto simp: record_is_def view_txt_def split: sum.splits rdata.splits)
  then show ?thesis using txt_segments_short [of _ t] by (auto simp: list_all_iff split: if_splits)
qed

text \<open>What a host makes of a probe that another wrote for the same instance name.\<close>

lemma probe_adjudicated:
  assumes "write_probe a out = (Inr (n, u), out')" "n \<le> 16384" "records_ok a"
    and "inj_on hash_suffix (message_suffixes (probe_question a # probe_authority a))"
    and "records_ok b" "same_owner (sr_instance a) (sr_instance b)" "name_labels (sr_instance b) \<noteq> []"
  obtains r where "reader_try_parse (take n out') = Inr r" "list_all (\<lambda>s. length s \<le> 255) (sr_txt a)"
    "\<And>pp. pp_reader pp = r \<Longrightarrow> adjudicate pp b = (if our_proposal b < our_proposal a then PeerWins else WeHold)"
proof -
  from probe_reads [OF assms(1-4)] obtain r qs ns where r: "reader_try_parse (take n out') = Inr r"
    "question_items (questions r) = map Inr qs" "list_all2 item_question [probe_question a] qs"
    "record_items (authority r) = map Inr ns" "list_all2 item_record (probe_authority a) ns"
    by (auto simp: message_reads_def)
  note short = probe_txt_short [OF r(5)]
  from r(3) obtain q where q: "qs = [q]" "item_question (probe_question a) q" by (auto simp: list_all2_Cons1)
  have nb: "name_ok (sr_instance b)" using assms(5) by (simp add: records_ok_def)
  have own: "same_owner x (sr_instance b) \<longleftrightarrow> same_owner x (sr_instance a)" for x
    using assms(6) same_owner_trans same_owner_sym by blast
  have el: "proposal_elems (question_items (questions r)) (sr_instance b) (record_items (authority r)) =
      Inr (map auth_elem (filter (\<lambda>it. same_owner (auth_owner it) (sr_instance a)) (probe_authority a)))"
    using proposal_elems_probe [OF nb assms(7) q(2) assms(6) r(5) probe_of_probe] q(1)
    by (simp add: r(2,4) own)
  have "adjudicate pp b = (if our_proposal b < our_proposal a then PeerWins else WeHold)" if "pp_reader pp = r" for pp
    using adjudicate_verdict [of "take n out'" pp b] r(1) that el our_proposal_items [OF assms(3) short] by simp
  with that [OF r(1) short] show thesis by blast
qed

text \<open>
  C14. Two hosts that probe for the same name never both lose it and never both keep it, unless they
  propose the same records: of the probes they write, each adjudicating the other's as it arrives, exactly
  one peer wins; or both hold, and then the proposals are equal.
\<close>
theorem tie_break_decides:
  assumes "write_probe a bufa = (Inr (na, ua), outa)" "na \<le> 16384" "records_ok a"
    and "inj_on hash_suffix (message_suffixes (probe_question a # probe_authority a))"
    and "write_probe b bufb = (Inr (nb, ub), outb)" "nb \<le> 16384" "records_ok b"
    and "inj_on hash_suffix (message_suffixes (probe_question b # probe_authority b))"
    and "same_owner (sr_instance a) (sr_instance b)" "name_labels (sr_instance a) \<noteq> []"
  shows "\<exists>ra rb. reader_try_parse (take na outa) = Inr ra \<and> reader_try_parse (take nb outb) = Inr rb \<and>
     (\<forall>ppa ppb. pp_reader ppa = ra \<longrightarrow> pp_reader ppb = rb \<longrightarrow>
       (adjudicate ppb a, adjudicate ppa b) =
         (if our_proposal a < our_proposal b then (PeerWins, WeHold)
          else if our_proposal b < our_proposal a then (WeHold, PeerWins)
          else (WeHold, WeHold)) \<and>
       ((adjudicate ppb a, adjudicate ppa b) = (WeHold, WeHold) \<longrightarrow> our_proposal a = our_proposal b))"
proof -
  have lb: "name_labels (sr_instance b) \<noteq> []"
    using assms(9,10) by (metis same_owner_labels list.map_disc_iff)
  from probe_adjudicated [OF assms(1-4,7,9) lb] obtain ra where ra: "reader_try_parse (take na outa) = Inr ra"
    "\<And>pp. pp_reader pp = ra \<Longrightarrow> adjudicate pp b = (if our_proposal b < our_proposal a then PeerWins else WeHold)"
    by metis
  from probe_adjudicated [OF assms(5-8,3) assms(9) [unfolded same_owner_sym [of "sr_instance a"]] assms(10)]
  obtain rb where rb: "reader_try_parse (take nb outb) = Inr rb"
    "\<And>pp. pp_reader pp = rb \<Longrightarrow> adjudicate pp a = (if our_proposal a < our_proposal b then PeerWins else WeHold)"
    by metis
  have "\<not> our_proposal b < our_proposal a \<Longrightarrow> \<not> our_proposal a < our_proposal b \<Longrightarrow> our_proposal a = our_proposal b"
    by simp
  moreover have "\<not> (our_proposal b < our_proposal a \<and> our_proposal a < our_proposal b)" by auto
  ultimately show ?thesis using ra rb by auto
qed


text \<open>Two hosts that publish the same instance name, at different ports.\<close>

definition first_records :: service_records where
  "first_records = sr_new (Name []) (Name [97]) (Name []) 81 120"

definition rival_records :: service_records where
  "rival_records = sr_new (Name []) (Name [97]) (Name []) 80 120"

lemma tie_break_decides_witness:
  "\<exists>ra rb. \<forall>ppa ppb. pp_reader ppa = ra \<longrightarrow> pp_reader ppb = rb \<longrightarrow>
     adjudicate ppb first_records = WeHold \<and> adjudicate ppa rival_records = PeerWins"
proof -
  let ?p = "\<lambda>r. write_probe r (replicate 64 0)"
  have p: "case ?p first_records of (Inr (n, _), _) \<Rightarrow> n \<le> 16384 | _ \<Rightarrow> False"
    "case ?p rival_records of (Inr (n, _), _) \<Rightarrow> n \<le> 16384 | _ \<Rightarrow> False" by code_simp+
  then obtain na ua outa nb ub outb where w: "?p first_records = (Inr (na, ua), outa)" "na \<le> 16384"
    "?p rival_records = (Inr (nb, ub), outb)" "nb \<le> 16384"
    by (auto split: prod.splits sum.splits)
  have ok: "records_ok first_records" "records_ok rival_records" by code_simp+
  have i: "inj_on hash_suffix (message_suffixes (probe_question first_records # probe_authority first_records))"
    "inj_on hash_suffix (message_suffixes (probe_question rival_records # probe_authority rival_records))"
    unfolding message_suffixes_def by (rule inj_on_set, code_simp)+
  have o: "same_owner (sr_instance first_records) (sr_instance rival_records)"
    "name_labels (sr_instance first_records) \<noteq> []" by code_simp+
  have l: "our_proposal rival_records < our_proposal first_records" by code_simp
  then have "\<not> our_proposal first_records < our_proposal rival_records" by (rule less_not_sym)
  with tie_break_decides [OF w(1,2) ok(1) i(1) w(3,4) ok(2) i(2) o] l show ?thesis by auto
qed

end
