(* ===== verification/Flood.thy ===== *)
theory Flood
  imports Clock DnsName Events
begin

text \<open>
  The fifteen-in-ten limit of RFC 6762, section 8.1 (\<open>endpoint/flood.rs\<close>): a ring of the instants of
  the last conflicts the endpoint accepted, and the latch that spaces probes out while they keep
  coming.  \<open>flood_refines\<close> reads both off the plain history of arrivals.
\<close>

definition CONFLICT_BURST_LEN :: nat where "CONFLICT_BURST_LEN = 15"
definition CONFLICT_BURST_WINDOW :: nat where "CONFLICT_BURST_WINDOW = secs 10"
definition CONFLICT_BACKOFF_MIN_WAIT :: nat where "CONFLICT_BACKOFF_MIN_WAIT = secs 5"

record 'i conflict_flood =
  fl_ring :: "'i option list"
  fl_slot :: nat
  fl_latched_at :: "'i option"
  fl_datagram :: "datagram_id option"
  fl_accepted :: "name list"

definition flood_new :: "'i conflict_flood" where
  "flood_new = \<lparr>fl_ring = replicate CONFLICT_BURST_LEN None, fl_slot = 0, fl_latched_at = None,
     fl_datagram = None, fl_accepted = []\<rparr>"

text \<open>Indexing a Rust array with \<open>get\<close>, absent out of range.\<close>

definition ring_get :: "'i conflict_flood \<Rightarrow> nat \<Rightarrow> 'i option" where
  "ring_get f i = Option.bind (get (fl_ring f) i) (\<lambda>x. x)"

definition flood_newest :: "'i conflict_flood \<Rightarrow> 'i option" where
  "flood_newest f =
     (let newest = (if 1 \<le> fl_slot f then fl_slot f - 1 else CONFLICT_BURST_LEN - 1) in ring_get f newest)"

text \<open>The three steps of \<open>accept\<close> after the count: release, write, latch.\<close>

definition flood_release :: "'i clock \<Rightarrow> 'i \<Rightarrow> 'i conflict_flood \<Rightarrow> 'i conflict_flood" where
  "flood_release clk now f =
     (case flood_newest f of
        None \<Rightarrow> f
      | Some newest \<Rightarrow>
          (case csince clk now newest of
             None \<Rightarrow> f
           | Some since \<Rightarrow>
               if CONFLICT_BURST_WINDOW < since
               then f\<lparr>fl_ring := replicate CONFLICT_BURST_LEN None, fl_slot := 0, fl_latched_at := None\<rparr>
               else f))"

definition flood_write :: "'i \<Rightarrow> 'i conflict_flood \<Rightarrow> 'i conflict_flood" where
  "flood_write now f =
     (if fl_slot f < length (fl_ring f)
      then f\<lparr>fl_ring := (fl_ring f)[fl_slot f := Some now],
             fl_slot := sat_add u64_max (fl_slot f) 1 mod CONFLICT_BURST_LEN\<rparr>
      else f)"

definition flood_latch :: "'i clock \<Rightarrow> 'i \<Rightarrow> 'i conflict_flood \<Rightarrow> 'i conflict_flood" where
  "flood_latch clk now f =
     (case ring_get f (fl_slot f) of
        None \<Rightarrow> f
      | Some oldest \<Rightarrow>
          (case csince clk now oldest of
             None \<Rightarrow> f
           | Some span \<Rightarrow>
               if span \<le> CONFLICT_BURST_WINDOW \<and> fl_latched_at f = None then f\<lparr>fl_latched_at := Some now\<rparr> else f))"

definition flood_accept ::
  "'i clock \<Rightarrow> 'i \<Rightarrow> datagram_id \<Rightarrow> name \<Rightarrow> 'i conflict_flood \<Rightarrow> bool \<times> 'i conflict_flood" where
  "flood_accept clk now datagram owner f =
     (let f = (if fl_datagram f \<noteq> Some datagram
               then f\<lparr>fl_datagram := Some datagram, fl_accepted := []\<rparr> else f) in
      if list_ex (\<lambda>n. same_owner n owner) (fl_accepted f) then (False, f)
      else
        let f = f\<lparr>fl_accepted := fl_accepted f @ [owner]\<rparr>;
            f = flood_release clk now f;
            f = flood_write now f;
            f = flood_latch clk now f
        in (True, f))"

definition latch_epoch :: "'i clock \<Rightarrow> 'i \<Rightarrow> 'i conflict_flood \<Rightarrow> 'i option" where
  "latch_epoch clk now f =
     (if (case flood_newest f of
            None \<Rightarrow> False
          | Some newest \<Rightarrow>
              (case csince clk now newest of None \<Rightarrow> True | Some since \<Rightarrow> since \<le> CONFLICT_BURST_WINDOW))
      then fl_latched_at f else None)"

definition in_force :: "'i clock \<Rightarrow> 'i \<Rightarrow> 'i conflict_flood \<Rightarrow> bool" where
  "in_force clk now f \<longleftrightarrow> latch_epoch clk now f \<noteq> None"

subsection \<open>The history\<close>

text \<open>
  Arrivals, the most recent first.  A conflict counts once per datagram and name; a stretch is a run of
  counted conflicts with no gap longer than the window.
\<close>

type_synonym 'i arrival = "'i \<times> datagram_id \<times> name"

fun flood_after :: "'i clock \<Rightarrow> 'i arrival list \<Rightarrow> 'i conflict_flood" where
  "flood_after clk [] = flood_new"
| "flood_after clk ((t, d, n) # h) = snd (flood_accept clk t d n (flood_after clk h))"

definition first_mention :: "datagram_id \<Rightarrow> name \<Rightarrow> 'i arrival list \<Rightarrow> bool" where
  "first_mention d n h \<longleftrightarrow> (\<forall>(_, _, n')\<in>set (takeWhile (\<lambda>(_, d', _). d' = d) h). \<not> same_owner n' n)"

fun counted :: "'i arrival list \<Rightarrow> 'i list" where
  "counted [] = []"
| "counted ((t, d, n) # h) = (if first_mention d n h then t # counted h else counted h)"

fun stretch :: "'i clock \<Rightarrow> 'i list \<Rightarrow> 'i list" where
  "stretch clk [] = []"
| "stretch clk (t # ts) =
     (case stretch clk ts of
        [] \<Rightarrow> [t]
      | newest # rest \<Rightarrow>
          (case csince clk t newest of
             None \<Rightarrow> t # newest # rest
           | Some d \<Rightarrow> if CONFLICT_BURST_WINDOW < d then [t] else t # newest # rest))"

definition burst :: "'i clock \<Rightarrow> 'i list \<Rightarrow> bool" where
  "burst clk s \<longleftrightarrow> CONFLICT_BURST_LEN \<le> length s \<and>
     (case csince clk (hd s) (s ! (CONFLICT_BURST_LEN - 1)) of None \<Rightarrow> False | Some d \<Rightarrow> d \<le> CONFLICT_BURST_WINDOW)"

fun engaged :: "'i clock \<Rightarrow> 'i list \<Rightarrow> 'i option" where
  "engaged clk [] = None"
| "engaged clk (t # s) =
     (case engaged clk s of Some e \<Rightarrow> Some e | None \<Rightarrow> if burst clk (t # s) then Some t else None)"

definition flood_holds :: "'i clock \<Rightarrow> 'i list \<Rightarrow> 'i conflict_flood \<Rightarrow> bool" where
  "flood_holds clk s f \<longleftrightarrow> length (fl_ring f) = CONFLICT_BURST_LEN \<and> fl_slot f < CONFLICT_BURST_LEN \<and>
     (\<forall>i<CONFLICT_BURST_LEN. fl_ring f ! ((fl_slot f + (CONFLICT_BURST_LEN - 1 - i)) mod CONFLICT_BURST_LEN) =
        (if i < length s then Some (s ! i) else None)) \<and>
     fl_latched_at f = engaged clk s"

lemma flood_holds_newest:
  assumes "flood_holds clk s f"
  shows "flood_newest f = (case s of [] \<Rightarrow> None | t # _ \<Rightarrow> Some t)"
proof -
  have l: "length (fl_ring f) = 15" "fl_slot f < 15" using assms by (simp_all add: flood_holds_def CONFLICT_BURST_LEN_def)
  have i: "(if 1 \<le> fl_slot f then fl_slot f - 1 else 14) = (fl_slot f + 14) mod 15"
    using l(2) by (cases "fl_slot f") (simp_all add: add.commute [of _ 15])
  have "fl_ring f ! ((fl_slot f + 14) mod 15) = (if 0 < length s then Some (s ! 0) else None)"
    using assms by (force simp: flood_holds_def CONFLICT_BURST_LEN_def)
  moreover have "flood_newest f = ring_get f ((fl_slot f + 14) mod 15)"
    by (simp only: flood_newest_def Let_def CONFLICT_BURST_LEN_def i [symmetric]) simp
  ultimately show ?thesis using l
    by (cases s) (simp_all add: ring_get_def get_def)
qed

lemma ring_mod:
  fixes s :: nat
  assumes "s < 15" "j < 14"
  shows "((s + 1) mod 15 + (14 - Suc j)) mod 15 = (s + (14 - j)) mod 15" "(s + (14 - j)) mod 15 \<noteq> s"
proof -
  obtain k where k: "14 - j = Suc k" "14 - Suc j = k" "k < 14"
    using assms(2) by (metis Suc_diff_Suc diff_less_Suc less_Suc_eq_le less_trans_Suc not_less_eq numeral_eq_Suc pred_numeral_simps(3))
  show "((s + 1) mod 15 + (14 - Suc j)) mod 15 = (s + (14 - j)) mod 15"
    unfolding k mod_add_left_eq by simp
  show "(s + (14 - j)) mod 15 \<noteq> s"
    unfolding k using assms(1) k(3) by (cases "s + Suc k < 15") (auto simp: le_mod_geq not_less)
qed

text \<open>Writing the newest entry at the slot of the oldest.\<close>

lemma flood_holds_write:
  assumes "flood_holds clk s f" "fl_latched_at g = fl_latched_at f"
    "fl_ring g = (fl_ring f)[fl_slot f := Some t]" "fl_slot g = (fl_slot f + 1) mod CONFLICT_BURST_LEN"
  shows "ring_get g (fl_slot g) = (if CONFLICT_BURST_LEN \<le> length (t # s) then Some ((t # s) ! (CONFLICT_BURST_LEN - 1)) else None)"
    and "fl_latched_at h = engaged clk (t # s) \<Longrightarrow> fl_ring h = fl_ring g \<Longrightarrow> fl_slot h = fl_slot g \<Longrightarrow> flood_holds clk (t # s) h"
proof -
  have l: "length (fl_ring f) = 15" "fl_slot f < 15" using assms by (simp_all add: flood_holds_def CONFLICT_BURST_LEN_def)
  have old: "fl_ring f ! ((fl_slot f + (14 - i)) mod 15) = (if i < length s then Some (s ! i) else None)" if "i < 15" for i
    using assms(1) that by (simp add: flood_holds_def CONFLICT_BURST_LEN_def)
  have new: "fl_ring g ! ((fl_slot g + (14 - i)) mod 15) = (if i < length (t # s) then Some ((t # s) ! i) else None)"
    if "i < 15" for i
  proof (cases i)
    case 0
    have "((fl_slot f + 1) mod 15 + 14) mod 15 = fl_slot f" unfolding mod_add_left_eq using l(2) by simp
    then show ?thesis using 0 l assms(3,4) by (simp add: CONFLICT_BURST_LEN_def)
  next
    case (Suc j)
    note m = ring_mod [OF l(2), of j]
    from Suc that l old [of j] assms(3,4) m show ?thesis by (simp add: CONFLICT_BURST_LEN_def)
  qed
  have g: "length (fl_ring g) = 15" "fl_slot g < 15" using assms l by (simp_all add: CONFLICT_BURST_LEN_def)
  show "ring_get g (fl_slot g) = (if CONFLICT_BURST_LEN \<le> length (t # s) then Some ((t # s) ! (CONFLICT_BURST_LEN - 1)) else None)"
    using new [of 14] g by (auto simp: ring_get_def get_def CONFLICT_BURST_LEN_def)
  show "fl_latched_at h = engaged clk (t # s) \<Longrightarrow> fl_ring h = fl_ring g \<Longrightarrow> fl_slot h = fl_slot g \<Longrightarrow> flood_holds clk (t # s) h"
    using new g by (simp add: flood_holds_def CONFLICT_BURST_LEN_def)
qed

text \<open>The other half of the state: what the datagram in hand has already counted.\<close>

definition mentions :: "'i arrival list \<Rightarrow> 'i conflict_flood \<Rightarrow> bool" where
  "mentions h f \<longleftrightarrow>
     (case h of
        [] \<Rightarrow> fl_datagram f = None \<and> fl_accepted f = []
      | (_, d, _) # _ \<Rightarrow> fl_datagram f = Some d \<and>
          (\<forall>n. list_ex (\<lambda>k. same_owner k n) (fl_accepted f) \<longleftrightarrow> \<not> first_mention d n h))"

lemma mentions_first:
  assumes "mentions h f"
  shows "list_ex (\<lambda>k. same_owner k n) (if fl_datagram f \<noteq> Some d then [] else fl_accepted f) \<longleftrightarrow> \<not> first_mention d n h"
  using assms by (auto simp: mentions_def first_mention_def split: list.splits if_splits)

lemma mentions_step:
  assumes "\<And>k. list_ex (\<lambda>x. same_owner x k) (fl_accepted f) \<longleftrightarrow> \<not> first_mention d k h" "fl_datagram f = Some d"
    and "fl_datagram g = Some d" "fl_accepted g = (if first_mention d n h then fl_accepted f @ [n] else fl_accepted f)"
  shows "mentions ((t, d, n) # h) g"
proof -
  have "first_mention d k ((t, d, n) # h) \<longleftrightarrow> \<not> same_owner n k \<and> first_mention d k h" for k
    by (auto simp: first_mention_def)
  moreover have "first_mention d k h" if "same_owner n k" "first_mention d n h" for k
    using that by (auto simp: first_mention_def same_owner_def)
  moreover have "\<not> first_mention d k h" if "same_owner n k" "\<not> first_mention d n h" for k
    using that by (auto simp: first_mention_def same_owner_def)
  ultimately show ?thesis using assms by (cases "first_mention d n h") (auto simp: mentions_def)
qed

lemma stretch_prefix: "stretch clk ts = take (length (stretch clk ts)) ts"
proof (induction ts)
  case (Cons t ts)
  then show ?case by (auto split: list.split option.split)
qed simp

lemma stretch_length: "length (stretch clk ts) \<le> length ts"
  by (induction ts) (auto split: list.split option.split)

lemma flood_accept_holds:
  assumes "flood_holds clk (stretch clk (counted h)) f" "mentions h f"
  shows "fst (flood_accept clk t d n f) = first_mention d n h"
    and "flood_holds clk (stretch clk (counted ((t, d, n) # h))) (snd (flood_accept clk t d n f))"
    and "mentions ((t, d, n) # h) (snd (flood_accept clk t d n f))"
proof -
  let ?s = "stretch clk (counted h)"
  define f1 where "f1 = (if fl_datagram f \<noteq> Some d then f\<lparr>fl_datagram := Some d, fl_accepted := []\<rparr> else f)"
  have f1: "fl_ring f1 = fl_ring f" "fl_slot f1 = fl_slot f" "fl_latched_at f1 = fl_latched_at f" "fl_datagram f1 = Some d"
    "fl_accepted f1 = (if fl_datagram f \<noteq> Some d then [] else fl_accepted f)"
    by (simp_all add: f1_def)
  have acc: "list_ex (\<lambda>k. same_owner k m) (fl_accepted f1) \<longleftrightarrow> \<not> first_mention d m h" for m
    unfolding f1 by (rule mentions_first [OF assms(2)])
  have h1: "flood_holds clk ?s g" if "fl_ring g = fl_ring f" "fl_slot g = fl_slot f" "fl_latched_at g = fl_latched_at f" for g
    using assms(1) that by (simp add: flood_holds_def)
  show "fst (flood_accept clk t d n f) = first_mention d n h"
    using acc [of n] by (simp add: flood_accept_def f1_def [symmetric] Let_def)
  show "flood_holds clk (stretch clk (counted ((t, d, n) # h))) (snd (flood_accept clk t d n f))"
    and "mentions ((t, d, n) # h) (snd (flood_accept clk t d n f))"
  proof (atomize (full), cases "first_mention d n h")
    case False
    then have "flood_accept clk t d n f = (False, f1)"
      using acc [of n] by (simp add: flood_accept_def f1_def [symmetric] Let_def)
    then show "flood_holds clk (stretch clk (counted ((t, d, n) # h))) (snd (flood_accept clk t d n f)) \<and>
        mentions ((t, d, n) # h) (snd (flood_accept clk t d n f))"
      using False h1 [of f1] f1 mentions_step [OF acc f1(4), of f1] by simp
  next
    case True
    define f2 where "f2 = f1\<lparr>fl_accepted := fl_accepted f1 @ [n]\<rparr>"
    define quiet where "quiet = (case ?s of [] \<Rightarrow> False | newest # _ \<Rightarrow>
        (case csince clk t newest of None \<Rightarrow> False | Some d \<Rightarrow> CONFLICT_BURST_WINDOW < d))"
    define f3 where "f3 = (if quiet
        then f2\<lparr>fl_ring := replicate CONFLICT_BURST_LEN None, fl_slot := 0, fl_latched_at := None\<rparr> else f2)"
    have "flood_holds clk ?s f2" using f1 by (intro h1) (simp_all add: f2_def)
    note nw = flood_holds_newest [OF this]
    define f4 where "f4 = f3\<lparr>fl_ring := (fl_ring f3)[fl_slot f3 := Some t], fl_slot := (fl_slot f3 + 1) mod CONFLICT_BURST_LEN\<rparr>"
    let ?s' = "if quiet then [] else ?s"
    have h3: "flood_holds clk ?s' f3"
      using \<open>flood_holds clk ?s f2\<close> by (simp add: f3_def flood_holds_def CONFLICT_BURST_LEN_def)
    then have l3: "fl_slot f3 < length (fl_ring f3)" "sat_add u64_max (fl_slot f3) 1 = fl_slot f3 + 1"
      by (simp_all add: flood_holds_def sat_add_def CONFLICT_BURST_LEN_def)
    define f5 where "f5 = (if burst clk (t # ?s') \<and> fl_latched_at f4 = None then f4\<lparr>fl_latched_at := Some t\<rparr> else f4)"
    have h4: "fl_latched_at f4 = fl_latched_at f3" by (simp add: f4_def)
    note wr = flood_holds_write [OF h3 h4, of t]
    have old: "ring_get f4 (fl_slot f4) =
        (if CONFLICT_BURST_LEN \<le> length (t # ?s') then Some ((t # ?s') ! (CONFLICT_BURST_LEN - 1)) else None)"
      by (rule wr(1)) (simp_all add: f4_def)
    have st: "stretch clk (counted ((t, d, n) # h)) = t # ?s'"
      using True by (auto simp: quiet_def split: list.split option.split)
    have q: "flood_release clk t f2 = f3"
      unfolding flood_release_def nw f3_def quiet_def by (auto split: list.split option.split)
    have w: "flood_write t f3 = f4" using l3 by (simp add: flood_write_def f4_def)
    have b: "flood_latch clk t f4 = f5"
      unfolding flood_latch_def old f5_def burst_def by (auto split: option.split)
    have e: "flood_accept clk t d n f = (True, f5)"
      using True acc [of n] by (simp add: flood_accept_def f1_def [symmetric] f2_def [symmetric] q w b Let_def)
    have "fl_latched_at f3 = engaged clk ?s'" using h3 by (simp add: flood_holds_def)
    then have "fl_latched_at f5 = engaged clk (t # ?s')" using h4 by (auto simp: f5_def split: option.split)
    then have "flood_holds clk (t # ?s') f5" by (rule wr(2) [rotated 2]) (simp_all add: f5_def f4_def)
    moreover have "mentions ((t, d, n) # h) f5"
      by (rule mentions_step [OF acc f1(4)]) (simp_all add: True f5_def f4_def f3_def f2_def f1(4))
    ultimately show "flood_holds clk (stretch clk (counted ((t, d, n) # h))) (snd (flood_accept clk t d n f)) \<and>
        mentions ((t, d, n) # h) (snd (flood_accept clk t d n f))"
      unfolding e st by simp
  qed
qed

lemma flood_after_holds:
  "flood_holds clk (stretch clk (counted h)) (flood_after clk h) \<and> mentions h (flood_after clk h)"
proof (induction h)
  case Nil
  show ?case by (simp add: flood_holds_def flood_new_def mentions_def CONFLICT_BURST_LEN_def)
next
  case (Cons x h)
  obtain t d n where x: "x = (t, d, n)" by (rule prod_cases3)
  show ?case using flood_accept_holds(2,3) [of clk h "flood_after clk h" t d n] Cons unfolding x by simp
qed

lemma engaged_burst:
  "engaged clk s = Some e \<Longrightarrow> \<exists>k. burst clk (drop k s) \<and> k < length s \<and> s ! k = e"
proof (induction s)
  case (Cons t s)
  show ?case
  proof (cases "engaged clk s")
    case None
    then show ?thesis using Cons.prems by (intro exI [of _ 0]) (auto split: if_splits)
  next
    case (Some e')
    then obtain k where "burst clk (drop k s) \<and> k < length s \<and> s ! k = e" using Cons by auto
    then show ?thesis by (intro exI [of _ "Suc k"]) simp
  qed
qed simp

text \<open>
  C26. The endpoint's conflict ring is the plain history of conflicts.  After any arrivals, one more
  counts exactly when no equal name has counted for the same datagram; and the probe limit is in force,
  since the instant it engaged, exactly when the newest conflict counted is no older than ten seconds
  and the current run of conflicts, broken by no quiet ten seconds, has held fifteen within ten.  The
  instant it engaged never moves while it is in force, and stands where fifteen conflicts meet.
\<close>
theorem flood_refines:
  "fst (flood_accept clk t d n (flood_after clk h)) = first_mention d n h \<and>
   latch_epoch clk now (flood_after clk h) =
     (case stretch clk (counted h) of
        [] \<Rightarrow> None
      | newest # _ \<Rightarrow>
          (case csince clk now newest of
             None \<Rightarrow> engaged clk (stretch clk (counted h))
           | Some quiet \<Rightarrow> if quiet \<le> CONFLICT_BURST_WINDOW then engaged clk (stretch clk (counted h)) else None)) \<and>
   (case latch_epoch clk now (flood_after clk h) of
      None \<Rightarrow> True
    | Some e \<Rightarrow> \<exists>k span. k + 14 < length (counted h) \<and> counted h ! k = e \<and>
        csince clk e (counted h ! (k + 14)) = Some span \<and> span \<le> secs 10)"
proof -
  let ?f = "flood_after clk h" and ?s = "stretch clk (counted h)"
  note inv = flood_after_holds [of clk h]
  have fl: "flood_newest ?f = (case ?s of [] \<Rightarrow> None | t # _ \<Rightarrow> Some t)" "fl_latched_at ?f = engaged clk ?s"
    using flood_holds_newest inv by (auto simp: flood_holds_def)
  have eq: "latch_epoch clk now ?f = (case ?s of [] \<Rightarrow> None | newest # _ \<Rightarrow>
      (case csince clk now newest of None \<Rightarrow> engaged clk ?s
       | Some quiet \<Rightarrow> if quiet \<le> CONFLICT_BURST_WINDOW then engaged clk ?s else None))"
    unfolding latch_epoch_def fl by (simp split: list.split option.split)
  have run: "\<exists>k span. k + 14 < length (counted h) \<and> counted h ! k = e \<and>
        csince clk e (counted h ! (k + 14)) = Some span \<and> span \<le> secs 10" if "latch_epoch clk now ?f = Some e" for e
  proof -
    have "engaged clk ?s = Some e" using that unfolding eq by (auto split: list.splits option.splits if_splits)
    from engaged_burst [OF this] obtain k where k: "burst clk (drop k ?s)" "k < length ?s" "?s ! k = e"
      by (elim exE conjE)
    have le: "length ?s \<le> length (counted h)"
      by (rule stretch_length)
    have at: "i < length ?s \<Longrightarrow> ?s ! i = counted h ! i" for i
      by (subst stretch_prefix) simp
    from k(1) have b: "k + 14 < length ?s" "\<exists>span. csince clk (hd (drop k ?s)) (?s ! (k + 14)) = Some span \<and> span \<le> secs 10"
      by (auto simp: burst_def CONFLICT_BURST_LEN_def CONFLICT_BURST_WINDOW_def split: option.splits)
    have "hd (drop k ?s) = counted h ! k" "?s ! (k + 14) = counted h ! (k + 14)" "counted h ! k = e"
      using k b(1) at hd_drop_conv_nth [OF k(2)] by simp_all
    moreover from b(2) obtain span where
      "csince clk (hd (drop k ?s)) (?s ! (k + 14)) = Some span" "span \<le> secs 10" by (elim exE conjE)
    ultimately show ?thesis using b(1) le by (intro exI [of _ k] exI [of _ span]) simp
  qed
  show ?thesis
  proof (intro conjI)
    show "fst (flood_accept clk t d n ?f) = first_mention d n h"
      by (rule flood_accept_holds(1) [OF conjunct1 [OF inv] conjunct2 [OF inv]])
    show "case latch_epoch clk now ?f of None \<Rightarrow> True
      | Some e \<Rightarrow> \<exists>k span. k + 14 < length (counted h) \<and> counted h ! k = e \<and>
          csince clk e (counted h ! (k + 14)) = Some span \<and> span \<le> secs 10"
      using run by (cases "latch_epoch clk now ?f") simp_all
  qed (rule eq)
qed

end
