(* ===== verification/Admits.thy ===== *)
theory Admits
  imports Net
begin

text \<open>
  What a received datagram may do (\<open>endpoint/received.rs\<close>, \<open>endpoint/admits.rs\<close>): where the driver
  says it came from, and the permissions that follow.
\<close>

datatype provenance = OwnEcho | OwnEchoLikely | NotFromUs | Unknown

record received =
  rx_src :: socket_addr
  rx_data :: bytes
  rx_provenance :: provenance
  rx_local_ip :: "ip_addr option"
  rx_interface_index :: "u32 option"

definition received_new :: "socket_addr \<Rightarrow> bytes \<Rightarrow> provenance \<Rightarrow> received" where
  "received_new src data prov = \<lparr>rx_src = src, rx_data = data, rx_provenance = prov,
     rx_local_ip = None, rx_interface_index = None\<rparr>"

definition with_interface :: "u32 option \<Rightarrow> received \<Rightarrow> received" where
  "with_interface index r = r\<lparr>rx_interface_index := index\<rparr>"

definition with_local_ip :: "ip_addr \<Rightarrow> received \<Rightarrow> received" where
  "with_local_ip ip r = r\<lparr>rx_local_ip := Some ip\<rparr>"

datatype answering = AnswerAll | DefenceOnly | AnswerNone

record admits =
  ad_observation :: bool
  ad_quieting :: bool
  ad_adjudication :: bool
  ad_answering :: answering

definition admits_nothing :: admits where
  "admits_nothing = \<lparr>ad_observation = False, ad_quieting = False, ad_adjudication = False, ad_answering = AnswerNone\<rparr>"

definition admits_everything :: "bool \<Rightarrow> admits" where
  "admits_everything answer_questions = \<lparr>ad_observation = True, ad_quieting = True, ad_adjudication = True,
     ad_answering = (if answer_questions then AnswerAll else DefenceOnly)\<rparr>"

definition adjudication_only :: admits where
  "adjudication_only = \<lparr>ad_observation = False, ad_quieting = False, ad_adjudication = True, ad_answering = DefenceOnly\<rparr>"

definition for_datagram :: "provenance \<Rightarrow> bool \<Rightarrow> bool \<Rightarrow> bool \<Rightarrow> admits" where
  "for_datagram prov matched_advertised answer_questions untrusted_response =
     (let adm = (case prov of
          OwnEcho \<Rightarrow> admits_nothing
        | OwnEchoLikely \<Rightarrow> adjudication_only
        | NotFromUs \<Rightarrow> admits_everything answer_questions
        | Unknown \<Rightarrow> if matched_advertised then adjudication_only else admits_everything answer_questions) in
      if untrusted_response then admits_nothing else adm)"

definition all_denied :: "admits \<Rightarrow> bool" where
  "all_denied a \<longleftrightarrow> \<not> ad_observation a \<and> \<not> ad_quieting a \<and> \<not> ad_adjudication a \<and> ad_answering a = AnswerNone"

end
