(* ===== verification/Exposure.thy ===== *)
theory Exposure
  imports Respond Transmit
begin

text \<open>
  What a service has put on the wire, per address family (\<open>service/mod.rs\<close>: \<open>RecordExposure\<close>,
  \<open>GoodbyeOwnership\<close>): the account a goodbye is drawn from.  The lemmas read it as the union of what
  was delivered.
\<close>

type_synonym mask = "bool \<times> bool"

definition or_on :: "mask \<Rightarrow> bool \<Rightarrow> mask \<Rightarrow> mask" where
  "or_on m emitted on = (if \<not> emitted then m else (fst m \<or> fst on, snd m \<or> snd on))"

definition any_family :: "mask \<Rightarrow> bool" where "any_family m \<longleftrightarrow> fst m \<or> snd m"

definition family_addrs :: "'a list \<Rightarrow> mask list \<Rightarrow> family \<Rightarrow> 'a list" where
  "family_addrs addrs masks fam = map fst (filter (\<lambda>(_, m). pick fam m) (zip addrs masks))"

record record_exposure =
  xp_ptr :: mask
  xp_srv :: mask
  xp_txt :: mask
  xp_subtypes :: mask
  xp_a :: "bytes list"
  xp_a_on :: "mask list"
  xp_aaaa :: "bytes list"
  xp_aaaa_on :: "mask list"
  xp_nsec :: mask

definition xp_default :: record_exposure where
  "xp_default = \<lparr>xp_ptr = (False, False), xp_srv = (False, False), xp_txt = (False, False),
     xp_subtypes = (False, False), xp_a = [], xp_a_on = [], xp_aaaa = [], xp_aaaa_on = [], xp_nsec = (False, False)\<rparr>"

text \<open>\<open>latch_addr\<close> on the two vectors: \<open>iter().position\<close>, then \<open>get_mut\<close>, or a push on both.\<close>

definition position :: "('a \<Rightarrow> bool) \<Rightarrow> 'a list \<Rightarrow> nat option" where
  "position P xs = (let n = length (takeWhile (\<lambda>x. \<not> P x) xs) in if n < length xs then Some n else None)"

definition latch_addr :: "'a \<Rightarrow> mask \<Rightarrow> 'a list \<times> mask list \<Rightarrow> 'a list \<times> mask list" where
  "latch_addr ip on = (\<lambda>(addrs, masks).
     case position (\<lambda>x. x = ip) addrs of
       Some i \<Rightarrow> (addrs, case get masks i of Some m \<Rightarrow> masks[i := or_on m True on] | None \<Rightarrow> masks)
     | None \<Rightarrow> (addrs @ [ip], masks @ [on]))"

definition record_host_emitted :: "emitted_records \<Rightarrow> mask \<Rightarrow> record_exposure \<Rightarrow> record_exposure" where
  "record_host_emitted e on x =
     (if \<not> any_family on then x
      else
        let (a, a_on) = foldl (\<lambda>p ip. latch_addr ip on p) (xp_a x, xp_a_on x) (em_a e);
            (aaaa, aaaa_on) = foldl (\<lambda>p ip. latch_addr ip on p) (xp_aaaa x, xp_aaaa_on x) (em_aaaa e) in
        x\<lparr>xp_a := a, xp_a_on := a_on, xp_aaaa := aaaa, xp_aaaa_on := aaaa_on\<rparr>)"

definition record_emitted :: "emitted_records \<Rightarrow> mask \<Rightarrow> record_exposure \<Rightarrow> record_exposure" where
  "record_emitted e on x = record_host_emitted e on
     (x\<lparr>xp_ptr := or_on (xp_ptr x) (em_ptr e) on, xp_srv := or_on (xp_srv x) (em_srv e) on,
        xp_txt := or_on (xp_txt x) (em_txt e) on, xp_subtypes := or_on (xp_subtypes x) (em_subtypes e) on,
        xp_nsec := or_on (xp_nsec x) (em_nsec e) on\<rparr>)"

definition xp_reset_instance :: "record_exposure \<Rightarrow> record_exposure" where
  "xp_reset_instance x = x\<lparr>xp_ptr := (False, False), xp_srv := (False, False), xp_txt := (False, False),
     xp_subtypes := (False, False), xp_nsec := (False, False)\<rparr>"

definition xp_any_instance :: "record_exposure \<Rightarrow> bool" where
  "xp_any_instance x \<longleftrightarrow> any_family (xp_ptr x) \<or> any_family (xp_srv x) \<or> any_family (xp_txt x) \<or> any_family (xp_subtypes x)"

definition xp_any_host :: "record_exposure \<Rightarrow> bool" where
  "xp_any_host x \<longleftrightarrow> xp_a x \<noteq> [] \<or> xp_aaaa x \<noteq> []"

definition xp_project :: "family \<Rightarrow> record_exposure \<Rightarrow> emitted_records" where
  "xp_project fam x = \<lparr>em_ptr = pick fam (xp_ptr x), em_srv = pick fam (xp_srv x), em_txt = pick fam (xp_txt x),
     em_a = family_addrs (xp_a x) (xp_a_on x) fam, em_aaaa = family_addrs (xp_aaaa x) (xp_aaaa_on x) fam,
     em_subtypes = pick fam (xp_subtypes x), em_nsec = pick fam (xp_nsec x)\<rparr>"

definition xp_per_family :: "record_exposure \<Rightarrow> emitted_records \<times> emitted_records" where
  "xp_per_family x = (xp_project V4 x, xp_project V6 x)"

datatype send_class = Multicast | Unicast

record goodbye_ownership =
  gb_all :: record_exposure
  gb_multicast :: record_exposure

definition gb_default :: goodbye_ownership where
  "gb_default = \<lparr>gb_all = xp_default, gb_multicast = xp_default\<rparr>"

definition gb_record_emitted :: "emitted_records \<Rightarrow> mask \<Rightarrow> send_class \<Rightarrow> goodbye_ownership \<Rightarrow> goodbye_ownership" where
  "gb_record_emitted e on cls g =
     (let g = g\<lparr>gb_all := record_emitted e on (gb_all g)\<rparr> in
      if cls = Multicast then g\<lparr>gb_multicast := record_emitted e on (gb_multicast g)\<rparr> else g)"

definition gb_record_host_emitted :: "emitted_records \<Rightarrow> mask \<Rightarrow> send_class \<Rightarrow> goodbye_ownership \<Rightarrow> goodbye_ownership" where
  "gb_record_host_emitted e on cls g =
     (let g = g\<lparr>gb_all := record_host_emitted e on (gb_all g)\<rparr> in
      if cls = Multicast then g\<lparr>gb_multicast := record_host_emitted e on (gb_multicast g)\<rparr> else g)"

definition gb_reset_instance :: "goodbye_ownership \<Rightarrow> goodbye_ownership" where
  "gb_reset_instance g = \<lparr>gb_all = xp_reset_instance (gb_all g), gb_multicast = xp_reset_instance (gb_multicast g)\<rparr>"

definition gb_any_instance :: "goodbye_ownership \<Rightarrow> bool" where "gb_any_instance g = xp_any_instance (gb_all g)"
definition gb_any_host :: "goodbye_ownership \<Rightarrow> bool" where "gb_any_host g = xp_any_host (gb_all g)"
definition gb_per_family :: "goodbye_ownership \<Rightarrow> emitted_records \<times> emitted_records" where
  "gb_per_family g = xp_per_family (gb_all g)"
definition gb_per_family_multicast :: "goodbye_ownership \<Rightarrow> emitted_records \<times> emitted_records" where
  "gb_per_family_multicast g = xp_per_family (gb_multicast g)"

definition per_family_instance :: "emitted_records \<Rightarrow> mask \<Rightarrow> emitted_records \<times> emitted_records" where
  "per_family_instance inst on =
     (if fst on then inst else emitted_default, if snd on then inst else emitted_default)"

record withdrawal_snapshot =
  ws_records :: service_records
  ws_owned :: "emitted_records \<times> emitted_records"
  ws_multicast :: "emitted_records \<times> emitted_records"

record rename_goodbye_handoff =
  rg_records :: service_records
  rg_owned :: "emitted_records \<times> emitted_records"
  rg_multicast :: "emitted_records \<times> emitted_records"

subsection \<open>The account is the union of what was delivered\<close>

definition latched :: "'a list \<times> mask list \<Rightarrow> bool" where
  "latched p \<longleftrightarrow> length (snd p) = length (fst p) \<and> distinct (fst p) \<and> (\<forall>m\<in>set (snd p). any_family m)"

definition xp_ok :: "record_exposure \<Rightarrow> bool" where
  "xp_ok x \<longleftrightarrow> latched (xp_a x, xp_a_on x) \<and> latched (xp_aaaa x, xp_aaaa_on x)"

lemma position_Some: "position (\<lambda>x. x = ip) xs = Some i \<Longrightarrow> i < length xs \<and> xs ! i = ip"
  using nth_length_takeWhile [of "\<lambda>x. x \<noteq> ip" xs] by (auto simp: position_def Let_def split: if_splits)

lemma position_None: "position (\<lambda>x. x = ip) xs = None \<longleftrightarrow> ip \<notin> set xs"
proof -
  have "length (takeWhile (\<lambda>x. x \<noteq> ip) xs) = length xs \<longleftrightarrow> ip \<notin> set xs"
    by (induction xs) auto
  then show ?thesis using length_takeWhile_le [of "\<lambda>x. x \<noteq> ip" xs] by (auto simp: position_def Let_def)
qed

lemma set_family_addrs:
  "length masks = length addrs \<Longrightarrow> set (family_addrs addrs masks fam) = {addrs ! i |i. i < length addrs \<and> pick fam (masks ! i)}"
  by (force simp: family_addrs_def set_zip image_iff)

lemma pick_or: "pick fam (or_on m True on) \<longleftrightarrow> pick fam m \<or> pick fam on"
  by (cases fam; cases m; cases on) (simp_all add: or_on_def)

lemma pick_or_on: "pick fam (or_on m b on) \<longleftrightarrow> pick fam m \<or> (b \<and> pick fam on)"
  by (cases b) (simp_all add: pick_or, simp add: or_on_def)

lemma latch_addr_step:
  assumes "latched p" "any_family on"
  shows "latched (latch_addr ip on p)"
    "set (family_addrs (fst (latch_addr ip on p)) (snd (latch_addr ip on p)) fam) =
       set (family_addrs (fst p) (snd p) fam) \<union> (if pick fam on then {ip} else {})"
proof -
  obtain as ms where p: "p = (as, ms)" by (cases p)
  have l: "length ms = length as" "distinct as" "\<forall>m\<in>set ms. any_family m" using assms by (simp_all add: latched_def p)
  show "latched (latch_addr ip on p)"
    "set (family_addrs (fst (latch_addr ip on p)) (snd (latch_addr ip on p)) fam) =
       set (family_addrs (fst p) (snd p) fam) \<union> (if pick fam on then {ip} else {})"
  proof (atomize (full), cases "position (\<lambda>x. x = ip) as")
    case None
    then show "latched (latch_addr ip on p) \<and> set (family_addrs (fst (latch_addr ip on p)) (snd (latch_addr ip on p)) fam) =
        set (family_addrs (fst p) (snd p) fam) \<union> (if pick fam on then {ip} else {})"
    proof -
      have "latch_addr ip on p = (as @ [ip], ms @ [on])" using None by (simp add: latch_addr_def p)
      then show ?thesis using l assms(2) None by (simp add: p latched_def position_None family_addrs_def)
    qed
  next
    case (Some i)
    with position_Some l have i: "i < length as" "as ! i = ip" "i < length ms" by fastforce+
    have e: "latch_addr ip on p = (as, ms[i := or_on (ms ! i) True on])"
      using Some i by (simp add: latch_addr_def p get_def)
    have "any_family (or_on (ms ! i) True on)" using assms(2) by (auto simp: or_on_def any_family_def)
    moreover have "set (family_addrs as (ms[i := or_on (ms ! i) True on]) fam) =
        set (family_addrs as ms fam) \<union> (if pick fam on then {ip} else {})"
      using l(1) i by (auto simp: set_family_addrs nth_list_update pick_or split: if_splits)
    ultimately show "latched (latch_addr ip on p) \<and> set (family_addrs (fst (latch_addr ip on p)) (snd (latch_addr ip on p)) fam) =
        set (family_addrs (fst p) (snd p) fam) \<union> (if pick fam on then {ip} else {})"
      unfolding e using l by (auto simp: p latched_def dest: set_update_subset_insert [THEN subsetD])
  qed
qed

lemma latch_addrs:
  "latched p \<Longrightarrow> any_family on \<Longrightarrow>
   latched (foldl (\<lambda>p ip. latch_addr ip on p) p ips) \<and>
   set (family_addrs (fst (foldl (\<lambda>p ip. latch_addr ip on p) p ips)) (snd (foldl (\<lambda>p ip. latch_addr ip on p) p ips)) fam) =
     set (family_addrs (fst p) (snd p) fam) \<union> (if pick fam on then set ips else {})"
  by (induction ips arbitrary: p) (auto simp: latch_addr_step)

text \<open>What a family carried, the order of addresses aside.\<close>

definition carried :: "emitted_records \<Rightarrow> bool \<times> bool \<times> bool \<times> bool \<times> bool \<times> bytes set \<times> bytes set" where
  "carried e = (em_ptr e, em_srv e, em_txt e, em_subtypes e, em_nsec e, set (em_a e), set (em_aaaa e))"

definition carried_union where
  "carried_union c d = (case (c, d) of
     ((p, s, t, b, n, a, q), (p', s', t', b', n', a', q')) \<Rightarrow> (p \<or> p', s \<or> s', t \<or> t', b \<or> b', n \<or> n', a \<union> a', q \<union> q'))"

definition host_only :: "emitted_records \<Rightarrow> emitted_records" where
  "host_only e = emitted_default\<lparr>em_a := em_a e, em_aaaa := em_aaaa e\<rparr>"

lemma any_family_pick: "\<not> any_family on \<Longrightarrow> \<not> pick fam on"
  by (cases fam; cases on) (simp_all add: any_family_def)

lemma record_host_emitted_carried:
  assumes "xp_ok x"
  shows "xp_ok (record_host_emitted e on x)"
    "carried (xp_project fam (record_host_emitted e on x)) =
       carried_union (carried (xp_project fam x)) (if pick fam on then carried (host_only e) else carried emitted_default)"
proof -
  let ?a = "foldl (\<lambda>p ip. latch_addr ip on p) (xp_a x, xp_a_on x) (em_a e)"
  let ?q = "foldl (\<lambda>p ip. latch_addr ip on p) (xp_aaaa x, xp_aaaa_on x) (em_aaaa e)"
  have l: "latched (xp_a x, xp_a_on x)" "latched (xp_aaaa x, xp_aaaa_on x)" using assms by (simp_all add: xp_ok_def)
  have e: "record_host_emitted e on x = (if \<not> any_family on then x
      else x\<lparr>xp_a := fst ?a, xp_a_on := snd ?a, xp_aaaa := fst ?q, xp_aaaa_on := snd ?q\<rparr>)"
    by (simp add: record_host_emitted_def split: prod.split)
  have "latched ?a \<and> latched ?q" if "any_family on"
    using latch_addrs [OF l(1) that] latch_addrs [OF l(2) that] by blast
  then show "xp_ok (record_host_emitted e on x)" using assms unfolding e by (simp add: xp_ok_def)
  show "carried (xp_project fam (record_host_emitted e on x)) =
       carried_union (carried (xp_project fam x)) (if pick fam on then carried (host_only e) else carried emitted_default)"
  proof (cases "any_family on")
    case True
    from latch_addrs [OF l(1) this, of "em_a e" fam] latch_addrs [OF l(2) this, of "em_aaaa e" fam] True
    show ?thesis unfolding e
      by (simp add: carried_def xp_project_def carried_union_def host_only_def emitted_default_def)
  next
    case False
    then show ?thesis using any_family_pick [OF False, of fam] unfolding e
      by (simp add: carried_def carried_union_def emitted_default_def)
  qed
qed

lemma record_emitted_carried:
  assumes "xp_ok x"
  shows "xp_ok (record_emitted e on x)"
    "carried (xp_project fam (record_emitted e on x)) =
       carried_union (carried (xp_project fam x)) (if pick fam on then carried e else carried emitted_default)"
proof -
  let ?x = "x\<lparr>xp_ptr := or_on (xp_ptr x) (em_ptr e) on, xp_srv := or_on (xp_srv x) (em_srv e) on,
        xp_txt := or_on (xp_txt x) (em_txt e) on, xp_subtypes := or_on (xp_subtypes x) (em_subtypes e) on,
        xp_nsec := or_on (xp_nsec x) (em_nsec e) on\<rparr>"
  have x: "xp_ok ?x" using assms by (simp add: xp_ok_def)
  note h = record_host_emitted_carried [OF x]
  show "xp_ok (record_emitted e on x)" using h(1) by (simp add: record_emitted_def)
  show "carried (xp_project fam (record_emitted e on x)) =
       carried_union (carried (xp_project fam x)) (if pick fam on then carried e else carried emitted_default)"
    unfolding record_emitted_def h(2)
    by (auto simp: carried_def xp_project_def carried_union_def host_only_def emitted_default_def pick_or_on)
qed

lemma xp_ok_default: "xp_ok xp_default"
  by (simp add: xp_ok_def xp_default_def latched_def)

lemma xp_ok_reset: "xp_ok (xp_reset_instance x) = xp_ok x"
  by (simp add: xp_ok_def xp_reset_instance_def)

lemma carried_reset: "carried (xp_project fam (xp_reset_instance x)) = carried (host_only (xp_project fam x))"
  by (cases fam) (simp_all add: carried_def xp_project_def xp_reset_instance_def host_only_def emitted_default_def)

end
