(* ===== verification/Rename.thy ===== *)
theory Rename
  imports DnsName
begin

text \<open>
  The name a defeated service takes (\<open>service/mod.rs\<close>): \<open>rename_with_suffix\<close>, the names in use, and the
  search for a free one.  A string is its UTF-8 octets.
\<close>

definition dash :: u8 where "dash = 45"

definition is_digit :: "u8 \<Rightarrow> bool" where "is_digit c \<longleftrightarrow> 48 \<le> c \<and> c \<le> 57"

text \<open>\<open>str::rsplit_once('-')\<close> and \<open>u32::to_string\<close>.\<close>

definition rsplit_dash :: "bytes \<Rightarrow> (bytes \<times> bytes) option" where
  "rsplit_dash s =
     (let q = takeWhile (\<lambda>c. c \<noteq> dash) (rev s) in
      if length q = length s then None else Some (take (length s - length q - 1) s, rev q))"

fun decimal :: "nat \<Rightarrow> bytes" where
  "decimal n = (if n < 10 then [48 + word_of_nat n] else decimal (n div 10) @ [48 + word_of_nat (n mod 10)])"

declare decimal.simps [simp del]

definition base_instance :: "bytes \<Rightarrow> bytes" where
  "base_instance inst =
     (case rsplit_dash inst of
        Some (prefix, n) \<Rightarrow> if n \<noteq> [] \<and> list_all is_digit n then prefix else inst
      | None \<Rightarrow> inst)"

definition rename_with_suffix :: "bytes \<Rightarrow> nat \<Rightarrow> bytes" where
  "rename_with_suffix current attempt =
     (let (body, trailing_dot) = (if current \<noteq> [] \<and> last current = dot then (butlast current, True) else (current, False));
          (inst, rest) = (case split_once body of Some (i, r) \<Rightarrow> (i, Some r) | None \<Rightarrow> (body, None)) in
      base_instance inst @ [dash] @ decimal attempt @ (case rest of Some r \<Rightarrow> dot # r | None \<Rightarrow> []) @
        (if trailing_dot then [dot] else []))"

type_synonym names_in_use = "name list"

definition holds :: "names_in_use \<Rightarrow> name \<Rightarrow> bool" where
  "holds taken candidate = list_ex (\<lambda>n. same_owner n candidate) taken"

text \<open>The search: at most as many attempts as the first argument, each with the next suffix.\<close>

fun rename_search :: "nat \<Rightarrow> names_in_use \<Rightarrow> bytes \<Rightarrow> nat \<Rightarrow> nat \<times> name option" where
  "rename_search 0 taken current attempt = (attempt, None)"
| "rename_search (Suc n) taken current attempt =
     (let attempt = sat_add u32_max attempt 1 in
      case try_from_str (rename_with_suffix current attempt) of
        Inr name \<Rightarrow> if holds taken name then rename_search n taken current attempt else (attempt, Some name)
      | Inl _ \<Rightarrow> (attempt, None))"

definition choose_name :: "names_in_use \<Rightarrow> bytes \<Rightarrow> nat \<Rightarrow> nat \<times> name option" where
  "choose_name taken current attempt = rename_search (length taken + 1) taken current attempt"

subsection \<open>Suffixes tell attempts apart\<close>

definition digits_value :: "bytes \<Rightarrow> nat" where
  "digits_value ds = foldl (\<lambda>v d. 10 * v + (unat d - 48)) 0 ds"

lemma unat_digit: "d < 10 \<Longrightarrow> unat (48 + word_of_nat d :: u8) = 48 + d"
  by (simp add: unat_word_ariths(1) unat_u8_of_nat)

lemma digits_value_decimal: "digits_value (decimal n) = n"
proof (induction n rule: decimal.induct)
  case (1 n)
  show ?case
  proof (cases "n < 10")
    case True
    then show ?thesis by (subst decimal.simps) (simp add: digits_value_def unat_digit)
  next
    case False
    with 1 have "digits_value (decimal (n div 10)) = n div 10" by simp
    then show ?thesis using False
      by (subst decimal.simps) (simp add: digits_value_def unat_digit)
  qed
qed

lemma decimal_inj: "decimal m = decimal n \<longleftrightarrow> m = n"
  using digits_value_decimal by metis

lemma decimal_digits: "c \<in> set (decimal n) \<Longrightarrow> is_digit c"
proof (induction n rule: decimal.induct)
  case (1 n)
  have d: "is_digit (48 + word_of_nat k)" if "k < 10" for k
    using that by (simp add: is_digit_def word_le_nat_alt unat_digit)
  show ?case using 1 d by (subst (asm) (2) decimal.simps) (auto split: if_splits)
qed

lemma decimal_lower: "lower (decimal n) = decimal n"
proof -
  have "to_lower c = c" if "is_digit c" for c
    using that by (auto simp: to_lower_def is_digit_def word_le_nat_alt)
  then show ?thesis using decimal_digits by (simp add: lower_def map_idI)
qed

lemma decimal_last: "decimal n \<noteq> []" "last (decimal n) \<noteq> dot"
proof -
  show "decimal n \<noteq> []" by (subst decimal.simps) simp
  then have "is_digit (last (decimal n))" using decimal_digits last_in_set by blast
  then show "last (decimal n) \<noteq> dot" by (auto simp: is_digit_def dot_def)
qed

lemma strip_dot_suffix: "t \<noteq> [] \<Longrightarrow> strip_dot (s @ t) = s @ strip_dot t"
  by (auto simp: strip_dot_def butlast_append)

lemma renamed_strip:
  obtains p t where "\<And>k. strip_dot (rename_with_suffix current k) = p @ decimal k @ t"
    "\<And>k. rename_with_suffix current k \<noteq> []"
proof -
  define c where "c = (current \<noteq> [] \<and> last current = dot)"
  let ?b = "if c then butlast current else current"
  let ?x = "case split_once ?b of Some (i, r) \<Rightarrow> (i, dot # r) | None \<Rightarrow> (?b, [])"
  define p t where "p = base_instance (fst ?x)" and "t = snd ?x @ (if c then [dot] else [])"
  have e: "rename_with_suffix current k = p @ [dash] @ decimal k @ t" for k
    unfolding p_def t_def rename_with_suffix_def c_def [symmetric]
    by (cases c) (simp_all add: Let_def split: option.split prod.split)
  have "strip_dot (rename_with_suffix current k) = (p @ [dash]) @ decimal k @ (if t = [] then [] else strip_dot t)" for k
  proof (cases "t = []")
    case True
    then show ?thesis using decimal_last by (simp add: e strip_dot_def)
  next
    case False
    then show ?thesis using strip_dot_suffix [OF False, of "p @ [dash] @ decimal k"] by (simp add: e)
  qed
  with e show thesis by (intro that [of "p @ [dash]" "if t = [] then [] else strip_dot t"]) auto
qed

lemma renamed_distinct:
  assumes "same_owner (Name (lower (rename_with_suffix current j))) (Name (lower (rename_with_suffix current k)))"
  shows "j = k"
proof -
  obtain p t where e: "\<And>k. strip_dot (rename_with_suffix current k) = p @ decimal k @ t" using renamed_strip by metis
  have "lower (p @ decimal j @ t) = lower (p @ decimal k @ t)"
    using assms by (simp only: same_owner_def name.sel strip_dot_lower e lower_idem)
  then show ?thesis by (simp add: decimal_lower decimal_inj)
qed

subsection \<open>The search\<close>

lemma rename_search_free:
  "rename_search n taken current a = (a', Some name) \<Longrightarrow> \<not> holds taken name \<and>
     try_from_str (rename_with_suffix current a') = Inr name"
  by (induction n taken current a rule: rename_search.induct)
    (auto simp: Let_def sat_add_def split: sum.splits if_splits)

text \<open>Every attempt that fails on a taken name uses one of the names taken.\<close>

lemma rename_search_exhausted:
  assumes "rename_search n taken current a = (a', None)" "a + n \<le> u32_max"
    and "\<And>k. a < k \<Longrightarrow> k \<le> a + n \<Longrightarrow> validate_name (rename_with_suffix current k) = Inr ()"
  shows "\<forall>k\<in>{a<..a + n}. holds taken (Name (lower (rename_with_suffix current k)))"
  using assms
proof (induction n taken current a rule: rename_search.induct)
  case (2 n taken current a)
  let ?nm = "Name (lower (rename_with_suffix current (a + 1)))"
  have s: "sat_add u32_max a 1 = a + 1" using 2(3) by (simp add: sat_add_def)
  have t: "try_from_str (rename_with_suffix current (a + 1)) = Inr ?nm"
    using 2(4) [of "a + 1"] by (simp add: try_from_str_ok)
  have h: "holds taken ?nm" and r: "rename_search n taken current (a + 1) = (a', None)"
    using 2(2) s t by (auto simp: Let_def split: if_splits)
  have rest: "\<forall>k\<in>{a + 1<..a + 1 + n}. holds taken (Name (lower (rename_with_suffix current k)))"
    using 2(1) [OF s [symmetric] t h] r 2(3,4) s by simp
  show ?case
  proof
    fix k assume k: "k \<in> {a<..a + Suc n}"
    show "holds taken (Name (lower (rename_with_suffix current k)))"
    proof (cases "k = a + 1")
      case False
      with k have "k \<in> {a + 1<..a + 1 + n}" by auto
      with rest show ?thesis by blast
    qed (use h in simp)
  qed
qed simp

lemma holds_injective:
  assumes "finite K" "\<And>k. k \<in> K \<Longrightarrow> holds taken (f k)"
    and "\<And>j k. j \<in> K \<Longrightarrow> k \<in> K \<Longrightarrow> same_owner (f j) (f k) \<Longrightarrow> j = k"
  shows "card K \<le> length taken"
proof -
  define g where "g k = (SOME n. n \<in> set taken \<and> same_owner n (f k))" for k
  have g: "g k \<in> set taken \<and> same_owner (g k) (f k)" if "k \<in> K" for k
  proof -
    have "\<exists>n. n \<in> set taken \<and> same_owner n (f k)" using assms(2) [OF that] by (auto simp: holds_def list_ex_iff)
    then show ?thesis unfolding g_def by (rule someI_ex)
  qed
  have "inj_on g K"
  proof (rule inj_onI)
    fix j k assume "j \<in> K" "k \<in> K" "g j = g k"
    then have "same_owner (f j) (f k)" using g by (metis same_owner_def)
    then show "j = k" using assms(3) \<open>j \<in> K\<close> \<open>k \<in> K\<close> by blast
  qed
  then have "card K \<le> card (set taken)" using g by (intro card_inj_on_le) auto
  then show ?thesis using card_length order_trans by blast
qed

text \<open>
  C20. A rename never takes a name in use, and always finds a free one.  Whatever name the search
  returns belongs to no service of the endpoint, under any spelling; and while the attempt counter has
  room and the suffixed names are valid, one attempt more than there are names in use is enough: the
  suffixes are pairwise different names.
\<close>
theorem choose_name_finds:
  assumes "attempt + length taken + 1 \<le> u32_max"
    and "\<And>k. attempt < k \<Longrightarrow> k \<le> attempt + length taken + 1 \<Longrightarrow> validate_name (rename_with_suffix current k) = Inr ()"
  shows "\<exists>attempt' name. choose_name taken current attempt = (attempt', Some name) \<and>
     attempt < attempt' \<and> attempt' \<le> attempt + length taken + 1 \<and>
     name = Name (lower (rename_with_suffix current attempt')) \<and> (\<forall>n\<in>set taken. \<not> same_owner n name)"
proof -
  let ?f = "\<lambda>k. Name (lower (rename_with_suffix current k))" and ?K = "{attempt<..attempt + (length taken + 1)}"
  obtain a' r where c: "choose_name taken current attempt = (a', r)" by (cases "choose_name taken current attempt")
  have range: "rename_search n t cur a = (b, x) \<Longrightarrow> a + n \<le> u32_max \<Longrightarrow> a \<le> b \<and> b \<le> a + n \<and> (0 < n \<longrightarrow> a < b)" for n t cur a b x
    by (induction n t cur a rule: rename_search.induct) (fastforce simp: Let_def sat_add_def split: sum.splits if_splits)+
  show ?thesis
  proof (cases r)
    case None
    then have "\<forall>k\<in>?K. holds taken (?f k)"
      using c assms by (intro rename_search_exhausted) (auto simp: choose_name_def)
    then have "card ?K \<le> length taken"
      by (intro holds_injective [of ?K taken ?f]) (use renamed_distinct in auto)
    then show ?thesis by simp
  next
    case (Some name)
    with c have s: "rename_search (length taken + 1) taken current attempt = (a', Some name)"
      by (simp add: choose_name_def)
    from rename_search_free [OF s] have "\<not> holds taken name" "name = ?f a'"
      unfolding try_from_str_ok by blast+
    with range [OF s] assms(1) c Some show ?thesis by (auto simp: holds_def list_ex_iff)
  qed
qed

text \<open>\<open>a.local\<close> is taken over, and \<open>a-1.local\<close> is in use.\<close>

lemma choose_name_finds_witness:
  "\<exists>k n. choose_name [Name [97, 45, 49, 46, 108]] [97, 46, 108] 0 = (k, Some n) \<and> k \<le> 2 \<and>
     \<not> same_owner (Name [97, 45, 49, 46, 108]) n"
proof -
  let ?v = "\<lambda>k. validate_name (rename_with_suffix [97, 46, 108] k) = Inr ()"
  have "?v 1" "?v 2" by code_simp+
  then have v: "?v k" if "0 < k" "k \<le> 0 + length [Name [97, 45, 49, 46, 108]] + 1" for k
  proof -
    from that have "k = 1 \<or> k = 2" by auto
    with \<open>?v 1\<close> \<open>?v 2\<close> show ?thesis by blast
  qed
  have "\<exists>k n. choose_name [Name [97, 45, 49, 46, 108]] [97, 46, 108] 0 = (k, Some n) \<and>
      0 < k \<and> k \<le> 0 + length [Name [97, 45, 49, 46, 108]] + 1 \<and> n = Name (lower (rename_with_suffix [97, 46, 108] k)) \<and>
      (\<forall>m\<in>set [Name [97, 45, 49, 46, 108]]. \<not> same_owner m n)"
    by (rule choose_name_finds) (use v in simp_all)
  then show ?thesis by auto
qed

end
