(* ===== verification/Service.thy ===== *)
theory Service
  imports Exposure Schedule Proposal Flood Rename Pool
begin

text \<open>
  The state machine of one service (\<open>service/mod.rs\<close>): its state, what a confirmed datagram does to it,
  its queue and its deadlines.  The random generator is an argument \<open>draw\<close> on the state \<open>sv_rng\<close>; the
  field \<open>pending_tx\<close>, which the code never uses, is left out.
\<close>

subsection \<open>State\<close>

record 'i kas_hint =
  kh_rtype :: resource_type
  kh_rdata_hash :: u64
  kh_expires_at :: 'i

definition KAS_RING_SIZE :: nat where "KAS_RING_SIZE = 16"
definition MAX_QUESTIONER_SRCS :: nat where "MAX_QUESTIONER_SRCS = 8"
definition MAX_LEGACY_RESPONSES :: nat where "MAX_LEGACY_RESPONSES = 8"
definition CONFLICT_REPROBE_MIN_INTERVAL :: nat where "CONFLICT_REPROBE_MIN_INTERVAL = secs 1"

record legacy_resp =
  lr_dst :: socket_addr
  lr_query_id :: u16
  lr_name :: name
  lr_qtype :: resource_type
  lr_qclass :: resource_class
  lr_is_meta :: bool

definition hash_rdata :: "bytes \<Rightarrow> u64" where
  "hash_rdata bs = foldl (\<lambda>h b. (h XOR ucast b) * FNV_PRIME) FNV_BASIS bs"

datatype pending_transmit_kind = PT_Probe | PT_Announcement | PT_Response

datatype stale_wire_fact = SF_Probe | SF_Announcement | SF_Response nat

datatype stale_records =
    SR_None
  | SR_SameName emitted_records send_class
  | SR_OldName service_records emitted_records send_class

datatype awaiting_confirm =
    AC_Probe
  | AC_Announcement emitted_records
  | AC_Response emitted_records nat send_class
  | AC_MetaResponse
  | AC_Stale stale_wire_fact stale_records

fun ac_obligation :: "awaiting_confirm \<Rightarrow> transmit_obligation" where
  "ac_obligation AC_Probe = Sustained"
| "ac_obligation (AC_Announcement _) = Sustained"
| "ac_obligation (AC_Response _ _ _) = OneShot"
| "ac_obligation AC_MetaResponse = OneShot"
| "ac_obligation (AC_Stale _ _) = OneShot"

fun ac_min_family_gap :: "awaiting_confirm \<Rightarrow> nat" where
  "ac_min_family_gap AC_Probe = PROBE_INTERVAL"
| "ac_min_family_gap (AC_Announcement _) = ANNOUNCE_INTERVAL"
| "ac_min_family_gap (AC_Response _ _ _) = 0"
| "ac_min_family_gap AC_MetaResponse = 0"
| "ac_min_family_gap (AC_Stale _ _) = 0"

record ('i, 'g, 'ev) service =
  sv_handle :: service_handle
  sv_state :: service_state
  sv_re_announce :: bool
  sv_records :: service_records
  sv_lifecycle_deadline :: "'i option"
  sv_response_deadline :: "'i option"
  sv_probe_count :: nat
  sv_announce_count :: nat
  sv_rename_attempt :: nat
  sv_pending_transmits :: "pending_transmit_kind option \<times> pending_transmit_kind option"
  sv_rng :: 'g
  sv_pending_updates :: 'ev
  sv_last_now :: "'i option"
  sv_kas_hints :: "'i kas_hint option list"
  sv_kas_next_slot :: nat
  sv_questioner_srcs :: "socket_addr list"
  sv_probe_on_wire :: bool
  sv_generation_advertised :: bool
  sv_tiebreak_lost :: bool
  sv_probe_defeated :: bool
  sv_goodbye :: goodbye_ownership
  sv_fully_announced :: bool
  sv_partial_announce_streak :: nat
  sv_partial_rounds :: patience
  sv_last_delivered :: "'i option \<times> 'i option"
  sv_awaiting_confirm :: "awaiting_confirm option"
  sv_pending_legacy :: "legacy_resp list"
  sv_last_conflict_reprobe :: "'i option"
  sv_sequence_started_at :: 'i
  sv_flood_eligibility :: "(datagram_id \<times> bool) option"
  sv_rename_goodbye_handoff :: "rename_goodbye_handoff option"
  sv_meta_response_deadline :: "'i option"
  sv_meta_questioner_srcs :: "socket_addr list"
  sv_meta_known_answered :: "'i option"

text \<open>The deadline of a probe draws its jitter only for the first of a sequence.\<close>

definition draw_probe_deadline ::
  "'i clock \<Rightarrow> ('g \<Rightarrow> u32 \<times> 'g) \<Rightarrow> 'i \<Rightarrow> nat \<Rightarrow> 'g \<Rightarrow> 'i option \<times> 'g" where
  "draw_probe_deadline clk draw now probe_count g =
     (if probe_count = 0 then let (w, g) = draw g in (probe_deadline clk now 0 w, g)
      else (probe_deadline clk now probe_count 0, g))"

definition service_try_new ::
  "'i :: linorder clock \<Rightarrow> ('g \<Rightarrow> u32 \<times> 'g) \<Rightarrow> (service_update, 'ev, 'e) pool_ops \<Rightarrow> service_handle \<Rightarrow>
     service_records \<Rightarrow> 'i \<Rightarrow> 'g \<Rightarrow> bool \<Rightarrow> bool \<Rightarrow> 'i conflict_flood \<Rightarrow> ('i, 'g, 'ev) service" where
  "service_try_new clk draw evs handle records now rng probe re_announce flood =
     (let (state, deadline, rng) =
        (if probe then
           let (base, rng) = draw_probe_deadline clk draw now 0 rng;
               deadline = (case latch_epoch clk now flood of
                   Some epoch \<Rightarrow> map_option (\<lambda>floor. case base of None \<Rightarrow> floor | Some d \<Rightarrow> max d floor)
                     (cadd clk (max now epoch) CONFLICT_BACKOFF_MIN_WAIT)
                 | None \<Rightarrow> base) in
           (St_Init, deadline, rng)
         else (Announcing 0, announce_deadline clk now 0, rng)) in
      \<lparr>sv_handle = handle, sv_state = state, sv_re_announce = re_announce, sv_records = records,
       sv_lifecycle_deadline = deadline, sv_response_deadline = None, sv_probe_count = 0, sv_announce_count = 0,
       sv_rename_attempt = 0, sv_pending_transmits = (None, None), sv_rng = rng, sv_pending_updates = pl_new evs,
       sv_last_now = Some now, sv_kas_hints = replicate KAS_RING_SIZE None, sv_kas_next_slot = 0,
       sv_questioner_srcs = [], sv_probe_on_wire = False, sv_generation_advertised = False,
       sv_tiebreak_lost = False, sv_probe_defeated = False, sv_goodbye = gb_default, sv_fully_announced = False,
       sv_partial_announce_streak = 0, sv_partial_rounds = (fp_default, fp_default),
       sv_last_delivered = (None, None), sv_awaiting_confirm = None, sv_pending_legacy = [],
       sv_last_conflict_reprobe = None, sv_sequence_started_at = now, sv_flood_eligibility = None,
       sv_rename_goodbye_handoff = None, sv_meta_response_deadline = None, sv_meta_questioner_srcs = [],
       sv_meta_known_answered = None\<rparr>)"

abbreviation ttl_nat :: "('i, 'g, 'ev) service \<Rightarrow> nat" where
  "ttl_nat s \<equiv> unat (sr_ttl_secs (sv_records s))"

definition push_update :: "(service_update, 'ev, 'e) pool_ops \<Rightarrow> service_update \<Rightarrow> ('i, 'g, 'ev) service \<Rightarrow> ('i, 'g, 'ev) service" where
  "push_update evs u s = s\<lparr>sv_pending_updates := snd (pl_insert evs (sv_pending_updates s) u)\<rparr>"

subsection \<open>Confirming a datagram\<close>

definition arm_on_partial_ladder :: "'i clock \<Rightarrow> 'i \<Rightarrow> ('i, 'g, 'ev) service \<Rightarrow> ('i, 'g, 'ev) service" where
  "arm_on_partial_ladder clk now s =
     (if sv_partial_announce_streak s = 0 then s
      else s\<lparr>sv_lifecycle_deadline := partial_announce_deadline clk now (sv_partial_announce_streak s) (ttl_nat s)\<rparr>)"

fun refresh_anchor :: "'i \<Rightarrow> family_delivery \<Rightarrow> 'i option \<Rightarrow> 'i option" where
  "refresh_anchor now Delivered at = Some now"
| "refresh_anchor now Missed at = (case at of None \<Rightarrow> Some now | Some t \<Rightarrow> Some t)"
| "refresh_anchor now Unobligated at = None"

definition classify_announcement ::
  "'i \<Rightarrow> transmit_delivery \<Rightarrow> ('i, 'g, 'ev) service \<Rightarrow> phase_advance \<times> ('i, 'g, 'ev) service" where
  "classify_announcement now d s =
     (let (advance, rounds) = classify_advance (sv_partial_rounds s) d;
          (v4, v6) = sv_last_delivered s in
      (advance, s\<lparr>sv_partial_rounds := rounds,
         sv_last_delivered := (refresh_anchor now (fst d) v4, refresh_anchor now (snd d) v6)\<rparr>))"

definition arm_announcement ::
  "'i :: linorder clock \<Rightarrow> 'i \<Rightarrow> phase_advance \<Rightarrow> ('i, 'g, 'ev) service \<Rightarrow> ('i, 'g, 'ev) service" where
  "arm_announcement clk now advance s =
     (let ttl_secs = ttl_nat s;
          arm = (\<lambda>base. let due = stalest_refresh_due clk (sv_last_delivered s) (sv_partial_rounds s) ttl_secs in
                   s\<lparr>sv_lifecycle_deadline := compose_announce_deadline clk now base due\<rparr>) in
      case sv_state s of
        Established \<Rightarrow>
          if \<not> sv_re_announce s then s\<lparr>sv_lifecycle_deadline := None\<rparr>
          else arm (re_announce_deadline clk now ttl_secs)
      | Announcing _ \<Rightarrow>
          if advance = Partial then arm (partial_announce_deadline clk now (sv_partial_announce_streak s) ttl_secs)
          else if (advance = Covered \<or> advance = Excused) \<and> 0 < sv_partial_announce_streak s
          then arm (partial_announce_deadline clk now (sv_partial_announce_streak s) ttl_secs)
          else arm (sv_lifecycle_deadline s)
      | _ \<Rightarrow> s)"

definition bump_streak :: "('i, 'g, 'ev) service \<Rightarrow> ('i, 'g, 'ev) service" where
  "bump_streak s = s\<lparr>sv_partial_announce_streak := sat_add u8_max (sv_partial_announce_streak s) 1\<rparr>"

definition settle_last_probe :: "'i :: linorder clock \<Rightarrow> 'i \<Rightarrow> phase_advance \<Rightarrow> ('i, 'g, 'ev) service \<Rightarrow> ('i, 'g, 'ev) service" where
  "settle_last_probe clk now advance s =
     (let s = s\<lparr>sv_state := Probing 3, sv_probe_count := 3, sv_lifecycle_deadline := announce_deadline clk now 0\<rparr>;
          s = (if advance = AdvDelivered then s\<lparr>sv_partial_announce_streak := 0\<rparr> else arm_on_partial_ladder clk now s) in
      case cadd clk now PROBE_INTERVAL of
        None \<Rightarrow> s
      | Some settled \<Rightarrow> s\<lparr>sv_lifecycle_deadline :=
          (case sv_lifecycle_deadline s of
             Some d \<Rightarrow> if settled < d then Some d else Some settled
           | None \<Rightarrow> Some settled)\<rparr>)"

definition settle_probe ::
  "'i :: linorder clock \<Rightarrow> ('g \<Rightarrow> u32 \<times> 'g) \<Rightarrow> 'i \<Rightarrow> transmit_delivery \<Rightarrow> ('i, 'g, 'ev) service \<Rightarrow> ('i, 'g, 'ev) service" where
  "settle_probe clk draw now d s =
     (let s = (if any_delivered d then s\<lparr>sv_probe_on_wire := True\<rparr> else s) in
      case sv_state s of
        Probing n \<Rightarrow>
          let (advance, rounds) = classify_advance (sv_partial_rounds s) d;
              s = s\<lparr>sv_partial_rounds := rounds\<rparr> in
          if advance = Partial \<or> advance = Failed
          then s\<lparr>sv_lifecycle_deadline := probe_retry_deadline clk now\<rparr>
          else if 2 \<le> n then settle_last_probe clk now advance s
          else
            let new_n = sat_add u8_max n 1;
                (due, rng) = draw_probe_deadline clk draw now new_n (sv_rng s) in
            s\<lparr>sv_state := Probing new_n, sv_probe_count := new_n, sv_lifecycle_deadline := due, sv_rng := rng\<rparr>
      | _ \<Rightarrow> s)"

definition advance_announcing ::
  "'i clock \<Rightarrow> (service_update, 'ev, 'e) pool_ops \<Rightarrow> 'i \<Rightarrow> ('i, 'g, 'ev) service \<Rightarrow> ('i, 'g, 'ev) service" where
  "advance_announcing clk evs now s =
     (case sv_state s of
        Announcing n \<Rightarrow>
          if 1 \<le> n then
            (push_update evs SU_Established (s\<lparr>sv_state := Established, sv_announce_count := 2\<rparr>))
              \<lparr>sv_lifecycle_deadline := re_announce_deadline clk now (ttl_nat s)\<rparr>
          else
            let new_n = sat_add u8_max n 1 in
            s\<lparr>sv_state := Announcing new_n, sv_announce_count := new_n, sv_lifecycle_deadline := announce_deadline clk now new_n\<rparr>
      | _ \<Rightarrow> s)"

definition settle_announcement ::
  "'i :: linorder clock \<Rightarrow> (service_update, 'ev, 'e) pool_ops \<Rightarrow> 'i \<Rightarrow> emitted_records \<Rightarrow> transmit_delivery \<Rightarrow>
     ('i, 'g, 'ev) service \<Rightarrow> ('i, 'g, 'ev) service" where
  "settle_announcement clk evs now emitted d s =
     (let (advance, s) = classify_announcement now d s in
      if advance = Failed then
        (case sv_state s of
           Announcing _ \<Rightarrow> s\<lparr>sv_lifecycle_deadline := announce_deadline clk now 1\<rparr>
         | Established \<Rightarrow> s\<lparr>sv_lifecycle_deadline := announce_deadline clk now 1\<rparr>
         | _ \<Rightarrow> s)
      else
        let s = s\<lparr>sv_goodbye := gb_record_emitted emitted (delivered_on d) Multicast (sv_goodbye s),
                  sv_generation_advertised := (sv_generation_advertised s \<or> claims_instance_name emitted)\<rparr> in
        if advance = Partial then bump_streak (arm_announcement clk now advance s)
        else
          let s = (if advance = AdvDelivered then s\<lparr>sv_partial_announce_streak := 0, sv_fully_announced := True\<rparr> else s);
              s = advance_announcing clk evs now s;
              s = arm_announcement clk now advance s in
          if advances_without_delivery advance then bump_streak s else s)"

definition settle_response :: "emitted_records \<Rightarrow> send_class \<Rightarrow> transmit_delivery \<Rightarrow> ('i, 'g, 'ev) service \<Rightarrow> ('i, 'g, 'ev) service" where
  "settle_response emitted cls d s =
     (if any_delivered d
      then s\<lparr>sv_goodbye := gb_record_emitted emitted (delivered_on d) cls (sv_goodbye s),
             sv_generation_advertised := (sv_generation_advertised s \<or> claims_instance_name emitted)\<rparr>
      else s)"

definition instance_only :: "emitted_records \<Rightarrow> emitted_records" where
  "instance_only e = e\<lparr>em_a := [], em_aaaa := []\<rparr>"

definition merge_pair :: "emitted_records \<times> emitted_records \<Rightarrow> emitted_records \<times> emitted_records \<Rightarrow> emitted_records \<times> emitted_records" where
  "merge_pair new held = (merge_instance (fst new) (fst held), merge_instance (snd new) (snd held))"

definition settle_old_name ::
  "service_records \<Rightarrow> emitted_records \<Rightarrow> send_class \<Rightarrow> transmit_delivery \<Rightarrow> ('i, 'g, 'ev) service \<Rightarrow> ('i, 'g, 'ev) service" where
  "settle_old_name records emitted cls d s =
     (let s = s\<lparr>sv_goodbye := gb_record_host_emitted emitted (delivered_on d) cls (sv_goodbye s)\<rparr>;
          inst = instance_only emitted in
      if em_is_empty inst then s
      else
        let owned = per_family_instance inst (delivered_on d);
            multicast = (if cls = Multicast then owned else (emitted_default, emitted_default)) in
        s\<lparr>sv_rename_goodbye_handoff :=
          (case sv_rename_goodbye_handoff s of
             Some h \<Rightarrow> Some (h\<lparr>rg_owned := merge_pair owned (rg_owned h), rg_multicast := merge_pair multicast (rg_multicast h)\<rparr>)
           | None \<Rightarrow> Some \<lparr>rg_records = records, rg_owned = owned, rg_multicast = multicast\<rparr>)\<rparr>)"

definition settle_stale :: "stale_records \<Rightarrow> transmit_delivery \<Rightarrow> ('i, 'g, 'ev) service \<Rightarrow> ('i, 'g, 'ev) service" where
  "settle_stale records d s =
     (if \<not> any_delivered d then s
      else case records of
        SR_None \<Rightarrow> s
      | SR_SameName emitted cls \<Rightarrow> s\<lparr>sv_goodbye := gb_record_emitted emitted (delivered_on d) cls (sv_goodbye s)\<rparr>
      | SR_OldName records emitted cls \<Rightarrow> settle_old_name records emitted cls d s)"

definition settle_confirm ::
  "'i :: linorder clock \<Rightarrow> ('g \<Rightarrow> u32 \<times> 'g) \<Rightarrow> (service_update, 'ev, 'e) pool_ops \<Rightarrow> 'i \<Rightarrow> awaiting_confirm \<Rightarrow>
     transmit_delivery \<Rightarrow> ('i, 'g, 'ev) service \<Rightarrow> ('i, 'g, 'ev) service" where
  "settle_confirm clk draw evs now kind d s =
     (case kind of
        AC_Probe \<Rightarrow> settle_probe clk draw now d s
      | AC_Announcement emitted \<Rightarrow> settle_announcement clk evs now emitted d s
      | AC_Response emitted _ cls \<Rightarrow> settle_response emitted cls d s
      | AC_MetaResponse \<Rightarrow> s
      | AC_Stale _ records \<Rightarrow> settle_stale records d s)"

fun sustained_token :: "awaiting_confirm \<Rightarrow> bool" where
  "sustained_token AC_Probe = True"
| "sustained_token (AC_Announcement _) = True"
| "sustained_token (AC_Stale SF_Probe _) = True"
| "sustained_token (AC_Stale SF_Announcement _) = True"
| "sustained_token _ = False"

definition service_note_transmit_outcome ::
  "'i :: linorder clock \<Rightarrow> ('g \<Rightarrow> u32 \<times> 'g) \<Rightarrow> (service_update, 'ev, 'e) pool_ops \<Rightarrow> 'i \<Rightarrow> 'i family_attempt \<Rightarrow>
     'i family_attempt \<Rightarrow> ('i, 'g, 'ev) service \<Rightarrow> transmit_confirm \<times> ('i, 'g, 'ev) service" where
  "service_note_transmit_outcome clk draw evs now v4 v6 s =
     (case sv_awaiting_confirm s of
        None \<Rightarrow> (NOTHING, s)
      | Some kind \<Rightarrow>
          let s = s\<lparr>sv_awaiting_confirm := None\<rparr>;
              d = project v4 v6;
              now = anchor v4 v6 now;
              confirm = \<lparr>tc_any_delivered = any_delivered d,
                         tc_retire_producer = (sustained_token kind \<and> undeliverable v4 v6)\<rparr> in
          (confirm, settle_confirm clk draw evs now kind d s))"

end
