(* ===== verification/ServiceOps.thy ===== *)
theory ServiceOps
  imports Service
begin

text \<open>
  The operations of a service (\<open>service/mod.rs\<close>, continued): events, timers and datagrams.  An event or
  a timer also reads the endpoint's conflict limit; debug assertions, statistics and tracing are left
  out, as in a release build.
\<close>

subsection \<open>Queue and deadlines\<close>

definition stale_records_of :: "(emitted_records \<times> send_class) option \<Rightarrow> service_records option \<Rightarrow> stale_records" where
  "stale_records_of emitted renamed_from =
     (case (emitted, renamed_from) of
        (None, _) \<Rightarrow> SR_None
      | (Some (e, cls), None) \<Rightarrow> SR_SameName e cls
      | (Some (e, cls), Some records) \<Rightarrow> SR_OldName records e cls)"

fun stale_token :: "service_records option \<Rightarrow> awaiting_confirm \<Rightarrow> awaiting_confirm" where
  "stale_token renamed_from AC_Probe = AC_Stale SF_Probe (stale_records_of None renamed_from)"
| "stale_token renamed_from (AC_Announcement e) =
     AC_Stale SF_Announcement (stale_records_of (Some (e, Multicast)) renamed_from)"
| "stale_token renamed_from (AC_Response e kas cls) =
     AC_Stale (SF_Response kas) (stale_records_of (Some (e, cls)) renamed_from)"
| "stale_token renamed_from AC_MetaResponse = AC_MetaResponse"
| "stale_token renamed_from (AC_Stale sf records) = AC_Stale sf
     (case (records, renamed_from) of
        (SR_SameName e cls, Some r) \<Rightarrow> SR_OldName r e cls
      | (records, _) \<Rightarrow> records)"

definition stale_live_commit_token :: "service_records option \<Rightarrow> ('i, 'g, 'ev) service \<Rightarrow> ('i, 'g, 'ev) service" where
  "stale_live_commit_token renamed_from s =
     s\<lparr>sv_awaiting_confirm := map_option (stale_token renamed_from) (sv_awaiting_confirm s)\<rparr>"

definition stamped_obligation :: "('i, 'g, 'ev) service \<Rightarrow> transmit_obligation" where
  "stamped_obligation s = (case sv_awaiting_confirm s of Some token \<Rightarrow> ac_obligation token | None \<Rightarrow> OneShot)"

definition stamped_min_family_gap :: "('i, 'g, 'ev) service \<Rightarrow> nat" where
  "stamped_min_family_gap s = (case sv_awaiting_confirm s of Some token \<Rightarrow> ac_min_family_gap token | None \<Rightarrow> 0)"

definition take_withdrawal_snapshot :: "('i, 'g, 'ev) service \<Rightarrow> withdrawal_snapshot" where
  "take_withdrawal_snapshot s = \<lparr>ws_records = sv_records s, ws_owned = gb_per_family (sv_goodbye s),
     ws_multicast = gb_per_family_multicast (sv_goodbye s)\<rparr>"

definition take_rename_goodbye_handoff ::
  "('i, 'g, 'ev) service \<Rightarrow> rename_goodbye_handoff option \<times> ('i, 'g, 'ev) service" where
  "take_rename_goodbye_handoff s = (sv_rename_goodbye_handoff s, s\<lparr>sv_rename_goodbye_handoff := None\<rparr>)"

definition conflict_classified_unresolved :: "('i, 'g, 'ev) service \<Rightarrow> bool" where
  "conflict_classified_unresolved s \<longleftrightarrow> sv_probe_defeated s \<or> sv_tiebreak_lost s"

definition rename_imminent :: "('i, 'g, 'ev) service \<Rightarrow> bool" where
  "rename_imminent s = sv_probe_defeated s"

fun unprobed :: "service_state \<Rightarrow> bool" where
  "unprobed St_Init = True"
| "unprobed (Probing _) = True"
| "unprobed _ = False"

fun announced :: "service_state \<Rightarrow> bool" where
  "announced (Announcing _) = True"
| "announced Established = True"
| "announced _ = False"

definition startup_parked :: "('i, 'g, 'ev) service \<Rightarrow> bool" where
  "startup_parked s \<longleftrightarrow> sv_lifecycle_deadline s = None \<and> sv_pending_transmits s = (None, None) \<and>
     sv_awaiting_confirm s = None \<and> \<not> sv_probe_on_wire s \<and> unprobed (sv_state s)"

text \<open>The running minimum of the three deadlines.\<close>

definition earlier :: "'i :: linorder option \<Rightarrow> 'i option \<Rightarrow> 'i option" where
  "earlier best d =
     (case d of
        None \<Rightarrow> best
      | Some d \<Rightarrow> (case best of Some b \<Rightarrow> if b \<le> d then Some b else Some d | None \<Rightarrow> Some d))"

definition service_poll_timeout :: "('i :: linorder, 'g, 'ev) service \<Rightarrow> 'i option" where
  "service_poll_timeout s =
     (if sv_pending_legacy s \<noteq> [] then sv_last_now s
      else if conflict_classified_unresolved s then sv_last_now s
      else if startup_parked s then sv_last_now s
      else earlier (earlier (earlier None (sv_lifecycle_deadline s)) (sv_response_deadline s)) (sv_meta_response_deadline s))"

definition push_pending :: "pending_transmit_kind \<Rightarrow> ('i, 'g, 'ev) service \<Rightarrow> ('i, 'g, 'ev) service" where
  "push_pending kind s =
     (case sv_pending_transmits s of
        (None, b) \<Rightarrow> s\<lparr>sv_pending_transmits := (Some kind, b)\<rparr>
      | (Some a, None) \<Rightarrow> s\<lparr>sv_pending_transmits := (Some a, Some kind)\<rparr>
      | (Some a, Some b) \<Rightarrow> s)"

definition push_lifecycle_pending :: "pending_transmit_kind \<Rightarrow> ('i, 'g, 'ev) service \<Rightarrow> ('i, 'g, 'ev) service" where
  "push_lifecycle_pending kind s = (if sv_awaiting_confirm s \<noteq> None then s else push_pending kind s)"

definition pop_pending :: "('i, 'g, 'ev) service \<Rightarrow> pending_transmit_kind option \<times> ('i, 'g, 'ev) service" where
  "pop_pending s =
     (case sv_pending_transmits s of
        (None, b) \<Rightarrow> (None, s)
      | (Some k, b) \<Rightarrow> (Some k, s\<lparr>sv_pending_transmits := (b, None)\<rparr>))"

definition peek_pending :: "('i, 'g, 'ev) service \<Rightarrow> pending_transmit_kind option" where
  "peek_pending s = fst (sv_pending_transmits s)"

definition service_poll ::
  "(service_update, 'ev, 'e) pool_ops \<Rightarrow> ('i, 'g, 'ev) service \<Rightarrow> service_update option \<times> ('i, 'g, 'ev) service" where
  "service_poll evs s =
     (case pl_iter evs (sv_pending_updates s) of
        [] \<Rightarrow> (None, s)
      | (k, _) # _ \<Rightarrow>
          let (upd, p) = pl_remove evs (sv_pending_updates s) k in (upd, s\<lparr>sv_pending_updates := p\<rparr>))"

subsection \<open>Starting over\<close>

definition our_canonical_records_for :: "('i, 'g, 'ev) service \<Rightarrow> resource_type \<Rightarrow> bytes list" where
  "our_canonical_records_for s rtype = canonical_rdata_forms (sv_records s) rtype"

definition clear_response_cycle_state :: "('i, 'g, 'ev) service \<Rightarrow> ('i, 'g, 'ev) service" where
  "clear_response_cycle_state s = s\<lparr>sv_pending_legacy := [], sv_kas_hints := replicate KAS_RING_SIZE None,
     sv_kas_next_slot := 0, sv_questioner_srcs := [], sv_meta_response_deadline := None,
     sv_meta_questioner_srcs := [], sv_meta_known_answered := None\<rparr>"

definition reset_advertised_name_state :: "('i, 'g, 'ev) service \<Rightarrow> ('i, 'g, 'ev) service" where
  "reset_advertised_name_state s = s\<lparr>sv_goodbye := gb_reset_instance (sv_goodbye s), sv_fully_announced := False,
     sv_partial_announce_streak := 0, sv_last_delivered := (None, None)\<rparr>"

definition backoff_floor :: "'i :: linorder clock \<Rightarrow> 'i \<Rightarrow> 'i conflict_flood \<Rightarrow> ('i, 'g, 'ev) service \<Rightarrow> 'i option" where
  "backoff_floor clk now flood s =
     (let anchor = (case latch_epoch clk now flood of
          Some epoch \<Rightarrow> if sv_sequence_started_at s < epoch then epoch else sv_sequence_started_at s
        | None \<Rightarrow> sv_sequence_started_at s) in
      cadd clk anchor CONFLICT_BACKOFF_MIN_WAIT)"

definition apply_backoff_floor ::
  "'i :: linorder clock \<Rightarrow> 'i \<Rightarrow> 'i option \<Rightarrow> 'i conflict_flood \<Rightarrow> ('i, 'g, 'ev) service \<Rightarrow> 'i option" where
  "apply_backoff_floor clk now deadline flood s =
     (if \<not> in_force clk now flood then deadline
      else case backoff_floor clk now flood s of
        None \<Rightarrow> None
      | Some floor \<Rightarrow> Some (case deadline of Some d \<Rightarrow> max d floor | None \<Rightarrow> floor))"

definition restart_probe_cycle ::
  "'i :: linorder clock \<Rightarrow> 'i \<Rightarrow> 'i option \<Rightarrow> service_records option \<Rightarrow> 'i conflict_flood \<Rightarrow> ('i, 'g, 'ev) service \<Rightarrow>
     (handle_timeout_error + unit) \<times> ('i, 'g, 'ev) service" where
  "restart_probe_cycle clk now deadline renamed_from flood s =
     (let s = stale_live_commit_token renamed_from s;
          s = s\<lparr>sv_state := St_Init, sv_probe_count := 0, sv_announce_count := 0, sv_probe_on_wire := False,
                sv_probe_defeated := False, sv_tiebreak_lost := False, sv_generation_advertised := False,
                sv_pending_transmits := (None, None), sv_response_deadline := None,
                sv_partial_rounds := (fp_default, fp_default)\<rparr>;
          s = clear_response_cycle_state s;
          s = s\<lparr>sv_sequence_started_at := now\<rparr>;
          s = s\<lparr>sv_lifecycle_deadline := apply_backoff_floor clk now deadline flood s\<rparr> in
      (if sv_lifecycle_deadline s = None then Inl TimeoutOverflow else Inr (), s))"

definition flood_eligible :: "datagram_id \<Rightarrow> ('i, 'g, 'ev) service \<Rightarrow> bool \<times> ('i, 'g, 'ev) service" where
  "flood_eligible datagram s =
     (case sv_flood_eligibility s of
        Some (seen, eligible) \<Rightarrow>
          if seen = datagram then (eligible, s)
          else (sv_probe_on_wire s, s\<lparr>sv_flood_eligibility := Some (datagram, sv_probe_on_wire s)\<rparr>)
      | None \<Rightarrow> (sv_probe_on_wire s, s\<lparr>sv_flood_eligibility := Some (datagram, sv_probe_on_wire s)\<rparr>))"

definition defer_first_probe_under_flood ::
  "'i :: linorder clock \<Rightarrow> 'i \<Rightarrow> 'i conflict_flood \<Rightarrow> ('i, 'g, 'ev) service \<Rightarrow> ('i, 'g, 'ev) service" where
  "defer_first_probe_under_flood clk now flood s =
     (if sv_awaiting_confirm s \<noteq> None \<or> sv_probe_on_wire s \<or> peek_pending s \<noteq> Some PT_Probe \<or> \<not> in_force clk now flood
      then s
      else case backoff_floor clk now flood s of
        Some floor \<Rightarrow> if now < floor then (snd (pop_pending s))\<lparr>sv_lifecycle_deadline := Some floor\<rparr> else s
      | None \<Rightarrow> snd (pop_pending s))"

definition quiesce_for_withdrawal :: "('i, 'g, 'ev) service \<Rightarrow> ('i, 'g, 'ev) service" where
  "quiesce_for_withdrawal s = clear_response_cycle_state
     (s\<lparr>sv_pending_transmits := (None, None), sv_lifecycle_deadline := None, sv_response_deadline := None\<rparr>)"

subsection \<open>Conflicts\<close>

datatype peer_rdata = PR_Invalid | PR_UnownedRrtype | PR_Identical | PR_Different

definition from_identical :: "bool \<Rightarrow> peer_rdata" where
  "from_identical identical = (if identical then PR_Identical else PR_Different)"

definition classify_host_rdata :: "record_ref \<Rightarrow> ('i, 'g, 'ev) service \<Rightarrow> peer_rdata" where
  "classify_host_rdata r s =
     (case rdata_view r of
        Inr (Rdata_A a) \<Rightarrow>
          let ours = sr_a_addrs (sv_records s) in
          if ours = [] then PR_UnownedRrtype else from_identical (a \<in> set ours)
      | Inr (Rdata_AAAA a) \<Rightarrow>
          let ours = sr_aaaa_addrs (sv_records s) in
          if ours = [] then PR_UnownedRrtype else from_identical (a \<in> set ours)
      | Inl _ \<Rightarrow> PR_Invalid
      | Inr _ \<Rightarrow> PR_Different)"

definition classify_instance_rdata :: "record_ref \<Rightarrow> ('i, 'g, 'ev) service \<Rightarrow> peer_rdata" where
  "classify_instance_rdata r s =
     (case canonical_rdata_folded r of
        Inl _ \<Rightarrow> PR_Invalid
      | Inr peer \<Rightarrow> from_identical (peer \<in> set (our_canonical_records_for s (rr_rtype r))))"

definition is_preauthoritative :: "('i, 'g, 'ev) service \<Rightarrow> bool" where
  "is_preauthoritative s =
     (case sv_state s of
        St_Init \<Rightarrow> True
      | Probing _ \<Rightarrow> True
      | Announcing n \<Rightarrow> n = 0 \<and> \<not> sv_generation_advertised s \<and> sv_awaiting_confirm s = None
      | _ \<Rightarrow> False)"

definition handle_preauthoritative_conflict :: "probe_conflict \<Rightarrow> ('i, 'g, 'ev) service \<Rightarrow> ('i, 'g, 'ev) service" where
  "handle_preauthoritative_conflict pc s =
     (if \<not> sv_probe_on_wire s then s
      else if pc_history pc = Relinquished then s\<lparr>sv_tiebreak_lost := True\<rparr>
      else s\<lparr>sv_probe_defeated := True\<rparr>)"

definition handle_probe_proposal :: "probe_proposal \<Rightarrow> ('i, 'g, 'ev) service \<Rightarrow> bool \<times> ('i, 'g, 'ev) service" where
  "handle_probe_proposal pp s =
     (case adjudicate pp (sv_records s) of
        PeerWins \<Rightarrow> (True, s\<lparr>sv_tiebreak_lost := True\<rparr>)
      | WeHold \<Rightarrow> (False, s)
      | Abandoned _ \<Rightarrow> (False, s))"

definition classify_event :: "service_event \<Rightarrow> ('i, 'g, 'ev) service \<Rightarrow> peer_rdata" where
  "classify_event ev s =
     (case ev of
        SE_ProbeConflict pc \<Rightarrow>
          if pc_role pc = InstanceAndHost then classify_host_rdata (pc_record pc) s
          else classify_instance_rdata (pc_record pc) s
      | SE_HostConflict hc \<Rightarrow> classify_host_rdata (hc_record hc) s
      | _ \<Rightarrow> PR_Different)"

type_synonym ('i, 'g, 'ev) flooded = "('i, 'g, 'ev) service \<times> 'i conflict_flood"

text \<open>A conflict over a name we have established: probe again, at most once a second.\<close>

definition established_conflict ::
  "'i :: linorder clock \<Rightarrow> ('g \<Rightarrow> u32 \<times> 'g) \<Rightarrow> 'i \<Rightarrow> probe_conflict \<Rightarrow> ('i, 'g, 'ev) flooded \<Rightarrow> ('i, 'g, 'ev) flooded" where
  "established_conflict clk draw now pc = (\<lambda>(s, flood).
     if pc_role pc = RoleInstance \<and> our_canonical_records_for s (rr_rtype (pc_record pc)) = [] then (s, flood)
     else if \<not> is_ok (canonical_rdata_folded (pc_record pc)) then (s, flood)
     else
       let flood = snd (flood_accept clk now (pc_datagram pc) (sr_instance (sv_records s)) flood);
           too_soon = (case sv_last_conflict_reprobe s of
               None \<Rightarrow> False
             | Some prev \<Rightarrow> (case csince clk now prev of
                 None \<Rightarrow> False | Some elapsed \<Rightarrow> elapsed < CONFLICT_REPROBE_MIN_INTERVAL)) in
       if too_soon then (s, flood)
       else
         let s = s\<lparr>sv_last_conflict_reprobe := Some now\<rparr>;
             (deadline, rng) = draw_probe_deadline clk draw now 0 (sv_rng s);
             s = s\<lparr>sv_rng := rng\<rparr> in
         (snd (restart_probe_cycle clk now deadline None flood s), flood))"

subsection \<open>Questions\<close>

definition response_jitter :: "('g \<Rightarrow> u32 \<times> 'g) \<Rightarrow> bool \<Rightarrow> 'g \<Rightarrow> nat \<times> 'g" where
  "response_jitter draw truncated rng =
     (let (w, rng) = draw rng in ((if truncated then 400 else 20) + unat w mod 101, rng))"

definition keep_earlier :: "'i :: linorder option \<Rightarrow> 'i \<Rightarrow> 'i option" where
  "keep_earlier existing due =
     Some (case existing of Some t \<Rightarrow> if t \<le> due then t else due | None \<Rightarrow> due)"

definition note_src :: "socket_addr \<Rightarrow> socket_addr list \<Rightarrow> socket_addr list" where
  "note_src src srcs = (if src \<notin> set srcs \<and> length srcs < MAX_QUESTIONER_SRCS then srcs @ [src] else srcs)"

definition legacy_meta_question :: "service_question \<Rightarrow> ('i, 'g, 'ev) service \<Rightarrow> ('i, 'g, 'ev) service" where
  "legacy_meta_question sq s =
     (if length (sv_pending_legacy s) < MAX_LEGACY_RESPONSES
      then (case try_from_str DNS_SD_META_QUERY_NAME of
          Inl _ \<Rightarrow> s
        | Inr meta \<Rightarrow>
            if list_ex (\<lambda>l. lr_dst l = sq_src sq \<and> lr_query_id l = sq_query_id sq \<and> lr_is_meta l) (sv_pending_legacy s)
            then s
            else s\<lparr>sv_pending_legacy := sv_pending_legacy s @
              [\<lparr>lr_dst = sq_src sq, lr_query_id = sq_query_id sq, lr_name = meta,
                lr_qtype = q_type (sq_question sq), lr_qclass = q_class (sq_question sq), lr_is_meta = True\<rparr>]\<rparr>)
      else s)"

definition multicast_meta_question ::
  "'i :: linorder clock \<Rightarrow> ('g \<Rightarrow> u32 \<times> 'g) \<Rightarrow> 'i \<Rightarrow> service_question \<Rightarrow> ('i, 'g, 'ev) service \<Rightarrow> ('i, 'g, 'ev) service" where
  "multicast_meta_question clk draw now sq s =
     (let s = s\<lparr>sv_meta_questioner_srcs := note_src (sq_src sq) (sv_meta_questioner_srcs s)\<rparr>;
          (jitter_ms, rng) = response_jitter draw (sq_truncated sq) (sv_rng s);
          s = s\<lparr>sv_rng := rng\<rparr> in
      case cadd clk now (millis jitter_ms) of
        None \<Rightarrow> s
      | Some due \<Rightarrow> s\<lparr>sv_meta_response_deadline := keep_earlier (sv_meta_response_deadline s) due\<rparr>)"

definition echo_name :: "service_records \<Rightarrow> name_ref \<Rightarrow> name option" where
  "echo_name r qname =
     (if names_match (sr_service_type r) qname then Some (sr_service_type r)
      else if names_match (sr_instance r) qname then Some (sr_instance r)
      else if names_match (sr_host r) qname then Some (sr_host r)
      else find (\<lambda>n. names_match n qname) (sr_subtypes r))"

definition legacy_question :: "service_question \<Rightarrow> ('i, 'g, 'ev) service \<Rightarrow> ('i, 'g, 'ev) service" where
  "legacy_question sq s =
     (if length (sv_pending_legacy s) < MAX_LEGACY_RESPONSES
      then (case echo_name (sv_records s) (q_name (sq_question sq)) of
          None \<Rightarrow> s
        | Some n \<Rightarrow>
            let qtype = q_type (sq_question sq); qclass = q_class (sq_question sq) in
            if list_ex (\<lambda>l. lr_dst l = sq_src sq \<and> lr_query_id l = sq_query_id sq \<and> lr_qtype l = qtype \<and>
                 lr_qclass l = qclass \<and> lr_name l = n) (sv_pending_legacy s)
            then s
            else s\<lparr>sv_pending_legacy := sv_pending_legacy s @
              [\<lparr>lr_dst = sq_src sq, lr_query_id = sq_query_id sq, lr_name = n, lr_qtype = qtype,
                lr_qclass = qclass, lr_is_meta = False\<rparr>]\<rparr>)
      else s)"

definition multicast_question ::
  "'i :: linorder clock \<Rightarrow> ('g \<Rightarrow> u32 \<times> 'g) \<Rightarrow> 'i \<Rightarrow> service_question \<Rightarrow> ('i, 'g, 'ev) service \<Rightarrow> ('i, 'g, 'ev) service" where
  "multicast_question clk draw now sq s =
     (let (jitter_ms, rng) = response_jitter draw (sq_truncated sq) (sv_rng s);
          s = s\<lparr>sv_rng := rng\<rparr> in
      case cadd clk now (millis jitter_ms) of
        None \<Rightarrow> s
      | Some new_rd \<Rightarrow> s\<lparr>sv_response_deadline := keep_earlier (sv_response_deadline s) new_rd,
          sv_questioner_srcs := note_src (sq_src sq) (sv_questioner_srcs s)\<rparr>)"

definition service_question_event ::
  "'i :: linorder clock \<Rightarrow> ('g \<Rightarrow> u32 \<times> 'g) \<Rightarrow> 'i \<Rightarrow> service_question \<Rightarrow> ('i, 'g, 'ev) service \<Rightarrow> ('i, 'g, 'ev) service" where
  "service_question_event clk draw now sq s =
     (if is_meta_query_name (q_name (sq_question sq))
      then (if sock_port (sq_src sq) \<noteq> MDNS_PORT then legacy_meta_question sq s
            else multicast_meta_question clk draw now sq s)
      else if sock_port (sq_src sq) \<noteq> MDNS_PORT then legacy_question sq s
      else multicast_question clk draw now sq s)"

subsection \<open>Known answers\<close>

definition sat_double :: "u32 \<Rightarrow> nat" where "sat_double ttl = min (2 * unat ttl) u32_max"

definition known_meta_answer :: "'i clock \<Rightarrow> 'i \<Rightarrow> known_answer \<Rightarrow> ('i, 'g, 'ev) service \<Rightarrow> ('i, 'g, 'ev) service" where
  "known_meta_answer clk now ka s =
     (let r = ka_record ka in
      if sv_meta_response_deadline s \<noteq> None \<and> ka_src ka \<in> set (sv_meta_questioner_srcs s) \<and> rr_rclass r = Class_In \<and>
        rr_rtype r = RT_Ptr \<and> ttl_nat s \<le> sat_double (rr_ttl r) \<and>
        (case rdata_view r of Inr (Rdata_Ptr p) \<Rightarrow> names_match (sr_service_type (sv_records s)) p | _ \<Rightarrow> False)
      then (case cadd clk now (secs (unat (rr_ttl r))) of
          None \<Rightarrow> s
        | Some expires_at \<Rightarrow> s\<lparr>sv_meta_known_answered := Some expires_at\<rparr>)
      else s)"

definition store_hint :: "'i kas_hint \<Rightarrow> ('i, 'g, 'ev) service \<Rightarrow> ('i, 'g, 'ev) service" where
  "store_hint hint s =
     (if sv_kas_next_slot s < length (sv_kas_hints s)
      then s\<lparr>sv_kas_hints := (sv_kas_hints s)[sv_kas_next_slot s := Some hint],
             sv_kas_next_slot := sat_add u64_max (sv_kas_next_slot s) 1 mod KAS_RING_SIZE\<rparr>
      else s)"

definition known_answer_event :: "'i clock \<Rightarrow> 'i \<Rightarrow> known_answer \<Rightarrow> ('i, 'g, 'ev) service \<Rightarrow> ('i, 'g, 'ev) service" where
  "known_answer_event clk now ka s =
     (let r = ka_record ka in
      if is_meta_query_name (rr_name r) then known_meta_answer clk now ka s
      else if sv_response_deadline s = None then s
      else if ka_src ka \<notin> set (sv_questioner_srcs s) then s
      else if rr_rclass r \<noteq> Class_In then s
      else if sat_double (rr_ttl r) < ttl_nat s then s
      else case cadd clk now (secs (unat (rr_ttl r))) of
        None \<Rightarrow> s
      | Some expires_at \<Rightarrow>
          (case canonical_rdata_folded r of
             Inl _ \<Rightarrow> s
           | Inr canonical \<Rightarrow>
               let rdata_hash = hash_rdata canonical in
               (case emitted_owner_name (sv_records s) (rr_rtype r) of
                  None \<Rightarrow> s
                | Some owner \<Rightarrow>
                    if \<not> names_match_record owner r then s
                    else store_hint \<lparr>kh_rtype = rr_rtype r, kh_rdata_hash = rdata_hash, kh_expires_at = expires_at\<rparr> s)))"

definition host_conflict_event ::
  "'i :: linorder clock \<Rightarrow> (service_update, 'ev, 'e) pool_ops \<Rightarrow> 'i \<Rightarrow> host_conflict \<Rightarrow> ('i, 'g, 'ev) flooded \<Rightarrow> ('i, 'g, 'ev) flooded" where
  "host_conflict_event clk evs now hc = (\<lambda>(s, flood).
     if hc_origin hc \<noteq> AuthoritativeResponse then (s, flood)
     else
       let (eligible, s) = flood_eligible (hc_datagram hc) s;
           flood = (if eligible then snd (flood_accept clk now (hc_datagram hc) (sr_host (sv_records s)) flood) else flood) in
       (push_update evs SU_HostConflict s, flood))"

subsection \<open>An event\<close>

definition service_handle_event ::
  "'i :: linorder clock \<Rightarrow> ('g \<Rightarrow> u32 \<times> 'g) \<Rightarrow> (service_update, 'ev, 'e) pool_ops \<Rightarrow> service_event \<Rightarrow> 'i \<Rightarrow>
     'i conflict_flood \<Rightarrow> ('i, 'g, 'ev) service \<Rightarrow> ('i, 'g, 'ev) flooded" where
  "service_handle_event clk draw evs ev now flood s =
     (let s = s\<lparr>sv_last_now := Some now\<rparr>;
          s = (case event_datagram ev of Some datagram \<Rightarrow> snd (flood_eligible datagram s) | None \<Rightarrow> s) in
      if classify_event ev s \<noteq> PR_Different then (s, flood)
      else case ev of
        SE_ProbeConflict pc \<Rightarrow>
          if is_preauthoritative s then
            let (eligible, s) = flood_eligible (pc_datagram pc) s;
                flood = (if eligible then snd (flood_accept clk now (pc_datagram pc) (sr_instance (sv_records s)) flood) else flood) in
            (handle_preauthoritative_conflict pc s, flood)
          else if announced (sv_state s)
          then established_conflict clk draw now pc (s, flood)
          else (s, flood)
      | SE_ProbeProposal pp \<Rightarrow>
          if is_preauthoritative s then
            let (lost, s) = handle_probe_proposal pp s in
            (s, if lost then snd (flood_accept clk now (pp_datagram pp) (sr_instance (sv_records s)) flood) else flood)
          else (s, flood)
      | SE_Question sq \<Rightarrow>
          if announced (sv_state s)
          then (service_question_event clk draw now sq s, flood) else (s, flood)
      | SE_KnownAnswer ka \<Rightarrow> (known_answer_event clk now ka s, flood)
      | SE_HostConflict hc \<Rightarrow> host_conflict_event clk evs now hc (s, flood))"

end
