(* ===== verification/ServiceTick.thy ===== *)
theory ServiceTick
  imports ServiceOps
begin

text \<open>
  The timer and the outbox of a service (\<open>service/mod.rs\<close>): \<open>handle_timeout\<close> with its rename, and
  \<open>poll_transmit\<close>.
\<close>

subsection \<open>Losing the name\<close>

definition hand_off_goodbye :: "('i, 'g, 'ev) service \<Rightarrow> ('i, 'g, 'ev) service" where
  "hand_off_goodbye s =
     (if gb_any_instance (sv_goodbye s) \<or> any_family (xp_nsec (gb_all (sv_goodbye s)))
      then s\<lparr>sv_rename_goodbye_handoff := Some
        \<lparr>rg_records = sv_records s,
         rg_owned = map_prod instance_only instance_only (gb_per_family (sv_goodbye s)),
         rg_multicast = map_prod instance_only instance_only (gb_per_family_multicast (sv_goodbye s))\<rparr>\<rparr>
      else s)"

definition rename_to ::
  "'i :: linorder clock \<Rightarrow> ('g \<Rightarrow> u32 \<times> 'g) \<Rightarrow> (service_update, 'ev, 'e) pool_ops \<Rightarrow> 'i \<Rightarrow> 'i conflict_flood \<Rightarrow> name \<Rightarrow>
     ('i, 'g, 'ev) service \<Rightarrow> (handle_timeout_error + unit) \<times> ('i, 'g, 'ev) service" where
  "rename_to clk draw evs now flood new_name s =
     (let renamed_from = sv_records s;
          (deadline, rng) = draw_probe_deadline clk draw now 0 (sv_rng s);
          s = s\<lparr>sv_rng := rng\<rparr>;
          (outcome, s) = restart_probe_cycle clk now deadline (Some renamed_from) flood s;
          s = s\<lparr>sv_records := sr_set_instance new_name (sv_records s)\<rparr>;
          s = push_update evs (SU_Renamed new_name) s in
      (outcome, reset_advertised_name_state s))"

definition give_up_name :: "(service_update, 'ev, 'e) pool_ops \<Rightarrow> ('i, 'g, 'ev) service \<Rightarrow> ('i, 'g, 'ev) service" where
  "give_up_name evs s =
     (let s = stale_live_commit_token (Some (sv_records s)) s;
          s = push_update evs SU_Conflict (s\<lparr>sv_state := Conflicting\<rparr>);
          s = s\<lparr>sv_lifecycle_deadline := None, sv_pending_transmits := (None, None), sv_response_deadline := None,
                sv_goodbye := gb_reset_instance (sv_goodbye s), sv_fully_announced := False,
                sv_partial_announce_streak := 0\<rparr> in
      clear_response_cycle_state s)"

definition lose_name ::
  "'i :: linorder clock \<Rightarrow> ('g \<Rightarrow> u32 \<times> 'g) \<Rightarrow> (service_update, 'ev, 'e) pool_ops \<Rightarrow> 'i \<Rightarrow> 'i conflict_flood \<Rightarrow> names_in_use \<Rightarrow>
     ('i, 'g, 'ev) service \<Rightarrow> (handle_timeout_error + unit) \<times> ('i, 'g, 'ev) service" where
  "lose_name clk draw evs now flood taken s =
     (let s = hand_off_goodbye s;
          (attempt, chosen) = choose_name taken (as_str (sr_instance (sv_records s))) (sv_rename_attempt s);
          s = s\<lparr>sv_rename_attempt := attempt\<rparr> in
      case chosen of
        Some new_name \<Rightarrow> rename_to clk draw evs now flood new_name s
      | None \<Rightarrow> (Inr (), give_up_name evs s))"

subsection \<open>The timer\<close>

definition prune_hints :: "'i :: linorder \<Rightarrow> ('i, 'g, 'ev) service \<Rightarrow> ('i, 'g, 'ev) service" where
  "prune_hints now s = s\<lparr>sv_kas_hints := map (\<lambda>slot. case slot of
     Some hint \<Rightarrow> if kh_expires_at hint \<le> now then None else Some hint | None \<Rightarrow> None) (sv_kas_hints s)\<rparr>"

text \<open>\<open>fire_response\<close> takes the response deadline when it is due.\<close>

definition fire_response :: "'i :: linorder \<Rightarrow> ('i, 'g, 'ev) service \<Rightarrow> bool \<times> ('i, 'g, 'ev) service" where
  "fire_response now s =
     (case sv_response_deadline s of
        Some rd \<Rightarrow> if rd \<le> now then (True, s\<lparr>sv_response_deadline := None\<rparr>) else (False, s)
      | None \<Rightarrow> (False, s))"

text \<open>A probe sequence the limit caught before its first probe waits for the floor, or is parked.\<close>

definition hold_first_probe ::
  "'i :: linorder clock \<Rightarrow> 'i \<Rightarrow> 'i conflict_flood \<Rightarrow> ('i, 'g, 'ev) service \<Rightarrow> bool \<times> ('i, 'g, 'ev) service" where
  "hold_first_probe clk now flood s =
     (if \<not> sv_probe_on_wire s \<and> unprobed (sv_state s) \<and>
        (case sv_lifecycle_deadline s of Some due \<Rightarrow> due \<le> now | None \<Rightarrow> False) \<and> in_force clk now flood
      then (case backoff_floor clk now flood s of
          Some floor \<Rightarrow> (False, if now < floor then s\<lparr>sv_lifecycle_deadline := Some floor\<rparr> else s)
        | None \<Rightarrow> (True, s\<lparr>sv_lifecycle_deadline := None\<rparr>))
      else (False, s))"

definition fire_lifecycle ::
  "'i :: linorder clock \<Rightarrow> ('g \<Rightarrow> u32 \<times> 'g) \<Rightarrow> 'i \<Rightarrow> ('i, 'g, 'ev) service \<Rightarrow> ('i, 'g, 'ev) service" where
  "fire_lifecycle clk draw now s =
     (case sv_lifecycle_deadline s of
        None \<Rightarrow> s
      | Some due \<Rightarrow>
          if now < due then s
          else case sv_state s of
            St_Init \<Rightarrow>
              let (d, rng) = draw_probe_deadline clk draw now 0 (sv_rng s) in
              s\<lparr>sv_state := Probing 0, sv_lifecycle_deadline := d, sv_rng := rng\<rparr>
          | Probing n \<Rightarrow>
              if 3 \<le> n then s\<lparr>sv_state := Announcing 0, sv_lifecycle_deadline := announce_deadline clk now 0\<rparr>
              else
                let s = push_lifecycle_pending PT_Probe s;
                    (d, rng) = draw_probe_deadline clk draw now n (sv_rng s) in
                s\<lparr>sv_lifecycle_deadline := d, sv_rng := rng\<rparr>
          | Announcing _ \<Rightarrow>
              (push_lifecycle_pending PT_Announcement s)\<lparr>sv_lifecycle_deadline := announce_deadline clk now 1\<rparr>
          | Established \<Rightarrow>
              (push_lifecycle_pending PT_Announcement s)\<lparr>sv_lifecycle_deadline := re_announce_deadline clk now (ttl_nat s)\<rparr>
          | Conflicting \<Rightarrow> s)"

definition rearm_parked ::
  "'i :: linorder clock \<Rightarrow> ('g \<Rightarrow> u32 \<times> 'g) \<Rightarrow> 'i \<Rightarrow> 'i conflict_flood \<Rightarrow> ('i, 'g, 'ev) service \<Rightarrow> ('i, 'g, 'ev) service" where
  "rearm_parked clk draw now flood s =
     (if startup_parked s
      then let (base, rng) = draw_probe_deadline clk draw now 0 (sv_rng s); s = s\<lparr>sv_rng := rng\<rparr> in
        s\<lparr>sv_lifecycle_deadline := apply_backoff_floor clk now base flood s\<rparr>
      else s)"

definition service_tick ::
  "'i :: linorder clock \<Rightarrow> ('g \<Rightarrow> u32 \<times> 'g) \<Rightarrow> 'i \<Rightarrow> 'i conflict_flood \<Rightarrow>
     ('i, 'g, 'ev) service \<Rightarrow> (handle_timeout_error + unit) \<times> ('i, 'g, 'ev) service" where
  "service_tick clk draw now flood s =
     (let (response_fired, s) = fire_response now s;
          s = rearm_parked clk draw now flood s;
          (parked, s) = hold_first_probe clk now flood s;
          s = fire_lifecycle clk draw now s;
          s = (if response_fired then push_pending PT_Response s else s) in
      (if parked \<or> startup_parked s then Inl TimeoutOverflow else Inr (), s))"

definition service_handle_timeout ::
  "'i :: linorder clock \<Rightarrow> ('g \<Rightarrow> u32 \<times> 'g) \<Rightarrow> (service_update, 'ev, 'e) pool_ops \<Rightarrow> 'i \<Rightarrow> 'i conflict_flood \<Rightarrow> names_in_use \<Rightarrow>
     ('i, 'g, 'ev) service \<Rightarrow> (handle_timeout_error + unit) \<times> ('i, 'g, 'ev) service" where
  "service_handle_timeout clk draw evs now flood taken s =
     (let s = prune_hints now (s\<lparr>sv_last_now := Some now\<rparr>) in
      if conflict_classified_unresolved s then
        let defeated_by_owner = sv_probe_defeated s; lost_tiebreak = sv_tiebreak_lost s;
            s = s\<lparr>sv_probe_defeated := False, sv_tiebreak_lost := False\<rparr> in
        if \<not> defeated_by_owner \<and> lost_tiebreak
        then restart_probe_cycle clk now (cadd clk now TIEBREAK_DEFER_WAIT) None flood s
        else if defeated_by_owner then lose_name clk draw evs now flood taken s
        else service_tick clk draw now flood s
      else service_tick clk draw now flood s)"

subsection \<open>The outbox\<close>

definition service_transmit :: "socket_addr \<Rightarrow> nat \<Rightarrow> ('i, 'g, 'ev) service \<Rightarrow> transmit" where
  "service_transmit dst n s = \<lparr>tr_dst = dst, tr_src_ip = None, tr_size = n,
     tr_obligation = stamped_obligation s, tr_min_family_gap = stamped_min_family_gap s\<rparr>"

type_synonym ('i, 'g, 'ev) sent = "(transmit_error + transmit option) \<times> bytes \<times> ('i, 'g, 'ev) service"

text \<open>The meta-query response; \<open>None\<close> falls through to what else is due.\<close>

definition transmit_meta :: "'i :: linorder \<Rightarrow> bytes \<Rightarrow> ('i, 'g, 'ev) service \<Rightarrow> transmit option \<times> bytes \<times> ('i, 'g, 'ev) service" where
  "transmit_meta now buf s =
     (if (case sv_meta_response_deadline s of Some due \<Rightarrow> due \<le> now | None \<Rightarrow> False) then
        let suppressed = ((case sv_meta_known_answered s of Some until \<Rightarrow> now < until | None \<Rightarrow> False) \<and>
              length (sv_meta_questioner_srcs s) = 1);
            s = s\<lparr>sv_meta_response_deadline := None, sv_meta_questioner_srcs := [], sv_meta_known_answered := None\<rparr> in
        if suppressed then (None, buf, s)
        else case try_from_str DNS_SD_META_QUERY_NAME of
          Inl _ \<Rightarrow> (None, buf, s)
        | Inr meta \<Rightarrow>
            (case write_meta_response (sv_records s) meta buf of
               (Inl _, buf) \<Rightarrow> (None, buf, s)
             | (Inr (n, _), buf) \<Rightarrow>
                 let s = s\<lparr>sv_awaiting_confirm := Some AC_MetaResponse\<rparr> in
                 (Some (service_transmit multicast_dst n s), buf, s))
      else (None, buf, s))"

definition transmit_legacy :: "bytes \<Rightarrow> ('i, 'g, 'ev) service \<Rightarrow> transmit option \<times> bytes \<times> ('i, 'g, 'ev) service" where
  "transmit_legacy buf s =
     (case sv_pending_legacy s of
        [] \<Rightarrow> (None, buf, s)
      | legacy # rest \<Rightarrow>
          if conflict_classified_unresolved s then (None, buf, s)
          else
            let (encoded, buf) =
              (if lr_is_meta legacy
               then (case write_legacy_meta_response (sv_records s) (lr_query_id legacy) (lr_name legacy)
                       (lr_qtype legacy) (lr_qclass legacy) buf of
                       (Inl e, buf) \<Rightarrow> (Inl e, buf) | (Inr (n, _), buf) \<Rightarrow> (Inr (n, None), buf))
               else (case write_legacy_response (sv_records s) (lr_query_id legacy) (lr_name legacy)
                       (lr_qtype legacy) (lr_qclass legacy) buf of
                       (Inl e, buf) \<Rightarrow> (Inl e, buf) | (Inr (n, e), buf) \<Rightarrow> (Inr (n, Some e), buf))) in
            case encoded of
              Inr (n, emitted) \<Rightarrow>
                let s = s\<lparr>sv_pending_legacy := rest, sv_awaiting_confirm :=
                  Some (case emitted of Some e \<Rightarrow> AC_Response e 0 Unicast | None \<Rightarrow> AC_MetaResponse)\<rparr> in
                (Some (service_transmit (lr_dst legacy) n s), buf, s)
            | Inl _ \<Rightarrow> (None, buf, s\<lparr>sv_pending_legacy := rest\<rparr>))"

definition kas_suppresses :: "'i :: linorder \<Rightarrow> ('i, 'g, 'ev) service \<Rightarrow> resource_type \<Rightarrow> bytes \<Rightarrow> bool" where
  "kas_suppresses now s rtype rdata =
     (if \<not> length (sv_questioner_srcs s) \<le> 1 then False
      else let h = hash_rdata rdata in
        list_ex (\<lambda>slot. case slot of
            Some hint \<Rightarrow> kh_rtype hint = rtype \<and> kh_rdata_hash hint = h \<and> now < kh_expires_at hint
          | None \<Rightarrow> False) (sv_kas_hints s))"

definition transmit_pending :: "'i :: linorder \<Rightarrow> bytes \<Rightarrow> pending_transmit_kind \<Rightarrow> ('i, 'g, 'ev) service \<Rightarrow> ('i, 'g, 'ev) sent" where
  "transmit_pending now buf kind s =
     (let too_small = TxBufferTooSmall (length buf) (length buf); popped = snd (pop_pending s) in
      case kind of
        PT_Probe \<Rightarrow>
          (case write_probe (sv_records s) buf of
             (Inl _, buf) \<Rightarrow> (Inl too_small, buf, s)
           | (Inr (n, _), buf) \<Rightarrow>
               let s = popped\<lparr>sv_awaiting_confirm := Some AC_Probe\<rparr> in
               (Inr (Some (service_transmit multicast_dst n s)), buf, s))
      | PT_Announcement \<Rightarrow>
          (case write_announce (sv_records s) buf of
             (Inl _, buf) \<Rightarrow> (Inl too_small, buf, s)
           | (Inr (n, nsec), buf) \<Rightarrow>
               let r = sv_records popped;
                   s = popped\<lparr>sv_awaiting_confirm := Some (AC_Announcement
                     \<lparr>em_ptr = True, em_srv = True, em_txt = True, em_a = sr_a_addrs r, em_aaaa = sr_aaaa_addrs r,
                      em_subtypes = (sr_subtypes r \<noteq> []), em_nsec = nsec\<rparr>)\<rparr> in
               (Inr (Some (service_transmit multicast_dst n s)), buf, s))
      | PT_Response \<Rightarrow>
          (case write_announce_filtered (sv_records s) buf (kas_suppresses now s) of
             (Inl _, buf) \<Rightarrow> (Inl too_small, buf, s)
           | (Inr (n, emitted), buf) \<Rightarrow>
               let s = popped\<lparr>sv_kas_hints := replicate KAS_RING_SIZE None, sv_questioner_srcs := []\<rparr> in
               if em_is_empty emitted then (Inr None, buf, s)
               else
                 let s = s\<lparr>sv_awaiting_confirm := Some (AC_Response emitted 0 Multicast)\<rparr> in
                 (Inr (Some (service_transmit multicast_dst n s)), buf, s)))"

definition service_poll_transmit :: "'i :: linorder \<Rightarrow> bytes \<Rightarrow> ('i, 'g, 'ev) service \<Rightarrow> ('i, 'g, 'ev) sent" where
  "service_poll_transmit now buf s =
     (if sv_awaiting_confirm s \<noteq> None then (Inr None, buf, s)
      else case transmit_meta now buf s of
        (Some tr, buf, s) \<Rightarrow> (Inr (Some tr), buf, s)
      | (None, buf, s) \<Rightarrow>
          (case transmit_legacy buf s of
             (Some tr, buf, s) \<Rightarrow> (Inr (Some tr), buf, s)
           | (None, buf, s) \<Rightarrow>
               (case peek_pending s of
                  None \<Rightarrow> (Inr None, buf, s)
                | Some kind \<Rightarrow>
                    if conflict_classified_unresolved s then (Inr None, buf, s)
                    else transmit_pending now buf kind s)))"

end
