(* ===== verification/ServiceLife.thy ===== *)
theory ServiceLife
  imports ServiceTick
begin

text \<open>
  The life of a service: its inputs as one datatype, its lifecycle as an automaton, and what holds in
  every state a probing service reaches.
\<close>

subsection \<open>Inputs\<close>

datatype 'i service_input =
    In_Timeout 'i "'i conflict_flood" names_in_use
  | In_Event service_event 'i "'i conflict_flood"
  | In_Transmit 'i bytes
  | In_Confirm 'i "'i family_attempt" "'i family_attempt"
  | In_Poll
  | In_Defer 'i "'i conflict_flood"
  | In_Quiesce
  | In_Handoff

fun service_run ::
  "'i :: linorder clock \<Rightarrow> ('g \<Rightarrow> u32 \<times> 'g) \<Rightarrow> (service_update, 'ev, 'e) pool_ops \<Rightarrow> 'i service_input \<Rightarrow>
     ('i, 'g, 'ev) service \<Rightarrow> ('i, 'g, 'ev) service" where
  "service_run clk draw evs (In_Timeout now flood taken) s = snd (service_handle_timeout clk draw evs now flood taken s)"
| "service_run clk draw evs (In_Event ev now flood) s = fst (service_handle_event clk draw evs ev now flood s)"
| "service_run clk draw evs (In_Transmit now buf) s = snd (snd (service_poll_transmit now buf s))"
| "service_run clk draw evs (In_Confirm now v4 v6) s = snd (service_note_transmit_outcome clk draw evs now v4 v6 s)"
| "service_run clk draw evs In_Poll s = snd (service_poll evs s)"
| "service_run clk draw evs (In_Defer now flood) s = defer_first_probe_under_flood clk now flood s"
| "service_run clk draw evs In_Quiesce s = quiesce_for_withdrawal s"
| "service_run clk draw evs In_Handoff s = snd (take_rename_goodbye_handoff s)"

text \<open>The states a service reaches, told to probe or not.\<close>

inductive alive ::
  "'i :: linorder clock \<Rightarrow> ('g \<Rightarrow> u32 \<times> 'g) \<Rightarrow> (service_update, 'ev, 'e) pool_ops \<Rightarrow> ('i, 'g, 'ev) service \<Rightarrow> bool"
  for clk draw evs where
  alive_new: "alive clk draw evs (service_try_new clk draw evs h records now rng probe re_announce flood)"
| alive_run: "alive clk draw evs s \<Longrightarrow> alive clk draw evs (service_run clk draw evs inp s)"

subsection \<open>What each operation touches\<close>

text \<open>The fields that decide what may be said on the wire.\<close>

definition claims :: "('i, 'g, 'ev) service \<Rightarrow> bool" where
  "claims s \<longleftrightarrow> PT_Announcement \<in> set_option (fst (sv_pending_transmits s)) \<union> set_option (snd (sv_pending_transmits s)) \<or>
     PT_Response \<in> set_option (fst (sv_pending_transmits s)) \<union> set_option (snd (sv_pending_transmits s)) \<or>
     sv_response_deadline s \<noteq> None \<or> sv_pending_legacy s \<noteq> [] \<or> sv_meta_response_deadline s \<noteq> None"

lemma claims_cong:
  "sv_pending_transmits s = sv_pending_transmits t \<Longrightarrow> sv_response_deadline s = sv_response_deadline t \<Longrightarrow>
   sv_pending_legacy s = sv_pending_legacy t \<Longrightarrow> sv_meta_response_deadline s = sv_meta_response_deadline t \<Longrightarrow>
   claims s = claims t"
  by (simp add: claims_def)

named_theorems keeps_life "operations that keep the lifecycle state and the claims"

definition same_life :: "('i, 'g, 'ev) service \<Rightarrow> ('i, 'g, 'ev) service \<Rightarrow> bool" where
  "same_life s t \<longleftrightarrow> sv_state s = sv_state t \<and> sv_pending_transmits s = sv_pending_transmits t \<and>
     sv_response_deadline s = sv_response_deadline t \<and> sv_pending_legacy s = sv_pending_legacy t \<and>
     sv_meta_response_deadline s = sv_meta_response_deadline t"

lemma same_life_trans: "same_life s t \<Longrightarrow> same_life t u \<Longrightarrow> same_life s u"
  by (simp add: same_life_def)

lemma same_lifeD: "same_life s t \<Longrightarrow> sv_state s = sv_state t \<and> claims s = claims t"
  by (simp add: same_life_def claims_def)

lemma push_update_life [keeps_life]: "same_life (push_update evs u s) s"
  by (simp add: same_life_def push_update_def)

lemma arm_on_partial_ladder_life [keeps_life]: "same_life (arm_on_partial_ladder clk now s) s"
  by (simp add: same_life_def arm_on_partial_ladder_def)

lemma arm_announcement_life [keeps_life]: "same_life (arm_announcement clk now adv s) s"
  by (simp add: same_life_def arm_announcement_def Let_def split: service_state.split)

lemma bump_streak_life [keeps_life]: "same_life (bump_streak s) s"
  by (simp add: same_life_def bump_streak_def)

lemma settle_response_life [keeps_life]: "same_life (settle_response e cls d s) s"
  by (simp add: same_life_def settle_response_def)

lemma settle_stale_life [keeps_life]: "same_life (settle_stale r d s) s"
  by (simp add: same_life_def settle_stale_def settle_old_name_def Let_def split: stale_records.split)

lemma flood_eligible_life [keeps_life]: "same_life (snd (flood_eligible d s)) s"
  by (simp add: same_life_def flood_eligible_def split: option.split prod.split)

lemma handle_preauthoritative_life [keeps_life]: "same_life (handle_preauthoritative_conflict pc s) s"
  by (simp add: same_life_def handle_preauthoritative_conflict_def)

lemma handle_probe_proposal_life [keeps_life]: "same_life (snd (handle_probe_proposal pp s)) s"
  by (simp add: same_life_def handle_probe_proposal_def split: verdict.split)

lemma store_hint_life [keeps_life]: "same_life (store_hint h s) s"
  by (simp add: same_life_def store_hint_def)

lemma known_answer_life [keeps_life]: "same_life (known_answer_event clk now ka s) s"
proof -
  have r: "same_life s s" by (simp add: same_life_def)
  have "same_life (known_meta_answer clk now ka s) s"
    by (simp add: known_meta_answer_def same_life_def Let_def split: option.split)
  then show ?thesis
    unfolding known_answer_event_def Let_def using r store_hint_life
    by (auto split: option.split sum.split)
qed

lemma hand_off_goodbye_life [keeps_life]: "same_life (hand_off_goodbye s) s"
  by (simp add: same_life_def hand_off_goodbye_def)

lemma hold_first_probe_life [keeps_life]: "same_life (snd (hold_first_probe clk now flood s)) s"
  by (simp add: same_life_def hold_first_probe_def split: option.split)

lemma rearm_parked_life [keeps_life]: "same_life (rearm_parked clk draw now flood s) s"
  by (simp add: same_life_def rearm_parked_def Let_def split: prod.split)

lemma poll_life [keeps_life]: "same_life (snd (service_poll evs s)) s"
  by (simp add: same_life_def service_poll_def split: list.split prod.split)

lemma handoff_life [keeps_life]: "same_life (snd (take_rename_goodbye_handoff s)) s"
  by (simp add: same_life_def take_rename_goodbye_handoff_def)


lemma same_life_fields [simp]:
  "same_life (s\<lparr>sv_last_now := a\<rparr>) t = same_life s t" "same_life (s\<lparr>sv_awaiting_confirm := b\<rparr>) t = same_life s t"
  "same_life (s\<lparr>sv_rng := c\<rparr>) t = same_life s t" "same_life (s\<lparr>sv_lifecycle_deadline := d\<rparr>) t = same_life s t"
  "same_life (s\<lparr>sv_rename_attempt := n\<rparr>) t = same_life s t" "same_life s s"
  by (simp_all add: same_life_def)

text \<open>An advancing round: one that reached a family and left none of good standing behind.\<close>

definition reached :: "('i, 'g, 'ev) service \<Rightarrow> transmit_delivery \<Rightarrow> bool" where
  "reached s d \<longleftrightarrow> advances (fst (classify_advance (sv_partial_rounds s) d))"

lemma reached_delivered: "reached s d \<Longrightarrow> any_delivered d"
  by (auto simp: reached_def classify_advance_def advances_def split: if_splits)

lemma advance_cases: "(a = Partial \<or> a = Failed) \<longleftrightarrow> \<not> advances a"
  by (cases a) (simp_all add: advances_def)

lemma settle_probe_life:
  "sv_state (settle_probe clk draw now d s) =
     (case sv_state s of Probing n \<Rightarrow> if reached s d then Probing (if 2 \<le> n then 3 else n + 1) else Probing n | st \<Rightarrow> st)"
  "claims (settle_probe clk draw now d s) = claims s"
proof -
  have l: "same_life (settle_last_probe clk now adv s) (s\<lparr>sv_state := Probing 3\<rparr>)" for adv and s :: "('a, 'b, 'c) service"
    using arm_on_partial_ladder_life [of clk now "s\<lparr>sv_state := Probing 3, sv_probe_count := 3, sv_lifecycle_deadline := announce_deadline clk now 0\<rparr>"]
    by (simp add: settle_last_probe_def Let_def same_life_def split: option.split)
  define s1 where "s1 = (if any_delivered d then s\<lparr>sv_probe_on_wire := True\<rparr> else s)"
  have s1: "same_life s1 s" "sv_partial_rounds s1 = sv_partial_rounds s" "sv_state s1 = sv_state s"
    by (simp_all add: s1_def same_life_def)
  have r: "reached s1 d = reached s d" by (simp add: reached_def s1(2))
  let ?t = "settle_probe clk draw now d s"
  have e: "?t = (case sv_state s1 of
        Probing n \<Rightarrow>
          let (advance, rounds) = classify_advance (sv_partial_rounds s1) d;
              s = s1\<lparr>sv_partial_rounds := rounds\<rparr> in
          if \<not> advances advance then s\<lparr>sv_lifecycle_deadline := probe_retry_deadline clk now\<rparr>
          else if 2 \<le> n then settle_last_probe clk now advance s
          else
            let new_n = sat_add u8_max n 1;
                (due, rng) = draw_probe_deadline clk draw now new_n (sv_rng s) in
            s\<lparr>sv_state := Probing new_n, sv_probe_count := new_n, sv_lifecycle_deadline := due, sv_rng := rng\<rparr>
      | _ \<Rightarrow> s1)"
    unfolding settle_probe_def Let_def s1_def [symmetric] advance_cases ..
  have "same_life ?t (s1\<lparr>sv_state := (case sv_state s of
      Probing n \<Rightarrow> if reached s d then Probing (if 2 \<le> n then 3 else n + 1) else Probing n | st \<Rightarrow> st)\<rparr>)"
  proof (cases "sv_state s")
    case (Probing n)
    obtain adv rounds where c: "classify_advance (sv_partial_rounds s1) d = (adv, rounds)"
      by (cases "classify_advance (sv_partial_rounds s1) d")
    have "reached s d = advances adv" using c s1(2) by (simp add: reached_def)
    then show ?thesis using Probing s1(3) c l [of adv "s1\<lparr>sv_partial_rounds := rounds\<rparr>"] unfolding e
      by (auto simp: same_life_def Let_def sat_add_def split: prod.split)
  qed (simp_all add: e s1(3) same_life_def)
  then show "sv_state ?t =
     (case sv_state s of Probing n \<Rightarrow> if reached s d then Probing (if 2 \<le> n then 3 else n + 1) else Probing n | st \<Rightarrow> st)"
    "claims ?t = claims s"
    using s1(1) by (auto simp: same_life_def claims_def)
qed

lemma classify_announcement_life:
  "fst (classify_announcement now d s) = fst (classify_advance (sv_partial_rounds s) d)"
  "same_life (snd (classify_announcement now d s)) s"
  by (simp_all add: classify_announcement_def same_life_def split: prod.split)

lemma advance_announcing_life:
  "same_life (advance_announcing clk evs now s)
     (s\<lparr>sv_state := (case sv_state s of Announcing n \<Rightarrow> if 1 \<le> n then Established else Announcing (n + 1) | st \<Rightarrow> st)\<rparr>)"
  by (cases "sv_state s") (simp_all add: advance_announcing_def push_update_def same_life_def sat_add_def Let_def)

lemma settle_announcement_life:
  "sv_state (settle_announcement clk evs now e d s) =
     (case sv_state s of Announcing n \<Rightarrow> if reached s d then (if 1 \<le> n then Established else Announcing (n + 1)) else Announcing n | st \<Rightarrow> st)"
  "claims (settle_announcement clk evs now e d s) = claims s"
proof -
  obtain adv s1 where c: "classify_announcement now d s = (adv, s1)" by (cases "classify_announcement now d s")
  have s1: "same_life s1 s" "reached s d = advances adv" using classify_announcement_life [of now d s] c by (simp_all add: reached_def)
  define s2 where "s2 = s1\<lparr>sv_goodbye := gb_record_emitted e (delivered_on d) Multicast (sv_goodbye s1),
                  sv_generation_advertised := (sv_generation_advertised s1 \<or> claims_instance_name e)\<rparr>"
  define s3 where "s3 = (if adv = AdvDelivered then s2\<lparr>sv_partial_announce_streak := 0, sv_fully_announced := True\<rparr> else s2)"
  define s4 where "s4 = arm_announcement clk now adv (advance_announcing clk evs now s3)"
  have s3: "same_life s2 s1" "same_life s3 s1" by (simp_all add: s2_def s3_def same_life_def)
  let ?st = "case sv_state s of Announcing n \<Rightarrow> if advances adv then (if 1 \<le> n then Established else Announcing (n + 1)) else Announcing n | st \<Rightarrow> st"
  let ?t = "settle_announcement clk evs now e d s"
  have t: "?t = (if adv = Failed then
        (case sv_state s1 of
           Announcing _ \<Rightarrow> s1\<lparr>sv_lifecycle_deadline := announce_deadline clk now 1\<rparr>
         | Established \<Rightarrow> s1\<lparr>sv_lifecycle_deadline := announce_deadline clk now 1\<rparr>
         | _ \<Rightarrow> s1)
      else if adv = Partial then bump_streak (arm_announcement clk now adv s2)
      else if advances_without_delivery adv then bump_streak s4 else s4)"
    by (simp only: settle_announcement_def c s2_def s3_def s4_def Let_def prod.case)
  have st: "sv_state s1 = sv_state s" "sv_state s3 = sv_state s" using s1(1) s3(2) by (simp_all add: same_life_def)
  have "same_life ?t (s\<lparr>sv_state := ?st\<rparr>)"
  proof (cases "advances adv")
    case False
    then have a: "adv = Failed \<or> adv = Partial" using advance_cases by blast
    have "same_life ?t s1"
      using a arm_announcement_life [of clk now adv s2] s3(1) bump_streak_life [of "arm_announcement clk now adv s2"]
      unfolding t by (auto simp: same_life_def split: service_state.split)
    then show ?thesis using s1(1) False by (simp add: same_life_def split: service_state.split)
  next
    case True
    then have a: "adv \<noteq> Failed" "adv \<noteq> Partial" by (auto simp: advances_def)
    have "same_life s4 (s3\<lparr>sv_state := (case sv_state s3 of Announcing n \<Rightarrow> if 1 \<le> n then Established else Announcing (n + 1) | st \<Rightarrow> st)\<rparr>)"
      unfolding s4_def by (rule same_life_trans [OF arm_announcement_life advance_announcing_life])
    then have "same_life ?t (s3\<lparr>sv_state := (case sv_state s3 of Announcing n \<Rightarrow> if 1 \<le> n then Established else Announcing (n + 1) | st \<Rightarrow> st)\<rparr>)"
      unfolding t using a same_life_trans [OF bump_streak_life [of s4]] by simp
    then show ?thesis using s1(1) s3(2) True st unfolding same_life_def by (auto split: service_state.split)
  qed
  then show "sv_state ?t = (case sv_state s of Announcing n \<Rightarrow> if reached s d then (if 1 \<le> n then Established else Announcing (n + 1)) else Announcing n | st \<Rightarrow> st)"
    "claims ?t = claims s"
    unfolding s1(2) by (simp_all add: same_life_def claims_def)
qed


lemma settle_confirm_life:
  "sv_state (settle_confirm clk draw evs now kind d s) =
     (case kind of
        AC_Probe \<Rightarrow> (case sv_state s of Probing n \<Rightarrow> if reached s d then Probing (if 2 \<le> n then 3 else n + 1) else Probing n | st \<Rightarrow> st)
      | AC_Announcement _ \<Rightarrow> (case sv_state s of Announcing n \<Rightarrow> if reached s d then (if 1 \<le> n then Established else Announcing (n + 1)) else Announcing n | st \<Rightarrow> st)
      | _ \<Rightarrow> sv_state s)"
  "claims (settle_confirm clk draw evs now kind d s) = claims s"
proof -
  note r = same_lifeD [OF settle_response_life] same_lifeD [OF settle_stale_life]
  show "sv_state (settle_confirm clk draw evs now kind d s) =
     (case kind of
        AC_Probe \<Rightarrow> (case sv_state s of Probing n \<Rightarrow> if reached s d then Probing (if 2 \<le> n then 3 else n + 1) else Probing n | st \<Rightarrow> st)
      | AC_Announcement _ \<Rightarrow> (case sv_state s of Announcing n \<Rightarrow> if reached s d then (if 1 \<le> n then Established else Announcing (n + 1)) else Announcing n | st \<Rightarrow> st)
      | _ \<Rightarrow> sv_state s)"
    unfolding settle_confirm_def by (cases kind) (simp_all only: awaiting_confirm.case settle_probe_life settle_announcement_life r)
  show "claims (settle_confirm clk draw evs now kind d s) = claims s"
    unfolding settle_confirm_def by (cases kind) (simp_all only: awaiting_confirm.case settle_probe_life settle_announcement_life r)
qed

lemma clear_response_cycle_claims: "claims (clear_response_cycle_state s) \<longleftrightarrow>
    (PT_Announcement \<in> set_option (fst (sv_pending_transmits s)) \<union> set_option (snd (sv_pending_transmits s)) \<or>
     PT_Response \<in> set_option (fst (sv_pending_transmits s)) \<union> set_option (snd (sv_pending_transmits s)) \<or>
     sv_response_deadline s \<noteq> None)" "sv_state (clear_response_cycle_state s) = sv_state s"
  by (simp_all add: claims_def clear_response_cycle_state_def)

lemma restart_life:
  "sv_state (snd (restart_probe_cycle clk now deadline rf flood s)) = St_Init"
  "\<not> claims (snd (restart_probe_cycle clk now deadline rf flood s))"
  by (simp_all add: restart_probe_cycle_def Let_def claims_def clear_response_cycle_state_def)

lemma same_life_more [simp]:
  "same_life (s\<lparr>sv_records := r\<rparr>) t = same_life s t" "same_life (reset_advertised_name_state s) t = same_life s t"
  "same_life (push_update evs u s) t = same_life s t"
  by (simp_all add: same_life_def reset_advertised_name_state_def push_update_def)

lemma rename_to_life: "same_life (snd (rename_to clk draw evs now flood n t))
   (snd (restart_probe_cycle clk now (fst (draw_probe_deadline clk draw now 0 (sv_rng t))) (Some (sv_records t)) flood
     (t\<lparr>sv_rng := snd (draw_probe_deadline clk draw now 0 (sv_rng t))\<rparr>)))"
  unfolding rename_to_def Let_def case_prod_beta snd_conv same_life_more by (rule same_life_fields(6))

lemma give_up_name_life: "sv_state (give_up_name evs t) = Conflicting" "\<not> claims (give_up_name evs t)"
  by (simp_all add: give_up_name_def Let_def clear_response_cycle_state_def push_update_def claims_def stale_live_commit_token_def)

lemma lose_name_life:
  "sv_state (snd (lose_name clk draw evs now flood taken s)) =
     (case snd (choose_name taken (as_str (sr_instance (sv_records s))) (sv_rename_attempt s)) of
        Some _ \<Rightarrow> St_Init | None \<Rightarrow> Conflicting)"
  "\<not> claims (snd (lose_name clk draw evs now flood taken s))"
proof -
  have h: "sv_records (hand_off_goodbye s) = sv_records s" "sv_rename_attempt (hand_off_goodbye s) = sv_rename_attempt s"
    by (simp_all add: hand_off_goodbye_def)
  obtain a c where c: "choose_name taken (as_str (sr_instance (sv_records s))) (sv_rename_attempt s) = (a, c)"
    by (cases "choose_name taken (as_str (sr_instance (sv_records s))) (sv_rename_attempt s)")
  have r: "sv_state (snd (rename_to clk draw evs now flood n t)) = St_Init \<and> \<not> claims (snd (rename_to clk draw evs now flood n t))" for n t
    using same_lifeD [OF rename_to_life] restart_life by metis
  have e: "lose_name clk draw evs now flood taken s = (case c of
        Some new_name \<Rightarrow> rename_to clk draw evs now flood new_name ((hand_off_goodbye s)\<lparr>sv_rename_attempt := a\<rparr>)
      | None \<Rightarrow> (Inr (), give_up_name evs ((hand_off_goodbye s)\<lparr>sv_rename_attempt := a\<rparr>)))"
    unfolding lose_name_def Let_def h c prod.case ..
  show "sv_state (snd (lose_name clk draw evs now flood taken s)) =
     (case snd (choose_name taken (as_str (sr_instance (sv_records s))) (sv_rename_attempt s)) of
        Some _ \<Rightarrow> St_Init | None \<Rightarrow> Conflicting)" "\<not> claims (snd (lose_name clk draw evs now flood taken s))"
    unfolding e c using r by (cases c; simp add: give_up_name_life)+
qed


fun timer_next :: "service_state \<Rightarrow> service_state" where
  "timer_next St_Init = Probing 0"
| "timer_next (Probing n) = (if 3 \<le> n then Announcing 0 else Probing n)"
| "timer_next st = st"

lemma claims_fields [simp]:
  "claims (s\<lparr>sv_last_now := a\<rparr>) = claims s" "claims (s\<lparr>sv_awaiting_confirm := b\<rparr>) = claims s"
  "claims (s\<lparr>sv_rng := c\<rparr>) = claims s" "claims (s\<lparr>sv_lifecycle_deadline := d\<rparr>) = claims s"
  "claims (s\<lparr>sv_state := st\<rparr>) = claims s" "claims (s\<lparr>sv_kas_hints := h\<rparr>) = claims s"
  "claims (s\<lparr>sv_questioner_srcs := q\<rparr>) = claims s" "claims (s\<lparr>sv_probe_defeated := e\<rparr>) = claims s"
  "claims (s\<lparr>sv_tiebreak_lost := e\<rparr>) = claims s" "claims (s\<lparr>sv_last_conflict_reprobe := a\<rparr>) = claims s"
  by (simp_all add: claims_def)

lemma push_pending_life:
  "sv_state (push_pending kind s) = sv_state s"
  "claims (push_pending kind s) \<Longrightarrow> claims s \<or> kind \<noteq> PT_Probe"
  by (auto simp: push_pending_def claims_def split: option.splits prod.splits)

lemma push_lifecycle_pending_life:
  "sv_state (push_lifecycle_pending kind s) = sv_state s"
  "claims (push_lifecycle_pending kind s) \<Longrightarrow> claims s \<or> kind \<noteq> PT_Probe"
  using push_pending_life by (auto simp: push_lifecycle_pending_def split: if_splits)

lemma pop_pending_life:
  "sv_state (snd (pop_pending s)) = sv_state s"
  "claims (snd (pop_pending s)) \<Longrightarrow> claims s"
  by (auto simp: pop_pending_def claims_def split: option.splits prod.splits)

lemma fire_lifecycle_life:
  "sv_state (fire_lifecycle clk draw now s) \<in> {sv_state s, timer_next (sv_state s)}"
  "claims (fire_lifecycle clk draw now s) \<Longrightarrow> claims s \<or> announced (sv_state s)"
proof -
  show "sv_state (fire_lifecycle clk draw now s) \<in> {sv_state s, timer_next (sv_state s)}"
    by (cases "sv_state s") (simp_all add: fire_lifecycle_def push_lifecycle_pending_life Let_def split: option.split prod.split)
  show "claims s \<or> announced (sv_state s)" if "claims (fire_lifecycle clk draw now s)"
    using that push_lifecycle_pending_life(2) [of PT_Probe s]
    by (cases "sv_state s") (auto simp: fire_lifecycle_def Let_def split: option.splits prod.splits if_splits)
qed

lemma fire_response_life:
  "sv_state (snd (fire_response now s)) = sv_state s"
  "claims (snd (fire_response now s)) \<Longrightarrow> claims s" "fst (fire_response now s) \<Longrightarrow> claims s"
  by (auto simp: fire_response_def claims_def split: option.splits if_splits)

lemma service_tick_life:
  "sv_state (snd (service_tick clk draw now flood s)) \<in> {sv_state s, timer_next (sv_state s)}"
  "claims (snd (service_tick clk draw now flood s)) \<Longrightarrow> claims s \<or> announced (sv_state s)"
proof -
  obtain fired s1 where f: "fire_response now s = (fired, s1)" by (cases "fire_response now s")
  define s2 where "s2 = rearm_parked clk draw now flood s1"
  obtain parked s3 where h: "hold_first_probe clk now flood s2 = (parked, s3)" by (cases "hold_first_probe clk now flood s2")
  define s4 where "s4 = fire_lifecycle clk draw now s3"
  have e: "snd (service_tick clk draw now flood s) = (if fired then push_pending PT_Response s4 else s4)"
    unfolding service_tick_def Let_def f prod.case s2_def [symmetric] h s4_def by simp
  have l: "sv_state s3 = sv_state s" "claims s3 \<Longrightarrow> claims s" "fired \<Longrightarrow> claims s"
    using same_lifeD [OF hold_first_probe_life [of clk now flood s2]] same_lifeD [OF rearm_parked_life [of clk draw now flood s1]]
      fire_response_life [of now s] unfolding s2_def [symmetric] by (simp_all add: f h)
  show "sv_state (snd (service_tick clk draw now flood s)) \<in> {sv_state s, timer_next (sv_state s)}"
    using fire_lifecycle_life(1) [of clk draw now s3] unfolding e s4_def by (simp add: push_pending_life l)
  show "claims s \<or> announced (sv_state s)" if "claims (snd (service_tick clk draw now flood s))"
    using that fire_lifecycle_life(2) [of clk draw now s3] push_pending_life(2) [of PT_Response s4] l
    unfolding e s4_def [symmetric] by (auto split: if_splits)
qed

lemma prune_life [simp]: "same_life (prune_hints now s) t = same_life s t"
  by (simp add: same_life_def prune_hints_def)

lemma service_handle_timeout_code [code]:
  "service_handle_timeout clk draw evs now flood taken s =
     (if sv_probe_defeated s then lose_name clk draw evs now flood taken
        ((prune_hints now (s\<lparr>sv_last_now := Some now\<rparr>))\<lparr>sv_probe_defeated := False, sv_tiebreak_lost := False\<rparr>)
      else if sv_tiebreak_lost s then restart_probe_cycle clk now (cadd clk now TIEBREAK_DEFER_WAIT) None flood
        ((prune_hints now (s\<lparr>sv_last_now := Some now\<rparr>))\<lparr>sv_probe_defeated := False, sv_tiebreak_lost := False\<rparr>)
      else service_tick clk draw now flood (prune_hints now (s\<lparr>sv_last_now := Some now\<rparr>)))"
proof -
  have "sv_probe_defeated (prune_hints now (s\<lparr>sv_last_now := Some now\<rparr>)) = sv_probe_defeated s"
    "sv_tiebreak_lost (prune_hints now (s\<lparr>sv_last_now := Some now\<rparr>)) = sv_tiebreak_lost s"
    by (simp_all add: prune_hints_def)
  then show ?thesis unfolding service_handle_timeout_def Let_def conflict_classified_unresolved_def by simp
qed

lemma timeout_life:
  "sv_state (snd (service_handle_timeout clk draw evs now flood taken s)) \<in>
     (if sv_probe_defeated s then
        {case snd (choose_name taken (as_str (sr_instance (sv_records s))) (sv_rename_attempt s)) of Some _ \<Rightarrow> St_Init | None \<Rightarrow> Conflicting}
      else if sv_tiebreak_lost s then {St_Init} else {sv_state s, timer_next (sv_state s)})" (is "?thesis1")
  "claims (snd (service_handle_timeout clk draw evs now flood taken s)) \<Longrightarrow>
     (claims s \<or> announced (sv_state s)) \<and> \<not> sv_probe_defeated s \<and> \<not> sv_tiebreak_lost s"
proof -
  define t where "t = prune_hints now (s\<lparr>sv_last_now := Some now\<rparr>)"
  define u where "u = t\<lparr>sv_probe_defeated := False, sv_tiebreak_lost := False\<rparr>"
  have t: "sv_state t = sv_state s" "claims t = claims s" "sv_records u = sv_records s" "sv_rename_attempt u = sv_rename_attempt s"
    "sv_probe_defeated t = sv_probe_defeated s" "sv_tiebreak_lost t = sv_tiebreak_lost s"
    by (simp_all add: t_def u_def prune_hints_def claims_def)
  have e: "service_handle_timeout clk draw evs now flood taken s =
     (if sv_probe_defeated s then lose_name clk draw evs now flood taken u
      else if sv_tiebreak_lost s then restart_probe_cycle clk now (cadd clk now TIEBREAK_DEFER_WAIT) None flood u
      else service_tick clk draw now flood t)"
    unfolding service_handle_timeout_code u_def t_def ..
  have k: "sv_state (snd (lose_name clk draw evs now flood taken u)) =
      (case snd (choose_name taken (as_str (sr_instance (sv_records s))) (sv_rename_attempt s)) of Some _ \<Rightarrow> St_Init | None \<Rightarrow> Conflicting)"
    unfolding lose_name_life t ..
  show ?thesis1 using service_tick_life(1) [of clk draw now flood t] unfolding e t(1) by (simp add: k restart_life)
  show "(claims s \<or> announced (sv_state s)) \<and> \<not> sv_probe_defeated s \<and> \<not> sv_tiebreak_lost s"
    if "claims (snd (service_handle_timeout clk draw evs now flood taken s))"
    using that service_tick_life(2) [of clk draw now flood t] unfolding e t by (simp add: lose_name_life(2) restart_life(2) split: if_splits)
qed


lemma question_life:
  "sv_state (service_question_event clk draw now sq s) = sv_state s"
  by (simp add: service_question_event_def legacy_meta_question_def multicast_meta_question_def legacy_question_def
      multicast_question_def Let_def split: option.split sum.split prod.split)

lemma established_conflict_life:
  "same_life (fst (established_conflict clk draw now pc (s, flood))) s \<or>
   sv_state (fst (established_conflict clk draw now pc (s, flood))) = St_Init \<and>
   \<not> claims (fst (established_conflict clk draw now pc (s, flood)))"
  unfolding established_conflict_def Let_def case_prod_beta prod.case fst_conv
  by (simp add: restart_life)

lemma host_conflict_life: "same_life (fst (host_conflict_event clk evs now hc (s, flood))) s"
  using flood_eligible_life [of "hc_datagram hc" s]
  by (auto simp: host_conflict_event_def Let_def split: prod.split)

definition eligibility_checked :: "service_event \<Rightarrow> ('i, 'g, 'ev) service \<Rightarrow> ('i, 'g, 'ev) service" where
  "eligibility_checked ev s = (case event_datagram ev of Some datagram \<Rightarrow> snd (flood_eligible datagram s) | None \<Rightarrow> s)"

lemma eligibility_checked_life: "same_life (eligibility_checked ev s) s"
  by (simp add: eligibility_checked_def flood_eligible_life split: option.split)

text \<open>The events that may start the name over: a conflict against a name that is announced.\<close>

definition reprobe_event :: "service_event \<Rightarrow> ('i, 'g, 'ev) service \<Rightarrow> bool" where
  "reprobe_event ev s \<longleftrightarrow> (case ev of SE_ProbeConflict _ \<Rightarrow> True | _ \<Rightarrow> False) \<and> announced (sv_state s) \<and>
     \<not> is_preauthoritative s \<and> classify_event ev s = PR_Different"

lemma event_life:
  fixes s :: "('i :: linorder, 'g, 'ev) service" and ev and now and clk and draw and evs and flood
  defines "s1 \<equiv> eligibility_checked ev (s\<lparr>sv_last_now := Some now\<rparr>)"
  defines "t \<equiv> fst (service_handle_event clk draw evs ev now flood s)"
  shows "same_life t s \<or> sv_state t = sv_state s \<and> announced (sv_state s) \<or>
    reprobe_event ev s1 \<and> sv_state t = St_Init \<and> \<not> claims t"
proof -
  have s1: "same_life s1 s" using eligibility_checked_life [of ev "s\<lparr>sv_last_now := Some now\<rparr>"]
    unfolding s1_def by (simp add: same_life_def)
  have e: "t = fst (if classify_event ev s1 \<noteq> PR_Different then (s1, flood)
      else case ev of
        SE_ProbeConflict pc \<Rightarrow>
          if is_preauthoritative s1 then
            let (eligible, s) = flood_eligible (pc_datagram pc) s1;
                flood = (if eligible then snd (flood_accept clk now (pc_datagram pc) (sr_instance (sv_records s)) flood) else flood) in
            (handle_preauthoritative_conflict pc s, flood)
          else if announced (sv_state s1)
          then established_conflict clk draw now pc (s1, flood)
          else (s1, flood)
      | SE_ProbeProposal pp \<Rightarrow>
          if is_preauthoritative s1 then
            let (lost, s) = handle_probe_proposal pp s1 in
            (s, if lost then snd (flood_accept clk now (pp_datagram pp) (sr_instance (sv_records s)) flood) else flood)
          else (s1, flood)
      | SE_Question sq \<Rightarrow>
          if announced (sv_state s1)
          then (service_question_event clk draw now sq s1, flood) else (s1, flood)
      | SE_KnownAnswer ka \<Rightarrow> (known_answer_event clk now ka s1, flood)
      | SE_HostConflict hc \<Rightarrow> host_conflict_event clk evs now hc (s1, flood))"
    unfolding t_def service_handle_event_def Let_def s1_def eligibility_checked_def ..
  have "same_life t s1 \<or> sv_state t = sv_state s1 \<and> announced (sv_state s1) \<or>
    reprobe_event ev s1 \<and> sv_state t = St_Init \<and> \<not> claims t"
  proof (cases ev)
    case (SE_ProbeConflict pc)
    have "same_life (handle_preauthoritative_conflict pc (snd (flood_eligible (pc_datagram pc) s1))) s1"
      by (rule same_life_trans [OF handle_preauthoritative_life flood_eligible_life])
    then show ?thesis using established_conflict_life [of clk draw now pc s1 flood]
      unfolding e SE_ProbeConflict by (auto simp: reprobe_event_def Let_def case_prod_beta)
  next
    case (SE_ProbeProposal pp)
    then show ?thesis using handle_probe_proposal_life [of pp s1] unfolding e by (simp add: case_prod_beta)
  next
    case (SE_Question sq)
    then show ?thesis unfolding e by (simp add: question_life)
  next
    case (SE_KnownAnswer ka)
    then show ?thesis unfolding e by (simp add: known_answer_life)
  next
    case (SE_HostConflict hc)
    then show ?thesis unfolding e by (simp add: host_conflict_life)
  qed
  then show ?thesis using s1 same_life_trans by (auto simp: same_life_def)
qed


lemma defer_life:
  "sv_state (defer_first_probe_under_flood clk now flood s) = sv_state s"
  "claims (defer_first_probe_under_flood clk now flood s) \<Longrightarrow> claims s"
  using pop_pending_life [of s]
  by (auto simp: defer_first_probe_under_flood_def split: option.splits if_splits)

lemma quiesce_life: "sv_state (quiesce_for_withdrawal s) = sv_state s" "\<not> claims (quiesce_for_withdrawal s)"
  by (simp_all add: quiesce_for_withdrawal_def clear_response_cycle_state_def claims_def)

subsection \<open>What goes out\<close>

text \<open>Sending never adds to the claims, and a datagram other than a probe was one of them.\<close>

definition sends_claim :: "('i, 'g, 'ev) service \<Rightarrow> ('i, 'g, 'ev) service \<Rightarrow> bool" where
  "sends_claim s t \<longleftrightarrow> sv_state t = sv_state s \<and> (claims t \<longrightarrow> claims s) \<and>
     (sv_awaiting_confirm t = sv_awaiting_confirm s \<or> sv_awaiting_confirm t = Some AC_Probe \<or> claims s)"

lemma sends_claim_trans:
  "sends_claim s t \<Longrightarrow> sends_claim t u \<Longrightarrow> sends_claim s u"
  unfolding sends_claim_def by metis

lemma transmit_meta_sends: "sends_claim s (snd (snd (transmit_meta now buf s)))"
  by (auto simp: sends_claim_def transmit_meta_def Let_def claims_def split: option.splits sum.splits prod.splits)

lemma transmit_legacy_sends: "sends_claim s (snd (snd (transmit_legacy buf s)))"
proof (cases "sv_pending_legacy s")
  case Nil
  then show ?thesis by (simp add: sends_claim_def transmit_legacy_def)
next
  case (Cons l ls)
  then have c: "claims s" by (simp add: claims_def)
  have "sv_state (snd (snd (transmit_legacy buf s))) = sv_state s"
    unfolding transmit_legacy_def Cons by (auto simp: Let_def split: prod.split sum.split)
  then show ?thesis using c by (simp add: sends_claim_def)
qed

lemma transmit_pending_sends:
  assumes "peek_pending s = Some kind"
  shows "sends_claim s (snd (snd (transmit_pending now buf kind s)))"
proof -
  have c: "kind \<noteq> PT_Probe \<Longrightarrow> claims s"
    using assms by (cases kind) (auto simp: peek_pending_def claims_def)
  have st: "sv_state (snd (snd (transmit_pending now buf kind s))) = sv_state s"
    by (cases kind) (auto simp: transmit_pending_def Let_def pop_pending_life split: sum.split prod.split)
  show ?thesis
  proof (cases "kind = PT_Probe")
    case True
    show ?thesis using st pop_pending_life(2) [of s] unfolding True
      by (auto simp: sends_claim_def transmit_pending_def Let_def split: sum.split prod.split)
  qed (simp add: c st sends_claim_def)
qed

lemma transmit_sends: "sends_claim s (snd (snd (service_poll_transmit now buf s)))"
proof (cases "sv_awaiting_confirm s = None")
  case True
  obtain m b1 s1 where m: "transmit_meta now buf s = (m, b1, s1)" by (cases "transmit_meta now buf s")
  obtain l b2 s2 where l: "transmit_legacy b1 s1 = (l, b2, s2)" by (cases "transmit_legacy b1 s1")
  have s1: "sends_claim s s1" using transmit_meta_sends [of s now buf] by (simp add: m)
  have s2: "sends_claim s s2" using sends_claim_trans [OF s1] transmit_legacy_sends [of s1 b1] by (simp add: l)
  have s3: "sends_claim s (snd (snd (transmit_pending now b2 k s2)))" if "peek_pending s2 = Some k" for k
    by (rule sends_claim_trans [OF s2 transmit_pending_sends [OF that]])
  show ?thesis using True s1 s2 s3 by (auto simp: service_poll_transmit_def m l split: option.split)
next
  case False
  then show ?thesis by (simp add: service_poll_transmit_def sends_claim_def)
qed

lemma transmit_meta_waits: "fst (transmit_meta now buf s) \<noteq> None \<Longrightarrow> sv_awaiting_confirm (snd (snd (transmit_meta now buf s))) \<noteq> None"
  by (auto simp: transmit_meta_def Let_def split: option.splits sum.splits prod.splits if_splits)

lemma transmit_legacy_waits: "fst (transmit_legacy buf s) \<noteq> None \<Longrightarrow> sv_awaiting_confirm (snd (snd (transmit_legacy buf s))) \<noteq> None"
  by (auto simp: transmit_legacy_def Let_def split: list.splits option.splits sum.splits prod.splits if_splits)

lemma transmit_pending_waits:
  "fst (transmit_pending now buf kind s) = Inr (Some tr) \<Longrightarrow> sv_awaiting_confirm (snd (snd (transmit_pending now buf kind s))) \<noteq> None"
  by (cases kind) (auto simp: transmit_pending_def Let_def split: sum.splits prod.splits if_splits)

lemma transmit_waits:
  assumes "fst (service_poll_transmit now buf s) = Inr (Some tr)"
  shows "sv_awaiting_confirm s = None" "sv_awaiting_confirm (snd (snd (service_poll_transmit now buf s))) \<noteq> None"
proof -
  show w: "sv_awaiting_confirm s = None" using assms by (auto simp: service_poll_transmit_def split: if_splits)
  obtain m b1 s1 where m: "transmit_meta now buf s = (m, b1, s1)" by (cases "transmit_meta now buf s")
  obtain l b2 s2 where l: "transmit_legacy b1 s1 = (l, b2, s2)" by (cases "transmit_legacy b1 s1")
  show "sv_awaiting_confirm (snd (snd (service_poll_transmit now buf s))) \<noteq> None"
    using assms w transmit_meta_waits [of now buf s] transmit_legacy_waits [of b1 s1] transmit_pending_waits [of now b2 _ s2 tr]
    by (auto simp: service_poll_transmit_def m l split: option.splits if_splits)
qed


subsection \<open>The lifecycle\<close>

definition probe_next :: "bool \<Rightarrow> service_state \<Rightarrow> service_state" where
  "probe_next advance st = (case st of Probing n \<Rightarrow> if advance then Probing (if 2 \<le> n then 3 else n + 1) else Probing n | st \<Rightarrow> st)"

definition announce_next :: "bool \<Rightarrow> service_state \<Rightarrow> service_state" where
  "announce_next advance st = (case st of Announcing n \<Rightarrow> if advance then (if 1 \<le> n then Established else Announcing (n + 1)) else Announcing n | st \<Rightarrow> st)"

fun lifecycle_next :: "'i service_input \<Rightarrow> ('i, 'g, 'ev) service \<Rightarrow> service_state set" where
  "lifecycle_next (In_Timeout now flood taken) s =
     (if sv_probe_defeated s then
        {case snd (choose_name taken (as_str (sr_instance (sv_records s))) (sv_rename_attempt s)) of Some _ \<Rightarrow> St_Init | None \<Rightarrow> Conflicting}
      else if sv_tiebreak_lost s then {St_Init} else {sv_state s, timer_next (sv_state s)})"
| "lifecycle_next (In_Event ev now flood) s =
     {sv_state s} \<union> (if reprobe_event ev (eligibility_checked ev (s\<lparr>sv_last_now := Some now\<rparr>)) then {St_Init} else {})"
| "lifecycle_next (In_Confirm now v4 v6) s =
     (case sv_awaiting_confirm s of
        Some AC_Probe \<Rightarrow> {probe_next (reached s (project v4 v6)) (sv_state s)}
      | Some (AC_Announcement _) \<Rightarrow> {announce_next (reached s (project v4 v6)) (sv_state s)}
      | _ \<Rightarrow> {sv_state s})"
| "lifecycle_next _ s = {sv_state s}"

lemma confirm_life:
  "sv_state (snd (service_note_transmit_outcome clk draw evs now v4 v6 s)) \<in> lifecycle_next (In_Confirm now v4 v6) s"
  "claims (snd (service_note_transmit_outcome clk draw evs now v4 v6 s)) = claims s"
proof -
  have e: "snd (service_note_transmit_outcome clk draw evs now v4 v6 s) = (case sv_awaiting_confirm s of None \<Rightarrow> s
      | Some kind \<Rightarrow> settle_confirm clk draw evs (anchor v4 v6 now) kind (project v4 v6) (s\<lparr>sv_awaiting_confirm := None\<rparr>))"
    by (simp add: service_note_transmit_outcome_def Let_def split: option.split)
  have r: "reached (s\<lparr>sv_awaiting_confirm := None\<rparr>) d = reached s d" for d by (simp add: reached_def)
  show "sv_state (snd (service_note_transmit_outcome clk draw evs now v4 v6 s)) \<in> lifecycle_next (In_Confirm now v4 v6) s"
    unfolding e by (simp add: settle_confirm_life r probe_next_def announce_next_def split: option.split awaiting_confirm.split service_state.split)
  show "claims (snd (service_note_transmit_outcome clk draw evs now v4 v6 s)) = claims s"
    unfolding e by (simp add: settle_confirm_life split: option.split)
qed

lemma event_lifecycle:
  "sv_state (fst (service_handle_event clk draw evs ev now flood s)) \<in> lifecycle_next (In_Event ev now flood) s"
  using event_life [of clk draw evs ev now flood s] by (auto simp: same_life_def)

lemma run_lifecycle: "sv_state (service_run clk draw evs inp s) \<in> lifecycle_next inp s"
proof (cases inp)
  case (In_Timeout now flood taken)
  then show ?thesis using timeout_life(1) [of clk draw evs now flood taken s] by simp
next
  case (In_Transmit now buf)
  then show ?thesis using transmit_sends [of s now buf] by (simp add: sends_claim_def)
next
  case (In_Event ev now flood)
  show ?thesis unfolding In_Event service_run.simps by (rule event_lifecycle)
next
  case (In_Confirm now v4 v6)
  show ?thesis unfolding In_Confirm service_run.simps by (rule confirm_life(1))
qed (simp_all add: defer_life quiesce_life same_lifeD [OF poll_life] same_lifeD [OF handoff_life])

lemma run_claims:
  assumes "claims (service_run clk draw evs inp s)"
  shows "claims s \<or> announced (sv_state s)"
    "sv_state (service_run clk draw evs inp s) \<in>
       {sv_state s, timer_next (sv_state s), announce_next True (sv_state s), probe_next True (sv_state s)}"
proof -
  have "(claims s \<or> announced (sv_state s)) \<and> sv_state (service_run clk draw evs inp s) \<in>
       {sv_state s, timer_next (sv_state s), announce_next True (sv_state s), probe_next True (sv_state s)}"
  proof (cases inp)
    case (In_Timeout now flood taken)
    then show ?thesis using timeout_life [of clk draw evs now flood taken s] assms by auto
  next
    case (In_Event ev now flood)
    then show ?thesis using event_life [of clk draw evs ev now flood s] assms by (auto simp: same_life_def claims_def)
  next
    case (In_Transmit now buf)
    then show ?thesis using transmit_sends [of s now buf] assms by (simp add: sends_claim_def)
  next
    case (In_Confirm now v4 v6)
    then show ?thesis using confirm_life [of clk draw evs now v4 v6 s] assms
      by (auto simp: probe_next_def announce_next_def split: option.splits awaiting_confirm.splits service_state.splits)
  qed (use assms in \<open>auto simp: defer_life quiesce_life same_lifeD [OF poll_life] same_lifeD [OF handoff_life]\<close>)
  then show "claims s \<or> announced (sv_state s)" "sv_state (service_run clk draw evs inp s) \<in>
       {sv_state s, timer_next (sv_state s), announce_next True (sv_state s), probe_next True (sv_state s)}" by blast+
qed

text \<open>
  C15. The lifecycle is a finite automaton: whatever input arrives, the state of the service moves
  along one of its edges, and only for the reason the edge stands for.  A probe or an announcement
  counts when its round advanced; a timer starts probing, ends it after three probes, starts over after a
  lost tie-break and renames or gives up after a defeat; an event starts over only by a conflict with
  different data against an announced name; nothing else moves it.
\<close>

theorem lifecycle_step: "sv_state (service_run clk draw evs inp s) \<in> lifecycle_next inp s"
  by (rule run_lifecycle)

subsection \<open>No claim before probing\<close>

text \<open>The probes delivered, on at least one family, since the service last started probing over.\<close>

definition probes_after :: "'i service_input \<Rightarrow> ('i, 'g, 'ev) service \<Rightarrow> ('i, 'g, 'ev) service \<Rightarrow> nat \<Rightarrow> nat" where
  "probes_after inp s t k =
     (if sv_state t = St_Init then 0
      else case inp of
        In_Confirm now v4 v6 \<Rightarrow> if sv_awaiting_confirm s = Some AC_Probe \<and> any_delivered (project v4 v6) then k + 1 else k
      | _ \<Rightarrow> k)"

inductive served ::
  "'i :: linorder clock \<Rightarrow> ('g \<Rightarrow> u32 \<times> 'g) \<Rightarrow> (service_update, 'ev, 'e) pool_ops \<Rightarrow> ('i, 'g, 'ev) service \<Rightarrow> nat \<Rightarrow> bool"
  for clk draw evs where
  served_new: "served clk draw evs (service_try_new clk draw evs h records now rng True re_announce flood) 0"
| served_run: "served clk draw evs s k \<Longrightarrow>
    served clk draw evs (service_run clk draw evs inp s) (probes_after inp s (service_run clk draw evs inp s) k)"

definition life_ok :: "('i, 'g, 'ev) service \<Rightarrow> nat \<Rightarrow> bool" where
  "life_ok s k \<longleftrightarrow> (claims s \<longrightarrow> announced (sv_state s)) \<and>
     (case sv_state s of St_Init \<Rightarrow> True | Probing n \<Rightarrow> n \<le> 3 \<and> n \<le> k
      | Announcing n \<Rightarrow> n \<le> 1 \<and> 3 \<le> k | Established \<Rightarrow> 3 \<le> k | Conflicting \<Rightarrow> True)"

lemma life_ok_new: "life_ok (service_try_new clk draw evs h records now rng True re_announce flood) 0"
  by (simp add: life_ok_def service_try_new_def claims_def Let_def split: prod.split)

lemma announced_next: "announced st \<Longrightarrow> announced (timer_next st) \<and> announced (announce_next a st) \<and> announced (probe_next a st)"
  by (cases st) (simp_all add: announce_next_def probe_next_def)

lemma life_ok_state:
  fixes s :: "('i :: linorder, 'g, 'ev) service" and clk and draw and evs and inp
  assumes "life_ok s k"
  defines "t \<equiv> service_run clk draw evs inp s"
  shows "case sv_state t of St_Init \<Rightarrow> True | Probing n \<Rightarrow> n \<le> 3 \<and> n \<le> probes_after inp s t k
      | Announcing n \<Rightarrow> n \<le> 1 \<and> 3 \<le> probes_after inp s t k | Established \<Rightarrow> 3 \<le> probes_after inp s t k | Conflicting \<Rightarrow> True"
    (is "?ok (sv_state t)")
proof -
  have l: "sv_state t \<in> lifecycle_next inp s" unfolding t_def by (rule run_lifecycle)
  have ge: "k \<le> probes_after inp s t k" if "sv_state t \<noteq> St_Init"
    using that by (simp add: probes_after_def split: service_input.split)
  have same: "?ok (sv_state t)" if "sv_state t \<in> {sv_state s, timer_next (sv_state s)}"
    using that assms(1) ge unfolding life_ok_def by (cases "sv_state s") (auto split: if_splits)
  show ?thesis
  proof (cases inp)
    case (In_Timeout now flood taken)
    then show ?thesis using l same by (auto split: if_splits option.splits)
  next
    case (In_Event ev now flood)
    then show ?thesis using l same by (auto split: if_splits)
  next
    case (In_Confirm now v4 v6)
    show ?thesis
    proof (cases "sv_awaiting_confirm s = Some AC_Probe \<and> reached s (project v4 v6)")
      case True
      then have "probes_after inp s t k = k + 1 \<or> sv_state t = St_Init"
        using reached_delivered [of s "project v4 v6"] by (simp add: probes_after_def In_Confirm)
      then show ?thesis using l True assms(1) In_Confirm unfolding life_ok_def
        by (cases "sv_state s") (auto simp: probe_next_def)
    next
      case False
      then have "sv_state t \<in> {sv_state s, announce_next True (sv_state s)}"
        using l In_Confirm by (auto simp: probe_next_def announce_next_def split: option.splits awaiting_confirm.splits service_state.splits)
      then show ?thesis using assms(1) ge same unfolding life_ok_def
        by (cases "sv_state s") (auto simp: announce_next_def split: if_splits)
    qed
  qed (use l same in auto)
qed

lemma life_ok_claims: "life_ok s k \<Longrightarrow> claims (service_run clk draw evs inp s) \<Longrightarrow> announced (sv_state (service_run clk draw evs inp s))"
  using run_claims [of clk draw evs inp s] announced_next by (auto simp: life_ok_def)

lemma life_ok_run: "life_ok s k \<Longrightarrow> life_ok (service_run clk draw evs inp s) (probes_after inp s (service_run clk draw evs inp s) k)"
  using life_ok_state [where clk = clk and draw = draw and evs = evs and inp = inp] life_ok_claims [of s k clk draw evs inp] by (simp add: life_ok_def)

lemma served_ok: "served clk draw evs s k \<Longrightarrow> life_ok s k"
  by (induction rule: served.induct) (simp_all add: life_ok_new life_ok_run)


text \<open>
  C4. Nothing is claimed before it was probed for.  Take any service that was told to probe, after any
  sequence of inputs: a datagram that is not a probe leaves it only while its state is announcing or
  established, and only after three of its probes were delivered since it last started over, be
  it at first, after a conflict or after a rename.
\<close>

theorem no_claim_before_probing:
  assumes "served clk draw evs s k" "service_poll_transmit now buf s = (Inr (Some tr), out, t)"
    "sv_awaiting_confirm t \<noteq> Some AC_Probe"
  shows "announced (sv_state s) \<and> 3 \<le> k"
proof -
  have ok: "life_ok s k" by (rule served_ok [OF assms(1)])
  have "sv_awaiting_confirm s = None" "sv_awaiting_confirm t \<noteq> None"
    using transmit_waits [of now buf s tr] assms(2) by simp_all
  then have "claims s" using transmit_sends [of s now buf] assms(2,3) by (auto simp: sends_claim_def)
  with ok show ?thesis by (cases "sv_state s") (auto simp: life_ok_def)
qed

text \<open>A run that probes three times, announces and asks for the announcement.\<close>

type_synonym life_pool = "(service_update, (nat \<times> service_update) list, unit) pool_ops"

definition life_draw :: "unit \<Rightarrow> u32 \<times> unit" where "life_draw g = (0, ())"

definition life_tick :: "64 word \<Rightarrow> smoltcp_instant service_input" where
  "life_tick us = In_Timeout (SmoltcpInstant us) flood_new []"

definition life_probe :: "64 word \<Rightarrow> smoltcp_instant service_input list" where
  "life_probe us = [life_tick us, In_Transmit (SmoltcpInstant us) (replicate 64 0),
     In_Confirm (SmoltcpInstant us) (Accepted (SmoltcpInstant us)) NoSocket]"

definition life_inputs :: "smoltcp_instant service_input list" where
  "life_inputs = [life_tick 250000] @ life_probe 500000 @ life_probe 1000000 @ life_probe 1500000 @
     [life_tick 3500000, life_tick 5500000]"

definition life_records :: service_records where
  "life_records = sr_new (Name []) (Name [97]) (Name []) 80 120"

definition life_start :: "(smoltcp_instant, unit, (nat \<times> service_update) list) service" where
  "life_start = service_try_new smoltcp_clock life_draw (list_slab :: life_pool) (ServiceHandle 1) life_records
     (SmoltcpInstant 0) () True False flood_new"

definition life_end :: "(smoltcp_instant, unit, (nat \<times> service_update) list) service" where
  "life_end = foldl (\<lambda>s inp. service_run smoltcp_clock life_draw (list_slab :: life_pool) inp s) life_start life_inputs"

lemma served_runs:
  "served clk draw evs s k \<Longrightarrow> \<exists>k'. served clk draw evs (foldl (\<lambda>s inp. service_run clk draw evs inp s) s inps) k'"
  by (induction inps arbitrary: s k) (auto intro: served_run)

lemma life_end_served: "\<exists>k. served smoltcp_clock life_draw (list_slab :: life_pool) life_end k"
  unfolding life_end_def life_start_def by (rule served_runs [OF served_new])

text \<open>The probe is encoded once; after that a transmit input just takes it from the queue.\<close>

definition probe_ready :: "smoltcp_instant service_input \<Rightarrow> (smoltcp_instant, unit, (nat \<times> service_update) list) service \<Rightarrow> bool" where
  "probe_ready inp s = (case inp of
     In_Transmit now buf \<Rightarrow> buf = replicate 64 0 \<and> sv_records s = life_records \<and> sv_awaiting_confirm s = None \<and>
       sv_meta_response_deadline s = None \<and> sv_pending_legacy s = [] \<and> \<not> conflict_classified_unresolved s \<and>
       peek_pending s = Some PT_Probe
   | _ \<Rightarrow> True)"

definition probe_run :: "smoltcp_instant service_input \<Rightarrow> (smoltcp_instant, unit, (nat \<times> service_update) list) service \<Rightarrow>
    (smoltcp_instant, unit, (nat \<times> service_update) list) service" where
  "probe_run inp s = (case inp of In_Transmit now buf \<Rightarrow> (snd (pop_pending s))\<lparr>sv_awaiting_confirm := Some AC_Probe\<rparr>
     | _ \<Rightarrow> service_run smoltcp_clock life_draw (list_slab :: life_pool) inp s)"

fun probes_ready :: "smoltcp_instant service_input list \<Rightarrow> (smoltcp_instant, unit, (nat \<times> service_update) list) service \<Rightarrow> bool" where
  "probes_ready [] s = True"
| "probes_ready (inp # inps) s = (probe_ready inp s \<and> probes_ready inps (probe_run inp s))"

lemma life_probe_written: "is_ok (fst (write_probe life_records (replicate 64 0)))"
  by code_simp

lemma probe_run_eq: "probe_ready inp s \<Longrightarrow> service_run smoltcp_clock life_draw (list_slab :: life_pool) inp s = probe_run inp s"
  using life_probe_written
  by (cases inp) (auto simp: probe_ready_def probe_run_def service_poll_transmit_def transmit_meta_def transmit_legacy_def
      transmit_pending_def Let_def is_ok_def split: sum.splits prod.splits)

lemma probes_run_eq: "probes_ready inps s \<Longrightarrow>
    foldl (\<lambda>s inp. service_run smoltcp_clock life_draw (list_slab :: life_pool) inp s) s inps = foldl (\<lambda>s inp. probe_run inp s) s inps"
  by (induction inps arbitrary: s) (simp_all add: probe_run_eq)

lemma life_end_eq: "life_end = foldl (\<lambda>s inp. probe_run inp s) life_start life_inputs"
  unfolding life_end_def by (rule probes_run_eq) code_simp

lemma life_announcement_written: "is_ok (fst (write_announce life_records (replicate 64 0)))"
  by code_simp

definition announcement_ready :: "('i, 'g, 'ev) service \<Rightarrow> bool" where
  "announcement_ready s \<longleftrightarrow> sv_awaiting_confirm s = None \<and> sv_meta_response_deadline s = None \<and> sv_pending_legacy s = [] \<and>
     \<not> conflict_classified_unresolved s \<and> peek_pending s = Some PT_Announcement"

lemma transmit_announcement:
  assumes "announcement_ready s" "is_ok (fst (write_announce (sv_records s) buf))"
  shows "\<exists>tr out t e. service_poll_transmit now buf s = (Inr (Some tr), out, t) \<and>
    sv_awaiting_confirm t = Some (AC_Announcement e) \<and> em_ptr e"
proof -
  obtain n f out where w: "write_announce (sv_records s) buf = (Inr (n, f), out)"
    using assms(2) by (cases "write_announce (sv_records s) buf"; cases "fst (write_announce (sv_records s) buf)") auto
  have m: "transmit_meta now buf s = (None, buf, s)" "transmit_legacy buf s = (None, buf, s)"
    using assms(1) by (simp_all add: announcement_ready_def transmit_meta_def transmit_legacy_def)
  show ?thesis
    using assms(1) unfolding announcement_ready_def service_poll_transmit_def
    by (simp add: m transmit_pending_def Let_def w)
qed

lemma life_end_ready: "announcement_ready life_end \<and> sv_records life_end = life_records"
  unfolding life_end_eq by code_simp

lemma no_claim_before_probing_witness:
  "\<exists>k. served smoltcp_clock life_draw (list_slab :: life_pool) life_end k \<and> announced (sv_state life_end) \<and> 3 \<le> k"
proof -
  obtain tr out t e where t: "service_poll_transmit (SmoltcpInstant 5500000) (replicate 64 0) life_end = (Inr (Some tr), out, t)"
    "sv_awaiting_confirm t = Some (AC_Announcement e)"
    using transmit_announcement [of life_end] life_announcement_written life_end_ready by metis
  then have n: "sv_awaiting_confirm t \<noteq> Some AC_Probe" by simp
  obtain k where k: "served smoltcp_clock life_draw (list_slab :: life_pool) life_end k" using life_end_served by blast
  with no_claim_before_probing [OF k t(1) n] show ?thesis by blast
qed

end
