(* ===== verification/ServiceGoodbye.thy ===== *)
theory ServiceGoodbye
  imports ServiceLife
begin

text \<open>
  The account a goodbye is drawn from, over the life of a service: which input adds to it, which drops the
  part of a lost name, and that nothing said under the old name is forgotten.
\<close>

subsection \<open>What leaves the account alone\<close>

named_theorems keeps_goodbye "operations that leave the account alone"

lemma goodbye_push_update [keeps_goodbye]: "sv_goodbye (push_update evs u s) = sv_goodbye s"
  by (simp add: push_update_def)

lemma goodbye_eligible [keeps_goodbye]: "sv_goodbye (snd (flood_eligible d s)) = sv_goodbye s"
  by (simp add: flood_eligible_def split: option.split prod.split)

lemma goodbye_checked [keeps_goodbye]: "sv_goodbye (eligibility_checked ev s) = sv_goodbye s"
  by (simp add: eligibility_checked_def keeps_goodbye split: option.split)

lemma goodbye_restart [keeps_goodbye]: "sv_goodbye (snd (restart_probe_cycle clk now dl rf flood s)) = sv_goodbye s"
  by (simp add: restart_probe_cycle_def Let_def clear_response_cycle_state_def stale_live_commit_token_def)

lemma goodbye_pending [keeps_goodbye]:
  "sv_goodbye (push_pending kind s) = sv_goodbye s" "sv_goodbye (push_lifecycle_pending kind s) = sv_goodbye s"
  "sv_goodbye (snd (pop_pending s)) = sv_goodbye s"
  by (simp_all add: push_pending_def push_lifecycle_pending_def pop_pending_def split: option.split prod.split)

lemma goodbye_question [keeps_goodbye]: "sv_goodbye (service_question_event clk draw now sq s) = sv_goodbye s"
  by (simp add: service_question_event_def legacy_meta_question_def multicast_meta_question_def legacy_question_def
      multicast_question_def Let_def split: option.split sum.split prod.split)

lemma goodbye_known_answer [keeps_goodbye]: "sv_goodbye (known_answer_event clk now ka s) = sv_goodbye s"
proof -
  have "sv_goodbye (known_meta_answer clk now ka s) = sv_goodbye s"
    by (simp add: known_meta_answer_def Let_def split: option.split)
  then show ?thesis unfolding known_answer_event_def Let_def
    by (simp add: store_hint_def split: option.split sum.split)
qed

lemma goodbye_conflicts [keeps_goodbye]:
  "sv_goodbye (fst (established_conflict clk draw now pc (s, flood))) = sv_goodbye s"
  "sv_goodbye (fst (host_conflict_event clk evs now hc (s, flood))) = sv_goodbye s"
  "sv_goodbye (snd (handle_probe_proposal pp s)) = sv_goodbye s"
  "sv_goodbye (handle_preauthoritative_conflict pc s) = sv_goodbye s"
  unfolding established_conflict_def host_conflict_event_def handle_probe_proposal_def handle_preauthoritative_conflict_def
    Let_def case_prod_beta prod.case fst_conv
  by (simp_all add: keeps_goodbye split: verdict.split)

lemma goodbye_event: "sv_goodbye (fst (service_handle_event clk draw evs ev now flood s)) = sv_goodbye s"
  unfolding service_handle_event_def Let_def eligibility_checked_def [symmetric]
  by (simp add: case_prod_beta keeps_goodbye split: service_event.split)

lemma goodbye_timer_parts [keeps_goodbye]:
  "sv_goodbye (snd (fire_response now s)) = sv_goodbye s" "sv_goodbye (rearm_parked clk draw now flood s) = sv_goodbye s"
  "sv_goodbye (snd (hold_first_probe clk now flood s)) = sv_goodbye s" "sv_goodbye (fire_lifecycle clk draw now s) = sv_goodbye s"
  by (simp_all add: fire_response_def rearm_parked_def hold_first_probe_def fire_lifecycle_def Let_def case_prod_beta keeps_goodbye
      split: option.split service_state.split)

lemma goodbye_tick: "sv_goodbye (snd (service_tick clk draw now flood s)) = sv_goodbye s"
  unfolding service_tick_def Let_def case_prod_beta snd_conv by (simp add: keeps_goodbye)

lemma goodbye_transmit: "sv_goodbye (snd (snd (service_poll_transmit now buf s))) = sv_goodbye s"
proof -
  have m: "sv_goodbye (snd (snd (transmit_meta now b t))) = sv_goodbye t" for b and t :: "('a, 'b, 'c) service"
    by (simp add: transmit_meta_def Let_def split: sum.split prod.split option.split)
  have l: "sv_goodbye (snd (snd (transmit_legacy b t))) = sv_goodbye t" for b and t :: "('a, 'b, 'c) service"
    by (simp add: transmit_legacy_def Let_def case_prod_beta split: list.split sum.split)
  have p: "sv_goodbye (snd (snd (transmit_pending now b k t))) = sv_goodbye t" for b k and t :: "('a, 'b, 'c) service"
    by (cases k) (simp_all add: transmit_pending_def Let_def keeps_goodbye split: sum.split prod.split)
  obtain a b1 s1 where s1: "transmit_meta now buf s = (a, b1, s1)" by (cases "transmit_meta now buf s")
  obtain c b2 s2 where s2: "transmit_legacy b1 s1 = (c, b2, s2)" by (cases "transmit_legacy b1 s1")
  have "sv_goodbye s1 = sv_goodbye s" "sv_goodbye s2 = sv_goodbye s1" using m [of buf s] l [of b1 s1] by (simp_all add: s1 s2)
  then show ?thesis by (simp add: service_poll_transmit_def s1 s2 p split: option.split)
qed

lemma goodbye_rest:
  "sv_goodbye (snd (service_poll evs s)) = sv_goodbye s" "sv_goodbye (defer_first_probe_under_flood clk now flood s) = sv_goodbye s"
  "sv_goodbye (quiesce_for_withdrawal s) = sv_goodbye s" "sv_goodbye (snd (take_rename_goodbye_handoff s)) = sv_goodbye s"
  by (simp_all add: service_poll_def defer_first_probe_under_flood_def quiesce_for_withdrawal_def clear_response_cycle_state_def
      take_rename_goodbye_handoff_def keeps_goodbye split: list.split prod.split option.split)


subsection \<open>What a confirmation adds\<close>

text \<open>What a commit token answers for: the records its datagram carried, and how it was addressed.\<close>

fun answers_for :: "awaiting_confirm \<Rightarrow> emitted_records \<times> send_class" where
  "answers_for AC_Probe = (emitted_default, Unicast)"
| "answers_for (AC_Announcement e) = (e, Multicast)"
| "answers_for (AC_Response e _ cls) = (e, cls)"
| "answers_for AC_MetaResponse = (emitted_default, Unicast)"
| "answers_for (AC_Stale _ SR_None) = (emitted_default, Unicast)"
| "answers_for (AC_Stale _ (SR_SameName e cls)) = (e, cls)"
| "answers_for (AC_Stale _ (SR_OldName _ e cls)) = (host_only e, cls)"

definition account_ok :: "goodbye_ownership \<Rightarrow> bool" where
  "account_ok g \<longleftrightarrow> xp_ok (gb_all g) \<and> xp_ok (gb_multicast g)"

definition held :: "send_class \<Rightarrow> family \<Rightarrow> goodbye_ownership \<Rightarrow> bool \<times> bool \<times> bool \<times> bool \<times> bool \<times> bytes set \<times> bytes set" where
  "held cls fam g = carried (xp_project fam (if cls = Multicast then gb_multicast g else gb_all g))"

text \<open>A datagram counts towards the multicast account only when it was multicast.\<close>

definition added :: "send_class \<Rightarrow> family \<Rightarrow> transmit_delivery \<Rightarrow> emitted_records \<times> send_class \<Rightarrow> emitted_records" where
  "added cls fam d p = (if pick fam (delivered_on d) \<and> (cls = Multicast \<longrightarrow> snd p = Multicast) then fst p else emitted_default)"

lemma carried_union_default [simp]: "carried_union c (carried emitted_default) = c"
  by (cases c) (simp add: carried_union_def carried_def emitted_default_def)

lemma held_record_emitted:
  assumes "account_ok g"
  shows "account_ok (gb_record_emitted e (delivered_on d) cls' g)"
    "held cls fam (gb_record_emitted e (delivered_on d) cls' g) = carried_union (held cls fam g) (carried (added cls fam d (e, cls')))"
  using assms record_emitted_carried
  by (auto simp: account_ok_def held_def added_def gb_record_emitted_def Let_def)

lemma held_record_host_emitted:
  assumes "account_ok g"
  shows "account_ok (gb_record_host_emitted e (delivered_on d) cls' g)"
    "held cls fam (gb_record_host_emitted e (delivered_on d) cls' g) =
       carried_union (held cls fam g) (carried (added cls fam d (host_only e, cls')))"
  using assms record_host_emitted_carried
  by (auto simp: account_ok_def held_def added_def gb_record_host_emitted_def Let_def)

lemma held_reset: "held cls fam (gb_reset_instance g) = carried (host_only (xp_project fam (if cls = Multicast then gb_multicast g else gb_all g)))"
  by (simp add: held_def gb_reset_instance_def carried_reset)

lemma goodbye_arming [keeps_goodbye]:
  "sv_goodbye (arm_announcement clk now adv s) = sv_goodbye s" "sv_goodbye (bump_streak s) = sv_goodbye s"
  "sv_goodbye (arm_on_partial_ladder clk now s) = sv_goodbye s" "sv_goodbye (advance_announcing clk evs now s) = sv_goodbye s"
  "sv_goodbye (snd (classify_announcement now d s)) = sv_goodbye s"
  by (simp_all add: arm_announcement_def bump_streak_def arm_on_partial_ladder_def advance_announcing_def classify_announcement_def
      push_update_def Let_def split: service_state.split prod.split)

lemma goodbye_probe [keeps_goodbye]: "sv_goodbye (settle_probe clk draw now d s) = sv_goodbye s"
proof -
  have "sv_goodbye (settle_last_probe clk now adv t) = sv_goodbye t" for adv and t :: "('a, 'b, 'c) service"
    by (simp add: settle_last_probe_def Let_def keeps_goodbye split: option.split)
  then show ?thesis by (simp add: settle_probe_def Let_def split: service_state.split prod.split)
qed

lemma failed_nothing: "fst (classify_advance p d) = Failed \<Longrightarrow> \<not> any_delivered d"
  by (auto simp: classify_advance_def Let_def split: if_splits prod.splits)

lemma nothing_added: "\<not> any_delivered d \<Longrightarrow> added cls fam d p = emitted_default"
  by (cases fam) (auto simp: added_def delivered_on_def any_delivered_def)

lemma goodbye_announcement:
  "sv_goodbye (settle_announcement clk evs now e d s) =
     (if fst (classify_advance (sv_partial_rounds s) d) = Failed then sv_goodbye s
      else gb_record_emitted e (delivered_on d) Multicast (sv_goodbye s))"
proof -
  obtain adv s1 where c: "classify_announcement now d s = (adv, s1)" by (cases "classify_announcement now d s")
  have "sv_goodbye s1 = sv_goodbye s" "fst (classify_advance (sv_partial_rounds s) d) = adv"
    using goodbye_arming(5) [of now d s] classify_announcement_life(1) [of now d s] by (simp_all add: c)
  then show ?thesis
    by (simp add: settle_announcement_def c Let_def keeps_goodbye split: service_state.split)
qed

lemma goodbye_confirm:
  assumes "account_ok (sv_goodbye s)"
  shows "account_ok (sv_goodbye (settle_confirm clk draw evs now kind d s))"
    "held cls fam (sv_goodbye (settle_confirm clk draw evs now kind d s)) =
       carried_union (held cls fam (sv_goodbye s)) (carried (added cls fam d (answers_for kind)))"
proof -
  have z: "added cls fam d (emitted_default, Unicast) = emitted_default" by (simp add: added_def)
  have "account_ok (sv_goodbye (settle_confirm clk draw evs now kind d s)) \<and>
    held cls fam (sv_goodbye (settle_confirm clk draw evs now kind d s)) =
       carried_union (held cls fam (sv_goodbye s)) (carried (added cls fam d (answers_for kind)))"
  proof (cases kind)
    case AC_Probe
    then show ?thesis using assms by (simp add: settle_confirm_def keeps_goodbye z)
  next
    case (AC_Announcement e)
    then show ?thesis using assms held_record_emitted [OF assms] failed_nothing [of "sv_partial_rounds s" d]
      by (simp add: settle_confirm_def goodbye_announcement nothing_added)
  next
    case (AC_Response e n cls')
    then show ?thesis using assms held_record_emitted [OF assms]
      by (simp add: settle_confirm_def settle_response_def nothing_added)
  next
    case AC_MetaResponse
    then show ?thesis using assms by (simp add: settle_confirm_def z)
  next
    case (AC_Stale f r)
    then show ?thesis using assms held_record_emitted [OF assms] held_record_host_emitted [OF assms]
      by (cases r) (simp_all add: settle_confirm_def settle_stale_def settle_old_name_def Let_def z nothing_added)
  qed
  then show "account_ok (sv_goodbye (settle_confirm clk draw evs now kind d s))"
    "held cls fam (sv_goodbye (settle_confirm clk draw evs now kind d s)) =
       carried_union (held cls fam (sv_goodbye s)) (carried (added cls fam d (answers_for kind)))" by blast+
qed


subsection \<open>What a defeat drops\<close>

lemma lose_name_goodbye:
  "sv_goodbye (snd (lose_name clk draw evs now flood taken s)) = gb_reset_instance (sv_goodbye s)"
  "sv_rename_goodbye_handoff (snd (lose_name clk draw evs now flood taken s)) = sv_rename_goodbye_handoff (hand_off_goodbye s)"
proof -
  have g: "sv_goodbye (hand_off_goodbye s) = sv_goodbye s" by (simp add: hand_off_goodbye_def)
  have r: "sv_rename_goodbye_handoff (snd (restart_probe_cycle clk now dl rf flood t)) = sv_rename_goodbye_handoff t" for dl rf t
    by (simp add: restart_probe_cycle_def Let_def clear_response_cycle_state_def stale_live_commit_token_def)
  have "sv_goodbye (snd (rename_to clk draw evs now flood n t)) = gb_reset_instance (sv_goodbye t) \<and>
      sv_rename_goodbye_handoff (snd (rename_to clk draw evs now flood n t)) = sv_rename_goodbye_handoff t" for n t
    unfolding rename_to_def Let_def case_prod_beta snd_conv
    by (simp add: reset_advertised_name_state_def push_update_def keeps_goodbye r)
  moreover have "sv_goodbye (give_up_name evs t) = gb_reset_instance (sv_goodbye t) \<and>
      sv_rename_goodbye_handoff (give_up_name evs t) = sv_rename_goodbye_handoff t" for t :: "('a, 'b, 'c) service"
    by (simp add: give_up_name_def Let_def clear_response_cycle_state_def push_update_def stale_live_commit_token_def)
  ultimately show "sv_goodbye (snd (lose_name clk draw evs now flood taken s)) = gb_reset_instance (sv_goodbye s)"
    "sv_rename_goodbye_handoff (snd (lose_name clk draw evs now flood taken s)) = sv_rename_goodbye_handoff (hand_off_goodbye s)"
    unfolding lose_name_def Let_def case_prod_beta by (simp_all add: g split: option.split)
qed

fun drop_instance :: "bool \<times> bool \<times> bool \<times> bool \<times> bool \<times> bytes set \<times> bytes set \<Rightarrow> bool \<times> bool \<times> bool \<times> bool \<times> bool \<times> bytes set \<times> bytes set" where
  "drop_instance (p, s, t, b, n, a, q) = (False, False, False, False, False, a, q)"

lemma held_reset_instance: "held cls fam (gb_reset_instance g) = drop_instance (held cls fam g)"
  unfolding held_reset by (simp add: held_def carried_def host_only_def emitted_default_def)

lemma account_ok_reset: "account_ok (gb_reset_instance g) = account_ok g"
  by (simp add: account_ok_def gb_reset_instance_def xp_ok_reset)

lemma goodbye_timeout: "sv_goodbye (snd (service_handle_timeout clk draw evs now flood taken s)) =
    (if sv_probe_defeated s then gb_reset_instance (sv_goodbye s) else sv_goodbye s)"
  unfolding service_handle_timeout_code by (simp add: lose_name_goodbye goodbye_restart goodbye_tick prune_hints_def)

subsection \<open>The account is the history\<close>

text \<open>What should be held, told from the inputs alone.\<close>

definition account_after :: "send_class \<Rightarrow> family \<Rightarrow> 'i service_input \<Rightarrow> ('i, 'g, 'ev) service \<Rightarrow>
    bool \<times> bool \<times> bool \<times> bool \<times> bool \<times> bytes set \<times> bytes set \<Rightarrow> bool \<times> bool \<times> bool \<times> bool \<times> bool \<times> bytes set \<times> bytes set" where
  "account_after cls fam inp s c =
     (case inp of
        In_Confirm now v4 v6 \<Rightarrow> (case sv_awaiting_confirm s of
            None \<Rightarrow> c | Some token \<Rightarrow> carried_union c (carried (added cls fam (project v4 v6) (answers_for token))))
      | In_Timeout now flood taken \<Rightarrow> if sv_probe_defeated s then drop_instance c else c
      | _ \<Rightarrow> c)"

inductive accounted ::
  "'i :: linorder clock \<Rightarrow> ('g \<Rightarrow> u32 \<times> 'g) \<Rightarrow> (service_update, 'ev, 'e) pool_ops \<Rightarrow> send_class \<Rightarrow> family \<Rightarrow> ('i, 'g, 'ev) service \<Rightarrow>
     bool \<times> bool \<times> bool \<times> bool \<times> bool \<times> bytes set \<times> bytes set \<Rightarrow> bool"
  for clk draw evs cls fam where
  accounted_new: "accounted clk draw evs cls fam (service_try_new clk draw evs h records now rng probe re_announce flood)
    (carried emitted_default)"
| accounted_run: "accounted clk draw evs cls fam s c \<Longrightarrow>
    accounted clk draw evs cls fam (service_run clk draw evs inp s) (account_after cls fam inp s c)"

lemma goodbye_default: "sv_goodbye (service_try_new clk draw evs h records now rng probe re_announce flood) = gb_default"
  by (simp add: service_try_new_def Let_def case_prod_beta)

lemma project_default: "xp_project fam xp_default = emitted_default"
  by (cases fam) (simp_all add: xp_project_def xp_default_def emitted_default_def family_addrs_def)

lemma goodbye_new:
  "account_ok (sv_goodbye (service_try_new clk draw evs h records now rng probe re_announce flood))"
  "held cls fam (sv_goodbye (service_try_new clk draw evs h records now rng probe re_announce flood)) = carried emitted_default"
  unfolding goodbye_default gb_default_def account_ok_def held_def by (simp_all add: xp_ok_default project_default)

lemma account_run:
  assumes "account_ok (sv_goodbye s)"
  shows "account_ok (sv_goodbye (service_run clk draw evs inp s))"
    "held cls fam (sv_goodbye (service_run clk draw evs inp s)) = account_after cls fam inp s (held cls fam (sv_goodbye s))"
proof -
  have "account_ok (sv_goodbye (service_run clk draw evs inp s)) \<and>
    held cls fam (sv_goodbye (service_run clk draw evs inp s)) = account_after cls fam inp s (held cls fam (sv_goodbye s))"
  proof (cases inp)
    case (In_Confirm now v4 v6)
    have "account_ok (sv_goodbye (s\<lparr>sv_awaiting_confirm := None\<rparr>))" using assms by simp
    note c = goodbye_confirm [OF this]
    show ?thesis using assms unfolding In_Confirm
      by (simp add: c account_after_def service_note_transmit_outcome_def Let_def split: option.split)
  qed (use assms in \<open>simp_all add: account_after_def goodbye_timeout goodbye_event goodbye_transmit goodbye_rest
      account_ok_reset held_reset_instance\<close>)
  then show "account_ok (sv_goodbye (service_run clk draw evs inp s))"
    "held cls fam (sv_goodbye (service_run clk draw evs inp s)) = account_after cls fam inp s (held cls fam (sv_goodbye s))" by blast+
qed

text \<open>
  C5. The account is the history.  After any inputs, what the service would take back on a family, in all
  or by multicast alone, is exactly the records of the confirmed datagrams that family delivered, whatever
  superseded them meanwhile, less the records of a name it lost: no more, so that nobody is told goodbye
  for what was never said there, and no less.  (So the code; the list of what is not modelled at
  \<open>TransmitDelivery\<close> in \<open>transmit.rs\<close> still calls the account aggregate, one for both families.)
\<close>

theorem goodbye_account:
  assumes "accounted clk draw evs cls fam s c"
  shows "held cls fam (sv_goodbye s) = c"
proof -
  from assms have "account_ok (sv_goodbye s) \<and> held cls fam (sv_goodbye s) = c"
    by induction (simp_all add: goodbye_new account_run)
  then show ?thesis ..
qed


subsection \<open>A service that announces at once\<close>

definition quick_start :: "(smoltcp_instant, unit, (nat \<times> service_update) list) service" where
  "quick_start = service_try_new smoltcp_clock life_draw (list_slab :: life_pool) (ServiceHandle 1) life_records
     (SmoltcpInstant 0) () False False flood_new"

definition quick_due :: "(smoltcp_instant, unit, (nat \<times> service_update) list) service" where
  "quick_due = service_run smoltcp_clock life_draw (list_slab :: life_pool) (life_tick 2000000) quick_start"

definition quick_told :: "(smoltcp_instant, unit, (nat \<times> service_update) list) service" where
  "quick_told = service_run smoltcp_clock life_draw (list_slab :: life_pool)
     (In_Confirm (SmoltcpInstant 2000000) (Accepted (SmoltcpInstant 2000000)) NoSocket)
     (service_run smoltcp_clock life_draw (list_slab :: life_pool) (In_Transmit (SmoltcpInstant 2000000) (replicate 64 0)) quick_due)"

lemma quick_due_ready: "announcement_ready quick_due \<and> sv_records quick_due = life_records"
  by code_simp

lemma quick_told_accounted: "\<exists>c. accounted smoltcp_clock life_draw (list_slab :: life_pool) cls V4 quick_told c \<and> fst c"
proof -
  let ?a = "accounted smoltcp_clock life_draw (list_slab :: life_pool) cls V4"
  obtain tr out t e where t: "service_poll_transmit (SmoltcpInstant 2000000) (replicate 64 0) quick_due = (Inr (Some tr), out, t)"
    "sv_awaiting_confirm t = Some (AC_Announcement e)" "em_ptr e"
    using transmit_announcement [of quick_due] life_announcement_written quick_due_ready by metis
  have "?a quick_start (carried emitted_default)" unfolding quick_start_def by (rule accounted_new)
  moreover have "\<not> sv_probe_defeated quick_start" by (simp add: quick_start_def service_try_new_def)
  ultimately have "?a quick_due (carried emitted_default)"
    using accounted_run [of smoltcp_clock life_draw "list_slab :: life_pool" cls V4 quick_start _ "life_tick 2000000"]
    by (simp add: quick_due_def account_after_def life_tick_def)
  from accounted_run [OF this, of "In_Transmit (SmoltcpInstant 2000000) (replicate 64 0)"] t(1)
  have "?a t (carried emitted_default)" by (simp add: account_after_def)
  from accounted_run [OF this, of "In_Confirm (SmoltcpInstant 2000000) (Accepted (SmoltcpInstant 2000000)) NoSocket"] t
  have "?a quick_told (carried_union (carried emitted_default) (carried e))"
    unfolding quick_told_def by (simp add: account_after_def added_def project_def delivery.simps delivered_on_def)
  moreover have "fst (carried_union (carried emitted_default) (carried e))"
    using t(3) by (simp add: carried_union_def carried_def split: prod.split)
  ultimately show ?thesis by blast
qed

lemma goodbye_account_witness: "fst (held Multicast V4 (sv_goodbye quick_told))"
proof -
  obtain c where c: "accounted smoltcp_clock life_draw (list_slab :: life_pool) Multicast V4 quick_told c" "fst c"
    using quick_told_accounted by blast
  from goodbye_account [OF c(1)] c(2) show ?thesis by simp
qed

subsection \<open>Nothing is forgotten\<close>

definition handed_over :: "('i, 'g, 'ev) service \<Rightarrow> send_class \<Rightarrow> family \<Rightarrow> emitted_records" where
  "handed_over s cls fam = (case sv_rename_goodbye_handoff s of None \<Rightarrow> emitted_default
     | Some h \<Rightarrow> pick fam (if cls = Multicast then rg_multicast h else rg_owned h))"

lemma pick_map: "pick fam (map_prod f f p) = f (pick fam p)"
  by (cases fam; cases p) simp_all

lemma pick_per_family: "pick fam (xp_per_family x) = xp_project fam x"
  by (cases fam) (simp_all add: xp_per_family_def)

lemma split_account: "carried e = carried_union (drop_instance (carried e)) (carried (instance_only e))"
  by (simp add: carried_def carried_union_def instance_only_def)

lemma nothing_of_instance:
  assumes "\<not> xp_any_instance x" "\<not> any_family (xp_nsec x)"
  shows "carried (xp_project fam x) = drop_instance (carried (xp_project fam x))"
  using assms by (auto simp: xp_any_instance_def any_family_pick carried_def xp_project_def)

text \<open>What was multicast was said: the multicast account lies within the whole one.\<close>

definition below :: "_ \<Rightarrow> _ \<Rightarrow> bool" where "below c d \<longleftrightarrow> carried_union c d = d"

lemma carried_union_ac:
  "carried_union (carried_union a b) c = carried_union a (carried_union b c)" "carried_union a b = carried_union b a"
  "carried_union a (carried_union b c) = carried_union b (carried_union a c)" "carried_union a a = a"
  by (cases a; cases b; cases c; simp add: carried_union_def; blast)+

lemma added_below: "carried_union (carried (added Multicast fam dl p)) (carried (added cls fam dl p)) = carried (added cls fam dl p)"
proof (cases "added Multicast fam dl p = added cls fam dl p")
  case False
  then have "added Multicast fam dl p = emitted_default" by (auto simp: added_def split: if_splits)
  then show ?thesis by (simp add: carried_union_ac(2) [of "carried emitted_default"])
qed (simp add: carried_union_ac(4))

lemma below_step:
  "below c d \<Longrightarrow> below (carried_union c (carried (added Multicast fam dl p))) (carried_union d (carried (added cls fam dl p)))"
  "below c d \<Longrightarrow> below (drop_instance c) (drop_instance d)"
  using added_below [of fam dl p cls]
  by (simp add: below_def, metis carried_union_ac(1,3)) (cases c; cases d; simp add: below_def carried_union_def)

lemma alive_account:
  "alive clk draw evs s \<Longrightarrow> account_ok (sv_goodbye s) \<and>
     (\<forall>fam. below (held Multicast fam (sv_goodbye s)) (held Unicast fam (sv_goodbye s)))"
proof (induction rule: alive.induct)
  case (alive_new h records now rng probe re_announce flood)
  then show ?case by (simp add: goodbye_new below_def)
next
  case (alive_run s inp)
  then show ?case
    by (auto simp: account_run account_after_def below_step split: service_input.split option.split)
qed

lemma nothing_multicast:
  assumes "\<forall>fam. below (held Multicast fam g) (held Unicast fam g)" "\<not> gb_any_instance g" "\<not> any_family (xp_nsec (gb_all g))"
  shows "held cls fam g = drop_instance (held cls fam g)"
proof -
  have "held Unicast fam g = drop_instance (held Unicast fam g)"
    using nothing_of_instance [of "gb_all g" fam] assms(2,3) by (simp add: held_def gb_any_instance_def)
  with assms(1) have "held Multicast fam g = drop_instance (held Multicast fam g)"
    by (cases "held Multicast fam g"; cases "held Unicast fam g") (auto simp: below_def carried_union_def dest!: spec [of _ fam])
  with \<open>held Unicast fam g = drop_instance (held Unicast fam g)\<close> show ?thesis by (cases cls) simp_all
qed

lemma hand_off_covers:
  assumes "sv_rename_goodbye_handoff s = None" "\<forall>fam. below (held Multicast fam (sv_goodbye s)) (held Unicast fam (sv_goodbye s))"
  shows "held cls fam (sv_goodbye s) =
      carried_union (drop_instance (held cls fam (sv_goodbye s))) (carried (handed_over (hand_off_goodbye s) cls fam))"
    "sv_rename_goodbye_handoff (hand_off_goodbye s) = Some h \<Longrightarrow> rg_records h = sv_records s"
proof -
  show "held cls fam (sv_goodbye s) =
      carried_union (drop_instance (held cls fam (sv_goodbye s))) (carried (handed_over (hand_off_goodbye s) cls fam))"
  proof (cases "gb_any_instance (sv_goodbye s) \<or> any_family (xp_nsec (gb_all (sv_goodbye s)))")
    case True
    then show ?thesis using split_account [of "xp_project fam (gb_multicast (sv_goodbye s))"] split_account [of "xp_project fam (gb_all (sv_goodbye s))"]
      by (simp add: handed_over_def hand_off_goodbye_def pick_map pick_per_family gb_per_family_def gb_per_family_multicast_def held_def)
  next
    case False
    then show ?thesis using nothing_multicast [OF assms(2), of cls fam] assms(1)
      by (simp add: handed_over_def hand_off_goodbye_def)
  qed
  show "sv_rename_goodbye_handoff (hand_off_goodbye s) = Some h \<Longrightarrow> rg_records h = sv_records s"
    using assms(1) by (auto simp: hand_off_goodbye_def split: if_splits)
qed

text \<open>
  C6. A lost name is taken back in full.  When a defeat takes the name, all that was said is either still
  in the account of the service (its addresses) or in the hand-off that says goodbye under the old
  records (the rest), on each family and for multicast alone.
\<close>

theorem rename_hands_over:
  assumes "alive clk draw evs s" "sv_probe_defeated s" "sv_rename_goodbye_handoff s = None"
    "t = snd (service_handle_timeout clk draw evs now flood taken s)"
  shows "held cls fam (sv_goodbye s) = carried_union (held cls fam (sv_goodbye t)) (carried (handed_over t cls fam)) \<and>
    (\<forall>h. sv_rename_goodbye_handoff t = Some h \<longrightarrow> rg_records h = sv_records s)"
proof -
  define u where "u = (prune_hints now (s\<lparr>sv_last_now := Some now\<rparr>))\<lparr>sv_probe_defeated := False, sv_tiebreak_lost := False\<rparr>"
  have u: "sv_goodbye u = sv_goodbye s" "sv_records u = sv_records s" "sv_rename_goodbye_handoff u = None"
    using assms(3) by (simp_all add: u_def prune_hints_def)
  have t: "t = snd (lose_name clk draw evs now flood taken u)"
    using assms(2) unfolding assms(4) service_handle_timeout_code u_def by simp
  have "handed_over t cls fam = handed_over (hand_off_goodbye u) cls fam"
    unfolding t handed_over_def lose_name_goodbye ..
  moreover have "\<forall>fam. below (held Multicast fam (sv_goodbye u)) (held Unicast fam (sv_goodbye u))"
    using alive_account [OF assms(1)] by (simp add: u)
  note h = hand_off_covers [OF u(3) this, unfolded u]
  ultimately show ?thesis using h by (simp add: t lose_name_goodbye held_reset_instance u(1))
qed

lemma quick_told_alive: "alive smoltcp_clock life_draw (list_slab :: life_pool) quick_told"
  unfolding quick_told_def quick_due_def quick_start_def by (intro alive_run alive_new)


text \<open>
  The announced service meets a conflict, probes again and is defeated.  Whether the announcement had room
  for the NSEC record is left open, so that it need not be encoded here.
\<close>

definition handle_checked ::
  "'i :: linorder clock \<Rightarrow> ('g \<Rightarrow> u32 \<times> 'g) \<Rightarrow> (service_update, 'ev, 'e) pool_ops \<Rightarrow> service_event \<Rightarrow> 'i \<Rightarrow>
     'i conflict_flood \<Rightarrow> ('i, 'g, 'ev) service \<Rightarrow> ('i, 'g, 'ev) flooded" where
  "handle_checked clk draw evs ev now flood s =
     (if classify_event ev s \<noteq> PR_Different then (s, flood)
      else case ev of
        SE_ProbeConflict pc \<Rightarrow>
          if is_preauthoritative s then
            let (eligible, s) = flood_eligible (pc_datagram pc) s;
                flood = (if eligible then snd (flood_accept clk now (pc_datagram pc) (sr_instance (sv_records s)) flood) else flood) in
            (handle_preauthoritative_conflict pc s, flood)
          else if announced (sv_state s)
          then established_conflict clk draw now pc (s, flood)
          else (s, flood)
      | SE_ProbeProposal pp \<Rightarrow>
          if is_preauthoritative s then
            let (lost, s) = handle_probe_proposal pp s in
            (s, if lost then snd (flood_accept clk now (pp_datagram pp) (sr_instance (sv_records s)) flood) else flood)
          else (s, flood)
      | SE_Question sq \<Rightarrow>
          if announced (sv_state s)
          then (service_question_event clk draw now sq s, flood) else (s, flood)
      | SE_KnownAnswer ka \<Rightarrow> (known_answer_event clk now ka s, flood)
      | SE_HostConflict hc \<Rightarrow> host_conflict_event clk evs now hc (s, flood))"

lemma service_handle_event_code [code]:
  "service_handle_event clk draw evs ev now flood s = handle_checked clk draw evs ev now flood (eligibility_checked ev (s\<lparr>sv_last_now := Some now\<rparr>))"
  unfolding service_handle_event_def handle_checked_def Let_def eligibility_checked_def ..

definition rival :: "u64 \<Rightarrow> service_event" where
  "rival n = SE_ProbeConflict \<lparr>pc_src = SockV4 [10, 0, 0, 2] 5353,
     pc_record = \<lparr>rr_message = [1, 65], rr_name = \<lparr>nr_message = [1, 65], nr_start = 0\<rparr>, rr_rtype = RT_Txt,
       rr_rclass = Class_In, rr_cache_flush = True, rr_ttl = 120, rdata_start = 0, rdata_len = 2\<rparr>,
     pc_datagram = DatagramId n, pc_history = Unmatched, pc_role = RoleInstance\<rparr>"

definition quick_sent :: "bool \<Rightarrow> (smoltcp_instant, unit, (nat \<times> service_update) list) service" where
  "quick_sent f = (snd (pop_pending quick_due))\<lparr>sv_awaiting_confirm := Some (AC_Announcement
     \<lparr>em_ptr = True, em_srv = True, em_txt = True, em_a = [], em_aaaa = [], em_subtypes = False, em_nsec = f\<rparr>)\<rparr>"

definition lost_inputs :: "smoltcp_instant service_input list" where
  "lost_inputs = [In_Event (rival 1) (SmoltcpInstant 2000000) flood_new,
     In_Confirm (SmoltcpInstant 2000000) (Accepted (SmoltcpInstant 2000000)) NoSocket, life_tick 2500000] @
     life_probe 3000000 @ [In_Event (rival 2) (SmoltcpInstant 3100000) flood_new]"

lemma quick_sent_eq: "\<exists>f. service_run smoltcp_clock life_draw (list_slab :: life_pool)
    (In_Transmit (SmoltcpInstant 2000000) (replicate 64 0)) quick_due = quick_sent f"
proof -
  obtain n f out where w: "write_announce life_records (replicate 64 0) = (Inr (n, f), out)"
    using life_announcement_written
    by (cases "write_announce life_records (replicate 64 0)"; cases "fst (write_announce life_records (replicate 64 0))") auto
  have m: "transmit_meta (SmoltcpInstant 2000000) (replicate 64 0) quick_due = (None, replicate 64 0, quick_due)"
    "transmit_legacy (replicate 64 0) quick_due = (None, replicate 64 0, quick_due)"
    using quick_due_ready by (simp_all add: announcement_ready_def transmit_meta_def transmit_legacy_def)
  have "sv_records (snd (pop_pending quick_due)) = life_records"
    using quick_due_ready by (simp add: pop_pending_def split: option.split prod.split)
  then have "snd (snd (transmit_pending (SmoltcpInstant 2000000) (replicate 64 0) PT_Announcement quick_due)) = quick_sent f"
    using quick_due_ready by (simp add: transmit_pending_def Let_def w quick_sent_def) (simp add: life_records_def sr_new_def)
  then show ?thesis using quick_due_ready unfolding announcement_ready_def
    by (intro exI [of _ f]) (simp add: service_poll_transmit_def m)
qed

definition lost_name :: "bool \<Rightarrow> (smoltcp_instant, unit, (nat \<times> service_update) list) service" where
  "lost_name f = foldl (\<lambda>s inp. service_run smoltcp_clock life_draw (list_slab :: life_pool) inp s) (quick_sent f) lost_inputs"

lemma lost_name_eq: "lost_name f = foldl (\<lambda>s inp. probe_run inp s) (quick_sent f) lost_inputs"
  unfolding lost_name_def by (rule probes_run_eq) (cases f; code_simp)

lemma lost_name_ready: "sv_probe_defeated (lost_name f) \<and> sv_rename_goodbye_handoff (lost_name f) = None"
  unfolding lost_name_eq by (cases f; code_simp)

lemma alive_runs: "alive clk draw evs s \<Longrightarrow> alive clk draw evs (foldl (\<lambda>s inp. service_run clk draw evs inp s) s inps)"
  by (induction inps arbitrary: s) (auto intro: alive_run)

lemma lost_name_alive: "\<exists>f. alive smoltcp_clock life_draw (list_slab :: life_pool) (lost_name f)"
proof -
  obtain f where f: "service_run smoltcp_clock life_draw (list_slab :: life_pool)
    (In_Transmit (SmoltcpInstant 2000000) (replicate 64 0)) quick_due = quick_sent f" using quick_sent_eq by blast
  have "alive smoltcp_clock life_draw (list_slab :: life_pool) (quick_sent f)"
    unfolding f [symmetric] quick_due_def quick_start_def by (intro alive_run alive_new)
  then show ?thesis unfolding lost_name_def by (intro exI alive_runs)
qed

lemma rename_hands_over_witness:
  "\<exists>f. let t = snd (service_handle_timeout smoltcp_clock life_draw (list_slab :: life_pool) (SmoltcpInstant 4200000) flood_new [] (lost_name f)) in
     held Multicast V4 (sv_goodbye (lost_name f)) =
       carried_union (held Multicast V4 (sv_goodbye t)) (carried (handed_over t Multicast V4))"
proof -
  obtain f where "alive smoltcp_clock life_draw (list_slab :: life_pool) (lost_name f)" using lost_name_alive by blast
  from rename_hands_over [OF this _ _ refl, where now = "SmoltcpInstant 4200000" and flood = flood_new and taken = "[]" and cls = Multicast and fam = V4] lost_name_ready
  show ?thesis unfolding Let_def by (intro exI [of _ f]) simp
qed

end
