(* ===== verification/ServiceBounds.thy ===== *)
theory ServiceBounds
  imports ServiceGoodbye
begin

text \<open>
  What the state of a service keeps to in every reachable state: bounded queues and rings, an account of
  the goodbye that stays readable, a state within the automaton; and the silence of a service that
  has given up its name.
\<close>

subsection \<open>The invariant\<close>

definition queue_ok :: "('i, 'g, 'ev) service \<Rightarrow> bool" where
  "queue_ok s \<longleftrightarrow> length (sv_pending_legacy s) \<le> MAX_LEGACY_RESPONSES \<and>
     length (sv_questioner_srcs s) \<le> MAX_QUESTIONER_SRCS \<and> distinct (sv_questioner_srcs s) \<and>
     length (sv_meta_questioner_srcs s) \<le> MAX_QUESTIONER_SRCS \<and> distinct (sv_meta_questioner_srcs s) \<and>
     length (sv_kas_hints s) = KAS_RING_SIZE \<and> sv_kas_next_slot s < KAS_RING_SIZE \<and>
     (fst (sv_pending_transmits s) = None \<longrightarrow> snd (sv_pending_transmits s) = None)"

definition state_ok :: "service_state \<Rightarrow> bool" where
  "state_ok st \<longleftrightarrow> (case st of Probing n \<Rightarrow> n \<le> 3 | Announcing n \<Rightarrow> n \<le> 1 | _ \<Rightarrow> True)"

definition service_ok :: "('i, 'g, 'ev) service \<Rightarrow> bool" where
  "service_ok s \<longleftrightarrow> queue_ok s \<and> account_ok (sv_goodbye s) \<and> state_ok (sv_state s)"

text \<open>The queues of a service, as one value: most operations leave them alone.\<close>

definition queues :: "('i, 'g, 'ev) service \<Rightarrow> _" where
  "queues s = (sv_pending_legacy s, sv_questioner_srcs s, sv_meta_questioner_srcs s, sv_kas_hints s, sv_kas_next_slot s,
     sv_pending_transmits s)"

lemma queue_cong: "queues s = queues t \<Longrightarrow> queue_ok s = queue_ok t"
  by (simp add: queues_def queue_ok_def)

lemma queues_push_update [simp]: "queues (push_update evs u s) = queues s"
  by (simp add: queues_def push_update_def)

lemma queues_fields [simp]:
  "queues (s\<lparr>sv_last_now := a\<rparr>) = queues s" "queues (s\<lparr>sv_awaiting_confirm := b\<rparr>) = queues s"
  "queues (s\<lparr>sv_rng := c\<rparr>) = queues s" "queues (s\<lparr>sv_lifecycle_deadline := d\<rparr>) = queues s"
  "queues (s\<lparr>sv_state := st\<rparr>) = queues s" "queues (s\<lparr>sv_probe_count := n\<rparr>) = queues s"
  "queues (s\<lparr>sv_announce_count := n\<rparr>) = queues s" "queues (s\<lparr>sv_probe_on_wire := p\<rparr>) = queues s"
  "queues (s\<lparr>sv_partial_rounds := pr\<rparr>) = queues s" "queues (s\<lparr>sv_last_delivered := ld\<rparr>) = queues s"
  "queues (s\<lparr>sv_goodbye := g\<rparr>) = queues s" "queues (s\<lparr>sv_generation_advertised := p\<rparr>) = queues s"
  "queues (s\<lparr>sv_partial_announce_streak := n\<rparr>) = queues s" "queues (s\<lparr>sv_fully_announced := p\<rparr>) = queues s"
  "queues (s\<lparr>sv_rename_goodbye_handoff := h\<rparr>) = queues s" "queues (s\<lparr>sv_response_deadline := a\<rparr>) = queues s"
  "queues (s\<lparr>sv_probe_defeated := p\<rparr>) = queues s" "queues (s\<lparr>sv_tiebreak_lost := p\<rparr>) = queues s"
  "queues (s\<lparr>sv_flood_eligibility := fe\<rparr>) = queues s" "queues (s\<lparr>sv_last_conflict_reprobe := a\<rparr>) = queues s"
  "queues (s\<lparr>sv_records := r\<rparr>) = queues s" "queues (s\<lparr>sv_rename_attempt := n\<rparr>) = queues s"
  "queues (s\<lparr>sv_pending_updates := pu\<rparr>) = queues s" "queues (s\<lparr>sv_sequence_started_at := t\<rparr>) = queues s"
  "queues (s\<lparr>sv_meta_response_deadline := a\<rparr>) = queues s" "queues (s\<lparr>sv_meta_known_answered := a\<rparr>) = queues s"
  by (simp_all add: queues_def)

lemma settle_confirm_queues: "queues (settle_confirm clk draw evs now kind d s) = queues s"
proof -
  have a: "queues (arm_announcement clk now adv s) = queues s" for adv and s :: "('a, 'b, 'c) service"
    by (simp add: arm_announcement_def Let_def split: service_state.split)
  have b: "queues (bump_streak s) = queues s" for s :: "('a, 'b, 'c) service" by (simp add: bump_streak_def)
  have p: "queues (arm_on_partial_ladder clk now s) = queues s" for s :: "('a, 'b, 'c) service" by (simp add: arm_on_partial_ladder_def)
  have l: "queues (settle_last_probe clk now adv s) = queues s" for adv and s :: "('a, 'b, 'c) service"
    by (simp add: settle_last_probe_def Let_def p split: option.split)
  have v: "queues (advance_announcing clk evs now s) = queues s" for s :: "('a, 'b, 'c) service"
    by (simp add: advance_announcing_def Let_def split: service_state.split)
  have c: "queues (snd (classify_announcement now d s)) = queues s" for s :: "('a, 'b, 'c) service"
    by (simp add: classify_announcement_def split: prod.split)
  show ?thesis
  proof (cases kind)
    case AC_Probe
    then show ?thesis by (simp add: settle_confirm_def settle_probe_def Let_def l split: service_state.split prod.split)
  next
    case (AC_Announcement e)
    obtain adv s1 where k: "classify_announcement now d s = (adv, s1)" by (cases "classify_announcement now d s")
    have "queues s1 = queues s" using c [of s] by (simp add: k)
    then show ?thesis unfolding AC_Announcement
      by (simp add: settle_confirm_def settle_announcement_def k Let_def a b v split: service_state.split)
  next
    case (AC_Response e n cls)
    then show ?thesis by (simp add: settle_confirm_def settle_response_def)
  next
    case AC_MetaResponse
    then show ?thesis by (simp add: settle_confirm_def)
  next
    case (AC_Stale f r)
    then show ?thesis by (simp add: settle_confirm_def settle_stale_def settle_old_name_def Let_def split: stale_records.split)
  qed
qed


named_theorems queues_keep "operations that keep the bounds of the queues"

lemma queue_ok_keep: "queues t = queues s \<Longrightarrow> queue_ok s \<Longrightarrow> queue_ok t"
  using queue_cong by blast

lemma clear_response_cycle_queue: "queue_ok s \<Longrightarrow> queue_ok (clear_response_cycle_state s)"
  by (simp add: queue_ok_def clear_response_cycle_state_def MAX_LEGACY_RESPONSES_def KAS_RING_SIZE_def)

lemma clear_pending_queue: "queue_ok s \<Longrightarrow> queue_ok (s\<lparr>sv_pending_transmits := (None, None)\<rparr>)"
  by (simp add: queue_ok_def)

lemma stale_commit_queues [simp]: "queues (stale_live_commit_token rf s) = queues s"
  by (simp add: stale_live_commit_token_def)

lemma restart_queue: "queue_ok s \<Longrightarrow> queue_ok (snd (restart_probe_cycle clk now deadline rf flood s))"
  by (simp add: restart_probe_cycle_def Let_def queue_ok_def clear_response_cycle_state_def stale_live_commit_token_def
      MAX_LEGACY_RESPONSES_def KAS_RING_SIZE_def)

lemma push_pending_queue: "queue_ok s \<Longrightarrow> queue_ok (push_pending kind s)"
  by (auto simp: push_pending_def queue_ok_def split: option.split prod.split)

lemma push_lifecycle_queue: "queue_ok s \<Longrightarrow> queue_ok (push_lifecycle_pending kind s)"
  by (simp add: push_lifecycle_pending_def push_pending_queue)

lemma pop_pending_queue: "queue_ok s \<Longrightarrow> queue_ok (snd (pop_pending s))"
  by (auto simp: pop_pending_def queue_ok_def split: option.splits prod.splits)

lemma note_src_ok: "distinct xs \<and> length xs \<le> MAX_QUESTIONER_SRCS \<Longrightarrow>
    distinct (note_src src xs) \<and> length (note_src src xs) \<le> MAX_QUESTIONER_SRCS"
  by (simp add: note_src_def)

lemma queue_ok_more:
  "queue_ok s \<Longrightarrow> length ls \<le> MAX_LEGACY_RESPONSES \<Longrightarrow> queue_ok (s\<lparr>sv_pending_legacy := ls\<rparr>)"
  "queue_ok s \<Longrightarrow> queue_ok (s\<lparr>sv_meta_questioner_srcs := note_src src (sv_meta_questioner_srcs s)\<rparr>)"
  "queue_ok s \<Longrightarrow> queue_ok (s\<lparr>sv_questioner_srcs := note_src src (sv_questioner_srcs s)\<rparr>)"
  "queue_ok s \<Longrightarrow> queue_ok (s\<lparr>sv_meta_questioner_srcs := []\<rparr>)"
  "queue_ok s \<Longrightarrow> queue_ok (s\<lparr>sv_kas_hints := replicate KAS_RING_SIZE None, sv_questioner_srcs := []\<rparr>)"
  using note_src_ok by (auto simp: queue_ok_def)

lemma question_queue: "queue_ok s \<Longrightarrow> queue_ok (service_question_event clk draw now sq s)"
proof -
  assume q: "queue_ok s"
  have a: "queue_ok (legacy_meta_question sq s)" using q
    by (simp add: legacy_meta_question_def queue_ok_more(1) split: sum.split)
  have b: "queue_ok (legacy_question sq s)" using q
    by (simp add: legacy_question_def Let_def queue_ok_more(1) split: option.split)
  have k: "queue_ok (t\<lparr>sv_rng := r\<rparr>) = queue_ok t" "queue_ok (t\<lparr>sv_meta_response_deadline := x\<rparr>) = queue_ok t"
    "queue_ok (t\<lparr>sv_response_deadline := x\<rparr>) = queue_ok t" for t :: "('a, 'b, 'c) service" and r x
    by (simp_all add: queue_ok_def)
  have c: "queue_ok (multicast_meta_question clk draw now sq s)"
    using queue_ok_more(2) [OF q] by (simp add: multicast_meta_question_def Let_def k split: prod.split option.split)
  have d: "queue_ok (multicast_question clk draw now sq s)"
  proof -
    obtain j r where j: "response_jitter draw (sq_truncated sq) (sv_rng s) = (j, r)" by (cases "response_jitter draw (sq_truncated sq) (sv_rng s)")
    have "queue_ok (s\<lparr>sv_rng := r, sv_response_deadline := x, sv_questioner_srcs := note_src (sq_src sq) (sv_questioner_srcs s)\<rparr>)" for x
      using q note_src_ok by (auto simp: queue_ok_def)
    then show ?thesis using q by (simp add: multicast_question_def Let_def j k split: option.split)
  qed
  show ?thesis unfolding service_question_event_def using a b c d by simp
qed

lemma store_hint_queue: "queue_ok s \<Longrightarrow> queue_ok (store_hint h s)"
  by (simp add: store_hint_def queue_ok_def KAS_RING_SIZE_def)

lemma known_answer_queue: "queue_ok s \<Longrightarrow> queue_ok (known_answer_event clk now ka s)"
proof -
  assume q: "queue_ok s"
  then have "queue_ok (known_meta_answer clk now ka s)"
    by (simp add: known_meta_answer_def queue_ok_def Let_def split: option.split)
  then show ?thesis unfolding known_answer_event_def Let_def using q store_hint_queue [OF q]
    by (auto split: option.split sum.split)
qed

lemma flood_eligible_queues [simp]: "queues (snd (flood_eligible d s)) = queues s"
  by (simp add: flood_eligible_def split: option.split prod.split)

lemma eligibility_checked_queues [simp]: "queues (eligibility_checked ev s) = queues s"
  by (simp add: eligibility_checked_def split: option.split)

lemma established_queue: "queue_ok s \<Longrightarrow> queue_ok (fst (established_conflict clk draw now pc (s, flood)))"
proof -
  assume q: "queue_ok s"
  have "queue_ok (s\<lparr>sv_last_conflict_reprobe := Some now, sv_rng := r\<rparr>)" for r using q by (simp add: queue_ok_def)
  then have "queue_ok (snd (restart_probe_cycle clk now dl None flood' (s\<lparr>sv_last_conflict_reprobe := Some now, sv_rng := r\<rparr>)))" for dl r flood'
    by (rule restart_queue)
  then show ?thesis using q unfolding established_conflict_def Let_def case_prod_beta prod.case fst_conv by simp
qed

lemma event_queue:
  fixes s :: "('i :: linorder, 'g, 'ev) service"
  assumes "queue_ok s"
  shows "queue_ok (fst (service_handle_event clk draw evs ev now flood s))"
proof -
  define s1 where "s1 = eligibility_checked ev (s\<lparr>sv_last_now := Some now\<rparr>)"
  have q: "queue_ok s1" using queue_ok_keep [OF _ assms, of s1] by (simp add: s1_def)
  have "queue_ok (handle_preauthoritative_conflict pc (snd (flood_eligible d s1)))" for pc d
    by (rule queue_ok_keep [OF _ q]) (simp add: handle_preauthoritative_conflict_def)
  moreover have "queue_ok (snd (handle_probe_proposal pp s1))" for pp
    by (rule queue_ok_keep [OF _ q]) (simp add: handle_probe_proposal_def split: verdict.split)
  moreover have "queue_ok (fst (host_conflict_event clk evs now hc (s1, flood)))" for hc
    by (rule queue_ok_keep [OF _ q]) (simp add: host_conflict_event_def Let_def case_prod_beta)
  ultimately show ?thesis
    using q established_queue [OF q] question_queue [OF q] known_answer_queue [OF q]
    unfolding service_handle_event_def Let_def eligibility_checked_def [symmetric] s1_def [symmetric]
    by (simp add: case_prod_beta split: service_event.split)
qed


lemma fire_response_queues [simp]: "queues (snd (fire_response now s)) = queues s"
  by (simp add: fire_response_def split: option.split)

lemma rearm_parked_queues [simp]: "queues (rearm_parked clk draw now flood s) = queues s"
  by (simp add: rearm_parked_def Let_def split: prod.split)

lemma hold_first_probe_queues [simp]: "queues (snd (hold_first_probe clk now flood s)) = queues s"
  by (simp add: hold_first_probe_def split: option.split)

lemma fire_lifecycle_queue: "queue_ok s \<Longrightarrow> queue_ok (fire_lifecycle clk draw now s)"
proof -
  assume q: "queue_ok s"
  have p: "queue_ok (push_lifecycle_pending kind s)" for kind by (rule push_lifecycle_queue [OF q])
  have f: "queue_ok (t\<lparr>sv_lifecycle_deadline := a\<rparr>) = queue_ok t" "queue_ok (t\<lparr>sv_rng := r\<rparr>) = queue_ok t"
    "queue_ok (t\<lparr>sv_state := st\<rparr>) = queue_ok t" for t :: "('a, 'b, 'c) service" and a r st
    by (simp_all add: queue_ok_def)
  show ?thesis using q p by (simp add: fire_lifecycle_def Let_def case_prod_beta f split: option.split service_state.split)
qed

lemma tick_queue: "queue_ok s \<Longrightarrow> queue_ok (snd (service_tick clk draw now flood s))"
proof -
  assume q: "queue_ok s"
  define s3 where "s3 = snd (hold_first_probe clk now flood (rearm_parked clk draw now flood (snd (fire_response now s))))"
  have "queue_ok s3" by (rule queue_ok_keep [OF _ q]) (simp add: s3_def)
  then have "queue_ok (fire_lifecycle clk draw now s3)" by (rule fire_lifecycle_queue)
  then show ?thesis unfolding service_tick_def Let_def case_prod_beta snd_conv s3_def [symmetric]
    by (simp add: push_pending_queue)
qed

lemma hand_off_queues [simp]: "queues (hand_off_goodbye s) = queues s"
  by (simp add: hand_off_goodbye_def)

lemma reset_name_queues [simp]: "queues (reset_advertised_name_state s) = queues s"
  by (simp add: reset_advertised_name_state_def)

lemma rename_to_queue: "queue_ok s \<Longrightarrow> queue_ok (snd (rename_to clk draw evs now flood n s))"
proof -
  assume q: "queue_ok s"
  have "queue_ok (s\<lparr>sv_rng := r\<rparr>)" for r by (rule queue_ok_keep [OF _ q]) simp
  then have r: "queue_ok (snd (restart_probe_cycle clk now dl rf flood (s\<lparr>sv_rng := r\<rparr>)))" for dl rf r by (rule restart_queue)
  show ?thesis unfolding rename_to_def Let_def case_prod_beta snd_conv by (rule queue_ok_keep [OF _ r]) simp
qed

lemma give_up_queue: "queue_ok s \<Longrightarrow> queue_ok (give_up_name evs s)"
  by (simp add: give_up_name_def Let_def queue_ok_def clear_response_cycle_state_def push_update_def stale_live_commit_token_def
      MAX_LEGACY_RESPONSES_def KAS_RING_SIZE_def)

lemma prune_queue: "queue_ok s \<Longrightarrow> queue_ok (prune_hints now s)"
  by (simp add: prune_hints_def queue_ok_def)

lemma timeout_queue: "queue_ok s \<Longrightarrow> queue_ok (snd (service_handle_timeout clk draw evs now flood taken s))"
proof -
  assume "queue_ok s"
  then have "queue_ok (s\<lparr>sv_last_now := Some now\<rparr>)" by (simp add: queue_ok_def)
  then have q: "queue_ok (prune_hints now (s\<lparr>sv_last_now := Some now\<rparr>))" by (rule prune_queue)
  define u where "u = (prune_hints now (s\<lparr>sv_last_now := Some now\<rparr>))\<lparr>sv_probe_defeated := False, sv_tiebreak_lost := False\<rparr>"
  have u: "queue_ok u" by (rule queue_ok_keep [OF _ q]) (simp add: u_def)
  have h: "queue_ok ((hand_off_goodbye u)\<lparr>sv_rename_attempt := n\<rparr>)" for n by (rule queue_ok_keep [OF _ u]) simp
  have "queue_ok (snd (lose_name clk draw evs now flood taken u))"
    unfolding lose_name_def Let_def case_prod_beta using h by (simp add: rename_to_queue give_up_queue split: option.split)
  then show ?thesis unfolding service_handle_timeout_code u_def [symmetric]
    using restart_queue [OF u] tick_queue [OF q] by simp
qed

lemma transmit_queue:
  fixes s :: "('i :: linorder, 'g, 'ev) service"
  assumes "queue_ok s"
  shows "queue_ok (snd (snd (service_poll_transmit now buf s)))"
proof -
  have f: "queue_ok (t\<lparr>sv_awaiting_confirm := a\<rparr>) = queue_ok t" "queue_ok (t\<lparr>sv_meta_response_deadline := b\<rparr>) = queue_ok t"
    "queue_ok (t\<lparr>sv_meta_known_answered := b\<rparr>) = queue_ok t" for t :: "('i, 'g, 'ev) service" and a b
    by (simp_all add: queue_ok_def)
  have m: "queue_ok (snd (snd (transmit_meta now b t)))" if "queue_ok t" for t :: "('i, 'g, 'ev) service" and b
  proof -
    have "queue_ok (t\<lparr>sv_meta_response_deadline := None, sv_meta_questioner_srcs := [], sv_meta_known_answered := None\<rparr>)"
      using that by (simp add: queue_ok_def)
    then show ?thesis using that by (simp add: transmit_meta_def Let_def f split: sum.split prod.split option.split)
  qed
  have l: "queue_ok (snd (snd (transmit_legacy b t)))" if "queue_ok t" for t :: "('i, 'g, 'ev) service" and b
  proof (cases "sv_pending_legacy t")
    case (Cons x xs)
    then have "queue_ok (t\<lparr>sv_pending_legacy := xs\<rparr>)" using that by (simp add: queue_ok_def)
    then show ?thesis using that Cons by (simp add: transmit_legacy_def Let_def case_prod_beta f split: sum.split)
  qed (simp add: transmit_legacy_def that)
  have p: "queue_ok (snd (snd (transmit_pending now b k t)))" if "queue_ok t" for t :: "('i, 'g, 'ev) service" and b k
    using that pop_pending_queue [OF that] queue_ok_more(5) [OF pop_pending_queue [OF that]]
    by (cases k) (simp_all add: transmit_pending_def Let_def f split: sum.split prod.split)
  obtain a b1 s1 where s1: "transmit_meta now buf s = (a, b1, s1)" by (cases "transmit_meta now buf s")
  obtain c b2 s2 where s2: "transmit_legacy b1 s1 = (c, b2, s2)" by (cases "transmit_legacy b1 s1")
  have q: "queue_ok s1" "queue_ok s2" using m [OF assms, of buf] l [of s1 b1] by (simp_all add: s1 s2)
  then show ?thesis using assms p [OF q(2)] by (simp add: service_poll_transmit_def s1 s2 split: option.split)
qed


lemma rest_queue:
  assumes "queue_ok s"
  shows "queue_ok (snd (service_poll evs s))" "queue_ok (defer_first_probe_under_flood clk now flood s)"
    "queue_ok (quiesce_for_withdrawal s)" "queue_ok (snd (take_rename_goodbye_handoff s))"
proof -
  show "queue_ok (snd (service_poll evs s))"
    by (rule queue_ok_keep [OF _ assms]) (simp add: service_poll_def split: list.split prod.split)
  have "queue_ok ((snd (pop_pending s))\<lparr>sv_lifecycle_deadline := d\<rparr>)" for d
    by (rule queue_ok_keep [OF _ pop_pending_queue [OF assms]]) simp
  then show "queue_ok (defer_first_probe_under_flood clk now flood s)"
    using assms pop_pending_queue [OF assms] by (simp add: defer_first_probe_under_flood_def split: option.split)
  have "queue_ok (s\<lparr>sv_pending_transmits := (None, None), sv_lifecycle_deadline := None, sv_response_deadline := None\<rparr>)"
    using assms by (simp add: queue_ok_def)
  then show "queue_ok (quiesce_for_withdrawal s)" unfolding quiesce_for_withdrawal_def by (rule clear_response_cycle_queue)
  show "queue_ok (snd (take_rename_goodbye_handoff s))"
    by (rule queue_ok_keep [OF _ assms]) (simp add: take_rename_goodbye_handoff_def)
qed

lemma confirm_queue: "queue_ok s \<Longrightarrow> queue_ok (snd (service_note_transmit_outcome clk draw evs now v4 v6 s))"
proof -
  assume q: "queue_ok s"
  have "queues (snd (service_note_transmit_outcome clk draw evs now v4 v6 s)) = queues s"
    by (simp add: service_note_transmit_outcome_def Let_def settle_confirm_queues split: option.split)
  then show ?thesis using q by (rule queue_ok_keep)
qed

lemma run_queue: "queue_ok s \<Longrightarrow> queue_ok (service_run clk draw evs inp s)"
  by (cases inp) (simp_all add: timeout_queue event_queue transmit_queue confirm_queue rest_queue)

lemma state_ok_run: "state_ok (sv_state s) \<Longrightarrow> state_ok (sv_state (service_run clk draw evs inp s))"
proof -
  assume ok: "state_ok (sv_state s)"
  have n: "state_ok (timer_next st)" "state_ok (probe_next a st)" "state_ok (announce_next a st)" if "state_ok st" for st a
    using that by (cases st; simp add: state_ok_def probe_next_def announce_next_def)+
  have "\<forall>st\<in>lifecycle_next inp s. state_ok st"
    using n [OF ok] ok
    by (cases inp) (auto simp: state_ok_def split: option.split awaiting_confirm.split)
  then show ?thesis using run_lifecycle by blast
qed

lemma service_ok_new: "service_ok (service_try_new clk draw evs h records now rng probe re_announce flood)"
proof -
  have "state_ok (sv_state (service_try_new clk draw evs h records now rng probe re_announce flood))"
    by (simp add: service_try_new_def Let_def case_prod_beta state_ok_def)
  moreover have "queue_ok (service_try_new clk draw evs h records now rng probe re_announce flood)"
    by (simp add: service_try_new_def Let_def case_prod_beta queue_ok_def KAS_RING_SIZE_def)
  ultimately show ?thesis by (simp add: service_ok_def goodbye_new)
qed

text \<open>
  C16. In every reachable state of a service its state is bounded: at most eight legacy replies, eight
  distinct questioners of each kind, sixteen known-answer hints with the cursor among them, a queue without
  gaps, a probe count of at most three and an announcement count of at most one, and an account of the
  goodbye in which each address stands once, with a family that heard it.
\<close>

theorem service_invariant: "alive clk draw evs s \<Longrightarrow> service_ok s"
  by (induction rule: alive.induct) (simp_all add: service_ok_new, simp add: service_ok_def run_queue state_ok_run account_run)

lemma service_invariant_witness: "length (sv_pending_legacy quick_told) \<le> 8"
  using service_invariant [OF quick_told_alive] by (simp add: service_ok_def queue_ok_def MAX_LEGACY_RESPONSES_def)

end
