(* ===== verification/ServiceQuiet.thy ===== *)
theory ServiceQuiet
  imports ServiceBounds
begin

text \<open>
  The two ways a service comes to rest and the limit on how fast it may start over: a name given up is never
  spoken of again, a timer fails only when the clock cannot express a wait, and under the conflict
  limit the first probe of a sequence keeps its distance.
\<close>

subsection \<open>A name given up\<close>

definition given_up :: "('i, 'g, 'ev) service \<Rightarrow> bool" where
  "given_up s \<longleftrightarrow> sv_state s = Conflicting \<and> sv_pending_transmits s = (None, None) \<and> \<not> sv_probe_defeated s \<and>
     \<not> sv_tiebreak_lost s \<and> sv_lifecycle_deadline s = None \<and> sv_response_deadline s = None \<and> sv_pending_legacy s = [] \<and>
     sv_meta_response_deadline s = None"

lemma given_up_fields [simp]:
  "given_up (s\<lparr>sv_last_now := a\<rparr>) = given_up s" "given_up (s\<lparr>sv_awaiting_confirm := b\<rparr>) = given_up s"
  "given_up (s\<lparr>sv_goodbye := g\<rparr>) = given_up s" "given_up (s\<lparr>sv_generation_advertised := p\<rparr>) = given_up s"
  "given_up (s\<lparr>sv_partial_announce_streak := n\<rparr>) = given_up s" "given_up (s\<lparr>sv_fully_announced := p\<rparr>) = given_up s"
  "given_up (s\<lparr>sv_rename_goodbye_handoff := h\<rparr>) = given_up s" "given_up (s\<lparr>sv_partial_rounds := pr\<rparr>) = given_up s"
  "given_up (s\<lparr>sv_last_delivered := ld\<rparr>) = given_up s" "given_up (s\<lparr>sv_probe_on_wire := p\<rparr>) = given_up s"
  "given_up (s\<lparr>sv_flood_eligibility := fe\<rparr>) = given_up s" "given_up (s\<lparr>sv_pending_updates := pu\<rparr>) = given_up s"
  "given_up (s\<lparr>sv_kas_hints := kh\<rparr>) = given_up s" "given_up (push_update evs u s) = given_up s"
  by (simp_all add: given_up_def push_update_def)

lemma given_up_confirm: "given_up s \<Longrightarrow> given_up (settle_confirm clk draw evs now kind d s)"
proof -
  assume g: "given_up s"
  have st: "given_up t \<Longrightarrow> sv_state t = Conflicting" for t :: "('a, 'b, 'c) service" by (simp add: given_up_def)
  show ?thesis
  proof (cases kind)
    case AC_Probe
    show ?thesis using g unfolding AC_Probe by (simp add: settle_confirm_def settle_probe_def st)
  next
    case (AC_Announcement e)
    obtain adv s1 where c: "classify_announcement now d s = (adv, s1)" by (cases "classify_announcement now d s")
    have s1: "given_up s1" using g c by (auto simp: classify_announcement_def split: prod.splits)
    then show ?thesis unfolding AC_Announcement
      by (simp add: settle_confirm_def settle_announcement_def c Let_def st arm_announcement_def bump_streak_def advance_announcing_def)
  next
    case (AC_Response e n cls)
    then show ?thesis using g by (simp add: settle_confirm_def settle_response_def)
  next
    case AC_MetaResponse
    then show ?thesis using g by (simp add: settle_confirm_def)
  next
    case (AC_Stale f r)
    then show ?thesis using g by (simp add: settle_confirm_def settle_stale_def settle_old_name_def Let_def split: stale_records.split)
  qed
qed

lemma given_up_timeout: "given_up s \<Longrightarrow> given_up (snd (service_handle_timeout clk draw evs now flood taken s))"
  by (simp add: service_handle_timeout_code service_tick_def fire_response_def rearm_parked_def hold_first_probe_def
      fire_lifecycle_def startup_parked_def prune_hints_def given_up_def)

lemma given_up_checked: "given_up s \<Longrightarrow> given_up (eligibility_checked ev s)"
  by (simp add: eligibility_checked_def flood_eligible_def split: option.split prod.split)

lemma given_up_handle: "given_up s \<Longrightarrow> given_up (fst (handle_checked clk draw evs ev now flood s))"
proof -
  assume g: "given_up s"
  then have n: "\<not> is_preauthoritative s" "\<not> announced (sv_state s)" by (simp_all add: given_up_def is_preauthoritative_def)
  have "known_answer_event clk now ka s = s" for ka
    using g by (simp add: known_answer_event_def known_meta_answer_def given_up_def Let_def)
  moreover have "given_up (fst (host_conflict_event clk evs now hc (s, flood)))" for hc
    using g by (simp add: host_conflict_event_def Let_def case_prod_beta flood_eligible_def split: option.split prod.split)
  ultimately show ?thesis using g n by (simp add: handle_checked_def split: service_event.split)
qed

lemma given_up_transmit: "given_up s \<Longrightarrow> service_poll_transmit now buf s = (Inr None, buf, s)"
  by (simp add: service_poll_transmit_def transmit_meta_def transmit_legacy_def peek_pending_def given_up_def)

lemma given_up_run: "given_up s \<Longrightarrow> given_up (service_run clk draw evs inp s)"
proof (cases inp)
  case (In_Confirm now v4 v6)
  assume "given_up s"
  then show ?thesis unfolding In_Confirm
    by (simp add: service_note_transmit_outcome_def Let_def given_up_confirm split: option.split)
qed (simp_all add: given_up_timeout given_up_transmit service_handle_event_code given_up_handle given_up_checked service_poll_def
    defer_first_probe_under_flood_def peek_pending_def take_rename_goodbye_handoff_def,
   simp_all add: given_up_def quiesce_for_withdrawal_def clear_response_cycle_state_def split: list.split prod.split)

lemma given_up_runs: "given_up s \<Longrightarrow> given_up (foldl (\<lambda>s inp. service_run clk draw evs inp s) s inps)"
  by (induction inps arbitrary: s) (simp_all add: given_up_run)

lemma give_up_given_up: "\<not> sv_probe_defeated s \<Longrightarrow> \<not> sv_tiebreak_lost s \<Longrightarrow> given_up (give_up_name evs s)"
  by (simp add: give_up_name_def Let_def given_up_def clear_response_cycle_state_def push_update_def stale_live_commit_token_def)

lemma defeat_gives_up:
  assumes "sv_probe_defeated s" "snd (choose_name taken (as_str (sr_instance (sv_records s))) (sv_rename_attempt s)) = None"
  shows "given_up (snd (service_handle_timeout clk draw evs now flood taken s))"
proof -
  define u where "u = (prune_hints now (s\<lparr>sv_last_now := Some now\<rparr>))\<lparr>sv_probe_defeated := False, sv_tiebreak_lost := False\<rparr>"
  define w where "w = hand_off_goodbye u"
  have u: "sv_records w = sv_records s" "sv_rename_attempt w = sv_rename_attempt s" "\<not> sv_probe_defeated w" "\<not> sv_tiebreak_lost w"
    by (simp_all add: w_def u_def prune_hints_def hand_off_goodbye_def)
  have "snd (service_handle_timeout clk draw evs now flood taken s) = snd (lose_name clk draw evs now flood taken u)"
    unfolding service_handle_timeout_code u_def using assms(1) by simp
  also have "\<dots> = give_up_name evs (w\<lparr>sv_rename_attempt := fst (choose_name taken (as_str (sr_instance (sv_records s))) (sv_rename_attempt s))\<rparr>)"
    unfolding lose_name_def Let_def w_def [symmetric] u case_prod_beta using assms(2) by simp
  finally show ?thesis using u(3,4) by (simp add: give_up_given_up)
qed

text \<open>
  C19. A name given up stays given up.  When a defeated service finds no free name it never speaks again:
  whatever arrives afterwards, it is in conflict, wants no timer and sends nothing.
\<close>

theorem given_up_for_good:
  assumes "sv_probe_defeated s" "snd (choose_name taken (as_str (sr_instance (sv_records s))) (sv_rename_attempt s)) = None"
    "t = foldl (\<lambda>s inp. service_run clk draw evs inp s) (snd (service_handle_timeout clk draw evs now flood taken s)) inps"
  shows "sv_state t = Conflicting \<and> service_poll_timeout t = None \<and> service_poll_transmit now' buf t = (Inr None, buf, t)"
proof -
  have "given_up t" unfolding assms(3) by (rule given_up_runs [OF defeat_gives_up [OF assms(1,2)]])
  then show ?thesis using given_up_transmit [of t now' buf]
    by (simp add: given_up_def service_poll_timeout_def conflict_classified_unresolved_def startup_parked_def earlier_def)
qed


definition stuck_service :: "(smoltcp_instant, unit, (nat \<times> service_update) list) service" where
  "stuck_service = life_start\<lparr>sv_records := sr_new (Name []) (Name (replicate 63 97)) (Name []) 80 120, sv_probe_defeated := True\<rparr>"

lemma given_up_for_good_witness:
  "sv_state (foldl (\<lambda>s inp. service_run smoltcp_clock life_draw (list_slab :: life_pool) inp s)
     (snd (service_handle_timeout smoltcp_clock life_draw (list_slab :: life_pool) (SmoltcpInstant 5) flood_new [] stuck_service))
     [life_tick 600000, In_Transmit (SmoltcpInstant 600000) []]) = Conflicting"
proof -
  have "sv_probe_defeated stuck_service" by (simp add: stuck_service_def)
  moreover have "snd (choose_name [] (replicate 63 97) 0) = None" by code_simp
  then have "snd (choose_name [] (as_str (sr_instance (sv_records stuck_service))) (sv_rename_attempt stuck_service)) = None"
    by (simp only: stuck_service_def life_start_def service_try_new_def sr_new_def service.simps service_records.simps name.sel Let_def
        if_True case_prod_beta)
  ultimately show ?thesis using given_up_for_good [OF _ _ refl] by blast
qed

subsection \<open>When a timer fails\<close>

definition total_clock :: "'i clock \<Rightarrow> bool" where "total_clock clk \<longleftrightarrow> (\<forall>t d. cadd clk t d \<noteq> None)"

lemma draw_total: "total_clock clk \<Longrightarrow> n < 3 \<Longrightarrow> fst (draw_probe_deadline clk draw now n g) \<noteq> None"
  by (simp add: draw_probe_deadline_def probe_deadline_def total_clock_def split: prod.split)

lemma floor_total: "total_clock clk \<Longrightarrow> backoff_floor clk now flood s \<noteq> None"
  by (simp add: backoff_floor_def total_clock_def Let_def)

lemma apply_total: "total_clock clk \<Longrightarrow> dl \<noteq> None \<Longrightarrow> apply_backoff_floor clk now dl flood s \<noteq> None"
  using floor_total [of clk now flood s] by (auto simp: apply_backoff_floor_def split: option.split)

text \<open>Parked: unprobed, nothing on the wire, and no timer.\<close>

definition waits_for_room :: "('i, 'g, 'ev) service \<Rightarrow> bool" where
  "waits_for_room s \<longleftrightarrow> unprobed (sv_state s) \<and> sv_lifecycle_deadline s = None \<and> \<not> sv_probe_on_wire s"

lemma restart_fails:
  assumes "fst (restart_probe_cycle clk now dl rf flood s) = Inl e"
  shows "e = TimeoutOverflow" "waits_for_room (snd (restart_probe_cycle clk now dl rf flood s))"
    "dl = None \<or> \<not> total_clock clk"
proof -
  define v where "v = (clear_response_cycle_state ((stale_live_commit_token rf s)
      \<lparr>sv_state := St_Init, sv_probe_count := 0, sv_announce_count := 0, sv_probe_on_wire := False,
       sv_probe_defeated := False, sv_tiebreak_lost := False, sv_generation_advertised := False,
       sv_pending_transmits := (None, None), sv_response_deadline := None,
       sv_partial_rounds := (fp_default, fp_default)\<rparr>))\<lparr>sv_sequence_started_at := now\<rparr>"
  define a where "a = apply_backoff_floor clk now dl flood v"
  have r: "restart_probe_cycle clk now dl rf flood s = (if a = None then Inl TimeoutOverflow else Inr (), v\<lparr>sv_lifecycle_deadline := a\<rparr>)"
    by (simp add: restart_probe_cycle_def Let_def v_def a_def)
  then have "a = None" "e = TimeoutOverflow" using assms by (auto split: if_splits)
  then show "e = TimeoutOverflow" "waits_for_room (snd (restart_probe_cycle clk now dl rf flood s))"
    by (simp_all add: r waits_for_room_def) (simp add: v_def clear_response_cycle_state_def)
  show "dl = None \<or> \<not> total_clock clk" using apply_total [of clk dl now flood v] \<open>a = None\<close> by (auto simp: a_def)
qed

lemma lose_name_fails:
  assumes "fst (lose_name clk draw evs now flood taken s) = Inl e"
  shows "e = TimeoutOverflow \<and> waits_for_room (snd (lose_name clk draw evs now flood taken s)) \<and> \<not> total_clock clk"
proof -
  define w where "w = (hand_off_goodbye s)\<lparr>sv_rename_attempt := fst (choose_name taken (as_str (sr_instance (sv_records (hand_off_goodbye s))))
      (sv_rename_attempt (hand_off_goodbye s)))\<rparr>"
  obtain n where n: "lose_name clk draw evs now flood taken s = rename_to clk draw evs now flood n w"
    using assms unfolding lose_name_def Let_def case_prod_beta w_def by (auto split: option.splits)
  let ?dl = "fst (draw_probe_deadline clk draw now 0 (sv_rng w))"
  let ?r = "restart_probe_cycle clk now ?dl (Some (sv_records w)) flood (w\<lparr>sv_rng := snd (draw_probe_deadline clk draw now 0 (sv_rng w))\<rparr>)"
  have r: "fst (rename_to clk draw evs now flood n w) = fst ?r"
    "waits_for_room (snd (rename_to clk draw evs now flood n w)) = waits_for_room (snd ?r)"
    unfolding rename_to_def Let_def case_prod_beta
    by (simp_all add: waits_for_room_def push_update_def reset_advertised_name_state_def)
  have "fst ?r = Inl e" using assms r(1) n by simp
  from restart_fails [OF this] draw_total [of clk 0 draw now "sv_rng w"] show ?thesis unfolding n r by auto
qed

lemma fire_lifecycle_parks:
  assumes "total_clock clk" "sv_lifecycle_deadline (fire_lifecycle clk draw now s) = None" "unprobed (sv_state (fire_lifecycle clk draw now s))"
  shows "fire_lifecycle clk draw now s = s"
proof (cases "case sv_lifecycle_deadline s of None \<Rightarrow> False | Some due \<Rightarrow> due \<le> now")
  case False
  then show ?thesis by (auto simp: fire_lifecycle_def split: option.split)
next
  case True
  then obtain due where due: "sv_lifecycle_deadline s = Some due" "\<not> now < due" by (auto split: option.splits)
  have d: "\<exists>d g'. draw_probe_deadline clk draw now n g = (Some d, g')" if "n < 3" for n g
    using draw_total [OF assms(1) that, of draw now g] by (cases "draw_probe_deadline clk draw now n g") auto
  show ?thesis
  proof (cases "sv_state s")
    case St_Init
    obtain d g where "draw_probe_deadline clk draw now 0 (sv_rng s) = (Some d, g)" using d [of 0 "sv_rng s"] by auto
    then show ?thesis using assms(2) due St_Init by (simp add: fire_lifecycle_def)
  next
    case (Probing n)
    show ?thesis
    proof (cases "3 \<le> n")
      case True
      then show ?thesis using assms(3) due Probing by (simp add: fire_lifecycle_def)
    next
      case False
      obtain d g where "draw_probe_deadline clk draw now n (sv_rng (push_lifecycle_pending PT_Probe s)) = (Some d, g)"
        using d [of n "sv_rng (push_lifecycle_pending PT_Probe s)"] False by auto
      then show ?thesis using assms(2) due Probing False by (simp add: fire_lifecycle_def Let_def)
    qed
  qed (use assms(3) due in \<open>simp_all add: fire_lifecycle_def push_lifecycle_pending_life\<close>)
qed

lemma hold_parked:
  assumes "fst (hold_first_probe clk now flood s)"
  shows "waits_for_room (snd (hold_first_probe clk now flood s)) \<and> \<not> total_clock clk"
  using assms floor_total [of clk now flood s]
  by (auto simp: hold_first_probe_def waits_for_room_def split: option.splits if_splits)

lemma hold_keeps_deadline: "\<not> fst (hold_first_probe clk now flood s) \<Longrightarrow> sv_lifecycle_deadline s \<noteq> None \<Longrightarrow>
    sv_lifecycle_deadline (snd (hold_first_probe clk now flood s)) \<noteq> None"
  by (auto simp: hold_first_probe_def split: option.splits if_splits)

lemma parked_frame:
  "sv_pending_transmits (snd (hold_first_probe clk now flood s)) = sv_pending_transmits s"
  "sv_awaiting_confirm (snd (hold_first_probe clk now flood s)) = sv_awaiting_confirm s"
  "sv_probe_on_wire (snd (hold_first_probe clk now flood s)) = sv_probe_on_wire s"
  "sv_state (snd (hold_first_probe clk now flood s)) = sv_state s"
  by (simp_all add: hold_first_probe_def split: option.split)

lemma rearm_unparks: "total_clock clk \<Longrightarrow> \<not> startup_parked (rearm_parked clk draw now flood s)"
proof (cases "startup_parked s")
  case True
  assume "total_clock clk"
  then have "sv_lifecycle_deadline (rearm_parked clk draw now flood s) \<noteq> None"
    using True unfolding rearm_parked_def Let_def case_prod_beta by (simp add: apply_total draw_total del: not_None_eq)
  then show ?thesis by (simp add: startup_parked_def)
qed (simp add: rearm_parked_def)

lemma push_pending_frame:
  "sv_pending_transmits (push_pending kind s) \<noteq> (None, None)" "sv_lifecycle_deadline (push_pending kind s) = sv_lifecycle_deadline s"
  by (auto simp: push_pending_def split: option.splits prod.splits)

lemma tick_fails:
  assumes "fst (service_tick clk draw now flood s) = Inl e"
  shows "e = TimeoutOverflow \<and> waits_for_room (snd (service_tick clk draw now flood s)) \<and> \<not> total_clock clk"
proof -
  obtain fired s1 where f: "fire_response now s = (fired, s1)" by (cases "fire_response now s")
  define s2 where "s2 = rearm_parked clk draw now flood s1"
  obtain parked s3 where h: "hold_first_probe clk now flood s2 = (parked, s3)" by (cases "hold_first_probe clk now flood s2")
  define s4 where "s4 = fire_lifecycle clk draw now s3"
  define s5 where "s5 = (if fired then push_pending PT_Response s4 else s4)"
  have t: "service_tick clk draw now flood s = (if parked \<or> startup_parked s5 then Inl TimeoutOverflow else Inr (), s5)"
    unfolding service_tick_def Let_def f prod.case s2_def [symmetric] h s4_def s5_def ..
  have fr: "waits_for_room s5 = waits_for_room s4"
    by (simp add: s5_def waits_for_room_def push_pending_def split: option.split prod.split)
  from assms t have "e = TimeoutOverflow" "parked \<or> startup_parked s5" by (auto split: if_splits)
  moreover have "waits_for_room s5 \<and> \<not> total_clock clk" if parked
  proof -
    from that have "waits_for_room s3 \<and> \<not> total_clock clk" using hold_parked [of clk now flood s2] by (simp add: h)
    then show ?thesis unfolding fr by (simp add: s4_def fire_lifecycle_def waits_for_room_def)
  qed
  moreover have "waits_for_room s5 \<and> \<not> total_clock clk" if n: "\<not> parked" "startup_parked s5"
  proof -
    have s5: "s5 = s4" using n(2) push_pending_frame(1) [of PT_Response s4] by (auto simp: s5_def startup_parked_def)
    have "\<not> total_clock clk"
    proof
      assume c: "total_clock clk"
      have "s4 = s3" using n(2) fire_lifecycle_parks [OF c, of draw now s3] unfolding s5 by (simp add: s4_def startup_parked_def)
      then have "startup_parked s3" using n(2) s5 by simp
      then have "startup_parked s2" using hold_keeps_deadline [of clk now flood s2] parked_frame [of clk now flood s2] n(1)
        by (cases "sv_lifecycle_deadline s2") (auto simp: h startup_parked_def)
      then show False using rearm_unparks [OF c, of draw now flood s1] by (simp add: s2_def)
    qed
    then show ?thesis using n(2) by (simp add: waits_for_room_def startup_parked_def)
  qed
  ultimately show ?thesis unfolding t by auto
qed

text \<open>
  C18. The timer has one way to fail.  It returns an error only when the clock cannot express some wait, the
  error is the overflow, and the service is then held back safely: it has neither claimed nor probed
  under the name, and no timer is armed.
\<close>

theorem timeout_error:
  assumes "fst (service_handle_timeout clk draw evs now flood taken s) = Inl e"
  shows "e = TimeoutOverflow \<and> (\<exists>t d. cadd clk t d = None) \<and>
    waits_for_room (snd (service_handle_timeout clk draw evs now flood taken s))"
proof -
  define u where "u = (prune_hints now (s\<lparr>sv_last_now := Some now\<rparr>))\<lparr>sv_probe_defeated := False, sv_tiebreak_lost := False\<rparr>"
  have r: "cadd clk now TIEBREAK_DEFER_WAIT = None \<Longrightarrow> \<not> total_clock clk" by (auto simp: total_clock_def)
  have "e = TimeoutOverflow \<and> waits_for_room (snd (service_handle_timeout clk draw evs now flood taken s)) \<and> \<not> total_clock clk"
  proof (cases "sv_probe_defeated s")
    case True
    then show ?thesis using assms lose_name_fails [of clk draw evs now flood taken u]
      unfolding service_handle_timeout_code u_def [symmetric] by simp
  next
    case False
    then show ?thesis using assms tick_fails [of clk draw now flood "prune_hints now (s\<lparr>sv_last_now := Some now\<rparr>)"] restart_fails [of clk now "cadd clk now TIEBREAK_DEFER_WAIT" None flood u] r
      unfolding service_handle_timeout_code u_def [symmetric] by (cases "sv_tiebreak_lost s") auto
  qed
  then show ?thesis by (auto simp: total_clock_def)
qed


definition late_service :: "(smoltcp_instant, unit, (nat \<times> service_update) list) service" where
  "late_service = life_start\<lparr>sv_tiebreak_lost := True\<rparr>"

lemma timeout_error_witness:
  "waits_for_room (snd (service_handle_timeout smoltcp_clock life_draw (list_slab :: life_pool)
     (SmoltcpInstant 9223372036854775807) flood_new [] late_service))"
proof -
  have "fst (service_handle_timeout smoltcp_clock life_draw (list_slab :: life_pool)
     (SmoltcpInstant 9223372036854775807) flood_new [] late_service) = Inl TimeoutOverflow"
    by code_simp
  from timeout_error [OF this] show ?thesis by simp
qed


subsection \<open>The conflict limit holds the first probe back\<close>

lemma meta_token:
  "fst (transmit_meta now buf s) \<noteq> None \<Longrightarrow> sv_awaiting_confirm (snd (snd (transmit_meta now buf s))) = Some AC_MetaResponse"
  "sv_pending_transmits (snd (snd (transmit_meta now buf s))) = sv_pending_transmits s"
  by (auto simp: transmit_meta_def Let_def split: option.splits sum.splits prod.splits if_splits)

lemma legacy_token:
  "fst (transmit_legacy buf s) \<noteq> None \<Longrightarrow> sv_awaiting_confirm (snd (snd (transmit_legacy buf s))) \<noteq> Some AC_Probe"
  "sv_pending_transmits (snd (snd (transmit_legacy buf s))) = sv_pending_transmits s"
  by (auto simp: transmit_legacy_def Let_def split: list.splits option.splits sum.splits prod.splits if_splits)

lemma probe_token: "sv_awaiting_confirm (snd (snd (transmit_pending now buf kind s))) = Some AC_Probe \<Longrightarrow>
    fst (transmit_pending now buf kind s) = Inr (Some tr) \<Longrightarrow> kind = PT_Probe"
  by (cases kind) (auto simp: transmit_pending_def Let_def split: sum.splits prod.splits if_splits)

lemma probe_sent_peek:
  assumes "service_poll_transmit now buf s = (Inr (Some tr), out, t)" "sv_awaiting_confirm t = Some AC_Probe"
  shows "peek_pending s = Some PT_Probe"
proof -
  obtain a b1 s1 where s1: "transmit_meta now buf s = (a, b1, s1)" by (cases "transmit_meta now buf s")
  obtain c b2 s2 where s2: "transmit_legacy b1 s1 = (c, b2, s2)" by (cases "transmit_legacy b1 s1")
  have q: "peek_pending s2 = peek_pending s"
    using meta_token(2) [of now buf s] legacy_token(2) [of b1 s1] by (simp add: s1 s2 peek_pending_def)
  show ?thesis
  proof (cases "a = None \<and> c = None")
    case True
    then obtain k where k: "peek_pending s2 = Some k" "transmit_pending now b2 k s2 = (Inr (Some tr), out, t)"
      using assms(1) by (auto simp: service_poll_transmit_def s1 s2 split: option.splits if_splits)
    then show ?thesis using probe_token [of now b2 k s2 tr] assms(2) q by simp
  next
    case False
    then have "sv_awaiting_confirm t \<noteq> Some AC_Probe"
      using assms(1) meta_token(1) [of now buf s] legacy_token(1) [of b1 s1]
      by (auto simp: service_poll_transmit_def s1 s2 split: option.splits if_splits)
    then show ?thesis using assms(2) by simp
  qed
qed

lemma floor_anchor: "latch_epoch clk now flood = Some e \<Longrightarrow>
    backoff_floor clk now flood s = cadd clk (max (sv_sequence_started_at s) e) CONFLICT_BACKOFF_MIN_WAIT"
  by (simp add: backoff_floor_def max_def leD)

lemma popped_peek:
  assumes "sv_pending_transmits s \<noteq> (Some PT_Probe, Some PT_Probe)" "peek_pending s = Some PT_Probe"
  shows "peek_pending (snd (pop_pending s)) \<noteq> Some PT_Probe"
  using assms by (cases "sv_pending_transmits s") (auto simp: pop_pending_def peek_pending_def)

text \<open>
  C17. Under the conflict limit the first probe of a sequence goes out only five seconds after both the
  sequence was started and the limit took hold, also when it had been queued before: the check at the
  outbox drops a probe that is early.  The one exception is a service with two probes queued, of which
  the check drops one.
\<close>

theorem first_probe_distance:
  assumes "service_poll_transmit now buf (defer_first_probe_under_flood clk now flood s) = (Inr (Some tr), out, t)"
    "sv_awaiting_confirm t = Some AC_Probe" "latch_epoch clk now flood = Some e" "\<not> sv_probe_on_wire s"
  shows "(\<exists>floor. cadd clk (max (sv_sequence_started_at s) e) (secs 5) = Some floor \<and> floor \<le> now) \<or>
    sv_pending_transmits s = (Some PT_Probe, Some PT_Probe)"
proof -
  let ?d = "defer_first_probe_under_flood clk now flood s"
  have a: "sv_awaiting_confirm ?d = None" using transmit_waits(1) [of now buf ?d tr] assms(1) by simp
  have p: "peek_pending ?d = Some PT_Probe" by (rule probe_sent_peek [OF assms(1,2)])
  have aw: "sv_awaiting_confirm ?d = sv_awaiting_confirm s"
    by (simp add: defer_first_probe_under_flood_def pop_pending_def split: option.split prod.split)
  have f: "in_force clk now flood" using assms(3) by (simp add: in_force_def)
  have pp: "peek_pending ((snd (pop_pending s))\<lparr>sv_lifecycle_deadline := x\<rparr>) = peek_pending (snd (pop_pending s))" for x
    by (simp add: peek_pending_def)
  show ?thesis
  proof (cases "peek_pending s = Some PT_Probe")
    case True
    then have d: "?d = (case backoff_floor clk now flood s of
        Some floor \<Rightarrow> if now < floor then (snd (pop_pending s))\<lparr>sv_lifecycle_deadline := Some floor\<rparr> else s
      | None \<Rightarrow> snd (pop_pending s))"
      using a aw f assms(4) by (simp add: defer_first_probe_under_flood_def)
    show ?thesis using p popped_peek [OF _ True] pp unfolding d floor_anchor [OF assms(3)] CONFLICT_BACKOFF_MIN_WAIT_def
      by (auto split: option.splits if_splits)
  next
    case False
    then have "?d = s" by (simp add: defer_first_probe_under_flood_def)
    with p False show ?thesis by simp
  qed
qed

text \<open>A limit that took hold when the probe was about to go, and a service that has queued it.\<close>

definition flooded :: "smoltcp_instant conflict_flood" where
  "flooded = \<lparr>fl_ring = (replicate CONFLICT_BURST_LEN None)[14 := Some (SmoltcpInstant 400000)], fl_slot = 0,
     fl_latched_at = Some (SmoltcpInstant 400000), fl_datagram = None, fl_accepted = []\<rparr>"

definition queued :: "smoltcp_instant service_input list \<Rightarrow> (smoltcp_instant, unit, (nat \<times> service_update) list) service" where
  "queued inps = foldl (\<lambda>s inp. service_run smoltcp_clock life_draw (list_slab :: life_pool) inp s) life_start inps"

lemma transmit_probe:
  assumes "probe_ready (In_Transmit now (replicate 64 0)) s"
  shows "\<exists>tr out t. service_poll_transmit now (replicate 64 0) s = (Inr (Some tr), out, t) \<and> sv_awaiting_confirm t = Some AC_Probe"
proof -
  obtain n u out where w: "write_probe life_records (replicate 64 0) = (Inr (n, u), out)"
    using life_probe_written
    by (cases "write_probe life_records (replicate 64 0)"; cases "fst (write_probe life_records (replicate 64 0))") auto
  have m: "transmit_meta now (replicate 64 0) s = (None, replicate 64 0, s)" "transmit_legacy (replicate 64 0) s = (None, replicate 64 0, s)"
    using assms by (simp_all add: probe_ready_def transmit_meta_def transmit_legacy_def)
  show ?thesis using assms by (simp add: service_poll_transmit_def m probe_ready_def transmit_pending_def Let_def w)
qed

lemma first_probe_distance_witness:
  "\<exists>floor. cadd smoltcp_clock (max (SmoltcpInstant 0) (SmoltcpInstant 400000)) (secs 5) = Some floor \<and> floor \<le> SmoltcpInstant 5400000"
proof -
  let ?s = "queued [life_tick 250000, life_tick 500000]"
  let ?d = "defer_first_probe_under_flood smoltcp_clock (SmoltcpInstant 5400000) flooded ?s"
  have "probe_ready (In_Transmit (SmoltcpInstant 5400000) (replicate 64 0)) ?d" by code_simp
  from transmit_probe [OF this] obtain tr out t
    where t: "service_poll_transmit (SmoltcpInstant 5400000) (replicate 64 0) ?d = (Inr (Some tr), out, t)"
      "sv_awaiting_confirm t = Some AC_Probe" by blast
  have l: "latch_epoch smoltcp_clock (SmoltcpInstant 5400000) flooded = Some (SmoltcpInstant 400000)" by code_simp
  have s: "\<not> sv_probe_on_wire ?s \<and> sv_sequence_started_at ?s = SmoltcpInstant 0" by code_simp
  have q: "sv_pending_transmits ?s = (Some PT_Probe, None)" by code_simp
  from first_probe_distance [OF t l conjunct1 [OF s]] s q show ?thesis by simp
qed

text \<open>
  C21. The check at the outbox looks at one queued probe only.  When a service has two of them queued - its
  timer fired twice before anything was taken out - and their five seconds have not passed, the check drops
  one and sets the timer to the end of the wait, and the other goes out at once.
\<close>

theorem second_probe_escapes:
  assumes "sv_pending_transmits s = (Some PT_Probe, Some PT_Probe)" "sv_awaiting_confirm s = None" "\<not> sv_probe_on_wire s"
    and "in_force clk now flood" "backoff_floor clk now flood s = Some floor" "now < floor"
    and "sv_meta_response_deadline s = None" "sv_pending_legacy s = []" "\<not> conflict_classified_unresolved s"
    and "write_probe (sv_records s) buf = (Inr (n, c), out)"
  shows "sv_pending_transmits (defer_first_probe_under_flood clk now flood s) = (Some PT_Probe, None) \<and>
    sv_lifecycle_deadline (defer_first_probe_under_flood clk now flood s) = Some floor \<and>
    (\<exists>tr t. service_poll_transmit now buf (defer_first_probe_under_flood clk now flood s) = (Inr (Some tr), out, t) \<and> sv_awaiting_confirm t = Some AC_Probe \<and>
       sv_pending_transmits t = (None, None))"
proof -
  define d where "d = defer_first_probe_under_flood clk now flood s"
  have d: "d = s\<lparr>sv_pending_transmits := (Some PT_Probe, None), sv_lifecycle_deadline := Some floor\<rparr>"
    using assms(1-6) by (simp add: d_def defer_first_probe_under_flood_def peek_pending_def pop_pending_def)
  have m: "transmit_meta now buf d = (None, buf, d)" "transmit_legacy buf d = (None, buf, d)"
    using assms(7,8) by (simp_all add: d transmit_meta_def transmit_legacy_def)
  have c: "\<not> conflict_classified_unresolved d" using assms(9) by (simp add: d conflict_classified_unresolved_def)
  have "service_poll_transmit now buf d = transmit_pending now buf PT_Probe d"
    using assms(2) c by (simp add: service_poll_transmit_def m) (simp add: d peek_pending_def)
  then show ?thesis using assms(10) unfolding d_def [symmetric] by (simp add: d transmit_pending_def pop_pending_def Let_def)
qed

text \<open>A reachable case: half a second after the limit took hold a service whose timer fired twice sends a probe.\<close>

definition twice_queued :: "(smoltcp_instant, unit, (nat \<times> service_update) list) service \<Rightarrow> bool" where
  "twice_queued s \<longleftrightarrow> sv_pending_transmits s = (Some PT_Probe, Some PT_Probe) \<and> sv_awaiting_confirm s = None \<and> \<not> sv_probe_on_wire s \<and>
     backoff_floor smoltcp_clock (SmoltcpInstant 1000000) flooded s = Some (SmoltcpInstant 5400000) \<and>
     sv_meta_response_deadline s = None \<and> sv_pending_legacy s = [] \<and> \<not> conflict_classified_unresolved s \<and> sv_records s = life_records"

lemma second_probe_escapes_witness:
  "\<exists>s tr out t. alive smoltcp_clock life_draw (list_slab :: life_pool) s \<and>
     backoff_floor smoltcp_clock (SmoltcpInstant 1000000) flooded s = Some (SmoltcpInstant 5400000) \<and>
     service_poll_transmit (SmoltcpInstant 1000000) (replicate 64 0)
       (defer_first_probe_under_flood smoltcp_clock (SmoltcpInstant 1000000) flooded s) = (Inr (Some tr), out, t) \<and>
     sv_awaiting_confirm t = Some AC_Probe"
proof -
  let ?s = "queued [life_tick 250000, life_tick 500000, life_tick 750000]"
  have "twice_queued ?s" by code_simp
  then have s: "sv_pending_transmits ?s = (Some PT_Probe, Some PT_Probe)" "sv_awaiting_confirm ?s = None" "\<not> sv_probe_on_wire ?s"
    and f: "backoff_floor smoltcp_clock (SmoltcpInstant 1000000) flooded ?s = Some (SmoltcpInstant 5400000)"
    and q: "sv_meta_response_deadline ?s = None" "sv_pending_legacy ?s = []" "\<not> conflict_classified_unresolved ?s"
    and r: "sv_records ?s = life_records" by (simp_all only: twice_queued_def simp_thms)
  have i: "in_force smoltcp_clock (SmoltcpInstant 1000000) flooded" "SmoltcpInstant 1000000 < SmoltcpInstant 5400000" by code_simp+
  obtain n u out where w: "write_probe (sv_records ?s) (replicate 64 0) = (Inr (n, u), out)"
    using life_probe_written unfolding r
    by (cases "write_probe life_records (replicate 64 0)"; cases "fst (write_probe life_records (replicate 64 0))") auto
  have "alive smoltcp_clock life_draw (list_slab :: life_pool) ?s"
    unfolding queued_def life_start_def by (rule alive_runs [OF alive_new])
  with second_probe_escapes [OF s i(1) f i(2) q w] f show ?thesis by blast
qed

end
