(* ===== verification/Endpoint.thy ===== *)
theory Endpoint
  imports ServiceTick Cache Matching Admits
begin

text \<open>
  The endpoint (\<open>endpoint/mod.rs\<close>): the routes of its services, the goodbyes under way, what it recently
  gave up, and the state that ties them together.  Pools and random generators are arguments of the
  operations that use them; scratch storage and test instrumentation are left out.
\<close>

subsection \<open>Withdrawal data\<close>

definition WITHDRAWAL_SENDS :: nat where "WITHDRAWAL_SENDS = 3"
definition WITHDRAWAL_INTERVAL :: nat where "WITHDRAWAL_INTERVAL = millis 250"
definition WITHDRAWAL_RETRY_BACKOFF :: nat where "WITHDRAWAL_RETRY_BACKOFF = millis 20"
definition WITHDRAWAL_CEILING :: nat where "WITHDRAWAL_CEILING = secs 2"

datatype withdrawal_send = WS_Sent | WS_Retry | WS_WriteOff

fun ws_project :: "'i family_attempt \<Rightarrow> withdrawal_send" where
  "ws_project (Accepted _) = WS_Sent"
| "ws_project (Refused _) = WS_Retry"
| "ws_project WouldBlock = WS_Retry"
| "ws_project GateShut = WS_Retry"
| "ws_project NotAddressed = WS_Retry"
| "ws_project NoSocket = WS_WriteOff"

datatype withdrawal_token = WithdrawalToken nat

record family_debt =
  fd_v4 :: bool
  fd_v6 :: bool

definition family_debt_new :: "nat \<times> nat \<Rightarrow> family_debt" where
  "family_debt_new owed = \<lparr>fd_v4 = (0 < fst owed), fd_v6 = (0 < snd owed)\<rparr>"

record withdrawal_transmit =
  wt_dst :: socket_addr
  wt_len :: nat
  wt_token :: withdrawal_token
  wt_debt :: family_debt

record 'i withdrawal_item =
  wi_records :: service_records
  wi_owned :: "emitted_records \<times> emitted_records"
  wi_multicast :: "emitted_records \<times> emitted_records"
  wi_owed :: "nat \<times> nat"
  wi_next_at :: 'i
  wi_ceiling_at :: 'i
  wi_final_attempt :: bool
  wi_route :: "service_handle option"
  wi_holds_name :: bool

subsection \<open>What was given up\<close>

record 'i relinquished =
  rq_records :: service_records
  rq_emitted :: "emitted_records \<times> emitted_records"
  rq_expires_at :: 'i

record 'i relinquished_identity =
  ri_owner :: name
  ri_rtype :: resource_type
  ri_rdata :: bytes
  ri_expires_at :: "'i option \<times> 'i option"

subsection \<open>Routes and the endpoint\<close>

record ('i, 'g, 'ev) service_route =
  rt_proto :: "('i, 'g, 'ev) service"
  rt_service_type :: name
  rt_name :: name
  rt_host :: name
  rt_handle :: service_handle
  rt_a_addrs :: "bytes list"
  rt_aaaa_addrs :: "bytes list"
  rt_aaaa_scopes :: "u32 list"
  rt_subtypes :: "name list"
  rt_advertised_a :: "bytes list"
  rt_advertised_aaaa :: "bytes list"
  rt_withdrawing :: bool

text \<open>\<open>route_publishes_host_rtype\<close> (\<open>endpoint/matching.rs\<close>)\<close>

definition route_publishes_host_rtype :: "('i, 'g, 'ev) service_route \<Rightarrow> resource_type \<Rightarrow> bool" where
  "route_publishes_host_rtype route rtype =
     (case rtype of RT_A \<Rightarrow> rt_a_addrs route \<noteq> [] | RT_AAAA \<Rightarrow> rt_aaaa_addrs route \<noteq> [] | _ \<Rightarrow> False)"

record ('i, 'r, 'c, 'sp, 'qp, 'ep) endpoint =
  ep_config :: endpoint_config
  ep_rng :: 'r
  ep_services :: 'sp
  ep_queries :: 'qp
  ep_cache :: "'c cache"
  ep_pending_events :: 'ep
  ep_next_service_handle :: nat
  ep_next_query_handle :: nat
  ep_next_txid :: u16
  ep_datagram_seq :: u64
  ep_flood :: "'i conflict_flood"
  ep_withdrawals :: "(withdrawal_token \<times> 'i withdrawal_item) list"
  ep_next_withdrawal_token :: nat
  ep_relinquished :: "'i relinquished list"
  ep_relinquished_identities :: "'i relinquished_identity list"

type_synonym ('i, 'g, 'ev, 'sp, 'se) route_pool = "(('i, 'g, 'ev) service_route, 'sp, 'se) pool_ops"

definition endpoint_try_new ::
  "('r \<Rightarrow> u32 \<times> 'r) \<Rightarrow> (('i, 'g, 'ev) service_route, 'sp, 'se) pool_ops \<Rightarrow> (('i, 'an, 'qe) query, 'qp, 'qf) pool_ops \<Rightarrow>
     ('i, 'c, 'ce) entry_pool \<Rightarrow> (endpoint_event, 'ep, 'ee) pool_ops \<Rightarrow> endpoint_config \<Rightarrow> 'r \<Rightarrow>
     ('i, 'r, 'c, 'sp, 'qp, 'ep) endpoint" where
  "endpoint_try_new next_u32 srv qry ents evs config rng =
     (let (w, rng) = next_u32 rng; raw_txid = (ucast w :: u16); next_txid = (if raw_txid = 0 then 1 else raw_txid) in
      \<lparr>ep_config = config, ep_rng = rng, ep_services = pl_new srv, ep_queries = pl_new qry, ep_cache = cache_new ents,
       ep_pending_events = pl_new evs, ep_next_service_handle = 0, ep_next_query_handle = 0, ep_next_txid = next_txid,
       ep_datagram_seq = 0, ep_flood = flood_new, ep_withdrawals = [], ep_next_withdrawal_token = 0,
       ep_relinquished = [], ep_relinquished_identities = []\<rparr>)"

text \<open>The first route or key that passes a test: \<open>iter().find\<close>.\<close>

definition first_key :: "('v, 'p, 'e) pool_ops \<Rightarrow> ('v \<Rightarrow> bool) \<Rightarrow> 'p \<Rightarrow> nat option" where
  "first_key ops P p = map_option fst (find (\<lambda>(_, v). P v) (pl_iter ops p))"

definition service_key :: "('i, 'g, 'ev, 'sp, 'se) route_pool \<Rightarrow> service_handle \<Rightarrow> ('i, 'r, 'c, 'sp, 'qp, 'ep) endpoint \<Rightarrow> nat option" where
  "service_key srv handle ep = first_key srv (\<lambda>route. rt_handle route = handle) (ep_services ep)"

text \<open>The route of a handle, and an assignment to it.\<close>

definition put_route :: "('i, 'g, 'ev, 'sp, 'se) route_pool \<Rightarrow> nat \<Rightarrow> ('i, 'g, 'ev) service_route \<Rightarrow>
    ('i, 'r, 'c, 'sp, 'qp, 'ep) endpoint \<Rightarrow> ('i, 'r, 'c, 'sp, 'qp, 'ep) endpoint" where
  "put_route srv key route ep = ep\<lparr>ep_services := pl_put srv (ep_services ep) key route\<rparr>"

subsection \<open>A concrete endpoint\<close>

text \<open>Over slabs and a generator that yields zero; the subject of witnesses.\<close>

type_synonym 'v slab = "('v, (nat \<times> 'v) list, unit) pool_ops"
type_synonym slab_service = "(smoltcp_instant, unit, (nat \<times> service_update) list) service"
type_synonym slab_route = "(smoltcp_instant, unit, (nat \<times> service_update) list) service_route"
type_synonym slab_query = "(smoltcp_instant, (nat \<times> collected_answer) list, (nat \<times> query_update) list) query"
type_synonym slab_endpoint = "(smoltcp_instant, unit, (nat \<times> smoltcp_instant cache_entry) list, (nat \<times> slab_route) list,
  (nat \<times> slab_query) list, (nat \<times> endpoint_event) list) endpoint"

definition quiet_rng :: "unit \<Rightarrow> u32 \<times> unit" where "quiet_rng g = (0, ())"

definition fresh_endpoint :: slab_endpoint where
  "fresh_endpoint = endpoint_try_new quiet_rng list_slab list_slab list_slab list_slab config_new ()"

end
