(* ===== verification/Relinquished.thy ===== *)
theory Relinquished
  imports Endpoint
begin

text \<open>
  The screen of records this endpoint gave up recently (\<open>endpoint/relinquished.rs\<close>): an echo of one of
  them is not a conflict.  A bounded table of whole record sets, and a second one of single records
  for what the first has no room for.
\<close>

definition MAX_RELINQUISHED_RRSETS :: nat where "MAX_RELINQUISHED_RRSETS = 128"
definition MAX_RELINQUISHED_IDENTITIES :: nat where "MAX_RELINQUISHED_IDENTITIES = 512"

subsection \<open>Single records\<close>

definition identities :: "service_records \<Rightarrow> emitted_records \<Rightarrow> (name \<times> resource_type \<times> bytes) list" where
  "identities records e =
     map (\<lambda>ip. (sr_host records, RT_A, ip)) (em_a e) @
     map (\<lambda>ip. (sr_host records, RT_AAAA, ip)) (em_aaaa e) @
     concat (map (\<lambda>rtype. if \<not> instance_rtype_exposed e rtype then []
         else map (\<lambda>form. (sr_instance records, rtype, form)) (transmitted_rdata_forms records rtype))
       INSTANCE_CANONICAL_RTYPES)"

definition identity_asserts ::
  "'i :: linorder relinquished_identity \<Rightarrow> record_ref \<Rightarrow> bytes option \<Rightarrow> 'i \<Rightarrow> family \<Rightarrow> record_section \<Rightarrow> bool" where
  "identity_asserts identity r peer now fam sec \<longleftrightarrow>
     (case pick fam (ri_expires_at identity) of Some expires_at \<Rightarrow> now < expires_at | None \<Rightarrow> False) \<and>
     rr_rclass r = Class_In \<and> transmitted_envelope (rr_rtype r) sec (rr_cache_flush r) \<and>
     rr_rtype r = ri_rtype identity \<and> names_match_record (ri_owner identity) r \<and> peer = Some (ri_rdata identity)"

definition identity_live :: "'i :: linorder relinquished_identity \<Rightarrow> 'i \<Rightarrow> bool" where
  "identity_live identity now \<longleftrightarrow>
     (case fst (ri_expires_at identity) of Some t \<Rightarrow> now < t | None \<Rightarrow> False) \<or>
     (case snd (ri_expires_at identity) of Some t \<Rightarrow> now < t | None \<Rightarrow> False)"

subsection \<open>Whole record sets\<close>

definition asserts ::
  "service_records \<Rightarrow> emitted_records \<times> emitted_records \<Rightarrow> record_ref \<Rightarrow> bytes option \<Rightarrow> family \<Rightarrow> record_section \<Rightarrow> bool" where
  "asserts records emitted r peer fam sec =
     (if rr_rclass r \<noteq> Class_In then False
      else if \<not> transmitted_envelope (rr_rtype r) sec (rr_cache_flush r) then False
      else
        let e = pick fam emitted;
            asserted_here = (names_match_record (sr_host records) r \<and>
              (case rdata_view r of
                 Inr (Rdata_A a) \<Rightarrow> a \<in> set (em_a e)
               | Inr (Rdata_AAAA a) \<Rightarrow> a \<in> set (em_aaaa e)
               | _ \<Rightarrow> False)) in
        if asserted_here then True
        else if names_match_record (sr_instance records) r \<and> instance_rtype_exposed e (rr_rtype r)
        then (case peer of
            Some peer \<Rightarrow> list_ex (\<lambda>form. form = peer) (transmitted_rdata_forms records (rr_rtype r))
          | None \<Rightarrow> False)
        else False)"

definition screens_something :: "emitted_records \<times> emitted_records \<Rightarrow> bool" where
  "screens_something emitted \<longleftrightarrow> list_ex
     (\<lambda>e. em_srv e \<or> em_txt e \<or> em_nsec e \<or> em_a e \<noteq> [] \<or> em_aaaa e \<noteq> []) [fst emitted, snd emitted]"

subsection \<open>The tables of the endpoint\<close>

definition relinquished_asserts ::
  "record_ref \<Rightarrow> 'i :: linorder \<Rightarrow> family \<Rightarrow> record_section \<Rightarrow> ('i, 'r, 'c, 'sp, 'qp, 'ep) endpoint \<Rightarrow> bool" where
  "relinquished_asserts r now fam sec ep \<longleftrightarrow>
     (let peer = (case canonical_rdata_folded r of Inr v \<Rightarrow> Some v | Inl _ \<Rightarrow> None) in
      list_ex (\<lambda>(_, w). asserts (wi_records w) (wi_multicast w) r peer fam sec) (ep_withdrawals ep) \<or>
      list_ex (\<lambda>e. now < rq_expires_at e \<and> asserts (rq_records e) (rq_emitted e) r peer fam sec) (ep_relinquished ep) \<or>
      list_ex (\<lambda>e. identity_asserts e r peer now fam sec) (ep_relinquished_identities ep))"

text \<open>The loop over the decomposed records: extend a known one, or add it while there is room.\<close>

definition same_identity :: "name \<Rightarrow> resource_type \<Rightarrow> bytes \<Rightarrow> 'i relinquished_identity \<Rightarrow> bool" where
  "same_identity owner rtype rdata e \<longleftrightarrow> ri_rtype e = rtype \<and> ri_rdata e = rdata \<and> same_owner (ri_owner e) owner"

definition later :: "'i :: linorder option \<Rightarrow> 'i option \<Rightarrow> 'i option" where
  "later a b = (case (a, b) of (None, _) \<Rightarrow> b | (Some _, None) \<Rightarrow> a | (Some x, Some y) \<Rightarrow> Some (max x y))"

fun update_first :: "('a \<Rightarrow> bool) \<Rightarrow> ('a \<Rightarrow> 'a) \<Rightarrow> 'a list \<Rightarrow> 'a list option" where
  "update_first P f [] = None"
| "update_first P f (x # xs) = (if P x then Some (f x # xs) else map_option ((#) x) (update_first P f xs))"

fun add_identities ::
  "'i :: linorder option \<times> 'i option \<Rightarrow> (name \<times> resource_type \<times> bytes) list \<Rightarrow> 'i relinquished_identity list \<Rightarrow>
     'i relinquished_identity list" where
  "add_identities on [] held = held"
| "add_identities on ((owner, rtype, rdata) # ids) held =
     add_identities on ids
       (case update_first (same_identity owner rtype rdata)
           (\<lambda>e. e\<lparr>ri_expires_at := (later (fst (ri_expires_at e)) (fst on), later (snd (ri_expires_at e)) (snd on))\<rparr>) held of
          Some held \<Rightarrow> held
        | None \<Rightarrow>
            if MAX_RELINQUISHED_IDENTITIES \<le> length held then held
            else held @ [\<lparr>ri_owner = owner, ri_rtype = rtype, ri_rdata = rdata, ri_expires_at = on\<rparr>])"

definition retain_relinquished_identities ::
  "service_records \<Rightarrow> emitted_records \<times> emitted_records \<Rightarrow> 'i :: linorder \<Rightarrow> 'i \<Rightarrow> ('i, 'r, 'c, 'sp, 'qp, 'ep) endpoint \<Rightarrow>
     ('i, 'r, 'c, 'sp, 'qp, 'ep) endpoint" where
  "retain_relinquished_identities records emitted now expires_at ep =
     (let held = filter (\<lambda>e. identity_live e now) (ep_relinquished_identities ep);
          held = add_identities (Some expires_at, None) (identities records (fst emitted)) held;
          held = add_identities (None, Some expires_at) (identities records (snd emitted)) held in
      ep\<lparr>ep_relinquished_identities := held\<rparr>)"

definition retain_relinquished ::
  "'i :: linorder clock \<Rightarrow> service_records \<Rightarrow> emitted_records \<times> emitted_records \<Rightarrow> 'i \<Rightarrow> ('i, 'r, 'c, 'sp, 'qp, 'ep) endpoint \<Rightarrow>
     ('i, 'r, 'c, 'sp, 'qp, 'ep) endpoint" where
  "retain_relinquished clk records emitted now ep =
     (if \<not> screens_something emitted then ep
      else case cadd clk now (cf_relinquished_retention (ep_config ep)) of
        None \<Rightarrow> ep
      | Some expires_at \<Rightarrow>
          let held = filter (\<lambda>e. now < rq_expires_at e) (ep_relinquished ep); ep = ep\<lparr>ep_relinquished := held\<rparr> in
          case update_first (\<lambda>e. rq_records e = records \<and> rq_emitted e = emitted)
              (\<lambda>e. if rq_expires_at e < expires_at then e\<lparr>rq_expires_at := expires_at\<rparr> else e) held of
            Some held \<Rightarrow> ep\<lparr>ep_relinquished := held\<rparr>
          | None \<Rightarrow>
              if MAX_RELINQUISHED_RRSETS \<le> length held
              then retain_relinquished_identities records emitted now expires_at ep
              else ep\<lparr>ep_relinquished := held @ [\<lparr>rq_records = records, rq_emitted = emitted, rq_expires_at = expires_at\<rparr>]\<rparr>)"

definition sweep_relinquished :: "'i :: linorder \<Rightarrow> ('i, 'r, 'c, 'sp, 'qp, 'ep) endpoint \<Rightarrow> ('i, 'r, 'c, 'sp, 'qp, 'ep) endpoint" where
  "sweep_relinquished now ep = ep\<lparr>ep_relinquished := filter (\<lambda>e. now < rq_expires_at e) (ep_relinquished ep),
     ep_relinquished_identities := filter (\<lambda>e. identity_live e now) (ep_relinquished_identities ep)\<rparr>"

end
