(* ===== verification/Withdrawal.thy ===== *)
theory Withdrawal
  imports Relinquished
begin

text \<open>
  Goodbyes under way (\<open>endpoint/withdrawal.rs\<close>): a schedule of TTL-0 announcements per name the endpoint
  leaves, one debt per address family, each bounded by a ceiling after which it is given up.
\<close>

definition mint_withdrawal_token ::
  "('i, 'r, 'c, 'sp, 'qp, 'ep) endpoint \<Rightarrow> withdrawal_token \<times> ('i, 'r, 'c, 'sp, 'qp, 'ep) endpoint" where
  "mint_withdrawal_token ep =
     (WithdrawalToken (ep_next_withdrawal_token ep),
      ep\<lparr>ep_next_withdrawal_token := sat_add u64_max (ep_next_withdrawal_token ep) 1\<rparr>)"

definition reclaimable_for :: "'i withdrawal_item \<Rightarrow> name \<Rightarrow> bool" where
  "reclaimable_for item n \<longleftrightarrow> wi_route item = None \<and> \<not> wi_holds_name item \<and> same_owner (sr_instance (wi_records item)) n"

text \<open>The fold over both families, a family that owes nothing left out.\<close>

definition union_owed :: "emitted_records \<times> emitted_records \<Rightarrow> nat \<times> nat \<Rightarrow> emitted_records" where
  "union_owed owned owed =
     (let add = (\<lambda>debt e out. if debt = 0 then out else merge_addrs e (merge_instance e out)) in
      add (snd owed) (snd owned) (add (fst owed) (fst owned) emitted_default))"

definition owed_budget :: "emitted_records \<Rightarrow> nat" where
  "owed_budget e = (if em_is_empty e then 0 else WITHDRAWAL_SENDS)"

definition owed_per_family :: "emitted_records \<times> emitted_records \<Rightarrow> nat \<times> nat" where
  "owed_per_family owned = (owed_budget (fst owned), owed_budget (snd owned))"

subsection \<open>Starting a withdrawal\<close>

definition begin_withdrawal ::
  "'i clock \<Rightarrow> ('i, 'g, 'ev, 'sp, 'se) route_pool \<Rightarrow> service_handle \<Rightarrow> withdrawal_snapshot \<Rightarrow> 'i \<Rightarrow>
     ('i, 'r, 'c, 'sp, 'qp, 'ep) endpoint \<Rightarrow> ('i, 'r, 'c, 'sp, 'qp, 'ep) endpoint" where
  "begin_withdrawal clk srv handle snapshot now ep =
     (case service_key srv handle ep of
        None \<Rightarrow> ep
      | Some key \<Rightarrow>
          if list_ex (\<lambda>(_, w). wi_route w = Some handle) (ep_withdrawals ep) then ep
          else case pl_get srv (ep_services ep) key of
            None \<Rightarrow> ep
          | Some route \<Rightarrow>
              let ep = put_route srv key
                    (route\<lparr>rt_withdrawing := True, rt_proto := quiesce_for_withdrawal (rt_proto route)\<rparr>) ep;
                  ceiling_at = (case cadd clk now WITHDRAWAL_CEILING of Some t \<Rightarrow> t | None \<Rightarrow> now);
                  current_owed = owed_per_family (ws_owned snapshot);
                  (token, ep) = mint_withdrawal_token ep in
              ep\<lparr>ep_withdrawals := ep_withdrawals ep @
                [(token, \<lparr>wi_records = ws_records snapshot, wi_owned = ws_owned snapshot,
                    wi_multicast = ws_multicast snapshot, wi_owed = current_owed, wi_next_at = now,
                    wi_ceiling_at = ceiling_at, wi_final_attempt = False, wi_route = Some handle,
                    wi_holds_name = False\<rparr>)]\<rparr>)"

definition enqueue_rename_withdrawal ::
  "'i :: linorder clock \<Rightarrow> rename_goodbye_handoff \<Rightarrow> 'i \<Rightarrow> bool \<Rightarrow> ('i, 'r, 'c, 'sp, 'qp, 'ep) endpoint \<Rightarrow>
     ('i, 'r, 'c, 'sp, 'qp, 'ep) endpoint" where
  "enqueue_rename_withdrawal clk handoff now holds_name ep =
     (let ep = retain_relinquished clk (rg_records handoff) (rg_multicast handoff) now ep;
          owed = owed_per_family (rg_owned handoff) in
      if owed = (0, 0) then ep
      else
        let ceiling_at = (case cadd clk now WITHDRAWAL_CEILING of Some t \<Rightarrow> t | None \<Rightarrow> now);
            (token, ep) = mint_withdrawal_token ep in
        ep\<lparr>ep_withdrawals := ep_withdrawals ep @
          [(token, \<lparr>wi_records = rg_records handoff, wi_owned = rg_owned handoff,
              wi_multicast = rg_multicast handoff, wi_owed = owed, wi_next_at = now,
              wi_ceiling_at = ceiling_at, wi_final_attempt = False, wi_route = None,
              wi_holds_name = holds_name\<rparr>)]\<rparr>)"

subsection \<open>Sending\<close>

text \<open>What a live service on the same host still advertises.\<close>

definition sibling_retained_addrs ::
  "('i, 'g, 'ev, 'sp, 'se) route_pool \<Rightarrow> service_handle \<Rightarrow> ('i, 'r, 'c, 'sp, 'qp, 'ep) endpoint \<Rightarrow> ip_addr list" where
  "sibling_retained_addrs srv handle ep =
     (case find (\<lambda>(_, r). rt_handle r = handle) (pl_iter srv (ep_services ep)) of
        None \<Rightarrow> []
      | Some (_, own) \<Rightarrow> concat (map (\<lambda>(_, route).
          if rt_handle route \<noteq> handle \<and> \<not> rt_withdrawing route \<and> same_owner (rt_host route) (rt_host own)
          then map IpV4 (rt_advertised_a route) @ map IpV6 (rt_advertised_aaaa route) else [])
        (pl_iter srv (ep_services ep))))"

text \<open>The first item to send: due, or past its ceiling with its last attempt unmade (then \<open>True\<close>).\<close>

definition withdrawal_due :: "'i :: linorder \<Rightarrow> 'i withdrawal_item \<Rightarrow> bool option" where
  "withdrawal_due now w =
     (if wi_owed w = (0, 0) then None
      else if wi_next_at w \<le> now \<and> now < wi_ceiling_at w then Some False
      else if wi_ceiling_at w \<le> now \<and> \<not> wi_final_attempt w then Some True
      else None)"

fun first_due :: "'i :: linorder \<Rightarrow> nat \<Rightarrow> (withdrawal_token \<times> 'i withdrawal_item) list \<Rightarrow>
    (nat \<times> withdrawal_token \<times> service_handle option \<times> bool) option" where
  "first_due now i [] = None"
| "first_due now i ((token, w) # ws) =
     (case withdrawal_due now w of
        Some is_final \<Rightarrow> Some (i, token, wi_route w, is_final)
      | None \<Rightarrow> first_due now (Suc i) ws)"

definition map_withdrawal :: "nat \<Rightarrow> ('i withdrawal_item \<Rightarrow> 'i withdrawal_item) \<Rightarrow>
    ('i, 'r, 'c, 'sp, 'qp, 'ep) endpoint \<Rightarrow> ('i, 'r, 'c, 'sp, 'qp, 'ep) endpoint" where
  "map_withdrawal idx f ep =
     (case get (ep_withdrawals ep) idx of
        Some (token, w) \<Rightarrow> ep\<lparr>ep_withdrawals := (ep_withdrawals ep)[idx := (token, f w)]\<rparr>
      | None \<Rightarrow> ep)"

definition advance_after_encode_failure ::
  "'i :: linorder clock \<Rightarrow> nat \<Rightarrow> 'i \<Rightarrow> bool \<Rightarrow> ('i, 'r, 'c, 'sp, 'qp, 'ep) endpoint \<Rightarrow> ('i, 'r, 'c, 'sp, 'qp, 'ep) endpoint" where
  "advance_after_encode_failure clk idx now is_final = map_withdrawal idx (\<lambda>w.
     if is_final then w\<lparr>wi_final_attempt := True\<rparr>
     else case cadd clk now WITHDRAWAL_RETRY_BACKOFF of
       Some t \<Rightarrow> if now < t then w\<lparr>wi_next_at := t\<rparr> else w\<lparr>wi_owed := (0, 0)\<rparr>
     | None \<Rightarrow> w\<lparr>wi_owed := (0, 0)\<rparr>)"

text \<open>What is left to send of an item once the addresses of its siblings are set aside.\<close>

definition unretained_v4 :: "ip_addr list \<Rightarrow> emitted_records \<Rightarrow> bytes list" where
  "unretained_v4 retained owned = filter (\<lambda>ip. IpV4 ip \<notin> set retained) (em_a owned)"

definition unretained_v6 :: "ip_addr list \<Rightarrow> emitted_records \<Rightarrow> bytes list" where
  "unretained_v6 retained owned = filter (\<lambda>ip. IpV6 ip \<notin> set retained) (em_aaaa owned)"

definition something_left :: "ip_addr list \<Rightarrow> emitted_records \<Rightarrow> bool" where
  "something_left retained owned \<longleftrightarrow> em_ptr owned \<or> em_srv owned \<or> em_txt owned \<or> em_subtypes owned \<or>
     unretained_v4 retained owned \<noteq> [] \<or> unretained_v6 retained owned \<noteq> []"

text \<open>One round of the loop: an answer to return, or the state to go round with.\<close>

definition withdrawal_round ::
  "'i :: linorder clock \<Rightarrow> ('i, 'g, 'ev, 'sp, 'se) route_pool \<Rightarrow> 'i \<Rightarrow> bytes \<Rightarrow> ('i, 'r, 'c, 'sp, 'qp, 'ep) endpoint \<Rightarrow>
     (withdrawal_transmit option + unit) \<times> bytes \<times> ('i, 'r, 'c, 'sp, 'qp, 'ep) endpoint" where
  "withdrawal_round clk srv now scratch ep =
     (case first_due now 0 (ep_withdrawals ep) of
        None \<Rightarrow> (Inl None, scratch, ep)
      | Some (idx, token, route, is_final) \<Rightarrow>
          let retained = (case route of Some handle \<Rightarrow> sibling_retained_addrs srv handle ep | None \<Rightarrow> []) in
          case get (ep_withdrawals ep) idx of
            None \<Rightarrow> (Inl None, scratch, ep)
          | Some (_, w) \<Rightarrow>
              let debt = family_debt_new (wi_owed w); owned = union_owed (wi_owned w) (wi_owed w) in
              if \<not> something_left retained owned
              then (Inr (), scratch, map_withdrawal idx (\<lambda>w. w\<lparr>wi_owed := (0, 0)\<rparr>) ep)
              else
                (case write_goodbye (wi_records w) scratch (em_ptr owned) (em_srv owned) (em_txt owned)
                   (em_subtypes owned) (unretained_v4 retained owned) (unretained_v6 retained owned) of
                   (Inr (len, _), scratch) \<Rightarrow>
                     (Inl (Some \<lparr>wt_dst = multicast_dst, wt_len = len, wt_token = token, wt_debt = debt\<rparr>), scratch,
                      if is_final then map_withdrawal idx (\<lambda>w. w\<lparr>wi_final_attempt := True\<rparr>) ep else ep)
                 | (Inl _, scratch) \<Rightarrow> (Inr (), scratch, advance_after_encode_failure clk idx now is_final ep)))"

text \<open>How many items are due, which every round that goes on makes smaller.\<close>

definition due_count :: "'i :: linorder \<Rightarrow> (withdrawal_token \<times> 'i withdrawal_item) list \<Rightarrow> nat" where
  "due_count now ws = length (filter (\<lambda>(_, w). withdrawal_due now w \<noteq> None) ws)"

lemma first_due_Some:
  "first_due now i ws = Some (j, token, route, is_final) \<Longrightarrow>
     i \<le> j \<and> j - i < length ws \<and> fst (ws ! (j - i)) = token \<and> wi_route (snd (ws ! (j - i))) = route \<and>
     withdrawal_due now (snd (ws ! (j - i))) = Some is_final"
proof (induction now i ws rule: first_due.induct)
  case (2 now i token' w ws)
  show ?case
  proof (cases "withdrawal_due now w")
    case None
    with 2 have "Suc i \<le> j \<and> j - Suc i < length ws \<and> fst (ws ! (j - Suc i)) = token \<and>
        wi_route (snd (ws ! (j - Suc i))) = route \<and> withdrawal_due now (snd (ws ! (j - Suc i))) = Some is_final"
      by simp
    moreover from this have "j - i = Suc (j - Suc i)" by (simp add: Suc_diff_Suc)
    ultimately show ?thesis by simp
  qed (use 2 in auto)
qed simp

lemma first_due_None: "first_due now i ws = None \<longleftrightarrow> (\<forall>(_, w)\<in>set ws. withdrawal_due now w = None)"
  by (induction now i ws rule: first_due.induct) (auto split: option.splits)

lemma due_count_update:
  assumes "i < length ws" "withdrawal_due now (snd (ws ! i)) \<noteq> None" "withdrawal_due now w = None"
  shows "due_count now (ws[i := (token, w)]) < due_count now ws"
  using assms
proof (induction ws arbitrary: i)
  case (Cons x ws)
  show ?case
  proof (cases i)
    case 0 with Cons.prems show ?thesis by (auto simp: due_count_def split: prod.splits)
  next
    case (Suc j)
    with Cons have "due_count now (ws[j := (token, w)]) < due_count now ws" by simp
    with Suc show ?thesis by (auto simp: due_count_def)
  qed
qed simp

lemma round_due_count:
  assumes "withdrawal_round clk srv now scratch ep = (Inr (), scratch', ep')"
  shows "due_count now (ep_withdrawals ep') < due_count now (ep_withdrawals ep)"
proof -
  from assms obtain idx token route is_final
    where f: "first_due now 0 (ep_withdrawals ep) = Some (idx, token, route, is_final)"
    by (auto simp: withdrawal_round_def split: option.splits)
  from first_due_Some [OF f] obtain w
    where w: "idx < length (ep_withdrawals ep)" "ep_withdrawals ep ! idx = (token, w)" "withdrawal_due now w = Some is_final"
    by (cases "ep_withdrawals ep ! idx") auto
  have m: "ep' = map_withdrawal idx g ep \<Longrightarrow> withdrawal_due now (g w) = None \<Longrightarrow> ?thesis" for g
    using due_count_update [of idx "ep_withdrawals ep" now "g w" token] w by (simp add: map_withdrawal_def get_def)
  have final: "is_final \<longleftrightarrow> \<not> now < wi_ceiling_at w"
    using w(3) by (auto simp: withdrawal_due_def split: if_splits)
  from assms w f consider "ep' = map_withdrawal idx (\<lambda>w. w\<lparr>wi_owed := (0, 0)\<rparr>) ep"
    | "ep' = advance_after_encode_failure clk idx now is_final ep"
    by (auto simp: withdrawal_round_def get_def Let_def split: if_splits prod.splits sum.splits)
  then show ?thesis
  proof cases
    case 1 then show ?thesis by (rule m) (simp add: withdrawal_due_def)
  next
    case 2 then show ?thesis unfolding advance_after_encode_failure_def
      by (rule m) (use final in \<open>auto simp: withdrawal_due_def split: option.splits\<close>)
  qed
qed

function poll_withdrawal_transmit ::
  "'i :: linorder clock \<Rightarrow> ('i, 'g, 'ev, 'sp, 'se) route_pool \<Rightarrow> 'i \<Rightarrow> bytes \<Rightarrow> ('i, 'r, 'c, 'sp, 'qp, 'ep) endpoint \<Rightarrow>
     withdrawal_transmit option \<times> bytes \<times> ('i, 'r, 'c, 'sp, 'qp, 'ep) endpoint" where
  "poll_withdrawal_transmit clk srv now scratch ep =
     (case withdrawal_round clk srv now scratch ep of
        (Inl t, scratch, ep) \<Rightarrow> (t, scratch, ep)
      | (Inr _, scratch, ep) \<Rightarrow> poll_withdrawal_transmit clk srv now scratch ep)"
  by pat_completeness auto
termination
  by (relation "measure (\<lambda>(clk, srv, now, scratch, ep). due_count now (ep_withdrawals ep))") (auto dest!: round_due_count [OF sym])

declare poll_withdrawal_transmit.simps [simp del]

subsection \<open>The result of a send, and the end\<close>

fun settle_debt :: "nat \<Rightarrow> 'i family_attempt \<Rightarrow> bool \<times> nat" where
  "settle_debt 0 attempt = (False, 0)"
| "settle_debt (Suc debt) attempt =
     (case ws_project attempt of WS_Sent \<Rightarrow> (True, debt) | WS_Retry \<Rightarrow> (False, Suc debt) | WS_WriteOff \<Rightarrow> (False, 0))"

definition settle_withdrawal ::
  "'i :: linorder clock \<Rightarrow> 'i \<Rightarrow> 'i family_attempt \<Rightarrow> 'i family_attempt \<Rightarrow> 'i withdrawal_item \<Rightarrow> 'i withdrawal_item" where
  "settle_withdrawal clk now v4 v6 w =
     (let (p4, d4) = settle_debt (fst (wi_owed w)) v4; (p6, d6) = settle_debt (snd (wi_owed w)) v6;
          gap = (if p4 \<or> p6 then WITHDRAWAL_INTERVAL else WITHDRAWAL_RETRY_BACKOFF) in
      w\<lparr>wi_owed := (d4, d6),
        wi_next_at := min (case cadd clk now gap of Some t \<Rightarrow> t | None \<Rightarrow> now) (wi_ceiling_at w)\<rparr>)"

definition note_withdrawal_result ::
  "'i :: linorder clock \<Rightarrow> withdrawal_token \<Rightarrow> 'i \<Rightarrow> 'i family_attempt \<Rightarrow> 'i family_attempt \<Rightarrow>
     ('i, 'r, 'c, 'sp, 'qp, 'ep) endpoint \<Rightarrow> ('i, 'r, 'c, 'sp, 'qp, 'ep) endpoint" where
  "note_withdrawal_result clk token now v4 v6 ep =
     (case update_first (\<lambda>(t, _). t = token) (\<lambda>(t, w). (t, settle_withdrawal clk now v4 v6 w)) (ep_withdrawals ep) of
        None \<Rightarrow> ep
      | Some ws \<Rightarrow> ep\<lparr>ep_withdrawals := ws\<rparr>)"

text \<open>A name that is claimed again: what is still owed for it shrinks to the pointers no longer published.\<close>

definition reclaim_item :: "name \<Rightarrow> name list \<Rightarrow> 'i withdrawal_item \<Rightarrow> 'i withdrawal_item" where
  "reclaim_item service_type subtypes item =
     (let type_ptr = (\<not> same_owner (sr_service_type (wi_records item)) service_type);
          records = sr_retain_subtypes (\<lambda>sub. \<not> list_ex (\<lambda>kept. same_owner kept sub) subtypes) (wi_records item);
          subtypes_left = (sr_subtypes records \<noteq> []);
          keep = keep_only_shared_ptrs type_ptr subtypes_left;
          half = (\<lambda>e debt. (keep e, if em_is_empty (keep e) then 0 else debt));
          (o4, d4) = half (fst (wi_owned item)) (fst (wi_owed item));
          (o6, d6) = half (snd (wi_owned item)) (snd (wi_owed item)) in
      item\<lparr>wi_records := records, wi_owned := (o4, o6), wi_owed := (d4, d6),
        wi_multicast := (keep (fst (wi_multicast item)), keep (snd (wi_multicast item)))\<rparr>)"

definition reclaim_detached_goodbyes ::
  "('i, 'g, 'ev, 'sp, 'se) route_pool \<Rightarrow> service_handle \<Rightarrow> name \<Rightarrow> ('i, 'r, 'c, 'sp, 'qp, 'ep) endpoint \<Rightarrow>
     ('i, 'r, 'c, 'sp, 'qp, 'ep) endpoint" where
  "reclaim_detached_goodbyes srv handle n ep =
     (if \<not> list_ex (\<lambda>(_, item). reclaimable_for item n) (ep_withdrawals ep) then ep
      else case find (\<lambda>(_, r). rt_handle r = handle) (pl_iter srv (ep_services ep)) of
        None \<Rightarrow> ep
      | Some (_, route) \<Rightarrow> ep\<lparr>ep_withdrawals := concat (map (\<lambda>(token, item).
          if \<not> reclaimable_for item n then [(token, item)]
          else let item = reclaim_item (rt_service_type route) (rt_subtypes route) item in
               if wi_owed item \<noteq> (0, 0) then [(token, item)] else []) (ep_withdrawals ep))\<rparr>)"

definition withdrawal_complete :: "'i :: linorder \<Rightarrow> 'i withdrawal_item \<Rightarrow> bool" where
  "withdrawal_complete now w \<longleftrightarrow> wi_owed w = (0, 0) \<or> wi_ceiling_at w \<le> now \<and> wi_final_attempt w"

text \<open>One token of the loop; a handle is reported where the withdrawal had a route.\<close>

definition drain_one ::
  "'i :: linorder clock \<Rightarrow> ('i, 'g, 'ev, 'sp, 'se) route_pool \<Rightarrow> 'i \<Rightarrow> withdrawal_token \<Rightarrow>
     ('i, 'r, 'c, 'sp, 'qp, 'ep) endpoint \<times> service_handle list \<Rightarrow> ('i, 'r, 'c, 'sp, 'qp, 'ep) endpoint \<times> service_handle list" where
  "drain_one clk srv now token = (\<lambda>(ep, out).
     (case position (\<lambda>(t, _). t = token) (ep_withdrawals ep) of
        None \<Rightarrow> (ep, out)
      | Some pos \<Rightarrow>
          let item = snd (ep_withdrawals ep ! pos);
              ep = ep\<lparr>ep_withdrawals := take pos (ep_withdrawals ep) @ drop (Suc pos) (ep_withdrawals ep)\<rparr>;
              ep = retain_relinquished clk (wi_records item) (wi_multicast item) now ep in
          case wi_route item of
            None \<Rightarrow> (ep, out)
          | Some handle \<Rightarrow>
              ((case service_key srv handle ep of
                  Some k \<Rightarrow> ep\<lparr>ep_services := snd (pl_remove srv (ep_services ep) k)\<rparr>
                | None \<Rightarrow> ep), out @ [handle])))"

definition drain_completed_withdrawals ::
  "'i :: linorder clock \<Rightarrow> ('i, 'g, 'ev, 'sp, 'se) route_pool \<Rightarrow> 'i \<Rightarrow> ('i, 'r, 'c, 'sp, 'qp, 'ep) endpoint \<Rightarrow>
     ('i, 'r, 'c, 'sp, 'qp, 'ep) endpoint \<times> service_handle list" where
  "drain_completed_withdrawals clk srv now ep =
     (let completed = map fst (filter (\<lambda>(_, w). withdrawal_complete now w) (ep_withdrawals ep)) in
      foldl (\<lambda>p token. drain_one clk srv now token p) (ep, []) completed)"

end
