(* ===== verification/EndpointService.thy ===== *)
theory EndpointService
  imports Withdrawal
begin

text \<open>
  The services of an endpoint (\<open>endpoint/service.rs\<close>): registration with its checks against the names and
  addresses already published, the operations that drive one service through its handle, and the two
  ways a service leaves.
\<close>

datatype register_service_error =
    NameAlreadyRegistered name
  | HostAddressesDiffer name
  | TtlTooSmall u32
  | ServiceTypeIsRoot name
  | ServiceTypeNotParent name name
  | RS_StorageFull storage_full_error

definition MIN_SERVICE_TTL_SECS :: u32 where "MIN_SERVICE_TTL_SECS = 2"

definition rrset_disagrees :: "'a list \<Rightarrow> 'a list \<Rightarrow> bool" where
  "rrset_disagrees theirs ours =
     (if theirs = [] \<or> ours = [] then False
      else \<not> (list_all (\<lambda>x. x \<in> set ours) theirs \<and> list_all (\<lambda>x. x \<in> set theirs) ours))"

definition host_addresses_disagree ::
  "('i, 'g, 'ev, 'sp, 'se) route_pool \<Rightarrow> name \<Rightarrow> bytes list \<Rightarrow> bytes list \<Rightarrow> nat option \<Rightarrow> ('i, 'r, 'c, 'sp, 'qp, 'ep) endpoint \<Rightarrow> bool" where
  "host_addresses_disagree srv host a_addrs aaaa_addrs exclude ep = list_ex (\<lambda>(key, route).
     if Some key = exclude then False
     else if rt_withdrawing route then False
     else if \<not> same_owner (rt_host route) host then False
     else rrset_disagrees (rt_a_addrs route) a_addrs \<or> rrset_disagrees (rt_aaaa_addrs route) aaaa_addrs)
     (pl_iter srv (ep_services ep))"

text \<open>The checks before anything is created.\<close>

definition register_check ::
  "('i, 'g, 'ev, 'sp, 'se) route_pool \<Rightarrow> service_records \<Rightarrow> ('i, 'r, 'c, 'sp, 'qp, 'ep) endpoint \<Rightarrow> register_service_error option" where
  "register_check srv spec ep =
     (if sr_ttl_secs spec < MIN_SERVICE_TTL_SECS then Some (TtlTooSmall (sr_ttl_secs spec))
      else if as_str (sr_service_type spec) = [] then Some (ServiceTypeIsRoot (sr_instance spec))
      else if \<not> is_parent_of (sr_service_type spec) (sr_instance spec)
      then Some (ServiceTypeNotParent (sr_service_type spec) (sr_instance spec))
      else if list_ex (\<lambda>(_, route). same_owner (rt_name route) (sr_instance spec)) (pl_iter srv (ep_services ep))
      then Some (NameAlreadyRegistered (sr_instance spec))
      else if list_ex (\<lambda>(_, item). wi_route item = None \<and> wi_holds_name item \<and>
           same_owner (sr_instance (wi_records item)) (sr_instance spec)) (ep_withdrawals ep)
      then Some (NameAlreadyRegistered (sr_instance spec))
      else if host_addresses_disagree srv (sr_host spec) (sr_a_addrs spec) (sr_aaaa_addrs spec) None ep
      then Some (HostAddressesDiffer (sr_host spec))
      else None)"

text \<open>
  \<open>seed_rng\<close> fills the seed from the endpoint's generator and starts the service's own.
\<close>

definition try_register_service ::
  "'i :: linorder clock \<Rightarrow> ('g \<Rightarrow> u32 \<times> 'g) \<Rightarrow> ('r \<Rightarrow> 'g \<times> 'r) \<Rightarrow> (service_update, 'ev, 'e) pool_ops \<Rightarrow> ('i, 'g, 'ev, 'sp, 'se) route_pool \<Rightarrow>
     service_records \<Rightarrow> 'i \<Rightarrow> ('i, 'r, 'c, 'sp, 'qp, 'ep) endpoint \<Rightarrow>
     (register_service_error + service_handle) \<times> ('i, 'r, 'c, 'sp, 'qp, 'ep) endpoint" where
  "try_register_service clk draw seed_rng evs srv spec now ep =
     (case register_check srv spec ep of
        Some e \<Rightarrow> (Inl e, ep)
      | None \<Rightarrow>
          let new_h = ep_next_service_handle ep;
              ep = ep\<lparr>ep_next_service_handle := sat_add u32_max new_h 1\<rparr>;
              handle = ServiceHandle (of_nat new_h);
              (g, rng) = seed_rng (ep_rng ep);
              ep = ep\<lparr>ep_rng := rng\<rparr>;
              proto = service_try_new clk draw evs handle spec now g (cf_probe_unique_names (ep_config ep))
                        (cf_re_announce (ep_config ep)) (ep_flood ep);
              route = \<lparr>rt_proto = proto, rt_service_type = sr_service_type spec, rt_name = sr_instance spec,
                       rt_host = sr_host spec, rt_handle = handle, rt_a_addrs = sr_a_addrs spec,
                       rt_aaaa_addrs = sr_aaaa_addrs spec, rt_aaaa_scopes = sr_aaaa_scopes spec,
                       rt_subtypes = sr_subtypes spec, rt_advertised_a = [], rt_advertised_aaaa = [],
                       rt_withdrawing = False\<rparr> in
          case pl_insert srv (ep_services ep) route of
            (Inl _, services) \<Rightarrow> (Inl (RS_StorageFull StorageFullError), ep\<lparr>ep_services := services\<rparr>)
          | (Inr _, services) \<Rightarrow> (Inr handle, ep\<lparr>ep_services := services\<rparr>))"

subsection \<open>Reading and polling a service\<close>

definition endpoint_service ::
  "('i, 'g, 'ev, 'sp, 'se) route_pool \<Rightarrow> service_handle \<Rightarrow> ('i, 'r, 'c, 'sp, 'qp, 'ep) endpoint \<Rightarrow> ('i, 'g, 'ev) service option" where
  "endpoint_service srv handle ep =
     (case service_key srv handle ep of None \<Rightarrow> None | Some key \<Rightarrow> map_option rt_proto (pl_get srv (ep_services ep) key))"

definition poll_service ::
  "(service_update, 'ev, 'e) pool_ops \<Rightarrow> ('i, 'g, 'ev, 'sp, 'se) route_pool \<Rightarrow> service_handle \<Rightarrow> ('i, 'r, 'c, 'sp, 'qp, 'ep) endpoint \<Rightarrow>
     service_update option \<times> ('i, 'r, 'c, 'sp, 'qp, 'ep) endpoint" where
  "poll_service evs srv handle ep =
     (case service_key srv handle ep of
        None \<Rightarrow> (None, ep)
      | Some key \<Rightarrow>
          (case pl_get srv (ep_services ep) key of
             None \<Rightarrow> (None, ep)
           | Some route \<Rightarrow>
               let (u, proto) = service_poll evs (rt_proto route) in (u, put_route srv key (route\<lparr>rt_proto := proto\<rparr>) ep)))"

definition poll_service_timeout ::
  "('i :: linorder, 'g, 'ev, 'sp, 'se) route_pool \<Rightarrow> service_handle \<Rightarrow> ('i, 'r, 'c, 'sp, 'qp, 'ep) endpoint \<Rightarrow> 'i option" where
  "poll_service_timeout srv handle ep =
     (case service_key srv handle ep of
        None \<Rightarrow> None
      | Some key \<Rightarrow>
          (case pl_get srv (ep_services ep) key of
             None \<Rightarrow> None
           | Some route \<Rightarrow> if rt_withdrawing route then None else service_poll_timeout (rt_proto route)))"

definition poll_service_transmit ::
  "'i :: linorder clock \<Rightarrow> ('i, 'g, 'ev, 'sp, 'se) route_pool \<Rightarrow> service_handle \<Rightarrow> 'i \<Rightarrow> bytes \<Rightarrow> ('i, 'r, 'c, 'sp, 'qp, 'ep) endpoint \<Rightarrow>
     (transmit_error + transmit option) \<times> bytes \<times> ('i, 'r, 'c, 'sp, 'qp, 'ep) endpoint" where
  "poll_service_transmit clk srv handle now buf ep =
     (case service_key srv handle ep of
        None \<Rightarrow> (Inr None, buf, ep)
      | Some key \<Rightarrow>
          (case pl_get srv (ep_services ep) key of
             None \<Rightarrow> (Inr None, buf, ep)
           | Some route \<Rightarrow>
               if rt_withdrawing route then (Inr None, buf, ep)
               else
                 let (r, buf, proto) =
                       service_poll_transmit now buf (defer_first_probe_under_flood clk now (ep_flood ep) (rt_proto route)) in
                 (r, buf, put_route srv key (route\<lparr>rt_proto := proto\<rparr>) ep)))"

subsection \<open>Names in use, and the goodbye of a name given up\<close>

definition collect_names_in_use ::
  "('i, 'g, 'ev, 'sp, 'se) route_pool \<Rightarrow> nat \<Rightarrow> ('i, 'r, 'c, 'sp, 'qp, 'ep) endpoint \<Rightarrow> names_in_use" where
  "collect_names_in_use srv except ep =
     map (\<lambda>(_, route). rt_name route) (filter (\<lambda>(other, _). other \<noteq> except) (pl_iter srv (ep_services ep))) @
     map (\<lambda>(_, item). sr_instance (wi_records item))
       (filter (\<lambda>(_, item). wi_route item = None \<and> wi_holds_name item) (ep_withdrawals ep))"

definition drain_rename_goodbye ::
  "'i :: linorder clock \<Rightarrow> ('i, 'g, 'ev, 'sp, 'se) route_pool \<Rightarrow> nat \<Rightarrow> 'i \<Rightarrow> ('i, 'r, 'c, 'sp, 'qp, 'ep) endpoint \<Rightarrow>
     ('i, 'r, 'c, 'sp, 'qp, 'ep) endpoint" where
  "drain_rename_goodbye clk srv key now ep =
     (case pl_get srv (ep_services ep) key of
        None \<Rightarrow> ep
      | Some route \<Rightarrow>
          let (handoff, proto) = take_rename_goodbye_handoff (rt_proto route);
              ep = put_route srv key (route\<lparr>rt_proto := proto\<rparr>) ep in
          case handoff of
            None \<Rightarrow> ep
          | Some handoff \<Rightarrow>
              let holds_name = (case pl_get srv (ep_services ep) key of
                    Some route \<Rightarrow> same_owner (rt_name route) (sr_instance (rg_records handoff)) | None \<Rightarrow> False) in
              enqueue_rename_withdrawal clk handoff now holds_name ep)"

definition handle_service_timeout ::
  "'i :: linorder clock \<Rightarrow> ('g \<Rightarrow> u32 \<times> 'g) \<Rightarrow> (service_update, 'ev, 'e) pool_ops \<Rightarrow> ('i, 'g, 'ev, 'sp, 'se) route_pool \<Rightarrow>
     service_handle \<Rightarrow> 'i \<Rightarrow> ('i, 'r, 'c, 'sp, 'qp, 'ep) endpoint \<Rightarrow>
     (handle_timeout_error + unit) \<times> ('i, 'r, 'c, 'sp, 'qp, 'ep) endpoint" where
  "handle_service_timeout clk draw evs srv handle now ep =
     (case service_key srv handle ep of
        None \<Rightarrow> (Inr (), ep)
      | Some key \<Rightarrow>
          (case pl_get srv (ep_services ep) key of
             None \<Rightarrow> (Inr (), ep)
           | Some route \<Rightarrow>
               if rt_withdrawing route then (Inr (), ep)
               else
                 let taken = (if rename_imminent (rt_proto route) then collect_names_in_use srv key ep else []);
                     (outcome, proto) = service_handle_timeout clk draw evs now (ep_flood ep) taken (rt_proto route);
                     route = route\<lparr>rt_proto := proto\<rparr>;
                     name = sr_instance (sv_records proto);
                     route = (if \<not> same_owner (rt_name route) name then route\<lparr>rt_name := name\<rparr> else route) in
                 (outcome, drain_rename_goodbye clk srv key now (put_route srv key route ep))))"

subsection \<open>Confirming a datagram, and leaving\<close>

definition note_service_transmit_outcome ::
  "'i :: linorder clock \<Rightarrow> ('g \<Rightarrow> u32 \<times> 'g) \<Rightarrow> (service_update, 'ev, 'e) pool_ops \<Rightarrow> ('i, 'g, 'ev, 'sp, 'se) route_pool \<Rightarrow>
     service_handle \<Rightarrow> 'i \<Rightarrow> 'i family_attempt \<Rightarrow> 'i family_attempt \<Rightarrow> ('i, 'r, 'c, 'sp, 'qp, 'ep) endpoint \<Rightarrow>
     transmit_confirm \<times> ('i, 'r, 'c, 'sp, 'qp, 'ep) endpoint" where
  "note_service_transmit_outcome clk draw evs srv handle now v4 v6 ep =
     (case service_key srv handle ep of
        None \<Rightarrow> (NOTHING, ep)
      | Some key \<Rightarrow>
          (case pl_get srv (ep_services ep) key of
             None \<Rightarrow> (NOTHING, ep)
           | Some route \<Rightarrow>
               let (confirm, proto) = service_note_transmit_outcome clk draw evs now v4 v6 (rt_proto route);
                   route = route\<lparr>rt_proto := proto, rt_advertised_a := xp_a (gb_all (sv_goodbye proto)),
                                 rt_advertised_aaaa := xp_aaaa (gb_all (sv_goodbye proto))\<rparr>;
                   ep = put_route srv key route ep;
                   ep = (if sv_fully_announced proto then reclaim_detached_goodbyes srv handle (rt_name route) ep else ep) in
               (confirm, drain_rename_goodbye clk srv key now ep)))"

definition unregister_service ::
  "'i :: linorder clock \<Rightarrow> ('i, 'g, 'ev, 'sp, 'se) route_pool \<Rightarrow> service_handle \<Rightarrow> 'i \<Rightarrow> ('i, 'r, 'c, 'sp, 'qp, 'ep) endpoint \<Rightarrow>
     ('i, 'r, 'c, 'sp, 'qp, 'ep) endpoint" where
  "unregister_service clk srv handle now ep =
     (case service_key srv handle ep of
        None \<Rightarrow> ep
      | Some key \<Rightarrow>
          let ep = drain_rename_goodbye clk srv key now ep in
          case pl_get srv (ep_services ep) key of
            None \<Rightarrow> ep
          | Some route \<Rightarrow> begin_withdrawal clk srv handle (take_withdrawal_snapshot (rt_proto route)) now ep)"

definition force_remove_service ::
  "'i :: linorder clock \<Rightarrow> ('i, 'g, 'ev, 'sp, 'se) route_pool \<Rightarrow> service_handle \<Rightarrow> 'i \<Rightarrow> ('i, 'r, 'c, 'sp, 'qp, 'ep) endpoint \<Rightarrow>
     bool \<times> ('i, 'r, 'c, 'sp, 'qp, 'ep) endpoint" where
  "force_remove_service clk srv handle now ep =
     (case service_key srv handle ep of
        None \<Rightarrow> (False, ep)
      | Some key \<Rightarrow>
          let ep = (case pl_get srv (ep_services ep) key of
                Some route \<Rightarrow>
                  let snapshot = take_withdrawal_snapshot (rt_proto route) in
                  retain_relinquished clk (ws_records snapshot) (ws_multicast snapshot) now ep
              | None \<Rightarrow> ep);
              (removed, services) = pl_remove srv (ep_services ep) key;
              dropped = map (\<lambda>(_, item). (wi_records item, wi_multicast item))
                (filter (\<lambda>(_, item). wi_route item = Some handle) (ep_withdrawals ep));
              ep = ep\<lparr>ep_services := services,
                      ep_withdrawals := filter (\<lambda>(_, item). wi_route item \<noteq> Some handle) (ep_withdrawals ep)\<rparr>;
              ep = foldl (\<lambda>ep (records, multicast). retain_relinquished clk records multicast now ep) ep dropped in
          (removed \<noteq> None, ep))"

end
