(* ===== verification/EndpointQuery.thy ===== *)
theory EndpointQuery
  imports Endpoint
begin

text \<open>
  The queries of an endpoint (\<open>endpoint/query.rs\<close>): started under a fresh handle, driven through it, and
  removed once their terminal update was taken or the caller cancelled them.
\<close>

type_synonym ('i, 'an, 'qe, 'qp, 'qf) query_pool = "(('i, 'an, 'qe) query, 'qp, 'qf) pool_ops"

datatype start_query_error = SQ_StorageFull storage_full_error
datatype cancel_query_error = QueryNotFound query_handle

definition query_key :: "('i, 'an, 'qe, 'qp, 'qf) query_pool \<Rightarrow> query_handle \<Rightarrow> ('i, 'r, 'c, 'sp, 'qp, 'ep) endpoint \<Rightarrow> nat option" where
  "query_key qry handle ep = first_key qry (\<lambda>q. qy_handle q = handle) (ep_queries ep)"

definition put_query :: "('i, 'an, 'qe, 'qp, 'qf) query_pool \<Rightarrow> nat \<Rightarrow> ('i, 'an, 'qe) query \<Rightarrow> ('i, 'r, 'c, 'sp, 'qp, 'ep) endpoint \<Rightarrow>
    ('i, 'r, 'c, 'sp, 'qp, 'ep) endpoint" where
  "put_query qry key q ep = ep\<lparr>ep_queries := pl_put qry (ep_queries ep) key q\<rparr>"

text \<open>A query is addressed by its handle; \<open>absent\<close> is the answer when there is none.\<close>

definition with_query :: "('i, 'an, 'qe, 'qp, 'qf) query_pool \<Rightarrow> query_handle \<Rightarrow> 'a \<Rightarrow>
    (('i, 'an, 'qe) query \<Rightarrow> 'a \<times> ('i, 'an, 'qe) query) \<Rightarrow> ('i, 'r, 'c, 'sp, 'qp, 'ep) endpoint \<Rightarrow>
    'a \<times> ('i, 'r, 'c, 'sp, 'qp, 'ep) endpoint" where
  "with_query qry handle absent f ep =
     (case query_key qry handle ep of
        None \<Rightarrow> (absent, ep)
      | Some key \<Rightarrow>
          (case pl_get qry (ep_queries ep) key of
             None \<Rightarrow> (absent, ep)
           | Some q \<Rightarrow> let (r, q) = f q in (r, put_query qry key q ep)))"

definition try_start_query ::
  "'i clock \<Rightarrow> ('an, 'ae) answer_pool \<Rightarrow> ('qe, 'ue) update_pool \<Rightarrow> ('i, 'an, 'qe, 'qp, 'qf) query_pool \<Rightarrow> query_spec \<Rightarrow> 'i \<Rightarrow>
     ('i, 'r, 'c, 'sp, 'qp, 'ep) endpoint \<Rightarrow> (start_query_error + query_handle) \<times> ('i, 'r, 'c, 'sp, 'qp, 'ep) endpoint" where
  "try_start_query clk an ev qry spec now ep =
     (let new_h = ep_next_query_handle ep;
          ep = ep\<lparr>ep_next_query_handle := sat_add u32_max new_h 1\<rparr>;
          handle = QueryHandle (of_nat new_h);
          txid = ep_next_txid ep;
          next_raw = ep_next_txid ep + 1;
          ep = ep\<lparr>ep_next_txid := (if next_raw = 0 then 1 else next_raw)\<rparr>;
          timeout_deadline = (case qs_timeout spec of None \<Rightarrow> None | Some dur \<Rightarrow> cadd clk now dur);
          q = query_try_new an ev handle (qs_qname spec) (qs_qtype spec) (qs_qclass spec) txid
                (qs_unicast_response spec) timeout_deadline;
          q = (case qs_max_answers spec of Some m \<Rightarrow> with_max_answers m q | None \<Rightarrow> q) in
      case pl_insert qry (ep_queries ep) q of
        (Inl _, queries) \<Rightarrow> (Inl (SQ_StorageFull StorageFullError), ep\<lparr>ep_queries := queries\<rparr>)
      | (Inr _, queries) \<Rightarrow> (Inr handle, ep\<lparr>ep_queries := queries\<rparr>))"

definition poll_query_update :: "('qe, 'ue) update_pool \<Rightarrow> ('i, 'an, 'qe) query \<Rightarrow> query_update option \<times> ('i, 'an, 'qe) query" where
  "poll_query_update ev q =
     (if qy_terminal_emitted q then (None, q)
      else case query_poll ev q of
        (Some u, q) \<Rightarrow> (Some u, if u = Done \<or> u = Timeout then mark_terminal_emitted q else q)
      | (None, q) \<Rightarrow> if qy_done q then (Some Timeout, mark_terminal_emitted q) else (None, q))"

definition poll_query ::
  "('qe, 'ue) update_pool \<Rightarrow> ('i, 'an, 'qe, 'qp, 'qf) query_pool \<Rightarrow> query_handle \<Rightarrow> ('i, 'r, 'c, 'sp, 'qp, 'ep) endpoint \<Rightarrow>
     query_update option \<times> ('i, 'r, 'c, 'sp, 'qp, 'ep) endpoint" where
  "poll_query ev qry handle ep = with_query qry handle None (poll_query_update ev) ep"

definition sweep_terminated_queries ::
  "('i, 'an, 'qe, 'qp, 'qf) query_pool \<Rightarrow> ('i, 'r, 'c, 'sp, 'qp, 'ep) endpoint \<Rightarrow> nat \<times> ('i, 'r, 'c, 'sp, 'qp, 'ep) endpoint" where
  "sweep_terminated_queries qry ep =
     (let to_remove = map fst (filter (\<lambda>(_, q). qy_terminal_emitted q) (pl_iter qry (ep_queries ep))) in
      (length to_remove, ep\<lparr>ep_queries := foldl (\<lambda>p key. snd (pl_remove qry p key)) (ep_queries ep) to_remove\<rparr>))"

definition poll_query_timeout ::
  "('i :: linorder, 'an, 'qe, 'qp, 'qf) query_pool \<Rightarrow> query_handle \<Rightarrow> ('i, 'r, 'c, 'sp, 'qp, 'ep) endpoint \<Rightarrow> 'i option" where
  "poll_query_timeout qry handle ep =
     (case query_key qry handle ep of
        None \<Rightarrow> None
      | Some key \<Rightarrow> (case pl_get qry (ep_queries ep) key of None \<Rightarrow> None | Some q \<Rightarrow> query_poll_timeout q))"

text \<open>The reading is that of the closure the operation calls.\<close>

definition poll_query_transmit ::
  "('i :: linorder, 'an, 'qe, 'qp, 'qf) query_pool \<Rightarrow> query_handle \<Rightarrow> 'i \<Rightarrow> bytes \<Rightarrow> ('i, 'r, 'c, 'sp, 'qp, 'ep) endpoint \<Rightarrow>
     ((transmit_error + transmit option) \<times> bytes) \<times> ('i, 'r, 'c, 'sp, 'qp, 'ep) endpoint" where
  "poll_query_transmit qry handle reading buf ep =
     with_query qry handle (Inr None, buf) (\<lambda>q. let (r, out, q) = query_poll_transmit reading buf q in ((r, out), q)) ep"

definition note_query_transmit_outcome ::
  "'i :: linorder clock \<Rightarrow> ('i, 'an, 'qe, 'qp, 'qf) query_pool \<Rightarrow> query_handle \<Rightarrow> 'i \<Rightarrow> 'i family_attempt \<Rightarrow> 'i family_attempt \<Rightarrow>
     ('i, 'r, 'c, 'sp, 'qp, 'ep) endpoint \<Rightarrow> transmit_confirm \<times> ('i, 'r, 'c, 'sp, 'qp, 'ep) endpoint" where
  "note_query_transmit_outcome clk qry handle now v4 v6 ep =
     with_query qry handle NOTHING (query_note_transmit_outcome clk now v4 v6) ep"

definition handle_query_timeout ::
  "('qe, 'ue) update_pool \<Rightarrow> ('i :: linorder, 'an, 'qe, 'qp, 'qf) query_pool \<Rightarrow> query_handle \<Rightarrow> 'i \<Rightarrow>
     ('i, 'r, 'c, 'sp, 'qp, 'ep) endpoint \<Rightarrow> (handle_timeout_error + unit) \<times> ('i, 'r, 'c, 'sp, 'qp, 'ep) endpoint" where
  "handle_query_timeout ev qry handle now ep = with_query qry handle (Inr ()) (query_handle_timeout ev now) ep"

definition retire_query ::
  "('qe, 'ue) update_pool \<Rightarrow> ('i, 'an, 'qe, 'qp, 'qf) query_pool \<Rightarrow> query_handle \<Rightarrow> ('i, 'r, 'c, 'sp, 'qp, 'ep) endpoint \<Rightarrow>
     ('i, 'r, 'c, 'sp, 'qp, 'ep) endpoint" where
  "retire_query ev qry handle ep = snd (with_query qry handle () (\<lambda>q. ((), retire ev q)) ep)"

definition cancel_query ::
  "('i, 'an, 'qe, 'qp, 'qf) query_pool \<Rightarrow> query_handle \<Rightarrow> ('i, 'r, 'c, 'sp, 'qp, 'ep) endpoint \<Rightarrow>
     (cancel_query_error + unit) \<times> ('i, 'r, 'c, 'sp, 'qp, 'ep) endpoint" where
  "cancel_query qry handle ep =
     (case query_key qry handle ep of
        None \<Rightarrow> (Inl (QueryNotFound handle), ep)
      | Some key \<Rightarrow> (Inr (), ep\<lparr>ep_queries := snd (pl_remove qry (ep_queries ep) key)\<rparr>))"

definition endpoint_collected_answers ::
  "('an, 'ae) answer_pool \<Rightarrow> ('i, 'an, 'qe, 'qp, 'qf) query_pool \<Rightarrow> query_handle \<Rightarrow> ('i, 'r, 'c, 'sp, 'qp, 'ep) endpoint \<Rightarrow>
     collected_answer list" where
  "endpoint_collected_answers an qry handle ep =
     (case query_key qry handle ep of
        None \<Rightarrow> []
      | Some key \<Rightarrow> (case pl_get qry (ep_queries ep) key of None \<Rightarrow> [] | Some q \<Rightarrow> collected_answers an q))"

definition query_accepted_count ::
  "('i, 'an, 'qe, 'qp, 'qf) query_pool \<Rightarrow> query_handle \<Rightarrow> ('i, 'r, 'c, 'sp, 'qp, 'ep) endpoint \<Rightarrow> nat option" where
  "query_accepted_count qry handle ep =
     (case query_key qry handle ep of
        None \<Rightarrow> None
      | Some key \<Rightarrow> map_option qy_next_seq (pl_get qry (ep_queries ep) key))"

end
