(* ===== verification/Receive.thy ===== *)
theory Receive
  imports EndpointService EndpointQuery
begin

text \<open>
  The front of the receive path (\<open>endpoint/receive.rs\<close>): what a datagram may do, the observation of its
  records by the queries and the cache, the suppression of questions another host just asked, and the
  endpoint's own timer.  What is routed to single state machines is in \<open>Route\<close>.
\<close>

definition v6_link_local :: "bytes \<Rightarrow> bool" where
  "v6_link_local ip \<longleftrightarrow> (case ip of a # b # _ \<Rightarrow> a = 0xfe \<and> 0x80 \<le> b \<and> b \<le> 0xbf | _ \<Rightarrow> False)"

fun scoped_match :: "bytes \<Rightarrow> u32 \<Rightarrow> bytes list \<Rightarrow> u32 list \<Rightarrow> nat \<Rightarrow> bool" where
  "scoped_match v6 index [] scopes i = False"
| "scoped_match v6 index (a # as) scopes i =
     (if a \<noteq> v6 then scoped_match v6 index as scopes (Suc i)
      else if \<not> v6_link_local v6 then True
      else
        let scope = (case get scopes i of Some s \<Rightarrow> s | None \<Rightarrow> 0) in
        if scope = 0 \<or> scope = index then True else scoped_match v6 index as scopes (Suc i))"

definition src_matches_advertised ::
  "('i, 'g, 'ev, 'sp, 'se) route_pool \<Rightarrow> ip_addr \<Rightarrow> u32 \<Rightarrow> ('i, 'r, 'c, 'sp, 'qp, 'ep) endpoint \<Rightarrow> bool" where
  "src_matches_advertised srv addr index ep =
     (case addr of
        IpV4 v4 \<Rightarrow> list_ex (\<lambda>(_, route). v4 \<in> set (rt_a_addrs route)) (pl_iter srv (ep_services ep))
      | IpV6 v6 \<Rightarrow> list_ex (\<lambda>(_, route). scoped_match v6 index (rt_aaaa_addrs route) (rt_aaaa_scopes route) 0)
          (pl_iter srv (ep_services ep)))"

text \<open>Every query in iteration order, changed in place.\<close>

definition update_queries ::
  "('i, 'an, 'qe, 'qp, 'qf) query_pool \<Rightarrow> (('i, 'an, 'qe) query \<Rightarrow> ('i, 'an, 'qe) query) \<Rightarrow>
     ('i, 'r, 'c, 'sp, 'qp, 'ep) endpoint \<Rightarrow> ('i, 'r, 'c, 'sp, 'qp, 'ep) endpoint" where
  "update_queries qry f ep = ep\<lparr>ep_queries :=
     foldl (\<lambda>p (key, q). pl_put qry p key (f q)) (ep_queries ep) (pl_iter qry (ep_queries ep))\<rparr>"

definition observe_answer ::
  "('an, 'ae) answer_pool \<Rightarrow> 'i :: linorder \<Rightarrow> record_ref \<Rightarrow> ('i, 'an, 'qe) query \<Rightarrow> ('i, 'an, 'qe) query" where
  "observe_answer an now r q =
     (if qy_done q \<or> qy_terminal_emitted q then q
      else if names_match_record (qy_qname q) r \<and> qry_query_accepts q r
      then query_handle_event an (Answer r) now q else q)"

type_synonym flushed_sets = "(name \<times> resource_type \<times> resource_class) list"

text \<open>One record of a response written into the cache; the list holds the record sets this datagram flushed.\<close>

definition cache_record ::
  "'i :: linorder clock \<Rightarrow> ('i, 'c, 'ce) entry_pool \<Rightarrow> 'i \<Rightarrow> record_ref \<Rightarrow> flushed_sets \<Rightarrow>
     ('i, 'r, 'c, 'sp, 'qp, 'ep) endpoint \<Rightarrow> flushed_sets \<times> ('i, 'r, 'c, 'sp, 'qp, 'ep) endpoint" where
  "cache_record clk ents now r seen ep =
     (case from_wire_labels (nr_items (rr_name r)) of
        None \<Rightarrow> (seen, ep)
      | Some name \<Rightarrow>
          (case canonical_rdata_folded r of
             Inl _ \<Rightarrow> (seen, ep)
           | Inr rdata \<Rightarrow>
               let ttl = secs (unat (rr_ttl r)); rtype = rr_rtype r; rclass = rr_rclass r;
                   do_flush = (rr_cache_flush r \<and> rr_ttl r \<noteq> 0 \<and>
                     \<not> list_ex (\<lambda>(n, t, c). as_str n = as_str name \<and> t = rtype \<and> c = rclass) seen);
                   ep = ep\<lparr>ep_cache := snd (try_insert clk ents name rtype rclass rdata ttl now do_flush (ep_cache ep))\<rparr> in
               (if do_flush then seen @ [(name, rtype, rclass)] else seen, ep)))"

fun observe_records ::
  "'i :: linorder clock \<Rightarrow> ('an, 'ae) answer_pool \<Rightarrow> ('i, 'c, 'ce) entry_pool \<Rightarrow> ('i, 'an, 'qe, 'qp, 'qf) query_pool \<Rightarrow> bool \<Rightarrow> bool \<Rightarrow> 'i \<Rightarrow>
     (parse_error + record_ref) list \<Rightarrow> flushed_sets \<Rightarrow> ('i, 'r, 'c, 'sp, 'qp, 'ep) endpoint \<Rightarrow> ('i, 'r, 'c, 'sp, 'qp, 'ep) endpoint" where
  "observe_records clk an ents qry populate_cache is_response now [] seen ep = ep"
| "observe_records clk an ents qry populate_cache is_response now (Inl _ # rs) seen ep = ep"
| "observe_records clk an ents qry populate_cache is_response now (Inr r # rs) seen ep =
     (let ep = (if is_response then update_queries qry (observe_answer an now r) ep else ep) in
      if \<not> populate_cache \<or> \<not> is_response
      then observe_records clk an ents qry populate_cache is_response now rs seen ep
      else
        let (seen, ep) = cache_record clk ents now r seen ep in
        observe_records clk an ents qry populate_cache is_response now rs seen ep)"

text \<open>A question another querier just sent to the group quiets our own.\<close>

definition quieted_by ::
  "'i :: linorder clock \<Rightarrow> ('qe, 'ue) update_pool \<Rightarrow> 'i \<Rightarrow> question_ref \<Rightarrow> ('i, 'an, 'qe) query \<Rightarrow> ('i, 'an, 'qe) query" where
  "quieted_by clk ev now q query =
     (if qy_done query then query
      else if qy_qtype query = q_type q \<and> qy_qclass query = q_class q \<and> names_match (qy_qname query) (q_name q)
      then snd (note_duplicate_question clk ev now query) else query)"

fun quiet_questions ::
  "'i :: linorder clock \<Rightarrow> ('qe, 'ue) update_pool \<Rightarrow> ('i, 'an, 'qe, 'qp, 'qf) query_pool \<Rightarrow> 'i \<Rightarrow>
     (parse_error + question_ref) list \<Rightarrow> ('i, 'r, 'c, 'sp, 'qp, 'ep) endpoint \<Rightarrow> ('i, 'r, 'c, 'sp, 'qp, 'ep) endpoint" where
  "quiet_questions clk ev qry now [] ep = ep"
| "quiet_questions clk ev qry now (Inl _ # qs) ep = ep"
| "quiet_questions clk ev qry now (Inr q # qs) ep = quiet_questions clk ev qry now qs
     (if q_unicast q \<or> q_class q \<noteq> Class_In then ep else update_queries qry (quieted_by clk ev now q) ep)"

subsection \<open>The state of one datagram on its way through the endpoint\<close>

datatype record_slot = SlotAnswer nat | SlotAuthority nat | SlotAdditional nat

fun slot_section :: "record_slot \<Rightarrow> record_section" where
  "slot_section (SlotAnswer _) = SecAnswer"
| "slot_section (SlotAuthority _) = SecAuthority"
| "slot_section (SlotAdditional _) = SecAdditional"

datatype section_state = AtQuestions | AtAnswers | AtAuthorityProposals | AtAuthority | AtAdditional | AtDone

record 'i route_events =
  re_src :: socket_addr
  re_reader :: message_reader
  re_now :: 'i
  re_is_response :: bool
  re_datagram :: datagram_id
  re_proposal_service_cursor :: "nat option"
  re_question_idx :: nat
  re_service_cursor :: nat
  re_answer_idx :: nat
  re_authority_idx :: nat
  re_pending_query :: "route_event option"
  re_answer_query_cursor :: "nat option"
  re_answer_service_cursor :: "nat option"
  re_answer_service_done :: bool
  re_authority_service_cursor :: "nat option"
  re_additional_idx :: nat
  re_additional_service_cursor :: "nat option"
  re_additional_service_done :: bool
  re_additional_query_cursor :: "nat option"
  re_admits :: admits
  re_section :: section_state
  re_relinquished_screen :: "(record_slot \<times> conflict_history) option"

text \<open>What the datagram may do, decided before anything is touched.\<close>

definition datagram_admits ::
  "('i, 'g, 'ev, 'sp, 'se) route_pool \<Rightarrow> received \<Rightarrow> message_reader \<Rightarrow> ('i, 'r, 'c, 'sp, 'qp, 'ep) endpoint \<Rightarrow> admits" where
  "datagram_admits srv rx rd ep =
     (let index = (case rx_interface_index rx of Some i \<Rightarrow> i | None \<Rightarrow> 0);
          is_response = flags_is_response (hdr_flags (mr_header rd));
          matched_advertised = (cf_trust_advertised_src_as_self (ep_config ep) \<and>
            src_matches_advertised srv (sock_ip (rx_src rx)) index ep);
          untrusted_response = (is_response \<and> sock_port (rx_src rx) \<noteq> MDNS_PORT) in
      for_datagram (rx_provenance rx) matched_advertised (cf_answer_questions (ep_config ep)) untrusted_response)"

definition observe ::
  "'i :: linorder clock \<Rightarrow> ('an, 'ae) answer_pool \<Rightarrow> ('i, 'c, 'ce) entry_pool \<Rightarrow> ('i, 'an, 'qe, 'qp, 'qf) query_pool \<Rightarrow> 'i \<Rightarrow>
     message_reader \<Rightarrow> admits \<Rightarrow> ('i, 'r, 'c, 'sp, 'qp, 'ep) endpoint \<Rightarrow> ('i, 'r, 'c, 'sp, 'qp, 'ep) endpoint" where
  "observe clk an ents qry now rd adm ep =
     (if ad_observation adm
      then observe_records clk an ents qry (cf_populate_cache (ep_config ep)) (flags_is_response (hdr_flags (mr_header rd))) now
             (record_items (answers rd) @ record_items (additional rd)) [] ep
      else ep)"

definition quiet ::
  "'i :: linorder clock \<Rightarrow> ('qe, 'ue) update_pool \<Rightarrow> ('i, 'an, 'qe, 'qp, 'qf) query_pool \<Rightarrow> 'i \<Rightarrow> socket_addr \<Rightarrow>
     message_reader \<Rightarrow> admits \<Rightarrow> ('i, 'r, 'c, 'sp, 'qp, 'ep) endpoint \<Rightarrow> ('i, 'r, 'c, 'sp, 'qp, 'ep) endpoint" where
  "quiet clk ev qry now src rd adm ep =
     (if ad_quieting adm \<and> \<not> flags_is_response (hdr_flags (mr_header rd)) \<and> sock_port src = MDNS_PORT \<and>
         answer_count (mr_header rd) = 0 \<and> \<not> flags_is_truncated (hdr_flags (mr_header rd))
      then quiet_questions clk ev qry now (question_items (questions rd)) ep else ep)"

definition endpoint_handle ::
  "'i :: linorder clock \<Rightarrow> ('an, 'ae) answer_pool \<Rightarrow> ('qe, 'ue) update_pool \<Rightarrow> ('i, 'g, 'ev, 'sp, 'se) route_pool \<Rightarrow>
     ('i, 'an, 'qe, 'qp, 'qf) query_pool \<Rightarrow> ('i, 'c, 'ce) entry_pool \<Rightarrow> 'i \<Rightarrow> received \<Rightarrow> ('i, 'r, 'c, 'sp, 'qp, 'ep) endpoint \<Rightarrow>
     (handle_error + 'i route_events) \<times> ('i, 'r, 'c, 'sp, 'qp, 'ep) endpoint" where
  "endpoint_handle clk an ev srv qry ents now rx ep =
     (case reader_try_parse (rx_data rx) of
        Inl e \<Rightarrow> (Inl (HE_Parse e), ep)
      | Inr rd \<Rightarrow>
          let flags = hdr_flags (mr_header rd) in
          if flags_opcode flags \<noteq> Opcode_Query then (Inl (HE_InvalidOpcode (flags_opcode flags)), ep)
          else if flags_response_code flags \<noteq> RC_NoError then (Inl (HE_InvalidResponseCode (flags_response_code flags)), ep)
          else
            let adm = datagram_admits srv rx rd ep;
                ep = observe clk an ents qry now rd adm ep;
                ep = quiet clk ev qry now (rx_src rx) rd adm ep;
                ep = ep\<lparr>ep_datagram_seq := ep_datagram_seq ep + 1\<rparr> in
            (Inr \<lparr>re_src = rx_src rx, re_reader = rd, re_now = now, re_is_response = flags_is_response flags,
                  re_datagram = DatagramId (ep_datagram_seq ep), re_proposal_service_cursor = None,
                  re_question_idx = 0, re_service_cursor = 0, re_answer_idx = 0, re_authority_idx = 0,
                  re_pending_query = None, re_answer_query_cursor = None, re_answer_service_cursor = None,
                  re_answer_service_done = False, re_authority_service_cursor = None, re_additional_idx = 0,
                  re_additional_service_cursor = None, re_additional_service_done = False,
                  re_additional_query_cursor = None, re_admits = adm,
                  re_section = (if all_denied adm then AtDone else AtQuestions),
                  re_relinquished_screen = None\<rparr>, ep))"

subsection \<open>The endpoint's own timer and events\<close>

definition next_withdrawal_deadline :: "('i :: linorder, 'r, 'c, 'sp, 'qp, 'ep) endpoint \<Rightarrow> 'i option" where
  "next_withdrawal_deadline ep =
     (case map (\<lambda>(_, w). min (wi_next_at w) (wi_ceiling_at w)) (ep_withdrawals ep) of
        [] \<Rightarrow> None | t # ts \<Rightarrow> Some (foldl min t ts))"

definition has_pending_withdrawals :: "('i, 'r, 'c, 'sp, 'qp, 'ep) endpoint \<Rightarrow> bool" where
  "has_pending_withdrawals ep \<longleftrightarrow> ep_withdrawals ep \<noteq> []"

definition endpoint_poll_timeout :: "('i :: linorder, 'c, 'ce) entry_pool \<Rightarrow> ('i, 'r, 'c, 'sp, 'qp, 'ep) endpoint \<Rightarrow> 'i option" where
  "endpoint_poll_timeout ents ep =
     (case (next_expiration ents (ep_cache ep), next_withdrawal_deadline ep) of
        (Some c, Some w) \<Rightarrow> Some (min c w)
      | (Some c, None) \<Rightarrow> Some c
      | (None, w) \<Rightarrow> w)"

definition endpoint_handle_timeout ::
  "('i :: linorder, 'c, 'ce) entry_pool \<Rightarrow> (endpoint_event, 'ep, 'ee) pool_ops \<Rightarrow> 'i \<Rightarrow> ('i, 'r, 'c, 'sp, 'qp, 'ep) endpoint \<Rightarrow>
     (handle_timeout_error + unit) \<times> ('i, 'r, 'c, 'sp, 'qp, 'ep) endpoint" where
  "endpoint_handle_timeout ents eps now ep =
     (let ep = sweep_relinquished now ep;
          (n, cache) = sweep_expired ents now (ep_cache ep);
          ep = ep\<lparr>ep_cache := cache\<rparr>;
          ep = (if 0 < n then ep\<lparr>ep_pending_events := snd (pl_insert eps (ep_pending_events ep) CacheExpired)\<rparr> else ep) in
      (Inr (), ep))"

definition endpoint_poll ::
  "(endpoint_event, 'ep, 'ee) pool_ops \<Rightarrow> ('i, 'r, 'c, 'sp, 'qp, 'ep) endpoint \<Rightarrow> endpoint_event option \<times> ('i, 'r, 'c, 'sp, 'qp, 'ep) endpoint" where
  "endpoint_poll eps ep =
     (case pl_iter eps (ep_pending_events ep) of
        [] \<Rightarrow> (None, ep)
      | (key, _) # _ \<Rightarrow> let (e, p) = pl_remove eps (ep_pending_events ep) key in (e, ep\<lparr>ep_pending_events := p\<rparr>))"

text \<open>\<open>Endpoint::poll_transmit\<close>: the endpoint itself sends nothing.\<close>

definition endpoint_poll_transmit :: "'i \<Rightarrow> bytes \<Rightarrow> ('i, 'r, 'c, 'sp, 'qp, 'ep) endpoint \<Rightarrow> transmit_error + transmit option" where
  "endpoint_poll_transmit now buf ep = Inr None"

end
