(* ===== verification/Route.thy ===== *)
theory Route
  imports Receive
begin

text \<open>
  Routing (\<open>endpoint/route.rs\<close>): an iterator that walks the sections of one datagram, hands every question,
  known answer, proposal and conflict to the services it concerns, and yields the answers the queries take.
  One turn of its loop is a step; a cursor over the keys of the pool resumes a fan-out.
\<close>

subsection \<open>Reading an item by its index\<close>

definition question_at :: "message_reader \<Rightarrow> nat \<Rightarrow> (parse_error + question_ref) option" where
  "question_at rd n = fst (questions_next (((\<lambda>it. snd (questions_next it)) ^^ n) (questions rd)))"

definition record_at :: "section_iter \<Rightarrow> nat \<Rightarrow> (parse_error + record_ref) option" where
  "record_at it n = fst (records_next (((\<lambda>it. snd (records_next it)) ^^ n) it))"

subsection \<open>What the authority section proposes\<close>

fun proposes_loop :: "proposal_scope \<Rightarrow> (parse_error + record_ref) list \<Rightarrow> bool" where
  "proposes_loop scope [] = False"
| "proposes_loop scope (Inl _ # rs) = False"
| "proposes_loop scope (Inr r # rs) =
     (case scope_admits r scope of
        (Inr Ours, _) \<Rightarrow> True
      | (Inr (NotOurs _), scope) \<Rightarrow> proposes_loop scope rs
      | (Inl _, _) \<Rightarrow> False)"

definition authority_proposes_for :: "message_reader \<Rightarrow> name \<Rightarrow> bool" where
  "authority_proposes_for rd n = proposes_loop (scope_new (question_items (questions rd)) n) (record_items (authority rd))"

fun probe_loop :: "proposal_scope \<Rightarrow> (parse_error + record_ref) list \<Rightarrow> bool" where
  "probe_loop scope [] = False"
| "probe_loop scope (Inl _ # rs) = False"
| "probe_loop scope (Inr r # rs) =
     (if \<not> name_fully_decodes (rr_name r) then probe_loop scope rs
      else case scope_admits r scope of
        (Inr Ours, _) \<Rightarrow> True
      | (Inl _, _) \<Rightarrow> True
      | (Inr (NotOurs _), scope) \<Rightarrow> probe_loop scope rs)"

definition is_probe_for :: "message_reader \<Rightarrow> name \<Rightarrow> bool" where
  "is_probe_for rd n = probe_loop (scope_new (question_items (questions rd)) n) (record_items (authority rd))"

subsection \<open>Conflicts a record raises\<close>

text \<open>The screen is computed once per record and kept.\<close>

definition relinquished_screens ::
  "record_ref \<Rightarrow> record_slot \<Rightarrow> ('i :: linorder, 'r, 'c, 'sp, 'qp, 'ep) endpoint \<Rightarrow> 'i route_events \<Rightarrow> conflict_history \<times> 'i route_events" where
  "relinquished_screens r slot ep re =
     (let compute = (let answer = (if relinquished_asserts r (re_now re) (family_of (re_src re)) (slot_section slot) ep
                         then Relinquished else Unmatched) in
            (answer, re\<lparr>re_relinquished_screen := Some (slot, answer)\<rparr>)) in
      case re_relinquished_screen re of
        Some (cached, answer) \<Rightarrow> if cached = slot then (answer, re) else compute
      | None \<Rightarrow> compute)"

text \<open>
  A cursor is left behind the key just served: \<open>key.saturating_add(1)\<close> on a \<open>usize\<close>, here of 64 bits.
  At the greatest key it stays where it is.
\<close>

abbreviation usize_max :: nat where "usize_max \<equiv> u64_max"

definition past_key :: "nat \<Rightarrow> nat" where "past_key key = sat_add usize_max key 1"

text \<open>The first live route at or after the cursor for which the body yields something.\<close>

fun find_route :: "nat \<Rightarrow> (('i, 'g, 'ev) service_route \<Rightarrow> 'a option) \<Rightarrow> (nat \<times> ('i, 'g, 'ev) service_route) list \<Rightarrow> (nat \<times> 'a) option" where
  "find_route start f [] = None"
| "find_route start f ((key, route) # rs) =
     (if key < start then find_route start f rs
      else if rt_withdrawing route then find_route start f rs
      else case f route of Some x \<Rightarrow> Some (key, x) | None \<Rightarrow> find_route start f rs)"

definition host_match :: "record_ref \<Rightarrow> ('i, 'g, 'ev) service_route \<Rightarrow> bool" where
  "host_match r route \<longleftrightarrow> names_match_record (rt_host route) r \<and> is_host_conflict_rtype (rr_rtype r) \<and>
     route_publishes_host_rtype route (rr_rtype r)"

definition next_host_conflict ::
  "('i :: linorder, 'g, 'ev, 'sp, 'se) route_pool \<Rightarrow> record_ref \<Rightarrow> nat \<Rightarrow> conflict_origin \<Rightarrow> record_slot \<Rightarrow> ('i, 'r, 'c, 'sp, 'qp, 'ep) endpoint \<Rightarrow>
     'i route_events \<Rightarrow> (nat \<times> service_event) option \<times> 'i route_events" where
  "next_host_conflict srv r start origin slot ep re =
     (if rr_rclass r \<noteq> Class_In then (None, re)
      else
        let (history, re) = relinquished_screens r slot ep re in
        if history = Relinquished then (None, re)
        else (find_route start (\<lambda>route. if host_match r route
            then Some (SE_HostConflict \<lparr>hc_record = r, hc_origin = origin, hc_datagram = re_datagram re\<rparr>) else None)
          (pl_iter srv (ep_services ep)), re))"

text \<open>What one route makes of a record: its host first, then, unless the host match was an echo of our own, its instance.\<close>

definition route_conflict :: "record_ref \<Rightarrow> conflict_origin \<Rightarrow> conflict_history \<Rightarrow> 'i route_events \<Rightarrow> ('i, 'g, 'ev) service_route \<Rightarrow> service_event option" where
  "route_conflict r origin history re route =
     (if host_match r route \<and> history \<noteq> Relinquished
      then Some (SE_HostConflict \<lparr>hc_record = r, hc_origin = origin, hc_datagram = re_datagram re\<rparr>)
      else if host_match r route \<and> \<not> names_match_record (rt_name route) r then None
      else
        let role = (if host_match r route then InstanceAndHost else RoleInstance) in
        if names_match_record (rt_name route) r
        then Some (SE_ProbeConflict \<lparr>pc_src = re_src re, pc_record = r, pc_datagram = re_datagram re,
               pc_history = history, pc_role = role\<rparr>)
        else None)"

definition next_service_conflict ::
  "('i :: linorder, 'g, 'ev, 'sp, 'se) route_pool \<Rightarrow> record_ref \<Rightarrow> nat \<Rightarrow> conflict_origin \<Rightarrow> record_slot \<Rightarrow> ('i, 'r, 'c, 'sp, 'qp, 'ep) endpoint \<Rightarrow>
     'i route_events \<Rightarrow> (nat \<times> service_event) option \<times> 'i route_events" where
  "next_service_conflict srv r start origin slot ep re =
     (if rr_rclass r \<noteq> Class_In then (None, re)
      else
        let (history, re) = relinquished_screens r slot ep re in
        (find_route start (route_conflict r origin history re) (pl_iter srv (ep_services ep)), re))"

subsection \<open>Handing an event to a service\<close>

definition dispatch ::
  "'i :: linorder clock \<Rightarrow> ('g \<Rightarrow> u32 \<times> 'g) \<Rightarrow> (service_update, 'ev, 'e) pool_ops \<Rightarrow> ('i, 'g, 'ev, 'sp, 'se) route_pool \<Rightarrow>
     'i \<Rightarrow> nat \<Rightarrow> service_event \<Rightarrow> ('i, 'r, 'c, 'sp, 'qp, 'ep) endpoint \<Rightarrow> ('i, 'r, 'c, 'sp, 'qp, 'ep) endpoint" where
  "dispatch clk draw evs srv now key event ep =
     (case pl_get srv (ep_services ep) key of
        None \<Rightarrow> ep
      | Some route \<Rightarrow>
          let (proto, flood) = service_handle_event clk draw evs event now (ep_flood ep) (rt_proto route) in
          (put_route srv key (route\<lparr>rt_proto := proto\<rparr>) ep)\<lparr>ep_flood := flood\<rparr>)"

text \<open>A turn of the loop goes round again or returns an item.\<close>

datatype turn = Continue | Return "(handle_error + route_event) option"

type_synonym ('i, 'r, 'c, 'sp, 'qp, 'ep) turned = "turn \<times> 'i route_events \<times> ('i, 'r, 'c, 'sp, 'qp, 'ep) endpoint"

definition idx_next :: "nat \<Rightarrow> nat" where "idx_next i = sat_add 65535 i 1"

subsection \<open>Questions\<close>

text \<open>Whether a route is asked; the verdict whether the datagram is a probe is reached once per scan.\<close>

definition question_verdict ::
  "message_reader \<Rightarrow> question_ref \<Rightarrow> bool \<Rightarrow> bool option \<Rightarrow> ('i, 'g, 'ev) service_route \<Rightarrow> bool \<times> bool option" where
  "question_verdict rd q defence_only is_a_probe route =
     (let questioned = (if names_match (rt_name route) (q_name q) then Some (rt_name route)
            else if names_match (rt_host route) (q_name q) then Some (rt_host route) else None);
          (unique_name_match, is_a_probe) = (case questioned of
              None \<Rightarrow> (False, is_a_probe)
            | Some name \<Rightarrow>
                if \<not> defence_only then (True, is_a_probe)
                else case is_a_probe of
                  Some known \<Rightarrow> (known, is_a_probe)
                | None \<Rightarrow> (is_probe_for rd name, Some (is_probe_for rd name))) in
      (unique_name_match \<or> (\<not> defence_only \<and>
         (names_match (rt_service_type route) (q_name q) \<or>
          list_ex (\<lambda>s. names_match s (q_name q)) (rt_subtypes route) \<or> is_meta_query_name (q_name q))), is_a_probe))"

fun find_questioned ::
  "message_reader \<Rightarrow> question_ref \<Rightarrow> bool \<Rightarrow> nat \<Rightarrow> bool option \<Rightarrow> (nat \<times> ('i, 'g, 'ev) service_route) list \<Rightarrow> nat option" where
  "find_questioned rd q defence_only cursor is_a_probe [] = None"
| "find_questioned rd q defence_only cursor is_a_probe ((key, route) # rs) =
     (if key < cursor then find_questioned rd q defence_only cursor is_a_probe rs
      else if rt_withdrawing route then find_questioned rd q defence_only cursor is_a_probe rs
      else
        let (asked, is_a_probe) = question_verdict rd q defence_only is_a_probe route in
        if asked then Some key else find_questioned rd q defence_only cursor is_a_probe rs)"

definition question_turn ::
  "'i :: linorder clock \<Rightarrow> ('g \<Rightarrow> u32 \<times> 'g) \<Rightarrow> (service_update, 'ev, 'e) pool_ops \<Rightarrow> ('i, 'g, 'ev, 'sp, 'se) route_pool \<Rightarrow>
     'i route_events \<Rightarrow> ('i, 'r, 'c, 'sp, 'qp, 'ep) endpoint \<Rightarrow> ('i, 'r, 'c, 'sp, 'qp, 'ep) turned" where
  "question_turn clk draw evs srv re ep =
     (let leave = (Continue, re\<lparr>re_section := AtAnswers\<rparr>, ep); hdr = mr_header (re_reader re);
          defence_only = (ad_answering (re_admits re) = DefenceOnly);
          could_be_a_probe = (\<not> re_is_response re \<and> authority_count hdr > 0 \<and> sock_port (re_src re) = MDNS_PORT) in
      if ad_answering (re_admits re) = AnswerNone then leave
      else if defence_only \<and> \<not> could_be_a_probe then leave
      else if unat (question_count hdr) \<le> re_question_idx re then leave
      else case question_at (re_reader re) (re_question_idx re) of
        None \<Rightarrow> leave
      | Some (Inl e) \<Rightarrow> (Return (Some (Inl (HE_Parse e))), re\<lparr>re_section := AtAnswers\<rparr>, ep)
      | Some (Inr q) \<Rightarrow>
          (case find_questioned (re_reader re) q defence_only (re_service_cursor re) None (pl_iter srv (ep_services ep)) of
             Some key \<Rightarrow>
               (Continue, re\<lparr>re_service_cursor := past_key key\<rparr>,
                dispatch clk draw evs srv (re_now re) key
                  (SE_Question ((service_question_new q (re_src re) (hdr_id hdr))\<lparr>sq_truncated := flags_is_truncated (hdr_flags hdr)\<rparr>)) ep)
           | None \<Rightarrow> (Continue, re\<lparr>re_question_idx := idx_next (re_question_idx re), re_service_cursor := 0\<rparr>, ep)))"

subsection \<open>Answers\<close>

definition next_answer_index :: "'i route_events \<Rightarrow> 'i route_events" where
  "next_answer_index re = re\<lparr>re_answer_idx := idx_next (re_answer_idx re), re_answer_service_cursor := None,
     re_answer_service_done := False, re_answer_query_cursor := None\<rparr>"

definition known_answer_match :: "record_ref \<Rightarrow> ('i, 'g, 'ev) service_route \<Rightarrow> bool" where
  "known_answer_match r route \<longleftrightarrow> names_match_record (rt_name route) r \<or> names_match_record (rt_host route) r \<or>
     names_match_record (rt_service_type route) r \<or> is_meta_query_name (rr_name r)"

definition query_takes :: "'i :: linorder \<Rightarrow> record_ref \<Rightarrow> ('i, 'an, 'qe) query \<Rightarrow> bool" where
  "query_takes now r q \<longleftrightarrow> \<not> (qy_done q \<or> qy_terminal_emitted q \<or> caller_window_shut now q) \<and>
     names_match_record (qy_qname q) r \<and> qry_query_accepts q r"

definition find_query :: "'i :: linorder \<Rightarrow> record_ref \<Rightarrow> nat \<Rightarrow> (nat \<times> ('i, 'an, 'qe) query) list \<Rightarrow> (nat \<times> ('i, 'an, 'qe) query) option" where
  "find_query now r start qs = find (\<lambda>(key, q). start \<le> key \<and> query_takes now r q) qs"

definition cursor_start :: "nat option \<Rightarrow> nat" where
  "cursor_start c = (case c of Some k \<Rightarrow> k | None \<Rightarrow> 0)"

text \<open>The service side of an answer: a conflict in a response, a known answer in a query.\<close>

definition answer_event ::
  "('i :: linorder, 'g, 'ev, 'sp, 'se) route_pool \<Rightarrow> record_ref \<Rightarrow> 'i route_events \<Rightarrow> ('i, 'r, 'c, 'sp, 'qp, 'ep) endpoint \<Rightarrow>
     (nat \<times> service_event) option \<times> 'i route_events" where
  "answer_event srv r re ep =
     (let start = cursor_start (re_answer_service_cursor re) in
      if re_is_response re
      then (if ad_adjudication (re_admits re)
            then next_service_conflict srv r start AuthoritativeResponse (SlotAnswer (re_answer_idx re)) ep re
            else (None, re))
      else if \<not> ad_quieting (re_admits re) then (None, re)
      else (find_route start (\<lambda>route. if known_answer_match r route
                then Some (SE_KnownAnswer \<lparr>ka_src = re_src re, ka_record = r\<rparr>) else None)
              (pl_iter srv (ep_services ep)), re))"

definition to_query_item :: "('i, 'an, 'qe) query \<Rightarrow> record_ref \<Rightarrow> turn" where
  "to_query_item q r = Return (Some (Inr (ToQuery \<lparr>tq_handle = qy_handle q, tq_event = Answer r\<rparr>)))"

definition answer_query_turn ::
  "('i :: linorder, 'an, 'qe, 'qp, 'qf) query_pool \<Rightarrow> record_ref \<Rightarrow> 'i route_events \<Rightarrow> ('i, 'r, 'c, 'sp, 'qp, 'ep) endpoint \<Rightarrow>
     ('i, 'r, 'c, 'sp, 'qp, 'ep) turned" where
  "answer_query_turn qry r re ep =
     (if re_is_response re \<and> ad_observation (re_admits re)
      then (case find_query (re_now re) r (cursor_start (re_answer_query_cursor re)) (pl_iter qry (ep_queries ep)) of
              Some (key, q) \<Rightarrow> (to_query_item q r, re\<lparr>re_answer_query_cursor := Some (past_key key)\<rparr>, ep)
            | None \<Rightarrow> (Continue, next_answer_index re, ep))
      else (Continue, next_answer_index re, ep))"

definition answer_turn ::
  "'i :: linorder clock \<Rightarrow> ('g \<Rightarrow> u32 \<times> 'g) \<Rightarrow> (service_update, 'ev, 'e) pool_ops \<Rightarrow> ('i, 'g, 'ev, 'sp, 'se) route_pool \<Rightarrow>
     ('i, 'an, 'qe, 'qp, 'qf) query_pool \<Rightarrow> 'i route_events \<Rightarrow> ('i, 'r, 'c, 'sp, 'qp, 'ep) endpoint \<Rightarrow> ('i, 'r, 'c, 'sp, 'qp, 'ep) turned" where
  "answer_turn clk draw evs srv qry re ep =
     (let leave = re\<lparr>re_section := AtAuthorityProposals\<rparr> in
      if unat (answer_count (mr_header (re_reader re))) \<le> re_answer_idx re then (Continue, leave, ep)
      else case record_at (answers (re_reader re)) (re_answer_idx re) of
        None \<Rightarrow> (Continue, leave, ep)
      | Some (Inl e) \<Rightarrow> (Return (Some (Inl (HE_Parse e))), leave, ep)
      | Some (Inr r) \<Rightarrow>
          if rr_ttl r = 0 then (Continue, next_answer_index re, ep)
          else if re_answer_service_done re then answer_query_turn qry r re ep
          else
            (case answer_event srv r re ep of
               (Some (key, event), re) \<Rightarrow>
                 (Continue, re\<lparr>re_answer_service_cursor := Some (past_key key)\<rparr>, dispatch clk draw evs srv (re_now re) key event ep)
             | (None, re) \<Rightarrow> answer_query_turn qry r (re\<lparr>re_answer_service_done := True\<rparr>) ep))"

subsection \<open>Proposals and authority\<close>

definition proposal_turn ::
  "'i :: linorder clock \<Rightarrow> ('g \<Rightarrow> u32 \<times> 'g) \<Rightarrow> (service_update, 'ev, 'e) pool_ops \<Rightarrow> ('i, 'g, 'ev, 'sp, 'se) route_pool \<Rightarrow>
     'i route_events \<Rightarrow> ('i, 'r, 'c, 'sp, 'qp, 'ep) endpoint \<Rightarrow> ('i, 'r, 'c, 'sp, 'qp, 'ep) turned" where
  "proposal_turn clk draw evs srv re ep =
     (let leave = (Continue, re\<lparr>re_section := AtAuthority\<rparr>, ep) in
      if re_is_response re \<or> sock_port (re_src re) \<noteq> MDNS_PORT then leave
      else if \<not> ad_adjudication (re_admits re) then leave
      else case find_route (cursor_start (re_proposal_service_cursor re))
            (\<lambda>route. if authority_proposes_for (re_reader re) (rt_name route)
              then Some (SE_ProbeProposal \<lparr>pp_src = re_src re, pp_reader = re_reader re, pp_datagram = re_datagram re\<rparr>) else None)
            (pl_iter srv (ep_services ep)) of
        Some (key, event) \<Rightarrow>
          (Continue, re\<lparr>re_proposal_service_cursor := Some (past_key key)\<rparr>, dispatch clk draw evs srv (re_now re) key event ep)
      | None \<Rightarrow> leave)"

definition authority_turn ::
  "'i :: linorder clock \<Rightarrow> ('g \<Rightarrow> u32 \<times> 'g) \<Rightarrow> (service_update, 'ev, 'e) pool_ops \<Rightarrow> ('i, 'g, 'ev, 'sp, 'se) route_pool \<Rightarrow>
     'i route_events \<Rightarrow> ('i, 'r, 'c, 'sp, 'qp, 'ep) endpoint \<Rightarrow> ('i, 'r, 'c, 'sp, 'qp, 'ep) turned" where
  "authority_turn clk draw evs srv re ep =
     (let leave = (Continue, re\<lparr>re_section := AtAdditional\<rparr>, ep);
          next_index = (\<lambda>re. re\<lparr>re_authority_idx := idx_next (re_authority_idx re), re_authority_service_cursor := None\<rparr>) in
      if sock_port (re_src re) \<noteq> MDNS_PORT then leave
      else if \<not> ad_adjudication (re_admits re) then leave
      else if unat (authority_count (mr_header (re_reader re))) \<le> re_authority_idx re then leave
      else case record_at (authority (re_reader re)) (re_authority_idx re) of
        None \<Rightarrow> leave
      | Some (Inl e) \<Rightarrow> (Return (Some (Inl (HE_Parse e))), re\<lparr>re_section := AtDone\<rparr>, ep)
      | Some (Inr r) \<Rightarrow>
          if rr_ttl r = 0 then (Continue, next_index re, ep)
          else
            let start = cursor_start (re_authority_service_cursor re); slot = SlotAuthority (re_authority_idx re) in
            (case (if re_is_response re then next_service_conflict srv r start AuthoritativeResponse slot ep re
                   else next_host_conflict srv r start TentativeProbe slot ep re) of
               (Some (key, event), re) \<Rightarrow>
                 (Continue, re\<lparr>re_authority_service_cursor := Some (past_key key)\<rparr>, dispatch clk draw evs srv (re_now re) key event ep)
             | (None, re) \<Rightarrow> (Continue, next_index re, ep)))"

subsection \<open>Additional records\<close>

definition next_additional_index :: "'i route_events \<Rightarrow> 'i route_events" where
  "next_additional_index re = re\<lparr>re_additional_idx := idx_next (re_additional_idx re), re_additional_service_cursor := None,
     re_additional_service_done := False, re_additional_query_cursor := None\<rparr>"

definition additional_query_turn ::
  "('i :: linorder, 'an, 'qe, 'qp, 'qf) query_pool \<Rightarrow> record_ref \<Rightarrow> 'i route_events \<Rightarrow> ('i, 'r, 'c, 'sp, 'qp, 'ep) endpoint \<Rightarrow>
     ('i, 'r, 'c, 'sp, 'qp, 'ep) turned" where
  "additional_query_turn qry r re ep =
     (if ad_observation (re_admits re)
      then (case find_query (re_now re) r (cursor_start (re_additional_query_cursor re)) (pl_iter qry (ep_queries ep)) of
              Some (key, q) \<Rightarrow> (to_query_item q r, re\<lparr>re_additional_query_cursor := Some (past_key key)\<rparr>, ep)
            | None \<Rightarrow> (Continue, next_additional_index re, ep))
      else (Continue, next_additional_index re, ep))"

definition additional_turn ::
  "'i :: linorder clock \<Rightarrow> ('g \<Rightarrow> u32 \<times> 'g) \<Rightarrow> (service_update, 'ev, 'e) pool_ops \<Rightarrow> ('i, 'g, 'ev, 'sp, 'se) route_pool \<Rightarrow>
     ('i, 'an, 'qe, 'qp, 'qf) query_pool \<Rightarrow> 'i route_events \<Rightarrow> ('i, 'r, 'c, 'sp, 'qp, 'ep) endpoint \<Rightarrow> ('i, 'r, 'c, 'sp, 'qp, 'ep) turned" where
  "additional_turn clk draw evs srv qry re ep =
     (let leave = re\<lparr>re_section := AtDone\<rparr> in
      if \<not> re_is_response re then (Continue, leave, ep)
      else if unat (additional_count (mr_header (re_reader re))) \<le> re_additional_idx re then (Continue, leave, ep)
      else case record_at (additional (re_reader re)) (re_additional_idx re) of
        None \<Rightarrow> (Continue, leave, ep)
      | Some (Inl e) \<Rightarrow> (Return (Some (Inl (HE_Parse e))), leave, ep)
      | Some (Inr r) \<Rightarrow>
          if rr_ttl r = 0 then (Continue, next_additional_index re, ep)
          else if re_additional_service_done re then additional_query_turn qry r re ep
          else
            (case (if ad_adjudication (re_admits re)
                   then next_service_conflict srv r (cursor_start (re_additional_service_cursor re)) AuthoritativeResponse
                          (SlotAdditional (re_additional_idx re)) ep re
                   else (None, re)) of
               (Some (key, event), re) \<Rightarrow>
                 (Continue, re\<lparr>re_additional_service_cursor := Some (past_key key)\<rparr>, dispatch clk draw evs srv (re_now re) key event ep)
             | (None, re) \<Rightarrow> additional_query_turn qry r (re\<lparr>re_additional_service_done := True\<rparr>) ep))"

subsection \<open>The iterator\<close>

definition route_turn ::
  "'i :: linorder clock \<Rightarrow> ('g \<Rightarrow> u32 \<times> 'g) \<Rightarrow> (service_update, 'ev, 'e) pool_ops \<Rightarrow> ('i, 'g, 'ev, 'sp, 'se) route_pool \<Rightarrow>
     ('i, 'an, 'qe, 'qp, 'qf) query_pool \<Rightarrow> 'i route_events \<Rightarrow> ('i, 'r, 'c, 'sp, 'qp, 'ep) endpoint \<Rightarrow> ('i, 'r, 'c, 'sp, 'qp, 'ep) turned" where
  "route_turn clk draw evs srv qry re ep =
     (case re_section re of
        AtQuestions \<Rightarrow> question_turn clk draw evs srv re ep
      | AtAnswers \<Rightarrow> answer_turn clk draw evs srv qry re ep
      | AtAuthorityProposals \<Rightarrow> proposal_turn clk draw evs srv re ep
      | AtAuthority \<Rightarrow> authority_turn clk draw evs srv re ep
      | AtAdditional \<Rightarrow> additional_turn clk draw evs srv qry re ep
      | AtDone \<Rightarrow> (Return None, re, ep))"

partial_function (option) route_loop ::
  "'i :: linorder clock \<Rightarrow> ('g \<Rightarrow> u32 \<times> 'g) \<Rightarrow> (service_update, 'ev, 'e) pool_ops \<Rightarrow> ('i, 'g, 'ev, 'sp, 'se) route_pool \<Rightarrow>
     ('i, 'an, 'qe, 'qp, 'qf) query_pool \<Rightarrow> 'i route_events \<Rightarrow> ('i, 'r, 'c, 'sp, 'qp, 'ep) endpoint \<Rightarrow>
     ((handle_error + route_event) option \<times> 'i route_events \<times> ('i, 'r, 'c, 'sp, 'qp, 'ep) endpoint) option" where
  [code]: "route_loop clk draw evs srv qry re ep =
     (case route_turn clk draw evs srv qry re ep of
        (Return item, re, ep) \<Rightarrow> Some (item, re, ep)
      | (Continue, re, ep) \<Rightarrow> route_loop clk draw evs srv qry re ep)"

definition route_next ::
  "'i :: linorder clock \<Rightarrow> ('g \<Rightarrow> u32 \<times> 'g) \<Rightarrow> (service_update, 'ev, 'e) pool_ops \<Rightarrow> ('i, 'g, 'ev, 'sp, 'se) route_pool \<Rightarrow>
     ('i, 'an, 'qe, 'qp, 'qf) query_pool \<Rightarrow> 'i route_events \<Rightarrow> ('i, 'r, 'c, 'sp, 'qp, 'ep) endpoint \<Rightarrow>
     ((handle_error + route_event) option \<times> 'i route_events \<times> ('i, 'r, 'c, 'sp, 'qp, 'ep) endpoint) option" where
  "route_next clk draw evs srv qry re ep =
     (case re_pending_query re of
        Some ev \<Rightarrow> Some (Some (Inr ev), re\<lparr>re_pending_query := None\<rparr>, ep)
      | None \<Rightarrow> route_loop clk draw evs srv qry re ep)"

text \<open>The items a \<open>for\<close> loop over the iterator sees, and the endpoint it leaves.\<close>

partial_function (option) route_all ::
  "'i :: linorder clock \<Rightarrow> ('g \<Rightarrow> u32 \<times> 'g) \<Rightarrow> (service_update, 'ev, 'e) pool_ops \<Rightarrow> ('i, 'g, 'ev, 'sp, 'se) route_pool \<Rightarrow>
     ('i, 'an, 'qe, 'qp, 'qf) query_pool \<Rightarrow> (handle_error + route_event) list \<Rightarrow> 'i route_events \<Rightarrow> ('i, 'r, 'c, 'sp, 'qp, 'ep) endpoint \<Rightarrow>
     ((handle_error + route_event) list \<times> ('i, 'r, 'c, 'sp, 'qp, 'ep) endpoint) option" where
  [code]: "route_all clk draw evs srv qry items re ep =
     Option.bind (route_next clk draw evs srv qry re ep) (\<lambda>(item, re, ep).
       case item of None \<Rightarrow> Some (items, ep) | Some x \<Rightarrow> route_all clk draw evs srv qry (items @ [x]) re ep)"

end
