(* ===== verification/RouteLife.thy ===== *)
theory RouteLife
  imports Route
begin

text \<open>
  Routing ends: every turn of the loop moves on in the section, the record, the service side or the
  fan-out, so the iterator yields finitely many items and then nothing, as long as no key is the greatest
  \<open>usize\<close>, which a cursor cannot leave.  What a turn does to the endpoint needs no such bound.
\<close>

definition services_ok :: "('i, 'g, 'ev, 'sp, 'se) route_pool \<Rightarrow> ('sp \<Rightarrow> bool) \<Rightarrow> ('i, 'r, 'c, 'sp, 'qp, 'ep) endpoint \<Rightarrow> bool" where
  "services_ok srv pinv ep \<longleftrightarrow> pool srv pinv \<and> pinv (ep_services ep)"

abbreviation routes :: "('i, 'g, 'ev, 'sp, 'se) route_pool \<Rightarrow> ('i, 'r, 'c, 'sp, 'qp, 'ep) endpoint \<Rightarrow> nat \<Rightarrow> ('i, 'g, 'ev) service_route option" where
  "routes srv ep \<equiv> pmap srv (ep_services ep)"

lemma services_okD: "services_ok srv pinv ep \<Longrightarrow> pool srv pinv" "services_ok srv pinv ep \<Longrightarrow> pinv (ep_services ep)"
  by (simp_all add: services_ok_def)

lemma route_get: "services_ok srv pinv ep \<Longrightarrow> pl_get srv (ep_services ep) k = routes srv ep k"
  using pool.get_map [of srv pinv "ep_services ep" k] by (simp add: services_ok_def)

lemma route_mem: "services_ok srv pinv ep \<Longrightarrow> (k, route) \<in> set (pl_iter srv (ep_services ep)) \<longleftrightarrow> routes srv ep k = Some route"
  using pool.mem_iter [of srv pinv "ep_services ep" k route] by (simp add: services_ok_def)

lemma put_route_ok:
  assumes "services_ok srv pinv ep" "routes srv ep k \<noteq> None"
  shows "services_ok srv pinv (put_route srv k route ep)" "routes srv (put_route srv k route ep) = (routes srv ep)(k \<mapsto> route)"
  using assms pool.put_inv [of srv pinv "ep_services ep" k route] pool.put_map [of srv pinv "ep_services ep" k route]
  by (simp_all add: services_ok_def put_route_def domIff)

lemma put_route_simps [simp]:
  "ep_queries (put_route srv k route ep) = ep_queries ep" "ep_withdrawals (put_route srv k route ep) = ep_withdrawals ep"
  "ep_relinquished (put_route srv k route ep) = ep_relinquished ep" "ep_cache (put_route srv k route ep) = ep_cache ep"
  "ep_relinquished_identities (put_route srv k route ep) = ep_relinquished_identities ep"
  "ep_config (put_route srv k route ep) = ep_config ep" "ep_flood (put_route srv k route ep) = ep_flood ep"
  "ep_next_service_handle (put_route srv k route ep) = ep_next_service_handle ep"
  "ep_services (put_route srv k route ep) = pl_put srv (ep_services ep) k route"
  by (simp_all add: put_route_def)

lemma services_ok_cong: "ep_services ep' = ep_services ep \<Longrightarrow> services_ok srv pinv ep' = services_ok srv pinv ep"
  by (simp add: services_ok_def)

subsection \<open>Dispatching\<close>

lemma dispatch_ok:
  assumes "services_ok srv pinv ep"
  shows "services_ok srv pinv (dispatch clk draw evs srv now k event ep)"
    "dom (routes srv (dispatch clk draw evs srv now k event ep)) = dom (routes srv ep)"
    "ep_queries (dispatch clk draw evs srv now k event ep) = ep_queries ep"
proof -
  define sp where "sp = dispatch clk draw evs srv now k event ep"
  have "services_ok srv pinv sp \<and> dom (routes srv sp) = dom (routes srv ep) \<and> ep_queries sp = ep_queries ep"
  proof (cases "routes srv ep k")
    case None
    then have "sp = ep" by (simp add: sp_def dispatch_def route_get [OF assms])
    with assms show ?thesis by simp
  next
    case (Some route)
    obtain proto flood where e: "service_handle_event clk draw evs event now (ep_flood ep) (rt_proto route) = (proto, flood)"
      by (cases "service_handle_event clk draw evs event now (ep_flood ep) (rt_proto route)")
    have sp: "sp = (put_route srv k (route\<lparr>rt_proto := proto\<rparr>) ep)\<lparr>ep_flood := flood\<rparr>"
      unfolding sp_def dispatch_def route_get [OF assms] Some by (simp add: e)
    have "routes srv ep k \<noteq> None" using Some by simp
    from put_route_ok [OF assms this, of "route\<lparr>rt_proto := proto\<rparr>"] have
      "services_ok srv pinv (put_route srv k (route\<lparr>rt_proto := proto\<rparr>) ep)"
      "routes srv (put_route srv k (route\<lparr>rt_proto := proto\<rparr>) ep) = (routes srv ep)(k \<mapsto> route\<lparr>rt_proto := proto\<rparr>)" .
    then show ?thesis unfolding sp using Some by (auto simp: services_ok_def)
  qed
  then show "services_ok srv pinv (dispatch clk draw evs srv now k event ep)"
    "dom (routes srv (dispatch clk draw evs srv now k event ep)) = dom (routes srv ep)"
    "ep_queries (dispatch clk draw evs srv now k event ep) = ep_queries ep" by (simp_all add: sp_def)
qed

subsection \<open>The measure\<close>

definition keys_from :: "nat \<Rightarrow> ('i, 'g, 'ev, 'sp, 'se) route_pool \<Rightarrow> ('i, 'r, 'c, 'sp, 'qp, 'ep) endpoint \<Rightarrow> nat" where
  "keys_from c srv ep = card {k \<in> dom (routes srv ep). c \<le> k}"

definition queries_from :: "nat \<Rightarrow> (nat \<times> 'q) list \<Rightarrow> nat" where
  "queries_from c qs = length (filter (\<lambda>(k, _). c \<le> k) qs)"

lemma keys_from_less:
  assumes "services_ok srv pinv ep" "routes srv ep k \<noteq> None" "c \<le> k"
  shows "keys_from (Suc k) srv ep < keys_from c srv ep"
  unfolding keys_from_def
proof (rule psubset_card_mono)
  show "finite {k \<in> dom (routes srv ep). c \<le> k}"
    using finite_dom_map_of [of "pl_iter srv (ep_services ep)"] by simp
  show "{k' \<in> dom (routes srv ep). Suc k \<le> k'} \<subset> {k \<in> dom (routes srv ep). c \<le> k}"
  proof (rule psubsetI)
    show "{k' \<in> dom (routes srv ep). Suc k \<le> k'} \<subseteq> {k \<in> dom (routes srv ep). c \<le> k}" using assms(3) by auto
    have "k \<in> {k \<in> dom (routes srv ep). c \<le> k}" using assms(2,3) by (simp add: domIff)
    moreover have "k \<notin> {k' \<in> dom (routes srv ep). Suc k \<le> k'}" by simp
    ultimately show "{k' \<in> dom (routes srv ep). Suc k \<le> k'} \<noteq> {k \<in> dom (routes srv ep). c \<le> k}" by metis
  qed
qed

text \<open>The keys a cursor can pass.\<close>

definition services_fit :: "('i, 'g, 'ev, 'sp, 'se) route_pool \<Rightarrow> ('i, 'r, 'c, 'sp, 'qp, 'ep) endpoint \<Rightarrow> bool" where
  "services_fit srv ep \<longleftrightarrow> (\<forall>k\<in>dom (routes srv ep). k < usize_max)"

definition queries_fit :: "('i, 'an, 'qe, 'qp, 'qf) query_pool \<Rightarrow> ('i, 'r, 'c, 'sp, 'qp, 'ep) endpoint \<Rightarrow> bool" where
  "queries_fit qry ep \<longleftrightarrow> (\<forall>k\<in>dom (pmap qry (ep_queries ep)). k < usize_max)"

lemma past_key_Suc: "k < usize_max \<Longrightarrow> past_key k = Suc k"
  by (simp add: past_key_def sat_add_def)

lemma past_key_le: "past_key k \<le> usize_max"
  by (simp add: past_key_def sat_add_def)

lemma queries_from_less:
  assumes "(k, q) \<in> set qs" "c \<le> k"
  shows "queries_from (Suc k) qs < queries_from c qs"
proof -
  have "filter (\<lambda>(k', _). Suc k \<le> k') qs = filter (\<lambda>(k', _). Suc k \<le> k') (filter (\<lambda>(k', _). c \<le> k') qs)"
    using assms(2) by (auto intro!: filter_cong)
  moreover have "(k, q) \<in> set (filter (\<lambda>(k', _). c \<le> k') qs)" using assms by simp
  ultimately show ?thesis unfolding queries_from_def using length_filter_less [of "(k, q)" _ "\<lambda>(k', _). Suc k \<le> k'"] by fastforce
qed

fun section_rank :: "section_state \<Rightarrow> nat" where
  "section_rank AtQuestions = 5" | "section_rank AtAnswers = 4" | "section_rank AtAuthorityProposals = 3"
| "section_rank AtAuthority = 2" | "section_rank AtAdditional = 1" | "section_rank AtDone = 0"

definition route_measure ::
  "('i, 'g, 'ev, 'sp, 'se) route_pool \<Rightarrow> ('i, 'an, 'qe, 'qp, 'qf) query_pool \<Rightarrow> 'i route_events \<Rightarrow>
     ('i, 'r, 'c, 'sp, 'qp, 'ep) endpoint \<Rightarrow> nat \<times> nat \<times> nat \<times> nat \<times> nat" where
  "route_measure srv qry re ep =
     (section_rank (re_section re),
      (case re_section re of
         AtQuestions \<Rightarrow> (65535 - re_question_idx re, 0, keys_from (re_service_cursor re) srv ep, 0)
       | AtAnswers \<Rightarrow> (65535 - re_answer_idx re, (if re_answer_service_done re then 0 else 1),
           keys_from (cursor_start (re_answer_service_cursor re)) srv ep,
           queries_from (cursor_start (re_answer_query_cursor re)) (pl_iter qry (ep_queries ep)))
       | AtAuthorityProposals \<Rightarrow> (0, 0, keys_from (cursor_start (re_proposal_service_cursor re)) srv ep, 0)
       | AtAuthority \<Rightarrow> (65535 - re_authority_idx re, 0, keys_from (cursor_start (re_authority_service_cursor re)) srv ep, 0)
       | AtAdditional \<Rightarrow> (65535 - re_additional_idx re, (if re_additional_service_done re then 0 else 1),
           keys_from (cursor_start (re_additional_service_cursor re)) srv ep,
           queries_from (cursor_start (re_additional_query_cursor re)) (pl_iter qry (ep_queries ep)))
       | AtDone \<Rightarrow> (0, 0, 0, 0)))"

abbreviation progress :: "((nat \<times> nat \<times> nat \<times> nat \<times> nat) \<times> (nat \<times> nat \<times> nat \<times> nat \<times> nat)) set" where
  "progress \<equiv> less_than <*lex*> less_than <*lex*> less_than <*lex*> less_than <*lex*> less_than"

lemma find_route_Some:
  "find_route start f rs = Some (k, x) \<Longrightarrow> start \<le> k \<and> (\<exists>route. (k, route) \<in> set rs \<and> \<not> rt_withdrawing route \<and> f route = Some x)"
  by (induction start f rs rule: find_route.induct) (auto split: if_splits option.splits)

lemma find_questioned_Some:
  "find_questioned rd q def c probe rs = Some k \<Longrightarrow> c \<le> k \<and> (\<exists>route. (k, route) \<in> set rs \<and> \<not> rt_withdrawing route)"
  by (induction rd q def c probe rs rule: find_questioned.induct) (fastforce split: if_splits prod.splits)+

lemma find_query_Some: "find_query now r c qs = Some (k, q) \<Longrightarrow> c \<le> k \<and> (k, q) \<in> set qs \<and> query_takes now r q"
  unfolding find_query_def find_Some_iff by (auto simp: in_set_conv_nth)

lemma screens_frame:
  "snd (relinquished_screens r slot ep re) = re\<lparr>re_relinquished_screen := re_relinquished_screen (snd (relinquished_screens r slot ep re))\<rparr>"
  by (auto simp: relinquished_screens_def Let_def split: option.splits)

definition live_from :: "nat \<Rightarrow> nat \<Rightarrow> (nat \<times> ('i, 'g, 'ev) service_route) list \<Rightarrow> bool" where
  "live_from start k rs \<longleftrightarrow> start \<le> k \<and> (\<exists>route. (k, route) \<in> set rs \<and> \<not> rt_withdrawing route)"

lemma find_route_live: "find_route start f rs = Some (k, x) \<Longrightarrow> live_from start k rs"
  by (auto simp: live_from_def dest!: find_route_Some)

lemma find_questioned_live: "find_questioned rd q def c probe rs = Some k \<Longrightarrow> live_from c k rs"
  by (auto simp: live_from_def dest!: find_questioned_Some)

lemma conflict_some:
  assumes "next_service_conflict srv r start origin slot ep re = (res, re')"
  shows "\<exists>x. re' = re\<lparr>re_relinquished_screen := x\<rparr>"
    "res = Some (k, event) \<Longrightarrow> live_from start k (pl_iter srv (ep_services ep))"
proof -
  show "\<exists>x. re' = re\<lparr>re_relinquished_screen := x\<rparr>"
  proof (cases "rr_rclass r = Class_In")
    case True
    with assms have "re' = snd (relinquished_screens r slot ep re)"
      by (auto simp: next_service_conflict_def Let_def split: prod.splits)
    with screens_frame [of r slot ep re] show ?thesis by metis
  qed (use assms in \<open>auto simp: next_service_conflict_def intro: exI [of _ "re_relinquished_screen re"]\<close>)
  show "res = Some (k, event) \<Longrightarrow> live_from start k (pl_iter srv (ep_services ep))"
    using assms by (auto simp: next_service_conflict_def Let_def dest: find_route_live split: if_splits prod.splits)
qed

lemma host_conflict_some:
  assumes "next_host_conflict srv r start origin slot ep re = (res, re')"
  shows "\<exists>x. re' = re\<lparr>re_relinquished_screen := x\<rparr>"
    "res = Some (k, event) \<Longrightarrow> live_from start k (pl_iter srv (ep_services ep))"
proof -
  show "\<exists>x. re' = re\<lparr>re_relinquished_screen := x\<rparr>"
  proof (cases "rr_rclass r = Class_In")
    case True
    with assms have "re' = snd (relinquished_screens r slot ep re)"
      by (auto simp: next_host_conflict_def Let_def split: prod.splits if_splits)
    with screens_frame [of r slot ep re] show ?thesis by metis
  qed (use assms in \<open>auto simp: next_host_conflict_def intro: exI [of _ "re_relinquished_screen re"]\<close>)
  show "res = Some (k, event) \<Longrightarrow> live_from start k (pl_iter srv (ep_services ep))"
    using assms by (auto simp: next_host_conflict_def Let_def dest: find_route_live split: if_splits prod.splits)
qed

subsection \<open>What a turn does to the endpoint\<close>

text \<open>Nothing, or one event handed to one live route.\<close>

definition turn_effect ::
  "'i :: linorder clock \<Rightarrow> ('g \<Rightarrow> u32 \<times> 'g) \<Rightarrow> (service_update, 'ev, 'e) pool_ops \<Rightarrow> ('i, 'g, 'ev, 'sp, 'se) route_pool \<Rightarrow> 'i \<Rightarrow>
     ('i, 'r, 'c, 'sp, 'qp, 'ep) endpoint \<Rightarrow> ('i, 'r, 'c, 'sp, 'qp, 'ep) endpoint \<Rightarrow> bool" where
  "turn_effect clk draw evs srv now ep ep' \<longleftrightarrow> ep' = ep \<or>
     (\<exists>k event route. (k, route) \<in> set (pl_iter srv (ep_services ep)) \<and> \<not> rt_withdrawing route \<and>
        ep' = dispatch clk draw evs srv now k event ep)"

lemma turn_effect_same: "turn_effect clk draw evs srv now ep ep" by (simp add: turn_effect_def)

lemma turn_effect_dispatch:
  "live_from c k (pl_iter srv (ep_services ep)) \<Longrightarrow> turn_effect clk draw evs srv now ep (dispatch clk draw evs srv now k event ep)"
  by (auto simp: turn_effect_def live_from_def)

lemma dispatch_measure:
  assumes "services_ok srv pinv ep" "live_from c k (pl_iter srv (ep_services ep))"
  shows "services_fit srv ep \<Longrightarrow> keys_from (past_key k) srv (dispatch clk draw evs srv now k event ep) < keys_from c srv ep"
proof -
  assume fit: "services_fit srv ep"
  have k: "routes srv ep k \<noteq> None" "c \<le> k" using assms by (auto simp: live_from_def route_mem)
  then have "past_key k = Suc k" using fit by (intro past_key_Suc) (simp add: services_fit_def domIff)
  with keys_from_less [OF assms(1) k] show ?thesis unfolding keys_from_def dispatch_ok(2) [OF assms(1)] by simp
qed

lemma query_measure:
  assumes "find_query now r c (pl_iter qry (ep_queries ep)) = Some (k, q)"
  shows "queries_fit qry ep \<Longrightarrow>
     queries_from (past_key k) (pl_iter qry (ep_queries ep)) < queries_from c (pl_iter qry (ep_queries ep))"
proof -
  assume fit: "queries_fit qry ep"
  have k: "c \<le> k" "(k, q) \<in> set (pl_iter qry (ep_queries ep))" using find_query_Some [OF assms] by blast+
  then have "k \<in> fst ` set (pl_iter qry (ep_queries ep))" by force
  then have "k \<in> dom (pmap qry (ep_queries ep))" by (simp add: dom_map_of_conv_image_fst)
  then have "past_key k = Suc k" using fit by (intro past_key_Suc) (simp add: queries_fit_def)
  with queries_from_less [OF k(2,1)] show ?thesis by simp
qed

lemma idx_less:
  assumes "\<not> unat (w :: u16) \<le> i"
  shows "65535 - idx_next i < 65535 - i"
  using assms unat_u16_le [of w] by (simp add: idx_next_def sat_add_def del: unat_u16_le)

definition turn_ok where
  "turn_ok clk draw evs srv qry re ep res \<longleftrightarrow> (case res of (t, re', ep') \<Rightarrow>
     t \<noteq> Return None \<and> re_now re' = re_now re \<and> re_pending_query re' = re_pending_query re \<and>
     turn_effect clk draw evs srv (re_now re) ep ep' \<and>
     (services_fit srv ep \<and> queries_fit qry ep \<longrightarrow> (route_measure srv qry re' ep', route_measure srv qry re ep) \<in> progress))"

lemma question_turn_ok:
  assumes "services_ok srv pinv ep" "re_section re = AtQuestions"
  shows "turn_ok clk draw evs srv qry re ep (question_turn clk draw evs srv re ep)"
proof (cases "question_turn clk draw evs srv re ep")
  case (fields t re' ep')
  consider "ep' = ep" "re' = re\<lparr>re_section := AtAnswers\<rparr>" "t \<noteq> Return None"
    | "\<not> unat (question_count (mr_header (re_reader re))) \<le> re_question_idx re" "ep' = ep"
      "re' = re\<lparr>re_question_idx := idx_next (re_question_idx re), re_service_cursor := 0\<rparr>" "t = Continue"
    | k event where "live_from (re_service_cursor re) k (pl_iter srv (ep_services ep))" "re' = re\<lparr>re_service_cursor := past_key k\<rparr>"
      "ep' = dispatch clk draw evs srv (re_now re) k event ep" "t = Continue"
    using fields find_questioned_live
    by (fastforce simp: question_turn_def Let_def split: if_splits option.splits sum.splits)
  then show ?thesis
  proof cases
    case 1 then show ?thesis by (simp add: fields turn_ok_def turn_effect_same route_measure_def assms(2))
  next
    case 2
    with idx_less show ?thesis by (simp add: fields turn_ok_def turn_effect_same route_measure_def assms(2))
  next
    case 3
    then show ?thesis
      by (simp add: dispatch_measure [OF assms(1) 3(1)] fields turn_ok_def turn_effect_dispatch route_measure_def assms(2))
  qed
qed

lemma turn_ok_leave:
  "re' = re\<lparr>re_section := s\<rparr> \<Longrightarrow> section_rank s < section_rank (re_section re) \<Longrightarrow> t \<noteq> Return None \<Longrightarrow>
     turn_ok clk draw evs srv qry re ep (t, re', ep)"
  by (simp add: turn_ok_def turn_effect_same route_measure_def)

lemma proposal_turn_ok:
  assumes "services_ok srv pinv ep" "re_section re = AtAuthorityProposals"
  shows "turn_ok clk draw evs srv qry re ep (proposal_turn clk draw evs srv re ep)"
proof -
  let ?start = "cursor_start (re_proposal_service_cursor re)"
  let ?f = "\<lambda>route. if authority_proposes_for (re_reader re) (rt_name route)
      then Some (SE_ProbeProposal \<lparr>pp_src = re_src re, pp_reader = re_reader re, pp_datagram = re_datagram re\<rparr>) else None"
  have leave: "turn_ok clk draw evs srv qry re ep (Continue, re\<lparr>re_section := AtAuthority\<rparr>, ep)"
    by (rule turn_ok_leave [OF refl]) (simp_all add: assms(2))
  show ?thesis
  proof (cases "find_route ?start ?f (pl_iter srv (ep_services ep))")
    case None
    then show ?thesis using leave by (simp add: proposal_turn_def Let_def)
  next
    case (Some p)
    obtain k event where p: "p = (k, event)" by (cases p)
    have l: "live_from ?start k (pl_iter srv (ep_services ep))" by (rule find_route_live [OF Some [unfolded p]])
    have "turn_ok clk draw evs srv qry re ep
        (Continue, re\<lparr>re_proposal_service_cursor := Some (past_key k)\<rparr>, dispatch clk draw evs srv (re_now re) k event ep)"
      by (simp add: dispatch_measure [OF assms(1) l] turn_effect_dispatch [OF l] turn_ok_def route_measure_def assms(2) cursor_start_def [of "Some _"])
    then show ?thesis using leave Some p by (simp add: proposal_turn_def Let_def)
  qed
qed

lemma authority_turn_ok:
  assumes "services_ok srv pinv ep" "re_section re = AtAuthority"
  shows "turn_ok clk draw evs srv qry re ep (authority_turn clk draw evs srv re ep)"
proof -
  let ?start = "cursor_start (re_authority_service_cursor re)"
  let ?look = "\<lambda>r. if re_is_response re
      then next_service_conflict srv r ?start AuthoritativeResponse (SlotAuthority (re_authority_idx re)) ep re
      else next_host_conflict srv r ?start TentativeProbe (SlotAuthority (re_authority_idx re)) ep re"
  let ?next = "\<lambda>re. re\<lparr>re_authority_idx := idx_next (re_authority_idx re), re_authority_service_cursor := None\<rparr>"
  have look: "\<exists>x. re' = re\<lparr>re_relinquished_screen := x\<rparr>" "res = Some (k, event) \<Longrightarrow> live_from ?start k (pl_iter srv (ep_services ep))"
    if "?look r = (res, re')" for r res re' k event
    using that conflict_some [of srv r ?start AuthoritativeResponse "SlotAuthority (re_authority_idx re)" ep re res re']
      host_conflict_some [of srv r ?start TentativeProbe "SlotAuthority (re_authority_idx re)" ep re res re']
    by (auto split: if_splits)
  have leave: "turn_ok clk draw evs srv qry re ep (Continue, re\<lparr>re_section := AtAdditional\<rparr>, ep)"
    by (rule turn_ok_leave [OF refl]) (simp_all add: assms(2))
  show ?thesis
  proof (cases "sock_port (re_src re) \<noteq> MDNS_PORT \<or> \<not> ad_adjudication (re_admits re) \<or>
      unat (authority_count (mr_header (re_reader re))) \<le> re_authority_idx re")
    case True
    then show ?thesis using leave by (auto simp : authority_turn_def Let_def)
  next
    case False
    then have idx: "65535 - idx_next (re_authority_idx re) < 65535 - re_authority_idx re" using idx_less by blast
    have skip: "turn_ok clk draw evs srv qry re ep (Continue, ?next (re\<lparr>re_relinquished_screen := x\<rparr>), ep)" for x
      using idx by (simp add: turn_ok_def turn_effect_same route_measure_def assms(2))
    have same: "re\<lparr>re_relinquished_screen := re_relinquished_screen re\<rparr> = re" by simp
    show ?thesis
    proof (cases "record_at (authority (re_reader re)) (re_authority_idx re)")
      case None
      then show ?thesis using leave False by (simp add: authority_turn_def Let_def)
    next
      case (Some item)
      show ?thesis
      proof (cases item)
        case (Inl e)
        have "turn_ok clk draw evs srv qry re ep (Return (Some (Inl (HE_Parse e))), re\<lparr>re_section := AtDone\<rparr>, ep)"
          by (rule turn_ok_leave [OF refl]) (simp_all add: assms(2))
        then show ?thesis using Some Inl False by (simp add: authority_turn_def Let_def)
      next
        case (Inr r)
        obtain res re' where res: "?look r = (res, re')" by (cases "?look r")
        from look(1) [OF res] obtain x where re': "re' = re\<lparr>re_relinquished_screen := x\<rparr>" by auto
        have event: "turn_ok clk draw evs srv qry re ep (Continue, re'\<lparr>re_authority_service_cursor := Some (past_key k)\<rparr>,
            dispatch clk draw evs srv (re_now re') k event ep)" if "res = Some (k, event)" for k event
          by (simp add: dispatch_measure [OF assms(1) look(2) [OF res that]] turn_effect_dispatch [OF look(2) [OF res that]] turn_ok_def route_measure_def assms(2) re' cursor_start_def [of "Some _"])
        show ?thesis
        proof (cases "rr_ttl r = 0")
          case True
          then show ?thesis using Some Inr False skip [of "re_relinquished_screen re"] by (simp add: authority_turn_def Let_def)
        next
          case nz: False
          have "authority_turn clk draw evs srv re ep = (case (res, re') of
               (Some (key, event), re) \<Rightarrow>
                 (Continue, re\<lparr>re_authority_service_cursor := Some (past_key key)\<rparr>, dispatch clk draw evs srv (re_now re) key event ep)
             | (None, re) \<Rightarrow> (Continue, ?next re, ep))"
            unfolding res [symmetric] using Some Inr False nz by (simp add: authority_turn_def Let_def)
          then show ?thesis using event skip [of x] re' by (cases res) auto
        qed
      qed
    qed
  qed
qed

lemma answer_event_some:
  assumes "answer_event srv r re ep = (res, re')"
  shows "\<exists>x. re' = re\<lparr>re_relinquished_screen := x\<rparr>"
    "res = Some (k, event) \<Longrightarrow> live_from (cursor_start (re_answer_service_cursor re)) k (pl_iter srv (ep_services ep))"
proof -
  have same: "\<exists>x. re = re\<lparr>re_relinquished_screen := x\<rparr>" by (rule exI [of _ "re_relinquished_screen re"]) simp
  let ?live = "live_from (cursor_start (re_answer_service_cursor re)) k (pl_iter srv (ep_services ep))"
  have "(\<exists>x. re' = re\<lparr>re_relinquished_screen := x\<rparr>) \<and> (res = Some (k, event) \<longrightarrow> ?live)"
  proof (cases "re_is_response re")
    case True
    show ?thesis
    proof (cases "ad_adjudication (re_admits re)")
      case adj: True
      with True assms have "next_service_conflict srv r (cursor_start (re_answer_service_cursor re)) AuthoritativeResponse
          (SlotAnswer (re_answer_idx re)) ep re = (res, re')" by (simp add: answer_event_def)
      from conflict_some [OF this] show ?thesis by blast
    next
      case False
      with True assms have "re' = re" "res = None" by (simp_all add: answer_event_def)
      with same show ?thesis by simp
    qed
  next
    case False
    then have "re' = re" using assms by (simp add: answer_event_def Let_def split: if_splits)
    moreover have "res = Some (k, event) \<longrightarrow> ?live"
      using False assms by (auto simp: answer_event_def Let_def dest: find_route_live split: if_splits)
    ultimately show ?thesis using same by simp
  qed
  then show "\<exists>x. re' = re\<lparr>re_relinquished_screen := x\<rparr>" "res = Some (k, event) \<Longrightarrow> ?live" by simp_all
qed

definition additional_event ::
  "('i :: linorder, 'g, 'ev, 'sp, 'se) route_pool \<Rightarrow> record_ref \<Rightarrow> 'i route_events \<Rightarrow> ('i, 'r, 'c, 'sp, 'qp, 'ep) endpoint \<Rightarrow>
     (nat \<times> service_event) option \<times> 'i route_events" where
  "additional_event srv r re ep = (if ad_adjudication (re_admits re)
     then next_service_conflict srv r (cursor_start (re_additional_service_cursor re)) AuthoritativeResponse
            (SlotAdditional (re_additional_idx re)) ep re else (None, re))"

lemma additional_event_some:
  assumes "additional_event srv r re ep = (res, re')"
  shows "\<exists>x. re' = re\<lparr>re_relinquished_screen := x\<rparr>"
    "res = Some (k, event) \<Longrightarrow> live_from (cursor_start (re_additional_service_cursor re)) k (pl_iter srv (ep_services ep))"
proof -
  have same: "\<exists>x. re = re\<lparr>re_relinquished_screen := x\<rparr>" by (rule exI [of _ "re_relinquished_screen re"]) simp
  let ?live = "live_from (cursor_start (re_additional_service_cursor re)) k (pl_iter srv (ep_services ep))"
  have "(\<exists>x. re' = re\<lparr>re_relinquished_screen := x\<rparr>) \<and> (res = Some (k, event) \<longrightarrow> ?live)"
  proof (cases "ad_adjudication (re_admits re)")
    case True
    with assms have "next_service_conflict srv r (cursor_start (re_additional_service_cursor re)) AuthoritativeResponse
        (SlotAdditional (re_additional_idx re)) ep re = (res, re')" by (simp add: additional_event_def)
    from conflict_some [OF this] show ?thesis by blast
  next
    case False
    with assms have "re' = re" "res = None" by (simp_all add: additional_event_def)
    with same show ?thesis by simp
  qed
  then show "\<exists>x. re' = re\<lparr>re_relinquished_screen := x\<rparr>" "res = Some (k, event) \<Longrightarrow> ?live" by simp_all
qed

lemma answer_query_turn_ok:
  assumes "re_section re = AtAnswers" "\<not> unat (answer_count (mr_header (re_reader re))) \<le> re_answer_idx re"
    and re1: "re1 = re\<lparr>re_relinquished_screen := x, re_answer_service_done := b\<rparr>" and b: "re_answer_service_done re \<longrightarrow> b"
  shows "turn_ok clk draw evs srv qry re ep (answer_query_turn qry r re1 ep)"
proof -
  have idx: "65535 - idx_next (re_answer_idx re) < 65535 - re_answer_idx re" using assms(2) idx_less by blast
  have next_index: "turn_ok clk draw evs srv qry re ep (Continue, next_answer_index re1, ep)"
    using idx by (simp add: turn_ok_def turn_effect_same route_measure_def assms(1) re1 next_answer_index_def)
  have item: "turn_ok clk draw evs srv qry re ep (to_query_item q r, re1\<lparr>re_answer_query_cursor := Some (past_key k)\<rparr>, ep)"
    if "find_query (re_now re1) r (cursor_start (re_answer_query_cursor re1)) (pl_iter qry (ep_queries ep)) = Some (k, q)" for k q
  proof -
    from query_measure [OF that] have "queries_fit qry ep \<Longrightarrow> queries_from (past_key k) (pl_iter qry (ep_queries ep)) <
        queries_from (cursor_start (re_answer_query_cursor re)) (pl_iter qry (ep_queries ep))" by (simp add: re1)
    then show ?thesis using b
      by (simp add: turn_ok_def turn_effect_same route_measure_def assms(1) re1 to_query_item_def cursor_start_def [of "Some _"])
  qed
  show ?thesis using next_index item by (simp add: answer_query_turn_def split: option.splits)
qed

lemma answer_turn_ok:
  assumes "services_ok srv pinv ep" "re_section re = AtAnswers"
  shows "turn_ok clk draw evs srv qry re ep (answer_turn clk draw evs srv qry re ep)"
proof -
  let ?start = "cursor_start (re_answer_service_cursor re)"
  note look = answer_event_some
  have leave: "turn_ok clk draw evs srv qry re ep (Continue, re\<lparr>re_section := AtAuthorityProposals\<rparr>, ep)"
    by (rule turn_ok_leave [OF refl]) (simp_all add: assms(2))
  show ?thesis
  proof (cases "unat (answer_count (mr_header (re_reader re))) \<le> re_answer_idx re")
    case True
    then show ?thesis using leave by (auto simp : answer_turn_def Let_def)
  next
    case False
    then have count: "\<not> unat (answer_count (mr_header (re_reader re))) \<le> re_answer_idx re" by simp
    note query = answer_query_turn_ok [OF assms(2) count]
    have same: "re = re\<lparr>re_relinquished_screen := re_relinquished_screen re, re_answer_service_done := re_answer_service_done re\<rparr>" by simp
    have skip: "turn_ok clk draw evs srv qry re ep (Continue, next_answer_index re, ep)"
      using idx_less [OF count] by (simp add: turn_ok_def turn_effect_same route_measure_def assms(2) next_answer_index_def)
    show ?thesis
    proof (cases "record_at (answers (re_reader re)) (re_answer_idx re)")
      case None
      then show ?thesis using leave False by (simp add: answer_turn_def Let_def)
    next
      case (Some item)
      show ?thesis
      proof (cases item)
        case (Inl e)
        have "turn_ok clk draw evs srv qry re ep (Return (Some (Inl (HE_Parse e))), re\<lparr>re_section := AtAuthorityProposals\<rparr>, ep)"
          by (rule turn_ok_leave [OF refl]) (simp_all add: assms(2))
        then show ?thesis using Some Inl False by (simp add: answer_turn_def Let_def)
      next
        case (Inr r)
        obtain res re' where res: "answer_event srv r re ep = (res, re')" by (cases "answer_event srv r re ep")
        from look(1) [OF res] obtain x where re': "re' = re\<lparr>re_relinquished_screen := x\<rparr>" by auto
        have event: "turn_ok clk draw evs srv qry re ep (Continue, re'\<lparr>re_answer_service_cursor := Some (past_key k)\<rparr>,
            dispatch clk draw evs srv (re_now re') k event ep)" if "res = Some (k, event)" for k event
          by (simp add: dispatch_measure [OF assms(1) look(2) [OF res that]] turn_effect_dispatch [OF look(2) [OF res that]] turn_ok_def route_measure_def assms(2) re' cursor_start_def [of "Some _"])
        have on: "turn_ok clk draw evs srv qry re ep (answer_query_turn qry r (re'\<lparr>re_answer_service_done := True\<rparr>) ep)"
          by (rule query [where x = x and b = True]) (simp_all add: re')
        have "turn_ok clk draw evs srv qry re ep (answer_query_turn qry r re ep)"
          by (rule query [OF same]) simp
        moreover have "turn_ok clk draw evs srv qry re ep (case (res, re') of
               (Some (key, event), re) \<Rightarrow>
                 (Continue, re\<lparr>re_answer_service_cursor := Some (past_key key)\<rparr>, dispatch clk draw evs srv (re_now re) key event ep)
             | (None, re) \<Rightarrow> answer_query_turn qry r (re\<lparr>re_answer_service_done := True\<rparr>) ep)"
          using event on by (cases res) auto
        ultimately show ?thesis using Some Inr False skip unfolding res [symmetric] by (simp add: answer_turn_def Let_def)
      qed
    qed
  qed
qed

lemma additional_query_turn_ok:
  assumes "re_section re = AtAdditional" "\<not> unat (additional_count (mr_header (re_reader re))) \<le> re_additional_idx re"
    and re1: "re1 = re\<lparr>re_relinquished_screen := x, re_additional_service_done := b\<rparr>" and b: "re_additional_service_done re \<longrightarrow> b"
  shows "turn_ok clk draw evs srv qry re ep (additional_query_turn qry r re1 ep)"
proof -
  have idx: "65535 - idx_next (re_additional_idx re) < 65535 - re_additional_idx re" using assms(2) idx_less by blast
  have next_index: "turn_ok clk draw evs srv qry re ep (Continue, next_additional_index re1, ep)"
    using idx by (simp add: turn_ok_def turn_effect_same route_measure_def assms(1) re1 next_additional_index_def)
  have item: "turn_ok clk draw evs srv qry re ep (to_query_item q r, re1\<lparr>re_additional_query_cursor := Some (past_key k)\<rparr>, ep)"
    if "find_query (re_now re1) r (cursor_start (re_additional_query_cursor re1)) (pl_iter qry (ep_queries ep)) = Some (k, q)" for k q
  proof -
    from query_measure [OF that] have "queries_fit qry ep \<Longrightarrow> queries_from (past_key k) (pl_iter qry (ep_queries ep)) <
        queries_from (cursor_start (re_additional_query_cursor re)) (pl_iter qry (ep_queries ep))" by (simp add: re1)
    then show ?thesis using b
      by (simp add: turn_ok_def turn_effect_same route_measure_def assms(1) re1 to_query_item_def cursor_start_def [of "Some _"])
  qed
  show ?thesis using next_index item by (simp add: additional_query_turn_def split: option.splits)
qed

lemma additional_turn_ok:
  assumes "services_ok srv pinv ep" "re_section re = AtAdditional"
  shows "turn_ok clk draw evs srv qry re ep (additional_turn clk draw evs srv qry re ep)"
proof -
  let ?start = "cursor_start (re_additional_service_cursor re)"
  note look = additional_event_some
  have leave: "turn_ok clk draw evs srv qry re ep (Continue, re\<lparr>re_section := AtDone\<rparr>, ep)"
    by (rule turn_ok_leave [OF refl]) (simp_all add: assms(2))
  show ?thesis
  proof (cases "unat (additional_count (mr_header (re_reader re))) \<le> re_additional_idx re \<or> \<not> re_is_response re")
    case True
    then show ?thesis using leave by (auto simp : additional_turn_def Let_def)
  next
    case False
    then have count: "\<not> unat (additional_count (mr_header (re_reader re))) \<le> re_additional_idx re" by simp
    note query = additional_query_turn_ok [OF assms(2) count]
    have same: "re = re\<lparr>re_relinquished_screen := re_relinquished_screen re, re_additional_service_done := re_additional_service_done re\<rparr>" by simp
    have skip: "turn_ok clk draw evs srv qry re ep (Continue, next_additional_index re, ep)"
      using idx_less [OF count] by (simp add: turn_ok_def turn_effect_same route_measure_def assms(2) next_additional_index_def)
    show ?thesis
    proof (cases "record_at (additional (re_reader re)) (re_additional_idx re)")
      case None
      then show ?thesis using leave False by (simp add: additional_turn_def Let_def)
    next
      case (Some item)
      show ?thesis
      proof (cases item)
        case (Inl e)
        have "turn_ok clk draw evs srv qry re ep (Return (Some (Inl (HE_Parse e))), re\<lparr>re_section := AtDone\<rparr>, ep)"
          by (rule turn_ok_leave [OF refl]) (simp_all add: assms(2))
        then show ?thesis using Some Inl False by (simp add: additional_turn_def Let_def)
      next
        case (Inr r)
        obtain res re' where res: "additional_event srv r re ep = (res, re')" by (cases "additional_event srv r re ep")
        from look(1) [OF res] obtain x where re': "re' = re\<lparr>re_relinquished_screen := x\<rparr>" by auto
        have event: "turn_ok clk draw evs srv qry re ep (Continue, re'\<lparr>re_additional_service_cursor := Some (past_key k)\<rparr>,
            dispatch clk draw evs srv (re_now re') k event ep)" if "res = Some (k, event)" for k event
          by (simp add: dispatch_measure [OF assms(1) look(2) [OF res that]] turn_effect_dispatch [OF look(2) [OF res that]] turn_ok_def route_measure_def assms(2) re' cursor_start_def [of "Some _"])
        have on: "turn_ok clk draw evs srv qry re ep (additional_query_turn qry r (re'\<lparr>re_additional_service_done := True\<rparr>) ep)"
          by (rule query [where x = x and b = True]) (simp_all add: re')
        have "turn_ok clk draw evs srv qry re ep (additional_query_turn qry r re ep)"
          by (rule query [OF same]) simp
        moreover have "turn_ok clk draw evs srv qry re ep (case (res, re') of
               (Some (key, event), re) \<Rightarrow>
                 (Continue, re\<lparr>re_additional_service_cursor := Some (past_key key)\<rparr>, dispatch clk draw evs srv (re_now re) key event ep)
             | (None, re) \<Rightarrow> additional_query_turn qry r (re\<lparr>re_additional_service_done := True\<rparr>) ep)"
          using event on by (cases res) auto
        ultimately show ?thesis using Some Inr False skip unfolding res [symmetric] by (simp add: additional_turn_def additional_event_def Let_def)
      qed
    qed
  qed
qed

lemma route_turn_ok:
  assumes "services_ok srv pinv ep" "re_section re \<noteq> AtDone"
  shows "turn_ok clk draw evs srv qry re ep (route_turn clk draw evs srv qry re ep)"
  using assms by (cases "re_section re") (auto simp: route_turn_def intro: question_turn_ok answer_turn_ok proposal_turn_ok
      authority_turn_ok additional_turn_ok)

lemma turn_effect_fit:
  assumes "turn_effect clk draw evs srv now ep ep'" "services_ok srv pinv ep"
  shows "services_fit srv ep' = services_fit srv ep" "queries_fit qry ep' = queries_fit qry ep"
proof -
  have "dom (routes srv ep') = dom (routes srv ep) \<and> ep_queries ep' = ep_queries ep"
    using assms(1) unfolding turn_effect_def by (elim disjE exE conjE) (simp_all only: dispatch_ok(2,3) [OF assms(2)] simp_thms)
  then show "services_fit srv ep' = services_fit srv ep" "queries_fit qry ep' = queries_fit qry ep"
    by (simp_all only: services_fit_def queries_fit_def)
qed

lemma turn_effect_ok: "turn_effect clk draw evs srv now ep ep' \<Longrightarrow> services_ok srv pinv ep \<Longrightarrow> services_ok srv pinv ep'"
  by (auto simp: turn_effect_def dispatch_ok(1))

subsection \<open>The iterator ends\<close>

abbreviation delivered where "delivered clk draw evs srv now \<equiv> (turn_effect clk draw evs srv now)\<^sup>*\<^sup>*"

lemma delivered_ok:
  assumes "delivered clk draw evs srv now ep ep'" "services_ok srv pinv ep"
  shows "services_ok srv pinv ep'"
  using assms by induction (auto intro: turn_effect_ok)

lemma wf_progress: "wf progress" by (intro wf_lex_prod wf_less_than)

lemma trans_progress: "trans progress" by (intro trans_lex_prod trans_less_than)

lemma delivered_fit:
  assumes "delivered clk draw evs srv now ep ep'" "services_ok srv pinv ep"
  shows "services_fit srv ep' = services_fit srv ep \<and> queries_fit qry ep' = queries_fit qry ep"
  using assms
proof induction
  case (step ep1 ep2)
  then show ?case using turn_effect_fit(1) [OF step(2) delivered_ok [OF step(1,4)]]
    turn_effect_fit(2) [OF step(2) delivered_ok [OF step(1,4)], of qry] by simp
qed simp

text \<open>What the loop does when it returns, whatever the keys.\<close>

definition loop_effect where
  "loop_effect clk draw evs srv re ep re' ep' \<longleftrightarrow>
     delivered clk draw evs srv (re_now re) ep ep' \<and> re_now re' = re_now re \<and> re_pending_query re' = re_pending_query re"

lemma route_turn_effect:
  assumes "services_ok srv pinv ep" "route_turn clk draw evs srv qry re ep = (t, re', ep')"
  shows "turn_effect clk draw evs srv (re_now re) ep ep' \<and> re_now re' = re_now re \<and> re_pending_query re' = re_pending_query re"
proof (cases "re_section re = AtDone")
  case True
  with assms(2) show ?thesis by (simp add: route_turn_def turn_effect_same)
next
  case False
  from route_turn_ok [OF assms(1) False, of clk draw evs qry] assms(2) show ?thesis by (simp add: turn_ok_def)
qed

lemma route_loop_effect:
  assumes "route_loop clk draw evs srv qry re ep = Some y" "services_ok srv pinv ep"
  shows "loop_effect clk draw evs srv re ep (fst (snd y)) (snd (snd y))"
proof -
  have "services_ok srv pinv ep \<longrightarrow> loop_effect clk draw evs srv re ep (fst (snd y)) (snd (snd y))"
  proof (rule route_loop.raw_induct [where P = "\<lambda>clk draw evs srv qry re ep y. services_ok srv pinv ep \<longrightarrow>
        loop_effect clk draw evs srv re ep (fst (snd y)) (snd (snd y))", OF _ assms(1)], intro impI)
    fix loop clk draw evs srv qry re ep y
    assume ih: "\<And>clk draw evs srv qry re ep y. loop clk draw evs srv qry re ep = Some y \<Longrightarrow>
        services_ok srv pinv ep \<longrightarrow> loop_effect clk draw evs srv re ep (fst (snd y)) (snd (snd y))"
      and y: "(case route_turn clk draw evs srv qry re ep of (Continue, re, ep) \<Rightarrow> loop clk draw evs srv qry re ep
        | (Return item, re, ep) \<Rightarrow> Some (item, re, ep)) = Some y"
      and ok: "services_ok srv pinv ep"
    obtain t re' ep' where t: "route_turn clk draw evs srv qry re ep = (t, re', ep')" by (cases "route_turn clk draw evs srv qry re ep")
    note eff = route_turn_effect [OF ok t]
    show "loop_effect clk draw evs srv re ep (fst (snd y)) (snd (snd y))"
    proof (cases t)
      case (Return item)
      with y t eff show ?thesis by (auto simp: loop_effect_def)
    next
      case Continue
      with y t have "loop clk draw evs srv qry re' ep' = Some y" by simp
      from ih [OF this] turn_effect_ok [OF conjunct1 [OF eff] ok] eff show ?thesis
        by (auto simp: loop_effect_def intro: converse_rtranclp_into_rtranclp)
    qed
  qed
  with assms(2) show ?thesis by blast
qed

lemma route_next_effect:
  assumes "route_next clk draw evs srv qry re ep = Some (item, re', ep')" "services_ok srv pinv ep" "re_pending_query re = None"
  shows "loop_effect clk draw evs srv re ep re' ep'"
  using assms route_loop_effect [of clk draw evs srv qry re ep "(item, re', ep')" pinv] by (simp add: route_next_def)

lemma route_all_effect:
  assumes "route_all clk draw evs srv qry items re ep = Some y" "services_ok srv pinv ep" "re_pending_query re = None"
  shows "delivered clk draw evs srv (re_now re) ep (snd y)"
proof -
  have "services_ok srv pinv ep \<and> re_pending_query re = None \<longrightarrow> delivered clk draw evs srv (re_now re) ep (snd y)"
  proof (rule route_all.raw_induct [where P = "\<lambda>clk draw evs srv qry items re ep y. services_ok srv pinv ep \<and>
        re_pending_query re = None \<longrightarrow> delivered clk draw evs srv (re_now re) ep (snd y)", OF _ assms(1)], intro impI)
    fix all clk draw evs srv qry items re ep y
    assume ih: "\<And>clk draw evs srv qry items re ep y. all clk draw evs srv qry items re ep = Some y \<Longrightarrow>
        services_ok srv pinv ep \<and> re_pending_query re = None \<longrightarrow> delivered clk draw evs srv (re_now re) ep (snd y)"
      and y: "Option.bind (route_next clk draw evs srv qry re ep) (\<lambda>(item, re, ep).
        case item of None \<Rightarrow> Some (items, ep) | Some x \<Rightarrow> all clk draw evs srv qry (items @ [x]) re ep) = Some y"
      and ok: "services_ok srv pinv ep \<and> re_pending_query re = None"
    from y obtain item re' ep' where n: "route_next clk draw evs srv qry re ep = Some (item, re', ep')"
      by (auto simp: bind_eq_Some_conv)
    note eff = route_next_effect [OF n, of pinv, unfolded loop_effect_def]
    show "delivered clk draw evs srv (re_now re) ep (snd y)"
    proof (cases item)
      case None
      with y n eff ok show ?thesis by auto
    next
      case (Some x)
      with y n have "all clk draw evs srv qry (items @ [x]) re' ep' = Some y" by simp
      from ih [OF this] eff ok delivered_ok [of clk draw evs srv "re_now re" ep ep' pinv]
      have "delivered clk draw evs srv (re_now re) ep' (snd y)" by auto
      with eff ok show ?thesis by (auto intro: rtranclp_trans)
    qed
  qed
  with assms(2,3) show ?thesis by blast
qed

text \<open>That it returns, when the keys can be passed.\<close>

lemma route_loop_ends:
  assumes "services_ok srv pinv ep" "services_fit srv ep" "queries_fit qry ep"
  shows "\<exists>item re' ep'. route_loop clk draw evs srv qry re ep = Some (item, re', ep') \<and>
     (item \<noteq> None \<longrightarrow> (route_measure srv qry re' ep', route_measure srv qry re ep) \<in> progress)"
  using assms
proof (induction "route_measure srv qry re ep" arbitrary: re ep rule: wf_induct_rule [OF wf_progress])
  case (1 re ep)
  show ?case
  proof (cases "re_section re = AtDone")
    case True
    then show ?thesis by (subst route_loop.simps) (simp add: route_turn_def)
  next
    case False
    obtain t re' ep' where t: "route_turn clk draw evs srv qry re ep = (t, re', ep')" by (cases "route_turn clk draw evs srv qry re ep")
    from route_turn_ok [OF 1(2) False, of clk draw evs qry] t 1(3,4) have
      eff: "turn_effect clk draw evs srv (re_now re) ep ep'" and less: "(route_measure srv qry re' ep', route_measure srv qry re ep) \<in> progress"
      by (simp_all only: turn_ok_def prod.case simp_thms)
    show ?thesis
    proof (cases t)
      case (Return item)
      with t have "route_loop clk draw evs srv qry re ep = Some (item, re', ep')" by (subst route_loop.simps) simp
      with less show ?thesis by blast
    next
      case Continue
      with t have step: "route_loop clk draw evs srv qry re ep = route_loop clk draw evs srv qry re' ep'"
        by (subst route_loop.simps) simp
      from 1(1) [OF less turn_effect_ok [OF eff 1(2)]] turn_effect_fit(1) [OF eff 1(2)] turn_effect_fit(2) [OF eff 1(2), of qry] 1(3,4) obtain item re2 ep2 where
        ih: "route_loop clk draw evs srv qry re' ep' = Some (item, re2, ep2)"
        "item \<noteq> None \<longrightarrow> (route_measure srv qry re2 ep2, route_measure srv qry re' ep') \<in> progress" by auto
      have "item \<noteq> None \<longrightarrow> (route_measure srv qry re2 ep2, route_measure srv qry re ep) \<in> progress"
        using ih(2) less transD [OF trans_progress] by blast
      with step ih(1) show ?thesis by simp
    qed
  qed
qed

lemma route_all_ends:
  assumes "services_ok srv pinv ep" "services_fit srv ep" "queries_fit qry ep" "re_pending_query re = None"
  shows "route_all clk draw evs srv qry items re ep \<noteq> None"
  using assms
proof (induction "route_measure srv qry re ep" arbitrary: items re ep rule: wf_induct_rule [OF wf_progress])
  case (1 re ep)
  from route_loop_ends [OF 1(2-4), of clk draw evs re] obtain item re' ep' where
    loop: "route_loop clk draw evs srv qry re ep = Some (item, re', ep')" and
    less: "item \<noteq> None \<longrightarrow> (route_measure srv qry re' ep', route_measure srv qry re ep) \<in> progress" by blast
  from route_loop_effect [OF loop 1(2)] 1(5) have eff: "delivered clk draw evs srv (re_now re) ep ep'" "re_pending_query re' = None"
    by (simp_all add: loop_effect_def)
  have n: "route_next clk draw evs srv qry re ep = Some (item, re', ep')" using loop 1(5) by (simp add: route_next_def)
  show ?case
  proof (cases item)
    case None
    then show ?thesis by (subst route_all.simps) (simp add: n)
  next
    case (Some x)
    then have step: "route_all clk draw evs srv qry items re ep = route_all clk draw evs srv qry (items @ [x]) re' ep'"
      by (subst route_all.simps) (simp add: n)
    have "(route_measure srv qry re' ep', route_measure srv qry re ep) \<in> progress" using less Some by simp
    from 1(1) [OF this delivered_ok [OF eff(1) 1(2)] _ _ eff(2)] step delivered_fit [OF eff(1) 1(2), of qry] 1(3,4) show ?thesis by simp
  qed
qed

subsection \<open>Receiving a datagram\<close>

text \<open>What a driver does with a datagram: hand it in, then take every item.\<close>

definition endpoint_receive ::
  "'i :: linorder clock \<Rightarrow> ('g \<Rightarrow> u32 \<times> 'g) \<Rightarrow> (service_update, 'ev, 'e) pool_ops \<Rightarrow> ('an, 'ae) answer_pool \<Rightarrow> ('qe, 'ue) update_pool \<Rightarrow>
     ('i, 'g, 'ev, 'sp, 'se) route_pool \<Rightarrow> ('i, 'an, 'qe, 'qp, 'qf) query_pool \<Rightarrow> ('i, 'c, 'ce) entry_pool \<Rightarrow> 'i \<Rightarrow> received \<Rightarrow>
     ('i, 'r, 'c, 'sp, 'qp, 'ep) endpoint \<Rightarrow>
     ((handle_error + (handle_error + route_event) list) \<times> ('i, 'r, 'c, 'sp, 'qp, 'ep) endpoint) option" where
  "endpoint_receive clk draw evs an ev srv qry ents now rx ep =
     (case endpoint_handle clk an ev srv qry ents now rx ep of
        (Inl e, ep) \<Rightarrow> Some (Inl e, ep)
      | (Inr re, ep) \<Rightarrow> map_option (\<lambda>(items, ep). (Inr items, ep)) (route_all clk draw evs srv qry [] re ep))"

text \<open>The parts of an endpoint that observation leaves alone.\<close>

definition same_but_observed :: "('i, 'r, 'c, 'sp, 'qp, 'ep) endpoint \<Rightarrow> ('i, 'r, 'c, 'sp, 'qp, 'ep) endpoint \<Rightarrow> bool" where
  "same_but_observed ep ep' \<longleftrightarrow> ep' = ep\<lparr>ep_queries := ep_queries ep', ep_cache := ep_cache ep', ep_datagram_seq := ep_datagram_seq ep'\<rparr>"

lemma same_but_observed_refl: "same_but_observed ep ep" by (simp add: same_but_observed_def)

lemma same_but_observed_trans: "same_but_observed a b \<Longrightarrow> same_but_observed b c \<Longrightarrow> same_but_observed a c"
  by (cases a; cases b; cases c) (simp add: same_but_observed_def)

lemma same_but_observed_fields:
  "same_but_observed ep ep' \<Longrightarrow> ep_services ep' = ep_services ep" "same_but_observed ep ep' \<Longrightarrow> ep_withdrawals ep' = ep_withdrawals ep"
  "same_but_observed ep ep' \<Longrightarrow> ep_config ep' = ep_config ep" "same_but_observed ep ep' \<Longrightarrow> ep_flood ep' = ep_flood ep"
  by (cases ep; cases ep'; simp add: same_but_observed_def)+

lemma update_queries_frame: "same_but_observed ep (update_queries qry f ep)"
  by (simp add: same_but_observed_def update_queries_def)

lemma cache_record_frame: "cache_record clk ents now r seen ep = (seen', ep') \<Longrightarrow> same_but_observed ep ep'"
  by (auto simp: cache_record_def same_but_observed_def Let_def split: option.splits sum.splits)

lemma observe_records_frame: "same_but_observed ep (observe_records clk an ents qry pc resp now rs seen ep)"
proof (induction clk an ents qry pc resp now rs seen ep rule: observe_records.induct)
  case (3 clk an ents qry pc resp now r rs seen ep)
  let ?ep = "if resp then update_queries qry (observe_answer an now r) ep else ep"
  have u: "same_but_observed ep ?ep" by (simp add: update_queries_frame same_but_observed_refl)
  show ?case
  proof (cases "\<not> pc \<or> \<not> resp")
    case True
    from 3(1) [OF refl True] show ?thesis using True same_but_observed_trans [OF u] by (auto simp: Let_def)
  next
    case False
    obtain s2 ep2 where c: "cache_record clk ents now r seen ?ep = (s2, ep2)" by (cases "cache_record clk ents now r seen ?ep")
    from 3(2) [OF refl False c [symmetric] refl] have "same_but_observed ep2 (observe_records clk an ents qry pc resp now rs s2 ep2)" .
    then have "same_but_observed ep (observe_records clk an ents qry pc resp now rs s2 ep2)"
      using same_but_observed_trans u cache_record_frame [OF c] by blast
    then show ?thesis using False c by (simp add: Let_def)
  qed
qed (simp_all add: same_but_observed_refl)

lemma quiet_questions_frame: "same_but_observed ep (quiet_questions clk ev qry now qs ep)"
proof (induction clk ev qry now qs ep rule: quiet_questions.induct)
  case (3 clk ev qry now q qs ep)
  then show ?case by (auto simp: same_but_observed_refl intro: same_but_observed_trans [OF update_queries_frame])
qed (simp_all add: same_but_observed_refl)

lemma observe_frame: "same_but_observed ep (observe clk an ents qry now rd adm ep)"
  by (simp add: observe_def observe_records_frame same_but_observed_refl)

lemma quiet_frame: "same_but_observed ep (quiet clk ev qry now src rd adm ep)"
  by (simp add: quiet_def quiet_questions_frame same_but_observed_refl)

text \<open>The endpoint once a datagram was observed, and the iterator over it.\<close>

definition observed_endpoint where
  "observed_endpoint clk an ev srv qry ents now rx rd ep =
     (let adm = datagram_admits srv rx rd ep in
      (\<lambda>e. e\<lparr>ep_datagram_seq := ep_datagram_seq e + 1\<rparr>)
        (quiet clk ev qry now (rx_src rx) rd adm (observe clk an ents qry now rd adm ep)))"

lemma observed_frame: "same_but_observed ep (observed_endpoint clk an ev srv qry ents now rx rd ep)"
proof -
  let ?q = "quiet clk ev qry now (rx_src rx) rd (datagram_admits srv rx rd ep)
      (observe clk an ents qry now rd (datagram_admits srv rx rd ep) ep)"
  have "same_but_observed ep ?q" by (rule same_but_observed_trans [OF observe_frame quiet_frame])
  moreover have "same_but_observed ?q (?q\<lparr>ep_datagram_seq := ep_datagram_seq ?q + 1\<rparr>)" by (simp add: same_but_observed_def)
  ultimately show ?thesis unfolding observed_endpoint_def Let_def by (rule same_but_observed_trans)
qed

lemma handle_Inl: "endpoint_handle clk an ev srv qry ents now rx ep = (Inl e, ep') \<Longrightarrow> ep' = ep"
  by (auto simp: endpoint_handle_def Let_def split: sum.splits if_splits)

lemma handle_Inr:
  assumes "endpoint_handle clk an ev srv qry ents now rx ep = (Inr re, ep')"
  shows "\<exists>rd. reader_try_parse (rx_data rx) = Inr rd \<and> ep' = observed_endpoint clk an ev srv qry ents now rx rd ep \<and>
     re_src re = rx_src rx \<and> re_reader re = rd \<and> re_now re = now \<and> re_pending_query re = None \<and>
     re_is_response re = flags_is_response (hdr_flags (mr_header rd)) \<and>
     re_datagram re = DatagramId (ep_datagram_seq ep') \<and> re_admits re = datagram_admits srv rx rd ep \<and>
     re_section re = (if all_denied (datagram_admits srv rx rd ep) then AtDone else AtQuestions) \<and>
     re_question_idx re = 0 \<and> re_service_cursor re = 0"
  using assms by (auto simp: endpoint_handle_def observed_endpoint_def Let_def split: sum.splits if_splits)

lemma receive_effect:
  assumes "endpoint_receive clk draw evs an ev srv qry ents now rx ep = Some (res, ep')" "services_ok srv pinv ep"
  shows "\<exists>ep1. same_but_observed ep ep1 \<and> delivered clk draw evs srv now ep1 ep'"
proof (cases "endpoint_handle clk an ev srv qry ents now rx ep")
  case (Pair r ep1)
  show ?thesis
  proof (cases r)
    case (Inl e)
    with handle_Inl Pair have "ep1 = ep" by blast
    with assms(1) Inl Pair show ?thesis by (auto simp: endpoint_receive_def intro: same_but_observed_refl)
  next
    case (Inr re)
    with handle_Inr [of clk an ev srv qry ents now rx ep re ep1] Pair observed_frame [of ep clk an ev srv qry ents now rx]
    have re: "same_but_observed ep ep1" "re_now re = now" "re_pending_query re = None" by auto
    then have ok: "services_ok srv pinv ep1" using assms(2) same_but_observed_fields(1) by (metis services_ok_cong)
    from assms(1) Pair Inr obtain items where "route_all clk draw evs srv qry [] re ep1 = Some (items, ep')"
      by (auto simp: endpoint_receive_def)
    from route_all_effect [OF this ok re(3)] re(1,2) show ?thesis by auto
  qed
qed

text \<open>Observation assigns through the keys of the query pool, so it keeps them.\<close>

definition queries_ok :: "('i, 'an, 'qe, 'qp, 'qf) query_pool \<Rightarrow> ('qp \<Rightarrow> bool) \<Rightarrow> ('i, 'r, 'c, 'sp, 'qp, 'ep) endpoint \<Rightarrow> bool" where
  "queries_ok qry qinv ep \<longleftrightarrow> qinv (ep_queries ep) \<and> queries_fit qry ep"

lemma puts_keep:
  assumes "pool ops pinv" "pinv p" "\<forall>(k, v)\<in>set xs. k \<in> dom (pmap ops p)"
  shows "pinv (foldl (\<lambda>p (k, v). pl_put ops p k (f v)) p xs) \<and>
     dom (pmap ops (foldl (\<lambda>p (k, v). pl_put ops p k (f v)) p xs)) = dom (pmap ops p)"
  using assms(2,3)
proof (induction xs arbitrary: p)
  case (Cons x xs)
  obtain k v where x: "x = (k, v)" by (cases x)
  with Cons.prems have k: "k \<in> dom (pmap ops p)" by simp
  have "dom (pmap ops (pl_put ops p k (f v))) = dom (pmap ops p)"
    using pool.put_map [OF assms(1) Cons.prems(1) k, of "f v"] k by auto
  with Cons.IH [OF pool.put_inv [OF assms(1) Cons.prems(1) k]] Cons.prems(2) show ?case by (simp add: x)
qed simp

lemma update_queries_ok:
  assumes "pool qry qinv" "queries_ok qry qinv ep"
  shows "queries_ok qry qinv (update_queries qry f ep)"
proof -
  have "\<forall>(k, v)\<in>set (pl_iter qry (ep_queries ep)). k \<in> dom (pmap qry (ep_queries ep))"
    by (auto simp: dom_map_of_conv_image_fst intro: image_eqI [rotated])
  moreover have "ep_queries (update_queries qry f ep) =
      foldl (\<lambda>p (k, q). pl_put qry p k (f q)) (ep_queries ep) (pl_iter qry (ep_queries ep))" by (simp add: update_queries_def)
  ultimately show ?thesis using puts_keep [OF assms(1), of "ep_queries ep" _ f] assms(2)
    by (simp only: queries_ok_def queries_fit_def simp_thms) blast
qed

lemma cache_record_ok: "cache_record clk ents now r seen ep = (seen', ep') \<Longrightarrow> queries_ok qry qinv ep' = queries_ok qry qinv ep"
  by (auto simp: cache_record_def queries_ok_def queries_fit_def Let_def split: option.splits sum.splits)

lemma observe_records_ok:
  assumes "pool qry qinv" "queries_ok qry qinv ep"
  shows "queries_ok qry qinv (observe_records clk an ents qry pc resp now rs seen ep)"
  using assms
proof (induction clk an ents qry pc resp now rs seen ep rule: observe_records.induct)
  case (3 clk an ents qry pc resp now r rs seen ep)
  let ?ep = "if resp then update_queries qry (observe_answer an now r) ep else ep"
  have u: "queries_ok qry qinv ?ep" using 3(3,4) by (simp add: update_queries_ok)
  show ?case
  proof (cases "\<not> pc \<or> \<not> resp")
    case True
    from 3(1) [OF refl True 3(3) u] show ?thesis using True by (auto simp: Let_def)
  next
    case False
    obtain s2 ep2 where c: "cache_record clk ents now r seen ?ep = (s2, ep2)" by (cases "cache_record clk ents now r seen ?ep")
    from 3(2) [OF refl False c [symmetric] refl 3(3)] u cache_record_ok [OF c, of qry qinv] show ?thesis using False c by (simp add: Let_def)
  qed
qed simp_all

lemma quiet_questions_ok:
  assumes "pool qry qinv" "queries_ok qry qinv ep"
  shows "queries_ok qry qinv (quiet_questions clk ev qry now qs ep)"
  using assms
proof (induction clk ev qry now qs ep rule: quiet_questions.induct)
  case (3 clk ev qry now q qs ep)
  then show ?case using update_queries_ok [OF 3(2,3), of "quieted_by clk ev now q"] by auto
qed simp_all

lemma observed_ok:
  assumes "pool qry qinv" "queries_ok qry qinv ep"
  shows "queries_ok qry qinv (observed_endpoint clk an ev srv qry ents now rx rd ep)"
proof -
  let ?adm = "datagram_admits srv rx rd ep"
  have "queries_ok qry qinv (quiet clk ev qry now (rx_src rx) rd ?adm (observe clk an ents qry now rd ?adm ep))"
    using assms by (simp add: quiet_def observe_def quiet_questions_ok observe_records_ok)
  then show ?thesis unfolding observed_endpoint_def Let_def by (simp add: queries_ok_def queries_fit_def)
qed

lemma receive_ends:
  assumes "services_ok srv pinv ep" "services_fit srv ep" "pool qry qinv" "queries_ok qry qinv ep"
  shows "endpoint_receive clk draw evs an ev srv qry ents now rx ep \<noteq> None"
proof (cases "endpoint_handle clk an ev srv qry ents now rx ep")
  case (Pair r ep1)
  show ?thesis
  proof (cases r)
    case (Inl e)
    with Pair show ?thesis by (simp add: endpoint_receive_def)
  next
    case (Inr re)
    with handle_Inr [of clk an ev srv qry ents now rx ep re ep1] Pair observed_frame [of ep clk an ev srv qry ents now rx]
      observed_ok [OF assms(3,4), of clk an ev srv ents now rx]
    have re: "same_but_observed ep ep1" "re_pending_query re = None" "queries_fit qry ep1" by (auto simp: queries_ok_def)
    from same_but_observed_fields(1) [OF re(1)] assms(1,2) have "services_ok srv pinv ep1" "services_fit srv ep1"
      by (simp_all add: services_ok_def services_fit_def)
    from route_all_ends [OF this re(3,2)] Inr Pair show ?thesis by (simp add: endpoint_receive_def)
  qed
qed

text \<open>
  C10. A datagram is always routed to the end: over any pools of services and queries that keep their
  contract and have not reached the greatest key, the iterator stops, whatever the datagram says and
  whatever the services do with it.  (A cursor cannot be put behind the greatest \<open>usize\<close>.)
\<close>
theorem routing_terminates:
  assumes "pool srv pinv" "pinv (ep_services ep)" "\<forall>k\<in>dom (pmap srv (ep_services ep)). k < usize_max"
    and "pool qry qinv" "qinv (ep_queries ep)" "\<forall>k\<in>dom (pmap qry (ep_queries ep)). k < usize_max"
  shows "endpoint_receive clk draw evs an ev srv qry ents now rx ep \<noteq> None"
  by (rule receive_ends [of srv pinv ep qry qinv])
    (use assms in \<open>simp_all add: services_ok_def services_fit_def queries_ok_def queries_fit_def\<close>)

subsection \<open>Who is reached\<close>

text \<open>A turn changes the state machine of one live route, and nothing of a route that withdraws.\<close>

definition same_route :: "('i, 'g, 'ev) service_route \<Rightarrow> ('i, 'g, 'ev) service_route \<Rightarrow> bool" where
  "same_route r r' \<longleftrightarrow> r' = r\<lparr>rt_proto := rt_proto r'\<rparr> \<and> (rt_withdrawing r \<longrightarrow> r' = r)"

lemma same_route_refl: "same_route r r" by (simp add: same_route_def)

lemma same_route_trans: "same_route a b \<Longrightarrow> same_route b c \<Longrightarrow> same_route a c"
  by (cases a; cases b; cases c) (simp add: same_route_def)

lemma dispatch_routes:
  assumes "services_ok srv pinv ep" "routes srv ep k = Some route"
  shows "routes srv (dispatch clk draw evs srv now k event ep) =
     (routes srv ep)(k \<mapsto> route\<lparr>rt_proto := fst (service_handle_event clk draw evs event now (ep_flood ep) (rt_proto route))\<rparr>)"
  using put_route_ok(2) [OF assms(1), of k] assms(2)
  by (simp add: dispatch_def route_get [OF assms(1)] split_beta)

lemma turn_effect_routes:
  assumes "turn_effect clk draw evs srv now ep ep'" "services_ok srv pinv ep"
  shows "rel_option same_route (routes srv ep k) (routes srv ep' k)"
proof -
  have refl: "rel_option same_route x x" for x by (cases x) (simp_all add: same_route_refl)
  from assms(1) consider "ep' = ep" | k' event route where "(k', route) \<in> set (pl_iter srv (ep_services ep))"
      "\<not> rt_withdrawing route" "ep' = dispatch clk draw evs srv now k' event ep"
    by (auto simp: turn_effect_def)
  then show ?thesis
  proof cases
    case 1 then show ?thesis by (simp add: refl)
  next
    case 2
    then have r: "routes srv ep k' = Some route" using route_mem [OF assms(2)] by blast
    show ?thesis unfolding 2(3) dispatch_routes [OF assms(2) r]
      using r 2(2) refl by (cases "k = k'") (auto simp: same_route_def)
  qed
qed

lemma delivered_routes:
  assumes "delivered clk draw evs srv now ep ep'" "services_ok srv pinv ep"
  shows "rel_option same_route (routes srv ep k) (routes srv ep' k)"
  using assms
proof (induction)
  case base
  then show ?case by (cases "routes srv ep k") (simp_all add: same_route_refl)
next
  case (step ep1 ep2)
  then have "rel_option same_route (routes srv ep k) (routes srv ep1 k)" "rel_option same_route (routes srv ep1 k) (routes srv ep2 k)"
    using turn_effect_routes [OF step(2)] delivered_ok [OF step(1)] by blast+
  then show ?case by (auto simp: option_rel_Some1 elim!: option.rel_cases intro: same_route_trans)
qed

text \<open>
  C11. A service that is being withdrawn is out of reach: no datagram changes its route, it has no deadline,
  its timer does nothing, and it sends nothing.
\<close>
theorem withdrawing_is_inert:
  assumes "pool srv pinv" "pinv (ep_services ep)"
    and "service_key srv h ep = Some k" "pmap srv (ep_services ep) k = Some route" "rt_withdrawing route"
  shows "(\<forall>res ep'. endpoint_receive clk draw evs an ev srv qry ents now rx ep = Some (res, ep') \<longrightarrow>
           pmap srv (ep_services ep') k = Some route) \<and>
         poll_service_timeout srv h ep = None \<and> handle_service_timeout clk draw evs srv h now ep = (Inr (), ep) \<and>
         poll_service_transmit clk srv h now buf ep = (Inr None, buf, ep)"
proof -
  have ok: "services_ok srv pinv ep" using assms(1,2) by (simp add: services_ok_def)
  have "pmap srv (ep_services ep') k = Some route"
    if "endpoint_receive clk draw evs an ev srv qry ents now rx ep = Some (res, ep')" for res ep'
  proof -
    from receive_effect [OF that ok] obtain ep1 where
      o: "same_but_observed ep ep1" and d: "delivered clk draw evs srv now ep1 ep'" by blast
    have "ep_services ep1 = ep_services ep" using o same_but_observed_fields(1) by blast
    then have ok1: "services_ok srv pinv ep1" and r: "routes srv ep1 k = Some route"
      using ok assms(4) by (simp_all add: services_ok_def)
    from delivered_routes [OF d ok1, of k] r assms(5) show ?thesis by (auto simp: same_route_def option_rel_Some1)
  qed
  moreover have "poll_service_timeout srv h ep = None \<and> handle_service_timeout clk draw evs srv h now ep = (Inr (), ep) \<and>
      poll_service_transmit clk srv h now buf ep = (Inr None, buf, ep)"
    using assms(3-5) route_get [OF ok, of k]
    by (simp add: poll_service_timeout_def handle_service_timeout_def poll_service_transmit_def)
  ultimately show ?thesis by blast
qed

subsection \<open>What nothing admits\<close>

lemma admits_nothing_denied: "all_denied admits_nothing" by (simp add: all_denied_def admits_nothing_def)

lemma denied_cases:
  assumes "rx_provenance rx = OwnEcho \<or>
      flags_is_response (hdr_flags (mr_header rd)) \<and> sock_port (rx_src rx) \<noteq> MDNS_PORT"
  shows "datagram_admits srv rx rd ep = admits_nothing"
  using assms by (auto simp: datagram_admits_def for_datagram_def)

text \<open>
  C28. A datagram nothing admits - one of our own that came back, or a response from another port than
  5353 - changes nothing but the datagram counter and yields nothing, and if it does not even parse, or
  has an opcode or response code to refuse, not that.
\<close>
theorem unadmitted_datagram:
  assumes "rx_provenance rx = OwnEcho \<or> (\<forall>rd. reader_try_parse (rx_data rx) = Inr rd \<longrightarrow>
      flags_is_response (hdr_flags (mr_header rd)) \<and> sock_port (rx_src rx) \<noteq> MDNS_PORT)"
  shows "endpoint_receive clk draw evs an ev srv qry ents now rx ep =
       Some (Inr [], ep\<lparr>ep_datagram_seq := ep_datagram_seq ep + 1\<rparr>) \<or>
     (\<exists>e. endpoint_receive clk draw evs an ev srv qry ents now rx ep = Some (Inl e, ep))"
proof (cases "endpoint_handle clk an ev srv qry ents now rx ep")
  case (Pair res ep1)
  show ?thesis
  proof (cases res)
    case (Inl e)
    with Pair handle_Inl [of clk an ev srv qry ents now rx ep e ep1] show ?thesis by (simp add: endpoint_receive_def)
  next
    case (Inr re)
    with handle_Inr [of clk an ev srv qry ents now rx ep re ep1] Pair obtain rd where
      rd: "reader_try_parse (rx_data rx) = Inr rd" "ep1 = observed_endpoint clk an ev srv qry ents now rx rd ep"
        "re_pending_query re = None" "re_section re = (if all_denied (datagram_admits srv rx rd ep) then AtDone else AtQuestions)"
      by auto
    have n: "datagram_admits srv rx rd ep = admits_nothing" using assms rd(1) by (intro denied_cases) auto
    then have s: "re_section re = AtDone" and ep1: "ep1 = ep\<lparr>ep_datagram_seq := ep_datagram_seq ep + 1\<rparr>"
      using rd admits_nothing_denied
      by (simp_all add: observed_endpoint_def quiet_def observe_def admits_nothing_def)
    have "route_next clk draw evs srv qry re ep1 = Some (None, re, ep1)"
      using s rd(3) by (simp add: route_next_def route_turn_def route_loop.simps)
    then have "route_all clk draw evs srv qry [] re ep1 = Some ([], ep1)" by (subst route_all.simps) simp
    then show ?thesis using Pair Inr ep1 by (simp add: endpoint_receive_def)
  qed
qed

subsection \<open>A concrete endpoint\<close>

definition quiet_seed :: "unit \<Rightarrow> unit \<times> unit" where "quiet_seed g = ((), ())"

text \<open>An endpoint with one service, under the name \<open>a\<close>.\<close>

definition one_service :: slab_endpoint where
  "one_service = snd (try_register_service smoltcp_clock quiet_rng quiet_seed list_slab list_slab
     (sr_new (Name [98]) (Name [97, 46, 98]) (Name [104]) 80 120) (SmoltcpInstant 0) fresh_endpoint)"

definition one_withdrawing :: slab_endpoint where
  "one_withdrawing = unregister_service smoltcp_clock list_slab (ServiceHandle 0) (SmoltcpInstant 1) one_service"

text \<open>A response with no record, from port 5353 and from port 53.\<close>

definition empty_response :: bytes where "empty_response = [0, 0, 132, 0, 0, 0, 0, 0, 0, 0, 0, 0]"

definition empty_rx :: "u16 \<Rightarrow> received" where
  "empty_rx port = received_new (SockV4 [10, 0, 0, 9] port) empty_response NotFromUs"

abbreviation slab_receive :: "received \<Rightarrow> slab_endpoint \<Rightarrow> _" where
  "slab_receive rx ep \<equiv> endpoint_receive smoltcp_clock quiet_rng (list_slab :: service_update slab) (list_slab :: collected_answer slab)
     (list_slab :: query_update slab) list_slab list_slab list_slab (SmoltcpInstant 2) rx ep"

lemma one_service_keys:
  "distinct (map fst (ep_services one_service))" "dom (pmap list_slab (ep_services one_service)) = {0}"
proof -
  have "map fst (ep_services one_service) = [0]" by code_simp
  then show "distinct (map fst (ep_services one_service))" "dom (pmap list_slab (ep_services one_service)) = {0}"
    by (auto simp: list_slab_def dom_map_of_conv_image_fst simp flip: set_map)
qed

lemma one_service_queries: "ep_queries one_service = []"
  by code_simp

lemma routing_terminates_witness: "slab_receive (empty_rx 5353) one_service \<noteq> None"
  by (rule routing_terminates [OF list_slab.pool_axioms _ _ list_slab.pool_axioms])
    (simp_all only: one_service_keys, simp_all add: one_service_queries list_slab_def)

lemma withdrawing_is_inert_witness:
  "\<exists>route res ep'. slab_receive (empty_rx 5353) one_withdrawing = Some (res, ep') \<and> rt_withdrawing route \<and>
     pmap (list_slab :: slab_route slab) (ep_services ep') 0 = Some route"
proof -
  let ?srv = "list_slab :: slab_route slab"
  have i: "distinct (map fst (ep_services one_withdrawing))" by code_simp
  have "case pmap ?srv (ep_services one_withdrawing) 0 of Some route \<Rightarrow> rt_withdrawing route | None \<Rightarrow> False" by code_simp
  then obtain route where r: "pmap ?srv (ep_services one_withdrawing) 0 = Some route" "rt_withdrawing route"
    by (auto split: option.splits)
  have k: "service_key ?srv (ServiceHandle 0) one_withdrawing = Some 0" by code_simp
  have "map fst (ep_services one_withdrawing) = [0]" "ep_queries one_withdrawing = []" by code_simp+
  then have "services_fit ?srv one_withdrawing"
    "queries_ok (list_slab :: slab_query slab) (\<lambda>p. distinct (map fst p)) one_withdrawing"
    by (auto simp: services_fit_def queries_ok_def queries_fit_def list_slab_def dom_map_of_conv_image_fst simp flip: set_map)
  moreover have "services_ok ?srv (\<lambda>p. distinct (map fst p)) one_withdrawing"
    using list_slab.pool_axioms i by (simp only: services_ok_def simp_thms)
  ultimately have "slab_receive (empty_rx 5353) one_withdrawing \<noteq> None" using receive_ends list_slab.pool_axioms by blast
  then obtain res ep' where "slab_receive (empty_rx 5353) one_withdrawing = Some (res, ep')" by auto
  with withdrawing_is_inert [OF list_slab.pool_axioms i k r] r(2) show ?thesis by blast
qed

lemma unadmitted_datagram_witness:
  "slab_receive (empty_rx 53) one_service = Some (Inr [], one_service\<lparr>ep_datagram_seq := ep_datagram_seq one_service + 1\<rparr>)"
proof -
  have "case reader_try_parse empty_response of Inr rd \<Rightarrow> flags_is_response (hdr_flags (mr_header rd)) \<and>
      flags_opcode (hdr_flags (mr_header rd)) = Opcode_Query \<and> flags_response_code (hdr_flags (mr_header rd)) = RC_NoError
      | Inl _ \<Rightarrow> False" by code_simp
  then obtain rd where rd: "reader_try_parse empty_response = Inr rd" "flags_is_response (hdr_flags (mr_header rd))"
    "flags_opcode (hdr_flags (mr_header rd)) = Opcode_Query" "flags_response_code (hdr_flags (mr_header rd)) = RC_NoError"
    by (auto split: sum.splits)
  have "slab_receive (empty_rx 53) one_service \<noteq> Some (Inl e, one_service)" for e
    using rd by (auto simp: endpoint_receive_def endpoint_handle_def empty_rx_def received_new_def Let_def split: option.splits)
  moreover have "\<forall>rd. reader_try_parse (rx_data (empty_rx 53)) = Inr rd \<longrightarrow>
      flags_is_response (hdr_flags (mr_header rd)) \<and> sock_port (rx_src (empty_rx 53)) \<noteq> MDNS_PORT"
    using rd by (simp add: empty_rx_def received_new_def MDNS_PORT_def)
  ultimately show ?thesis
    using unadmitted_datagram [of "empty_rx 53" smoltcp_clock quiet_rng "list_slab :: service_update slab"
        "list_slab :: collected_answer slab" "list_slab :: query_update slab" list_slab list_slab list_slab
        "SmoltcpInstant 2" one_service] by blast
qed

end
