(* ===== verification/RouteReach.thy ===== *)
theory RouteReach
  imports RouteLife
begin

text \<open>
  Whom a question reaches: the scan with its cursor hands it, once, to every live route it is about that
  no other such route with a greater key precedes in the iteration.  Over a pool that iterates in the order
  of its keys that is all of them.  A route under the greatest key keeps the scan for ever.
\<close>

subsection \<open>The verdict on a probe does not depend on the name that asks for it\<close>

lemma names_match_same: "names_match n i \<Longrightarrow> names_match n' i \<Longrightarrow> names_match n = names_match n'"
  by (auto simp: names_match_def names_match_str_def match_labels_iff fun_eq_iff)

lemma admitted_same:
  assumes "names_match n = names_match n'"
  shows "admitted qs n r = admitted qs n' r"
proof -
  have "question_is_about q n = question_is_about q n'" for q by (simp add: question_is_about_def assms)
  then show ?thesis by (simp add: admitted_def names_match_record_def assms)
qed

lemma probe_loop_Inr:
  "probe_loop scope (Inr r # rs) =
     (if \<not> name_fully_decodes (rr_name r) then probe_loop scope rs
      else case fst (scope_admits r scope) of
        Inr (NotOurs _) \<Rightarrow> probe_loop (snd (scope_admits r scope)) rs | _ \<Rightarrow> True)"
  by (cases "scope_admits r scope") (simp split: sum.splits admission.splits)

declare probe_loop.simps(3) [simp del]

text \<open>Without the memory of the scope.\<close>

fun probe_admitted :: "(parse_error + question_ref) list \<Rightarrow> name \<Rightarrow> (parse_error + record_ref) list \<Rightarrow> bool" where
  "probe_admitted qs n [] = False"
| "probe_admitted qs n (Inl _ # rs) = False"
| "probe_admitted qs n (Inr r # rs) =
     (if \<not> name_fully_decodes (rr_name r) then probe_admitted qs n rs
      else case admitted qs n r of Inr (NotOurs _) \<Rightarrow> probe_admitted qs n rs | _ \<Rightarrow> True)"

lemma probe_loop_admitted: "scope_ok qs n scope \<Longrightarrow> probe_loop scope rs = probe_admitted qs n rs"
proof (induction qs n rs arbitrary: scope rule: probe_admitted.induct)
  case (3 qs n r rs)
  have "fst (scope_admits r scope) = admitted qs n r" and ok: "scope_ok qs n (snd (scope_admits r scope))"
    using scope_admits_eq [OF 3(3), of r] by blast+
  then show ?case
    using 3(1) [OF _ 3(3)] 3(2) [OF _ _ _ ok]
    by (cases "name_fully_decodes (rr_name r)") (simp_all add: probe_loop_Inr split: sum.split admission.split)
qed simp_all

lemma probe_admitted_same:
  assumes "names_match n = names_match n'"
  shows "probe_admitted qs n rs = probe_admitted qs n' rs"
proof (induction rs)
  case (Cons r rs)
  then show ?case by (cases r) (simp_all add: admitted_same [OF assms] split: sum.split admission.split)
qed simp

lemma is_probe_for_same: "names_match n = names_match n' \<Longrightarrow> is_probe_for rd n = is_probe_for rd n'"
  unfolding is_probe_for_def probe_loop_admitted [OF scope_ok_new] by (rule probe_admitted_same)

subsection \<open>The routes a question is about\<close>

definition asked :: "message_reader \<Rightarrow> question_ref \<Rightarrow> bool \<Rightarrow> ('i, 'g, 'ev) service_route \<Rightarrow> bool" where
  "asked rd q defence_only route \<longleftrightarrow> \<not> rt_withdrawing route \<and>
     (if defence_only
      then (names_match (rt_name route) (q_name q) \<and> is_probe_for rd (rt_name route)) \<or>
           (names_match (rt_host route) (q_name q) \<and> is_probe_for rd (rt_host route))
      else names_match (rt_name route) (q_name q) \<or> names_match (rt_host route) (q_name q) \<or>
           names_match (rt_service_type route) (q_name q) \<or> (\<exists>s\<in>set (rt_subtypes route). names_match s (q_name q)) \<or>
           is_meta_query_name (q_name q))"

text \<open>The remembered verdict is that of any name the question asks for.\<close>

definition memo_ok :: "message_reader \<Rightarrow> question_ref \<Rightarrow> bool option \<Rightarrow> bool" where
  "memo_ok rd q memo \<longleftrightarrow> (\<forall>n b. memo = Some b \<longrightarrow> names_match n (q_name q) \<longrightarrow> is_probe_for rd n = b)"

lemma verdict_asked:
  assumes "memo_ok rd q memo" "\<not> rt_withdrawing route"
  shows "fst (question_verdict rd q def memo route) = asked rd q def route"
    "memo_ok rd q (snd (question_verdict rd q def memo route))"
proof -
  have s: "is_probe_for rd n = is_probe_for rd n'" if "names_match n (q_name q)" "names_match n' (q_name q)" for n n'
    using is_probe_for_same [OF names_match_same [OF that]] .
  have m: "is_probe_for rd n = b" if "memo = Some b" "names_match n (q_name q)" for b n
    using assms(1) that by (simp add: memo_ok_def)
  show "fst (question_verdict rd q def memo route) = asked rd q def route"
  proof (cases def)
    case False
    with assms(2) show ?thesis by (auto simp: question_verdict_def asked_def list_ex_iff)
  next
    case True
    show ?thesis
    proof (cases memo)
      case None
      with True assms(2) show ?thesis using s [of "rt_name route" "rt_host route"] by (auto simp: question_verdict_def asked_def)
    next
      case (Some b)
      with True assms(2) show ?thesis using m [OF Some] by (auto simp: question_verdict_def asked_def)
    qed
  qed
  show "memo_ok rd q (snd (question_verdict rd q def memo route))"
  proof (cases memo)
    case None
    have key: "memo_ok rd q (Some (is_probe_for rd n))" if "names_match n (q_name q)" for n
      unfolding memo_ok_def using s that by blast
    have "memo_ok rd q None" by (simp add: memo_ok_def)
    with None key show ?thesis by (simp add: question_verdict_def)
  next
    case (Some b)
    then have "snd (question_verdict rd q def memo route) = memo" by (simp add: question_verdict_def)
    with assms(1) show ?thesis by simp
  qed
qed

lemma find_questioned_find:
  "memo_ok rd q memo \<Longrightarrow>
     find_questioned rd q def c memo rs = map_option fst (find (\<lambda>(k, route). c \<le> k \<and> asked rd q def route) rs)"
proof (induction rs arbitrary: memo)
  case (Cons x rs)
  obtain k route where x: "x = (k, route)" by (cases x)
  show ?case
  proof (cases "k < c \<or> rt_withdrawing route")
    case True
    then show ?thesis using Cons x by (auto simp: asked_def)
  next
    case False
    obtain a memo' where v: "question_verdict rd q def memo route = (a, memo')" by (cases "question_verdict rd q def memo route")
    from False verdict_asked [OF Cons.prems, of route def] v have "a = asked rd q def route" "memo_ok rd q memo'" by simp_all
    with Cons.IH [of memo'] False x v show ?thesis by simp
  qed
qed simp

subsection \<open>One pass over the services\<close>

text \<open>A pool whose iteration order an assignment leaves alone.\<close>

definition order_kept :: "('v, 'p, 'e) pool_ops \<Rightarrow> ('p \<Rightarrow> bool) \<Rightarrow> bool" where
  "order_kept ops pinv \<longleftrightarrow> (\<forall>p k v. pinv p \<longrightarrow> k \<in> dom (pmap ops p) \<longrightarrow>
     map fst (pl_iter ops (pl_put ops p k v)) = map fst (pl_iter ops p))"

text \<open>Before the key, the iterator yields a greater one whose value is asked too: the cursor has passed.\<close>

definition overtaken :: "('v \<Rightarrow> bool) \<Rightarrow> (nat \<times> 'v) list \<Rightarrow> nat \<Rightarrow> bool" where
  "overtaken P xs k \<longleftrightarrow> (\<exists>(j, v)\<in>set (takeWhile (\<lambda>(j, _). j \<noteq> k) xs). k < j \<and> P v)"

text \<open>The keys a scan from a cursor comes to, one after the other.\<close>

fun reached :: "nat \<Rightarrow> (nat \<times> bool) list \<Rightarrow> nat set" where
  "reached c [] = {}"
| "reached c ((k, b) # xs) = (if c \<le> k \<and> b then insert k (reached (Suc k) xs) else reached c xs)"

abbreviation verdicts :: "('v \<Rightarrow> bool) \<Rightarrow> (nat \<times> 'v) list \<Rightarrow> (nat \<times> bool) list" where
  "verdicts P \<equiv> map (\<lambda>(k, v). (k, P v))"

lemma reached_bounds: "k \<in> reached c ys \<Longrightarrow> c \<le> k \<and> (k, True) \<in> set ys"
  by (induction c ys rule: reached.induct) (auto split: if_splits)

lemma reached_None: "find (\<lambda>(k, x). c \<le> k \<and> P x) xs = None \<Longrightarrow> reached c (verdicts P xs) = {}"
  by (induction xs) (auto split: if_splits)

lemma reached_Some:
  fixes xs :: "(nat \<times> 'v) list"
  shows "find (\<lambda>(k, x). c \<le> k \<and> P x) xs = Some (k, x) \<Longrightarrow>
     reached c (verdicts P xs) = insert k (reached (Suc k) (verdicts P xs))"
proof (induction xs)
  case (Cons y ys)
  obtain j z where y: "y = (j, z)" by (cases y)
  show ?case
  proof (cases "c \<le> j \<and> P z")
    case True
    with Cons.prems y show ?thesis by simp
  next
    case False
    with Cons.prems y have f: "find (\<lambda>(k, x). c \<le> k \<and> P x) ys = Some (k, x)" by (simp split: if_splits)
    then have "c \<le> k" by (auto simp: find_Some_iff)
    with False have "\<not> (Suc k \<le> j \<and> P z)" by auto
    with Cons.IH [OF f] False y show ?thesis by auto
  qed
qed simp

lemma reached_overtaken:
  "distinct (map fst xs) \<Longrightarrow> (k, x) \<in> set xs \<Longrightarrow> k \<in> reached c (verdicts P xs) \<longleftrightarrow> c \<le> k \<and> P x \<and> \<not> overtaken P xs k"
proof (induction xs arbitrary: c)
  case (Cons y ys)
  obtain j z where y: "y = (j, z)" by (cases y)
  show ?case
  proof (cases "j = k")
    case True
    with Cons.prems y have "z = x" "k \<notin> fst ` set ys" by (auto intro: rev_image_eqI)
    moreover have "k \<notin> reached c' (verdicts P ys)" for c' using \<open>k \<notin> fst ` set ys\<close> reached_bounds [of k c'] by force
    ultimately show ?thesis using True y by (auto simp: overtaken_def)
  next
    case False
    with Cons.prems y have "(k, x) \<in> set ys" "distinct (map fst ys)" by auto
    with Cons.IH have ih: "k \<in> reached c (verdicts P ys) \<longleftrightarrow> c \<le> k \<and> P x \<and> \<not> overtaken P ys k" for c by blast
    have "overtaken P (y # ys) k \<longleftrightarrow> k < j \<and> P z \<or> overtaken P ys k" using False by (simp add: overtaken_def y)
    then show ?thesis using False ih [of c] ih [of "Suc j"] by (auto simp: y)
  qed
qed simp

lemma ordered_overtakes_none: "sorted_wrt (<) (map fst xs) \<Longrightarrow> k \<in> fst ` set xs \<Longrightarrow> \<not> overtaken P xs k"
proof (induction xs)
  case (Cons y ys)
  obtain j z where y: "y = (j, z)" by (cases y)
  show ?case
  proof (cases "j = k")
    case False
    with Cons.prems y have "k \<in> fst ` set ys" by auto
    with Cons y have "\<not> overtaken P ys k" "j < k" by auto
    with False y show ?thesis by (simp add: overtaken_def)
  qed (simp add: y overtaken_def)
qed simp

lemma verdicts_of_map: "distinct (map fst xs) \<Longrightarrow> verdicts P xs = map (\<lambda>k. (k, P (the (map_of xs k)))) (map fst xs)"
  by auto

definition question_event :: "'i route_events \<Rightarrow> question_ref \<Rightarrow> service_event" where
  "question_event re q = SE_Question ((service_question_new q (re_src re) (hdr_id (mr_header (re_reader re))))
     \<lparr>sq_truncated := flags_is_truncated (hdr_flags (mr_header (re_reader re)))\<rparr>)"

lemma question_flood: "snd (service_handle_event clk draw evs (question_event re q) now flood s) = flood"
  by (simp add: service_handle_event_def question_event_def classify_event_def Let_def)

text \<open>Whether the datagram may be answered at all, and whether only in defence of a name.\<close>

definition defends_only :: "'i route_events \<Rightarrow> bool" where
  "defends_only re \<longleftrightarrow> ad_answering (re_admits re) = DefenceOnly"

definition may_answer :: "'i route_events \<Rightarrow> bool" where
  "may_answer re \<longleftrightarrow> ad_answering (re_admits re) \<noteq> AnswerNone \<and>
     (defends_only re \<longrightarrow> \<not> re_is_response re \<and> 0 < authority_count (mr_header (re_reader re)) \<and> sock_port (re_src re) = MDNS_PORT)"

text \<open>A route once the question was handled by its service; that does not change whether it is asked.\<close>

definition told :: "'i :: linorder clock \<Rightarrow> ('g \<Rightarrow> u32 \<times> 'g) \<Rightarrow> (service_update, 'ev, 'e) pool_ops \<Rightarrow> 'i route_events \<Rightarrow> question_ref \<Rightarrow>
    'i conflict_flood \<Rightarrow> ('i, 'g, 'ev) service_route \<Rightarrow> ('i, 'g, 'ev) service_route" where
  "told clk draw evs re q flood route =
     route\<lparr>rt_proto := fst (service_handle_event clk draw evs (question_event re q) (re_now re) flood (rt_proto route))\<rparr>"

lemma asked_told: "asked rd q d (told clk draw evs re q' flood route) = asked rd q d route"
  by (simp add: asked_def told_def)

abbreviation asked_by :: "'i route_events \<Rightarrow> question_ref \<Rightarrow> ('i, 'g, 'ev) service_route \<Rightarrow> bool" where
  "asked_by re q \<equiv> asked (re_reader re) q (defends_only re)"

text \<open>The iterator stands at a question it may answer.\<close>

definition at_question :: "'i route_events \<Rightarrow> question_ref \<Rightarrow> bool" where
  "at_question re q \<longleftrightarrow> re_section re = AtQuestions \<and> may_answer re \<and>
     re_question_idx re < unat (question_count (mr_header (re_reader re))) \<and>
     question_at (re_reader re) (re_question_idx re) = Some (Inr q)"

definition asked_from :: "('i, 'g, 'ev, 'sp, 'se) route_pool \<Rightarrow> 'i route_events \<Rightarrow> question_ref \<Rightarrow> nat \<Rightarrow> ('i, 'r, 'c, 'sp, 'qp, 'ep) endpoint \<Rightarrow>
    (nat \<times> ('i, 'g, 'ev) service_route) option" where
  "asked_from srv re q c ep = find (\<lambda>(k, route). c \<le> k \<and> asked_by re q route) (pl_iter srv (ep_services ep))"

lemma question_step:
  assumes "at_question re q"
  shows "route_turn clk draw evs srv qry (re\<lparr>re_service_cursor := c\<rparr>) ep = (case asked_from srv re q c ep of
      Some (k, _) \<Rightarrow> (Continue, re\<lparr>re_service_cursor := past_key k\<rparr>, dispatch clk draw evs srv (re_now re) k (question_event re q) ep)
    | None \<Rightarrow> (Continue, re\<lparr>re_question_idx := idx_next (re_question_idx re), re_service_cursor := 0\<rparr>, ep))"
proof -
  have "find_questioned (re_reader re) q (defends_only re) c None (pl_iter srv (ep_services ep)) = map_option fst (asked_from srv re q c ep)"
    unfolding asked_from_def by (rule find_questioned_find) (simp add: memo_ok_def)
  then show ?thesis using assms
    by (cases "asked_from srv re q c ep")
      (auto simp: at_question_def route_turn_def question_turn_def may_answer_def defends_only_def question_event_def Let_def split: prod.split)
qed

lemma asked_route:
  assumes "services_ok srv pinv ep" "asked_from srv re q c ep = Some (k, route)"
  shows "routes srv ep k = Some route" "live_from c k (pl_iter srv (ep_services ep))"
proof -
  have k: "(k, route) \<in> set (pl_iter srv (ep_services ep))" "c \<le> k" "asked_by re q route"
    using assms(2) by (auto simp: asked_from_def find_Some_iff in_set_conv_nth)
  then show "routes srv ep k = Some route" "live_from c k (pl_iter srv (ep_services ep))"
    using route_mem [OF assms(1)] by (auto simp: live_from_def asked_def)
qed

lemma tell_one:
  fixes clk and draw and evs and re and q
  assumes "services_ok srv pinv ep" "routes srv ep k = Some route"
  defines "ep1 \<equiv> dispatch clk draw evs srv (re_now re) k (question_event re q) ep"
  shows "routes srv ep1 = (routes srv ep)(k \<mapsto> told clk draw evs re q (ep_flood ep) route)"
    "ep1 = ep\<lparr>ep_services := ep_services ep1\<rparr>" "services_ok srv pinv ep1" "ep_flood ep1 = ep_flood ep"
    "ep_services ep1 = pl_put srv (ep_services ep) k (told clk draw evs re q (ep_flood ep) route)"
proof -
  show "routes srv ep1 = (routes srv ep)(k \<mapsto> told clk draw evs re q (ep_flood ep) route)"
    unfolding ep1_def using dispatch_routes [OF assms(1,2)] by (simp add: told_def)
  have f: "ep1 = put_route srv k (told clk draw evs re q (ep_flood ep) route) ep"
    using question_flood [of clk draw evs re q "re_now re" "ep_flood ep" "rt_proto route"] assms(2)
    by (simp add: ep1_def dispatch_def route_get [OF assms(1)] told_def put_route_def split_beta)
  then show "ep1 = ep\<lparr>ep_services := ep_services ep1\<rparr>" "ep_flood ep1 = ep_flood ep"
    "ep_services ep1 = pl_put srv (ep_services ep) k (told clk draw evs re q (ep_flood ep) route)" by (simp_all add: put_route_def)
  show "services_ok srv pinv ep1" unfolding ep1_def by (rule dispatch_ok(1) [OF assms(1)])
qed

lemma tell_one_verdicts:
  assumes "services_ok srv pinv ep" "order_kept srv pinv" "asked_from srv re q c ep = Some (k, route)"
  shows "verdicts (asked_by re q) (pl_iter srv (ep_services (dispatch clk draw evs srv (re_now re) k (question_event re q) ep))) =
     verdicts (asked_by re q) (pl_iter srv (ep_services ep))"
proof -
  let ?ep1 = "dispatch clk draw evs srv (re_now re) k (question_event re q) ep"
  let ?xs = "pl_iter srv (ep_services ep)" and ?ys = "pl_iter srv (ep_services ?ep1)"
  note a = asked_route [OF assms(1,3)]
  note t = tell_one [OF assms(1) a(1), of clk draw evs re q]
  have keys: "map fst ?ys = map fst ?xs"
    using assms(1,2) a(1) unfolding t(5) order_kept_def services_ok_def by (simp add: domIff)
  have d: "distinct (map fst ?xs)" using assms(1) pool.iter_distinct by (metis services_okD)
  have same: "asked_by re q (the (map_of ?ys j)) = asked_by re q (the (map_of ?xs j))" for j
    unfolding t(1) using a(1) by (simp add: asked_told)
  show ?thesis using d keys by (simp only: verdicts_of_map same)
qed

definition told_from where
  "told_from clk draw evs srv re q c ep ep' \<longleftrightarrow> ep' = ep\<lparr>ep_services := ep_services ep'\<rparr> \<and>
     (\<forall>k. routes srv ep' k = (if k \<in> reached c (verdicts (asked_by re q) (pl_iter srv (ep_services ep)))
        then map_option (told clk draw evs re q (ep_flood ep)) (routes srv ep k) else routes srv ep k))"

lemma services_only_trans:
  fixes a b c :: "('i, 'r, 'c, 'sp, 'qp, 'ep) endpoint"
  shows "b = a\<lparr>ep_services := ep_services b\<rparr> \<Longrightarrow> c = b\<lparr>ep_services := ep_services c\<rparr> \<Longrightarrow> c = a\<lparr>ep_services := ep_services c\<rparr>"
  by (cases a; cases b; cases c) simp

lemma question_scan:
  fixes re :: "'i :: linorder route_events" and ep :: "('i, 'r, 'c, 'sp, 'qp, 'ep) endpoint"
  assumes "order_kept srv pinv" "at_question re q" "services_ok srv pinv ep" "services_fit srv ep"
  shows "\<exists>ep'. route_loop clk draw evs srv qry (re\<lparr>re_service_cursor := c\<rparr>) ep =
       route_loop clk draw evs srv qry (re\<lparr>re_question_idx := idx_next (re_question_idx re), re_service_cursor := 0\<rparr>) ep' \<and>
     told_from clk draw evs srv re q c ep ep'"
  using assms(3,4)
proof (induction "keys_from c srv ep" arbitrary: c ep rule: less_induct)
  case less
  note step = question_step [OF assms(2), of clk draw evs srv qry c ep]
  show ?case
  proof (cases "asked_from srv re q c ep")
    case None
    then have "reached c (verdicts (asked_by re q) (pl_iter srv (ep_services ep))) = {}"
      unfolding asked_from_def by (rule reached_None)
    then have "told_from clk draw evs srv re q c ep ep" by (simp add: told_from_def)
    moreover have "route_loop clk draw evs srv qry (re\<lparr>re_service_cursor := c\<rparr>) ep =
        route_loop clk draw evs srv qry (re\<lparr>re_question_idx := idx_next (re_question_idx re), re_service_cursor := 0\<rparr>) ep"
      by (subst route_loop.simps) (simp add: step None)
    ultimately show ?thesis by blast
  next
    case (Some p)
    obtain k route where p: "p = (k, route)" by (cases p)
    let ?ep1 = "dispatch clk draw evs srv (re_now re) k (question_event re q) ep"
    let ?V = "verdicts (asked_by re q) (pl_iter srv (ep_services ep))"
    note a = asked_route [OF less.prems(1) Some [unfolded p]]
    note t = tell_one [OF less.prems(1) a(1), of clk draw evs re q]
    have next_c: "past_key k = Suc k" using less.prems(2) a(1) by (intro past_key_Suc) (auto simp: services_fit_def)
    have fit: "services_fit srv ?ep1" using less.prems(2) a(1) unfolding services_fit_def t(1) by auto
    have loop: "route_loop clk draw evs srv qry (re\<lparr>re_service_cursor := c\<rparr>) ep =
        route_loop clk draw evs srv qry (re\<lparr>re_service_cursor := Suc k\<rparr>) ?ep1"
      by (subst route_loop.simps) (simp add: step Some p next_c)
    from less.hyps [OF dispatch_measure [OF less.prems(1) a(2) less.prems(2), unfolded next_c] t(3) fit] obtain ep' where
      ih: "route_loop clk draw evs srv qry (re\<lparr>re_service_cursor := Suc k\<rparr>) ?ep1 =
        route_loop clk draw evs srv qry (re\<lparr>re_question_idx := idx_next (re_question_idx re), re_service_cursor := 0\<rparr>) ep'"
      "told_from clk draw evs srv re q (Suc k) ?ep1 ep'" by blast
    have r: "reached c ?V = insert k (reached (Suc k) ?V)" "k \<notin> reached (Suc k) ?V"
      using reached_Some [OF Some [unfolded asked_from_def p]] reached_bounds [of k "Suc k" ?V] by auto
    have "told_from clk draw evs srv re q c ep ep'"
      unfolding told_from_def
    proof (intro conjI allI)
      show "ep' = ep\<lparr>ep_services := ep_services ep'\<rparr>"
        using ih(2) by (intro services_only_trans [OF t(2)]) (simp add: told_from_def)
      fix j
      from ih(2) have "routes srv ep' j = (if j \<in> reached (Suc k) ?V
          then map_option (told clk draw evs re q (ep_flood ep)) (routes srv ?ep1 j) else routes srv ?ep1 j)"
        unfolding told_from_def t(4) tell_one_verdicts [OF less.prems(1) assms(1) Some [unfolded p]] by blast
      then show "routes srv ep' j = (if j \<in> reached c ?V
          then map_option (told clk draw evs re q (ep_flood ep)) (routes srv ep j) else routes srv ep j)"
        using r a(1) unfolding t(1) by (cases "j = k") auto
    qed
    with loop ih(1) show ?thesis by auto
  qed
qed

text \<open>
  C7. Whom a question reaches.  It is handled, once, by every live service it is about unless a service with
  a greater key that it is about too comes earlier in the iteration, and by no other; nothing else of the
  endpoint changes.  Over a pool that iterates in the order of its keys, as a slab does, nobody is left out.
  (The keys stay below the greatest \<open>usize\<close>, and an assignment to a value leaves the order alone.)
\<close>
theorem question_fan_out:
  assumes "pool srv pinv" "order_kept srv pinv" "pinv (ep_services ep)"
    and "\<forall>k\<in>dom (pmap srv (ep_services ep)). k < usize_max"
    and "at_question re q" "re_service_cursor re = 0"
  shows "\<exists>ep'. route_loop clk draw evs srv qry re ep =
       route_loop clk draw evs srv qry (re\<lparr>re_question_idx := re_question_idx re + 1\<rparr>) ep' \<and>
     ep' = ep\<lparr>ep_services := ep_services ep'\<rparr> \<and>
     (\<forall>k. pmap srv (ep_services ep') k = map_option (\<lambda>route.
        if asked_by re q route \<and> \<not> overtaken (asked_by re q) (pl_iter srv (ep_services ep)) k
        then route\<lparr>rt_proto := fst (service_handle_event clk draw evs (question_event re q) (re_now re) (ep_flood ep) (rt_proto route))\<rparr>
        else route) (pmap srv (ep_services ep) k)) \<and>
     (sorted_wrt (<) (map fst (pl_iter srv (ep_services ep))) \<longrightarrow>
        (\<forall>k\<in>dom (pmap srv (ep_services ep)). \<not> overtaken (asked_by re q) (pl_iter srv (ep_services ep)) k))"
proof -
  have ok: "services_ok srv pinv ep" "services_fit srv ep" using assms(1,3,4) by (simp_all add: services_ok_def services_fit_def)
  have d: "distinct (map fst (pl_iter srv (ep_services ep)))" by (rule pool.iter_distinct [OF assms(1,3)])
  have same: "re\<lparr>re_service_cursor := 0\<rparr> = re" "re\<lparr>re_question_idx := i, re_service_cursor := 0\<rparr> = re\<lparr>re_question_idx := i\<rparr>" for i
    using assms(6) by simp_all
  have idx: "idx_next (re_question_idx re) = re_question_idx re + 1"
    using assms(5) unat_u16_le [of "question_count (mr_header (re_reader re))"]
    by (simp add: at_question_def idx_next_def sat_add_def del: unat_u16_le)
  from question_scan [OF assms(2,5) ok, of clk draw evs qry 0, unfolded same idx] obtain ep' where
    loop: "route_loop clk draw evs srv qry re ep = route_loop clk draw evs srv qry (re\<lparr>re_question_idx := re_question_idx re + 1\<rparr>) ep'"
    and told: "told_from clk draw evs srv re q 0 ep ep'" by blast
  have "pmap srv (ep_services ep') k = map_option (\<lambda>route.
      if asked_by re q route \<and> \<not> overtaken (asked_by re q) (pl_iter srv (ep_services ep)) k
      then told clk draw evs re q (ep_flood ep) route else route) (pmap srv (ep_services ep) k)" for k
  proof (cases "pmap srv (ep_services ep) k")
    case None
    with told show ?thesis by (simp add: told_from_def)
  next
    case (Some route)
    then have "k \<in> reached 0 (verdicts (asked_by re q) (pl_iter srv (ep_services ep))) \<longleftrightarrow>
        asked_by re q route \<and> \<not> overtaken (asked_by re q) (pl_iter srv (ep_services ep)) k"
      using reached_overtaken [OF d, of k route 0] map_of_SomeD by fastforce
    with told Some show ?thesis by (simp add: told_from_def)
  qed
  moreover have "\<not> overtaken (asked_by re q) (pl_iter srv (ep_services ep)) k"
    if "sorted_wrt (<) (map fst (pl_iter srv (ep_services ep)))" "k \<in> dom (pmap srv (ep_services ep))" for k
    using ordered_overtakes_none [OF that(1)] that(2) by (simp add: dom_map_of_conv_image_fst)
  ultimately show ?thesis using loop told unfolding told_from_def told_def by blast
qed

subsection \<open>The greatest key\<close>

text \<open>A live route under the greatest key that the question is about, and a cursor not behind it - as none can be.\<close>

definition held_up where
  "held_up srv pinv q re ep \<longleftrightarrow> services_ok srv pinv ep \<and> at_question re q \<and> re_service_cursor re \<le> usize_max \<and>
     (\<exists>route. routes srv ep usize_max = Some route \<and> asked_by re q route)"

lemma held_up_turn:
  assumes "held_up srv pinv q re ep"
  shows "\<exists>re' ep'. route_turn clk draw evs srv qry re ep = (Continue, re', ep') \<and> held_up srv pinv q re' ep'"
proof -
  from assms obtain route where h: "services_ok srv pinv ep" "at_question re q" "re_service_cursor re \<le> usize_max"
    "routes srv ep usize_max = Some route" "asked_by re q route" by (auto simp: held_up_def)
  have "asked_from srv re q (re_service_cursor re) ep \<noteq> None"
    using h(3-5) route_mem [OF h(1), of usize_max route] by (auto simp: asked_from_def find_None_iff)
  then obtain k r where k: "asked_from srv re q (re_service_cursor re) ep = Some (k, r)" by auto
  let ?re = "re\<lparr>re_service_cursor := past_key k\<rparr>" and ?ep = "dispatch clk draw evs srv (re_now re) k (question_event re q) ep"
  note a = asked_route [OF h(1) k]
  note t = tell_one [OF h(1) a(1), of clk draw evs re q]
  have "route_turn clk draw evs srv qry re ep = (Continue, ?re, ?ep)"
    using question_step [OF h(2), of clk draw evs srv qry "re_service_cursor re" ep] k by simp
  moreover have "at_question ?re q" "asked_by ?re q = asked_by re q" using h(2)
    by (simp_all add: at_question_def may_answer_def defends_only_def)
  moreover have "\<exists>route. routes srv ?ep usize_max = Some route \<and> asked_by re q route"
    unfolding t(1) using a(1) h(4,5) by (cases "k = usize_max") (auto simp: asked_told)
  ultimately show ?thesis using t(3) past_key_le by (auto simp: held_up_def defends_only_def)
qed

lemma held_up_loop: "route_loop clk draw evs srv qry re ep = Some y \<Longrightarrow> \<not> held_up srv pinv q re ep"
proof (erule route_loop.raw_induct [where P = "\<lambda>clk draw evs srv qry re ep y. \<not> held_up srv pinv q re ep", rotated])
  fix loop clk draw evs srv qry re ep y
  assume ih: "\<And>clk draw evs srv qry re ep y. loop clk draw evs srv qry re ep = Some y \<Longrightarrow> \<not> held_up srv pinv q re ep"
    and y: "(case route_turn clk draw evs srv qry re ep of (Continue, re, ep) \<Rightarrow> loop clk draw evs srv qry re ep
      | (Return item, re, ep) \<Rightarrow> Some (item, re, ep)) = Some y"
  show "\<not> held_up srv pinv q re ep"
  proof
    assume "held_up srv pinv q re ep"
    from held_up_turn [OF this, of clk draw evs qry] obtain re' ep' where
      "route_turn clk draw evs srv qry re ep = (Continue, re', ep')" "held_up srv pinv q re' ep'" by blast
    with y ih [of clk draw evs srv qry re' ep' y] show False by simp
  qed
qed

text \<open>
  C34. The bound on the keys is needed.  A cursor cannot be put behind the greatest \<open>usize\<close>, so when a pool
  keeps a live service under that key, a question it is about is handed to it again and again: the
  iterator never comes back.
\<close>
theorem greatest_key_holds_up:
  assumes "pool srv pinv" "pinv (ep_services ep)"
    and "at_question re q" "re_pending_query re = None" "re_service_cursor re \<le> usize_max"
    and "pmap srv (ep_services ep) usize_max = Some route" "asked_by re q route"
  shows "route_next clk draw evs srv qry re ep = None"
proof -
  have "held_up srv pinv q re ep" using assms by (simp add: held_up_def services_ok_def)
  then show ?thesis using held_up_loop [of clk draw evs srv qry re ep _ pinv q] assms(4)
    by (cases "route_loop clk draw evs srv qry re ep") (auto simp: route_next_def)
qed

subsection \<open>An ordered pool and one that is not\<close>

lemma slab_order: "order_kept (list_slab :: 'v slab) (\<lambda>p. distinct (map fst p))"
proof -
  have "map fst (map (\<lambda>(j, w). (j, if j = k then v else w)) p) = map fst p" for p :: "(nat \<times> 'v) list" and k v
    by (induction p) auto
  then show ?thesis by (simp add: order_kept_def list_slab_def del: map_map)
qed

text \<open>The same pool, read from its end: the contract says nothing of the order.\<close>

definition newest_first :: "('v, 'p, 'e) pool_ops \<Rightarrow> ('v, 'p, 'e) pool_ops" where
  "newest_first ops = ops\<lparr>pl_iter := \<lambda>p. rev (pl_iter ops p)\<rparr>"

lemma map_of_rev: "distinct (map fst xs) \<Longrightarrow> map_of (rev xs) = map_of xs"
  by (rule map_of_inject_set [THEN iffD2]) (simp_all add: rev_map [symmetric])

lemma newest_first_pool: "pool (newest_first (list_slab :: 'v slab)) (\<lambda>p. distinct (map fst p))"
proof
  fix p :: "(nat \<times> 'v) list" and v :: 'v and k p' and e :: unit and r
  let ?s = "list_slab :: 'v slab" and ?n = "newest_first (list_slab :: 'v slab)"
  note laws = list_slab.pool_axioms [where 'a = 'v]
  show "distinct (map fst (pl_new ?n))" "pl_iter ?n (pl_new ?n) = []" by (simp_all add: newest_first_def list_slab_def)
  assume p: "distinct (map fst p)"
  have m: "distinct (map fst q) \<Longrightarrow> pmap ?n q = pmap ?s q" for q :: "(nat \<times> 'v) list"
    by (simp add: newest_first_def map_of_rev list_slab_def)
  have ops: "pl_get ?n = pl_get ?s" "pl_put ?n = pl_put ?s" "pl_insert ?n = pl_insert ?s" "pl_remove ?n = pl_remove ?s"
    "pl_vacant ?n = pl_vacant ?s" "pl_len ?n = pl_len ?s" by (simp_all add: newest_first_def)
  show "distinct (map fst (pl_iter ?n p))" using p by (simp add: newest_first_def list_slab_def rev_map [symmetric])
  show "pl_len ?n p = length (pl_iter ?n p)" by (simp add: newest_first_def list_slab_def)
  show "pl_get ?n p k = pmap ?n p k" unfolding ops m [OF p] by (rule pool.get_map [OF laws p])
  show "is_ok (pl_vacant ?n p) \<longleftrightarrow> is_ok (fst (pl_insert ?n p v))" unfolding ops by (rule pool.vacant_insert [OF laws p])
  show "pl_insert ?n p v = (Inl e, p') \<Longrightarrow> p' = p" unfolding ops by (rule pool.insert_Inl [OF laws p])
  show "distinct (map fst (pl_put ?n p k v))" if "k \<in> dom (pmap ?n p)"
    using that unfolding ops m [OF p] by (rule pool.put_inv [OF laws p])
  then show "k \<in> dom (pmap ?n p) \<Longrightarrow> pmap ?n (pl_put ?n p k v) = (pmap ?n p)(k \<mapsto> v)"
    using pool.put_map [OF laws p, of k v] m by (metis m [OF p] ops(2))
  show "pl_insert ?n p v = (Inr k, p') \<Longrightarrow>
      distinct (map fst p') \<and> k \<notin> dom (pmap ?n p) \<and> pmap ?n p' = (pmap ?n p)(k \<mapsto> v)"
    using pool.insert_Inr [OF laws p, of v k p'] m [OF p] m [of p'] unfolding ops by metis
  show "pl_remove ?n p k = (r, p') \<Longrightarrow>
      distinct (map fst p') \<and> r = pmap ?n p k \<and> pmap ?n p' = (pmap ?n p)(k := None)"
    using pool.remove_map [OF laws p, of k r p'] m [OF p] m [of p'] unfolding ops by metis
qed

text \<open>Two services of the type \<open>b\<close>, and a question for that type.\<close>

definition type_question :: bytes where
  "type_question = [0, 0, 0, 0, 0, 1, 0, 0, 0, 0, 0, 0, 1, 98, 0, 0, 12, 0, 1]"

definition question_rx :: received where
  "question_rx = received_new (SockV4 [10, 0, 0, 9] 5353) type_question NotFromUs"

definition two_services :: "slab_route slab \<Rightarrow> slab_endpoint" where
  "two_services srv = snd (try_register_service smoltcp_clock quiet_rng quiet_seed list_slab srv
     (sr_new (Name [98]) (Name [99, 46, 98]) (Name [104]) 80 120) (SmoltcpInstant 0) one_service)"

text \<open>When each of the two last heard of anything, after the question was routed at time 2.\<close>

definition heard :: "slab_endpoint \<Rightarrow> nat \<Rightarrow> smoltcp_instant option" where
  "heard ep k = (case map_of (ep_services ep) k of Some route \<Rightarrow> sv_last_now (rt_proto route) | None \<Rightarrow> None)"

definition heard_over :: "slab_route slab \<Rightarrow> smoltcp_instant option list" where
  "heard_over srv = (case endpoint_receive smoltcp_clock quiet_rng (list_slab :: service_update slab) (list_slab :: collected_answer slab)
     (list_slab :: query_update slab) srv list_slab list_slab (SmoltcpInstant 2) question_rx (two_services srv) of
   Some (_, ep) \<Rightarrow> [heard ep 0, heard ep 1] | None \<Rightarrow> [])"

text \<open>A pool that keeps the contract and yields the newest service first: the question reaches one of the two.\<close>

lemma newest_first_misses:
  "heard_over (newest_first list_slab) = [Some (SmoltcpInstant 0), Some (SmoltcpInstant 2)] \<and>
   heard_over list_slab = [Some (SmoltcpInstant 2), Some (SmoltcpInstant 2)]"
  by (rule conjI; code_simp)

lemma is_ok_ex: "is_ok x \<longleftrightarrow> (\<exists>v. x = Inr v)"
  by (cases x) simp_all

text \<open>A datagram with that question, as it comes out of the front of the receive path.\<close>

abbreviation slab_handle :: "slab_endpoint \<Rightarrow> _" where
  "slab_handle \<equiv> endpoint_handle smoltcp_clock (list_slab :: collected_answer slab) (list_slab :: query_update slab) list_slab list_slab list_slab
     (SmoltcpInstant 2) question_rx"

definition answerable :: "slab_endpoint \<Rightarrow> bool" where
  "answerable ep \<longleftrightarrow> (case slab_handle ep of
     (Inr re, ep1) \<Rightarrow> ep_services ep1 = ep_services ep \<and> re_service_cursor re = 0 \<and> re_pending_query re = None \<and>
       re_section re = AtQuestions \<and> may_answer re \<and> re_question_idx re < unat (question_count (mr_header (re_reader re))) \<and>
       (case question_at (re_reader re) (re_question_idx re) of
          Some (Inr q) \<Rightarrow> list_all (\<lambda>(_, route). asked_by re q route) (ep_services ep) | _ \<Rightarrow> False)
   | _ \<Rightarrow> False)"

lemma answerableE:
  assumes "answerable ep"
  obtains re ep1 q where "slab_handle ep = (Inr re, ep1)" "ep_services ep1 = ep_services ep" "re_service_cursor re = 0"
    "re_pending_query re = None" "at_question re q" "\<forall>(_, route)\<in>set (ep_services ep). asked_by re q route"
proof -
  obtain res ep1 where p: "slab_handle ep = (res, ep1)" by (cases "slab_handle ep")
  with assms obtain re where re: "res = Inr re" by (cases res) (auto simp: answerable_def)
  with assms p obtain item where item: "question_at (re_reader re) (re_question_idx re) = Some item"
    by (cases "question_at (re_reader re) (re_question_idx re)") (auto simp: answerable_def)
  with assms p re obtain q where q: "item = Inr q" by (cases item) (auto simp: answerable_def)
  from assms p re item q show thesis by (intro that [of re ep1 q]) (simp_all add: answerable_def at_question_def list_all_iff)
qed

lemma question_fan_out_witness:
  "\<exists>re ep1 ep'. slab_handle (two_services list_slab) = (Inr re, ep1) \<and>
     route_loop smoltcp_clock quiet_rng (list_slab :: service_update slab) list_slab list_slab re ep1 =
       route_loop smoltcp_clock quiet_rng list_slab list_slab list_slab (re\<lparr>re_question_idx := re_question_idx re + 1\<rparr>) ep' \<and>
     map fst (ep_services ep1) = [0, 1] \<and>
     (\<forall>k. pmap list_slab (ep_services ep') k = None \<longleftrightarrow> pmap list_slab (ep_services ep1) k = None)"
proof -
  have keys: "map fst (ep_services (two_services list_slab)) = [0, 1]" by code_simp
  have "answerable (two_services list_slab)" by code_simp
  then obtain re ep1 q where h: "slab_handle (two_services list_slab) = (Inr re, ep1)"
    "ep_services ep1 = ep_services (two_services list_slab)" "re_service_cursor re = 0" "at_question re q"
    by (rule answerableE)
  have "distinct (map fst (ep_services ep1))" "\<forall>k\<in>dom (pmap (list_slab :: slab_route slab) (ep_services ep1)). k < usize_max"
    using keys unfolding h(2) by (auto simp: list_slab_def dom_map_of_conv_image_fst simp flip: set_map)
  from question_fan_out [OF list_slab.pool_axioms slab_order this h(4,3), of smoltcp_clock quiet_rng "list_slab :: service_update slab" list_slab]
  obtain ep' where loop: "route_loop smoltcp_clock quiet_rng (list_slab :: service_update slab) list_slab list_slab re ep1 =
       route_loop smoltcp_clock quiet_rng list_slab list_slab list_slab (re\<lparr>re_question_idx := re_question_idx re + 1\<rparr>) ep'"
    and k: "\<forall>k. pmap list_slab (ep_services ep') k = None \<longleftrightarrow> pmap list_slab (ep_services ep1) k = None" by auto
  have "map fst (ep_services ep1) = [0, 1]" using keys h(2) by simp
  from h(1) loop this k show ?thesis by (intro exI conjI)
qed

text \<open>The first of the two services, under the greatest key.\<close>

definition last_service :: slab_endpoint where
  "last_service = one_service\<lparr>ep_services := map (\<lambda>(_, route). (usize_max, route)) (ep_services one_service)\<rparr>"

lemma greatest_key_holds_up_witness:
  "\<exists>re ep1. slab_handle last_service = (Inr re, ep1) \<and>
     route_next smoltcp_clock quiet_rng (list_slab :: service_update slab) list_slab list_slab re ep1 = None"
proof -
  have keys: "map fst (ep_services last_service) = [usize_max]" by code_simp
  then obtain route where s: "ep_services last_service = [(usize_max, route)]" by (auto simp: map_eq_Cons_conv)
  have "answerable last_service" by code_simp
  then obtain re ep1 q where h: "slab_handle last_service = (Inr re, ep1)"
    "ep_services ep1 = ep_services last_service" "re_service_cursor re = 0" "re_pending_query re = None" "at_question re q"
    and a: "\<forall>(_, route)\<in>set (ep_services last_service). asked_by re q route" by (rule answerableE)
  have "distinct (map fst (ep_services ep1))" "pmap (list_slab :: slab_route slab) (ep_services ep1) usize_max = Some route"
    "asked_by re q route" using s a unfolding h(2) by (simp_all add: list_slab_def)
  from greatest_key_holds_up [OF list_slab.pool_axioms this(1) h(5,4) _ this(2,3)] h(3)
  have "route_next smoltcp_clock quiet_rng (list_slab :: service_update slab) list_slab list_slab re ep1 = None" by simp
  with h(1) show ?thesis by blast
qed

end
