(* ===== verification/RelinquishedScreen.thy ===== *)
theory RelinquishedScreen
  imports Relinquished
begin

text \<open>
  What the two tables of given-up records amount to: a single record screens what its whole set would,
  and retaining a set adds exactly its records to the screen until they expire.
\<close>

lemma pick_sel [simp]: "pick V4 p = fst p" "pick V6 p = snd p"
  by (cases p; simp)+

subsection \<open>Names that own the same records\<close>

lemma same_owner_matches:
  assumes "same_owner a b"
  shows "names_match a = names_match b"
proof -
  have "map lower (split_dot (strip_dot (as_str a))) = map lower (split_dot (strip_dot (as_str b)))"
    using assms by (metis same_owner_def split_dot_lower)
  then show ?thesis by (auto simp: names_match_def names_match_str_def match_labels_iff fun_eq_iff)
qed

subsection \<open>One record of a set\<close>

definition peer_of :: "record_ref \<Rightarrow> bytes option" where
  "peer_of r = (case canonical_rdata_folded r of Inr v \<Rightarrow> Some v | Inl _ \<Rightarrow> None)"

lemma peer_A: "rr_rtype r = RT_A \<Longrightarrow> peer_of r = (case rdata_view r of Inr (Rdata_A a) \<Rightarrow> Some a | _ \<Rightarrow> None)"
  by (auto simp: peer_of_def canonical_rdata_folded_def canonical_rdata_inner_def write_canonical_rdata_def rdata_view_def
      a_try_from_rdata_def rbind_def ok_or_def slice_def split: sum.splits option.splits)

lemma peer_AAAA: "rr_rtype r = RT_AAAA \<Longrightarrow> peer_of r = (case rdata_view r of Inr (Rdata_AAAA a) \<Rightarrow> Some a | _ \<Rightarrow> None)"
  by (auto simp: peer_of_def canonical_rdata_folded_def canonical_rdata_inner_def write_canonical_rdata_def rdata_view_def
      aaaa_try_from_rdata_def rbind_def ok_or_def slice_def split: sum.splits option.splits)

lemma view_A: "rdata_view r = Inr (Rdata_A a) \<Longrightarrow> rr_rtype r = RT_A"
  by (auto simp: rdata_view_def rbind_def split: resource_type.splits sum.splits)

lemma view_AAAA: "rdata_view r = Inr (Rdata_AAAA a) \<Longrightarrow> rr_rtype r = RT_AAAA"
  by (auto simp: rdata_view_def rbind_def split: resource_type.splits sum.splits)

text \<open>The body of both tests once class, section and cache-flush bit are right.\<close>

definition carries :: "record_ref \<Rightarrow> name \<times> resource_type \<times> bytes \<Rightarrow> bool" where
  "carries r = (\<lambda>(owner, rtype, rdata). rr_rtype r = rtype \<and> names_match_record owner r \<and> peer_of r = Some rdata)"

lemma host_carries:
  "names_match_record host r \<and> (case rdata_view r of Inr (Rdata_A a) \<Rightarrow> a \<in> set as | Inr (Rdata_AAAA a) \<Rightarrow> a \<in> set aaaas | _ \<Rightarrow> False)
     \<longleftrightarrow> (\<exists>i\<in>set (map (\<lambda>ip. (host, RT_A, ip)) as @ map (\<lambda>ip. (host, RT_AAAA, ip)) aaaas). carries r i)"
proof (cases "rr_rtype r = RT_A \<or> rr_rtype r = RT_AAAA")
  case False
  then show ?thesis using view_A [of r] view_AAAA [of r] by (auto simp: carries_def split: sum.splits rdata.splits)
next
  case True
  then show ?thesis using peer_A [of r] peer_AAAA [of r] view_A [of r] view_AAAA [of r]
    by (auto simp: carries_def split: sum.splits rdata.splits)
qed

lemma instance_carries:
  "names_match_record inst r \<and> instance_rtype_exposed e (rr_rtype r) \<and>
     (case peer_of r of Some peer \<Rightarrow> list_ex (\<lambda>form. form = peer) (transmitted_rdata_forms records (rr_rtype r)) | None \<Rightarrow> False)
     \<longleftrightarrow> (\<exists>i\<in>set (concat (map (\<lambda>rtype. if \<not> instance_rtype_exposed e rtype then []
         else map (\<lambda>form. (inst, rtype, form)) (transmitted_rdata_forms records rtype)) INSTANCE_CANONICAL_RTYPES)). carries r i)"
  by (cases "peer_of r") (auto simp: carries_def list_ex_iff INSTANCE_CANONICAL_RTYPES_def instance_rtype_exposed_def split: if_splits)

definition envelope_ok :: "record_ref \<Rightarrow> record_section \<Rightarrow> bool" where
  "envelope_ok r sec \<longleftrightarrow> rr_rclass r = Class_In \<and> transmitted_envelope (rr_rtype r) sec (rr_cache_flush r)"

lemma asserts_carries:
  "asserts records emitted r (peer_of r) fam sec \<longleftrightarrow>
     envelope_ok r sec \<and> (\<exists>i\<in>set (identities records (pick fam emitted)). carries r i)"
  unfolding asserts_def Let_def envelope_ok_def identities_def set_append bex_Un
  using host_carries [of "sr_host records" r "em_a (pick fam emitted)" "em_aaaa (pick fam emitted)"]
    instance_carries [of "sr_instance records" r "pick fam emitted" records]
  by auto

lemma identity_carries:
  "identity_asserts i r (peer_of r) now fam sec \<longleftrightarrow>
     envelope_ok r sec \<and> (\<exists>t. pick fam (ri_expires_at i) = Some t \<and> now < t) \<and> carries r (ri_owner i, ri_rtype i, ri_rdata i)"
  by (auto simp: identity_asserts_def envelope_ok_def carries_def split: option.splits)

text \<open>
  C31. The two tiers screen the same: a record is asserted by a whole set given up exactly when one of the
  single records the set decomposes into asserts it, on the same family, before the same expiry.
\<close>
theorem tiers_agree:
  assumes "pick fam until = Some t" "now < t"
  shows "asserts records emitted r (peer_of r) fam sec \<longleftrightarrow>
     (\<exists>(owner, rtype, rdata)\<in>set (identities records (pick fam emitted)).
        identity_asserts \<lparr>ri_owner = owner, ri_rtype = rtype, ri_rdata = rdata, ri_expires_at = until\<rparr> r (peer_of r) now fam sec)"
  using assms by (auto simp: asserts_carries identity_carries)

subsection \<open>The table of single records\<close>

lemma update_first_Some:
  "update_first P f xs = Some ys \<Longrightarrow> \<exists>as x bs. xs = as @ x # bs \<and> P x \<and> ys = as @ f x # bs"
proof (induction xs arbitrary: ys)
  case (Cons y xs)
  show ?case
  proof (cases "P y")
    case True
    with Cons.prems show ?thesis by (intro exI [of _ "[]"]) auto
  next
    case False
    with Cons.prems obtain zs where "update_first P f xs = Some zs" "ys = y # zs" by auto
    with Cons.IH [of zs] obtain as x bs where "xs = as @ x # bs" "P x" "zs = as @ f x # bs" by blast
    with \<open>ys = y # zs\<close> show ?thesis by (intro exI [of _ "y # as"]) auto
  qed
qed simp

lemma update_first_None: "update_first P f xs = None \<longleftrightarrow> (\<forall>x\<in>set xs. \<not> P x)"
  by (induction xs) auto

definition live_on :: "family \<Rightarrow> 'i :: linorder \<Rightarrow> 'i option \<times> 'i option \<Rightarrow> bool" where
  "live_on fam now on \<longleftrightarrow> (\<exists>t. pick fam on = Some t \<and> now < t)"

definition id_screens :: "record_ref \<Rightarrow> 'i :: linorder \<Rightarrow> family \<Rightarrow> 'i relinquished_identity list \<Rightarrow> bool" where
  "id_screens r now fam held \<longleftrightarrow> (\<exists>i\<in>set held. live_on fam now (ri_expires_at i) \<and> carries r (ri_owner i, ri_rtype i, ri_rdata i))"

lemma live_on_later:
  "live_on fam now (later (fst a) (fst b), later (snd a) (snd b)) \<longleftrightarrow> live_on fam now a \<or> live_on fam now b"
proof -
  have "(\<exists>t. later x y = Some t \<and> now < t) \<longleftrightarrow> (\<exists>t. x = Some t \<and> now < t) \<or> (\<exists>t. y = Some t \<and> now < t)" for x y :: "'a option"
    by (cases x; cases y) (auto simp: later_def less_max_iff_disj)
  then show ?thesis by (cases a; cases b; cases fam) (simp_all add: live_on_def)
qed

lemma carries_same: "same_identity owner rtype rdata i \<Longrightarrow> carries r (ri_owner i, ri_rtype i, ri_rdata i) = carries r (owner, rtype, rdata)"
  by (auto simp: same_identity_def carries_def names_match_record_def dest!: same_owner_matches)

definition extended :: "name \<Rightarrow> resource_type \<Rightarrow> bytes \<Rightarrow> 'i :: linorder option \<times> 'i option \<Rightarrow> 'i relinquished_identity list \<Rightarrow>
    'i relinquished_identity list" where
  "extended owner rtype rdata on held = (case update_first (same_identity owner rtype rdata)
           (\<lambda>e. e\<lparr>ri_expires_at := (later (fst (ri_expires_at e)) (fst on), later (snd (ri_expires_at e)) (snd on))\<rparr>) held of
          Some held \<Rightarrow> held
        | None \<Rightarrow>
            if MAX_RELINQUISHED_IDENTITIES \<le> length held then held
            else held @ [\<lparr>ri_owner = owner, ri_rtype = rtype, ri_rdata = rdata, ri_expires_at = on\<rparr>])"

lemma add_identities_Cons:
  "add_identities on ((owner, rtype, rdata) # ids) held = add_identities on ids (extended owner rtype rdata on held)"
  by (simp add: extended_def)

declare add_identities.simps(2) [simp del]
declare add_identities_Cons [simp]

lemma add_identity_screens:
  shows "id_screens r now fam held \<Longrightarrow> id_screens r now fam (extended owner rtype rdata on held)"
    "id_screens r now fam (extended owner rtype rdata on held) \<Longrightarrow> id_screens r now fam held \<or> live_on fam now on \<and> carries r (owner, rtype, rdata)"
    "length held < MAX_RELINQUISHED_IDENTITIES \<Longrightarrow> live_on fam now on \<Longrightarrow> carries r (owner, rtype, rdata) \<Longrightarrow> id_screens r now fam (extended owner rtype rdata on held)"
    "length (extended owner rtype rdata on held) \<le> max (length held) MAX_RELINQUISHED_IDENTITIES" "length (extended owner rtype rdata on held) \<le> Suc (length held)"
proof -
  have "(id_screens r now fam held \<longrightarrow> id_screens r now fam (extended owner rtype rdata on held)) \<and>
      (id_screens r now fam (extended owner rtype rdata on held) \<longrightarrow> id_screens r now fam held \<or> live_on fam now on \<and> carries r (owner, rtype, rdata)) \<and>
      (length held < MAX_RELINQUISHED_IDENTITIES \<longrightarrow> live_on fam now on \<longrightarrow> carries r (owner, rtype, rdata) \<longrightarrow> id_screens r now fam (extended owner rtype rdata on held)) \<and>
      length (extended owner rtype rdata on held) \<le> max (length held) MAX_RELINQUISHED_IDENTITIES \<and> length (extended owner rtype rdata on held) \<le> Suc (length held)"
  proof (cases "update_first (same_identity owner rtype rdata)
           (\<lambda>e. e\<lparr>ri_expires_at := (later (fst (ri_expires_at e)) (fst on), later (snd (ri_expires_at e)) (snd on))\<rparr>) held")
    case None
    then show ?thesis by (auto simp: extended_def id_screens_def)
  next
    case (Some ys)
    from update_first_Some [OF Some] obtain as x bs where u: "held = as @ x # bs" "same_identity owner rtype rdata x"
      "ys = as @ x\<lparr>ri_expires_at := (later (fst (ri_expires_at x)) (fst on), later (snd (ri_expires_at x)) (snd on))\<rparr> # bs" by blast
    have "extended owner rtype rdata on held = ys" by (simp add: extended_def Some)
    then show ?thesis using u carries_same [OF u(2), of r] by (auto simp: id_screens_def live_on_later)
  qed
  then show "id_screens r now fam held \<Longrightarrow> id_screens r now fam (extended owner rtype rdata on held)"
    "id_screens r now fam (extended owner rtype rdata on held) \<Longrightarrow> id_screens r now fam held \<or> live_on fam now on \<and> carries r (owner, rtype, rdata)"
    "length held < MAX_RELINQUISHED_IDENTITIES \<Longrightarrow> live_on fam now on \<Longrightarrow> carries r (owner, rtype, rdata) \<Longrightarrow> id_screens r now fam (extended owner rtype rdata on held)"
    "length (extended owner rtype rdata on held) \<le> max (length held) MAX_RELINQUISHED_IDENTITIES" "length (extended owner rtype rdata on held) \<le> Suc (length held)"
    by blast+
qed

lemma add_identities_screens:
  "id_screens r now fam held \<Longrightarrow> id_screens r now fam (add_identities on ids held)"
  "id_screens r now fam (add_identities on ids held) \<Longrightarrow>
     id_screens r now fam held \<or> live_on fam now on \<and> (\<exists>i\<in>set ids. carries r i)"
  "length held + length ids \<le> MAX_RELINQUISHED_IDENTITIES \<Longrightarrow> live_on fam now on \<Longrightarrow> i \<in> set ids \<Longrightarrow> carries r i \<Longrightarrow>
     id_screens r now fam (add_identities on ids held)"
  "length (add_identities on ids held) \<le> max (length held) MAX_RELINQUISHED_IDENTITIES"
  "length (add_identities on ids held) \<le> length held + length ids"
proof (induction ids arbitrary: held)
  case (Cons x ids)
  obtain owner rtype rdata where x: "x = (owner, rtype, rdata)" by (cases x)
  note step = add_identity_screens
  { case 1 from Cons.IH(1) [OF step(1) [OF 1]] show ?case by (simp add: x)
  next case 2 then show ?case using Cons.IH(2) [of "extended owner rtype rdata on held"] step(2) [of r now fam owner rtype rdata on held] by (auto simp: x)
  next case 3
    show ?case
    proof (cases "i = x")
      case True
      have "length held < MAX_RELINQUISHED_IDENTITIES" using 3(1) by simp
      from Cons.IH(1) [OF step(3) [OF this 3(2), of r owner rtype rdata]] 3(4) True show ?thesis by (simp add: x)
    next
      case False
      have "length (extended owner rtype rdata on held) + length ids \<le> MAX_RELINQUISHED_IDENTITIES"
        using 3(1) step(5) [of owner rtype rdata on held] by simp
      with Cons.IH(3) False 3 show ?thesis by (auto simp: x)
    qed
  next case 4 then show ?case
      using Cons.IH(4) [of "extended owner rtype rdata on held"] step(4) [of owner rtype rdata on held] by (simp add: x)
  next case 5 then show ?case
      using Cons.IH(5) [of "extended owner rtype rdata on held"] step(5) [of owner rtype rdata on held] by (simp add: x) }
qed auto

subsection \<open>Retaining a record set\<close>

definition set_screens :: "record_ref \<Rightarrow> 'i :: linorder \<Rightarrow> family \<Rightarrow> record_section \<Rightarrow> 'i relinquished list \<Rightarrow> bool" where
  "set_screens r now fam sec held \<longleftrightarrow>
     (\<exists>e\<in>set held. now < rq_expires_at e \<and> asserts (rq_records e) (rq_emitted e) r (peer_of r) fam sec)"

lemma relinquished_asserts_parts:
  "relinquished_asserts r now fam sec ep \<longleftrightarrow>
     (\<exists>(_, w)\<in>set (ep_withdrawals ep). asserts (wi_records w) (wi_multicast w) r (peer_of r) fam sec) \<or>
     set_screens r now fam sec (ep_relinquished ep) \<or>
     envelope_ok r sec \<and> id_screens r now fam (ep_relinquished_identities ep)"
  unfolding relinquished_asserts_def peer_of_def [symmetric] Let_def
  by (auto simp: list_ex_iff set_screens_def id_screens_def identity_carries live_on_def)

lemma set_screens_filter:
  "now \<le> now' \<Longrightarrow> set_screens r now' fam sec (filter (\<lambda>e. now < rq_expires_at e) held) = set_screens r now' fam sec held"
  by (auto simp: set_screens_def)

lemma identity_live_iff: "identity_live i now \<longleftrightarrow> (\<exists>fam. live_on fam now (ri_expires_at i))"
proof -
  have "(\<exists>fam. P fam) \<longleftrightarrow> P V4 \<or> P V6" for P by (metis family.exhaust)
  then show ?thesis by (cases "ri_expires_at i") (simp add: identity_live_def live_on_def split: option.split)
qed

lemma id_screens_filter:
  assumes "now \<le> now'"
  shows "id_screens r now' fam (filter (\<lambda>e. identity_live e now) held) = id_screens r now' fam held"
  unfolding id_screens_def identity_live_iff using assms by (auto simp: live_on_def intro: le_less_trans)

lemma screens_nothing:
  assumes "\<not> screens_something emitted"
  shows "\<not> asserts records emitted r (peer_of r) fam sec"
  using assms by (cases fam; cases emitted)
    (auto simp: asserts_carries screens_something_def identities_def instance_rtype_exposed_def INSTANCE_CANONICAL_RTYPES_def)

text \<open>
  C9. Retaining the records of a name adds exactly them to the screen: whatever was screened stays so,
  nothing but the records multicast under the name is added, they are until the retention has passed, and
  as long as one of the two tables has room all of them are.
\<close>
theorem retained_is_screened:
  assumes "cadd clk now (cf_relinquished_retention (ep_config ep)) = Some t" "now \<le> now'"
    and ep'_def: "ep' = retain_relinquished clk records emitted now ep"
  shows "(relinquished_asserts r now' fam sec ep \<longrightarrow> relinquished_asserts r now' fam sec ep') \<and>
     (relinquished_asserts r now' fam sec ep' \<longrightarrow>
        relinquished_asserts r now' fam sec ep \<or> now' < t \<and> asserts records emitted r (peer_of r) fam sec) \<and>
     (length (ep_relinquished ep) < MAX_RELINQUISHED_RRSETS \<or>
      length (ep_relinquished_identities ep) + length (identities records (fst emitted)) + length (identities records (snd emitted))
        \<le> MAX_RELINQUISHED_IDENTITIES \<longrightarrow>
      now' < t \<longrightarrow> asserts records emitted r (peer_of r) fam sec \<longrightarrow> relinquished_asserts r now' fam sec ep')"
proof (cases "screens_something emitted")
  case False
  with screens_nothing show ?thesis by (simp add: ep'_def retain_relinquished_def)
next
  case True
  let ?held = "filter (\<lambda>e. now < rq_expires_at e) (ep_relinquished ep)"
  let ?new = "asserts records emitted r (peer_of r) fam sec"
  let ?upd = "update_first (\<lambda>e. rq_records e = records \<and> rq_emitted e = emitted)
      (\<lambda>e. if rq_expires_at e < t then e\<lparr>rq_expires_at := t\<rparr> else e) ?held"
  have held: "set_screens r now' fam sec ?held = set_screens r now' fam sec (ep_relinquished ep)"
    by (rule set_screens_filter [OF assms(2)])
  show ?thesis
  proof (cases ?upd)
    case (Some ys)
    then have ep': "ep' = ep\<lparr>ep_relinquished := ys\<rparr>"
      using True assms(1) by (simp add: ep'_def retain_relinquished_def)
    from update_first_Some [OF Some] obtain as x bs where u: "?held = as @ x # bs" "rq_records x = records" "rq_emitted x = emitted"
      "ys = as @ (if rq_expires_at x < t then x\<lparr>rq_expires_at := t\<rparr> else x) # bs" by blast
    have "set_screens r now' fam sec ys \<longleftrightarrow> set_screens r now' fam sec (ep_relinquished ep) \<or> now' < t \<and> ?new"
      unfolding held [symmetric] u using u(2,3) by (auto simp: set_screens_def)
    then show ?thesis by (auto simp: relinquished_asserts_parts ep')
  next
    case None
    show ?thesis
    proof (cases "MAX_RELINQUISHED_RRSETS \<le> length ?held")
      case False
      then have ep': "ep' = ep\<lparr>ep_relinquished := ?held @ [\<lparr>rq_records = records, rq_emitted = emitted, rq_expires_at = t\<rparr>]\<rparr>"
        using True assms(1) None by (simp add: ep'_def retain_relinquished_def)
      have "set_screens r now' fam sec (ep_relinquished ep') \<longleftrightarrow> set_screens r now' fam sec (ep_relinquished ep) \<or> now' < t \<and> ?new"
        unfolding held [symmetric] by (auto simp: ep' set_screens_def)
      then show ?thesis by (auto simp: relinquished_asserts_parts ep')
    next
      case full: True
      define h0 where "h0 = filter (\<lambda>e. identity_live e now) (ep_relinquished_identities ep)"
      define h1 where "h1 = add_identities (Some t, None) (identities records (fst emitted)) h0"
      define h2 where "h2 = add_identities (None, Some t) (identities records (snd emitted)) h1"
      have ep': "ep' = ep\<lparr>ep_relinquished := ?held, ep_relinquished_identities := h2\<rparr>"
        using True assms(1) None full
        by (simp add: ep'_def retain_relinquished_def retain_relinquished_identities_def h0_def h1_def h2_def)
      have h0: "id_screens r now' fam h0 = id_screens r now' fam (ep_relinquished_identities ep)"
        unfolding h0_def by (rule id_screens_filter [OF assms(2)])
      have on: "live_on fam now' (Some t, None) \<longleftrightarrow> fam = V4 \<and> now' < t" "live_on fam now' (None, Some t) \<longleftrightarrow> fam = V6 \<and> now' < t"
        by (cases fam; simp add: live_on_def)+
      have keep: "id_screens r now' fam h0 \<longrightarrow> id_screens r now' fam h2"
        unfolding h2_def h1_def using add_identities_screens(1) by blast
      have only: "id_screens r now' fam h2 \<longrightarrow> id_screens r now' fam h0 \<or> now' < t \<and> (\<exists>i\<in>set (identities records (pick fam emitted)). carries r i)"
        using add_identities_screens(2) [of r now' fam "(None, Some t)" "identities records (snd emitted)" h1]
          add_identities_screens(2) [of r now' fam "(Some t, None)" "identities records (fst emitted)" h0] on
        by (cases fam) (auto simp: h2_def h1_def)
      have len: "length h0 \<le> length (ep_relinquished_identities ep)" by (simp add: h0_def)
      have all: "id_screens r now' fam h2" if room: "length (ep_relinquished_identities ep) + length (identities records (fst emitted)) +
          length (identities records (snd emitted)) \<le> MAX_RELINQUISHED_IDENTITIES" and "now' < t" "?new"
      proof -
        from that(3) obtain i where i: "i \<in> set (identities records (pick fam emitted))" "carries r i" by (auto simp: asserts_carries)
        have l1: "length h1 \<le> length h0 + length (identities records (fst emitted))"
          unfolding h1_def by (rule add_identities_screens(5))
        show ?thesis
        proof (cases fam)
          case V4
          have "id_screens r now' fam h1" unfolding h1_def
            by (rule add_identities_screens(3) [where i = i]) (use room len i on V4 that in auto)
          then show ?thesis unfolding h2_def by (rule add_identities_screens(1))
        next
          case V6
          show ?thesis unfolding h2_def
            by (rule add_identities_screens(3) [where i = i]) (use room len l1 i on V6 that in auto)
        qed
      qed
      have "\<not> length (ep_relinquished ep) < MAX_RELINQUISHED_RRSETS"
        using full length_filter_le [of "\<lambda>e. now < rq_expires_at e" "ep_relinquished ep"] by linarith
      moreover have "?new \<longleftrightarrow> envelope_ok r sec \<and> (\<exists>i\<in>set (identities records (pick fam emitted)). carries r i)"
        by (rule asserts_carries)
      ultimately show ?thesis using keep only all by (auto simp: relinquished_asserts_parts ep' held h0)
    qed
  qed
qed

subsection \<open>Bounds and expiry\<close>

lemma retain_identities_frame [simp]:
  "ep_relinquished (retain_relinquished_identities records emitted now t e) = ep_relinquished e"
  by (simp add: retain_relinquished_identities_def Let_def)

lemma retain_identities_len:
  assumes "length (ep_relinquished_identities e) \<le> MAX_RELINQUISHED_IDENTITIES"
  shows "length (ep_relinquished_identities (retain_relinquished_identities records emitted now t e)) \<le> MAX_RELINQUISHED_IDENTITIES"
proof -
  have l: "length (filter (\<lambda>i. identity_live i now) (ep_relinquished_identities e)) \<le> MAX_RELINQUISHED_IDENTITIES"
    using assms le_trans [OF length_filter_le] by blast
  have add: "length h \<le> MAX_RELINQUISHED_IDENTITIES \<Longrightarrow> length (add_identities on ids h) \<le> MAX_RELINQUISHED_IDENTITIES" for on ids
    and h :: "'a relinquished_identity list" using add_identities_screens(4) [of on ids h] by simp
  show ?thesis using add [OF add [OF l]] by (simp add: retain_relinquished_identities_def Let_def)
qed

text \<open>
  C33. The screen stays within its bounds: at most 128 record sets and 512 single records, whatever is
  retained, and every entry it keeps expires, a sweep dropping what has.
\<close>
theorem screen_bounded:
  assumes "length (ep_relinquished ep) \<le> MAX_RELINQUISHED_RRSETS"
    and "length (ep_relinquished_identities ep) \<le> MAX_RELINQUISHED_IDENTITIES"
    and "ep' = retain_relinquished clk records emitted now ep \<or> ep' = sweep_relinquished now ep"
  shows "length (ep_relinquished ep') \<le> 128 \<and> length (ep_relinquished_identities ep') \<le> 512 \<and>
     (now \<le> now' \<longrightarrow> relinquished_asserts r now' fam sec (sweep_relinquished now ep) = relinquished_asserts r now' fam sec ep)"
proof -
  let ?held = "filter (\<lambda>e. now < rq_expires_at e) (ep_relinquished ep)"
  let ?ids = "filter (\<lambda>e. identity_live e now) (ep_relinquished_identities ep)"
  have l: "length ?held \<le> MAX_RELINQUISHED_RRSETS" "length ?ids \<le> MAX_RELINQUISHED_IDENTITIES"
    using assms(1,2) le_trans [OF length_filter_le] by blast+
  have upd: "length ys = length ?held" if "update_first P f ?held = Some ys" for P f ys
    using update_first_Some [OF that] by force
  have "length (ep_relinquished (retain_relinquished clk records emitted now ep)) \<le> MAX_RELINQUISHED_RRSETS \<and>
      length (ep_relinquished_identities (retain_relinquished clk records emitted now ep)) \<le> MAX_RELINQUISHED_IDENTITIES"
    using assms(1,2) l upd
    by (auto simp: retain_relinquished_def Let_def retain_identities_len split: option.splits)
  then have "length (ep_relinquished ep') \<le> MAX_RELINQUISHED_RRSETS \<and> length (ep_relinquished_identities ep') \<le> MAX_RELINQUISHED_IDENTITIES"
    using assms(3) l by (auto simp: sweep_relinquished_def)
  moreover have "relinquished_asserts r now' fam sec (sweep_relinquished now ep) = relinquished_asserts r now' fam sec ep" if "now \<le> now'"
    using set_screens_filter [OF that] id_screens_filter [OF that] by (simp add: relinquished_asserts_parts sweep_relinquished_def)
  ultimately show ?thesis by (simp add: MAX_RELINQUISHED_RRSETS_def MAX_RELINQUISHED_IDENTITIES_def)
qed

subsection \<open>An example\<close>

definition left_records :: service_records where
  "left_records = sr_add_a [10, 0, 0, 1] (sr_new (Name [98]) (Name [97, 46, 98]) (Name [104]) 80 120)"

definition left_emitted :: emitted_records where
  "left_emitted = emitted_default\<lparr>em_srv := True, em_a := [[10, 0, 0, 1]]\<rparr>"

text \<open>The A record of the host, as an echo brings it back.\<close>

definition echo_record :: record_ref where
  "echo_record = (case record_try_parse ([1, 104, 0, 0, 1, 128, 1, 0, 0, 0, 120, 0, 4, 10, 0, 0, 1]) 0 of
     Inr (r, _) \<Rightarrow> r | Inl _ \<Rightarrow> undefined)"

lemma echo_asserted: "asserts left_records (left_emitted, emitted_default) echo_record (peer_of echo_record) V4 SecAnswer"
  by code_simp

lemma tiers_agree_witness:
  "\<exists>(owner, rtype, rdata)\<in>set (identities left_records left_emitted).
     identity_asserts \<lparr>ri_owner = owner, ri_rtype = rtype, ri_rdata = rdata, ri_expires_at = (Some (5 :: nat), None)\<rparr>
       echo_record (peer_of echo_record) 3 V4 SecAnswer"
  using tiers_agree [of V4 "(Some (5 :: nat), None)" 5 3 left_records "(left_emitted, emitted_default)" echo_record SecAnswer] echo_asserted
  by simp

abbreviation left_endpoint :: slab_endpoint where
  "left_endpoint \<equiv> retain_relinquished smoltcp_clock left_records (left_emitted, emitted_default) (SmoltcpInstant 0) fresh_endpoint"

lemma retained_is_screened_witness:
  "relinquished_asserts echo_record (SmoltcpInstant 4999999) V4 SecAnswer left_endpoint"
proof -
  have t: "cadd smoltcp_clock (SmoltcpInstant 0) (cf_relinquished_retention (ep_config fresh_endpoint)) = Some (SmoltcpInstant 5000000)"
    "SmoltcpInstant 0 \<le> SmoltcpInstant 4999999" "SmoltcpInstant 4999999 < SmoltcpInstant 5000000"
    "length (ep_relinquished fresh_endpoint) < MAX_RELINQUISHED_RRSETS" by code_simp+
  from retained_is_screened [OF t(1,2) refl, where records = left_records and emitted = "(left_emitted, emitted_default)"
      and r = echo_record and fam = V4 and sec = SecAnswer] t(3,4) echo_asserted
  show ?thesis by blast
qed

lemma screen_bounded_witness:
  "length (ep_relinquished left_endpoint) \<le> 128 \<and> length (ep_relinquished_identities left_endpoint) \<le> 512"
proof -
  have "length (ep_relinquished fresh_endpoint) \<le> MAX_RELINQUISHED_RRSETS"
    "length (ep_relinquished_identities fresh_endpoint) \<le> MAX_RELINQUISHED_IDENTITIES" by code_simp+
  from screen_bounded [OF this disjI1 [OF refl], where records = left_records and emitted = "(left_emitted, emitted_default)"]
  show ?thesis by blast
qed

end
