(* ===== verification/OnLink.thy ===== *)
theory OnLink
  imports Net
begin

text \<open>
  The rule on the link a datagram came from (\<open>hick-onlink/src/lib.rs\<close>, RFC 6762 section 11): what the receive
  path witnessed about the destination and the interface, the link the endpoint is bound to, and the
  verdict.  An address is its octets, four or sixteen of them.
\<close>

definition LINK_LOCAL_V6_NET :: bytes where "LINK_LOCAL_V6_NET = [0xfe, 0x80, 0, 0, 0, 0, 0, 0, 0, 0, 0, 0, 0, 0, 0, 0]"
definition LINK_LOCAL_V6_PREFIX_LEN :: u8 where "LINK_LOCAL_V6_PREFIX_LEN = 64"

subsection \<open>Addresses of the standard library\<close>

text \<open>\<open>is_loopback\<close>, \<open>is_unspecified\<close>, \<open>is_multicast\<close> and \<open>to_ipv4_mapped\<close> of \<open>core::net\<close>.\<close>

definition v4_loopback :: "bytes \<Rightarrow> bool" where "v4_loopback ip \<longleftrightarrow> take 1 ip = [127]"
definition v6_loopback :: "bytes \<Rightarrow> bool" where "v6_loopback ip \<longleftrightarrow> ip = replicate 15 0 @ [1]"
definition ip_unspecified :: "bytes \<Rightarrow> bool" where "ip_unspecified ip \<longleftrightarrow> list_all (\<lambda>b. b = 0) ip"
definition v4_multicast :: "bytes \<Rightarrow> bool" where
  "v4_multicast ip \<longleftrightarrow> (case ip of b # _ \<Rightarrow> 224 \<le> b \<and> b \<le> 239 | [] \<Rightarrow> False)"
definition v6_multicast :: "bytes \<Rightarrow> bool" where "v6_multicast ip \<longleftrightarrow> take 1 ip = [0xff]"
definition v4_broadcast :: bytes where "v4_broadcast = [255, 255, 255, 255]"
definition v4_mapped :: "bytes \<Rightarrow> bool" where "v4_mapped ip \<longleftrightarrow> take 12 ip = replicate 10 0 @ [0xff, 0xff]"

fun ip_loopback :: "ip_addr \<Rightarrow> bool" where
  "ip_loopback (IpV4 ip) = v4_loopback ip"
| "ip_loopback (IpV6 ip) = v6_loopback ip"

subsection \<open>What was witnessed\<close>

datatype link_delivery = DeliveredUnicast | DeliveredMulticast | DeliveredBroadcast

datatype destination_witness = DstWitnessed ip_addr | DstLost | DstDeclined | DstBlind

fun dst_from_reporting_path :: "ip_addr option \<Rightarrow> bool \<Rightarrow> destination_witness" where
  "dst_from_reporting_path (Some dst) control_truncated = DstWitnessed dst"
| "dst_from_reporting_path None control_truncated = (if control_truncated then DstLost else DstDeclined)"

fun witnessed_destination :: "destination_witness \<Rightarrow> ip_addr option" where
  "witnessed_destination (DstWitnessed dst) = Some dst"
| "witnessed_destination _ = None"

text \<open>The index of \<open>IfWitnessed\<close> is a \<open>NonZeroU32\<close>; \<open>non_zero\<close> is its constructor.\<close>

datatype iface_witness = IfWitnessed u32 | IfLost | IfDeclined | IfBlind

definition non_zero :: "u32 \<Rightarrow> u32 option" where "non_zero n = (if n = 0 then None else Some n)"

definition if_from_reporting_path :: "u32 \<Rightarrow> bool \<Rightarrow> iface_witness" where
  "if_from_reporting_path index control_truncated =
     (case non_zero index of
        Some idx \<Rightarrow> IfWitnessed idx
      | None \<Rightarrow> if control_truncated then IfLost else IfDeclined)"

text \<open>The index of a path that reports an \<open>i32\<close>.\<close>

definition if_from_reporting_path_signed :: "32 word \<Rightarrow> bool \<Rightarrow> iface_witness" where
  "if_from_reporting_path_signed index control_truncated =
     if_from_reporting_path (if sint index < 0 then 0 else index) control_truncated"

fun witnessed_index :: "iface_witness \<Rightarrow> u32 option" where
  "witnessed_index (IfWitnessed idx) = Some idx"
| "witnessed_index _ = None"

definition index_or_zero :: "iface_witness \<Rightarrow> u32" where
  "index_or_zero w = (case witnessed_index w of Some idx \<Rightarrow> idx | None \<Rightarrow> 0)"

subsection \<open>Verdicts\<close>

datatype ingress_admit =
    MdnsGroup | UnscopedMdnsGroup | HeldDestination | UnenumeratedDestination
  | BlindMulticastDelivery | BlindSourceOnLink

datatype ingress_refuse =
    ForeignLink | LinkWitnessLost | DestinationWitnessLost | ForeignGroup | BroadcastAddressed
  | BroadcastDelivery | UnspecifiedDestination | LoopbackDestinationOffLoopbackBinding
  | Ipv4MappedDestination | DestinationNotHeld | SourceOffLink | UnscopedGroupSourceOffLink

datatype ingress_verdict = IngressAdmit ingress_admit | IngressRefuse ingress_refuse

fun is_admit :: "ingress_verdict \<Rightarrow> bool" where
  "is_admit (IngressAdmit _) = True"
| "is_admit (IngressRefuse _) = False"

fun is_degraded_admit :: "ingress_verdict \<Rightarrow> bool" where
  "is_degraded_admit (IngressAdmit a) = (a = BlindSourceOnLink \<or> a = BlindMulticastDelivery)"
| "is_degraded_admit (IngressRefuse _) = False"

subsection \<open>The bound link\<close>

record bound_link =
  bl_iface :: u32
  bl_is_loopback :: bool
  bl_local_addrs :: "(ip_addr \<times> u8) list"
  bl_onlink_prefixes :: "(ip_addr \<times> u8) list"

definition bound_link_new :: "u32 \<Rightarrow> bool \<Rightarrow> (ip_addr \<times> u8) list \<Rightarrow> bound_link" where
  "bound_link_new iface is_loopback local_addrs =
     \<lparr>bl_iface = iface, bl_is_loopback = is_loopback, bl_local_addrs = local_addrs, bl_onlink_prefixes = local_addrs\<rparr>"

definition with_onlink_prefixes :: "u32 \<Rightarrow> bool \<Rightarrow> (ip_addr \<times> u8) list \<Rightarrow> (ip_addr \<times> u8) list \<Rightarrow> bound_link" where
  "with_onlink_prefixes iface is_loopback local_addrs onlink_prefixes =
     \<lparr>bl_iface = iface, bl_is_loopback = is_loopback, bl_local_addrs = local_addrs, bl_onlink_prefixes = onlink_prefixes\<rparr>"

fun scope_of :: "socket_addr \<Rightarrow> u32" where
  "scope_of (SockV6 _ _ _ scope) = scope"
| "scope_of (SockV4 _ _) = 0"

subsection \<open>The link a datagram arrived on\<close>

datatype link_provenance = LinkEstablished | LinkUnbound | LinkUnproven

text \<open>The loop over the two witnesses; \<open>Inr True\<close> when one of them named the bound link.\<close>

fun check_witnesses :: "u32 \<Rightarrow> bool \<Rightarrow> u32 option list \<Rightarrow> ingress_refuse + bool" where
  "check_witnesses iface witnessed [] = Inr witnessed"
| "check_witnesses iface witnessed (None # ws) = check_witnesses iface witnessed ws"
| "check_witnesses iface witnessed (Some w # ws) =
     (if w \<noteq> iface then Inl ForeignLink else check_witnesses iface True ws)"

definition arrived_on_bound_interface :: "socket_addr \<Rightarrow> bound_link \<Rightarrow> iface_witness \<Rightarrow> ingress_refuse + link_provenance" where
  "arrived_on_bound_interface src link iface =
     (if bl_iface link = 0 then Inr LinkUnbound
      else case check_witnesses (bl_iface link) False [witnessed_index iface, non_zero (scope_of src)] of
        Inl e \<Rightarrow> Inl e
      | Inr witnessed \<Rightarrow>
          if witnessed then Inr LinkEstablished
          else if bl_is_loopback link \<and> ip_loopback (sock_ip src) then Inr LinkEstablished
          else case iface of
            IfLost \<Rightarrow> Inl LinkWitnessLost
          | IfDeclined \<Rightarrow> Inr LinkUnproven
          | IfBlind \<Rightarrow> Inr LinkUnproven
          | IfWitnessed _ \<Rightarrow> Inr LinkEstablished)"

subsection \<open>Prefixes\<close>

definition prefix_match :: "bytes \<Rightarrow> bytes \<Rightarrow> u8 \<Rightarrow> u8 \<Rightarrow> bool" where
  "prefix_match net addr prefix width =
     (if width < prefix then False
      else
        let full = unat (prefix div 8); rem = prefix mod 8 in
        if slice net 0 full \<noteq> slice addr 0 full then False
        else if rem = 0 then True
        else
          let mask = push_bit (unat (8 - rem)) (0xff :: u8) in
          case (get net full, get addr full) of
            (Some n, Some a) \<Rightarrow> n AND mask = a AND mask
          | _ \<Rightarrow> False)"

fun addr_in_subnet :: "ip_addr \<Rightarrow> u8 \<Rightarrow> ip_addr \<Rightarrow> bool" where
  "addr_in_subnet (IpV4 n) prefix (IpV4 a) = prefix_match n a prefix 32"
| "addr_in_subnet (IpV6 n) prefix (IpV6 a) = prefix_match n a prefix 128"
| "addr_in_subnet _ prefix _ = False"

subsection \<open>The two arms\<close>

fun is_mdns_group :: "ip_addr \<Rightarrow> bool" where
  "is_mdns_group (IpV4 a) \<longleftrightarrow> a = MDNS_IPV4_GROUP"
| "is_mdns_group (IpV6 a) \<longleftrightarrow> a = MDNS_IPV6_GROUP"

definition is_bound_address :: "ip_addr \<Rightarrow> bound_link \<Rightarrow> bool" where
  "is_bound_address dst link =
     (if ip_loopback dst then bl_is_loopback link
      else list_ex (\<lambda>(addr, _). addr = dst) (bl_local_addrs link))"

fun classify_unheld :: "ip_addr \<Rightarrow> bound_link \<Rightarrow> ingress_refuse" where
  "classify_unheld (IpV4 a) link =
     (if v4_loopback a \<and> \<not> bl_is_loopback link then LoopbackDestinationOffLoopbackBinding
      else if ip_unspecified a then UnspecifiedDestination
      else if a = v4_broadcast then BroadcastAddressed
      else if v4_multicast a then ForeignGroup
      else DestinationNotHeld)"
| "classify_unheld (IpV6 a) link =
     (if v6_loopback a \<and> \<not> bl_is_loopback link then LoopbackDestinationOffLoopbackBinding
      else if ip_unspecified a then UnspecifiedDestination
      else if v4_mapped a then Ipv4MappedDestination
      else if v6_multicast a then ForeignGroup
      else DestinationNotHeld)"

definition src_on_local_link :: "socket_addr \<Rightarrow> bound_link \<Rightarrow> iface_witness \<Rightarrow> link_provenance \<Rightarrow> bool" where
  "src_on_local_link src link iface provenance =
     (let ip = sock_ip src in
      if ip_loopback ip then bl_is_loopback link \<and> is_ok (arrived_on_bound_interface src link iface)
      else if provenance = LinkEstablished \<and> addr_in_subnet (IpV6 LINK_LOCAL_V6_NET) LINK_LOCAL_V6_PREFIX_LEN ip then True
      else list_ex (\<lambda>(net, pfx). addr_in_subnet net pfx ip) (bl_onlink_prefixes link))"

definition source_arm ::
  "socket_addr \<Rightarrow> bound_link \<Rightarrow> iface_witness \<Rightarrow> link_provenance \<Rightarrow> ingress_admit \<Rightarrow> ingress_refuse \<Rightarrow> ingress_verdict" where
  "source_arm src link iface provenance admit refuse =
     (if src_on_local_link src link iface provenance then IngressAdmit admit else IngressRefuse refuse)"

definition unscoped_group_arm ::
  "socket_addr \<Rightarrow> link_delivery option \<Rightarrow> bound_link \<Rightarrow> iface_witness \<Rightarrow> link_provenance \<Rightarrow> ingress_verdict" where
  "unscoped_group_arm src delivery link iface provenance =
     (case delivery of
        Some DeliveredBroadcast \<Rightarrow> IngressRefuse BroadcastDelivery
      | Some DeliveredMulticast \<Rightarrow> IngressAdmit UnscopedMdnsGroup
      | _ \<Rightarrow> source_arm src link iface provenance UnscopedMdnsGroup UnscopedGroupSourceOffLink)"

definition admits_ingress ::
  "socket_addr \<Rightarrow> destination_witness \<Rightarrow> link_delivery option \<Rightarrow> bound_link \<Rightarrow> iface_witness \<Rightarrow> ingress_verdict" where
  "admits_ingress src destination delivery link iface =
     (case arrived_on_bound_interface src link iface of
        Inl refusal \<Rightarrow> IngressRefuse refusal
      | Inr provenance \<Rightarrow>
          (case destination of
             DstWitnessed dst \<Rightarrow>
               if is_mdns_group dst then
                 (case provenance of
                    LinkUnproven \<Rightarrow> unscoped_group_arm src delivery link iface provenance
                  | _ \<Rightarrow> IngressAdmit MdnsGroup)
               else if is_bound_address dst link then
                 source_arm src link iface provenance HeldDestination SourceOffLink
               else if bl_local_addrs link = [] then
                 (case classify_unheld dst link of
                    DestinationNotHeld \<Rightarrow> source_arm src link iface provenance UnenumeratedDestination SourceOffLink
                  | named \<Rightarrow> IngressRefuse named)
               else IngressRefuse (classify_unheld dst link)
           | DstLost \<Rightarrow> IngressRefuse DestinationWitnessLost
           | _ \<Rightarrow>
               (case delivery of
                  Some DeliveredBroadcast \<Rightarrow> IngressRefuse BroadcastDelivery
                | Some DeliveredMulticast \<Rightarrow> IngressAdmit BlindMulticastDelivery
                | _ \<Rightarrow> source_arm src link iface provenance BlindSourceOnLink SourceOffLink)))"

subsection \<open>A prefix is the leading bits\<close>

fun wide :: "ip_addr \<Rightarrow> nat" where "wide (IpV4 _) = 32" | "wide (IpV6 _) = 128"
fun octets :: "ip_addr \<Rightarrow> bytes" where "octets (IpV4 a) = a" | "octets (IpV6 a) = a"

definition well_sized :: "ip_addr \<Rightarrow> bool" where "well_sized a \<longleftrightarrow> 8 * length (octets a) = wide a"

definition octet_bits :: "u8 \<Rightarrow> bool list" where "octet_bits b = map (bit b) [7, 6, 5, 4, 3, 2, 1, 0]"
definition addr_bits :: "bytes \<Rightarrow> bool list" where "addr_bits bs = concat (map octet_bits bs)"

lemma length_octet_bits [simp]: "length (octet_bits b) = 8"
  by (simp add: octet_bits_def)

lemma addr_bits_simps [simp]:
  "addr_bits [] = []" "addr_bits (b # bs) = octet_bits b @ addr_bits bs" "length (addr_bits bs) = 8 * length bs"
  by (simp_all add: addr_bits_def) (induction bs; simp)

lemma octet_bits_nth: "i < 8 \<Longrightarrow> octet_bits b ! i = bit b (7 - i)"
  by (auto simp: octet_bits_def less_Suc_eq numeral_eq_Suc)

lemma octet_eq_iff: "a = b \<longleftrightarrow> (\<forall>i<8. bit a i = bit b i)" for a b :: u8
  by (auto intro: bit_word_eqI)

lemma octet_bits_inj [simp]: "octet_bits a = octet_bits b \<longleftrightarrow> a = b"
proof
  assume e: "octet_bits a = octet_bits b"
  have "bit a i = bit b i" if "i < 8" for i
    using octet_bits_nth [of "7 - i" a] octet_bits_nth [of "7 - i" b] that e by simp
  then show "a = b" by (simp add: octet_eq_iff)
qed simp

lemma masked_eq:
  fixes a b :: u8
  assumes "0 < r" "r < 8"
  shows "a AND push_bit (8 - r) 0xff = b AND push_bit (8 - r) 0xff \<longleftrightarrow> take r (octet_bits a) = take r (octet_bits b)"
proof -
  have ff: "(0xff :: u8) = mask 8" by (simp add: mask_eq_exp_minus_1)
  have "a AND push_bit (8 - r) 0xff = b AND push_bit (8 - r) 0xff \<longleftrightarrow> (\<forall>i<8. 8 - r \<le> i \<longrightarrow> bit a i = bit b i)"
    unfolding ff by (auto simp: octet_eq_iff bit_simps)
  also have "\<dots> \<longleftrightarrow> (\<forall>i<r. bit a (7 - i) = bit b (7 - i))"
  proof (rule iffI; intro allI impI)
    fix i assume "\<forall>i<8. 8 - r \<le> i \<longrightarrow> bit a i = bit b i" "i < r"
    moreover have "7 - i < 8" "8 - r \<le> 7 - i" using \<open>i < r\<close> assms by linarith+
    ultimately show "bit a (7 - i) = bit b (7 - i)" by blast
  next
    fix i assume "\<forall>i<r. bit a (7 - i) = bit b (7 - i)" "i < 8" "8 - r \<le> i"
    moreover have "7 - i < r" "7 - (7 - i) = i" using \<open>i < 8\<close> \<open>8 - r \<le> i\<close> assms by linarith+
    ultimately show "bit a i = bit b i" by metis
  qed
  also have "\<dots> \<longleftrightarrow> take r (octet_bits a) = take r (octet_bits b)"
    using assms by (auto simp: list_eq_iff_nth_eq octet_bits_nth)
  finally show ?thesis .
qed

lemma take_bits:
  assumes "length n = length a" "q < length n" "r < 8"
  shows "take (8 * q + r) (addr_bits n) = take (8 * q + r) (addr_bits a) \<longleftrightarrow>
     take q n = take q a \<and> take r (octet_bits (n ! q)) = take r (octet_bits (a ! q))"
  using assms
proof (induction n a arbitrary: q rule: list_induct2)
  case (Cons x xs y ys)
  then show ?case by (cases q) (simp_all add: conj_assoc)
qed simp

lemma take_bits_full:
  assumes "length n = length a"
  shows "take (8 * q) (addr_bits n) = take (8 * q) (addr_bits a) \<longleftrightarrow> take q n = take q a"
  using assms
proof (induction n a arbitrary: q rule: list_induct2)
  case (Cons x xs y ys)
  then show ?case by (cases q) simp_all
qed simp

lemma prefix_match_bits:
  assumes "length n = length a" "8 * length n = unat width"
  shows "prefix_match n a prefix width \<longleftrightarrow>
     unat prefix \<le> 8 * length n \<and> take (unat prefix) (addr_bits n) = take (unat prefix) (addr_bits a)"
proof (cases "unat prefix \<le> 8 * length n")
  case True
  define q r where "q = unat prefix div 8" and "r = unat prefix mod 8"
  have p: "unat prefix = 8 * q + r" "r < 8" "unat (prefix div 8) = q" "unat (prefix mod 8) = r"
    by (simp_all add: q_def r_def unat_div unat_mod)
  have le: "q \<le> length n" using True p(1) by simp
  have no: "\<not> width < prefix" using True assms(2) by (simp add: word_less_nat_alt)
  have s: "slice n 0 q = slice a 0 q \<longleftrightarrow> take q n = take q a" using le assms(1) by (simp add: slice_def)
  show ?thesis
  proof (cases "r = 0")
    case z: True
    then have "prefix mod 8 = 0" using p(4) by (simp add: unat_eq_zero)
    with no True s p z take_bits_full [OF assms(1), of q] show ?thesis by (simp add: prefix_match_def)
  next
    case False
    then have nz: "prefix mod 8 \<noteq> 0" using p(4) by (metis unat_0)
    have lt: "q < length n" using True p(1) False by simp
    have "unat (8 - prefix mod 8) = 8 - r"
      using p(2,4) by (simp add: unat_sub_if_size word_le_nat_alt)
    with no True s p nz lt False take_bits [OF assms(1) lt p(2)] masked_eq [of r "n ! q" "a ! q"] assms(1) show ?thesis
      by (simp add: prefix_match_def Let_def get_def)
  qed
next
  case False
  with assms(2) have "width < prefix" by (simp add: word_less_nat_alt)
  with False show ?thesis by (simp add: prefix_match_def)
qed

text \<open>
  C32. An address is in a subnet exactly when it is of the family of the subnet, the prefix is no longer than
  an address, and the two agree on that many leading bits.
\<close>
theorem addr_in_subnet_bits:
  assumes "well_sized net" "well_sized a"
  shows "addr_in_subnet net prefix a \<longleftrightarrow> wide net = wide a \<and> unat prefix \<le> wide net \<and>
     take (unat prefix) (addr_bits (octets net)) = take (unat prefix) (addr_bits (octets a))"
  using assms prefix_match_bits [of "octets net" "octets a"]
  by (cases "(net, prefix, a)" rule: addr_in_subnet.cases) (simp_all add: well_sized_def)

lemma addr_in_subnet_bits_witness:
  "addr_in_subnet (IpV4 [192, 168, 6, 0]) 23 (IpV4 [192, 168, 7, 42]) \<longleftrightarrow>
     wide (IpV4 [192, 168, 6, 0]) = wide (IpV4 [192, 168, 7, 42]) \<and> unat (23 :: u8) \<le> wide (IpV4 [192, 168, 6, 0]) \<and>
     take (unat (23 :: u8)) (addr_bits (octets (IpV4 [192, 168, 6, 0]))) = take (unat (23 :: u8)) (addr_bits (octets (IpV4 [192, 168, 7, 42])))"
  by (rule addr_in_subnet_bits) (simp_all add: well_sized_def)

subsection \<open>The rule\<close>

text \<open>The links the witnesses name.\<close>

definition named_links :: "socket_addr \<Rightarrow> iface_witness \<Rightarrow> u32 set" where
  "named_links src iface = set_option (witnessed_index iface) \<union> (if scope_of src = 0 then {} else {scope_of src})"

definition own_loopback :: "socket_addr \<Rightarrow> bound_link \<Rightarrow> bool" where
  "own_loopback src link \<longleftrightarrow> bl_is_loopback link \<and> ip_loopback (sock_ip src)"

text \<open>No witness names another link, and something is known unless the truncation was our own.\<close>

definition may_be_ours :: "socket_addr \<Rightarrow> bound_link \<Rightarrow> iface_witness \<Rightarrow> bool" where
  "may_be_ours src link iface \<longleftrightarrow> bl_iface link = 0 \<or>
     named_links src iface \<subseteq> {bl_iface link} \<and> (iface = IfLost \<longrightarrow> named_links src iface \<noteq> {} \<or> own_loopback src link)"

definition proven_ours :: "socket_addr \<Rightarrow> bound_link \<Rightarrow> iface_witness \<Rightarrow> bool" where
  "proven_ours src link iface \<longleftrightarrow> bl_iface link \<noteq> 0 \<and>
     (named_links src iface = {bl_iface link} \<or> named_links src iface = {} \<and> own_loopback src link)"

definition source_ok :: "socket_addr \<Rightarrow> bound_link \<Rightarrow> iface_witness \<Rightarrow> bool" where
  "source_ok src link iface \<longleftrightarrow>
     (if ip_loopback (sock_ip src) then bl_is_loopback link
      else proven_ours src link iface \<and> addr_in_subnet (IpV6 LINK_LOCAL_V6_NET) 64 (sock_ip src) \<or>
        (\<exists>(net, prefix)\<in>set (bl_onlink_prefixes link). addr_in_subnet net prefix (sock_ip src)))"

lemma arrived_cases:
  "arrived_on_bound_interface src link iface =
     (if bl_iface link = 0 then Inr LinkUnbound
      else if \<not> named_links src iface \<subseteq> {bl_iface link} then Inl ForeignLink
      else if proven_ours src link iface then Inr LinkEstablished
      else if iface = IfLost then Inl LinkWitnessLost else Inr LinkUnproven)"
  by (cases iface; cases "scope_of src = 0")
    (auto simp: arrived_on_bound_interface_def named_links_def proven_ours_def own_loopback_def non_zero_def)

lemma arrived_ok:
  "is_ok (arrived_on_bound_interface src link iface) \<longleftrightarrow> may_be_ours src link iface"
  unfolding arrived_cases may_be_ours_def proven_ours_def by (auto simp: subset_singleton_iff)

lemma source_arm_rule:
  assumes "arrived_on_bound_interface src link iface = Inr provenance"
  shows "is_admit (source_arm src link iface provenance admit refuse) \<longleftrightarrow> source_ok src link iface"
proof -
  have "provenance = LinkEstablished \<longleftrightarrow> proven_ours src link iface"
    using assms unfolding arrived_cases by (auto simp: proven_ours_def split: if_splits)
  moreover have "may_be_ours src link iface" using assms arrived_ok [of src link iface] by simp
  ultimately show ?thesis
    by (auto simp: source_arm_def src_on_local_link_def source_ok_def Let_def arrived_ok list_ex_iff LINK_LOCAL_V6_PREFIX_LEN_def)
qed

definition undirected_ok :: "socket_addr \<Rightarrow> link_delivery option \<Rightarrow> bound_link \<Rightarrow> iface_witness \<Rightarrow> bool" where
  "undirected_ok src delivery link iface \<longleftrightarrow>
     delivery = Some DeliveredMulticast \<or> delivery \<noteq> Some DeliveredBroadcast \<and> source_ok src link iface"

lemma off_link_refused:
  "\<not> may_be_ours src link iface \<Longrightarrow> \<not> is_admit (admits_ingress src destination delivery link iface)"
  unfolding arrived_ok [symmetric] by (cases "arrived_on_bound_interface src link iface") (simp_all add: admits_ingress_def)

lemma arrived_provenance:
  assumes "may_be_ours src link iface"
  shows "arrived_on_bound_interface src link iface =
     Inr (if bl_iface link = 0 then LinkUnbound else if proven_ours src link iface then LinkEstablished else LinkUnproven)"
  using assms unfolding arrived_ok [symmetric] arrived_cases by (auto split: if_splits)

lemma admit_group:
  assumes "may_be_ours src link iface" "is_mdns_group dst"
  shows "is_admit (admits_ingress src (DstWitnessed dst) delivery link iface) \<longleftrightarrow>
     bl_iface link = 0 \<or> proven_ours src link iface \<or> undirected_ok src delivery link iface"
  using assms(2) arrived_provenance [OF assms(1)] source_arm_rule [OF arrived_provenance [OF assms(1)]]
  by (auto simp: admits_ingress_def unscoped_group_arm_def undirected_ok_def split: option.split link_delivery.split)

lemma admit_unicast:
  assumes "may_be_ours src link iface" "\<not> is_mdns_group dst"
  shows "is_admit (admits_ingress src (DstWitnessed dst) delivery link iface) \<longleftrightarrow>
     (is_bound_address dst link \<or> bl_local_addrs link = [] \<and> classify_unheld dst link = DestinationNotHeld) \<and>
     source_ok src link iface"
  using assms(2) arrived_provenance [OF assms(1)] source_arm_rule [OF arrived_provenance [OF assms(1)]]
  by (auto simp: admits_ingress_def split: ingress_refuse.split)

lemma admit_undirected:
  assumes "may_be_ours src link iface"
  shows "is_admit (admits_ingress src DstDeclined delivery link iface) \<longleftrightarrow> undirected_ok src delivery link iface"
    "is_admit (admits_ingress src DstBlind delivery link iface) \<longleftrightarrow> undirected_ok src delivery link iface"
    "\<not> is_admit (admits_ingress src DstLost delivery link iface)"
  using arrived_provenance [OF assms] source_arm_rule [OF arrived_provenance [OF assms]]
  by (auto simp: admits_ingress_def undirected_ok_def split: option.split link_delivery.split)

text \<open>
  C29. Which datagrams are admitted: none that a witness places on another link or whose witnesses we lost;
  to the mDNS group, every one proven to come from our link, and without such proof those the link layer
  calls a multicast or whose source is on the link; to an address of ours - to any but a special one while
  we know none - those whose source is on the link; without a destination, multicasts and on-link sources;
  nothing the link layer calls a broadcast unless the address shows otherwise.
\<close>
theorem ingress_rule:
  "is_admit (admits_ingress src destination delivery link iface) \<longleftrightarrow>
     may_be_ours src link iface \<and>
     (case destination of
        DstWitnessed dst \<Rightarrow>
          if is_mdns_group dst then bl_iface link = 0 \<or> proven_ours src link iface \<or> undirected_ok src delivery link iface
          else (is_bound_address dst link \<or> bl_local_addrs link = [] \<and> classify_unheld dst link = DestinationNotHeld) \<and>
            source_ok src link iface
      | DstLost \<Rightarrow> False
      | DstDeclined \<Rightarrow> undirected_ok src delivery link iface
      | DstBlind \<Rightarrow> undirected_ok src delivery link iface)"
  using off_link_refused [of src link iface] admit_group [of src link iface] admit_unicast [of src link iface]
    admit_undirected [of src link iface] by (cases "may_be_ours src link iface"; cases destination) simp_all

lemma admit_mono:
  assumes "may_be_ours src link w \<Longrightarrow> may_be_ours src link w'"
    and "may_be_ours src link w \<Longrightarrow> proven_ours src link w \<Longrightarrow> proven_ours src link w'"
    and "is_admit (admits_ingress src destination delivery link w)"
  shows "is_admit (admits_ingress src destination delivery link w')"
proof -
  have may: "may_be_ours src link w" using off_link_refused assms(3) by blast
  have source: "source_ok src link w \<Longrightarrow> source_ok src link w'" using assms(2) [OF may] by (auto simp: source_ok_def split: if_splits)
  have undirected: "undirected_ok src delivery link w \<Longrightarrow> undirected_ok src delivery link w'"
    using source by (auto simp: undirected_ok_def)
  show ?thesis
  proof (cases destination)
    case (DstWitnessed dst)
    with assms(2,3) may source undirected admit_group [OF may, of dst delivery] admit_group [OF assms(1) [OF may], of dst delivery]
      admit_unicast [OF may, of dst delivery] admit_unicast [OF assms(1) [OF may], of dst delivery]
    show ?thesis by (cases "is_mdns_group dst") auto
  qed (use assms(3) may undirected admit_undirected [OF may] admit_undirected [OF assms(1) [OF may]] in auto)
qed

text \<open>
  C30. Evidence only helps, and the loss of it fails safe.  A datagram whose interface our own truncation took,
  with no scope on its source that names the link and no loopback source of a loopback link, is refused for
  that reason; whatever is admitted in spite of such a loss is admitted when the kernel names no interface,
  what is admitted so is admitted when it names our link, and what it places on another link is refused.
  A datagram whose destination was lost is refused.  One admitted with the destination unknown is admitted
  with the destination known when that is the group, and when it is an address of ours too, except if
  the link layer calls the datagram a multicast: then its source was never tested.
\<close>
theorem evidence_monotone:
  "(bl_iface link \<noteq> 0 \<and> scope_of src = 0 \<and> \<not> (bl_is_loopback link \<and> ip_loopback (sock_ip src)) \<longrightarrow>
      admits_ingress src destination delivery link IfLost = IngressRefuse LinkWitnessLost) \<and>
   (is_admit (admits_ingress src destination delivery link IfLost) \<longrightarrow> is_admit (admits_ingress src destination delivery link IfDeclined)) \<and>
   admits_ingress src destination delivery link IfDeclined = admits_ingress src destination delivery link IfBlind \<and>
   (bl_iface link \<noteq> 0 \<and> is_admit (admits_ingress src destination delivery link IfDeclined) \<longrightarrow>
      is_admit (admits_ingress src destination delivery link (IfWitnessed (bl_iface link)))) \<and>
   (bl_iface link \<noteq> 0 \<and> other \<noteq> bl_iface link \<longrightarrow>
      admits_ingress src destination delivery link (IfWitnessed other) = IngressRefuse ForeignLink) \<and>
   admits_ingress src DstDeclined delivery link iface = admits_ingress src DstBlind delivery link iface \<and>
   \<not> is_admit (admits_ingress src DstLost delivery link iface) \<and>
   (is_admit (admits_ingress src DstBlind delivery link iface) \<and>
      (is_mdns_group dst \<or> is_bound_address dst link \<and> delivery \<noteq> Some DeliveredMulticast) \<longrightarrow>
      is_admit (admits_ingress src (DstWitnessed dst) delivery link iface))"
proof (intro conjI impI)
  let ?named = "IfWitnessed (bl_iface link)"
  show "admits_ingress src destination delivery link IfLost = IngressRefuse LinkWitnessLost"
    if "bl_iface link \<noteq> 0 \<and> scope_of src = 0 \<and> \<not> (bl_is_loopback link \<and> ip_loopback (sock_ip src))"
    using that by (auto simp: admits_ingress_def arrived_cases named_links_def proven_ours_def own_loopback_def)
  have arrived: "arrived_on_bound_interface src link IfDeclined = arrived_on_bound_interface src link IfBlind"
    by (simp add: arrived_cases proven_ours_def named_links_def)
  have arm: "source_arm src link IfDeclined = source_arm src link IfBlind"
    by (simp add: fun_eq_iff source_arm_def src_on_local_link_def arrived)
  have group: "unscoped_group_arm src delivery link IfDeclined = unscoped_group_arm src delivery link IfBlind"
    unfolding fun_eq_iff unscoped_group_arm_def arm by simp
  show "admits_ingress src destination delivery link IfDeclined = admits_ingress src destination delivery link IfBlind"
    unfolding admits_ingress_def arrived arm group by (rule refl)
  show "is_admit (admits_ingress src destination delivery link IfDeclined)" if "is_admit (admits_ingress src destination delivery link IfLost)"
    by (rule admit_mono [OF _ _ that]) (auto simp: may_be_ours_def proven_ours_def named_links_def)
  show "is_admit (admits_ingress src destination delivery link ?named)"
    if "bl_iface link \<noteq> 0 \<and> is_admit (admits_ingress src destination delivery link IfDeclined)"
    by (rule admit_mono [OF _ _ conjunct2 [OF that]])
      (use that in \<open>auto simp: may_be_ours_def proven_ours_def named_links_def split: if_splits\<close>)
  show "admits_ingress src destination delivery link (IfWitnessed other) = IngressRefuse ForeignLink"
    if "bl_iface link \<noteq> 0 \<and> other \<noteq> bl_iface link"
    using that by (simp add: admits_ingress_def arrived_cases named_links_def)
  show "admits_ingress src DstDeclined delivery link iface = admits_ingress src DstBlind delivery link iface"
    unfolding admits_ingress_def destination_witness.case by (rule refl)
  show "\<not> is_admit (admits_ingress src DstLost delivery link iface)"
    by (simp add: admits_ingress_def split: sum.split)
  assume known: "is_admit (admits_ingress src DstBlind delivery link iface) \<and>
    (is_mdns_group dst \<or> is_bound_address dst link \<and> delivery \<noteq> Some DeliveredMulticast)"
  then have may: "may_be_ours src link iface" using off_link_refused by blast
  from known admit_undirected(2) [OF may] have "undirected_ok src delivery link iface" by blast
  with known admit_group [OF may, of dst delivery] admit_unicast [OF may, of dst delivery]
  show "is_admit (admits_ingress src (DstWitnessed dst) delivery link iface)"
    by (cases "is_mdns_group dst") (auto simp: undirected_ok_def)
qed

definition lan :: bound_link where
  "lan = bound_link_new 3 False [(IpV4 [192, 168, 1, 10], 24)]"

lemma evidence_monotone_witness:
  "is_admit (admits_ingress (SockV4 [192, 168, 1, 42] 5353) (DstWitnessed (IpV4 MDNS_IPV4_GROUP)) None lan (IfWitnessed 3)) \<and>
   admits_ingress (SockV4 [192, 168, 1, 42] 5353) (DstWitnessed (IpV4 MDNS_IPV4_GROUP)) None lan (IfWitnessed 4) = IngressRefuse ForeignLink \<and>
   admits_ingress (SockV4 [192, 168, 1, 42] 5353) (DstWitnessed (IpV4 MDNS_IPV4_GROUP)) None lan IfLost = IngressRefuse LinkWitnessLost"
proof -
  have "is_admit (admits_ingress (SockV4 [192, 168, 1, 42] 5353) (DstWitnessed (IpV4 MDNS_IPV4_GROUP)) None lan IfDeclined)"
    "bl_iface lan = 3" "\<not> bl_is_loopback lan" "scope_of (SockV4 [192, 168, 1, 42] 5353) = 0" by code_simp+
  with evidence_monotone [where src = "SockV4 [192, 168, 1, 42] 5353" and destination = "DstWitnessed (IpV4 MDNS_IPV4_GROUP)"
      and delivery = None and link = lan and other = 4]
  show ?thesis by simp
qed

text \<open>An off-link source is believed to the group on the link of the datagram, and not without proof of the link.\<close>

lemma off_prefix_group:
  "admits_ingress (SockV4 [10, 9, 8, 7] 5353) (DstWitnessed (IpV4 MDNS_IPV4_GROUP)) None lan (IfWitnessed 3) = IngressAdmit MdnsGroup \<and>
   admits_ingress (SockV4 [10, 9, 8, 7] 5353) (DstWitnessed (IpV4 MDNS_IPV4_GROUP)) None lan IfDeclined =
     IngressRefuse UnscopedGroupSourceOffLink"
  by code_simp

end
