(* ===== verification/Ledger.thy ===== *)
theory Ledger
  imports Endpoint
begin

text \<open>
  What an endpoint promises about its services, apart from how it keeps them: a ledger of the names and
  handles in use and of the goodbyes under way, the moves it may make, and what every reachable ledger
  satisfies.  An entry is a name claimed, the handle it goes by, whether it is being withdrawn, and the name
  its records carry.
\<close>

type_synonym ledger_entry = "name \<times> service_handle \<times> bool \<times> name"

record ledger =
  lg_routes :: "nat \<Rightarrow> ledger_entry option"
  lg_items :: "(withdrawal_token \<times> service_handle option) list"
  lg_handles :: nat
  lg_tokens :: nat

text \<open>The names other routes claim.\<close>

definition name_free :: "name \<Rightarrow> nat \<Rightarrow> ledger \<Rightarrow> bool" where
  "name_free n k l \<longleftrightarrow> (\<forall>k' n' h w i. k' \<noteq> k \<longrightarrow> lg_routes l k' = Some (n', h, w, i) \<longrightarrow> \<not> same_owner n' n)"

inductive ledger_step :: "ledger \<Rightarrow> ledger \<Rightarrow> bool" where
  ls_register: "lg_routes l k = None \<Longrightarrow> name_free n k l \<Longrightarrow>
    ledger_step l (l\<lparr>lg_routes := (lg_routes l)(k \<mapsto> (n, ServiceHandle (of_nat (lg_handles l)), False, n)),
                     lg_handles := sat_add u32_max (lg_handles l) 1\<rparr>)"
| ls_skip: "ledger_step l (l\<lparr>lg_handles := sat_add u32_max (lg_handles l) 1\<rparr>)"
| ls_rename: "lg_routes l k = Some (n, h, w, i) \<Longrightarrow> same_owner n' i' \<Longrightarrow> name_free n' k l \<Longrightarrow>
    ledger_step l (l\<lparr>lg_routes := (lg_routes l)(k \<mapsto> (n', h, w, i'))\<rparr>)"
| ls_respell: "lg_routes l k = Some (n, h, w, i) \<Longrightarrow> same_owner n i' \<Longrightarrow>
    ledger_step l (l\<lparr>lg_routes := (lg_routes l)(k \<mapsto> (n, h, w, i'))\<rparr>)"
| ls_leave: "lg_routes l k = Some (n, h, w, i) \<Longrightarrow> Some h \<notin> snd ` set (lg_items l) \<Longrightarrow>
    ledger_step l (l\<lparr>lg_routes := (lg_routes l)(k \<mapsto> (n, h, True, i)),
                     lg_items := lg_items l @ [(WithdrawalToken (lg_tokens l), Some h)],
                     lg_tokens := sat_add u64_max (lg_tokens l) 1\<rparr>)"
| ls_detach: "ledger_step l (l\<lparr>lg_items := lg_items l @ [(WithdrawalToken (lg_tokens l), None)],
                     lg_tokens := sat_add u64_max (lg_tokens l) 1\<rparr>)"
| ls_remove: "lg_routes l k = Some (n, h, w, i) \<Longrightarrow>
    ledger_step l (l\<lparr>lg_routes := (lg_routes l)(k := None), lg_items := filter (\<lambda>(t, r). r \<noteq> Some h) (lg_items l)\<rparr>)"
| ls_drain_route: "lg_items l = as @ (t, Some h) # bs \<Longrightarrow> lg_routes l k = Some (n, h, w, i) \<Longrightarrow>
    ledger_step l (l\<lparr>lg_routes := (lg_routes l)(k := None), lg_items := as @ bs\<rparr>)"
| ls_drain: "lg_items l = as @ (t, r) # bs \<Longrightarrow> \<forall>k n h w i. lg_routes l k = Some (n, h, w, i) \<longrightarrow> r \<noteq> Some h \<Longrightarrow>
    ledger_step l (l\<lparr>lg_items := as @ bs\<rparr>)"

abbreviation "ledger_steps \<equiv> ledger_step\<^sup>*\<^sup>*"

text \<open>Every claimed name is the one the records carry, and nobody else's.\<close>

definition names_ok :: "ledger \<Rightarrow> bool" where
  "names_ok l \<longleftrightarrow> (\<forall>k n h w i. lg_routes l k = Some (n, h, w, i) \<longrightarrow> same_owner n i \<and> name_free n k l)"

text \<open>Handles and tokens are fresh, and exactly the routes that leave have a goodbye, one each.\<close>

definition handles_ok :: "ledger \<Rightarrow> bool" where
  "handles_ok l \<longleftrightarrow>
     (\<forall>k n h w i. lg_routes l k = Some (n, h, w, i) \<longrightarrow> (\<exists>m<lg_handles l. h = ServiceHandle (of_nat m)) \<and>
        (\<forall>k' n' h' w' i'. k' \<noteq> k \<longrightarrow> lg_routes l k' = Some (n', h', w', i') \<longrightarrow> h' \<noteq> h))"

definition items_ok :: "ledger \<Rightarrow> bool" where
  "items_ok l \<longleftrightarrow> distinct (map fst (lg_items l)) \<and> (\<forall>t\<in>fst ` set (lg_items l). \<exists>m<lg_tokens l. t = WithdrawalToken m) \<and>
     distinct (map snd (filter (\<lambda>x. snd x \<noteq> None) (lg_items l)))"

definition leaving_ok :: "ledger \<Rightarrow> bool" where
  "leaving_ok l \<longleftrightarrow> (\<forall>h. Some h \<in> snd ` set (lg_items l) \<longleftrightarrow> (\<exists>k n i. lg_routes l k = Some (n, h, True, i)))"

definition ledger_ok :: "ledger \<Rightarrow> bool" where
  "ledger_ok l \<longleftrightarrow> names_ok l \<and> handles_ok l \<and> items_ok l \<and> leaving_ok l"

lemma owned_sym: "same_owner a b = same_owner b a"
  by (auto simp: same_owner_def)

lemma owned_trans: "same_owner a b \<Longrightarrow> same_owner b c \<Longrightarrow> same_owner a c"
  by (simp add: same_owner_def)

lemma same_owner_refl [simp]: "same_owner a a"
  by (simp add: same_owner_def)

lemma sat_add_less: "sat_add m a 1 < m \<Longrightarrow> a < m" "sat_add m a 1 < m \<Longrightarrow> sat_add m a 1 = Suc a"
  by (auto simp: sat_add_def min_def split: if_splits)

lemma step_counters:
  assumes "ledger_step l l'"
  shows "lg_handles l' < u32_max \<Longrightarrow> lg_handles l < u32_max" "lg_tokens l' < u64_max \<Longrightarrow> lg_tokens l < u64_max"
proof -
  have "(lg_handles l' = lg_handles l \<or> lg_handles l' = sat_add u32_max (lg_handles l) 1) \<and>
    (lg_tokens l' = lg_tokens l \<or> lg_tokens l' = sat_add u64_max (lg_tokens l) 1)"
    using assms by (cases rule: ledger_step.cases) simp_all
  then show "lg_handles l' < u32_max \<Longrightarrow> lg_handles l < u32_max" "lg_tokens l' < u64_max \<Longrightarrow> lg_tokens l < u64_max"
    using sat_add_less(1) by metis+
qed

lemma steps_counters:
  assumes "ledger_steps l l'"
  shows "(lg_handles l' < u32_max \<longrightarrow> lg_handles l < u32_max) \<and> (lg_tokens l' < u64_max \<longrightarrow> lg_tokens l < u64_max)"
  using assms
proof (induction rule: rtranclp_induct)
  case (step l1 l2)
  with step_counters [OF step(2)] show ?case by blast
qed simp

lemma handle_inj:
  assumes "m < u32_max" "m' < u32_max" "(of_nat m :: u32) = of_nat m'"
  shows "m = m'"
proof -
  have "unat (of_nat m :: u32) = m" "unat (of_nat m' :: u32) = m'"
    unfolding unat_u32_of_nat using assms(1,2) by (intro mod_less, linarith)+
  with arg_cong [OF assms(3), of unat] show ?thesis by metis
qed

lemma names_update:
  assumes "names_ok l" "lg_routes l' = (lg_routes l)(k \<mapsto> (n, h, w, i))" "same_owner n i" "name_free n k l"
  shows "names_ok l'"
  unfolding names_ok_def
proof (intro allI impI conjI)
  fix k' n' h' w' i' assume e: "lg_routes l' k' = Some (n', h', w', i')"
  show "same_owner n' i'"
    using e assms(1-3) unfolding names_ok_def by (cases "k' = k") auto
  show "name_free n' k' l'" unfolding name_free_def
  proof (intro allI impI)
    fix k2 n2 h2 w2 i2 assume "k2 \<noteq> k'" "lg_routes l' k2 = Some (n2, h2, w2, i2)"
    then show "\<not> same_owner n2 n'"
      using e assms(1,2,4) owned_sym [of n2 n'] unfolding names_ok_def name_free_def
      by (cases "k' = k"; cases "k2 = k") auto
  qed
qed

lemma names_sub: "names_ok l \<Longrightarrow> lg_routes l' \<subseteq>\<^sub>m lg_routes l \<Longrightarrow> names_ok l'"
  unfolding names_ok_def name_free_def map_le_def by (metis domIff option.distinct(1))

lemma map_le_drop: "(m(k := None)) \<subseteq>\<^sub>m m" by (simp add: map_le_def)

lemma names_step:
  assumes "ledger_step l l'" "names_ok l"
  shows "names_ok l'"
  using assms(1)
proof cases
  case (ls_register k n)
  then show ?thesis by (intro names_update [OF assms(2), of l' k n "ServiceHandle (of_nat (lg_handles l))" False n]) simp_all
next
  case (ls_rename k n h w i n' i')
  then show ?thesis by (intro names_update [OF assms(2), of l' k n' h w i']) simp_all
next
  case (ls_respell k n h w i i')
  then show ?thesis using assms(2) by (intro names_update [OF assms(2), of l' k n h w i']) (simp_all add: names_ok_def)
next
  case (ls_leave k n h w i)
  then show ?thesis using assms(2) by (intro names_update [OF assms(2), of l' k n h True i]) (simp_all add: names_ok_def)
qed (use names_sub [OF assms(2), of l'] in \<open>simp_all add: map_le_drop\<close>)

text \<open>An entry keeps its handle through every move.\<close>

lemma handles_sub:
  assumes "handles_ok l" "lg_handles l \<le> lg_handles l'"
    and "\<And>k n h w i. lg_routes l' k = Some (n, h, w, i) \<Longrightarrow> \<exists>n w i. lg_routes l k = Some (n, h, w, i)"
  shows "handles_ok l'"
  unfolding handles_ok_def
proof (intro allI impI conjI)
  fix k n h w i assume "lg_routes l' k = Some (n, h, w, i)"
  then obtain n1 w1 i1 where e: "lg_routes l k = Some (n1, h, w1, i1)" using assms(3) by blast
  then show "\<exists>m<lg_handles l'. h = ServiceHandle (of_nat m)"
    using assms(1,2) unfolding handles_ok_def by (meson less_le_trans)
  fix k' n' h' w' i' assume "k' \<noteq> k" "lg_routes l' k' = Some (n', h', w', i')"
  moreover from this obtain n2 w2 i2 where "lg_routes l k' = Some (n2, h', w2, i2)" using assms(3) by blast
  ultimately show "h' \<noteq> h" using e assms(1) unfolding handles_ok_def by blast
qed

lemma handles_apart:
  "handles_ok l \<Longrightarrow> lg_routes l k = Some (n, h, w, i) \<Longrightarrow> lg_routes l k' = Some (n', h, w', i') \<Longrightarrow> k = k'"
  unfolding handles_ok_def by blast

lemma handles_register:
  assumes "handles_ok l" "lg_handles l < u32_max" "lg_handles l' = Suc (lg_handles l)"
    and "lg_routes l' = (lg_routes l)(k \<mapsto> (n, ServiceHandle (of_nat (lg_handles l)), w, i))"
  shows "handles_ok l'"
  unfolding handles_ok_def
proof (intro allI impI conjI)
  let ?h = "ServiceHandle (of_nat (lg_handles l))"
  have fresh: "h \<noteq> ?h" if "lg_routes l k' = Some (n', h, w, i)" for k' n' h w i
  proof -
    from that assms(1) obtain m where "m < lg_handles l" "h = ServiceHandle (of_nat m)" unfolding handles_ok_def by blast
    then show ?thesis using handle_inj [of m "lg_handles l"] assms(2) by auto
  qed
  fix k' n' h' w' i' assume e: "lg_routes l' k' = Some (n', h', w', i')"
  show "\<exists>m<lg_handles l'. h' = ServiceHandle (of_nat m)"
  proof (cases "k' = k")
    case False
    with e assms(4) have "lg_routes l k' = Some (n', h', w', i')" by simp
    with assms(1,3) show ?thesis unfolding handles_ok_def by (metis less_SucI)
  qed (use e assms(3,4) in auto)
  fix k2 n2 h2 w2 i2 assume "k2 \<noteq> k'" "lg_routes l' k2 = Some (n2, h2, w2, i2)"
  then show "h2 \<noteq> h'"
    using e assms(4) fresh [of k2 n2 h2 w2 i2] fresh [of k' n' h' w' i'] handles_apart [OF assms(1)]
    by (cases "k' = k"; cases "k2 = k") auto
qed

lemma handles_step:
  assumes "ledger_step l l'" "handles_ok l" "lg_handles l' < u32_max"
  shows "handles_ok l'"
  using assms(1)
proof cases
  case (ls_register k n)
  then show ?thesis using assms(3)
    by (intro handles_register [OF assms(2), of l' k n False n]) (auto dest: sat_add_less simp del: One_nat_def)
next
  case ls_skip
  then show ?thesis using assms(3) by (intro handles_sub [OF assms(2)]) (auto dest: sat_add_less simp del: One_nat_def)
qed (intro handles_sub [OF assms(2)]; auto split: if_splits)+

lemma items_sub:
  assumes "items_ok l" "lg_items l' = filter P (lg_items l)" "lg_tokens l' = lg_tokens l"
  shows "items_ok l'"
proof -
  have "filter (\<lambda>x. snd x \<noteq> None) (filter P (lg_items l)) = filter P (filter (\<lambda>x. snd x \<noteq> None) (lg_items l))"
    by (simp add: conj_commute)
  with assms show ?thesis unfolding items_ok_def by (auto simp: distinct_map_filter simp del: filter_filter)
qed

lemma items_step:
  assumes "ledger_step l l'" "items_ok l" "lg_tokens l' < u64_max"
  shows "items_ok l'"
proof -
  have fresh: "items_ok l'" if "lg_items l' = lg_items l @ [(WithdrawalToken (lg_tokens l), r)]"
    "lg_tokens l' = sat_add u64_max (lg_tokens l) 1" "r = None \<or> r \<notin> snd ` set (lg_items l)" for r
  proof -
    have lt: "lg_tokens l' = Suc (lg_tokens l)" using assms(3) that(2) sat_add_less(2) by metis
    have "WithdrawalToken (lg_tokens l) \<notin> fst ` set (lg_items l)" using assms(2) unfolding items_ok_def by force
    with that lt assms(2) show ?thesis unfolding items_ok_def by (fastforce intro: less_SucI)
  qed
  have drop: "items_ok l'" if "lg_items l = as @ (t, r) # bs" "lg_items l' = as @ bs" "lg_tokens l' = lg_tokens l" for as t r bs
    using assms(2) that unfolding items_ok_def by (auto split: if_splits)
  from assms(1) show ?thesis
  proof cases
    case (ls_leave k n h w i)
    then show ?thesis by (intro fresh [of "Some h"]) simp_all
  next
    case ls_detach
    then show ?thesis by (intro fresh [of None]) simp_all
  next
    case (ls_remove k n h w i)
    then show ?thesis by (intro items_sub [OF assms(2), of _ "\<lambda>(t, r). r \<noteq> Some h"]) simp_all
  next
    case (ls_drain_route as t h bs k n w i)
    then show ?thesis by (intro drop [of as t "Some h" bs]) simp_all
  next
    case (ls_drain as t r bs)
    then show ?thesis by (intro drop [of as t r bs]) simp_all
  qed (use assms(2) in \<open>simp_all add: items_ok_def\<close>)
qed

lemma leaving_update:
  assumes "leaving_ok l" "handles_ok l" "lg_routes l k = Some (n, h, w, i)" "lg_routes l' = (lg_routes l)(k \<mapsto> (n', h, w', i'))"
    and "\<And>g. Some g \<in> snd ` set (lg_items l') \<longleftrightarrow> Some g \<in> snd ` set (lg_items l) \<and> (g = h \<longrightarrow> w') \<or> g = h \<and> w'"
  shows "leaving_ok l'"
  unfolding leaving_ok_def
proof
  fix g
  have rest: "(\<exists>k n i. lg_routes l' k = Some (n, g, True, i)) \<longleftrightarrow> (\<exists>k n i. lg_routes l k = Some (n, g, True, i))" if "g \<noteq> h"
  proof
    assume "\<exists>k n i. lg_routes l' k = Some (n, g, True, i)"
    with that assms(4) show "\<exists>k n i. lg_routes l k = Some (n, g, True, i)" by (auto split: if_splits)
  next
    assume "\<exists>k n i. lg_routes l k = Some (n, g, True, i)"
    then obtain k2 n2 i2 where e: "lg_routes l k2 = Some (n2, g, True, i2)" by blast
    with that assms(3) have "k2 \<noteq> k" by auto
    with e assms(4) have "lg_routes l' k2 = Some (n2, g, True, i2)" by simp
    then show "\<exists>k n i. lg_routes l' k = Some (n, g, True, i)" by blast
  qed
  have own: "(\<exists>k n i. lg_routes l' k = Some (n, h, True, i)) \<longleftrightarrow> w'"
  proof -
    have "lg_routes l' k' = Some (n2, h, True, i2) \<longleftrightarrow> k' = k \<and> n2 = n' \<and> i2 = i' \<and> w'" for k' n2 i2
      using handles_apart [OF assms(2,3), of k' n2 True i2] assms(4) by (cases "k' = k") auto
    then show ?thesis by blast
  qed
  show "Some g \<in> snd ` set (lg_items l') \<longleftrightarrow> (\<exists>k n i. lg_routes l' k = Some (n, g, True, i))"
    using assms(1,5) rest own unfolding leaving_ok_def by (cases "g = h") auto
qed

lemma leaving_entry:
  assumes "leaving_ok l" "handles_ok l" "lg_routes l k = Some (n, h, w, i)"
  shows "Some h \<in> snd ` set (lg_items l) \<longleftrightarrow> w"
proof -
  have "lg_routes l k' = Some (n', h, True, i') \<Longrightarrow> w" for k' n' i'
    using handles_apart [OF assms(2,3), of k' n' True i'] assms(3) by auto
  moreover have "Some h \<in> snd ` set (lg_items l) \<longleftrightarrow> (\<exists>k n i. lg_routes l k = Some (n, h, True, i))"
    using assms(1) unfolding leaving_ok_def by blast
  ultimately show ?thesis using assms(3) by (cases w) auto
qed

lemma leaving_drop:
  assumes "leaving_ok l" "handles_ok l" "lg_routes l k = Some (n, h, w, i)" "lg_routes l' = (lg_routes l)(k := None)"
    and "\<And>g. Some g \<in> snd ` set (lg_items l') \<longleftrightarrow> Some g \<in> snd ` set (lg_items l) \<and> g \<noteq> h"
  shows "leaving_ok l'"
  unfolding leaving_ok_def
proof
  fix g
  have "lg_routes l' k' = Some (n', g, True, i') \<longleftrightarrow> lg_routes l k' = Some (n', g, True, i') \<and> g \<noteq> h" for k' n' i'
    using handles_apart [OF assms(2,3), of k' n' True i'] assms(3,4) by (cases "k' = k") auto
  then have "(\<exists>k n i. lg_routes l' k = Some (n, g, True, i)) \<longleftrightarrow> (\<exists>k n i. lg_routes l k = Some (n, g, True, i)) \<and> g \<noteq> h"
    by blast
  then show "Some g \<in> snd ` set (lg_items l') \<longleftrightarrow> (\<exists>k n i. lg_routes l' k = Some (n, g, True, i))"
    using assms(1,5) unfolding leaving_ok_def by simp
qed

lemma leaving_same:
  assumes "leaving_ok l" "lg_routes l' = lg_routes l" "\<And>g. Some g \<in> snd ` set (lg_items l') \<longleftrightarrow> Some g \<in> snd ` set (lg_items l)"
  shows "leaving_ok l'"
  using assms unfolding leaving_ok_def by simp

lemma leaving_step:
  assumes "ledger_step l l'" "leaving_ok l" "handles_ok l" "items_ok l"
  shows "leaving_ok l'"
  using assms(1)
proof cases
  case (ls_register k n)
  have "lg_routes l' k' = Some (n', g, True, i') \<longleftrightarrow> lg_routes l k' = Some (n', g, True, i')" for g k' n' i'
    using ls_register(1,2) by (cases "k' = k") auto
  with assms(2) ls_register(1) show ?thesis unfolding leaving_ok_def by simp
next
  case (ls_rename k n h w i n' i')
  then show ?thesis using leaving_entry [OF assms(2,3) ls_rename(2)]
    by (intro leaving_update [OF assms(2,3) ls_rename(2), of l' n' w i']) auto
next
  case (ls_respell k n h w i i')
  then show ?thesis using leaving_entry [OF assms(2,3) ls_respell(2)]
    by (intro leaving_update [OF assms(2,3) ls_respell(2), of l' n w i']) auto
next
  case (ls_leave k n h w i)
  then show ?thesis by (intro leaving_update [OF assms(2,3) ls_leave(2), of l' n True i]) auto
next
  case (ls_remove k n h w i)
  then show ?thesis by (intro leaving_drop [OF assms(2,3) ls_remove(2)]) force+
next
  case (ls_drain_route as t h bs k n w i)
  have "Some h \<notin> snd ` set as" "Some h \<notin> snd ` set bs"
    using assms(4) ls_drain_route(2) unfolding items_ok_def by (force simp: image_iff)+
  then show ?thesis using ls_drain_route by (intro leaving_drop [OF assms(2,3) ls_drain_route(3)]) auto
next
  case (ls_drain as t r bs)
  have "r = None"
  proof (rule ccontr)
    assume "r \<noteq> None"
    then obtain h where "r = Some h" by blast
    with assms(2) ls_drain(2) obtain k n i where "lg_routes l k = Some (n, h, True, i)" unfolding leaving_ok_def by force
    with ls_drain(3) \<open>r = Some h\<close> show False by blast
  qed
  then show ?thesis using ls_drain by (intro leaving_same [OF assms(2)]) auto
qed (use assms(2) in \<open>simp_all add: leaving_ok_def image_Un\<close>)

lemma ledger_step_ok:
  assumes "ledger_step l l'" "ledger_ok l" "lg_handles l' < u32_max" "lg_tokens l' < u64_max"
  shows "ledger_ok l'"
  using assms names_step handles_step items_step leaving_step unfolding ledger_ok_def by blast

lemma ledger_steps_ok:
  assumes "ledger_steps l l'" "ledger_ok l" "lg_handles l' < u32_max" "lg_tokens l' < u64_max"
  shows "ledger_ok l'"
  using assms
proof (induction rule: rtranclp_induct)
  case (step l1 l2)
  with step_counters [OF step(2)] show ?case using ledger_step_ok by blast
qed

end
