(* ===== verification/ServiceNames.thy ===== *)
theory ServiceNames
  imports ServiceLife
begin

text \<open>
  What a service is called, over its life: only the timer of a defeated service changes its records, and
  only their instance name, to one that is not in use.
\<close>

named_theorems keeps_records "operations that leave the records of a service alone"

lemma records_push_update [keeps_records]: "sv_records (push_update evs u s) = sv_records s"
  by (simp add: push_update_def)

lemma records_eligible [keeps_records]: "sv_records (snd (flood_eligible d s)) = sv_records s"
  by (simp add: flood_eligible_def split: option.split prod.split)

lemma records_restart [keeps_records]: "sv_records (snd (restart_probe_cycle clk now dl rf flood s)) = sv_records s"
  by (simp add: restart_probe_cycle_def Let_def clear_response_cycle_state_def stale_live_commit_token_def)

lemma records_pending [keeps_records]:
  "sv_records (push_pending kind s) = sv_records s" "sv_records (push_lifecycle_pending kind s) = sv_records s"
  "sv_records (snd (pop_pending s)) = sv_records s"
  by (simp_all add: push_pending_def push_lifecycle_pending_def pop_pending_def split: option.split prod.split)

lemma records_checked [keeps_records]: "sv_records (eligibility_checked ev s) = sv_records s"
  by (simp add: eligibility_checked_def keeps_records split: option.split)

lemma records_question [keeps_records]: "sv_records (service_question_event clk draw now sq s) = sv_records s"
  by (simp add: service_question_event_def legacy_meta_question_def multicast_meta_question_def legacy_question_def
      multicast_question_def Let_def split: option.split sum.split prod.split)

lemma records_known_answer [keeps_records]: "sv_records (known_answer_event clk now ka s) = sv_records s"
proof -
  have "sv_records (known_meta_answer clk now ka s) = sv_records s"
    by (simp add: known_meta_answer_def Let_def split: option.split)
  then show ?thesis unfolding known_answer_event_def Let_def
    by (simp add: store_hint_def split: option.split sum.split)
qed

lemma records_conflicts [keeps_records]:
  "sv_records (fst (established_conflict clk draw now pc (s, flood))) = sv_records s"
  "sv_records (fst (host_conflict_event clk evs now hc (s, flood))) = sv_records s"
  "sv_records (snd (handle_probe_proposal pp s)) = sv_records s"
  "sv_records (handle_preauthoritative_conflict pc s) = sv_records s"
  unfolding established_conflict_def host_conflict_event_def handle_probe_proposal_def handle_preauthoritative_conflict_def
    Let_def case_prod_beta prod.case fst_conv
  by (simp_all add: keeps_records split: verdict.split)

lemma records_event: "sv_records (fst (service_handle_event clk draw evs ev now flood s)) = sv_records s"
  unfolding service_handle_event_def Let_def eligibility_checked_def [symmetric]
  by (simp add: case_prod_beta keeps_records split: service_event.split)

lemma records_timer_parts [keeps_records]:
  "sv_records (snd (fire_response now s)) = sv_records s" "sv_records (rearm_parked clk draw now flood s) = sv_records s"
  "sv_records (snd (hold_first_probe clk now flood s)) = sv_records s" "sv_records (fire_lifecycle clk draw now s) = sv_records s"
  by (simp_all add: fire_response_def rearm_parked_def hold_first_probe_def fire_lifecycle_def Let_def case_prod_beta keeps_records
      split: option.split service_state.split)

lemma records_tick [keeps_records]: "sv_records (snd (service_tick clk draw now flood s)) = sv_records s"
  unfolding service_tick_def Let_def case_prod_beta snd_conv by (simp add: keeps_records)

lemma records_transmit: "sv_records (snd (snd (service_poll_transmit now buf s))) = sv_records s"
proof -
  have m: "sv_records (snd (snd (transmit_meta now b t))) = sv_records t" for b and t :: "('a, 'b, 'c) service"
    by (simp add: transmit_meta_def Let_def split: sum.split prod.split option.split)
  have l: "sv_records (snd (snd (transmit_legacy b t))) = sv_records t" for b and t :: "('a, 'b, 'c) service"
    by (simp add: transmit_legacy_def Let_def case_prod_beta split: list.split sum.split)
  have p: "sv_records (snd (snd (transmit_pending now b k t))) = sv_records t" for b k and t :: "('a, 'b, 'c) service"
    by (cases k) (simp_all add: transmit_pending_def Let_def keeps_records split: sum.split prod.split)
  obtain a b1 s1 where s1: "transmit_meta now buf s = (a, b1, s1)" by (cases "transmit_meta now buf s")
  obtain c b2 s2 where s2: "transmit_legacy b1 s1 = (c, b2, s2)" by (cases "transmit_legacy b1 s1")
  have "sv_records s1 = sv_records s" "sv_records s2 = sv_records s1" using m [of buf s] l [of b1 s1] by (simp_all add: s1 s2)
  then show ?thesis by (simp add: service_poll_transmit_def s1 s2 p split: option.split)
qed

lemma records_poll: "sv_records (snd (service_poll evs s)) = sv_records s"
  by (simp add: service_poll_def split: list.split prod.split option.split)

lemma records_quiesce: "sv_records (quiesce_for_withdrawal s) = sv_records s"
  by (simp add: quiesce_for_withdrawal_def clear_response_cycle_state_def)

lemma records_handoff: "sv_records (snd (take_rename_goodbye_handoff s)) = sv_records s"
  by (simp add: take_rename_goodbye_handoff_def)

lemma records_defer: "sv_records (defer_first_probe_under_flood clk now flood s) = sv_records s"
  by (simp add: defer_first_probe_under_flood_def keeps_records split: option.split)

lemma records_arming [keeps_records]:
  "sv_records (arm_announcement clk now adv s) = sv_records s" "sv_records (bump_streak s) = sv_records s"
  "sv_records (arm_on_partial_ladder clk now s) = sv_records s" "sv_records (advance_announcing clk evs now s) = sv_records s"
  "sv_records (snd (classify_announcement now d s)) = sv_records s"
  by (simp_all add: arm_announcement_def bump_streak_def arm_on_partial_ladder_def advance_announcing_def classify_announcement_def
      push_update_def Let_def split: service_state.split prod.split)

lemma records_probe [keeps_records]: "sv_records (settle_probe clk draw now d s) = sv_records s"
proof -
  have "sv_records (settle_last_probe clk now adv t) = sv_records t" for adv and t :: "('a, 'b, 'c) service"
    by (simp add: settle_last_probe_def Let_def keeps_records split: option.split)
  then show ?thesis by (simp add: settle_probe_def Let_def split: service_state.split prod.split)
qed

lemma records_announcement [keeps_records]: "sv_records (settle_announcement clk evs now e d s) = sv_records s"
proof -
  obtain adv s1 where c: "classify_announcement now d s = (adv, s1)" by (cases "classify_announcement now d s")
  have "sv_records s1 = sv_records s" using records_arming(5) [of now d s] by (simp add: c)
  then show ?thesis by (simp add: settle_announcement_def c Let_def keeps_records split: service_state.split)
qed

lemma records_confirm [keeps_records]: "sv_records (settle_confirm clk draw evs now kind d s) = sv_records s"
  by (simp add: settle_confirm_def settle_response_def settle_stale_def settle_old_name_def Let_def keeps_records
      split: awaiting_confirm.split stale_records.split)

lemma records_outcome: "sv_records (snd (service_note_transmit_outcome clk draw evs now v4 v6 s)) = sv_records s"
  by (simp add: service_note_transmit_outcome_def Let_def keeps_records split: option.split prod.split)

lemma records_new: "sv_records (service_try_new clk draw evs handle r now g probe re flood) = r"
  by (simp add: service_try_new_def Let_def split: prod.split)

lemma records_lose_name:
  assumes "lose_name clk draw evs now flood taken s = (out, s')"
  shows "sv_records s' = sv_records s \<or>
     (\<exists>name. sv_records s' = sr_set_instance name (sv_records s) \<and> \<not> holds taken name)"
proof -
  have h: "sv_records (hand_off_goodbye s) = sv_records s" by (simp add: hand_off_goodbye_def)
  have g: "sv_records (give_up_name evs t) = sv_records t" for t :: "('a, 'b, 'c) service"
    by (simp add: give_up_name_def Let_def clear_response_cycle_state_def stale_live_commit_token_def keeps_records)
  have r: "sv_records (snd (rename_to clk draw evs now flood n t)) = sr_set_instance n (sv_records t)" for n and t :: "('a, 'b, 'c) service"
    by (simp add: rename_to_def Let_def case_prod_beta reset_advertised_name_state_def keeps_records)
  obtain attempt chosen where c: "choose_name taken (as_str (sr_instance (sv_records s))) (sv_rename_attempt (hand_off_goodbye s)) = (attempt, chosen)"
    by (cases "choose_name taken (as_str (sr_instance (sv_records s))) (sv_rename_attempt (hand_off_goodbye s))")
  show ?thesis
  proof (cases chosen)
    case None
    with assms c h g show ?thesis by (auto simp: lose_name_def Let_def)
  next
    case (Some name)
    with assms c h have e: "rename_to clk draw evs now flood name ((hand_off_goodbye s)\<lparr>sv_rename_attempt := attempt\<rparr>) = (out, s')"
      by (simp add: lose_name_def Let_def)
    have "sv_records s' = sr_set_instance name (sv_records s)"
      using r [of name "(hand_off_goodbye s)\<lparr>sv_rename_attempt := attempt\<rparr>"] h e by simp
    moreover have "\<not> holds taken name" using rename_search_free c Some unfolding choose_name_def by blast
    ultimately show ?thesis by blast
  qed
qed

lemma records_timeout:
  assumes "service_handle_timeout clk draw evs now flood taken s = (out, s')"
  shows "sv_records s' = sv_records s \<or>
     rename_imminent s \<and> (\<exists>name. sv_records s' = sr_set_instance name (sv_records s) \<and> \<not> holds taken name)"
proof -
  let ?s = "prune_hints now (s\<lparr>sv_last_now := Some now\<rparr>)"
  have p: "sv_records ?s = sv_records s" "sv_probe_defeated ?s = sv_probe_defeated s" by (simp_all add: prune_hints_def)
  show ?thesis
  proof (cases "conflict_classified_unresolved ?s \<and> sv_probe_defeated ?s")
    case True
    then have "lose_name clk draw evs now flood taken (?s\<lparr>sv_probe_defeated := False, sv_tiebreak_lost := False\<rparr>) = (out, s')"
      using assms by (simp add: service_handle_timeout_def Let_def)
    from records_lose_name [OF this] True p show ?thesis by (simp add: rename_imminent_def)
  next
    case False
    then consider "restart_probe_cycle clk now (cadd clk now TIEBREAK_DEFER_WAIT) None flood (?s\<lparr>sv_probe_defeated := False, sv_tiebreak_lost := False\<rparr>) = (out, s')"
      | "service_tick clk draw now flood (?s\<lparr>sv_probe_defeated := False, sv_tiebreak_lost := False\<rparr>) = (out, s')"
      | "service_tick clk draw now flood ?s = (out, s')"
      using assms by (auto simp: service_handle_timeout_def Let_def split: if_splits)
    then have "sv_records s' = sv_records ?s"
      by cases (auto dest!: arg_cong [of _ "(out, s')" "\<lambda>x. sv_records (snd x)"] simp: keeps_records)
    with p show ?thesis by simp
  qed
qed

end
