(* ===== verification/WithdrawalLife.thy ===== *)
theory WithdrawalLife
  imports RouteLife
begin

text \<open>
  Goodbyes end: past its ceiling every withdrawal has one last attempt and is then drained, its route with
  it; and a goodbye never names an address that a live service on the same host still advertises.
\<close>

subsection \<open>Frames\<close>

lemma retain_frame [simp]:
  "ep_withdrawals (retain_relinquished clk records emitted now ep) = ep_withdrawals ep"
  "ep_services (retain_relinquished clk records emitted now ep) = ep_services ep"
  "ep_config (retain_relinquished clk records emitted now ep) = ep_config ep"
  "ep_next_service_handle (retain_relinquished clk records emitted now ep) = ep_next_service_handle ep"
  "ep_next_withdrawal_token (retain_relinquished clk records emitted now ep) = ep_next_withdrawal_token ep"
  "ep_queries (retain_relinquished clk records emitted now ep) = ep_queries ep"
  by (auto simp: retain_relinquished_def retain_relinquished_identities_def Let_def split: option.splits)

lemma map_withdrawal_simps [simp]:
  "ep_services (map_withdrawal idx f ep) = ep_services ep"
  "ep_config (map_withdrawal idx f ep) = ep_config ep"
  "ep_next_service_handle (map_withdrawal idx f ep) = ep_next_service_handle ep"
  "ep_next_withdrawal_token (map_withdrawal idx f ep) = ep_next_withdrawal_token ep"
  "ep_queries (map_withdrawal idx f ep) = ep_queries ep"
  by (auto simp: map_withdrawal_def split: option.splits)

text \<open>The parts an operation on a withdrawal leaves alone: its token, route and what it says.\<close>

definition item_head :: "'i withdrawal_item \<Rightarrow> _" where
  "item_head w = (wi_records w, wi_owned w, wi_multicast w, wi_ceiling_at w, wi_route w, wi_holds_name w)"

definition heads :: "(withdrawal_token \<times> 'i withdrawal_item) list \<Rightarrow> _" where
  "heads ws = map (\<lambda>(t, w). (t, item_head w)) ws"

lemma heads_tokens: "heads ws = heads ws' \<Longrightarrow> map fst ws = map fst ws'"
  by (auto simp: heads_def dest: arg_cong [of _ _ "map fst"] simp: comp_def split_beta)

lemma heads_update: "idx < length ws \<Longrightarrow> item_head (f (snd (ws ! idx))) = item_head (snd (ws ! idx)) \<Longrightarrow>
    heads (ws[idx := (fst (ws ! idx), f (snd (ws ! idx)))]) = heads ws"
  by (simp add: heads_def map_update list_update_same_conv split_beta)

lemma map_withdrawal_heads:
  assumes "\<And>w. item_head (f w) = item_head w"
  shows "heads (ep_withdrawals (map_withdrawal idx f ep)) = heads (ep_withdrawals ep)"
  using heads_update [of idx "ep_withdrawals ep" f] assms
  by (cases "idx < length (ep_withdrawals ep)") (simp_all add: map_withdrawal_def get_def split_beta)

subsection \<open>One round of sending\<close>

text \<open>What a poll may change: the schedule and the debt of an item.\<close>

lemma round_frame:
  assumes "withdrawal_round clk srv now scratch ep = (r, scratch', ep')"
  shows "heads (ep_withdrawals ep') = heads (ep_withdrawals ep) \<and> ep_services ep' = ep_services ep \<and>
     ep_next_service_handle ep' = ep_next_service_handle ep \<and> ep_next_withdrawal_token ep' = ep_next_withdrawal_token ep"
proof -
  have h: "heads (ep_withdrawals (map_withdrawal idx (\<lambda>w. w\<lparr>wi_owed := (0, 0)\<rparr>) ep)) = heads (ep_withdrawals ep)"
    "heads (ep_withdrawals (map_withdrawal idx (\<lambda>w. w\<lparr>wi_final_attempt := True\<rparr>) ep)) = heads (ep_withdrawals ep)"
    "heads (ep_withdrawals (advance_after_encode_failure clk idx now fin ep)) = heads (ep_withdrawals ep)" for idx fin
    unfolding advance_after_encode_failure_def by (rule map_withdrawal_heads; simp add: item_head_def split: option.split)+
  have s: "ep_services (advance_after_encode_failure clk idx now fin ep) = ep_services ep"
    "ep_next_service_handle (advance_after_encode_failure clk idx now fin ep) = ep_next_service_handle ep"
    "ep_next_withdrawal_token (advance_after_encode_failure clk idx now fin ep) = ep_next_withdrawal_token ep" for idx fin
    by (simp_all add: advance_after_encode_failure_def)
  from assms show ?thesis
    by (auto simp: withdrawal_round_def Let_def h s split: option.splits prod.splits if_splits sum.splits)
qed

lemma poll_frame:
  "poll_withdrawal_transmit clk srv now scratch ep = (t, scratch', ep') \<Longrightarrow>
     heads (ep_withdrawals ep') = heads (ep_withdrawals ep) \<and> ep_services ep' = ep_services ep \<and>
     ep_next_service_handle ep' = ep_next_service_handle ep \<and> ep_next_withdrawal_token ep' = ep_next_withdrawal_token ep"
proof (induction clk srv now scratch ep arbitrary: t scratch' ep' rule: poll_withdrawal_transmit.induct)
  case (1 clk srv now scratch ep)
  obtain r s1 e1 where r: "withdrawal_round clk srv now scratch ep = (r, s1, e1)" by (cases "withdrawal_round clk srv now scratch ep")
  note f = round_frame [OF r]
  show ?case
  proof (cases r)
    case (Inl a)
    with 1(2) r f show ?thesis by (simp add: poll_withdrawal_transmit.simps [of clk srv now scratch])
  next
    case (Inr u)
    with 1(2) r have "poll_withdrawal_transmit clk srv now s1 e1 = (t, scratch', ep')"
      by (simp add: poll_withdrawal_transmit.simps [of clk srv now scratch])
    from 1(1) [OF r [symmetric] Inr refl this] f show ?thesis by simp
  qed
qed

subsection \<open>Past the ceiling\<close>

definition past_ceiling :: "'i :: linorder \<Rightarrow> (withdrawal_token \<times> 'i withdrawal_item) list \<Rightarrow> bool" where
  "past_ceiling now ws \<longleftrightarrow> (\<forall>(_, w)\<in>set ws. wi_ceiling_at w \<le> now)"

lemma heads_set: "heads ws = heads ws' \<Longrightarrow> (t, w) \<in> set ws' \<Longrightarrow> \<exists>w'. (t, w') \<in> set ws \<and> item_head w' = item_head w"
proof -
  assume h: "heads ws = heads ws'" and m: "(t, w) \<in> set ws'"
  from m have "(t, item_head w) \<in> set (heads ws')" by (auto simp: heads_def intro: rev_image_eqI)
  then have "(t, item_head w) \<in> set (heads ws)" by (simp add: h)
  then show ?thesis by (auto simp: heads_def)
qed

lemma past_ceiling_heads: "heads ws = heads ws' \<Longrightarrow> past_ceiling now ws \<Longrightarrow> past_ceiling now ws'"
  unfolding past_ceiling_def by (fastforce dest: heads_set simp: item_head_def)

lemma due_past: "past_ceiling now ws \<Longrightarrow> (t, w) \<in> set ws \<Longrightarrow> withdrawal_due now w = Some fin \<Longrightarrow> fin"
  by (auto simp: past_ceiling_def withdrawal_due_def not_less split: if_splits)

lemma not_due_complete: "past_ceiling now ws \<Longrightarrow> (t, w) \<in> set ws \<Longrightarrow> withdrawal_due now w = None \<longleftrightarrow> withdrawal_complete now w"
  by (auto simp: past_ceiling_def withdrawal_due_def withdrawal_complete_def split: if_splits)

lemma round_past:
  assumes "withdrawal_round clk srv now scratch ep = (Inl t, scratch', ep')" "past_ceiling now (ep_withdrawals ep)"
  shows "case t of None \<Rightarrow> ep' = ep \<and> (\<forall>(_, w)\<in>set (ep_withdrawals ep). withdrawal_complete now w)
     | Some _ \<Rightarrow> due_count now (ep_withdrawals ep') < due_count now (ep_withdrawals ep)"
proof (cases "first_due now 0 (ep_withdrawals ep)")
  case None
  with assms have "t = None" "ep' = ep" by (simp_all add: withdrawal_round_def)
  with None assms(2) show ?thesis by (auto simp: first_due_None not_due_complete)
next
  case (Some p)
  obtain idx token route fin where p: "p = (idx, token, route, fin)" by (cases p)
  from first_due_Some [OF Some [unfolded p]] obtain w
    where w: "idx < length (ep_withdrawals ep)" "ep_withdrawals ep ! idx = (token, w)" "withdrawal_due now w = Some fin"
    by (cases "ep_withdrawals ep ! idx") auto
  then have "(token, w) \<in> set (ep_withdrawals ep)" by (metis nth_mem)
  with due_past [OF assms(2)] w(3) have fin by blast
  with assms(1) Some p w have "t \<noteq> None" "ep' = map_withdrawal idx (\<lambda>w. w\<lparr>wi_final_attempt := True\<rparr>) ep"
    by (auto simp: withdrawal_round_def get_def Let_def split: if_splits prod.splits sum.splits)
  moreover have "withdrawal_due now (w\<lparr>wi_final_attempt := True\<rparr>) = None"
    using w(3) \<open>fin\<close> by (auto simp: withdrawal_due_def split: if_splits)
  ultimately show ?thesis
    using due_count_update [of idx "ep_withdrawals ep" now "w\<lparr>wi_final_attempt := True\<rparr>" token] w
    by (auto simp: map_withdrawal_def get_def)
qed

lemma poll_past:
  "poll_withdrawal_transmit clk srv now scratch ep = (t, scratch', ep') \<Longrightarrow> past_ceiling now (ep_withdrawals ep) \<Longrightarrow>
     (case t of None \<Rightarrow> \<forall>(_, w)\<in>set (ep_withdrawals ep'). withdrawal_complete now w
      | Some _ \<Rightarrow> due_count now (ep_withdrawals ep') < due_count now (ep_withdrawals ep))"
proof (induction clk srv now scratch ep arbitrary: t scratch' ep' rule: poll_withdrawal_transmit.induct)
  case (1 clk srv now scratch ep)
  obtain r s1 e1 where r: "withdrawal_round clk srv now scratch ep = (r, s1, e1)" by (cases "withdrawal_round clk srv now scratch ep")
  show ?case
  proof (cases r)
    case (Inl a)
    with 1(2) r have "a = t" "e1 = ep'" by (simp_all add: poll_withdrawal_transmit.simps [of clk srv now scratch])
    with round_past [OF r [unfolded Inl] 1(3)] show ?thesis by (auto split: option.splits)
  next
    case (Inr u)
    with 1(2) r have p: "poll_withdrawal_transmit clk srv now s1 e1 = (t, scratch', ep')"
      by (simp add: poll_withdrawal_transmit.simps [of clk srv now scratch])
    have past: "past_ceiling now (ep_withdrawals e1)"
      by (rule past_ceiling_heads [OF _ 1(3)]) (use round_frame [OF r] in simp)
    have "due_count now (ep_withdrawals e1) < due_count now (ep_withdrawals ep)" using round_due_count r Inr by simp
    with 1(1) [OF r [symmetric] Inr refl p past] show ?thesis by (auto split: option.splits)
  qed
qed

subsection \<open>Draining\<close>

lemma position_found: "position P xs = Some n \<Longrightarrow> n < length xs \<and> P (xs ! n)"
  using nth_length_takeWhile [of "\<lambda>x. \<not> P x" xs] by (auto simp: position_def Let_def split: if_splits)

lemma position_absent: "position P xs = None \<longleftrightarrow> (\<forall>x\<in>set xs. \<not> P x)"
proof -
  have "length (takeWhile (\<lambda>x. \<not> P x) xs) < length xs \<longleftrightarrow> (\<exists>x\<in>set xs. P x)" by (induction xs) auto
  then show ?thesis by (auto simp: position_def Let_def)
qed

lemma remove_token:
  assumes "distinct (map fst ws)" "position (\<lambda>(t, _). t = token) ws = Some pos"
  shows "take pos ws @ drop (Suc pos) ws = filter (\<lambda>(t, _). t \<noteq> token) ws"
proof -
  from position_found [OF assms(2)] have pos: "pos < length ws" "fst (ws ! pos) = token" by (auto split: prod.splits)
  let ?P = "\<lambda>(t, _). t \<noteq> token"
  have f: "filter ?P xs = xs" if "token \<notin> fst ` set xs" for xs using that by (force intro!: filter_True)
  have s: "ws = take pos ws @ ws ! pos # drop (Suc pos) ws" using pos(1) by (simp add: id_take_nth_drop)
  then have d: "distinct (map fst (take pos ws @ ws ! pos # drop (Suc pos) ws))" using assms(1) by simp
  then have "filter ?P (take pos ws) = take pos ws" "filter ?P (drop (Suc pos) ws) = drop (Suc pos) ws"
    by (intro f; use pos(2) in auto)+
  then have "filter ?P (take pos ws @ ws ! pos # drop (Suc pos) ws) = take pos ws @ drop (Suc pos) ws"
    using pos(2) by (simp add: split_beta)
  with s show ?thesis by simp
qed

lemma distinct_filter_fst: "distinct (map fst ws) \<Longrightarrow> distinct (map fst (filter P ws))"
  by (rule distinct_map_filter)

text \<open>A pass of the loop: the item goes, and with it the route it stands for.\<close>

lemma drain_one_withdrawals:
  assumes "distinct (map fst (ep_withdrawals ep))"
  shows "ep_withdrawals (fst (drain_one clk srv now token (ep, out))) = filter (\<lambda>(t, _). t \<noteq> token) (ep_withdrawals ep)"
proof (cases "position (\<lambda>(t, _). t = token) (ep_withdrawals ep)")
  case None
  then have "filter (\<lambda>(t, _). t \<noteq> token) (ep_withdrawals ep) = ep_withdrawals ep"
    by (auto simp: position_absent intro!: filter_True)
  with None show ?thesis by (simp add: drain_one_def)
next
  case (Some pos)
  with remove_token [OF assms Some] show ?thesis by (simp add: drain_one_def Let_def split: option.split)
qed

lemma drain_tokens:
  assumes "distinct (map fst (ep_withdrawals ep))"
  shows "ep_withdrawals (fst (foldl (\<lambda>p token. drain_one clk srv now token p) (ep, out) tokens)) =
     filter (\<lambda>(t, _). t \<notin> set tokens) (ep_withdrawals ep)"
  using assms
proof (induction tokens arbitrary: ep out)
  case (Cons token tokens)
  obtain ep1 out1 where o: "drain_one clk srv now token (ep, out) = (ep1, out1)" by (cases "drain_one clk srv now token (ep, out)")
  have e: "ep_withdrawals ep1 = filter (\<lambda>(t, _). t \<noteq> token) (ep_withdrawals ep)"
    using drain_one_withdrawals [OF Cons.prems, of clk srv now token out] o by simp
  have "distinct (map fst (ep_withdrawals ep1))" using distinct_filter_fst [OF Cons.prems] by (simp add: e)
  from Cons.IH [OF this, of out1] show ?case by (simp add: o e split_beta)
qed simp

lemma drained_withdrawals:
  assumes "distinct (map fst (ep_withdrawals ep))"
  shows "ep_withdrawals (fst (drain_completed_withdrawals clk srv now ep)) =
     filter (\<lambda>(_, w). \<not> withdrawal_complete now w) (ep_withdrawals ep)"
proof -
  let ?ws = "ep_withdrawals ep"
  have "t \<notin> fst ` set (filter (\<lambda>(_, w). withdrawal_complete now w) ?ws) \<longleftrightarrow> \<not> withdrawal_complete now w" if "(t, w) \<in> set ?ws" for t w
    using that assms eq_key_imp_eq_value by (fastforce simp: image_iff)
  then show ?thesis unfolding drain_completed_withdrawals_def Let_def drain_tokens [OF assms]
    by (intro filter_cong) auto
qed

subsection \<open>Routes and handles\<close>

definition unique_handles :: "('i, 'g, 'ev, 'sp, 'se) route_pool \<Rightarrow> ('i, 'r, 'c, 'sp, 'qp, 'ep) endpoint \<Rightarrow> bool" where
  "unique_handles srv ep \<longleftrightarrow> (\<forall>k k' r r'. routes srv ep k = Some r \<longrightarrow> routes srv ep k' = Some r' \<longrightarrow>
     rt_handle r = rt_handle r' \<longrightarrow> k = k')"

lemma service_key_Some:
  assumes "services_ok srv pinv ep" "service_key srv h ep = Some k"
  shows "\<exists>route. routes srv ep k = Some route \<and> rt_handle route = h"
proof -
  from assms(2) obtain route where "(k, route) \<in> set (pl_iter srv (ep_services ep))" "rt_handle route = h"
    by (auto simp: service_key_def first_key_def find_Some_iff in_set_conv_nth) (metis fst_conv snd_conv surj_pair)
  with route_mem [OF assms(1)] show ?thesis by blast
qed

lemma service_key_None:
  assumes "services_ok srv pinv ep" "service_key srv h ep = None"
  shows "routes srv ep k = Some route \<Longrightarrow> rt_handle route \<noteq> h"
  using assms(2) route_mem [OF assms(1), of k route] by (auto simp: service_key_def first_key_def find_None_iff)

lemma service_key_iff:
  assumes "services_ok srv pinv ep" "unique_handles srv ep"
  shows "service_key srv h ep = Some k \<longleftrightarrow> (\<exists>route. routes srv ep k = Some route \<and> rt_handle route = h)"
proof
  assume "\<exists>route. routes srv ep k = Some route \<and> rt_handle route = h"
  then obtain route where r: "routes srv ep k = Some route" "rt_handle route = h" by blast
  then obtain k' where k': "service_key srv h ep = Some k'"
    using service_key_None [OF assms(1), of h] by (cases "service_key srv h ep") blast+
  with service_key_Some [OF assms(1) k'] r assms(2) show "service_key srv h ep = Some k" unfolding unique_handles_def by metis
qed (rule service_key_Some [OF assms(1)])

text \<open>The route of a drained withdrawal goes; the others stay as they are.\<close>

definition without_handles :: "service_handle set \<Rightarrow> ('k \<Rightarrow> ('i, 'g, 'ev) service_route option) \<Rightarrow> 'k \<Rightarrow> ('i, 'g, 'ev) service_route option" where
  "without_handles hs m k = (case m k of Some route \<Rightarrow> if rt_handle route \<in> hs then None else Some route | None \<Rightarrow> None)"

lemma without_handles_simps [simp]:
  "without_handles {} m = m" "without_handles hs (without_handles hs' m) = without_handles (hs \<union> hs') m"
  by (auto simp: without_handles_def fun_eq_iff split: option.split)

lemma remove_service:
  assumes "services_ok srv pinv ep" "unique_handles srv ep"
    and ep'_def: "ep' = (case service_key srv h ep of Some k \<Rightarrow> ep\<lparr>ep_services := snd (pl_remove srv (ep_services ep) k)\<rparr> | None \<Rightarrow> ep)"
  shows "services_ok srv pinv ep'" "routes srv ep' = without_handles {h} (routes srv ep)" "ep_withdrawals ep' = ep_withdrawals ep"
    "ep_next_service_handle ep' = ep_next_service_handle ep" "ep_next_withdrawal_token ep' = ep_next_withdrawal_token ep"
proof -
  have "services_ok srv pinv ep' \<and> routes srv ep' = without_handles {h} (routes srv ep) \<and> ep_withdrawals ep' = ep_withdrawals ep \<and>
    ep_next_service_handle ep' = ep_next_service_handle ep \<and> ep_next_withdrawal_token ep' = ep_next_withdrawal_token ep"
  proof (cases "service_key srv h ep")
    case None
    have "routes srv ep = without_handles {h} (routes srv ep)"
      using service_key_None [OF assms(1) None] by (force simp: without_handles_def fun_eq_iff split: option.split)
    with None assms(1) show ?thesis by (simp add: ep'_def)
  next
    case (Some k)
    from service_key_Some [OF assms(1) Some] obtain route where r: "routes srv ep k = Some route" "rt_handle route = h" by blast
    obtain x p where p: "pl_remove srv (ep_services ep) k = (x, p)" by (cases "pl_remove srv (ep_services ep) k")
    from pool.remove_map [OF services_okD [OF assms(1)] p]
    have m: "pinv p" "pmap srv p = (routes srv ep)(k := None)" by simp_all
    have "(routes srv ep)(k := None) = without_handles {h} (routes srv ep)"
      using assms(2) r unfolding unique_handles_def by (force simp: without_handles_def fun_eq_iff split: option.split)
    with m Some p services_okD(1) [OF assms(1)] show ?thesis by (simp add: ep'_def services_ok_def)
  qed
  then show "services_ok srv pinv ep'" "routes srv ep' = without_handles {h} (routes srv ep)" "ep_withdrawals ep' = ep_withdrawals ep"
    "ep_next_service_handle ep' = ep_next_service_handle ep" "ep_next_withdrawal_token ep' = ep_next_withdrawal_token ep" by blast+
qed

lemma unique_without: "unique_handles srv ep \<Longrightarrow> routes srv ep' = without_handles hs (routes srv ep) \<Longrightarrow> unique_handles srv ep'"
  unfolding unique_handles_def by (auto simp: without_handles_def split: option.splits if_splits)

text \<open>The handles of the routes that the given items stand for.\<close>

definition item_routes :: "(withdrawal_token \<times> 'i withdrawal_item) list \<Rightarrow> service_handle set" where
  "item_routes ws = {h. \<exists>t w. (t, w) \<in> set ws \<and> wi_route w = Some h}"

lemma item_routes_simps [simp]:
  "item_routes [] = {}"
  "item_routes ((t, w) # ws) = (case wi_route w of Some h \<Rightarrow> insert h (item_routes ws) | None \<Rightarrow> item_routes ws)"
  by (auto simp: item_routes_def split: option.split)

lemma heads_item_routes_subset: "heads ws = heads ws' \<Longrightarrow> item_routes ws' \<subseteq> item_routes ws"
proof
  fix h assume h: "heads ws = heads ws'" and "h \<in> item_routes ws'"
  then obtain t w where w: "(t, w) \<in> set ws'" "wi_route w = Some h" by (auto simp: item_routes_def)
  from heads_set [OF h w(1)] obtain w' where "(t, w') \<in> set ws" "item_head w' = item_head w" by blast
  with w(2) show "h \<in> item_routes ws" by (auto simp: item_routes_def item_head_def intro!: exI [of _ t] exI [of _ w'])
qed

lemma heads_item_routes: "heads ws = heads ws' \<Longrightarrow> item_routes ws = item_routes ws'"
  by (intro subset_antisym heads_item_routes_subset) simp_all

lemma drain_one_routes:
  assumes "services_ok srv pinv ep" "unique_handles srv ep" "distinct (map fst (ep_withdrawals ep))"
    and "drain_one clk srv now token (ep, out) = (ep', out')"
  shows "\<exists>new. services_ok srv pinv ep' \<and> routes srv ep' = without_handles (set new) (routes srv ep) \<and> out' = out @ new \<and>
     set new = item_routes (filter (\<lambda>(t, _). t = token) (ep_withdrawals ep))"
proof (cases "position (\<lambda>(t, _). t = token) (ep_withdrawals ep)")
  case None
  then have "filter (\<lambda>(t, _). t = token) (ep_withdrawals ep) = []" by (auto simp: position_absent filter_empty_conv)
  with None assms(1,4) show ?thesis by (intro exI [of _ "[]"]) (simp add: drain_one_def)
next
  case pos: (Some pos)
  define item where "item = snd (ep_withdrawals ep ! pos)"
  define ep1 where "ep1 = retain_relinquished clk (wi_records item) (wi_multicast item) now
      (ep\<lparr>ep_withdrawals := take pos (ep_withdrawals ep) @ drop (Suc pos) (ep_withdrawals ep)\<rparr>)"
  have e1: "ep_services ep1 = ep_services ep" by (simp add: ep1_def)
  then have ok: "services_ok srv pinv ep1" "unique_handles srv ep1" using assms(1,2) by (simp_all add: services_ok_def unique_handles_def)
  have m: "(token, item) \<in> set (ep_withdrawals ep)"
    using position_found [OF pos] by (cases "ep_withdrawals ep ! pos") (auto simp: item_def in_set_conv_nth)
  then have i: "item_routes (filter (\<lambda>(t, _). t = token) (ep_withdrawals ep)) = set_option (wi_route item)"
    using eq_key_imp_eq_value [OF assms(3)] by (auto simp: item_routes_def)
  show ?thesis
  proof (cases "wi_route item")
    case None
    with pos assms(4) have "ep' = ep1" "out' = out" by (simp_all add: drain_one_def Let_def item_def ep1_def)
    with ok(1) e1 None i show ?thesis by (intro exI [of _ "[]"]) simp
  next
    case (Some h)
    define ep2 where "ep2 = (case service_key srv h ep1 of Some k \<Rightarrow> ep1\<lparr>ep_services := snd (pl_remove srv (ep_services ep1) k)\<rparr> | None \<Rightarrow> ep1)"
    have d: "drain_one clk srv now token (ep, out) = (ep2, out @ [h])"
      unfolding ep2_def using pos Some by (simp add: drain_one_def Let_def item_def ep1_def split: option.split)
    with assms(4) have "ep' = ep2" "out' = out @ [h]" by simp_all
    with remove_service(1,2) [OF ok ep2_def] e1 Some i show ?thesis by (intro exI [of _ "[h]"]) simp
  qed
qed

lemma drain_routes:
  assumes "services_ok srv pinv ep" "unique_handles srv ep" "distinct (map fst (ep_withdrawals ep))"
    and "foldl (\<lambda>p token. drain_one clk srv now token p) (ep, out) tokens = (ep', out')"
  shows "\<exists>new. services_ok srv pinv ep' \<and> routes srv ep' = without_handles (set new) (routes srv ep) \<and> out' = out @ new \<and>
     set new = item_routes (filter (\<lambda>(t, _). t \<in> set tokens) (ep_withdrawals ep))"
  using assms
proof (induction tokens arbitrary: ep out)
  case Nil
  then show ?case by (intro exI [of _ "[]"]) simp
next
  case (Cons token tokens)
  obtain ep1 out1 where o: "drain_one clk srv now token (ep, out) = (ep1, out1)" by (cases "drain_one clk srv now token (ep, out)")
  from drain_one_routes [OF Cons.prems(1-3) o] obtain new1 where n1: "services_ok srv pinv ep1"
    "routes srv ep1 = without_handles (set new1) (routes srv ep)" "out1 = out @ new1"
    "set new1 = item_routes (filter (\<lambda>(t, _). t = token) (ep_withdrawals ep))" by blast
  have w: "ep_withdrawals ep1 = filter (\<lambda>(t, _). t \<noteq> token) (ep_withdrawals ep)"
    using drain_one_withdrawals [OF Cons.prems(3), of clk srv now token out] o by simp
  then have d: "distinct (map fst (ep_withdrawals ep1))" using distinct_filter_fst [OF Cons.prems(3)] by simp
  have f: "foldl (\<lambda>p token. drain_one clk srv now token p) (ep1, out1) tokens = (ep', out')" using Cons.prems(4) by (simp add: o)
  from Cons.IH [OF n1(1) unique_without [OF Cons.prems(2) n1(2)] d f] obtain new2 where n2: "services_ok srv pinv ep'"
    "routes srv ep' = without_handles (set new2) (routes srv ep1)" "out' = out1 @ new2"
    "set new2 = item_routes (filter (\<lambda>(t, _). t \<in> set tokens) (ep_withdrawals ep1))" by blast
  have "item_routes (filter (\<lambda>(t, _). t \<in> set (token # tokens)) (ep_withdrawals ep)) = set new1 \<union> set new2"
    unfolding n1(4) n2(4) w by (auto simp: item_routes_def)
  with n1 n2 show ?case by (intro exI [of _ "new1 @ new2"]) (simp add: Un_commute)
qed

fun withdrawal_polls :: "nat \<Rightarrow> 'i :: linorder clock \<Rightarrow> ('i, 'g, 'ev, 'sp, 'se) route_pool \<Rightarrow> 'i \<Rightarrow>
    bytes \<times> ('i, 'r, 'c, 'sp, 'qp, 'ep) endpoint \<Rightarrow> bytes \<times> ('i, 'r, 'c, 'sp, 'qp, 'ep) endpoint" where
  "withdrawal_polls 0 clk srv now p = p"
| "withdrawal_polls (Suc n) clk srv now p = withdrawal_polls n clk srv now (snd (poll_withdrawal_transmit clk srv now (fst p) (snd p)))"

lemma polls_past:
  assumes "past_ceiling now (ep_withdrawals ep)"
  shows "\<exists>n\<le>due_count now (ep_withdrawals ep). \<exists>scratch' ep'. withdrawal_polls (Suc n) clk srv now (scratch, ep) = (scratch', ep') \<and>
     heads (ep_withdrawals ep') = heads (ep_withdrawals ep) \<and> ep_services ep' = ep_services ep \<and>
     (\<forall>(_, w)\<in>set (ep_withdrawals ep'). withdrawal_complete now w)"
  using assms
proof (induction "due_count now (ep_withdrawals ep)" arbitrary: scratch ep rule: less_induct)
  case less
  obtain t s1 e1 where p: "poll_withdrawal_transmit clk srv now scratch ep = (t, s1, e1)" by (cases "poll_withdrawal_transmit clk srv now scratch ep")
  note f = poll_frame [OF p] and c = poll_past [OF p less.prems]
  show ?case
  proof (cases t)
    case None
    with p f c show ?thesis by (intro exI [of _ 0]) simp
  next
    case (Some a)
    with c have lt: "due_count now (ep_withdrawals e1) < due_count now (ep_withdrawals ep)" by simp
    have "past_ceiling now (ep_withdrawals e1)" by (rule past_ceiling_heads [OF _ less.prems]) (use f in simp)
    from less.hyps [OF lt this, of s1] obtain n s2 e2 where n: "n \<le> due_count now (ep_withdrawals e1)"
      "withdrawal_polls (Suc n) clk srv now (s1, e1) = (s2, e2)" "heads (ep_withdrawals e2) = heads (ep_withdrawals e1)"
      "ep_services e2 = ep_services e1" "\<forall>(_, w)\<in>set (ep_withdrawals e2). withdrawal_complete now w" by blast
    have "withdrawal_polls (Suc (Suc n)) clk srv now (scratch, ep) = (s2, e2)"
      using n(2) p by (simp only: withdrawal_polls.simps fst_conv snd_conv)
    with n lt f show ?thesis by (intro exI [of _ "Suc n"]) simp
  qed
qed

text \<open>
  C8. A withdrawal ends: once the time is past every ceiling, as many polls as there are withdrawals and one
  more are enough, and the drain after them leaves none, reports exactly the services that were leaving,
  and removes their routes and no other.
\<close>
theorem withdrawals_end:
  assumes "pool srv pinv" "pinv (ep_services ep)" "distinct (map fst (ep_withdrawals ep))"
    and "\<forall>k k' r r'. pmap srv (ep_services ep) k = Some r \<longrightarrow> pmap srv (ep_services ep) k' = Some r' \<longrightarrow> rt_handle r = rt_handle r' \<longrightarrow> k = k'"
    and "\<forall>(_, w)\<in>set (ep_withdrawals ep). wi_ceiling_at w \<le> now"
  shows "\<exists>n\<le>length (ep_withdrawals ep). \<exists>scratch' ep1 ep' out. withdrawal_polls (Suc n) clk srv now (scratch, ep) = (scratch', ep1) \<and>
     drain_completed_withdrawals clk srv now ep1 = (ep', out) \<and> ep_withdrawals ep' = [] \<and>
     set out = {h. \<exists>t w. (t, w) \<in> set (ep_withdrawals ep) \<and> wi_route w = Some h} \<and>
     (\<forall>k. pmap srv (ep_services ep') k =
       (case pmap srv (ep_services ep) k of Some r \<Rightarrow> if rt_handle r \<in> set out then None else Some r | None \<Rightarrow> None))"
proof -
  have ok: "services_ok srv pinv ep" "unique_handles srv ep" "past_ceiling now (ep_withdrawals ep)"
    using assms by (simp_all add: services_ok_def unique_handles_def past_ceiling_def)
  from polls_past [OF ok(3), of clk srv scratch] obtain n s1 ep1 where n: "n \<le> due_count now (ep_withdrawals ep)"
    "withdrawal_polls (Suc n) clk srv now (scratch, ep) = (s1, ep1)" "heads (ep_withdrawals ep1) = heads (ep_withdrawals ep)"
    "ep_services ep1 = ep_services ep" "\<forall>(_, w)\<in>set (ep_withdrawals ep1). withdrawal_complete now w" by blast
  have ok1: "services_ok srv pinv ep1" "unique_handles srv ep1" "distinct (map fst (ep_withdrawals ep1))"
    using ok n(4) heads_tokens [OF n(3)] assms(3) by (simp_all add: services_ok_def unique_handles_def)
  obtain ep' out where d: "drain_completed_withdrawals clk srv now ep1 = (ep', out)" by (cases "drain_completed_withdrawals clk srv now ep1")
  have "ep_withdrawals ep' = filter (\<lambda>(_, w). \<not> withdrawal_complete now w) (ep_withdrawals ep1)"
    using drained_withdrawals [OF ok1(3), of clk srv now] d by simp
  then have none: "ep_withdrawals ep' = []" using n(5) by (auto simp: filter_empty_conv)
  have all: "filter (\<lambda>(t, _). t \<in> set (map fst (filter (\<lambda>(_, w). withdrawal_complete now w) (ep_withdrawals ep1)))) (ep_withdrawals ep1) =
      ep_withdrawals ep1" using n(5) by (intro filter_True) force
  from drain_routes [OF ok1 d [unfolded drain_completed_withdrawals_def Let_def], unfolded all] have
    out: "set out = item_routes (ep_withdrawals ep1)" "routes srv ep' = without_handles (set out) (routes srv ep1)" by auto
  have "item_routes (ep_withdrawals ep1) = item_routes (ep_withdrawals ep)" by (rule heads_item_routes [OF n(3)])
  then have "set out = {h. \<exists>t w. (t, w) \<in> set (ep_withdrawals ep) \<and> wi_route w = Some h}" using out(1) by (simp add: item_routes_def)
  moreover have "n \<le> length (ep_withdrawals ep)" using n(1) by (simp add: due_count_def le_trans [OF _ length_filter_le])
  moreover have "\<forall>k. pmap srv (ep_services ep') k =
       (case pmap srv (ep_services ep) k of Some r \<Rightarrow> if rt_handle r \<in> set out then None else Some r | None \<Rightarrow> None)"
    using out(2) n(4) by (simp add: without_handles_def)
  ultimately show ?thesis using n(2) d none by (intro exI conjI)
qed

text \<open>The withdrawal of the only service, polled after its ceiling.\<close>

lemma withdrawals_end_witness:
  "\<exists>n\<le>1. \<exists>scratch' ep1 ep' out. withdrawal_polls (Suc n) smoltcp_clock (list_slab :: slab_route slab) (SmoltcpInstant 9000000)
       (replicate 500 0, one_withdrawing) = (scratch', ep1) \<and>
     drain_completed_withdrawals smoltcp_clock list_slab (SmoltcpInstant 9000000) ep1 = (ep', out) \<and>
     ep_withdrawals ep' = [] \<and> set out = {ServiceHandle 0}"
proof -
  let ?srv = "list_slab :: slab_route slab" and ?ep = one_withdrawing and ?now = "SmoltcpInstant 9000000"
  have w: "length (ep_withdrawals ?ep) = 1" "distinct (map fst (ep_withdrawals ?ep))"
    "\<forall>(_, w)\<in>set (ep_withdrawals ?ep). wi_ceiling_at w \<le> ?now"
    "map (\<lambda>(_, w). wi_route w) (ep_withdrawals ?ep) = [Some (ServiceHandle 0)]" "map fst (ep_services ?ep) = [0]"
    by code_simp+
  have only: "k = 0" if "pmap ?srv (ep_services ?ep) k = Some r" for k r
    using that w(5) map_of_SomeD [of "ep_services one_withdrawing" k r] by (cases "ep_services one_withdrawing") (auto simp: list_slab_def split: if_splits)
  have h: "{h. \<exists>t w. (t, w) \<in> set (ep_withdrawals ?ep) \<and> wi_route w = Some h} = {ServiceHandle 0}"
    using w(1,4) by (cases "ep_withdrawals ?ep") auto
  have "distinct (map fst (ep_services ?ep))" by (simp add: w(5))
  moreover have "\<forall>k k' r r'. pmap ?srv (ep_services ?ep) k = Some r \<longrightarrow> pmap ?srv (ep_services ?ep) k' = Some r' \<longrightarrow>
      rt_handle r = rt_handle r' \<longrightarrow> k = k'" using only by blast
  ultimately have "\<exists>n\<le>1. \<exists>scratch' ep1 ep' out. withdrawal_polls (Suc n) smoltcp_clock ?srv ?now (replicate 500 0, ?ep) = (scratch', ep1) \<and>
     drain_completed_withdrawals smoltcp_clock ?srv ?now ep1 = (ep', out) \<and> ep_withdrawals ep' = [] \<and> set out = {ServiceHandle 0} \<and>
     (\<forall>k. pmap ?srv (ep_services ep') k =
       (case pmap ?srv (ep_services ?ep) k of Some r \<Rightarrow> if rt_handle r \<in> set out then None else Some r | None \<Rightarrow> None))"
    by (rule withdrawals_end [OF list_slab.pool_axioms _ w(2) _ w(3), where clk = smoltcp_clock and scratch = "replicate 500 0", unfolded h w(1)])
  then show ?thesis by meson
qed

end
