(* ===== verification/EndpointLife.thy ===== *)
theory EndpointLife
  imports Ledger ServiceNames WithdrawalLife
begin

text \<open>
  Every operation of an endpoint is a sequence of moves of the ledger of its names, handles and goodbyes.
\<close>

fun entry :: "('i, 'g, 'ev) service_route \<Rightarrow> ledger_entry" where
  "entry r = (rt_name r, rt_handle r, rt_withdrawing r, sr_instance (sv_records (rt_proto r)))"

definition ledger_of :: "('i, 'g, 'ev, 'sp, 'se) route_pool \<Rightarrow> ('i, 'r, 'c, 'sp, 'qp, 'ep) endpoint \<Rightarrow> ledger" where
  "ledger_of srv ep =
     \<lparr>lg_routes = (\<lambda>k. map_option entry (routes srv ep k)),
      lg_items = map (\<lambda>(t, w). (t, wi_route w)) (ep_withdrawals ep),
      lg_handles = ep_next_service_handle ep, lg_tokens = ep_next_withdrawal_token ep\<rparr>"

text \<open>The operations keep the pool and follow the ledger.\<close>

definition follows :: "('i, 'g, 'ev, 'sp, 'se) route_pool \<Rightarrow> ('sp \<Rightarrow> bool) \<Rightarrow> ('i, 'r, 'c, 'sp, 'qp, 'ep) endpoint \<Rightarrow>
    ('i, 'r, 'c, 'sp, 'qp, 'ep) endpoint \<Rightarrow> bool" where
  "follows srv pinv ep ep' \<longleftrightarrow> services_ok srv pinv ep' \<and> ledger_steps (ledger_of srv ep) (ledger_of srv ep')"

lemma follows_trans: "follows srv pinv ep ep1 \<Longrightarrow> follows srv pinv ep1 ep2 \<Longrightarrow> follows srv pinv ep ep2"
  unfolding follows_def by auto

text \<open>What leaves the pool and the goodbyes alone leaves the ledger alone.\<close>

definition same_books :: "('i, 'r, 'c, 'sp, 'qp, 'ep) endpoint \<Rightarrow> ('i, 'r, 'c, 'sp, 'qp, 'ep) endpoint \<Rightarrow> bool" where
  "same_books ep ep' \<longleftrightarrow> ep_services ep' = ep_services ep \<and>
     map (\<lambda>(t, w). (t, wi_route w)) (ep_withdrawals ep') = map (\<lambda>(t, w). (t, wi_route w)) (ep_withdrawals ep) \<and>
     ep_next_service_handle ep' = ep_next_service_handle ep \<and> ep_next_withdrawal_token ep' = ep_next_withdrawal_token ep"

lemma same_books_ledger: "same_books ep ep' \<Longrightarrow> ledger_of srv ep' = ledger_of srv ep"
  by (simp add: same_books_def ledger_of_def)

lemma same_books_follows: "services_ok srv pinv ep \<Longrightarrow> same_books ep ep' \<Longrightarrow> follows srv pinv ep ep'"
  unfolding follows_def by (simp add: same_books_ledger) (simp add: same_books_def services_ok_def)

lemma heads_books: "heads ws = heads ws' \<Longrightarrow> map (\<lambda>(t, w). (t, wi_route w)) ws = map (\<lambda>(t, w). (t, wi_route w)) ws'"
proof -
  have "map (\<lambda>(t, w). (t, wi_route w)) ws = map (\<lambda>(t, r, o', m, c, route, h). (t, route)) (heads ws)" for ws :: "(withdrawal_token \<times> 'a withdrawal_item) list"
    by (induction ws) (auto simp: heads_def item_head_def)
  then show "heads ws = heads ws' \<Longrightarrow> map (\<lambda>(t, w). (t, wi_route w)) ws = map (\<lambda>(t, w). (t, wi_route w)) ws'" by simp
qed

lemma put_route_token [simp]: "ep_next_withdrawal_token (put_route srv k route ep) = ep_next_withdrawal_token ep"
  by (simp add: put_route_def)

lemma ledger_put:
  assumes "services_ok srv pinv ep" "routes srv ep k \<noteq> None"
  shows "services_ok srv pinv (put_route srv k r ep)"
    "ledger_of srv (put_route srv k r ep) = (ledger_of srv ep)\<lparr>lg_routes := (lg_routes (ledger_of srv ep))(k \<mapsto> entry r)\<rparr>"
  using put_route_ok [OF assms, of r] by (auto simp: ledger_of_def fun_eq_iff)

lemma put_same:
  assumes "services_ok srv pinv ep" "routes srv ep k = Some r" "entry r' = entry r"
  shows "services_ok srv pinv (put_route srv k r' ep)" "ledger_of srv (put_route srv k r' ep) = ledger_of srv ep"
proof -
  have n: "routes srv ep k \<noteq> None" by (simp add: assms(2))
  have "lg_routes (ledger_of srv ep) k = Some (entry r')" by (simp add: ledger_of_def assms(2,3) del: entry.simps)
  then have "(lg_routes (ledger_of srv ep))(k \<mapsto> entry r') = lg_routes (ledger_of srv ep)" by (simp add: fun_upd_idem)
  with ledger_put [OF assms(1) n, of r'] show "services_ok srv pinv (put_route srv k r' ep)"
    "ledger_of srv (put_route srv k r' ep) = ledger_of srv ep" by simp_all
qed

lemma put_same_follows:
  "services_ok srv pinv ep \<Longrightarrow> routes srv ep k = Some r \<Longrightarrow> entry r' = entry r \<Longrightarrow> follows srv pinv ep (put_route srv k r' ep)"
  using put_same [of srv pinv ep k r r'] by (simp add: follows_def)

lemma key_entry:
  assumes "services_ok srv pinv ep" "service_key srv h ep = Some k"
  obtains r where "pl_get srv (ep_services ep) k = Some r" "routes srv ep k = Some r" "rt_handle r = h"
  using service_key_Some [OF assms] route_get [OF assms(1), of k] by auto

subsection \<open>Registration\<close>

lemma register_follows:
  assumes "services_ok srv pinv ep" "try_register_service clk draw seed_rng evs srv spec now ep = (res, ep')"
  shows "follows srv pinv ep ep'"
proof (cases "register_check srv spec ep")
  case (Some e)
  with assms show ?thesis by (simp add: try_register_service_def follows_def)
next
  case None
  let ?l = "ledger_of srv ep" and ?h = "ServiceHandle (of_nat (ep_next_service_handle ep))"
  obtain g rng where s: "seed_rng (ep_rng ep) = (g, rng)" by (cases "seed_rng (ep_rng ep)")
  define proto where "proto = service_try_new clk draw evs ?h spec now g (cf_probe_unique_names (ep_config ep))
    (cf_re_announce (ep_config ep)) (ep_flood ep)"
  define route where "route = \<lparr>rt_proto = proto, rt_service_type = sr_service_type spec, rt_name = sr_instance spec,
     rt_host = sr_host spec, rt_handle = ?h, rt_a_addrs = sr_a_addrs spec, rt_aaaa_addrs = sr_aaaa_addrs spec,
     rt_aaaa_scopes = sr_aaaa_scopes spec, rt_subtypes = sr_subtypes spec, rt_advertised_a = [], rt_advertised_aaaa = [],
     rt_withdrawing = False\<rparr>"
  obtain r services where i: "pl_insert srv (ep_services ep) route = (r, services)" by (cases "pl_insert srv (ep_services ep) route")
  have ep': "ep' = ep\<lparr>ep_next_service_handle := sat_add u32_max (ep_next_service_handle ep) 1, ep_rng := rng, ep_services := services\<rparr>"
    using assms(2) None s i by (auto simp: try_register_service_def Let_def proto_def [symmetric] route_def [symmetric] split: sum.splits)
  have e: "entry route = (sr_instance spec, ?h, False, sr_instance spec)"
    by (simp add: route_def proto_def records_new)
  show ?thesis
  proof (cases r)
    case (Inl x)
    have "services = ep_services ep" using pool.insert_Inl [OF services_okD [OF assms(1)]] i Inl by blast
    then have "ledger_of srv ep' = ?l\<lparr>lg_handles := sat_add u32_max (lg_handles ?l) 1\<rparr>" "services_ok srv pinv ep'"
      using assms(1) by (simp_all add: ep' ledger_of_def services_ok_def)
    then show ?thesis using ls_skip [of ?l] by (simp add: follows_def r_into_rtranclp)
  next
    case (Inr k)
    have p: "pinv services" "routes srv ep k = None" "pmap srv services = (routes srv ep)(k \<mapsto> route)"
      using pool.insert_Inr [OF services_okD [OF assms(1)] i [unfolded Inr]] by (auto simp: domIff)
    have ok: "services_ok srv pinv ep'" using p(1) services_okD(1) [OF assms(1)] by (simp add: ep' services_ok_def)
    have l: "ledger_of srv ep' = ?l\<lparr>lg_routes := (lg_routes ?l)(k \<mapsto> (sr_instance spec, ServiceHandle (of_nat (lg_handles ?l)), False, sr_instance spec)),
        lg_handles := sat_add u32_max (lg_handles ?l) 1\<rparr>"
      using p(3) e by (auto simp: ep' ledger_of_def fun_eq_iff)
    have "\<not> same_owner (rt_name r') (sr_instance spec)" if "routes srv ep k' = Some r'" for k' r'
      using None that route_mem [OF assms(1), of k' r'] by (auto simp: register_check_def list_ex_iff split: if_splits)
    then have "name_free (sr_instance spec) k ?l" by (auto simp: name_free_def ledger_of_def)
    moreover have "lg_routes ?l k = None" using p(2) by (simp add: ledger_of_def)
    ultimately have "ledger_step ?l (ledger_of srv ep')" unfolding l by (intro ls_register)
    with ok show ?thesis by (simp add: follows_def r_into_rtranclp)
  qed
qed

subsection \<open>Driving a service\<close>

lemma poll_service_follows:
  assumes "services_ok srv pinv ep" "poll_service evs srv h ep = (u, ep')"
  shows "follows srv pinv ep ep'"
proof (cases "service_key srv h ep")
  case None
  with assms show ?thesis by (simp add: poll_service_def follows_def)
next
  case (Some k)
  obtain r where r: "pl_get srv (ep_services ep) k = Some r" "routes srv ep k = Some r" using key_entry [OF assms(1) Some] .
  obtain u' proto where p: "service_poll evs (rt_proto r) = (u', proto)" by (cases "service_poll evs (rt_proto r)")
  have "sv_records proto = sv_records (rt_proto r)" using records_poll [of evs "rt_proto r"] by (simp add: p)
  then have "follows srv pinv ep (put_route srv k (r\<lparr>rt_proto := proto\<rparr>) ep)" by (intro put_same_follows [OF assms(1) r(2)]) simp
  with assms(2) Some r(1) p show ?thesis by (simp add: poll_service_def)
qed

lemma transmit_follows:
  assumes "services_ok srv pinv ep" "poll_service_transmit clk srv h now buf ep = (u, out, ep')"
  shows "follows srv pinv ep ep'"
proof (cases "service_key srv h ep")
  case None
  with assms show ?thesis by (simp add: poll_service_transmit_def follows_def)
next
  case (Some k)
  obtain r where r: "pl_get srv (ep_services ep) k = Some r" "routes srv ep k = Some r" using key_entry [OF assms(1) Some] .
  show ?thesis
  proof (cases "rt_withdrawing r")
    case True
    with assms Some r(1) show ?thesis by (simp add: poll_service_transmit_def follows_def)
  next
    case False
    let ?s = "defer_first_probe_under_flood clk now (ep_flood ep) (rt_proto r)"
    obtain u' out' proto where p: "service_poll_transmit now buf ?s = (u', out', proto)" by (cases "service_poll_transmit now buf ?s")
    have "sv_records proto = sv_records (rt_proto r)"
      using records_transmit [of now buf ?s] by (simp add: p records_defer)
    then have "follows srv pinv ep (put_route srv k (r\<lparr>rt_proto := proto\<rparr>) ep)" by (intro put_same_follows [OF assms(1) r(2)]) simp
    with assms(2) Some r(1) p False show ?thesis by (simp add: poll_service_transmit_def Let_def)
  qed
qed

text \<open>The goodbye of a name lost is queued on its own.\<close>

lemma enqueue_follows:
  assumes "services_ok srv pinv ep"
  shows "follows srv pinv ep (enqueue_rename_withdrawal clk handoff now holds_name ep)"
    "ep_services (enqueue_rename_withdrawal clk handoff now holds_name ep) = ep_services ep"
proof -
  let ?e1 = "retain_relinquished clk (rg_records handoff) (rg_multicast handoff) now ep" and ?l = "ledger_of srv ep"
  let ?e = "enqueue_rename_withdrawal clk handoff now holds_name ep"
  show s: "ep_services ?e = ep_services ep"
    by (simp add: enqueue_rename_withdrawal_def mint_withdrawal_token_def Let_def)
  have ok: "services_ok srv pinv ?e" using assms s by (simp add: services_ok_def)
  show "follows srv pinv ep ?e"
  proof (cases "owed_per_family (rg_owned handoff) = (0, 0)")
    case True
    then have "ledger_of srv ?e = ?l" by (simp add: enqueue_rename_withdrawal_def Let_def ledger_of_def)
    with ok show ?thesis by (simp add: follows_def)
  next
    case False
    then have "ledger_of srv ?e = ?l\<lparr>lg_items := lg_items ?l @ [(WithdrawalToken (lg_tokens ?l), None)],
        lg_tokens := sat_add u64_max (lg_tokens ?l) 1\<rparr>"
      by (simp add: enqueue_rename_withdrawal_def mint_withdrawal_token_def Let_def ledger_of_def)
    with ok ls_detach [of ?l] show ?thesis by (simp add: follows_def r_into_rtranclp)
  qed
qed

lemma drain_rename_follows:
  assumes "services_ok srv pinv ep"
  shows "follows srv pinv ep (drain_rename_goodbye clk srv k now ep) \<and>
     (\<forall>k'. map_option entry (routes srv (drain_rename_goodbye clk srv k now ep) k') = map_option entry (routes srv ep k'))"
proof (cases "routes srv ep k")
  case None
  then show ?thesis using assms by (simp add: drain_rename_goodbye_def route_get [OF assms] follows_def)
next
  case (Some r)
  obtain handoff proto where p: "take_rename_goodbye_handoff (rt_proto r) = (handoff, proto)"
    by (cases "take_rename_goodbye_handoff (rt_proto r)")
  let ?e = "put_route srv k (r\<lparr>rt_proto := proto\<rparr>) ep"
  have "sv_records proto = sv_records (rt_proto r)" using records_handoff [of "rt_proto r"] by (simp add: p)
  then have s: "entry (r\<lparr>rt_proto := proto\<rparr>) = entry r" by simp
  note e = put_same [OF assms Some s]
  have routes: "map_option entry (routes srv ?e k') = map_option entry (routes srv ep k')" for k'
    using arg_cong [OF e(2), of "\<lambda>l. lg_routes l k'"] by (simp add: ledger_of_def)
  have f: "follows srv pinv ep ?e" using e by (simp add: follows_def)
  show ?thesis
  proof (cases handoff)
    case None
    with p f routes show ?thesis by (simp add: drain_rename_goodbye_def route_get [OF assms] Some Let_def)
  next
    case h: (Some handoff')
    obtain hold where d: "drain_rename_goodbye clk srv k now ep = enqueue_rename_withdrawal clk handoff' now hold ?e"
      using p h by (simp add: drain_rename_goodbye_def route_get [OF assms] Some Let_def)
    show ?thesis unfolding d
      using follows_trans [OF f enqueue_follows(1) [OF e(1)]] enqueue_follows(2) [OF e(1)] routes by simp
  qed
qed

subsection \<open>The timer of a service\<close>

lemma timer_follows:
  assumes "services_ok srv pinv ep" "names_ok (ledger_of srv ep)"
    and "handle_service_timeout clk draw evs srv h now ep = (out, ep')"
  shows "follows srv pinv ep ep'"
proof (cases "service_key srv h ep")
  case None
  with assms show ?thesis by (simp add: handle_service_timeout_def follows_def)
next
  case (Some k)
  obtain r where r: "pl_get srv (ep_services ep) k = Some r" "routes srv ep k = Some r" using key_entry [OF assms(1) Some] .
  show ?thesis
  proof (cases "rt_withdrawing r")
    case True
    with assms Some r(1) show ?thesis by (simp add: handle_service_timeout_def follows_def)
  next
    case False
    let ?l = "ledger_of srv ep"
    define taken where "taken = (if rename_imminent (rt_proto r) then collect_names_in_use srv k ep else [])"
    obtain out' proto where p: "service_handle_timeout clk draw evs now (ep_flood ep) taken (rt_proto r) = (out', proto)"
      by (cases "service_handle_timeout clk draw evs now (ep_flood ep) taken (rt_proto r)")
    define name where "name = sr_instance (sv_records proto)"
    define r' where "r' = (if \<not> same_owner (rt_name r) name then r\<lparr>rt_proto := proto, rt_name := name\<rparr> else r\<lparr>rt_proto := proto\<rparr>)"
    have ep': "ep' = drain_rename_goodbye clk srv k now (put_route srv k r' ep)"
      using assms(3) Some r(1) False p
      by (auto simp: handle_service_timeout_def Let_def taken_def [symmetric] r'_def name_def split: if_splits)
    have n: "routes srv ep k \<noteq> None" by (simp add: r(2))
    note put = ledger_put [OF assms(1) n, of r']
    have lk: "lg_routes ?l k = Some (rt_name r, rt_handle r, rt_withdrawing r, sr_instance (sv_records (rt_proto r)))"
      by (simp add: ledger_of_def r(2))
    have own: "same_owner (rt_name r) (sr_instance (sv_records (rt_proto r)))" using assms(2) lk unfolding names_ok_def by blast
    have "ledger_step ?l (ledger_of srv (put_route srv k r' ep))"
    proof (cases "same_owner (rt_name r) name")
      case True
      then have "entry r' = (rt_name r, rt_handle r, rt_withdrawing r, name)" by (simp add: r'_def name_def)
      then show ?thesis unfolding put(2) using ls_respell [OF lk True] by simp
    next
      case new: False
      then have e: "entry r' = (name, rt_handle r, rt_withdrawing r, name)" by (simp add: r'_def name_def)
      have "sv_records proto \<noteq> sv_records (rt_proto r)" using new own by (auto simp: name_def)
      with records_timeout [OF p] have ren: "rename_imminent (rt_proto r)" "\<not> holds taken name"
        by (auto simp: name_def sr_set_instance_def)
      have "name_free name k ?l" unfolding name_free_def
      proof (intro allI impI)
        fix k' n' h' w' i' assume k': "k' \<noteq> k" "lg_routes ?l k' = Some (n', h', w', i')"
        then obtain r2 where r2: "routes srv ep k' = Some r2" "rt_name r2 = n'" by (auto simp: ledger_of_def)
        then have "n' \<in> set (collect_names_in_use srv k ep)"
          using k'(1) route_mem [OF assms(1), of k' r2] by (force simp: collect_names_in_use_def)
        with ren show "\<not> same_owner n' name" by (auto simp: taken_def holds_def list_ex_iff)
      qed
      with ls_rename [OF lk same_owner_refl, of name] show ?thesis unfolding put(2) e by simp
    qed
    then have "follows srv pinv ep (put_route srv k r' ep)" using put(1) by (simp add: follows_def r_into_rtranclp)
    then show ?thesis unfolding ep' using drain_rename_follows [OF put(1)] follows_trans by blast
  qed
qed

subsection \<open>Confirmed sends, and leaving\<close>

definition item_of :: "withdrawal_token \<times> 'i withdrawal_item \<Rightarrow> withdrawal_token \<times> service_handle option" where
  "item_of = (\<lambda>(t, w). (t, wi_route w))"

lemma ledger_items: "lg_items (ledger_of srv ep) = map item_of (ep_withdrawals ep)"
  by (simp add: ledger_of_def item_of_def)

lemma drop_detached_steps:
  assumes "\<forall>x\<in>set ws. (g x = [] \<and> wi_route (snd x) = None) \<or> (\<exists>y. g x = [y] \<and> item_of y = item_of x)"
  shows "ledger_steps (l\<lparr>lg_items := pre @ map item_of ws\<rparr>) (l\<lparr>lg_items := pre @ map item_of (concat (map g ws))\<rparr>)"
  using assms
proof (induction ws arbitrary: pre)
  case (Cons x ws)
  then consider "g x = []" "wi_route (snd x) = None" | y where "g x = [y]" "item_of y = item_of x" by auto
  then show ?case
  proof cases
    case 1
    then have "item_of x = (fst x, None)" by (simp add: item_of_def split_beta)
    then have "ledger_step (l\<lparr>lg_items := pre @ map item_of (x # ws)\<rparr>)
        ((l\<lparr>lg_items := pre @ map item_of (x # ws)\<rparr>)\<lparr>lg_items := pre @ map item_of ws\<rparr>)"
      by (intro ls_drain [of _ pre "fst x" None]) simp_all
    with Cons.IH [of pre] Cons.prems 1 show ?thesis by (simp add: converse_rtranclp_into_rtranclp)
  next
    case 2
    with Cons.IH [of "pre @ [item_of x]"] Cons.prems show ?thesis by simp
  qed
qed simp

lemma reclaim_follows:
  fixes srv :: "('i, 'g, 'ev, 'sp, 'se) route_pool" and ep :: "('i, 'r, 'c, 'sp, 'qp, 'ep) endpoint"
  assumes "services_ok srv pinv ep"
  shows "follows srv pinv ep (reclaim_detached_goodbyes srv h n ep)"
    "ep_services (reclaim_detached_goodbyes srv h n ep) = ep_services ep"
proof -
  show s: "ep_services (reclaim_detached_goodbyes srv h n ep) = ep_services ep"
    by (simp add: reclaim_detached_goodbyes_def split: option.split)
  have ok: "services_ok srv pinv (reclaim_detached_goodbyes srv h n ep)" using assms s by (simp add: services_ok_def)
  consider "reclaim_detached_goodbyes srv h n ep = ep"
    | route :: "('i, 'g, 'ev) service_route" where "reclaim_detached_goodbyes srv h n ep = ep\<lparr>ep_withdrawals := concat (map (\<lambda>(token, item).
          if \<not> reclaimable_for item n then [(token, item)]
          else let item = reclaim_item (rt_service_type route) (rt_subtypes route) item in
               if wi_owed item \<noteq> (0, 0) then [(token, item)] else []) (ep_withdrawals ep))\<rparr>"
  proof (cases "list_ex (\<lambda>(_, item). reclaimable_for item n) (ep_withdrawals ep)")
    case False
    then show ?thesis using that(1) by (simp add: reclaim_detached_goodbyes_def)
  next
    case True
    show ?thesis
    proof (cases "find (\<lambda>(_, r). rt_handle r = h) (pl_iter srv (ep_services ep))")
      case None
      with True show ?thesis using that(1) by (simp add: reclaim_detached_goodbyes_def)
    next
      case (Some kr)
      with True show ?thesis using that(2) [of "snd kr"] by (simp add: reclaim_detached_goodbyes_def split_beta)
    qed
  qed
  then show "follows srv pinv ep (reclaim_detached_goodbyes srv h n ep)"
  proof cases
    case 1
    with assms show ?thesis by (simp add: follows_def)
  next
    case (2 route)
    let ?g = "\<lambda>(token, item). if \<not> reclaimable_for item n then [(token, item)]
          else let item = reclaim_item (rt_service_type route) (rt_subtypes route) item in
               if wi_owed item \<noteq> (0, 0) then [(token, item)] else []"
    have keep: "wi_route (reclaim_item st sub item) = wi_route item" for st sub and item :: "'i withdrawal_item"
      by (simp add: reclaim_item_def Let_def split_beta)
    have "(?g (t, w) = [] \<and> wi_route (snd (t, w)) = None) \<or> (\<exists>y. ?g (t, w) = [y] \<and> item_of y = item_of (t, w))"
      for t and w :: "'i withdrawal_item"
    proof (cases "reclaimable_for w n")
      case True
      then have "wi_route w = None" by (simp add: reclaimable_for_def)
      with True show ?thesis by (simp add: item_of_def Let_def keep)
    qed (simp add: item_of_def)
    then have "\<forall>x\<in>set (ep_withdrawals ep). (?g x = [] \<and> wi_route (snd x) = None) \<or> (\<exists>y. ?g x = [y] \<and> item_of y = item_of x)"
      by fast
    from drop_detached_steps [OF this, where l = "ledger_of srv ep" and pre = "[]"]
    have "ledger_steps (ledger_of srv ep) (ledger_of srv (reclaim_detached_goodbyes srv h n ep))"
      unfolding 2 by (simp add: ledger_of_def item_of_def)
    with ok show ?thesis by (simp add: follows_def)
  qed
qed

lemma outcome_follows:
  assumes "services_ok srv pinv ep" "note_service_transmit_outcome clk draw evs srv h now v4 v6 ep = (c, ep')"
  shows "follows srv pinv ep ep'"
proof (cases "service_key srv h ep")
  case None
  with assms show ?thesis by (simp add: note_service_transmit_outcome_def follows_def)
next
  case (Some k)
  obtain r where r: "pl_get srv (ep_services ep) k = Some r" "routes srv ep k = Some r" using key_entry [OF assms(1) Some] .
  obtain c' proto where p: "service_note_transmit_outcome clk draw evs now v4 v6 (rt_proto r) = (c', proto)"
    by (cases "service_note_transmit_outcome clk draw evs now v4 v6 (rt_proto r)")
  define r' where "r' = r\<lparr>rt_proto := proto, rt_advertised_a := xp_a (gb_all (sv_goodbye proto)),
     rt_advertised_aaaa := xp_aaaa (gb_all (sv_goodbye proto))\<rparr>"
  define ep1 where "ep1 = put_route srv k r' ep"
  define ep2 where "ep2 = (if sv_fully_announced proto then reclaim_detached_goodbyes srv h (rt_name r') ep1 else ep1)"
  have ep': "ep' = drain_rename_goodbye clk srv k now ep2"
    using assms(2) Some r(1) p unfolding ep2_def ep1_def r'_def
    by (cases "sv_fully_announced proto") (simp_all add: note_service_transmit_outcome_def Let_def)
  have "sv_records proto = sv_records (rt_proto r)" using records_outcome [of clk draw evs now v4 v6 "rt_proto r"] by (simp add: p)
  then have 1: "follows srv pinv ep ep1" unfolding ep1_def by (intro put_same_follows [OF assms(1) r(2)]) (simp add: r'_def)
  then have ok1: "services_ok srv pinv ep1" by (simp add: follows_def)
  have "follows srv pinv ep1 ep2" using reclaim_follows(1) [OF ok1] ok1 by (simp add: ep2_def follows_def)
  with 1 have 2: "follows srv pinv ep ep2" using follows_trans by blast
  then have ok2: "services_ok srv pinv ep2" by (simp add: follows_def)
  from drain_rename_follows [OF ok2, of clk k now] 2 show ?thesis unfolding ep' using follows_trans by blast
qed

lemma begin_follows:
  assumes "services_ok srv pinv ep"
  shows "follows srv pinv ep (begin_withdrawal clk srv h snapshot now ep)"
proof -
  let ?l = "ledger_of srv ep"
  show ?thesis
  proof (cases "service_key srv h ep")
    case None
    with assms show ?thesis by (simp add: begin_withdrawal_def follows_def)
  next
    case (Some k)
    obtain r where r: "pl_get srv (ep_services ep) k = Some r" "routes srv ep k = Some r" "rt_handle r = h"
      using key_entry [OF assms Some] .
    show ?thesis
    proof (cases "list_ex (\<lambda>(_, w). wi_route w = Some h) (ep_withdrawals ep)")
      case True
      with Some assms show ?thesis by (simp add: begin_withdrawal_def follows_def)
    next
      case False
      let ?r = "r\<lparr>rt_withdrawing := True, rt_proto := quiesce_for_withdrawal (rt_proto r)\<rparr>"
      let ?e = "begin_withdrawal clk srv h snapshot now ep"
      have n: "routes srv ep k \<noteq> None" by (simp add: r(2))
      note put = ledger_put [OF assms n, of ?r]
      have e: "ep_services ?e = ep_services (put_route srv k ?r ep)"
        "ledger_of srv ?e = (ledger_of srv (put_route srv k ?r ep))\<lparr>lg_items := lg_items ?l @ [(WithdrawalToken (lg_tokens ?l), Some h)],
           lg_tokens := sat_add u64_max (lg_tokens ?l) 1\<rparr>"
        using Some False r(1) by (simp_all add: begin_withdrawal_def mint_withdrawal_token_def Let_def ledger_of_def)
      have ok: "services_ok srv pinv ?e" using put(1) e(1) by (simp add: services_ok_def)
      have "Some h \<notin> snd ` set (lg_items ?l)" using False by (auto simp: ledger_of_def list_ex_iff)
      moreover have "lg_routes ?l k = Some (rt_name r, h, rt_withdrawing r, sr_instance (sv_records (rt_proto r)))"
        by (simp add: ledger_of_def r(2,3))
      ultimately have "ledger_step ?l (ledger_of srv ?e)"
        unfolding e(2) put(2) using ls_leave [of ?l k "rt_name r" h] r(3) by (simp add: records_quiesce)
      with ok show ?thesis by (simp add: follows_def r_into_rtranclp)
    qed
  qed
qed

lemma unregister_follows:
  assumes "services_ok srv pinv ep"
  shows "follows srv pinv ep (unregister_service clk srv h now ep)"
proof (cases "service_key srv h ep")
  case None
  with assms show ?thesis by (simp add: unregister_service_def follows_def)
next
  case (Some k)
  let ?e = "drain_rename_goodbye clk srv k now ep"
  have f: "follows srv pinv ep ?e" using drain_rename_follows [OF assms] by blast
  then have ok: "services_ok srv pinv ?e" by (simp add: follows_def)
  show ?thesis
  proof (cases "pl_get srv (ep_services ?e) k")
    case None
    with Some f show ?thesis by (simp add: unregister_service_def Let_def)
  next
    case r: (Some route)
    with Some show ?thesis using follows_trans [OF f begin_follows [OF ok]] by (simp add: unregister_service_def Let_def)
  qed
qed

lemma retain_books: "same_books ep (retain_relinquished clk records emitted now ep)"
  by (simp add: same_books_def)

lemma retain_all_books:
  "same_books ep (foldl (\<lambda>ep (records, multicast). retain_relinquished clk records multicast now ep) ep dropped)"
  by (induction dropped arbitrary: ep) (auto simp: same_books_def split_beta)

lemma force_remove_follows:
  assumes "services_ok srv pinv ep" "force_remove_service clk srv h now ep = (removed, ep')"
  shows "follows srv pinv ep ep'"
proof (cases "service_key srv h ep")
  case None
  with assms show ?thesis by (simp add: force_remove_service_def follows_def)
next
  case (Some k)
  let ?l = "ledger_of srv ep"
  obtain r where r: "pl_get srv (ep_services ep) k = Some r" "routes srv ep k = Some r" "rt_handle r = h"
    using key_entry [OF assms(1) Some] .
  define ep1 where "ep1 = retain_relinquished clk (ws_records (take_withdrawal_snapshot (rt_proto r)))
     (ws_multicast (take_withdrawal_snapshot (rt_proto r))) now ep"
  obtain x services where rm: "pl_remove srv (ep_services ep) k = (x, services)" by (cases "pl_remove srv (ep_services ep) k")
  define ep2 where "ep2 = ep1\<lparr>ep_services := services, ep_withdrawals := filter (\<lambda>(_, item). wi_route item \<noteq> Some h) (ep_withdrawals ep1)\<rparr>"
  obtain dropped where "ep' = foldl (\<lambda>ep (records, multicast). retain_relinquished clk records multicast now ep) ep2 dropped"
    using assms(2) Some r(1) rm by (auto simp: force_remove_service_def Let_def ep1_def ep2_def)
  then have b: "same_books ep2 ep'" using retain_all_books by blast
  have p: "pinv services" "pmap srv services = (routes srv ep)(k := None)"
    using pool.remove_map [OF services_okD [OF assms(1)] rm] by simp_all
  have l2: "ledger_of srv ep2 = ?l\<lparr>lg_routes := (lg_routes ?l)(k := None), lg_items := filter (\<lambda>(t, r). r \<noteq> Some h) (lg_items ?l)\<rparr>"
    using p(2) by (auto simp: ledger_of_def ep2_def ep1_def fun_eq_iff filter_map comp_def split_beta intro!: map_cong filter_cong)
  have "lg_routes ?l k = Some (rt_name r, h, rt_withdrawing r, sr_instance (sv_records (rt_proto r)))"
    by (simp add: ledger_of_def r(2,3))
  then have "ledger_step ?l (ledger_of srv ep2)" unfolding l2 by (rule ls_remove)
  moreover have "services_ok srv pinv ep'"
    using b p(1) services_okD(1) [OF assms(1)] by (simp add: same_books_def services_ok_def ep2_def)
  ultimately show ?thesis by (simp add: follows_def r_into_rtranclp same_books_ledger [OF b])
qed

subsection \<open>Goodbyes\<close>

lemma goodbye_transmit_follows:
  assumes "services_ok srv pinv ep" "poll_withdrawal_transmit clk srv now scratch ep = (t, scratch', ep')"
  shows "follows srv pinv ep ep'"
proof -
  have "same_books ep ep'" using poll_frame [OF assms(2)] heads_books by (auto simp: same_books_def)
  with assms(1) show ?thesis by (rule same_books_follows)
qed

lemma update_first_map:
  "update_first P f xs = Some ys \<Longrightarrow> (\<And>x. g (f x) = g x) \<Longrightarrow> map g ys = map g xs"
  by (induction xs arbitrary: ys) (auto split: if_splits option.splits)

lemma goodbye_result_follows:
  assumes "services_ok srv pinv ep"
  shows "follows srv pinv ep (note_withdrawal_result clk token now v4 v6 ep)"
proof -
  have "same_books ep (note_withdrawal_result clk token now v4 v6 ep)"
  proof (cases "update_first (\<lambda>(t, _). t = token) (\<lambda>(t, w). (t, settle_withdrawal clk now v4 v6 w)) (ep_withdrawals ep)")
    case (Some ws)
    have "map (\<lambda>(t, w). (t, wi_route w)) ws = map (\<lambda>(t, w). (t, wi_route w)) (ep_withdrawals ep)"
      by (rule update_first_map [OF Some]) (auto simp: settle_withdrawal_def Let_def split: prod.splits)
    with Some show ?thesis by (simp add: same_books_def note_withdrawal_result_def)
  qed (simp add: same_books_def note_withdrawal_result_def)
  with assms show ?thesis by (rule same_books_follows)
qed

lemma drain_one_follows:
  assumes "services_ok srv pinv ep" "drain_one clk srv now token (ep, out) = (ep', out')"
  shows "follows srv pinv ep ep'"
proof (cases "position (\<lambda>(t, _). t = token) (ep_withdrawals ep)")
  case None
  with assms show ?thesis by (simp add: drain_one_def follows_def)
next
  case pos: (Some pos)
  let ?l = "ledger_of srv ep"
  define item where "item = snd (ep_withdrawals ep ! pos)"
  define ep1 where "ep1 = ep\<lparr>ep_withdrawals := take pos (ep_withdrawals ep) @ drop (Suc pos) (ep_withdrawals ep)\<rparr>"
  define ep2 where "ep2 = retain_relinquished clk (wi_records item) (wi_multicast item) now ep1"
  have b: "same_books ep1 ep2" unfolding ep2_def by (rule retain_books)
  have ok2: "services_ok srv pinv ep2" using assms(1) by (simp add: services_ok_def ep2_def ep1_def)
  from position_found [OF pos] have lt: "pos < length (ep_withdrawals ep)" by auto
  let ?as = "map item_of (take pos (ep_withdrawals ep))" and ?bs = "map item_of (drop (Suc pos) (ep_withdrawals ep))"
  have items: "lg_items ?l = ?as @ (fst (ep_withdrawals ep ! pos), wi_route item) # ?bs"
    using arg_cong [OF id_take_nth_drop [OF lt], of "map item_of"]
    by (simp only: ledger_items map_append list.map) (simp add: item_of_def item_def split_beta)
  have l2: "ledger_of srv ep2 = ?l\<lparr>lg_items := ?as @ ?bs\<rparr>"
    using same_books_ledger [OF b, of srv] by (simp add: ledger_of_def ep1_def item_of_def)
  show ?thesis
  proof (cases "wi_route item")
    case None
    then have "ep' = ep2" using assms(2) pos by (simp add: drain_one_def Let_def item_def ep2_def ep1_def)
    moreover have "ledger_step ?l (ledger_of srv ep2)" unfolding l2 using ls_drain [OF items] None by simp
    ultimately show ?thesis using ok2 by (simp add: follows_def r_into_rtranclp)
  next
    case route: (Some h)
    show ?thesis
    proof (cases "service_key srv h ep2")
      case None
      then have "ep' = ep2" using assms(2) pos route by (simp add: drain_one_def Let_def item_def ep2_def ep1_def)
      moreover have "ledger_step ?l (ledger_of srv ep2)" unfolding l2
      proof (rule ls_drain [OF items], intro allI impI)
        fix k n h' w i assume "lg_routes ?l k = Some (n, h', w, i)"
        then obtain r where "routes srv ep2 k = Some r" "rt_handle r = h'" by (auto simp: ledger_of_def ep2_def ep1_def)
        with service_key_None [OF ok2 None] show "wi_route item \<noteq> Some h'" using route by auto
      qed
      ultimately show ?thesis using ok2 by (simp add: follows_def r_into_rtranclp)
    next
      case (Some k)
      obtain x services where rm: "pl_remove srv (ep_services ep2) k = (x, services)" by (cases "pl_remove srv (ep_services ep2) k")
      have ep': "ep' = ep2\<lparr>ep_services := services\<rparr>"
        using assms(2) pos route Some rm by (simp add: drain_one_def Let_def item_def ep2_def ep1_def)
      have p: "pinv services" "pmap srv services = (routes srv ep2)(k := None)"
        using pool.remove_map [OF services_okD [OF ok2] rm] by simp_all
      obtain r where r: "routes srv ep2 k = Some r" "rt_handle r = h" using key_entry [OF ok2 Some] .
      have same: "routes srv ep2 = routes srv ep" by (simp add: ep2_def ep1_def)
      have "ledger_of srv ep' = (ledger_of srv ep2)\<lparr>lg_routes := (lg_routes (ledger_of srv ep2))(k := None)\<rparr>"
        using p(2) by (auto simp: ep' ledger_of_def fun_eq_iff)
      also have "\<dots> = ?l\<lparr>lg_routes := (lg_routes ?l)(k := None), lg_items := ?as @ ?bs\<rparr>" unfolding l2 by simp
      finally have l': "ledger_of srv ep' = ?l\<lparr>lg_routes := (lg_routes ?l)(k := None), lg_items := ?as @ ?bs\<rparr>" .
      have "lg_routes ?l k = Some (rt_name r, h, rt_withdrawing r, sr_instance (sv_records (rt_proto r)))"
        using r unfolding same by (simp add: ledger_of_def)
      from ls_drain_route [OF items [unfolded route] this] have "ledger_step ?l (ledger_of srv ep')" unfolding l' .
      with p(1) services_okD(1) [OF ok2] show ?thesis by (simp add: ep' follows_def services_ok_def r_into_rtranclp)
    qed
  qed
qed

lemma drain_follows:
  assumes "services_ok srv pinv ep" "drain_completed_withdrawals clk srv now ep = (ep', out)"
  shows "follows srv pinv ep ep'"
proof -
  have "follows srv pinv ep ep'"
    if "services_ok srv pinv ep" "foldl (\<lambda>p token. drain_one clk srv now token p) (ep, out0) tokens = (ep', out)" for ep out0 tokens
    using that
  proof (induction tokens arbitrary: ep out0)
    case (Cons token tokens)
    obtain ep1 out1 where o: "drain_one clk srv now token (ep, out0) = (ep1, out1)" by (cases "drain_one clk srv now token (ep, out0)")
    have f: "follows srv pinv ep ep1" by (rule drain_one_follows [OF Cons.prems(1) o])
    then have "services_ok srv pinv ep1" by (simp add: follows_def)
    from Cons.IH [OF this, of out1] Cons.prems(2) o have "follows srv pinv ep1 ep'" by simp
    with f show ?case by (rule follows_trans)
  qed (simp add: follows_def)
  with assms show ?thesis unfolding drain_completed_withdrawals_def Let_def by blast
qed

subsection \<open>Receiving\<close>

lemma turn_follows:
  assumes "turn_effect clk draw evs srv now ep ep'" "services_ok srv pinv ep"
  shows "follows srv pinv ep ep'"
proof -
  from assms(1) consider "ep' = ep" | k event route where "(k, route) \<in> set (pl_iter srv (ep_services ep))"
      "ep' = dispatch clk draw evs srv now k event ep"
    by (auto simp: turn_effect_def)
  then show ?thesis
  proof cases
    case 1
    with assms(2) show ?thesis by (simp add: follows_def)
  next
    case (2 k event route)
    then have r: "routes srv ep k = Some route" using route_mem [OF assms(2)] by blast
    obtain proto flood where e: "service_handle_event clk draw evs event now (ep_flood ep) (rt_proto route) = (proto, flood)"
      by (cases "service_handle_event clk draw evs event now (ep_flood ep) (rt_proto route)")
    have "sv_records proto = sv_records (rt_proto route)"
      using records_event [of clk draw evs event now "ep_flood ep" "rt_proto route"] by (simp add: e)
    then have "follows srv pinv ep (put_route srv k (route\<lparr>rt_proto := proto\<rparr>) ep)"
      by (intro put_same_follows [OF assms(2) r]) simp
    moreover have "ep' = (put_route srv k (route\<lparr>rt_proto := proto\<rparr>) ep)\<lparr>ep_flood := flood\<rparr>"
      unfolding 2(2) by (simp add: dispatch_def route_get [OF assms(2)] r e)
    then have "same_books (put_route srv k (route\<lparr>rt_proto := proto\<rparr>) ep) ep'" by (simp add: same_books_def)
    ultimately show ?thesis using same_books_follows follows_trans unfolding follows_def by blast
  qed
qed

lemma delivered_follows:
  assumes "delivered clk draw evs srv now ep ep'" "services_ok srv pinv ep"
  shows "follows srv pinv ep ep'"
  using assms
proof (induction rule: rtranclp_induct)
  case (step ep1 ep2)
  then have f: "follows srv pinv ep ep1" by blast
  then have "services_ok srv pinv ep1" by (simp add: follows_def)
  from turn_follows [OF step(2) this] f show ?case using follows_trans by blast
qed (simp add: follows_def)

lemma receive_follows:
  assumes "services_ok srv pinv ep" "endpoint_receive clk draw evs an ev srv qry ents now rx ep = Some (res, ep')"
  shows "follows srv pinv ep ep'"
proof -
  from receive_effect [OF assms(2,1)] obtain ep1 where
    1: "same_but_observed ep ep1" "delivered clk draw evs srv now ep1 ep'" by blast
  from 1(1) obtain q c d where "ep1 = ep\<lparr>ep_queries := q, ep_cache := c, ep_datagram_seq := d\<rparr>"
    unfolding same_but_observed_def by blast
  then have "same_books ep ep1" by (simp add: same_books_def)
  then have f: "follows srv pinv ep ep1" by (rule same_books_follows [OF assms(1)])
  then have "services_ok srv pinv ep1" by (simp add: follows_def)
  from f delivered_follows [OF 1(2) this] show ?thesis by (rule follows_trans)
qed

end
