(* ===== verification/EndpointRuns.thy ===== *)
theory EndpointRuns
  imports EndpointLife
begin

text \<open>
  An endpoint over its life: every call its owner can make, in any order, keeps to the ledger; so names,
  handles and goodbyes are in order in every state that calls can reach.
\<close>

datatype 'i endpoint_input =
    EI_Register service_records 'i
  | EI_TakeUpdate service_handle
  | EI_ServiceTimer service_handle 'i
  | EI_ServiceTransmit service_handle 'i bytes
  | EI_ServiceOutcome service_handle 'i "'i family_attempt" "'i family_attempt"
  | EI_Unregister service_handle 'i
  | EI_ForceRemove service_handle 'i
  | EI_GoodbyeTransmit 'i bytes
  | EI_GoodbyeOutcome withdrawal_token 'i "'i family_attempt" "'i family_attempt"
  | EI_DrainGoodbyes 'i
  | EI_Receive 'i received
  | EI_Timer 'i
  | EI_TakeEvent
  | EI_StartQuery query_spec 'i
  | EI_TakeQueryUpdate query_handle
  | EI_QueryTimer query_handle 'i
  | EI_QueryTransmit query_handle 'i bytes
  | EI_QueryOutcome query_handle 'i "'i family_attempt" "'i family_attempt"
  | EI_RetireQuery query_handle
  | EI_CancelQuery query_handle
  | EI_SweepQueries

text \<open>A datagram is handed in and all it yields is taken.\<close>

fun endpoint_step where
  "endpoint_step clk draw seed_rng evs an ev srv qry ents eps (EI_Register spec now) ep =
     snd (try_register_service clk draw seed_rng evs srv spec now ep)"
| "endpoint_step clk draw seed_rng evs an ev srv qry ents eps (EI_TakeUpdate h) ep = snd (poll_service evs srv h ep)"
| "endpoint_step clk draw seed_rng evs an ev srv qry ents eps (EI_ServiceTimer h now) ep =
     snd (handle_service_timeout clk draw evs srv h now ep)"
| "endpoint_step clk draw seed_rng evs an ev srv qry ents eps (EI_ServiceTransmit h now buf) ep =
     snd (snd (poll_service_transmit clk srv h now buf ep))"
| "endpoint_step clk draw seed_rng evs an ev srv qry ents eps (EI_ServiceOutcome h now v4 v6) ep =
     snd (note_service_transmit_outcome clk draw evs srv h now v4 v6 ep)"
| "endpoint_step clk draw seed_rng evs an ev srv qry ents eps (EI_Unregister h now) ep = unregister_service clk srv h now ep"
| "endpoint_step clk draw seed_rng evs an ev srv qry ents eps (EI_ForceRemove h now) ep = snd (force_remove_service clk srv h now ep)"
| "endpoint_step clk draw seed_rng evs an ev srv qry ents eps (EI_GoodbyeTransmit now scratch) ep =
     snd (snd (poll_withdrawal_transmit clk srv now scratch ep))"
| "endpoint_step clk draw seed_rng evs an ev srv qry ents eps (EI_GoodbyeOutcome token now v4 v6) ep =
     note_withdrawal_result clk token now v4 v6 ep"
| "endpoint_step clk draw seed_rng evs an ev srv qry ents eps (EI_DrainGoodbyes now) ep =
     fst (drain_completed_withdrawals clk srv now ep)"
| "endpoint_step clk draw seed_rng evs an ev srv qry ents eps (EI_Receive now rx) ep =
     (case endpoint_receive clk draw evs an ev srv qry ents now rx ep of Some (_, ep) \<Rightarrow> ep | None \<Rightarrow> ep)"
| "endpoint_step clk draw seed_rng evs an ev srv qry ents eps (EI_Timer now) ep = snd (endpoint_handle_timeout ents eps now ep)"
| "endpoint_step clk draw seed_rng evs an ev srv qry ents eps EI_TakeEvent ep = snd (endpoint_poll eps ep)"
| "endpoint_step clk draw seed_rng evs an ev srv qry ents eps (EI_StartQuery spec now) ep = snd (try_start_query clk an ev qry spec now ep)"
| "endpoint_step clk draw seed_rng evs an ev srv qry ents eps (EI_TakeQueryUpdate h) ep = snd (poll_query ev qry h ep)"
| "endpoint_step clk draw seed_rng evs an ev srv qry ents eps (EI_QueryTimer h now) ep = snd (handle_query_timeout ev qry h now ep)"
| "endpoint_step clk draw seed_rng evs an ev srv qry ents eps (EI_QueryTransmit h now buf) ep = snd (poll_query_transmit qry h now buf ep)"
| "endpoint_step clk draw seed_rng evs an ev srv qry ents eps (EI_QueryOutcome h now v4 v6) ep =
     snd (note_query_transmit_outcome clk qry h now v4 v6 ep)"
| "endpoint_step clk draw seed_rng evs an ev srv qry ents eps (EI_RetireQuery h) ep = retire_query ev qry h ep"
| "endpoint_step clk draw seed_rng evs an ev srv qry ents eps (EI_CancelQuery h) ep = snd (cancel_query qry h ep)"
| "endpoint_step clk draw seed_rng evs an ev srv qry ents eps EI_SweepQueries ep = snd (sweep_terminated_queries qry ep)"

definition endpoint_run where
  "endpoint_run clk draw seed_rng evs an ev srv qry ents eps inputs ep =
     foldl (\<lambda>ep input. endpoint_step clk draw seed_rng evs an ev srv qry ents eps input ep) ep inputs"

lemma query_books:
  "same_books ep (snd (with_query qry h absent f ep))" "same_books ep (snd (try_start_query clk an ev qry spec now ep))"
  "same_books ep (snd (cancel_query qry h ep))" "same_books ep (snd (sweep_terminated_queries qry ep))"
  "same_books ep (snd (endpoint_poll eps ep))"
  by (simp_all add: same_books_def with_query_def put_query_def try_start_query_def cancel_query_def sweep_terminated_queries_def
      endpoint_poll_def Let_def split_beta split: option.split sum.split prod.split list.split)

lemma timer_books: "same_books ep (snd (endpoint_handle_timeout ents eps now ep))"
  by (simp add: same_books_def endpoint_handle_timeout_def sweep_relinquished_def Let_def split_beta)

lemma services_follow:
  assumes "services_ok srv pinv ep"
  shows "follows srv pinv ep (snd (try_register_service clk draw seed_rng evs srv spec now ep))"
    "follows srv pinv ep (snd (snd (poll_service_transmit clk srv h now buf ep)))"
    "follows srv pinv ep (snd (note_service_transmit_outcome clk draw evs srv h now v4 v6 ep))"
    "follows srv pinv ep (snd (force_remove_service clk srv h now ep))"
    "follows srv pinv ep (snd (snd (poll_withdrawal_transmit clk srv now buf ep)))"
    "follows srv pinv ep (fst (drain_completed_withdrawals clk srv now ep))"
proof -
  show "follows srv pinv ep (snd (try_register_service clk draw seed_rng evs srv spec now ep))"
    by (rule register_follows [OF assms surjective_pairing])
  show "follows srv pinv ep (snd (snd (poll_service_transmit clk srv h now buf ep)))"
    by (cases "poll_service_transmit clk srv h now buf ep") (simp add: transmit_follows [OF assms])
  show "follows srv pinv ep (snd (note_service_transmit_outcome clk draw evs srv h now v4 v6 ep))"
    by (rule outcome_follows [OF assms surjective_pairing])
  show "follows srv pinv ep (snd (force_remove_service clk srv h now ep))"
    by (rule force_remove_follows [OF assms surjective_pairing])
  show "follows srv pinv ep (snd (snd (poll_withdrawal_transmit clk srv now buf ep)))"
    by (cases "poll_withdrawal_transmit clk srv now buf ep") (simp add: goodbye_transmit_follows [OF assms])
  show "follows srv pinv ep (fst (drain_completed_withdrawals clk srv now ep))"
    by (rule drain_follows [OF assms surjective_pairing])
qed

lemma queries_follow:
  assumes "services_ok srv pinv ep"
  shows "follows srv pinv ep (snd (with_query qry h absent f ep))" "follows srv pinv ep (snd (try_start_query clk an ev qry spec now ep))"
    "follows srv pinv ep (snd (cancel_query qry h ep))" "follows srv pinv ep (snd (sweep_terminated_queries qry ep))"
    "follows srv pinv ep (snd (endpoint_poll eps ep))"
  by (intro same_books_follows [OF assms] query_books)+

lemma step_follows:
  assumes "services_ok srv pinv ep" "names_ok (ledger_of srv ep)"
  shows "follows srv pinv ep (endpoint_step clk draw seed_rng evs an ev srv qry ents eps input ep)"
proof (cases input)
  case (EI_TakeUpdate h)
  then show ?thesis using poll_service_follows [OF assms(1) surjective_pairing] by simp
next
  case (EI_ServiceTimer h now)
  then show ?thesis using timer_follows [OF assms surjective_pairing] by simp
next
  case (EI_Receive now rx)
  then show ?thesis using receive_follows [OF assms(1), of clk draw evs an ev qry ents now rx] assms(1)
    by (auto simp: follows_def split: option.split)
next
  case (EI_Timer now)
  then show ?thesis using same_books_follows [OF assms(1) timer_books] by simp
qed (simp_all add: services_follow [OF assms(1)] queries_follow [OF assms(1)] unregister_follows [OF assms(1)]
    goodbye_result_follows [OF assms(1)] poll_query_def handle_query_timeout_def poll_query_transmit_def
    note_query_transmit_outcome_def retire_query_def)

lemma names_steps: "ledger_steps l l' \<Longrightarrow> names_ok l \<Longrightarrow> names_ok l'"
  by (induction rule: rtranclp_induct) (auto intro: names_step)

lemma run_follows:
  assumes "services_ok srv pinv ep" "names_ok (ledger_of srv ep)"
  shows "follows srv pinv ep (endpoint_run clk draw seed_rng evs an ev srv qry ents eps inputs ep)"
  using assms
proof (induction inputs arbitrary: ep)
  case (Cons input inputs)
  let ?ep1 = "endpoint_step clk draw seed_rng evs an ev srv qry ents eps input ep"
  have f: "follows srv pinv ep ?ep1" by (rule step_follows [OF Cons.prems])
  then have "services_ok srv pinv ?ep1" "names_ok (ledger_of srv ?ep1)"
    using names_steps Cons.prems(2) unfolding follows_def by blast+
  from follows_trans [OF f Cons.IH [OF this]] show ?case by (simp add: endpoint_run_def)
qed (simp add: endpoint_run_def follows_def)

text \<open>
  C3. The endpoint implements its ledger: whatever its owner calls, what happens to the names, the handles and
  the goodbyes is a sequence of moves of the ledger - a registration under a free name, a rename to a free
  name, a goodbye begun, detached or drained, a removal - and nothing else.
\<close>
theorem endpoint_refines_ledger:
  assumes "pool srv pinv" "pinv (ep_services ep)" "names_ok (ledger_of srv ep)"
  shows "ledger_steps (ledger_of srv ep)
       (ledger_of srv (endpoint_run clk draw seed_rng evs an ev srv qry ents eps inputs ep)) \<and>
     pinv (ep_services (endpoint_run clk draw seed_rng evs an ev srv qry ents eps inputs ep))"
  using run_follows [of srv pinv ep clk draw seed_rng evs an ev qry ents eps inputs] assms
  by (simp add: follows_def services_ok_def)

lemma new_ledger:
  assumes "pool srv pinv"
  shows "services_ok srv pinv (endpoint_try_new next_u32 srv qry ents eps config rng)"
    "ledger_ok (ledger_of srv (endpoint_try_new next_u32 srv qry ents eps config rng))"
  using pool.new_inv [OF assms] pool.new_iter [OF assms] assms
  by (simp_all add: services_ok_def endpoint_try_new_def Let_def split_beta ledger_of_def ledger_ok_def names_ok_def handles_ok_def
      items_ok_def leaving_ok_def)

text \<open>What the ledger says, read back in terms of the routes and the goodbyes.\<close>

lemma ledger_facts:
  assumes "names_ok (ledger_of srv ep)" "handles_ok (ledger_of srv ep)" "items_ok (ledger_of srv ep)" "leaving_ok (ledger_of srv ep)"
  shows "routes srv ep k = Some r \<Longrightarrow> routes srv ep k' = Some r' \<Longrightarrow> k \<noteq> k' \<Longrightarrow>
       \<not> same_owner (rt_name r) (rt_name r') \<and> rt_handle r \<noteq> rt_handle r'"
    "routes srv ep k = Some r \<Longrightarrow> same_owner (rt_name r) (sr_instance (sv_records (rt_proto r)))"
    "distinct (map fst (ep_withdrawals ep))"
    "(\<exists>t w. (t, w) \<in> set (ep_withdrawals ep) \<and> wi_route w = Some h) \<longleftrightarrow>
       (\<exists>k r. routes srv ep k = Some r \<and> rt_handle r = h \<and> rt_withdrawing r)"
    "(t, w) \<in> set (ep_withdrawals ep) \<Longrightarrow> (t', w') \<in> set (ep_withdrawals ep) \<Longrightarrow>
       wi_route w = wi_route w' \<Longrightarrow> wi_route w \<noteq> None \<Longrightarrow> t = t'"
proof -
  let ?l = "ledger_of srv ep"
  have e: "lg_routes ?l k = Some (rt_name r, rt_handle r, rt_withdrawing r, sr_instance (sv_records (rt_proto r)))"
    if "routes srv ep k = Some r" for k r
    using that by (simp add: ledger_of_def)
  show "\<not> same_owner (rt_name r) (rt_name r') \<and> rt_handle r \<noteq> rt_handle r'"
    if "routes srv ep k = Some r" "routes srv ep k' = Some r'" "k \<noteq> k'"
  proof
    have "name_free (rt_name r') k' ?l" using assms(1) e [OF that(2)] unfolding names_ok_def by blast
    then show "\<not> same_owner (rt_name r) (rt_name r')" using e [OF that(1)] that(3) unfolding name_free_def by blast
    show "rt_handle r \<noteq> rt_handle r'" using handles_apart [OF assms(2) e [OF that(1)]] e [OF that(2)] that(3) by metis
  qed
  show "same_owner (rt_name r) (sr_instance (sv_records (rt_proto r)))" if "routes srv ep k = Some r"
    using assms(1) e [OF that] unfolding names_ok_def by blast
  have fst: "map fst (lg_items ?l) = map fst (ep_withdrawals ep)" by (simp add: ledger_of_def comp_def split_beta)
  with assms(3) show "distinct (map fst (ep_withdrawals ep))" by (simp add: items_ok_def)
  have item: "(t, wi_route w) \<in> set (lg_items ?l)" if "(t, w) \<in> set (ep_withdrawals ep)" for t w
    using that by (force simp: ledger_of_def)
  have "(\<exists>t w. (t, w) \<in> set (ep_withdrawals ep) \<and> wi_route w = Some h) \<longleftrightarrow> Some h \<in> snd ` set (lg_items ?l)"
    by (force simp: ledger_of_def)
  also have "\<dots> \<longleftrightarrow> (\<exists>k n i. lg_routes ?l k = Some (n, h, True, i))" using assms(4) unfolding leaving_ok_def by blast
  also have "\<dots> \<longleftrightarrow> (\<exists>k r. routes srv ep k = Some r \<and> rt_handle r = h \<and> rt_withdrawing r)"
    by (auto simp: ledger_of_def)
  finally show "(\<exists>t w. (t, w) \<in> set (ep_withdrawals ep) \<and> wi_route w = Some h) \<longleftrightarrow>
       (\<exists>k r. routes srv ep k = Some r \<and> rt_handle r = h \<and> rt_withdrawing r)" .
  show "t = t'" if "(t, w) \<in> set (ep_withdrawals ep)" "(t', w') \<in> set (ep_withdrawals ep)" "wi_route w = wi_route w'" "wi_route w \<noteq> None"
  proof -
    let ?routed = "filter (\<lambda>x. snd x \<noteq> None) (lg_items ?l)"
    have inj: "inj_on snd (set ?routed)" using assms(3) by (simp add: items_ok_def distinct_map)
    have mem: "(t, wi_route w) \<in> set ?routed" "(t', wi_route w') \<in> set ?routed"
      using item [OF that(1)] item [OF that(2)] that(3,4) by simp_all
    have "snd (t, wi_route w) = snd (t', wi_route w')" using that(3) by simp
    from inj_onD [OF inj this mem] have "(t, wi_route w) = (t', wi_route w')" .
    then show ?thesis by simp
  qed
qed

text \<open>
  C2. In every state that calls can reach before a counter runs out: no two services claim one name, in
  whatever spelling, or go by one handle; every route is found under the name its service carries; the tokens
  of the goodbyes are distinct; and exactly the services under withdrawal have a goodbye of their own, one each.
\<close>
theorem endpoint_invariant:
  assumes "pool srv pinv"
    and "ep = endpoint_run clk draw seed_rng evs an ev srv qry ents eps inputs (endpoint_try_new next_u32 srv qry ents eps config rng)"
    and "ep_next_service_handle ep < u32_max" "ep_next_withdrawal_token ep < u64_max"
  shows "(\<forall>k k' r r'. pmap srv (ep_services ep) k = Some r \<longrightarrow> pmap srv (ep_services ep) k' = Some r' \<longrightarrow> k \<noteq> k' \<longrightarrow>
         \<not> same_owner (rt_name r) (rt_name r') \<and> rt_handle r \<noteq> rt_handle r') \<and>
     (\<forall>k r. pmap srv (ep_services ep) k = Some r \<longrightarrow> same_owner (rt_name r) (sr_instance (sv_records (rt_proto r)))) \<and>
     distinct (map fst (ep_withdrawals ep)) \<and>
     (\<forall>h. (\<exists>t w. (t, w) \<in> set (ep_withdrawals ep) \<and> wi_route w = Some h) \<longleftrightarrow>
          (\<exists>k r. pmap srv (ep_services ep) k = Some r \<and> rt_handle r = h \<and> rt_withdrawing r)) \<and>
     (\<forall>t t' w w'. (t, w) \<in> set (ep_withdrawals ep) \<longrightarrow> (t', w') \<in> set (ep_withdrawals ep) \<longrightarrow>
          wi_route w = wi_route w' \<longrightarrow> wi_route w \<noteq> None \<longrightarrow> t = t')"
proof -
  let ?ep0 = "endpoint_try_new next_u32 srv qry ents eps config rng" and ?l = "ledger_of srv ep"
  have l0: "ledger_ok (ledger_of srv ?ep0)" by (rule new_ledger(2) [OF assms(1)])
  then have "names_ok (ledger_of srv ?ep0)" by (simp add: ledger_ok_def)
  from run_follows [OF new_ledger(1) [OF assms(1)] this, of clk draw seed_rng evs an ev qry ents eps inputs]
  have "ledger_steps (ledger_of srv ?ep0) ?l" unfolding assms(2) follows_def by blast
  from ledger_steps_ok [OF this l0] assms(3,4) have ok: "names_ok ?l" "handles_ok ?l" "items_ok ?l" "leaving_ok ?l"
    by (simp_all add: ledger_of_def ledger_ok_def)
  show ?thesis using ledger_facts [OF ok] by blast
qed

subsection \<open>Two services, one of them leaving\<close>

definition slab_run :: "smoltcp_instant endpoint_input list \<Rightarrow> slab_endpoint" where
  "slab_run inputs = endpoint_run smoltcp_clock quiet_rng quiet_seed (list_slab :: service_update slab) (list_slab :: collected_answer slab)
     (list_slab :: query_update slab) list_slab list_slab list_slab list_slab inputs fresh_endpoint"

definition one_of_two_leaves :: "smoltcp_instant endpoint_input list" where
  "one_of_two_leaves =
     [EI_Register (sr_new (Name [98]) (Name [97, 46, 98]) (Name [104]) 80 120) (SmoltcpInstant 0),
      EI_Register (sr_new (Name [98]) (Name [99, 46, 98]) (Name [104]) 81 120) (SmoltcpInstant 0),
      EI_Unregister (ServiceHandle 0) (SmoltcpInstant 1)]"

lemma endpoint_refines_ledger_witness:
  "ledger_steps (ledger_of (list_slab :: slab_route slab) fresh_endpoint) (ledger_of list_slab (slab_run one_of_two_leaves))"
proof -
  have "ledger_ok (ledger_of (list_slab :: slab_route slab) fresh_endpoint)"
    unfolding fresh_endpoint_def by (rule new_ledger(2) [OF list_slab.pool_axioms])
  then have "names_ok (ledger_of (list_slab :: slab_route slab) fresh_endpoint)" by (simp add: ledger_ok_def)
  moreover have "distinct (map fst (ep_services fresh_endpoint))" by (simp add: fresh_endpoint_def endpoint_try_new_def list_slab_def Let_def split_beta)
  ultimately show ?thesis unfolding slab_run_def
    using endpoint_refines_ledger [OF list_slab.pool_axioms] by blast
qed

lemma endpoint_invariant_witness:
  "\<exists>t w. (t, w) \<in> set (ep_withdrawals (slab_run one_of_two_leaves)) \<and> wi_route w = Some (ServiceHandle 0)"
proof -
  have c: "ep_next_service_handle (slab_run one_of_two_leaves) < u32_max" "ep_next_withdrawal_token (slab_run one_of_two_leaves) < u64_max"
    "case pmap (list_slab :: slab_route slab) (ep_services (slab_run one_of_two_leaves)) 0 of
       Some r \<Rightarrow> rt_handle r = ServiceHandle 0 \<and> rt_withdrawing r | None \<Rightarrow> False" by code_simp+
  then have "\<exists>k r. pmap (list_slab :: slab_route slab) (ep_services (slab_run one_of_two_leaves)) k = Some r \<and>
      rt_handle r = ServiceHandle 0 \<and> rt_withdrawing r" by (auto split: option.splits)
  with endpoint_invariant [OF list_slab.pool_axioms slab_run_def [unfolded fresh_endpoint_def], of one_of_two_leaves] c(1,2)
  show ?thesis by blast
qed

end
