(* ===== verification/Spec2Isabelle.thy ===== *)
theory Spec2Isabelle
  imports WireHeader WireName WireCanonical BuilderTransaction Cache Schedule Records QueryLife TieBreak
    Flood Admits ServiceQuiet RouteReach RelinquishedScreen OnLink EndpointRuns
begin

text \<open>
  A verification development for \<open>hick\<close>, an implementation of multicast DNS and DNS service discovery
  (RFC 6762, RFC 6763) in Rust.  It models the protocol core, the crate \<open>mdns-proto\<close>
  (\<open>src/mdns-proto/src\<close>), which does no input or output of its own: its owner hands it datagrams, times
  and the outcome of sends, and takes datagrams and events from it.  Beside it stands the rule on the link
  a datagram came from, the crate \<open>hick-onlink\<close>.

  How the program hangs together.  An \<open>Endpoint\<close> keeps a pool of routes, one per service it announces, a
  pool of queries, a record cache, the goodbyes under way and what it recently gave up.  A service is a
  state machine: it probes for its name three times, announces it twice, then answers questions, and is
  defeated by a conflicting answer or a lost tie-break, upon which it renames itself or gives up.  A datagram
  is parsed by the message reader, screened by provenance, observed by queries and cache, and then routed
  item by item to the services and queries it concerns.  What a service sends is composed by the message
  builder; the outcome of each send, per address family, feeds the schedules and the account from which a
  goodbye is drawn later.

  Which theory models what.
  \<^item> \<open>Prelude\<close>: bytes, results, lists with checked access, big-endian integers, dotted strings, saturation.
  \<^item> \<open>WireTypes\<close>, \<open>WireHeader\<close> (\<open>wire/opcode.rs\<close>, \<open>flags.rs\<close>, \<open>header.rs\<close>, \<open>resource_type.rs\<close>, \<open>error.rs\<close>):
    codes, the flag word, the twelve octets of the header and their round trips.
  \<^item> \<open>DnsName\<close>, \<open>WireName\<close> (\<open>name.rs\<close>, \<open>wire/name.rs\<close>): owned names and names inside a message with compression
    pointers.  The iterator may follow 32 pointers and 255 octets; that it ends is proved, not assumed.
  \<^item> \<open>WireRecord\<close>, \<open>WireReader\<close>, \<open>WireCanonical\<close> (\<open>wire/question.rs\<close>, \<open>record/\<close>, \<open>reader.rs\<close>): questions, records,
    the sections of a message, canonical RDATA.
  \<^item> \<open>WireBuilder\<close>, \<open>BuilderNames\<close>, \<open>BuilderRoundTrip\<close>, \<open>BuilderMessage\<close>, \<open>BuilderTransaction\<close> (\<open>wire/builder.rs\<close>): the
    builder with its compression table and checkpoints; what is built reads back.
  \<^item> \<open>Clock\<close>, \<open>Pool\<close>, \<open>Net\<close>, \<open>Cache\<close> (\<open>time.rs\<close>, \<open>pool.rs\<close>, \<open>cache.rs\<close>): the time and storage interfaces as
    records of operations with their laws in locales, an instance of each, and the record cache.
  \<^item> \<open>Transmit\<close>, \<open>Schedule\<close>, \<open>Records\<close>, \<open>Events\<close> (\<open>transmit.rs\<close>, \<open>service/schedule.rs\<close>, \<open>records.rs\<close>, \<open>config.rs\<close>,
    \<open>event.rs\<close>): outcomes per family, announcement timing and patience, data and events.
  \<^item> \<open>Query\<close>, \<open>QueryLife\<close> (\<open>query/mod.rs\<close>, \<open>query/retry.rs\<close>): a query, and its invariant and end.
  \<^item> \<open>Matching\<close>, \<open>Respond\<close>, \<open>RespondMessage\<close> (\<open>endpoint/matching.rs\<close>, \<open>service/respond.rs\<close>): who a question is
    about, and the datagrams a service writes, read back.
  \<^item> \<open>Proposal\<close>, \<open>TieBreak\<close>, \<open>Flood\<close> (\<open>service/proposal.rs\<close>, \<open>endpoint/flood.rs\<close>): simultaneous probes, and the
    limit on conflicts.
  \<^item> \<open>Rename\<close>, \<open>Exposure\<close>, \<open>Service\<close>, \<open>ServiceOps\<close>, \<open>ServiceTick\<close> (\<open>service/mod.rs\<close>): the service state machine; its
    properties over every sequence of inputs are in \<open>ServiceLife\<close> (lifecycle), \<open>ServiceGoodbye\<close> (the account),
    \<open>ServiceBounds\<close> (bounds), \<open>ServiceQuiet\<close> (silence, the conflict limit) and \<open>ServiceNames\<close> (what it is called).
  \<^item> \<open>Admits\<close> (\<open>endpoint/admits.rs\<close>, \<open>received.rs\<close>): provenance of a datagram and what it may do.
  \<^item> \<open>Endpoint\<close>, \<open>EndpointService\<close>, \<open>EndpointQuery\<close>, \<open>Withdrawal\<close>, \<open>Relinquished\<close>, \<open>Receive\<close>, \<open>Route\<close>
    (\<open>endpoint/mod.rs\<close>, \<open>service.rs\<close>, \<open>query.rs\<close>, \<open>withdrawal.rs\<close>, \<open>relinquished.rs\<close>, \<open>receive.rs\<close>, \<open>route.rs\<close>): the
    endpoint, one function per method.
  \<^item> \<open>OnLink\<close> (\<open>hick-onlink/src/lib.rs\<close>): which datagrams count as coming from the local link.

  What the lemmas on the endpoint show.  \<open>RouteLife\<close>: the routing of a datagram ends over any pools that keep
  their contract, as long as no key is the greatest \<open>usize\<close>, and leaves a withdrawing service alone.
  \<open>RouteReach\<close>: which services a question reaches over a pool of any iteration order - all it is about when
  the pool iterates in the order of its keys, which the trait does not promise - and that a service under
  the greatest key, where the saturating cursor stops, keeps the iterator for ever.
  \<open>RelinquishedScreen\<close>: the records given up that may still echo are screened, in two tiers that agree.
  \<open>WithdrawalLife\<close>: goodbyes end.  \<open>Ledger\<close> states what an endpoint promises about names, handles and goodbyes as
  a small transition system; \<open>EndpointLife\<close> shows that every method follows it, and \<open>EndpointRuns\<close> that every
  sequence of calls does, so that the invariants of the ledger hold in every reachable state.

  Conventions.  A byte is an 8-bit word, \<open>usize\<close> a natural number (arithmetic on it that saturates does so at
  \<open>2 ^ 64 - 1\<close>, the limit of a 64-bit target), a \<open>Result\<close> a sum with the error on the
  left, a string its UTF-8 octets, a struct a record, a method a function from the state to its result and
  the new state.  Times are of an arbitrary linear order with the operations of \<open>clock\<close>; durations are
  nanoseconds.  Pools, random generators and the hash of the compression table are arguments; what is
  relied on is a hypothesis (\<open>pool\<close>, a hash without collisions on the suffixes at hand) and every property with
  one has a witness on a concrete instance.  Counters saturate as in the code; invariants that rest on fresh
  numbers say that the counter has not run out.

  Bounds and fuel.  Loops of the code are structural recursions or functions with a termination proof
  (\<open>poll_withdrawal_transmit\<close> by the number of items due).  The label iterator has the fuel its two limits
  imply, and enough of it is proved to be enough.  The routing loop is a partial function: that it returns
  is a theorem under a bound on the keys, and that it does not return at the bound is another.

  Not modelled.  The drivers (\<open>hick-reactor\<close>, \<open>hick-compio\<close>, \<open>hick-mio\<close>, \<open>hick-smoltcp\<close>, \<open>hick-embassy\<close>), the
  sockets (\<open>hick-udp\<close>) and \<open>hick-trace\<close>: system calls, tasks and channels of third-party runtimes and logging.
  Inside the core, statistics, tracing, debug assertions and test-only code are left out, so the model is that
  of a release build; of \<open>error.rs\<close> and \<open>constants.rs\<close> the parts the modelled code uses.  \<open>slab::Slab\<close> and the
  random generators are third-party.
\<close>

end
